(* ===== verification/Prelude.thy ===== *)
theory Prelude
  imports Main "HOL-Library.Word"
begin

text \<open>
  Shared ground of the development: the errors of the kernel as values, the widths of its integer
  types, the collections that the component theories extend, and generic facts on lists, options
  and modular arithmetic.
\<close>

section \<open>Results\<close>

text \<open>
  The error codes that the modelled code returns (\<open>kernel/api/errno.h\<close>), by name.
\<close>

datatype errno =
    EPERM | ENOENT | ESRCH | EINTR | EIO | ENXIO | EBADF | ECHILD | EAGAIN | ENOMEM | EACCES
  | EFAULT | EEXIST | ENODEV | ENOTDIR | EISDIR | EINVAL | EMFILE | ENOSPC | ESPIPE | EROFS
  | EPIPE | ENAMETOOLONG | ENOTEMPTY | ELOOP | EADDRINUSE | EHOSTUNREACH | EISCONN
  | EINPROGRESS | ECONNREFUSED | EAFNOSUPPORT | ENOTSUP | EOVERFLOW

text \<open>
  How an operation can fail: with an error code (\<open>Result(E...)\<close>), in an \<open>ASSERT\<close> or
  \<open>PANIC\<close> that stops the kernel, or in an access that the language leaves undefined (a null
  or dangling pointer, an index outside its array, an element that was already destroyed).
  \<open>Diverges\<close> stands for a loop that does not end; functions defined by
  \<^theory_text>\<open>partial_function\<close> say so with \<open>None\<close>, which \<open>returned\<close> turns into it.
\<close>

datatype failure = Err errno | AssertFail | Undefined | Diverges

type_synonym 'a result = "failure + 'a"

text \<open>\<open>TRY\<close> of \<open>kernel/Result.hpp\<close>: the value, or return of the failure.\<close>

definition rbind :: "'a result \<Rightarrow> ('a \<Rightarrow> 'b result) \<Rightarrow> 'b result" where
  "rbind r f = (case r of Inl e \<Rightarrow> Inl e | Inr x \<Rightarrow> f x)"

definition returned :: "'a result option \<Rightarrow> 'a result" where
  "returned r = (case r of None \<Rightarrow> Inl Diverges | Some x \<Rightarrow> x)"

definition rassert :: "bool \<Rightarrow> 'a result \<Rightarrow> 'a result" where
  "rassert b r = (if b then r else Inl AssertFail)"

lemma rbind_simps [simp]:
  "rbind (Inl e) f = Inl e"
  "rbind (Inr x) f = f x"
  by (simp_all add: rbind_def)

lemma returned_simps [simp]:
  "returned None = Inl Diverges"
  "returned (Some r) = r"
  by (simp_all add: returned_def)

lemma rassert_simps [simp]:
  "rassert True r = r"
  "rassert False r = Inl AssertFail"
  by (simp_all add: rassert_def)

lemma rbind_eq_Inr_iff: "rbind r f = Inr y \<longleftrightarrow> (\<exists>x. r = Inr x \<and> f x = Inr y)"
  by (cases r) auto

lemma rassert_eq_Inr_iff: "rassert b r = Inr y \<longleftrightarrow> b \<and> r = Inr y"
  by (cases b) auto

section \<open>Collections\<close>

named_theorems ring_defs \<open>unfolding the operations of the ring buffers\<close>
named_theorems heap_simps \<open>reading the kernel's stores after an update\<close>

section \<open>Loops\<close>

text \<open>
  \<open>for\<close> loops whose body can fail, over the list of the loop counter's values, and a body that is
  repeated a number of times.
\<close>

fun rfold :: "('i \<Rightarrow> 's \<Rightarrow> 's result) \<Rightarrow> 'i list \<Rightarrow> 's \<Rightarrow> 's result" where
  "rfold f [] s = Inr s"
| "rfold f (i # is) s = rbind (f i s) (rfold f is)"

fun rrepeat :: "nat \<Rightarrow> ('s \<Rightarrow> 's result) \<Rightarrow> 's \<Rightarrow> 's result" where
  "rrepeat 0 f s = Inr s"
| "rrepeat (Suc n) f s = rbind (f s) (rrepeat n f)"

lemma rfold_append: "rfold f (xs @ ys) s = rbind (rfold f xs s) (rfold f ys)"
proof (induction xs arbitrary: s)
  case (Cons x xs)
  then show ?case by (cases "f x s") auto
qed simp

lemma rfold_upt:
  assumes "a \<le> b" "I a s" "\<And>k s. a \<le> k \<Longrightarrow> k < b \<Longrightarrow> I k s \<Longrightarrow> \<exists>s'. f k s = Inr s' \<and> I (Suc k) s'"
  shows "\<exists>s'. rfold f [a..<b] s = Inr s' \<and> I b s'"
  using assms
proof (induction "b - a" arbitrary: a s)
  case (Suc n)
  then have "a < b" by simp
  obtain s1 where s1: "f a s = Inr s1" "I (Suc a) s1" using Suc.prems(3) [of a s] Suc.prems(2) \<open>a < b\<close> by auto
  have "\<exists>s'. rfold f [Suc a..<b] s1 = Inr s' \<and> I b s'"
  proof (rule Suc.hyps(1))
    show "n = b - Suc a" using Suc.hyps(2) by simp
    show "Suc a \<le> b" using \<open>a < b\<close> by simp
    show "I (Suc a) s1" by (rule s1(2))
    show "\<exists>s'. f k s = Inr s' \<and> I (Suc k) s'" if "Suc a \<le> k" "k < b" "I k s" for k s
      using Suc.prems(3) [of k s] that by simp
  qed
  then show ?case using s1(1) \<open>a < b\<close> by (simp add: upt_rec)
qed simp

lemma rfold_inv:
  assumes "I s" "\<And>k s. k \<in> set ks \<Longrightarrow> I s \<Longrightarrow> \<exists>s'. f k s = Inr s' \<and> I s'"
  shows "\<exists>s'. rfold f ks s = Inr s' \<and> I s'"
  using assms
proof (induction ks arbitrary: s)
  case (Cons k ks)
  obtain s1 where "f k s = Inr s1" "I s1" using Cons.prems by fastforce
  then show ?case using Cons.IH [of s1] Cons.prems(2) by auto
qed simp

lemma rrepeat_inv:
  assumes "I s" "\<And>s. I s \<Longrightarrow> \<exists>s'. f s = Inr s' \<and> I s'"
  shows "\<exists>s'. rrepeat n f s = Inr s' \<and> I s'"
  using assms(1)
proof (induction n arbitrary: s)
  case (Suc n)
  obtain s1 where "f s = Inr s1" "I s1" using assms(2) Suc.prems by blast
  then show ?case using Suc.IH [of s1] by auto
qed simp

section \<open>Lists\<close>



lemma map_upt_Suc_snoc: "map f [0..<Suc n] = map f [0..<n] @ [f n]"
  by simp

lemma map_upt_Suc_Cons: "map f [0..<Suc n] = f 0 # map (\<lambda>i. f (Suc i)) [0..<n]"
  by (simp add: map_upt_Suc del: upt_Suc)

lemma ex_less_nonzero_shift: "(\<exists>i < n. i \<noteq> 0 \<and> P i) \<longleftrightarrow> (\<exists>i < n - 1. P (Suc i))"
proof
  assume "\<exists>i < n. i \<noteq> 0 \<and> P i"
  then obtain i where "i < n" "i \<noteq> 0" "P i" by blast
  then have "i - 1 < n - 1" "P (Suc (i - 1))" by auto
  then show "\<exists>i < n - 1. P (Suc i)" by blast
next
  assume "\<exists>i < n - 1. P (Suc i)"
  then obtain i where "i < n - 1" "P (Suc i)" by blast
  then have "Suc i < n" "Suc i \<noteq> 0" "P (Suc i)" by auto
  then show "\<exists>i < n. i \<noteq> 0 \<and> P i" by blast
qed

lemma ex_less_nonlast: "(\<exists>i < n. i \<noteq> n - 1 \<and> P i) \<longleftrightarrow> (\<exists>i < n - (1::nat). P i)"
proof -
  have "i < n \<and> i \<noteq> n - 1 \<longleftrightarrow> i < n - 1" for i by arith
  then show ?thesis by (metis (no_types))
qed

section \<open>Modular arithmetic\<close>

lemma mod_step: "((f + 1) mod c + i) mod c = (f + Suc i) mod (c::nat)"
  by (simp add: mod_add_left_eq)

lemma mod_pred:
  assumes "b = Suc n mod c" "0 < (c::nat)"
  shows "n mod c = (if b = 0 then c - 1 else b - 1)"
  using assms by (auto simp: mod_Suc)

lemma mod_add_inj_le:
  assumes "(f + i) mod c = (f + j) mod c" "i \<le> j" "j < (c::nat)"
  shows "i = j"
proof -
  have "c dvd (f + j) - (f + i)"
    using assms(1,2) mod_eq_dvd_iff_nat [of "f + i" "f + j" c] by simp
  then have "c dvd j - i" by simp
  moreover have "j - i < c" using assms(3) by simp
  ultimately have "j - i = 0" using nat_dvd_not_less by blast
  then show ?thesis using assms(2) by simp
qed

lemma mod_add_inj:
  assumes "(f + i) mod c = (f + j) mod c" "i < c" "j < (c::nat)"
  shows "i = j"
  using assms mod_add_inj_le [of f i c j] mod_add_inj_le [of f j c i]
  by (cases "i \<le> j") auto

section \<open>Runs of operations and data refinement\<close>

text \<open>
  A component is a step function: it takes the state and an operation and gives the value returned
  and the next state, or fails. \<open>run_ops\<close> performs a list of operations and stops at the first
  failure.
\<close>

fun run_ops :: "('s \<Rightarrow> 'p \<Rightarrow> ('r \<times> 's) result) \<Rightarrow> 's \<Rightarrow> 'p list \<Rightarrow> ('r list \<times> 's) result" where
  "run_ops step s [] = Inr ([], s)"
| "run_ops step s (p # ps) =
     (case step s p of
        Inl e \<Rightarrow> Inl e
      | Inr (r, s') \<Rightarrow>
          (case run_ops step s' ps of Inl e \<Rightarrow> Inl e | Inr (rs, s'') \<Rightarrow> Inr (r # rs, s'')))"

definition lift_abs :: "('s \<Rightarrow> 'a) \<Rightarrow> ('r \<times> 's) result \<Rightarrow> ('r \<times> 'a) result" where
  "lift_abs f m = (case m of Inl e \<Rightarrow> Inl e | Inr (r, s) \<Rightarrow> Inr (r, f s))"

lemma lift_abs_simps [simp]:
  "lift_abs f (Inl e) = Inl e"
  "lift_abs f (Inr (r, s)) = Inr (r, f s)"
  by (simp_all add: lift_abs_def)

text \<open>
  The contract between a detailed component and its specification: from every state that
  satisfies the invariant the two steps return the same value or the same failure, and the next
  states correspond. Runs of any length then correspond too.
\<close>

locale data_refinement =
  fixes inv :: "'s \<Rightarrow> bool"
    and abs :: "'s \<Rightarrow> 'a"
    and cstep :: "'s \<Rightarrow> 'p \<Rightarrow> ('r \<times> 's) result"
    and astep :: "'a \<Rightarrow> 'p \<Rightarrow> ('r \<times> 'a) result"
  assumes step_refines: "inv s \<Longrightarrow> lift_abs abs (cstep s p) = astep (abs s) p"
    and step_inv: "inv s \<Longrightarrow> cstep s p = Inr (r, s') \<Longrightarrow> inv s'"
begin

lemma run_inv: "inv s \<Longrightarrow> run_ops cstep s ps = Inr (rs, s') \<Longrightarrow> inv s'"
  by (induction ps arbitrary: s rs) (auto dest: step_inv split: sum.splits prod.splits)

lemma run_total:
  assumes "\<And>a p. \<exists>r a'. astep a p = Inr (r, a')" "inv s"
  shows "\<exists>rs s'. run_ops cstep s ps = Inr (rs, s') \<and> inv s'"
  using assms(2)
proof (induction ps arbitrary: s)
  case (Cons p ps)
  obtain r a' where "astep (abs s) p = Inr (r, a')" using assms(1) by blast
  then obtain s' where s': "cstep s p = Inr (r, s')"
    using step_refines [OF Cons.prems, of p] by (cases "cstep s p") auto
  then obtain rs s'' where "run_ops cstep s' ps = Inr (rs, s'')" "inv s''"
    using Cons.IH [OF step_inv [OF Cons.prems s']] by blast
  then show ?case using s' by simp
qed simp

lemma run_refines: "inv s \<Longrightarrow> lift_abs abs (run_ops cstep s ps) = run_ops astep (abs s) ps"
proof (induction ps arbitrary: s)
  case (Cons p ps)
  show ?case
  proof (cases "cstep s p")
    case (Inl e)
    then have "astep (abs s) p = Inl e" using step_refines [OF Cons.prems, of p] by simp
    then show ?thesis using Inl by simp
  next
    case (Inr rs)
    obtain r s' where rs: "rs = (r, s')" by (cases rs)
    have "run_ops astep (abs s') ps = lift_abs abs (run_ops cstep s' ps)"
      using Cons.IH step_inv Cons.prems Inr rs by simp
    moreover have "astep (abs s) p = Inr (r, abs s')"
      using step_refines [OF Cons.prems, of p] Inr rs by simp
    ultimately show ?thesis
      using Inr rs by (cases "run_ops cstep s' ps") auto
  qed
qed simp

end

end
