(* ===== verification/Ring.thy ===== *)
theory Ring
  imports Prelude
begin

text \<open>
  The storage layout that \<open>kstd::circular_queue\<close> and \<open>kstd::queue\<close> share: an array
  of cells, of which \<open>rsize\<close> consecutive ones (modulo the capacity) starting at \<open>rfront\<close>
  hold live elements and the others hold raw memory. The two container theories define the
  operations; this theory has the layout, its invariant, the list it stands for, and the lemmas on
  the three changes that an operation makes to it: fill the cell after the last, drop the first,
  drop the last.
\<close>

section \<open>Layout\<close>

text \<open>
  A cell is \<open>None\<close> while it holds no constructed object: fresh memory of \<open>kcalloc\<close>, or
  an element whose destructor ran.
\<close>

record 'a ring =
  rstorage :: "'a option list"
  rcapacity :: nat
  rsize :: nat
  rfront :: nat
  rback :: nat

definition ring_cell :: "'a ring \<Rightarrow> nat \<Rightarrow> nat" where
  "ring_cell q i = (rfront q + i) mod rcapacity q"

definition ring_list :: "'a ring \<Rightarrow> 'a list" where
  "ring_list q = map (\<lambda>i. the (rstorage q ! ring_cell q i)) [0..<rsize q]"

definition ring_wf :: "'a ring \<Rightarrow> bool" where
  "ring_wf q \<longleftrightarrow>
     length (rstorage q) = rcapacity q \<and> rsize q \<le> rcapacity q \<and>
     (if rsize q = 0 then rfront q = 0 \<and> rback q = 0
      else rfront q < rcapacity q \<and> rback q = ring_cell q (rsize q - 1)) \<and>
     (\<forall>c < rcapacity q. rstorage q ! c \<noteq> None \<longleftrightarrow> (\<exists>i < rsize q. c = ring_cell q i))"

section \<open>Facts on the layout\<close>

lemma ring_cell_less: "0 < rcapacity q \<Longrightarrow> ring_cell q i < rcapacity q"
  by (simp add: ring_cell_def)

lemma ring_cell_inj:
  "i < rcapacity q \<Longrightarrow> j < rcapacity q \<Longrightarrow> ring_cell q i = ring_cell q j \<longleftrightarrow> i = j"
  by (auto simp: ring_cell_def dest: mod_add_inj)

lemma length_ring_list [simp]: "length (ring_list q) = rsize q"
  by (simp add: ring_list_def)

lemma ring_list_nth: "i < rsize q \<Longrightarrow> ring_list q ! i = the (rstorage q ! ring_cell q i)"
  by (simp add: ring_list_def)

lemma ring_wfI:
  assumes "length (rstorage q) = rcapacity q" "rsize q \<le> rcapacity q"
    and "rsize q = 0 \<Longrightarrow> rfront q = 0 \<and> rback q = 0"
    and "0 < rsize q \<Longrightarrow> rfront q < rcapacity q"
    and "0 < rsize q \<Longrightarrow> rback q = ring_cell q (rsize q - 1)"
    and "\<And>c. c < rcapacity q \<Longrightarrow> rstorage q ! c \<noteq> None \<longleftrightarrow> (\<exists>i < rsize q. c = ring_cell q i)"
  shows "ring_wf q"
  using assms by (auto simp: ring_wf_def)

lemma ring_wf_length: "ring_wf q \<Longrightarrow> length (rstorage q) = rcapacity q"
  by (simp add: ring_wf_def)

lemma ring_wf_size: "ring_wf q \<Longrightarrow> rsize q \<le> rcapacity q"
  by (simp add: ring_wf_def)

lemma ring_wf_live_iff:
  "ring_wf q \<Longrightarrow> c < rcapacity q \<Longrightarrow> rstorage q ! c \<noteq> None \<longleftrightarrow> (\<exists>i < rsize q. c = ring_cell q i)"
  by (simp add: ring_wf_def)

lemma ring_wf_live:
  assumes "ring_wf q" "i < rsize q"
  shows "rstorage q ! ring_cell q i = Some (ring_list q ! i)"
proof -
  have "ring_cell q i < rcapacity q"
    using assms by (intro ring_cell_less) (simp add: ring_wf_def)
  then have "rstorage q ! ring_cell q i \<noteq> None"
    using assms by (auto simp: ring_wf_def)
  then show ?thesis using assms(2) by (auto simp: ring_list_nth)
qed

lemma ring_wf_dead:
  assumes "ring_wf q" "rsize q \<le> i" "i < rcapacity q"
  shows "rstorage q ! ring_cell q i = None"
proof -
  have "\<forall>j < rsize q. ring_cell q i \<noteq> ring_cell q j"
    using assms by (auto simp: ring_cell_inj ring_wf_def)
  moreover have "ring_cell q i < rcapacity q" using assms by (intro ring_cell_less) simp
  ultimately show ?thesis using assms(1) by (auto simp: ring_wf_def)
qed

lemma ring_wf_frontD:
  assumes "ring_wf q" "0 < rsize q"
  shows "rfront q = ring_cell q 0" "rfront q < rcapacity q"
  using assms by (auto simp: ring_wf_def ring_cell_def)

lemma ring_wf_backD:
  assumes "ring_wf q" "0 < rsize q"
  shows "rback q = ring_cell q (rsize q - 1)" "rback q < rcapacity q"
  using assms by (auto simp: ring_wf_def ring_cell_def)

lemma ring_wf_frontI:
  assumes "ring_wf q" "0 < rsize q"
  shows "rfront q < length (rstorage q)" "rstorage q ! rfront q = Some (hd (ring_list q))"
    "rback q < length (rstorage q)" "rstorage q ! rback q = Some (last (ring_list q))"
proof -
  have ne: "ring_list q \<noteq> []" using assms(2) by (metis length_ring_list length_greater_0_conv)
  show "rfront q < length (rstorage q)" "rback q < length (rstorage q)"
    using assms ring_wf_frontD ring_wf_backD by (auto simp: ring_wf_length)
  show "rstorage q ! rfront q = Some (hd (ring_list q))"
    using ring_wf_live [OF assms] assms ring_wf_frontD(1) [OF assms] ne by (simp add: hd_conv_nth)
  show "rstorage q ! rback q = Some (last (ring_list q))"
    using ring_wf_live [OF assms(1), of "rsize q - 1"] assms ring_wf_backD(1) [OF assms] ne
    by (simp add: last_conv_nth)
qed

text \<open>The cell after the last element, where the next one goes.\<close>

lemma ring_next_cell:
  assumes "ring_wf q" "0 < rsize q"
  shows "(rback q + 1) mod rcapacity q = ring_cell q (rsize q)"
proof -
  have "(rback q + 1) mod rcapacity q = Suc (rfront q + (rsize q - 1)) mod rcapacity q"
    using ring_wf_backD(1) [OF assms] by (simp add: ring_cell_def mod_Suc_eq)
  also have "Suc (rfront q + (rsize q - 1)) = rfront q + rsize q" using assms(2) by simp
  finally show ?thesis by (simp add: ring_cell_def)
qed

section \<open>The three changes of layout\<close>

definition ring_fill :: "'a ring \<Rightarrow> nat \<Rightarrow> nat \<Rightarrow> 'a \<Rightarrow> 'a ring" where
  "ring_fill q f b x =
     q\<lparr>rstorage := (rstorage q)[b := Some x], rfront := f, rback := b, rsize := rsize q + 1\<rparr>"

definition ring_drop :: "'a ring \<Rightarrow> nat \<Rightarrow> nat \<Rightarrow> nat \<Rightarrow> 'a ring" where
  "ring_drop q c f b =
     q\<lparr>rstorage := (rstorage q)[c := None], rfront := f, rback := b, rsize := rsize q - 1\<rparr>"

lemma ring_fill_sel [simp]:
  "rstorage (ring_fill q f b x) = (rstorage q)[b := Some x]"
  "rcapacity (ring_fill q f b x) = rcapacity q" "rsize (ring_fill q f b x) = Suc (rsize q)"
  "rfront (ring_fill q f b x) = f" "rback (ring_fill q f b x) = b"
  by (simp_all add: ring_fill_def)

lemma ring_drop_sel [simp]:
  "rstorage (ring_drop q c f b) = (rstorage q)[c := None]"
  "rcapacity (ring_drop q c f b) = rcapacity q" "rsize (ring_drop q c f b) = rsize q - 1"
  "rfront (ring_drop q c f b) = f" "rback (ring_drop q c f b) = b"
  by (simp_all add: ring_drop_def)

lemma ring_eqI:
  assumes "rsize p = length xs"
    and "\<And>i. i < length xs \<Longrightarrow> rstorage p ! ring_cell p i = Some (xs ! i)"
  shows "ring_list p = xs"
  using assms by (intro nth_equalityI) (auto simp: ring_list_nth)

lemma ring_fill_ok:
  assumes wf: "ring_wf q" and room: "rsize q < rcapacity q"
    and pos: "if rsize q = 0 then f = 0 \<and> b = 0
              else f = rfront q \<and> b = (rback q + 1) mod rcapacity q"
  shows "ring_wf (ring_fill q f b x)" "ring_list (ring_fill q f b x) = ring_list q @ [x]"
proof -
  let ?p = "ring_fill q f b x"
  have f: "f = rfront q" using wf pos by (auto simp: ring_wf_def split: if_splits)
  have b: "b = ring_cell q (rsize q)"
  proof (cases "rsize q = 0")
    case True
    then show ?thesis using wf pos room by (simp add: ring_wf_def ring_cell_def)
  next
    case False
    then show ?thesis using wf pos ring_next_cell by simp
  qed
  have cell: "ring_cell ?p i = ring_cell q i" for i
    by (simp add: ring_cell_def f)
  have len: "length (rstorage q) = rcapacity q" using wf by (rule ring_wf_length)
  have bl: "b < rcapacity q" using b room by (simp add: ring_cell_less)
  have inj: "ring_cell q i = b \<longleftrightarrow> i = rsize q" if "i < Suc (rsize q)" for i
    using that room b by (simp add: ring_cell_inj)
  show "ring_list ?p = ring_list q @ [x]"
  proof (rule ring_eqI)
    fix i assume "i < length (ring_list q @ [x])"
    then have i: "i < Suc (rsize q)" by simp
    then show "rstorage ?p ! ring_cell ?p i = Some ((ring_list q @ [x]) ! i)"
    proof (cases "i = rsize q")
      case True
      moreover have "rstorage ?p ! b = Some x" using bl len by simp
      ultimately show ?thesis using b unfolding cell by (simp add: nth_append)
    next
      case False
      then show ?thesis
        using i inj [OF i] ring_wf_live [OF wf] by (simp add: cell nth_append)
    qed
  qed simp
  have live: "rstorage ?p ! c \<noteq> None \<longleftrightarrow> (\<exists>i < Suc (rsize q). c = ring_cell q i)"
    if "c < rcapacity q" for c
  proof -
    have "rstorage q ! c \<noteq> None \<longleftrightarrow> (\<exists>i < rsize q. c = ring_cell q i)"
      using wf that by (simp add: ring_wf_def)
    moreover have "rstorage ?p ! c = (if c = b then Some x else rstorage q ! c)"
      using bl len by simp
    ultimately show ?thesis using b by (auto simp: less_Suc_eq)
  qed
  have "f < rcapacity q" using wf room pos by (auto simp: ring_wf_def split: if_splits)
  then show "ring_wf ?p"
  proof (intro ring_wfI)
    show "rback ?p = ring_cell ?p (rsize ?p - 1)" unfolding cell using b by simp
    show "rstorage ?p ! c \<noteq> None \<longleftrightarrow> (\<exists>i < rsize ?p. c = ring_cell ?p i)"
      if "c < rcapacity ?p" for c
      unfolding cell using live that by simp
  qed (use len room in simp_all)
qed

text \<open>
  Dropping the first element: its cell dies, the front moves on, and the cells that stay live are
  the images of the indices from 1.
\<close>

lemma ring_drop_first_ok:
  assumes wf: "ring_wf q" and ne: "0 < rsize q"
    and pos: "if rsize q = 1 then f = 0 \<and> b = 0
              else f = (rfront q + 1) mod rcapacity q \<and> b = rback q"
  shows "ring_wf (ring_drop q (rfront q) f b)"
    "ring_list (ring_drop q (rfront q) f b) = tl (ring_list q)"
proof -
  let ?p = "ring_drop q (rfront q) f b"
  have len: "length (rstorage q) = rcapacity q" using wf by (rule ring_wf_length)
  have sz: "rsize q \<le> rcapacity q" using wf by (rule ring_wf_size)
  have fr: "rfront q = ring_cell q 0" "rfront q < rcapacity q"
    using ring_wf_frontD [OF wf ne] by auto
  have cell: "ring_cell ?p i = ring_cell q (Suc i)" if "i < rsize q - 1" for i
    using pos that mod_step [of "rfront q" "rcapacity q" i] by (simp add: ring_cell_def)
  have inj: "ring_cell q i = rfront q \<longleftrightarrow> i = 0" if "i < rsize q" for i
    using that fr(1) sz ring_cell_inj [of i q 0] by simp
  show "ring_list ?p = tl (ring_list q)"
  proof (rule ring_eqI)
    fix i assume "i < length (tl (ring_list q))"
    then have i: "i < rsize q - 1" "Suc i < rsize q" by auto
    then show "rstorage ?p ! ring_cell ?p i = Some (tl (ring_list q) ! i)"
      using inj [OF i(2)] ring_wf_live [OF wf i(2)] len fr(2)
      by (simp add: cell nth_tl nth_list_update)
  qed simp
  have live: "rstorage ?p ! c \<noteq> None \<longleftrightarrow> (\<exists>i < rsize q - 1. c = ring_cell ?p i)"
    if "c < rcapacity q" for c
  proof -
    have "rstorage ?p ! c = (if c = rfront q then None else rstorage q ! c)"
      using len that by simp
    then have "rstorage ?p ! c \<noteq> None \<longleftrightarrow> c \<noteq> rfront q \<and> (\<exists>i < rsize q. c = ring_cell q i)"
      using ring_wf_live_iff [OF wf that] by simp
    also have "\<dots> \<longleftrightarrow> (\<exists>i < rsize q. i \<noteq> 0 \<and> c = ring_cell q i)"
      using inj by auto
    also have "\<dots> \<longleftrightarrow> (\<exists>i < rsize q - 1. c = ring_cell q (Suc i))"
      by (rule ex_less_nonzero_shift)
    finally show ?thesis using cell by auto
  qed
  show "ring_wf ?p"
  proof (cases "rsize q = 1")
    case True
    then show ?thesis using live len sz pos by (intro ring_wfI) auto
  next
    case False
    then obtain m where m: "rsize q = Suc (Suc m)" using ne by (metis One_nat_def not0_implies_Suc less_irrefl)
    then have "rback q = ring_cell ?p (rsize q - 1 - 1)"
      using ring_wf_backD(1) [OF wf ne] cell [of m] by simp
    moreover have "f < rcapacity q" using pos False fr by simp
    ultimately show ?thesis
      using live len sz pos False ne by (intro ring_wfI) (simp_all del: One_nat_def)
  qed
qed

text \<open>Dropping the last element.\<close>

lemma ring_drop_last_ok:
  assumes wf: "ring_wf q" and ne: "0 < rsize q"
    and pos: "if rsize q = 1 then f = 0 \<and> b = 0
              else f = rfront q \<and> b = (if rback q = 0 then rcapacity q - 1 else rback q - 1)"
  shows "ring_wf (ring_drop q (rback q) f b)"
    "ring_list (ring_drop q (rback q) f b) = butlast (ring_list q)"
proof -
  let ?p = "ring_drop q (rback q) f b"
  have len: "length (rstorage q) = rcapacity q" using wf by (rule ring_wf_length)
  have sz: "rsize q \<le> rcapacity q" using wf by (rule ring_wf_size)
  have bk: "rback q = ring_cell q (rsize q - 1)" "rback q < rcapacity q"
    using ring_wf_backD [OF wf ne] by auto
  have cell: "ring_cell ?p i = ring_cell q i" if "i < rsize q - 1" for i
    using pos that by (simp add: ring_cell_def)
  have inj: "ring_cell q i = rback q \<longleftrightarrow> i = rsize q - 1" if "i < rsize q" for i
    using that bk(1) sz ring_cell_inj [of i q "rsize q - 1"] by simp
  show "ring_list ?p = butlast (ring_list q)"
  proof (rule ring_eqI)
    fix i assume "i < length (butlast (ring_list q))"
    then have i: "i < rsize q - 1" "i < rsize q" by auto
    then show "rstorage ?p ! ring_cell ?p i = Some (butlast (ring_list q) ! i)"
      using inj [OF i(2)] ring_wf_live [OF wf i(2)] len bk(2)
      by (simp add: cell nth_butlast nth_list_update)
  qed simp
  have live: "rstorage ?p ! c \<noteq> None \<longleftrightarrow> (\<exists>i < rsize q - 1. c = ring_cell ?p i)"
    if "c < rcapacity q" for c
  proof -
    have "rstorage ?p ! c = (if c = rback q then None else rstorage q ! c)"
      using len that by simp
    then have "rstorage ?p ! c \<noteq> None \<longleftrightarrow> c \<noteq> rback q \<and> (\<exists>i < rsize q. c = ring_cell q i)"
      using ring_wf_live_iff [OF wf that] by simp
    also have "\<dots> \<longleftrightarrow> (\<exists>i < rsize q. i \<noteq> rsize q - 1 \<and> c = ring_cell q i)"
      using inj by auto
    also have "\<dots> \<longleftrightarrow> (\<exists>i < rsize q - 1. c = ring_cell q i)"
      by (rule ex_less_nonlast)
    finally show ?thesis using cell by auto
  qed
  show "ring_wf ?p"
  proof (cases "rsize q = 1")
    case True
    then show ?thesis using live len sz pos by (intro ring_wfI) auto
  next
    case False
    then obtain m where m: "rsize q = Suc (Suc m)" using ne by (metis One_nat_def not0_implies_Suc less_irrefl)
    have c1: "rback q = Suc (rfront q + m) mod rcapacity q"
      using bk(1) m by (simp add: ring_cell_def)
    have "b = (rfront q + m) mod rcapacity q"
      using pos False mod_pred [OF c1] sz ne by simp
    then have "b = ring_cell ?p (rsize q - 1 - 1)"
      using cell [of m] m by (simp add: ring_cell_def)
    moreover have "f < rcapacity q" using pos False ring_wf_frontD [OF wf ne] by simp
    ultimately show ?thesis
      using live len sz pos False ne by (intro ring_wfI) (simp_all del: One_nat_def)
  qed
qed

end
