(* ===== verification/CircularQueue.thy ===== *)
theory CircularQueue
  imports Ring
begin

text \<open>
  \<open>kstd::circular_queue\<close> (\<open>src/kernel/kstd/circular_queue.hpp\<close>): a queue of fixed
  capacity in a ring of cells. Each operation is a function on the object's fields; reading a cell
  that holds no element, or one outside the allocation, is \<^const>\<open>Undefined\<close>. Indices and
  sizes are natural numbers: each sum the code forms is below twice the capacity of an allocation.
  The theory ends with the interface that clients of the queue rely on, and its interpretation.
\<close>

section \<open>Operations\<close>

definition cq_new :: "nat \<Rightarrow> 'a ring" where
  "cq_new capacity =
     \<lparr>rstorage = replicate capacity None, rcapacity = capacity, rsize = 0, rfront = 0, rback = 0\<rparr>"

text \<open>
  \<open>for(i < n) new (&dst[i]) T(src[i])\<close> into fresh memory of \<open>m\<close> cells.
\<close>

definition copy_cells :: "'a option list \<Rightarrow> nat \<Rightarrow> nat \<Rightarrow> 'a option list result" where
  "copy_cells src n m =
     (if n \<le> length src \<and> n \<le> m \<and> None \<notin> set (take n src)
      then Inr (take n src @ replicate (m - n) None) else Inl Undefined)"

definition cq_copy :: "'a ring \<Rightarrow> 'a ring result" where
  "cq_copy other =
     rbind (copy_cells (rstorage other) (rsize other) (rsize other))
       (\<lambda>st. Inr \<lparr>rstorage = st, rcapacity = rcapacity other, rsize = rsize other,
                  rfront = rfront other, rback = rback other\<rparr>)"

definition cq_moved_from :: "'a ring" where
  "cq_moved_from = \<lparr>rstorage = [], rcapacity = 0, rsize = 0, rfront = 0, rback = 0\<rparr>"

definition cq_move :: "'a ring \<Rightarrow> 'a ring \<times> 'a ring" where
  "cq_move other =
     (\<lparr>rstorage = rstorage other, rcapacity = rcapacity other, rsize = rsize other,
       rfront = rfront other, rback = rback other\<rparr>, cq_moved_from)"

text \<open>The cells whose destructor \<open>~circular_queue\<close> runs: each must hold an element.\<close>

definition cq_destroy :: "'a ring \<Rightarrow> unit result" where
  "cq_destroy q =
     (if \<forall>i \<in> set [0..<rsize q].
           0 < rcapacity q \<and> (rfront q + i) mod rcapacity q < length (rstorage q) \<and>
           rstorage q ! ((rfront q + i) mod rcapacity q) \<noteq> None
      then Inr () else Inl Undefined)"

definition cq_push_back :: "'a ring \<Rightarrow> 'a \<Rightarrow> (bool \<times> 'a ring) result" where
  "cq_push_back q elem =
     (if rsize q = rcapacity q then Inr (False, q)
      else
        let front = (if rsize q = 0 then 0 else rfront q);
            back = (if rsize q = 0 then 0 else (rback q + 1) mod rcapacity q)
        in if back < length (rstorage q)
           then Inr (True, q\<lparr>rstorage := (rstorage q)[back := Some elem],
                              rfront := front, rback := back, rsize := rsize q + 1\<rparr>)
           else Inl Undefined)"

definition ring_read :: "'a ring \<Rightarrow> nat \<Rightarrow> 'a result" where
  "ring_read q c =
     (if c < length (rstorage q)
      then (case rstorage q ! c of None \<Rightarrow> Inl Undefined | Some x \<Rightarrow> Inr x)
      else Inl Undefined)"

definition cq_pop_front :: "'a ring \<Rightarrow> ('a \<times> 'a ring) result" where
  "cq_pop_front q =
     rbind (ring_read q (rfront q)) (\<lambda>ret.
       let n = rsize q - 1
       in Inr (ret, q\<lparr>rstorage := (rstorage q)[rfront q := None], rsize := n,
                      rfront := (if n = 0 then 0 else (rfront q + 1) mod rcapacity q),
                      rback := (if n = 0 then 0 else rback q)\<rparr>))"

definition cq_pop_back :: "'a ring \<Rightarrow> ('a \<times> 'a ring) result" where
  "cq_pop_back q =
     rbind (ring_read q (rback q)) (\<lambda>ret.
       let n = rsize q - 1
       in Inr (ret, q\<lparr>rstorage := (rstorage q)[rback q := None], rsize := n,
                      rfront := (if n = 0 then 0 else rfront q),
                      rback := (if n = 0 then 0
                                else if rback q = 0 then rcapacity q - 1
                                else rback q - 1)\<rparr>))"

definition cq_front :: "'a ring \<Rightarrow> 'a result" where
  "cq_front q = ring_read q (rfront q)"

definition cq_back :: "'a ring \<Rightarrow> 'a result" where
  "cq_back q = ring_read q (rback q)"

definition cq_empty :: "'a ring \<Rightarrow> bool" where
  "cq_empty q \<longleftrightarrow> rsize q = 0"

text \<open>
  The two assignment operators, for \<open>this != &other\<close>: the old elements are destroyed (the
  cells from index 0, whatever \<open>_front\<close> is), then the fields are taken over.
\<close>

definition cq_clear_from_zero :: "'a ring \<Rightarrow> unit result" where
  "cq_clear_from_zero q =
     (if rsize q \<le> length (rstorage q) \<and> None \<notin> set (take (rsize q) (rstorage q))
      then Inr () else Inl Undefined)"

definition cq_assign_copy :: "'a ring \<Rightarrow> 'a ring \<Rightarrow> 'a ring result" where
  "cq_assign_copy this other =
     rbind (cq_clear_from_zero this) (\<lambda>_.
     rbind (copy_cells (rstorage other) (rsize other) (rcapacity other)) (\<lambda>st.
       Inr (this\<lparr>rsize := rsize other, rcapacity := rcapacity other, rfront := rfront other,
                 rback := rback other, rstorage := st\<rparr>)))"

definition cq_assign_move :: "'a ring \<Rightarrow> 'a ring \<Rightarrow> ('a ring \<times> 'a ring) result" where
  "cq_assign_move this other =
     rbind (cq_clear_from_zero this) (\<lambda>_.
       Inr (this\<lparr>rsize := rsize other, rcapacity := rcapacity other, rfront := rfront other,
                 rback := rback other, rstorage := rstorage other\<rparr>, cq_moved_from))"

section \<open>Behaviour\<close>

lemma ring_wf_new: "ring_wf (cq_new n)" and ring_list_new [simp]: "ring_list (cq_new n) = []"
  and rcapacity_new [simp]: "rcapacity (cq_new n) = n"
  by (auto simp: cq_new_def ring_wf_def ring_list_def)

lemma cq_empty_iff: "cq_empty q \<longleftrightarrow> ring_list q = []"
  by (metis cq_empty_def length_0_conv length_ring_list)

lemma cq_push_back_full:
  "rsize q = rcapacity q \<Longrightarrow> cq_push_back q x = Inr (False, q)"
  by (simp add: cq_push_back_def)

lemma cq_push_back_room:
  assumes "ring_wf q" "rsize q < rcapacity q"
  obtains q' where "cq_push_back q x = Inr (True, q')" "ring_wf q'"
    "ring_list q' = ring_list q @ [x]" "rcapacity q' = rcapacity q"
proof -
  let ?f = "if rsize q = 0 then 0 else rfront q"
  let ?b = "if rsize q = 0 then 0 else (rback q + 1) mod rcapacity q"
  have "?b < length (rstorage q)" using assms by (auto simp: ring_wf_length)
  then have "cq_push_back q x = Inr (True, ring_fill q ?f ?b x)"
    using assms(2) by (simp add: cq_push_back_def ring_fill_def Let_def)
  moreover have "ring_wf (ring_fill q ?f ?b x)" "ring_list (ring_fill q ?f ?b x) = ring_list q @ [x]"
    using ring_fill_ok [OF assms, of ?f ?b x] by simp_all
  ultimately show thesis using that by simp
qed

lemma ring_read_front: "ring_wf q \<Longrightarrow> ring_list q = x # xs \<Longrightarrow> ring_read q (rfront q) = Inr x"
  using ring_wf_frontI [of q] by (simp add: ring_read_def flip: length_ring_list)

lemma ring_read_back:
  "ring_wf q \<Longrightarrow> ring_list q = xs @ [x] \<Longrightarrow> ring_read q (rback q) = Inr x"
  using ring_wf_frontI [of q] by (simp add: ring_read_def flip: length_ring_list)

lemma ring_read_none:
  assumes "ring_wf q" "ring_list q = []"
  shows "ring_read q (rfront q) = Inl Undefined" "ring_read q (rback q) = Inl Undefined"
proof -
  have z: "rsize q = 0" using assms(2) by (metis length_ring_list list.size(3))
  then have "\<forall>c < length (rstorage q). rstorage q ! c = None"
    using assms(1) by (simp add: ring_wf_def)
  then show "ring_read q (rfront q) = Inl Undefined" "ring_read q (rback q) = Inl Undefined"
    by (auto simp: ring_read_def)
qed

lemma cq_pop_front_Cons:
  assumes "ring_wf q" "ring_list q = x # xs"
  obtains q' where "cq_pop_front q = Inr (x, q')" "ring_wf q'" "ring_list q' = xs"
    "rcapacity q' = rcapacity q"
proof -
  let ?f = "if rsize q - 1 = 0 then 0 else (rfront q + 1) mod rcapacity q"
  let ?b = "if rsize q - 1 = 0 then 0 else rback q"
  have sz: "0 < rsize q" using assms(2) by (metis length_ring_list length_greater_0_conv list.discI)
  have "cq_pop_front q = Inr (x, ring_drop q (rfront q) ?f ?b)"
    using ring_read_front [OF assms] by (simp add: cq_pop_front_def ring_drop_def Let_def)
  moreover have "ring_wf (ring_drop q (rfront q) ?f ?b)"
    "ring_list (ring_drop q (rfront q) ?f ?b) = tl (ring_list q)"
    using ring_drop_first_ok [OF assms(1) sz, of ?f ?b] sz by (auto split: if_splits)
  ultimately show thesis using that assms(2) by simp
qed

lemma cq_pop_back_snoc:
  assumes "ring_wf q" "ring_list q = xs @ [x]"
  obtains q' where "cq_pop_back q = Inr (x, q')" "ring_wf q'" "ring_list q' = xs"
    "rcapacity q' = rcapacity q"
proof -
  let ?f = "if rsize q - 1 = 0 then 0 else rfront q"
  let ?b = "if rsize q - 1 = 0 then 0
            else if rback q = 0 then rcapacity q - 1 else rback q - 1"
  have sz: "0 < rsize q"
    using assms(2) by (metis length_ring_list length_greater_0_conv snoc_eq_iff_butlast)
  have "cq_pop_back q = Inr (x, ring_drop q (rback q) ?f ?b)"
    using ring_read_back [OF assms] by (simp add: cq_pop_back_def ring_drop_def Let_def)
  moreover have "ring_wf (ring_drop q (rback q) ?f ?b)"
    "ring_list (ring_drop q (rback q) ?f ?b) = butlast (ring_list q)"
    using ring_drop_last_ok [OF assms(1) sz, of ?f ?b] sz by (auto split: if_splits)
  ultimately show thesis using that assms(2) by simp
qed

lemma cq_pop_empty:
  assumes "ring_wf q" "ring_list q = []"
  shows "cq_pop_front q = Inl Undefined" "cq_pop_back q = Inl Undefined"
  using ring_read_none [OF assms] by (simp_all add: cq_pop_front_def cq_pop_back_def)

lemma cq_destroy_ok: "ring_wf q \<Longrightarrow> cq_destroy q = Inr ()"
  using ring_wf_live [of q] ring_cell_less [of q]
  by (auto simp: cq_destroy_def ring_cell_def ring_wf_def)

section \<open>The queue as a bounded deque\<close>

text \<open>
  What the class promises, on lists: a push succeeds while fewer than \<open>cap\<close> elements are
  held and otherwise changes nothing, a pop takes the first or last element.
\<close>

datatype 'a deque_op = Push 'a | PopFront | PopBack

datatype 'a deque_out = Pushed bool | Popped 'a

fun bounded_deque :: "nat \<Rightarrow> 'a list \<Rightarrow> 'a deque_op \<Rightarrow> ('a deque_out \<times> 'a list) result" where
  "bounded_deque cap xs (Push x) =
     (if length xs < cap then Inr (Pushed True, xs @ [x]) else Inr (Pushed False, xs))"
| "bounded_deque cap xs PopFront =
     (case xs of [] \<Rightarrow> Inl Undefined | y # ys \<Rightarrow> Inr (Popped y, ys))"
| "bounded_deque cap xs PopBack =
     (if xs = [] then Inl Undefined else Inr (Popped (last xs), butlast xs))"

fun cq_step :: "'a ring \<Rightarrow> 'a deque_op \<Rightarrow> ('a deque_out \<times> 'a ring) result" where
  "cq_step q (Push x) = rbind (cq_push_back q x) (\<lambda>(b, q'). Inr (Pushed b, q'))"
| "cq_step q PopFront = rbind (cq_pop_front q) (\<lambda>(x, q'). Inr (Popped x, q'))"
| "cq_step q PopBack = rbind (cq_pop_back q) (\<lambda>(x, q'). Inr (Popped x, q'))"

definition cq_abs :: "'a ring \<Rightarrow> nat \<times> 'a list" where
  "cq_abs q = (rcapacity q, ring_list q)"

fun bounded_deque_step ::
  "nat \<times> 'a list \<Rightarrow> 'a deque_op \<Rightarrow> ('a deque_out \<times> (nat \<times> 'a list)) result" where
  "bounded_deque_step (cap, xs) p =
     rbind (bounded_deque cap xs p) (\<lambda>(r, ys). Inr (r, (cap, ys)))"

lemma cq_step_sim:
  assumes "ring_wf q"
  shows "lift_abs cq_abs (cq_step q p) = bounded_deque_step (cq_abs q) p \<and>
         (\<forall>r q'. cq_step q p = Inr (r, q') \<longrightarrow> ring_wf q')"
proof (cases p)
  case (Push x)
  show ?thesis
  proof (cases "rsize q = rcapacity q")
    case True
    then show ?thesis using Push assms by (simp add: cq_push_back_full cq_abs_def)
  next
    case False
    then have "rsize q < rcapacity q" using ring_wf_size [OF assms] by simp
    then show ?thesis
      using cq_push_back_room [OF assms, of x] Push by (fastforce simp: cq_abs_def)
  qed
next
  case PopFront
  then show ?thesis
    using cq_pop_front_Cons [OF assms] cq_pop_empty [OF assms]
    by (cases "ring_list q") (fastforce simp: cq_abs_def)+
next
  case PopBack
  then show ?thesis
    using cq_pop_back_snoc [OF assms] cq_pop_empty [OF assms]
    by (cases "ring_list q" rule: rev_cases) (fastforce simp: cq_abs_def)+
qed

interpretation cq: data_refinement ring_wf cq_abs cq_step bounded_deque_step
  using cq_step_sim by unfold_locales blast+

section \<open>Properties\<close>

text \<open>
  C23. A \<open>kstd::circular_queue\<close> of capacity \<open>c\<close>, under every sequence of \<open>push_back\<close>,
  \<open>pop_front\<close> and \<open>pop_back\<close>, returns what a double-ended queue that holds at most \<open>c\<close> elements
  returns, is undefined where that one has no element to give, which nothing checks, and holds the
  same elements afterwards.
\<close>

theorem circular_queue_is_bounded_deque:
  "lift_abs cq_abs (run_ops cq_step (cq_new c) ps) = run_ops bounded_deque_step (c, []) ps"
  using cq.run_refines [OF ring_wf_new, of c ps] by (simp add: cq_abs_def)

end
