(* ===== verification/KQueue.thy ===== *)
theory KQueue
  imports CircularQueue
begin

text \<open>
  \<open>kstd::queue\<close> (\<open>src/kernel/kstd/queue.hpp\<close>): the same ring layout, grown by
  reallocation when a push finds it full. An unallocated queue (\<open>_storage == nullptr\<close>) has the
  empty cell list. The pops and the element accesses check \<open>ASSERT(_size)\<close>.
\<close>

section \<open>Operations\<close>

definition kq_new :: "'a ring" where
  "kq_new = \<lparr>rstorage = [], rcapacity = 0, rsize = 0, rfront = 0, rback = 0\<rparr>"

definition kq_copy :: "'a ring \<Rightarrow> 'a ring result" where
  "kq_copy other =
     rbind (copy_cells (rstorage other) (rsize other) (rsize other))
       (\<lambda>st. Inr \<lparr>rstorage = st, rcapacity = rcapacity other, rsize = rsize other,
                  rfront = rfront other, rback = rback other\<rparr>)"

definition kq_move :: "'a ring \<Rightarrow> 'a ring \<times> 'a ring" where
  "kq_move other =
     (\<lparr>rstorage = rstorage other, rcapacity = rcapacity other, rsize = rsize other,
       rfront = rfront other, rback = rback other\<rparr>, kq_new)"

definition kq_destroy :: "'a ring \<Rightarrow> unit result" where
  "kq_destroy q =
     (if \<forall>i \<in> set [0..<rsize q].
           0 < rcapacity q \<and> (rfront q + i) mod rcapacity q < length (rstorage q) \<and>
           rstorage q ! ((rfront q + i) mod rcapacity q) \<noteq> None
      then Inr () else Inl Undefined)"

text \<open>
  The loop of \<open>realloc\<close> that moves the elements to the front of the new memory: index by
  index, reading cell \<open>(_front + i) % _capacity\<close> of the old memory.
\<close>

fun kq_move_cells :: "'a ring \<Rightarrow> 'a option list \<Rightarrow> nat list \<Rightarrow> 'a option list result" where
  "kq_move_cells q tmp [] = Inr tmp"
| "kq_move_cells q tmp (i # is) =
     rbind (ring_read q ((rfront q + i) mod rcapacity q)) (\<lambda>x.
       if i < length tmp then kq_move_cells q (tmp[i := Some x]) is else Inl Undefined)"

definition kq_realloc :: "'a ring \<Rightarrow> nat \<Rightarrow> 'a ring result" where
  "kq_realloc q new_capacity =
     (if new_capacity = rcapacity q then Inr q
      else if rstorage q = [] then
        Inr (q\<lparr>rcapacity := new_capacity, rstorage := replicate new_capacity None\<rparr>)
      else
        let cut = (if new_capacity < rsize q then [new_capacity..<rsize q] else []);
            size = (if new_capacity < rsize q then new_capacity else rsize q);
            q1 = q\<lparr>rstorage := fold (\<lambda>i st. st[i := None]) cut (rstorage q), rsize := size\<rparr>
        in if \<forall>i \<in> set cut. i < length (rstorage q) \<and> rstorage q ! i \<noteq> None then
             rbind (kq_move_cells q1 (replicate new_capacity None) [0..<size]) (\<lambda>st.
               Inr (q1\<lparr>rstorage := st, rcapacity := new_capacity, rfront := 0,
                       rback := (if size = 0 then 2 ^ 32 - 1 else size - 1)\<rparr>))
           else Inl Undefined)"

definition kq_push_back :: "'a ring \<Rightarrow> 'a \<Rightarrow> 'a ring result" where
  "kq_push_back q0 elem =
     rbind (if rsize q0 = rcapacity q0
            then kq_realloc q0 (if rcapacity q0 \<noteq> 0 then rcapacity q0 * 2 else 1)
            else Inr q0)
       (\<lambda>q.
          let front = (if rsize q = 0 then 0 else rfront q);
              back = (if rsize q = 0 then 0 else (rback q + 1) mod rcapacity q)
          in if back < length (rstorage q)
             then Inr (q\<lparr>rstorage := (rstorage q)[back := Some elem],
                         rfront := front, rback := back, rsize := rsize q + 1\<rparr>)
             else Inl Undefined)"

definition kq_pop_front :: "'a ring \<Rightarrow> ('a \<times> 'a ring) result" where
  "kq_pop_front q =
     rassert (rsize q \<noteq> 0)
       (rbind (ring_read q (rfront q)) (\<lambda>ret.
          let n = rsize q - 1
          in Inr (ret, q\<lparr>rstorage := (rstorage q)[rfront q := None], rsize := n,
                         rfront := (if n = 0 then 0 else (rfront q + 1) mod rcapacity q),
                         rback := (if n = 0 then 0 else rback q)\<rparr>)))"

definition kq_pop_back :: "'a ring \<Rightarrow> ('a \<times> 'a ring) result" where
  "kq_pop_back q =
     rassert (rsize q \<noteq> 0)
       (rbind (ring_read q (rback q)) (\<lambda>ret.
          let n = rsize q - 1
          in Inr (ret, q\<lparr>rstorage := (rstorage q)[rback q := None], rsize := n,
                         rfront := (if n = 0 then 0 else rfront q),
                         rback := (if n = 0 then 0
                                   else if rback q = 0 then rcapacity q - 1
                                   else rback q - 1)\<rparr>)))"

definition kq_front :: "'a ring \<Rightarrow> 'a result" where
  "kq_front q = rassert (rsize q \<noteq> 0) (ring_read q (rfront q))"

definition kq_back :: "'a ring \<Rightarrow> 'a result" where
  "kq_back q = rassert (rsize q \<noteq> 0) (ring_read q (rback q))"

definition kq_empty :: "'a ring \<Rightarrow> bool" where
  "kq_empty q \<longleftrightarrow> rsize q = 0"

text \<open>
  The scan of \<open>contains\<close>: a do-while over cells that stops at index
  \<open>(_back + 1) % _size\<close>. The first argument bounds the number of rounds; \<open>None\<close> says that
  the bound was not enough.
\<close>

fun kq_contains_loop :: "nat \<Rightarrow> 'a ring \<Rightarrow> 'a \<Rightarrow> nat \<Rightarrow> bool result option" where
  "kq_contains_loop 0 q v i = None"
| "kq_contains_loop (Suc fuel) q v i =
     (case ring_read q i of
        Inl e \<Rightarrow> Some (Inl e)
      | Inr x \<Rightarrow>
          if x = v then Some (Inr True)
          else let i' = (i + 1) mod rcapacity q
               in if i' \<noteq> (rback q + 1) mod rsize q then kq_contains_loop fuel q v i'
                  else Some (Inr False))"

definition kq_contains :: "'a ring \<Rightarrow> 'a \<Rightarrow> bool result option" where
  "kq_contains q v =
     (if kq_empty q then Some (Inr False) else kq_contains_loop (rcapacity q) q v (rfront q))"

definition kq_assign_copy :: "'a ring \<Rightarrow> 'a ring \<Rightarrow> 'a ring result" where
  "kq_assign_copy this other =
     rbind (cq_clear_from_zero this) (\<lambda>_.
     rbind (copy_cells (rstorage other) (rsize other) (rcapacity other)) (\<lambda>st.
       Inr (this\<lparr>rsize := rsize other, rcapacity := rcapacity other, rfront := rfront other,
                 rback := rback other, rstorage := st\<rparr>)))"

definition kq_assign_move :: "'a ring \<Rightarrow> 'a ring \<Rightarrow> ('a ring \<times> 'a ring) result" where
  "kq_assign_move this other =
     rbind (cq_clear_from_zero this) (\<lambda>_.
       Inr (this\<lparr>rsize := rsize other, rcapacity := rcapacity other, rfront := rfront other,
                 rback := rback other, rstorage := rstorage other\<rparr>, kq_new))"

section \<open>Growing keeps the elements\<close>

lemma kq_move_cells_ok:
  assumes wf: "ring_wf q" and n: "n \<le> rsize q" "rsize q \<le> m" and "k \<le> rsize q"
  shows "kq_move_cells q (map Some (take k (ring_list q)) @ replicate (m - k) None) [k..<n] =
         Inr (map Some (take (max k n) (ring_list q)) @ replicate (m - max k n) None)"
  using assms(4)
proof (induction "n - k" arbitrary: k)
  case 0
  then show ?case by (simp add: max_def)
next
  case (Suc d)
  then have k: "k < n" "k < rsize q" using n by auto
  let ?tmp = "map Some (take k (ring_list q)) @ replicate (m - k) None"
  have c: "(rfront q + k) mod rcapacity q = ring_cell q k" by (simp add: ring_cell_def)
  have "ring_cell q k < length (rstorage q)"
    using k wf by (simp add: ring_wf_length ring_cell_less ring_wf_def)
  then have rd: "ring_read q (ring_cell q k) = Inr (ring_list q ! k)"
    using ring_wf_live [OF wf k(2)] by (simp add: ring_read_def)
  have "?tmp[k := Some (ring_list q ! k)] =
        map Some (take (Suc k) (ring_list q)) @ replicate (m - Suc k) None"
    using k n by (simp add: list_update_append take_Suc_conv_app_nth Suc_diff_Suc [symmetric])
  then have "kq_move_cells q ?tmp [k..<n] =
    kq_move_cells q (map Some (take (Suc k) (ring_list q)) @ replicate (m - Suc k) None) [Suc k..<n]"
    using k n c rd by (simp add: upt_conv_Cons min_def)
  then show ?case using Suc.hyps(1) [of "Suc k"] Suc.hyps(2) k by (simp add: max_def)
qed

lemma kq_grow_ok:
  assumes wf: "ring_wf q" and full: "rsize q = rcapacity q"
  obtains q' where
    "kq_realloc q (if rcapacity q \<noteq> 0 then rcapacity q * 2 else 1) = Inr q'"
    "ring_wf q'" "ring_list q' = ring_list q" "rsize q' < rcapacity q'"
proof (cases "rcapacity q = 0")
  case True
  then have "rstorage q = []" "rsize q = 0" using wf full by (simp_all add: ring_wf_def)
  then show thesis
    using True wf that [of "q\<lparr>rcapacity := 1, rstorage := [None]\<rparr>"]
    by (auto simp: kq_realloc_def ring_wf_def ring_list_def)
next
  case False
  let ?st = "map Some (ring_list q) @ replicate (rcapacity q) None"
  let ?q = "q\<lparr>rstorage := ?st, rcapacity := rcapacity q * 2, rfront := 0, rback := rsize q - 1\<rparr>"
  have "rstorage q \<noteq> []" using False wf by (auto simp: ring_wf_def)
  moreover have "kq_move_cells q (replicate (rcapacity q * 2) None) [0..<rsize q] = Inr ?st"
    using kq_move_cells_ok [OF wf, of "rsize q" "rcapacity q * 2" 0] full by simp
  moreover have "q\<lparr>rsize := rcapacity q\<rparr> = q" using full by (cases q) simp
  ultimately have "kq_realloc q (rcapacity q * 2) = Inr ?q"
    using False full by (cases q) (simp add: kq_realloc_def Let_def)
  moreover have cell: "ring_cell ?q i = i" if "i < rsize q" for i
    using that full by (simp add: ring_cell_def)
  moreover have "ring_wf ?q"
  proof (rule ring_wfI)
    show "rstorage ?q ! c \<noteq> None \<longleftrightarrow> (\<exists>i < rsize ?q. c = ring_cell ?q i)"
      if "c < rcapacity ?q" for c
      using that cell full by (auto simp: nth_append)
  qed (use False full cell in simp_all)
  moreover have "ring_list ?q = ring_list q"
    using cell full by (intro nth_equalityI) (simp_all add: ring_list_nth nth_append)
  ultimately show thesis using that False full by simp
qed

lemma kq_push_back_ok:
  assumes "ring_wf q"
  obtains q' where "kq_push_back q x = Inr q'" "ring_wf q'" "ring_list q' = ring_list q @ [x]"
proof -
  obtain p where p: "ring_wf p" "ring_list p = ring_list q" "rsize p < rcapacity p"
    and eq: "(if rsize q = rcapacity q
              then kq_realloc q (if rcapacity q \<noteq> 0 then rcapacity q * 2 else 1)
              else Inr q) = Inr p"
  proof (cases "rsize q = rcapacity q")
    case True
    with kq_grow_ok [OF assms] that show ?thesis by metis
  next
    case False
    with ring_wf_size [OF assms] that [of q] assms show ?thesis by simp
  qed
  obtain q' where q': "cq_push_back p x = Inr (True, q')" "ring_wf q'"
    "ring_list q' = ring_list p @ [x]"
    using cq_push_back_room [OF p(1,3)] by metis
  have "kq_push_back q x = Inr q'"
    using q'(1) p(3) unfolding kq_push_back_def eq
    by (simp add: cq_push_back_def Let_def split: if_splits)
  then show thesis using that q' p(2) by simp
qed

lemma kq_pop_eq:
  "rsize q \<noteq> 0 \<Longrightarrow> kq_pop_front q = cq_pop_front q"
  "rsize q \<noteq> 0 \<Longrightarrow> kq_pop_back q = cq_pop_back q"
  "rsize q = 0 \<Longrightarrow> kq_pop_front q = Inl AssertFail"
  "rsize q = 0 \<Longrightarrow> kq_pop_back q = Inl AssertFail"
  by (simp_all add: kq_pop_front_def kq_pop_back_def cq_pop_front_def cq_pop_back_def)

section \<open>The queue as an unbounded deque\<close>

fun deque_step :: "'a list \<Rightarrow> 'a deque_op \<Rightarrow> ('a deque_out \<times> 'a list) result" where
  "deque_step xs (Push x) = Inr (Pushed True, xs @ [x])"
| "deque_step xs PopFront =
     (case xs of [] \<Rightarrow> Inl AssertFail | y # ys \<Rightarrow> Inr (Popped y, ys))"
| "deque_step xs PopBack =
     (if xs = [] then Inl AssertFail else Inr (Popped (last xs), butlast xs))"

fun kq_step :: "'a ring \<Rightarrow> 'a deque_op \<Rightarrow> ('a deque_out \<times> 'a ring) result" where
  "kq_step q (Push x) = rbind (kq_push_back q x) (\<lambda>q'. Inr (Pushed True, q'))"
| "kq_step q PopFront = rbind (kq_pop_front q) (\<lambda>(x, q'). Inr (Popped x, q'))"
| "kq_step q PopBack = rbind (kq_pop_back q) (\<lambda>(x, q'). Inr (Popped x, q'))"

lemma ring_list_Nil_iff: "ring_list q = [] \<longleftrightarrow> rsize q = 0"
  by (metis length_0_conv length_ring_list)

lemma kq_step_sim:
  assumes "ring_wf q"
  shows "lift_abs ring_list (kq_step q p) = deque_step (ring_list q) p \<and>
         (\<forall>r q'. kq_step q p = Inr (r, q') \<longrightarrow> ring_wf q')"
proof (cases p)
  case (Push x)
  then show ?thesis using kq_push_back_ok [OF assms, of x] by fastforce
next
  case PopFront
  show ?thesis
  proof (cases "ring_list q")
    case Nil
    then have "rsize q = 0" by (simp add: ring_list_Nil_iff)
    then show ?thesis using PopFront Nil by (simp add: kq_pop_eq)
  next
    case (Cons y ys)
    then have "rsize q \<noteq> 0" by (metis list.discI ring_list_Nil_iff)
    then show ?thesis
      using cq_pop_front_Cons [OF assms Cons] PopFront Cons by (fastforce simp: kq_pop_eq)
  qed
next
  case PopBack
  show ?thesis
  proof (cases "ring_list q" rule: rev_cases)
    case Nil
    then have "rsize q = 0" by (simp add: ring_list_Nil_iff)
    then show ?thesis using PopBack Nil by (simp add: kq_pop_eq)
  next
    case (snoc ys y)
    then have "rsize q \<noteq> 0" by (metis snoc_eq_iff_butlast ring_list_Nil_iff)
    then show ?thesis
      using cq_pop_back_snoc [OF assms snoc] PopBack snoc by (fastforce simp: kq_pop_eq)
  qed
qed

lemma ring_wf_kq_new: "ring_wf kq_new" and ring_list_kq_new [simp]: "ring_list kq_new = []"
  by (simp_all add: kq_new_def ring_wf_def ring_list_def)

interpretation kq: data_refinement ring_wf ring_list kq_step deque_step
  using kq_step_sim by unfold_locales blast+

section \<open>Properties\<close>

text \<open>
  C12. A \<open>kstd::queue\<close>, which reallocates when it is full, returns under every sequence of
  \<open>push_back\<close>, \<open>pop_front\<close> and \<open>pop_back\<close> what an unbounded double-ended queue returns, asserts on
  the pops of an empty one, and never touches a cell outside its storage or without an element.
\<close>

theorem queue_is_deque:
  "lift_abs ring_list (run_ops kq_step kq_new ps) = run_ops deque_step [] ps"
  using kq.run_refines [OF ring_wf_kq_new, of ps] by simp

text \<open>
  Where the scan of \<open>contains\<close> stops: not before the last element, and behind it exactly if
  \<open>(_back + 1) % _size\<close> is the cell behind the last.
\<close>

lemma scan_stop_late:
  assumes "ring_wf q" "0 < j" "j < rsize q"
  shows "ring_cell q j \<noteq> (rback q + 1) mod rsize q"
proof -
  let ?f = "rfront q" and ?s = "rsize q" and ?c = "rcapacity q"
  have b: "?f < ?c" "?s \<le> ?c" "rback q = (?f + (?s - 1)) mod ?c"
    using assms ring_wf_backD(1) [OF assms(1)] ring_wf_frontD(2) [OF assms(1)] ring_wf_size [OF assms(1)]
    by (auto simp: ring_cell_def)
  show ?thesis
  proof (cases "?f + (?s - 1) < ?c")
    case True
    then have "rback q + 1 = ?f + ?s" using b(3) assms(2,3) by simp
    then have "(rback q + 1) mod ?s \<le> ?f" by simp
    moreover have "ring_cell q j = ?f + j" using True assms(3) by (simp add: ring_cell_def)
    ultimately show ?thesis using assms(2) by simp
  next
    case False
    have w: "(?f + i) mod ?c = (if ?f + i < ?c then ?f + i else ?f + i - ?c)" if "i < ?s" for i
      using that b(1,2) by (simp add: le_mod_geq)
    have "rback q = ?f + (?s - 1) - ?c" using False b(3) w [of "?s - 1"] assms(3) by simp
    then have "rback q + 1 = ?f + ?s - ?c" using False assms(2,3) by linarith
    moreover from this have "(rback q + 1) mod ?s = rback q + 1" using b(1) assms(3) by simp
    ultimately have stop: "(rback q + 1) mod ?s = ?f + ?s - ?c" by simp
    show ?thesis
      unfolding stop ring_cell_def w [OF assms(3)] using False b(1,2) assms(2,3)
      by (cases "?f + j < ?c") simp_all
  qed
qed

lemma scan_from:
  assumes wf: "ring_wf q" and "j < rsize q" "rcapacity q - j \<le> fuel"
  shows "kq_contains_loop fuel q v (ring_cell q j) =
    Some (if v \<in> set (drop j (ring_list q)) then Inr True
          else if (rback q + 1) mod rsize q = (rback q + 1) mod rcapacity q then Inr False
          else Inl Undefined)"
  using assms(2,3)
proof (induction fuel arbitrary: j)
  case 0
  then show ?case using ring_wf_size [OF wf] by simp
next
  case (Suc fuel)
  let ?x = "ring_list q ! j"
  have cells: "rsize q \<le> rcapacity q" "ring_cell q j < rcapacity q" "length (rstorage q) = rcapacity q"
    using Suc.prems(1) ring_wf_size [OF wf] ring_wf_length [OF wf] ring_cell_less [of q j] by auto
  have d: "drop j (ring_list q) = ?x # drop (Suc j) (ring_list q)"
    using Suc.prems(1) by (simp add: Cons_nth_drop_Suc)
  have r: "ring_read q (ring_cell q j) = Inr ?x"
    using ring_wf_live [OF wf Suc.prems(1)] cells by (simp add: ring_read_def)
  have n: "(ring_cell q j + 1) mod rcapacity q = ring_cell q (Suc j)"
    by (simp add: ring_cell_def mod_Suc_eq)
  show ?case
  proof (cases "Suc j < rsize q")
    case True
    then have "ring_cell q (Suc j) \<noteq> (rback q + 1) mod rsize q" by (intro scan_stop_late [OF wf]) simp_all
    then show ?thesis using Suc.IH [OF True] Suc.prems(2) d r n by simp
  next
    case False
    then have last: "Suc j = rsize q" using Suc.prems(1) by simp
    then have e: "drop (Suc j) (ring_list q) = []" by simp
    have nx: "ring_cell q (Suc j) = (rback q + 1) mod rcapacity q"
      using ring_next_cell [OF wf] last Suc.prems(1) by simp
    show ?thesis
    proof (cases "(rback q + 1) mod rsize q = (rback q + 1) mod rcapacity q")
      case True
      then show ?thesis using d e r n nx by simp
    next
      case False
      then have "rsize q < rcapacity q" using cells(1) by (cases "rsize q = rcapacity q") auto
      then have "ring_read q (ring_cell q (Suc j)) = Inl Undefined"
        using ring_wf_dead [OF wf, of "Suc j"] last by (simp add: ring_read_def)
      moreover have "\<exists>f. fuel = Suc f"
        using Suc.prems(2) last \<open>rsize q < rcapacity q\<close> by (intro exI [of _ "fuel - 1"]) simp
      ultimately show ?thesis using False d e r n nx by auto
    qed
  qed
qed

lemma kq_contains_eq:
  assumes "ring_wf q"
  shows "kq_contains q v =
    Some (if v \<in> set (ring_list q) then Inr True
          else if rsize q = 0 \<or> (rback q + 1) mod rsize q = (rback q + 1) mod rcapacity q then Inr False
          else Inl Undefined)"
proof (cases "rsize q = 0")
  case True
  then have "ring_list q = []" by (metis length_0_conv length_ring_list)
  then show ?thesis using True by (simp add: kq_contains_def kq_empty_def)
next
  case False
  then show ?thesis
    using scan_from [OF assms, of 0 "rcapacity q" v] ring_wf_frontD(1) [OF assms]
    by (simp add: kq_contains_def kq_empty_def)
qed

text \<open>
  \<open>contains\<close> of \<open>kstd::queue\<close> finds every element, but stops its scan at
  \<open>(_back + 1) % _size\<close> where it means the cell behind the last, \<open>(_back + 1) % _capacity\<close>. It
  denies a missing element properly only where the two agree; elsewhere it reads on into cells
  without an element.
\<close>

lemma queue_contains_scan:
  assumes "ring_wf q"
  shows "kq_contains q v =
    Some (if v \<in> set (ring_list q) then Inr True
          else if rsize q = 0 \<or> (rback q + 1) mod rsize q = (rback q + 1) mod rcapacity q then Inr False
          else Inl Undefined)"
  by (rule kq_contains_eq [OF assms])

lemma queue_contains_scan_witness:
  "kq_contains \<lparr>rstorage = [None, None, Some (3::nat), None], rcapacity = 4, rsize = 1, rfront = 2, rback = 2\<rparr> 5
     = Some (Inl Undefined)"
proof -
  let ?q = "\<lparr>rstorage = [None, None, Some (3::nat), None], rcapacity = 4, rsize = 1, rfront = 2, rback = 2\<rparr>"
  have "ring_wf ?q" by code_simp
  then show ?thesis using queue_contains_scan [of ?q 5] by (simp add: ring_list_def ring_cell_def)
qed

end
