(* ===== verification/AvlMap.thy ===== *)
theory AvlMap
  imports Prelude
begin

text \<open>
  \<open>kstd::map\<close> (\<open>src/kernel/kstd/map.hpp\<close>): a map in an AVL tree whose nodes carry
  a height and a pointer to their parent. A subtree is a value of a datatype with the source's
  fields; a node together with its parent chain is a subtree and the list of frames above it, from
  the parent to the root, so that \<open>cur_node = cur_node->parent\<close> pops a frame. A walk through a
  null pointer is \<^const>\<open>Undefined\<close>.
\<close>

section \<open>Nodes\<close>

datatype ('k, 'v) node =
    Null
  | Node (left: "('k, 'v) node") (nkey: 'k) (nval: 'v) (nheight: int) (right: "('k, 'v) node")

text \<open>\<open>p ? p->height : 0\<close>\<close>

fun ht :: "('k, 'v) node \<Rightarrow> int" where
  "ht Null = 0"
| "ht (Node l k v h r) = h"

fun balance_factor :: "('k, 'v) node \<Rightarrow> int" where
  "balance_factor Null = 0"
| "balance_factor (Node l k v h r) =
     (let bf = 0;
          bf = (if l \<noteq> Null then bf - ht l else bf);
          bf = (if r \<noteq> Null then bf + ht r else bf)
      in bf)"

fun update_own_height :: "('k, 'v) node \<Rightarrow> ('k, 'v) node" where
  "update_own_height Null = Null"
| "update_own_height (Node l k v h r) =
     Node l k v (max (if r \<noteq> Null then ht r else 0) (if l \<noteq> Null then ht l else 0) + 1) r"

text \<open>
  The rotations: the node's child becomes the root of the subtree, the node its child; the heights
  of the two are recomputed, the lower one first.
\<close>

fun rotate_left :: "('k, 'v) node \<Rightarrow> ('k, 'v) node result" where
  "rotate_left (Node l k v h (Node rl rk rv rh rr)) =
     Inr (update_own_height (Node (update_own_height (Node l k v h rl)) rk rv rh rr))"
| "rotate_left t = Inl Undefined"

fun rotate_right :: "('k, 'v) node \<Rightarrow> ('k, 'v) node result" where
  "rotate_right (Node (Node ll lk lv lh lr) k v h r) =
     Inr (update_own_height (Node ll lk lv lh (update_own_height (Node lr k v h r))))"
| "rotate_right t = Inl Undefined"

text \<open>
  \<open>balance\<close>: the subtree afterwards, and whether a rotation put another node at its root.
\<close>

fun balance :: "('k, 'v) node \<Rightarrow> (bool \<times> ('k, 'v) node) result" where
  "balance Null = Inl Undefined"
| "balance (Node l k v h r) =
     (let bfc = balance_factor (Node l k v h r) in
      if bfc > -2 \<and> bfc < 2 then Inr (False, Node l k v h r)
      else if bfc < -1 then
        rassert (l \<noteq> Null)
          (rbind (if balance_factor l > 0 then rotate_left l else Inr l) (\<lambda>l'.
             rbind (rotate_right (Node l' k v h r)) (\<lambda>t. Inr (True, t))))
      else
        rassert (r \<noteq> Null)
          (rbind (if balance_factor r < 0 then rotate_right r else Inr r) (\<lambda>r'.
             rbind (rotate_left (Node l k v h r')) (\<lambda>t. Inr (True, t)))))"

section \<open>Parent chains\<close>

text \<open>
  \<open>InLeft k v h r\<close> is a parent whose left child is the node below, \<open>InRight l k v h\<close> one
  whose right child it is.
\<close>

datatype ('k, 'v) frame =
    InLeft 'k 'v int "('k, 'v) node"
  | InRight "('k, 'v) node" 'k 'v int

fun plug :: "('k, 'v) frame \<Rightarrow> ('k, 'v) node \<Rightarrow> ('k, 'v) node" where
  "plug (InLeft k v h r) t = Node t k v h r"
| "plug (InRight l k v h) t = Node l k v h t"

fun zip_up :: "('k, 'v) frame list \<Rightarrow> ('k, 'v) node \<Rightarrow> ('k, 'v) node" where
  "zip_up [] t = t"
| "zip_up (f # fs) t = zip_up fs (plug f t)"

text \<open>
  The loop of \<open>update_height_and_balance\<close>: heights and balance from a node to the root. After
  a rotation the node's parent is the new root of the subtree, so the loop visits that one next.
  The result is the root of the whole tree; \<open>None\<close> would mean that the loop does not end.
\<close>

partial_function (option) update_height_and_balance ::
  "('k, 'v) frame list \<Rightarrow> ('k, 'v) node \<Rightarrow> ('k, 'v) node result option" where
  "update_height_and_balance path cur =
     (if cur = Null then Some (Inl Undefined)
      else case balance (update_own_height cur) of
        Inl e \<Rightarrow> Some (Inl e)
      | Inr (rotated, t) \<Rightarrow>
          if rotated then update_height_and_balance path t
          else (case path of
                  [] \<Rightarrow> Some (Inr t)
                | f # fs \<Rightarrow> update_height_and_balance fs (plug f t)))"

section \<open>Operations of the map\<close>

record ('k, 'v) kmap =
  m_root :: "('k, 'v) node"
  m_size :: nat

definition map_new :: "('k, 'v) kmap" where
  "map_new = \<lparr>m_root = Null, m_size = 0\<rparr>"

fun find_node_from :: "('k::linorder, 'v) node \<Rightarrow> 'k \<Rightarrow> ('k \<times> 'v) option" where
  "find_node_from Null key = None"
| "find_node_from (Node l k v h r) key =
     (if k = key then Some (k, v)
      else if key < k then find_node_from l key
      else find_node_from r key)"

definition find_node :: "('k::linorder, 'v) kmap \<Rightarrow> 'k \<Rightarrow> ('k \<times> 'v) option" where
  "find_node m key = (if m_root m = Null then None else find_node_from (m_root m) key)"

definition map_contains :: "('k::linorder, 'v) kmap \<Rightarrow> 'k \<Rightarrow> bool" where
  "map_contains m key \<longleftrightarrow> find_node m key \<noteq> None"

definition map_get :: "('k::linorder, 'v) kmap \<Rightarrow> 'k \<Rightarrow> 'v option" where
  "map_get m key = (case find_node m key of None \<Rightarrow> None | Some (k, v) \<Rightarrow> Some v)"

text \<open>
  The walk of \<open>insert\<close> below a node: \<open>None\<close> of the inner option is the return of
  \<open>nullptr\<close> for a key that is there; otherwise the new root. The lambda \<open>insert_at\<close>
  hangs the new node below \<open>node\<close> and rebalances from \<open>node\<close> if that was a leaf.
\<close>

definition insert_at ::
  "('k, 'v) frame list \<Rightarrow> ('k, 'v) node \<Rightarrow> int \<Rightarrow> ('k, 'v) node result option" where
  "insert_at path hung height =
     (if height = 1 then update_height_and_balance path hung else Some (Inr (zip_up path hung)))"

fun insert_from ::
  "('k::linorder, 'v) frame list \<Rightarrow> ('k, 'v) node \<Rightarrow> 'k \<Rightarrow> 'v \<Rightarrow> ('k, 'v) node option result option" where
  "insert_from path Null key val = Some (Inl Undefined)"
| "insert_from path (Node l k v h r) key val =
     (if k = key then Some (Inr None)
      else if key < k then
        (if l \<noteq> Null then insert_from (InLeft k v h r # path) l key val
         else map_option (map_sum id Some) (insert_at path (Node (Node Null key val 1 Null) k v h r) h))
      else
        (if r \<noteq> Null then insert_from (InRight l k v h # path) r key val
         else map_option (map_sum id Some) (insert_at path (Node l k v h (Node Null key val 1 Null)) h)))"

text \<open>\<open>insert\<close>: whether a node was created, and the map afterwards.\<close>

definition map_insert ::
  "('k::linorder, 'v) kmap \<Rightarrow> 'k \<Rightarrow> 'v \<Rightarrow> (bool \<times> ('k, 'v) kmap) result option" where
  "map_insert m key val =
     (if m_root m = Null then
        Some (Inr (True, m\<lparr>m_root := Node Null key val 1 Null, m_size := m_size m + 1\<rparr>))
      else case insert_from [] (m_root m) key val of
        None \<Rightarrow> None
      | Some (Inl e) \<Rightarrow> Some (Inl e)
      | Some (Inr None) \<Rightarrow> Some (Inr (False, m))
      | Some (Inr (Some t)) \<Rightarrow> Some (Inr (True, m\<lparr>m_root := t, m_size := m_size m + 1\<rparr>)))"

text \<open>
  \<open>subtree_successor\<close> and \<open>subtree_predecessor\<close> walk from a child to its leftmost
  (rightmost) descendant; here the data found there, and the parent chain and remaining child of
  that node once it is unhooked.
\<close>

fun leftmost :: "('k, 'v) node \<Rightarrow> ('k \<times> 'v) option" where
  "leftmost Null = None"
| "leftmost (Node l k v h r) = (if l = Null then Some (k, v) else leftmost l)"

fun rightmost :: "('k, 'v) node \<Rightarrow> ('k \<times> 'v) option" where
  "rightmost Null = None"
| "rightmost (Node l k v h r) = (if r = Null then Some (k, v) else rightmost r)"

fun unhook_leftmost ::
  "('k, 'v) frame list \<Rightarrow> ('k, 'v) node \<Rightarrow> ('k, 'v) frame list \<times> ('k, 'v) node" where
  "unhook_leftmost path Null = (path, Null)"
| "unhook_leftmost path (Node l k v h r) =
     (if l = Null then (path, r) else unhook_leftmost (InLeft k v h r # path) l)"

fun unhook_rightmost ::
  "('k, 'v) frame list \<Rightarrow> ('k, 'v) node \<Rightarrow> ('k, 'v) frame list \<times> ('k, 'v) node" where
  "unhook_rightmost path Null = (path, Null)"
| "unhook_rightmost path (Node l k v h r) =
     (if r = Null then (path, l) else unhook_rightmost (InRight l k v h # path) r)"

definition update_from_parent ::
  "('k, 'v) frame list \<times> ('k, 'v) node \<Rightarrow> ('k, 'v) node result option" where
  "update_from_parent z =
     (case fst z of
        [] \<Rightarrow> Some (Inr (snd z))
      | f # fs \<Rightarrow> update_height_and_balance fs (plug f (snd z)))"

text \<open>
  The body of \<open>erase\<close> at the node found, with children \<open>l\<close> and \<open>r\<close>: a leaf
  is unhooked; the root and a right child take the data of the successor, which is unhooked, or are
  replaced by their only child; a left child does the same with its predecessor.
\<close>

fun erase_at ::
  "('k, 'v) frame list \<Rightarrow> ('k, 'v) node \<Rightarrow> int \<Rightarrow> ('k, 'v) node \<Rightarrow> ('k, 'v) node result option" where
  "erase_at path l h r =
     (if l = Null \<and> r = Null then update_from_parent (path, Null)
      else if (case path of [] \<Rightarrow> True | InRight _ _ _ _ # _ \<Rightarrow> True | InLeft _ _ _ _ # _ \<Rightarrow> False) then
        (case leftmost r of
           Some (k', v') \<Rightarrow> update_from_parent (unhook_leftmost (InRight l k' v' h # path) r)
         | None \<Rightarrow>
             (case l of
                Null \<Rightarrow> Some (Inl Undefined)
              | Node ll lk lv lh lr \<Rightarrow> update_height_and_balance path (Node ll lk lv h lr)))
      else
        (case rightmost l of
           Some (k', v') \<Rightarrow> update_from_parent (unhook_rightmost (InLeft k' v' h r # path) l)
         | None \<Rightarrow>
             (case r of
                Null \<Rightarrow> Some (Inl Undefined)
              | Node rl rk rv rh rr \<Rightarrow> update_height_and_balance path (Node rl rk rv h rr))))"

fun erase_from ::
  "('k::linorder, 'v) frame list \<Rightarrow> ('k, 'v) node \<Rightarrow> 'k \<Rightarrow> ('k, 'v) node option result option" where
  "erase_from path Null key = Some (Inr None)"
| "erase_from path (Node l k v h r) key =
     (if k = key then map_option (map_sum id Some) (erase_at path l h r)
      else if key < k then erase_from (InLeft k v h r # path) l key
      else erase_from (InRight l k v h # path) r key)"

definition map_erase :: "('k::linorder, 'v) kmap \<Rightarrow> 'k \<Rightarrow> ('k, 'v) kmap result option" where
  "map_erase m key =
     (if m_root m = Null then Some (Inr m)
      else case erase_from [] (m_root m) key of
        None \<Rightarrow> None
      | Some (Inl e) \<Rightarrow> Some (Inl e)
      | Some (Inr None) \<Rightarrow> Some (Inr m)
      | Some (Inr (Some t)) \<Rightarrow> Some (Inr (m\<lparr>m_root := t, m_size := m_size m - 1\<rparr>)))"

text \<open>
  \<open>operator[]\<close> gives a reference; \<open>m[key] = val\<close> is the insertion of a default value for
  a new key followed by the assignment through the reference.
\<close>

fun assign_from :: "('k::linorder, 'v) node \<Rightarrow> 'k \<Rightarrow> 'v \<Rightarrow> ('k, 'v) node" where
  "assign_from Null key val = Null"
| "assign_from (Node l k v h r) key val =
     (if k = key then Node l k val h r
      else if key < k then Node (assign_from l key val) k v h r
      else Node l k v h (assign_from r key val))"

definition map_index ::
  "('k::linorder, 'v) kmap \<Rightarrow> 'k \<Rightarrow> 'v \<Rightarrow> ('v \<times> ('k, 'v) kmap) result option" where
  "map_index m key dflt =
     (case find_node m key of
        Some (k, v) \<Rightarrow> Some (Inr (v, m))
      | None \<Rightarrow>
          (case map_insert m key dflt of
             None \<Rightarrow> None
           | Some (Inl e) \<Rightarrow> Some (Inl e)
           | Some (Inr (True, m')) \<Rightarrow> Some (Inr (dflt, m'))
           | Some (Inr (False, m')) \<Rightarrow> Some (Inl Undefined)))"

definition map_set ::
  "('k::linorder, 'v) kmap \<Rightarrow> 'k \<Rightarrow> 'v \<Rightarrow> 'v \<Rightarrow> ('k, 'v) kmap result option" where
  "map_set m key dflt val =
     (case map_index m key dflt of
        None \<Rightarrow> None
      | Some (Inl e) \<Rightarrow> Some (Inl e)
      | Some (Inr (_, m')) \<Rightarrow> Some (Inr (m'\<lparr>m_root := assign_from (m_root m') key val\<rparr>)))"

section \<open>Iterators\<close>

text \<open>
  An iterator holds a node, that is a subtree with its parent chain, or null at the end.
\<close>

type_synonym ('k, 'v) cursor = "(('k, 'v) frame list \<times> ('k, 'v) node) option"

fun descend_left :: "('k, 'v) frame list \<Rightarrow> ('k, 'v) node \<Rightarrow> ('k, 'v) cursor" where
  "descend_left path Null = None"
| "descend_left path (Node l k v h r) =
     (if l = Null then Some (path, Node l k v h r) else descend_left (InLeft k v h r # path) l)"

fun descend_right :: "('k, 'v) frame list \<Rightarrow> ('k, 'v) node \<Rightarrow> ('k, 'v) cursor" where
  "descend_right path Null = None"
| "descend_right path (Node l k v h r) =
     (if r = Null then Some (path, Node l k v h r) else descend_right (InRight l k v h # path) r)"

fun climb_successor :: "('k, 'v) frame list \<Rightarrow> ('k, 'v) node \<Rightarrow> ('k, 'v) cursor" where
  "climb_successor [] cur = None"
| "climb_successor (InRight l k v h # fs) cur = climb_successor fs (Node l k v h cur)"
| "climb_successor (InLeft k v h r # fs) cur = Some (fs, Node cur k v h r)"

fun climb_predecessor :: "('k, 'v) frame list \<Rightarrow> ('k, 'v) node \<Rightarrow> ('k, 'v) cursor" where
  "climb_predecessor [] cur = None"
| "climb_predecessor (InLeft k v h r # fs) cur = climb_predecessor fs (Node cur k v h r)"
| "climb_predecessor (InRight l k v h # fs) cur = Some (fs, Node l k v h cur)"

fun inorder_successor :: "('k, 'v) frame list \<Rightarrow> ('k, 'v) node \<Rightarrow> ('k, 'v) cursor" where
  "inorder_successor path Null = None"
| "inorder_successor path (Node l k v h r) =
     (if r \<noteq> Null then descend_left (InRight l k v h # path) r
      else climb_successor path (Node l k v h r))"

fun inorder_predecessor :: "('k, 'v) frame list \<Rightarrow> ('k, 'v) node \<Rightarrow> ('k, 'v) cursor" where
  "inorder_predecessor path Null = None"
| "inorder_predecessor path (Node l k v h r) =
     (if l \<noteq> Null then descend_right (InLeft k v h r # path) l
      else climb_predecessor path (Node l k v h r))"

definition iter_begin :: "('k, 'v) kmap \<Rightarrow> ('k, 'v) cursor" where
  "iter_begin m = descend_left [] (m_root m)"

definition iter_inc :: "('k, 'v) cursor \<Rightarrow> ('k, 'v) cursor" where
  "iter_inc it = (case it of None \<Rightarrow> None | Some (path, t) \<Rightarrow> inorder_successor path t)"

definition iter_dec :: "('k, 'v) kmap \<Rightarrow> ('k, 'v) cursor \<Rightarrow> ('k, 'v) cursor" where
  "iter_dec m it =
     (case it of
        None \<Rightarrow> descend_right [] (m_root m)
      | Some (path, t) \<Rightarrow> inorder_predecessor path t)"

text \<open>\<open>for(auto& x : map)\<close>, up to \<open>n\<close> rounds: the entries visited.\<close>

fun iterate :: "nat \<Rightarrow> ('k, 'v) cursor \<Rightarrow> ('k \<times> 'v) list" where
  "iterate 0 it = []"
| "iterate (Suc n) None = []"
| "iterate (Suc n) (Some (path, Null)) = []"
| "iterate (Suc n) (Some (path, Node l k v h r)) =
     (k, v) # iterate n (iter_inc (Some (path, Node l k v h r)))"

section \<open>The entries in order\<close>

fun inorder :: "('k, 'v) node \<Rightarrow> ('k \<times> 'v) list" where
  "inorder Null = []"
| "inorder (Node l k v h r) = inorder l @ (k, v) # inorder r"

fun before :: "('k, 'v) frame list \<Rightarrow> ('k \<times> 'v) list" where
  "before [] = []"
| "before (InLeft k v h r # fs) = before fs"
| "before (InRight l k v h # fs) = before fs @ inorder l @ [(k, v)]"

fun after :: "('k, 'v) frame list \<Rightarrow> ('k \<times> 'v) list" where
  "after [] = []"
| "after (InLeft k v h r # fs) = (k, v) # inorder r @ after fs"
| "after (InRight l k v h # fs) = after fs"

lemma inorder_plug:
  "before fs @ inorder (plug f t) @ after fs = before (f # fs) @ inorder t @ after (f # fs)"
  by (cases f) auto

lemma inorder_zip_up: "inorder (zip_up path t) = before path @ inorder t @ after path"
proof (induction path arbitrary: t)
  case (Cons f fs)
  then show ?case using inorder_plug by (metis zip_up.simps(2))
qed simp

lemma inorder_Nil_iff [simp]: "inorder t = [] \<longleftrightarrow> t = Null"
  by (cases t) auto

lemma inorder_update_own_height [simp]: "inorder (update_own_height t) = inorder t"
  by (cases t) auto

lemma inorder_rotate_left: "rotate_left t = Inr t' \<Longrightarrow> inorder t' = inorder t"
  by (induction t rule: rotate_left.induct) auto

lemma inorder_rotate_right: "rotate_right t = Inr t' \<Longrightarrow> inorder t' = inorder t"
  by (induction t rule: rotate_right.induct) auto

section \<open>Balance\<close>

fun avl :: "('k, 'v) node \<Rightarrow> bool" where
  "avl Null = True"
| "avl (Node l k v h r) \<longleftrightarrow>
     avl l \<and> avl r \<and> h = max (ht l) (ht r) + 1 \<and> \<bar>ht l - ht r\<bar> \<le> 1"

lemma avl_ht_nonneg: "avl t \<Longrightarrow> 0 \<le> ht t"
  by (induction t) auto

lemma avl_ht_pos: "avl t \<Longrightarrow> t \<noteq> Null \<Longrightarrow> 1 \<le> ht t"
  by (cases t) (auto dest!: avl_ht_nonneg)

lemma avl_ht_0: "avl t \<Longrightarrow> ht t = 0 \<longleftrightarrow> t = Null"
  using avl_ht_pos by fastforce

lemma balance_factor_eq: "balance_factor (Node l k v h r) = ht r - ht l"
  by (auto simp: Let_def)

lemma own_height_eq: "update_own_height (Node l k v h r) = Node l k v (max (ht l) (ht r) + 1) r"
  by (auto simp: max.commute)

lemmas node_eqs = balance_factor_eq own_height_eq

declare balance_factor.simps(2) [simp del] update_own_height.simps(2) [simp del]

lemma balance_left_heavy:
  assumes "avl l" "avl r" "ht l = ht r + 2"
  obtains t' where "balance (Node l k v h r) = Inr (True, t')" "avl t'"
    "inorder t' = inorder (Node l k v h r)" "ht l \<le> ht t'" "ht t' \<le> ht l + 1" "t' \<noteq> Null"
proof -
  have "l \<noteq> Null" using assms avl_ht_nonneg [of r] by auto
  then obtain ll lk lv lh lr where l: "l = Node ll lk lv lh lr" by (cases l) auto
  show thesis
  proof (cases "ht lr \<le> ht ll")
    case True
    then show thesis
      using assms l that by (auto simp: node_eqs max_def split: if_splits)
  next
    case False
    then have "lr \<noteq> Null" using assms(1) l avl_ht_nonneg [of ll] by auto
    then obtain a b c d e where lr: "lr = Node a b c d e" by (cases lr) auto
    show thesis
      using False assms l lr that avl_ht_nonneg [of a] avl_ht_nonneg [of e]
      by (auto simp: node_eqs max_def split: if_splits)
  qed
qed

lemma balance_right_heavy:
  assumes "avl l" "avl r" "ht r = ht l + 2"
  obtains t' where "balance (Node l k v h r) = Inr (True, t')" "avl t'"
    "inorder t' = inorder (Node l k v h r)" "ht r \<le> ht t'" "ht t' \<le> ht r + 1" "t' \<noteq> Null"
proof -
  have "r \<noteq> Null" using assms avl_ht_nonneg [of l] by auto
  then obtain rl rk rv rh rr where r: "r = Node rl rk rv rh rr" by (cases r) auto
  show thesis
  proof (cases "ht rl \<le> ht rr")
    case True
    then show thesis
      using assms r that by (auto simp: node_eqs max_def split: if_splits)
  next
    case False
    then have "rl \<noteq> Null" using assms(2) r avl_ht_nonneg [of rr] by auto
    then obtain a b c d e where rl: "rl = Node a b c d e" by (cases rl) auto
    show thesis
      using False assms r rl that avl_ht_nonneg [of a] avl_ht_nonneg [of e]
      by (auto simp: node_eqs max_def split: if_splits)
  qed
qed

lemma balance_even:
  assumes "\<bar>ht l - ht r\<bar> \<le> 1"
  shows "balance (Node l k v h r) = Inr (False, Node l k v h r)"
proof -
  have "- 2 < ht r - ht l \<and> ht r - ht l < 2" using assms by arith
  then show ?thesis by (simp add: balance_factor_eq Let_def)
qed

declare balance.simps(2) [simp del]

text \<open>
  One turn of the loop at a node whose children are balanced and differ in height by at most two:
  it leaves a balanced subtree with the same entries, at most one level higher or lower, and goes
  on with the parent.
\<close>

definition goes_on_with ::
  "('k, 'v) frame list \<Rightarrow> ('k, 'v) node \<Rightarrow> ('k, 'v) node result option \<Rightarrow> bool" where
  "goes_on_with path t res \<longleftrightarrow>
     res = (case path of
              [] \<Rightarrow> Some (Inr t)
            | f # fs \<Rightarrow> update_height_and_balance fs (plug f t))"

lemma avl_own_height: "avl (Node l k v h r) \<Longrightarrow> update_own_height (Node l k v h r) = Node l k v h r"
  by (simp add: own_height_eq)

lemma update_avl:
  assumes "avl t" "t \<noteq> Null"
  shows "goes_on_with path t (update_height_and_balance path t)"
proof -
  obtain l k v h r where t: "t = Node l k v h r" using assms(2) by (cases t) auto
  have "balance (update_own_height t) = Inr (False, t)"
    using assms(1) unfolding t avl_own_height [OF assms(1) [unfolded t]] by (simp add: balance_even)
  then show ?thesis
    using assms(2) by (simp add: goes_on_with_def update_height_and_balance.simps [of path t])
qed

lemma update_step:
  assumes "avl l" "avl r" "\<bar>ht l - ht r\<bar> \<le> 2"
  obtains t' where
    "goes_on_with path t' (update_height_and_balance path (Node l k v h r))"
    "avl t'" "t' \<noteq> Null" "inorder t' = inorder (Node l k v h r)"
    "\<bar>ht l - ht r\<bar> \<le> 1 \<Longrightarrow> ht t' = max (ht l) (ht r) + 1"
    "max (ht l) (ht r) \<le> ht t'" "ht t' \<le> max (ht l) (ht r) + 1"
proof (cases "\<bar>ht l - ht r\<bar> \<le> 1")
  case True
  let ?t = "Node l k v (max (ht l) (ht r) + 1) r"
  have "goes_on_with path ?t (update_height_and_balance path (Node l k v h r))"
    using True unfolding goes_on_with_def
    by (subst update_height_and_balance.simps) (simp add: own_height_eq balance_even)
  then show thesis using True assms that by simp
next
  case False
  let ?h = "max (ht l) (ht r) + 1"
  obtain t' where t': "balance (Node l k v ?h r) = Inr (True, t')" "avl t'" "t' \<noteq> Null"
    "inorder t' = inorder (Node l k v ?h r)"
    "max (ht l) (ht r) \<le> ht t'" "ht t' \<le> max (ht l) (ht r) + 1"
  proof (cases "ht l = ht r + 2")
    case True
    then show thesis using balance_left_heavy [OF assms(1,2), of k v ?h] that by fastforce
  next
    case F2: False
    then have "ht r = ht l + 2" using False assms(3) by arith
    then show thesis using balance_right_heavy [OF assms(1,2), of k v ?h] that by fastforce
  qed
  have "update_height_and_balance path (Node l k v h r) = update_height_and_balance path t'"
    using t'(1) by (subst update_height_and_balance.simps) (simp add: own_height_eq)
  then have "goes_on_with path t' (update_height_and_balance path (Node l k v h r))"
    using update_avl [OF t'(2,3), of path] by simp
  then show thesis using False t' that by simp
qed

text \<open>
  A parent chain that fits a subtree of height \<open>H\<close>: with such a subtree below it every node
  of the chain is balanced and has the right height.
\<close>

fun path_ok :: "('k, 'v) frame list \<Rightarrow> int \<Rightarrow> bool" where
  "path_ok [] H = True"
| "path_ok (InLeft k v h s # fs) H \<longleftrightarrow>
     avl s \<and> h = max H (ht s) + 1 \<and> \<bar>H - ht s\<bar> \<le> 1 \<and> path_ok fs h"
| "path_ok (InRight s k v h # fs) H \<longleftrightarrow>
     avl s \<and> h = max (ht s) H + 1 \<and> \<bar>ht s - H\<bar> \<le> 1 \<and> path_ok fs h"

lemma zip_up_avl: "path_ok path (ht t) \<Longrightarrow> avl t \<Longrightarrow> avl (zip_up path t)"
proof (induction path arbitrary: t)
  case (Cons f fs)
  then show ?case by (cases f) auto
qed simp

lemma height_after_change:
  fixes H s H' :: int
  assumes "\<bar>H - s\<bar> \<le> 1" "\<bar>H' - H\<bar> \<le> 1" "max H' s \<le> g" "g \<le> max H' s + 1"
    and "\<bar>H' - s\<bar> \<le> 1 \<Longrightarrow> g = max H' s + 1"
  shows "\<bar>g - (max H s + 1)\<bar> \<le> 1"
  using assms by (auto simp: max_def split: if_splits)

text \<open>
  The loop from a parent chain upwards, below which a subtree has grown or shrunk by at most one
  level, returns; the tree it returns is balanced and has the same entries.
\<close>

lemma update_from_parent_ok:
  assumes "path_ok path H" "avl t" "\<bar>ht t - H\<bar> \<le> 1"
  shows "\<exists>t'. update_from_parent (path, t) = Some (Inr t') \<and> avl t' \<and>
           inorder t' = before path @ inorder t @ after path"
  using assms
proof (induction path arbitrary: t H)
  case Nil
  then show ?case by (simp add: update_from_parent_def)
next
  case (Cons f fs)
  obtain l r k v h where f: "plug f t = Node l k v h r" by (cases f) auto
  have lr: "avl l" "avl r" "\<bar>ht l - ht r\<bar> \<le> 2"
    using Cons.prems f by (cases f; auto)+
  obtain t' where t': "goes_on_with fs t' (update_height_and_balance fs (plug f t))"
    "avl t'" "t' \<noteq> Null" "inorder t' = inorder (plug f t)"
    "\<bar>ht l - ht r\<bar> \<le> 1 \<Longrightarrow> ht t' = max (ht l) (ht r) + 1"
    "max (ht l) (ht r) \<le> ht t'" "ht t' \<le> max (ht l) (ht r) + 1"
    using update_step [OF lr, of fs k v h] unfolding f by metis
  have h: "path_ok fs h" "\<bar>ht t' - h\<bar> \<le> 1"
    using Cons.prems f t'(5-7) height_after_change [of H "ht l" "ht r" "ht t'"]
      height_after_change [of H "ht r" "ht l" "ht t'"]
    by (cases f; auto simp: max.commute abs_minus_commute)+
  obtain u where "update_from_parent (fs, t') = Some (Inr u)" "avl u"
    "inorder u = before fs @ inorder t' @ after fs"
    using Cons.IH [OF h(1) t'(2) h(2)] by blast
  moreover have "update_from_parent (f # fs, t) = update_from_parent (fs, t')"
    using t'(1) by (cases fs) (simp_all add: update_from_parent_def goes_on_with_def)
  moreover have "before fs @ inorder t' @ after fs = before (f # fs) @ inorder t @ after (f # fs)"
    unfolding t'(4) by (rule inorder_plug)
  ultimately show ?case by simp
qed

lemma update_node_ok:
  assumes "path_ok path H" "avl l" "avl r" "\<bar>ht l - ht r\<bar> \<le> 1" "\<bar>max (ht l) (ht r) + 1 - H\<bar> \<le> 1"
  shows "\<exists>t'. update_height_and_balance path (Node l k v h r) = Some (Inr t') \<and> avl t' \<and>
           inorder t' = before path @ inorder (Node l k v h r) @ after path"
proof -
  obtain t' where t': "goes_on_with path t' (update_height_and_balance path (Node l k v h r))"
    "avl t'" "inorder t' = inorder (Node l k v h r)" "ht t' = max (ht l) (ht r) + 1"
    using update_step [OF assms(2,3), of path k v h] assms(4) by auto
  have "update_height_and_balance path (Node l k v h r) = update_from_parent (path, t')"
    using t'(1) by (cases path) (simp_all add: goes_on_with_def update_from_parent_def)
  moreover have "\<bar>ht t' - H\<bar> \<le> 1" using t'(4) assms(5) by simp
  ultimately show ?thesis using update_from_parent_ok [OF assms(1) t'(2)] t'(3) by metis
qed

section \<open>Insertion\<close>

abbreviation keys_of :: "('k \<times> 'v) list \<Rightarrow> 'k set" where
  "keys_of xs \<equiv> fst ` set xs"

abbreviation sorted1 :: "('k::linorder \<times> 'v) list \<Rightarrow> bool" where
  "sorted1 xs \<equiv> sorted_wrt (<) (map fst xs)"

definition inserted ::
  "'k::linorder \<Rightarrow> 'v \<Rightarrow> ('k \<times> 'v) list \<Rightarrow> ('k \<times> 'v) list \<Rightarrow> bool" where
  "inserted key val old new \<longleftrightarrow>
     (\<exists>xs ys. old = xs @ ys \<and> new = xs @ (key, val) # ys \<and>
        (\<forall>x \<in> keys_of xs. x < key) \<and> (\<forall>y \<in> keys_of ys. key < y))"

lemma insert_at_ok:
  assumes "path_ok path h" "h = max (ht l) (ht r) + 1" "\<bar>ht l - ht r\<bar> \<le> 1"
    and "avl l" "avl r" "avl l'" "avl r'"
    and "l = Null \<and> ht l' = 1 \<and> r' = r \<or> r = Null \<and> ht r' = 1 \<and> l' = l"
  shows "\<exists>t'. insert_at path (Node l' k v h r') h = Some (Inr t') \<and> avl t' \<and>
           inorder t' = before path @ inorder (Node l' k v h r') @ after path"
proof (cases "h = 1")
  case True
  then have "ht l \<le> 0" "ht r \<le> 0" using assms(2) by auto
  then have "ht l = 0" "ht r = 0" using assms(4,5) avl_ht_nonneg by force+
  then have "\<bar>ht l' - ht r'\<bar> \<le> 1" "\<bar>max (ht l') (ht r') + 1 - h\<bar> \<le> 1"
    using assms(8) True by auto
  then show ?thesis
    using update_node_ok [OF assms(1,6,7)] True by (simp add: insert_at_def)
next
  case False
  have "h = max (ht l') (ht r') + 1" "\<bar>ht l' - ht r'\<bar> \<le> 1"
    using assms(2,3,8) False avl_ht_nonneg [OF assms(4)] avl_ht_nonneg [OF assms(5)] by auto
  then have "avl (Node l' k v h r')" using assms(6,7) by simp
  then show ?thesis
    using False assms(1) zip_up_avl [of path "Node l' k v h r'"]
    by (simp add: insert_at_def inorder_zip_up)
qed

lemma inserted_InLeft:
  assumes "inserted key val (inorder l) new" "key < k" "\<forall>y \<in> keys_of (inorder r). k < y"
  shows "inserted key val (inorder (Node l k v h r)) (new @ (k, v) # inorder r)"
proof -
  obtain xs ys where xy: "inorder l = xs @ ys" "new = xs @ (key, val) # ys"
    "\<forall>x \<in> keys_of xs. x < key" "\<forall>y \<in> keys_of ys. key < y"
    using assms(1) by (auto simp: inserted_def)
  show ?thesis
    unfolding inserted_def
    by (rule exI [of _ xs], rule exI [of _ "ys @ (k, v) # inorder r"])
       (use xy assms(2,3) in \<open>auto dest: less_trans\<close>)
qed

lemma inserted_InRight:
  assumes "inserted key val (inorder r) new" "k < key" "\<forall>x \<in> keys_of (inorder l). x < k"
  shows "inserted key val (inorder (Node l k v h r)) (inorder l @ (k, v) # new)"
proof -
  obtain xs ys where xy: "inorder r = xs @ ys" "new = xs @ (key, val) # ys"
    "\<forall>x \<in> keys_of xs. x < key" "\<forall>y \<in> keys_of ys. key < y"
    using assms(1) by (auto simp: inserted_def)
  show ?thesis
    unfolding inserted_def
    by (rule exI [of _ "inorder l @ (k, v) # xs"], rule exI [of _ ys])
       (use xy assms(2,3) in \<open>auto dest: less_trans\<close>)
qed

lemma inserted_Nil: "inserted key val [] [(key, val)]"
  by (auto simp: inserted_def)

lemma sorted1_Node:
  "sorted1 (inorder (Node l k v h r)) \<longleftrightarrow>
     sorted1 (inorder l) \<and> sorted1 (inorder r) \<and>
     (\<forall>x \<in> keys_of (inorder l). x < k) \<and> (\<forall>y \<in> keys_of (inorder r). k < y)"
  by (auto simp: sorted_wrt_append intro: less_trans)

definition insert_post ::
  "('k::linorder, 'v) frame list \<Rightarrow> ('k, 'v) node \<Rightarrow> 'k \<Rightarrow> 'v \<Rightarrow> ('k, 'v) node option result option \<Rightarrow> bool" where
  "insert_post path t key val res \<longleftrightarrow>
     (if key \<in> keys_of (inorder t) then res = Some (Inr None)
      else \<exists>t' new. res = Some (Inr (Some t')) \<and> avl t' \<and>
             inserted key val (inorder t) new \<and> inorder t' = before path @ new @ after path)"

lemma insert_post_InLeft:
  assumes "insert_post (InLeft k v h r # path) l key val res" "key < k"
    and "\<forall>y \<in> keys_of (inorder r). k < y"
  shows "insert_post path (Node l k v h r) key val res"
proof (cases "key \<in> keys_of (inorder l)")
  case True
  then show ?thesis using assms(1) by (simp add: insert_post_def image_Un)
next
  case False
  then obtain t' new where t': "res = Some (Inr (Some t'))" "avl t'"
    "inserted key val (inorder l) new" "inorder t' = before path @ new @ (k, v) # inorder r @ after path"
    using assms(1) by (auto simp: insert_post_def)
  have "key \<notin> keys_of (inorder (Node l k v h r))" using False assms(2,3) by (auto dest: less_asym)
  then show ?thesis
    using t' inserted_InLeft [OF t'(3) assms(2,3), of v h] by (auto simp: insert_post_def)
qed

lemma insert_post_InRight:
  assumes "insert_post (InRight l k v h # path) r key val res" "k < key"
    and "\<forall>x \<in> keys_of (inorder l). x < k"
  shows "insert_post path (Node l k v h r) key val res"
proof (cases "key \<in> keys_of (inorder r)")
  case True
  then show ?thesis using assms(1) by (simp add: insert_post_def image_Un)
next
  case False
  then obtain t' new where t': "res = Some (Inr (Some t'))" "avl t'"
    "inserted key val (inorder r) new" "inorder t' = before path @ inorder l @ (k, v) # new @ after path"
    using assms(1) by (auto simp: insert_post_def)
  have "key \<notin> keys_of (inorder (Node l k v h r))" using False assms(2,3) by (auto dest: less_asym)
  then show ?thesis
    using t' inserted_InRight [OF t'(3) assms(2,3), of v h] by (auto simp: insert_post_def)
qed

lemma insert_from_ok:
  assumes "path_ok path (ht t)" "avl t" "t \<noteq> Null" "sorted1 (inorder t)"
  shows "insert_post path t key val (insert_from path t key val)"
  using assms
proof (induction path t key val rule: insert_from.induct)
  case (1 path key val)
  then show ?case by simp
next
  case (2 path l k v h r key val)
  have s: "sorted1 (inorder l)" "sorted1 (inorder r)"
    "\<forall>x \<in> keys_of (inorder l). x < k" "\<forall>y \<in> keys_of (inorder r). k < y"
    using "2.prems"(4) unfolding sorted1_Node by auto
  let ?new = "Node Null key val 1 Null"
  have new: "avl ?new" "ht ?new = 1" by auto
  have t: "path_ok path h" "h = max (ht l) (ht r) + 1" "\<bar>ht l - ht r\<bar> \<le> 1" "avl l" "avl r"
    using "2.prems" by auto
  consider "k = key" | "key < k" | "k < key" by (metis neqE)
  then show ?case
  proof cases
    case 1
    then show ?thesis by (simp add: insert_post_def)
  next
    case lt: 2
    then have notr: "key \<notin> keys_of (inorder r)" using s(4) by (meson less_asym)
    show ?thesis
    proof (cases "l = Null")
      case True
      obtain t' where "insert_at path (Node ?new k v h r) h = Some (Inr t')" "avl t'"
        "inorder t' = before path @ inorder (Node ?new k v h r) @ after path"
        using insert_at_ok [OF t(1-5) new(1) t(5), of k v] True new by auto
      moreover have "inserted key val (inorder (Node l k v h r)) ([(key, val)] @ (k, v) # inorder r)"
        using inserted_InLeft [OF _ lt s(4), of val l "[(key, val)]" v h] inserted_Nil [of key val]
        True by simp
      ultimately show ?thesis
        using True lt notr by (auto simp: insert_post_def)
    next
      case False
      have "insert_post (InLeft k v h r # path) l key val
              (insert_from (InLeft k v h r # path) l key val)"
        using "2.IH"(1) lt False t s by (simp add: max.commute)
      moreover have "insert_from path (Node l k v h r) key val =
                     insert_from (InLeft k v h r # path) l key val"
        using lt False by auto
      ultimately show ?thesis using insert_post_InLeft lt s(4) by metis
    qed
  next
    case gt: 3
    then have notl: "key \<notin> keys_of (inorder l)" using s(3) by (meson less_asym)
    show ?thesis
    proof (cases "r = Null")
      case True
      obtain t' where "insert_at path (Node l k v h ?new) h = Some (Inr t')" "avl t'"
        "inorder t' = before path @ inorder (Node l k v h ?new) @ after path"
        using insert_at_ok [OF t(1-5) t(4) new(1), of k v] True new by auto
      moreover have "inserted key val (inorder (Node l k v h r)) (inorder l @ (k, v) # [(key, val)])"
        using inserted_InRight [OF _ gt s(3), of val r "[(key, val)]" v h] inserted_Nil [of key val]
        True by simp
      ultimately show ?thesis
        using True gt notl by (auto simp: insert_post_def)
    next
      case False
      have "insert_post (InRight l k v h # path) r key val
              (insert_from (InRight l k v h # path) r key val)"
        using "2.IH"(2) gt False t s by (simp add: max.commute)
      moreover have "insert_from path (Node l k v h r) key val =
                     insert_from (InRight l k v h # path) r key val"
        using gt False by auto
      ultimately show ?thesis using insert_post_InRight gt s(3) by metis
    qed
  qed
qed

section \<open>Removal\<close>

definition unhooked_left ::
  "('k, 'v) frame list \<Rightarrow> ('k, 'v) node \<Rightarrow> ('k \<times> 'v) option \<Rightarrow> ('k, 'v) frame list \<times> ('k, 'v) node \<Rightarrow> bool" where
  "unhooked_left path t e z \<longleftrightarrow>
     (\<exists>k v. e = Some (k, v) \<and> path_ok (fst z) (ht (snd z) + 1) \<and> avl (snd z) \<and>
        before (fst z) = before path \<and>
        (k, v) # inorder (snd z) @ after (fst z) = inorder t @ after path)"

definition unhooked_right ::
  "('k, 'v) frame list \<Rightarrow> ('k, 'v) node \<Rightarrow> ('k \<times> 'v) option \<Rightarrow> ('k, 'v) frame list \<times> ('k, 'v) node \<Rightarrow> bool" where
  "unhooked_right path t e z \<longleftrightarrow>
     (\<exists>k v. e = Some (k, v) \<and> path_ok (fst z) (ht (snd z) + 1) \<and> avl (snd z) \<and>
        after (fst z) = after path \<and>
        before (fst z) @ inorder (snd z) @ [(k, v)] = before path @ inorder t)"

lemma unhook_leftmost_ok:
  "path_ok path (ht t) \<Longrightarrow> avl t \<Longrightarrow> t \<noteq> Null \<Longrightarrow>
   unhooked_left path t (leftmost t) (unhook_leftmost path t)"
proof (induction path t rule: unhook_leftmost.induct)
  case (2 path l k v h r)
  show ?case
  proof (cases "l = Null")
    case True
    then have "h = ht r + 1" using "2.prems"(2) avl_ht_nonneg [of r] by auto
    then show ?thesis using "2.prems" True by (simp add: unhooked_left_def)
  next
    case False
    then have "unhooked_left (InLeft k v h r # path) l (leftmost l)
                 (unhook_leftmost (InLeft k v h r # path) l)"
      using "2.IH" "2.prems" by simp
    then show ?thesis using False by (simp add: unhooked_left_def)
  qed
qed simp

lemma unhook_rightmost_ok:
  "path_ok path (ht t) \<Longrightarrow> avl t \<Longrightarrow> t \<noteq> Null \<Longrightarrow>
   unhooked_right path t (rightmost t) (unhook_rightmost path t)"
proof (induction path t rule: unhook_rightmost.induct)
  case (2 path l k v h r)
  show ?case
  proof (cases "r = Null")
    case True
    then have "h = ht l + 1" using "2.prems"(2) avl_ht_nonneg [of l] by auto
    then show ?thesis using "2.prems" True by (simp add: unhooked_right_def)
  next
    case False
    then have "unhooked_right (InRight l k v h # path) r (rightmost r)
                 (unhook_rightmost (InRight l k v h # path) r)"
      using "2.IH" "2.prems" by simp
    then show ?thesis using False by (simp add: unhooked_right_def)
  qed
qed simp

lemma leftmost_None: "leftmost t = None \<longleftrightarrow> t = Null"
  by (induction t) auto

lemma rightmost_None: "rightmost t = None \<longleftrightarrow> t = Null"
  by (induction t) auto

lemma avl_only_child:
  assumes "avl (Node a k v h b)" "h \<le> 1"
  shows "a = Null" "b = Null"
  using assms avl_ht_pos [of a] avl_ht_pos [of b] by (auto simp: max_def split: if_splits)

lemma erase_at_ok:
  assumes "path_ok path h" "avl (Node l k v h r)"
  shows "\<exists>t'. erase_at path l h r = Some (Inr t') \<and> avl t' \<and>
           inorder t' = before path @ inorder l @ inorder r @ after path"
proof -
  have t: "avl l" "avl r" "h = max (ht l) (ht r) + 1" "\<bar>ht l - ht r\<bar> \<le> 1" using assms(2) by auto
  define succ where "succ \<longleftrightarrow>
    (case path of [] \<Rightarrow> True | InRight _ _ _ _ # _ \<Rightarrow> True | InLeft _ _ _ _ # _ \<Rightarrow> False)"
  have defn: "erase_at path l h r =
     (if l = Null \<and> r = Null then update_from_parent (path, Null)
      else if succ then
        (case leftmost r of
           Some (k', v') \<Rightarrow> update_from_parent (unhook_leftmost (InRight l k' v' h # path) r)
         | None \<Rightarrow> (case l of Null \<Rightarrow> Some (Inl Undefined)
              | Node ll lk lv lh lr \<Rightarrow> update_height_and_balance path (Node ll lk lv h lr)))
      else
        (case rightmost l of
           Some (k', v') \<Rightarrow> update_from_parent (unhook_rightmost (InLeft k' v' h r # path) l)
         | None \<Rightarrow> (case r of Null \<Rightarrow> Some (Inl Undefined)
              | Node rl rk rv rh rr \<Rightarrow> update_height_and_balance path (Node rl rk rv h rr))))"
    by (simp add: succ_def)
  consider (leaf) "l = Null" "r = Null" | (succ) "succ" "r \<noteq> Null"
    | (pull_l) "succ" "r = Null" "l \<noteq> Null" | (pred) "\<not> succ" "l \<noteq> Null"
    | (pull_r) "\<not> succ" "l = Null" "r \<noteq> Null" by blast
  then show ?thesis
  proof cases
    case leaf
    then show ?thesis using update_from_parent_ok [OF assms(1), of Null] t defn by simp
  next
    case succ
    obtain k' v' where lm: "leftmost r = Some (k', v')" using succ leftmost_None by fastforce
    have "path_ok (InRight l k' v' h # path) (ht r)" using assms(1) t by (simp add: max.commute)
    then have "unhooked_left (InRight l k' v' h # path) r (Some (k', v'))
                 (unhook_leftmost (InRight l k' v' h # path) r)"
      using unhook_leftmost_ok t(2) succ(2) lm by metis
    then obtain path' rest where u: "unhook_leftmost (InRight l k' v' h # path) r = (path', rest)"
      "path_ok path' (ht rest + 1)" "avl rest" "before path' = before path @ inorder l @ [(k', v')]"
      "(k', v') # inorder rest @ after path' = inorder r @ after path"
      by (cases "unhook_leftmost (InRight l k' v' h # path) r") (auto simp: unhooked_left_def)
    have "erase_at path l h r = update_from_parent (path', rest)"
      using succ lm u(1) defn by simp
    moreover have "inorder l @ (k', v') # inorder rest @ after path' = inorder l @ inorder r @ after path"
      using u(5) by simp
    ultimately show ?thesis using update_from_parent_ok [OF u(2,3)] u(4) by auto
  next
    case pull_l
    then obtain ll lk lv lh lr where l: "l = Node ll lk lv lh lr" by (cases l) auto
    have "lh \<le> 1" using t l pull_l by auto
    then have ch: "ll = Null" "lr = Null"
      using avl_only_child [OF t(1) [unfolded l]] by auto
    have "erase_at path l h r = update_height_and_balance path (Node ll lk lv h lr)"
      using pull_l l defn by simp
    then show ?thesis using update_node_ok [OF assms(1), of ll lr lk lv h] ch t l pull_l by auto
  next
    case pred
    obtain k' v' where rm: "rightmost l = Some (k', v')" using pred rightmost_None by fastforce
    have "path_ok (InLeft k' v' h r # path) (ht l)" using assms(1) t by simp
    then have "unhooked_right (InLeft k' v' h r # path) l (Some (k', v'))
                 (unhook_rightmost (InLeft k' v' h r # path) l)"
      using unhook_rightmost_ok t(1) pred(2) rm by metis
    then obtain path' rest where u: "unhook_rightmost (InLeft k' v' h r # path) l = (path', rest)"
      "path_ok path' (ht rest + 1)" "avl rest" "after path' = (k', v') # inorder r @ after path"
      "before path' @ inorder rest @ [(k', v')] = before path @ inorder l"
      by (cases "unhook_rightmost (InLeft k' v' h r # path) l") (auto simp: unhooked_right_def)
    have "erase_at path l h r = update_from_parent (path', rest)"
      using pred rm u(1) defn by simp
    moreover have "before path' @ inorder rest @ after path' = before path @ inorder l @ inorder r @ after path"
      using u(4,5) by (metis append.assoc append_Cons append_Nil)
    ultimately show ?thesis using update_from_parent_ok [OF u(2,3)] by auto
  next
    case pull_r
    then obtain rl rk rv rh rr where r: "r = Node rl rk rv rh rr" by (cases r) auto
    have "rh \<le> 1" using t r pull_r by auto
    then have ch: "rl = Null" "rr = Null"
      using avl_only_child [OF t(2) [unfolded r]] by auto
    have "erase_at path l h r = update_height_and_balance path (Node rl rk rv h rr)"
      using pull_r r defn by simp
    then show ?thesis using update_node_ok [OF assms(1), of rl rr rk rv h] ch t r pull_r by auto
  qed
qed

lemma erase_from_ok:
  assumes "path_ok path (ht t)" "avl t" "sorted1 (inorder t)"
  shows "if key \<in> keys_of (inorder t) then
           \<exists>t' xs v ys. erase_from path t key = Some (Inr (Some t')) \<and> avl t' \<and>
             inorder t = xs @ (key, v) # ys \<and> inorder t' = before path @ xs @ ys @ after path
         else erase_from path t key = Some (Inr None)"
  using assms
proof (induction path t key rule: erase_from.induct)
  case (2 path l k v h r key)
  have s: "sorted1 (inorder l)" "sorted1 (inorder r)"
    "\<forall>x \<in> keys_of (inorder l). x < k" "\<forall>y \<in> keys_of (inorder r). k < y"
    using "2.prems"(3) unfolding sorted1_Node by auto
  have t: "path_ok path h" "h = max (ht l) (ht r) + 1" "\<bar>ht l - ht r\<bar> \<le> 1" "avl l" "avl r"
    using "2.prems" by auto
  consider "k = key" | "key < k" | "k < key" by (metis neqE)
  then show ?case
  proof cases
    case 1
    then show ?thesis
      using erase_at_ok [OF t(1) "2.prems"(2)]
      by (auto simp del: erase_at.simps) (metis append.assoc)
  next
    case lt: 2
    then have iff: "key \<in> keys_of (inorder (Node l k v h r)) \<longleftrightarrow> key \<in> keys_of (inorder l)"
      using s(4) by (auto dest: less_asym)
    have eq: "erase_from path (Node l k v h r) key = erase_from (InLeft k v h r # path) l key"
      using lt by auto
    have "path_ok (InLeft k v h r # path) (ht l)" using t by simp
    moreover have g: "k \<noteq> key" using lt by auto
    ultimately have IH: "if key \<in> keys_of (inorder l) then
        \<exists>t' xs w ys. erase_from (InLeft k v h r # path) l key = Some (Inr (Some t')) \<and> avl t' \<and>
          inorder l = xs @ (key, w) # ys \<and>
          inorder t' = before (InLeft k v h r # path) @ xs @ ys @ after (InLeft k v h r # path)
        else erase_from (InLeft k v h r # path) l key = Some (Inr None)"
      using "2.IH"(1) lt t(4) s(1) by blast
    show ?thesis
    proof (cases "key \<in> keys_of (inorder l)")
      case True
      then obtain t' xs w ys where "erase_from (InLeft k v h r # path) l key = Some (Inr (Some t'))"
        "avl t'" "inorder l = xs @ (key, w) # ys"
        "inorder t' = before path @ xs @ ys @ (k, v) # inorder r @ after path"
        using IH True by auto
      then show ?thesis
        unfolding iff eq if_P [OF True]
        by (intro exI [of _ t'] exI [of _ xs] exI [of _ w] exI [of _ "ys @ (k, v) # inorder r"]) simp
    next
      case False
      then show ?thesis unfolding iff eq using IH by simp
    qed
  next
    case gt: 3
    then have iff: "key \<in> keys_of (inorder (Node l k v h r)) \<longleftrightarrow> key \<in> keys_of (inorder r)"
      using s(3) by (auto dest: less_asym)
    have eq: "erase_from path (Node l k v h r) key = erase_from (InRight l k v h # path) r key"
      using gt by auto
    have "path_ok (InRight l k v h # path) (ht r)" using t by simp
    moreover have g: "k \<noteq> key" "\<not> key < k" using gt by auto
    ultimately have IH: "if key \<in> keys_of (inorder r) then
        \<exists>t' xs w ys. erase_from (InRight l k v h # path) r key = Some (Inr (Some t')) \<and> avl t' \<and>
          inorder r = xs @ (key, w) # ys \<and>
          inorder t' = before (InRight l k v h # path) @ xs @ ys @ after (InRight l k v h # path)
        else erase_from (InRight l k v h # path) r key = Some (Inr None)"
      using "2.IH"(2) t(5) s(2) by blast
    show ?thesis
    proof (cases "key \<in> keys_of (inorder r)")
      case True
      then obtain t' xs w ys where "erase_from (InRight l k v h # path) r key = Some (Inr (Some t'))"
        "avl t'" "inorder r = xs @ (key, w) # ys"
        "inorder t' = before path @ inorder l @ (k, v) # xs @ ys @ after path"
        using IH True by auto
      then show ?thesis
        unfolding iff eq if_P [OF True]
        by (intro exI [of _ t'] exI [of _ "inorder l @ (k, v) # xs"] exI [of _ w] exI [of _ ys]) simp
    next
      case False
      then show ?thesis unfolding iff eq using IH by simp
    qed
  qed
qed simp

section \<open>The map as a partial function\<close>

definition map_wf :: "('k::linorder, 'v) kmap \<Rightarrow> bool" where
  "map_wf m \<longleftrightarrow> avl (m_root m) \<and> sorted1 (inorder (m_root m)) \<and>
     m_size m = length (inorder (m_root m))"

definition entries :: "('k, 'v) kmap \<Rightarrow> 'k \<Rightarrow> 'v option" where
  "entries m = map_of (inorder (m_root m))"

lemma find_node_from_eq:
  "sorted1 (inorder t) \<Longrightarrow> find_node_from t key = map_option (Pair key) (map_of (inorder t) key)"
proof (induction t)
  case (Node l k v h r)
  then have s: "sorted1 (inorder l)" "sorted1 (inorder r)"
    "\<forall>x \<in> keys_of (inorder l). x < k" "\<forall>y \<in> keys_of (inorder r). k < y"
    unfolding sorted1_Node by auto
  have l: "map_of (inorder l) key = None" if "\<not> key < k"
    using that s(3) by (auto simp: map_of_eq_None_iff)
  have r: "map_of (inorder r) key = None" if "\<not> k < key"
    using that s(4) by (auto simp: map_of_eq_None_iff)
  consider "k = key" | "key < k" | "k < key" by (metis neqE)
  then show ?case
    using Node.IH s l r by cases (auto simp: map_add_def split: option.splits)
qed simp

lemma find_node_eq:
  "map_wf m \<Longrightarrow> find_node m key = map_option (Pair key) (entries m key)"
  by (simp add: find_node_def map_wf_def entries_def find_node_from_eq)

lemma map_get_eq: "map_wf m \<Longrightarrow> map_get m key = entries m key"
  by (simp add: map_get_def find_node_eq split: option.splits)

lemma map_contains_eq: "map_wf m \<Longrightarrow> map_contains m key \<longleftrightarrow> entries m key \<noteq> None"
  by (simp add: map_contains_def find_node_eq)

lemma dom_entries: "dom (entries m) = keys_of (inorder (m_root m))"
  by (simp add: entries_def dom_map_of_conv_image_fst)

lemma inserted_sorted:
  assumes "inserted key val old new" "sorted1 old"
  shows "sorted1 new" "map_of new = (map_of old)(key \<mapsto> val)" "length new = Suc (length old)"
proof -
  obtain xs ys where xy: "old = xs @ ys" "new = xs @ (key, val) # ys"
    "\<forall>x \<in> keys_of xs. x < key" "\<forall>y \<in> keys_of ys. key < y"
    using assms(1) by (auto simp: inserted_def)
  show "sorted1 new" using xy assms(2) by (auto simp: sorted_wrt_append)
  have "key \<notin> keys_of xs" "key \<notin> keys_of ys" using xy(3,4) by auto
  then have "map_of xs key = None" "map_of ys key = None" by (simp_all add: map_of_eq_None_iff)
  then show "map_of new = (map_of old)(key \<mapsto> val)"
    using xy(1,2) by (auto simp: map_add_def fun_eq_iff split: option.splits)
  show "length new = Suc (length old)" using xy by simp
qed

lemma map_insert_ok:
  assumes "map_wf m"
  obtains (present) "entries m key \<noteq> None" "map_insert m key val = Some (Inr (False, m))"
  | (absent) m' where "entries m key = None" "map_insert m key val = Some (Inr (True, m'))"
      "map_wf m'" "entries m' = (entries m)(key \<mapsto> val)"
proof (cases "m_root m = Null")
  case True
  then show thesis using assms
    by (intro absent) (auto simp: entries_def map_insert_def map_wf_def)
next
  case False
  have post: "insert_post [] (m_root m) key val (insert_from [] (m_root m) key val)"
    using assms False by (intro insert_from_ok) (auto simp: map_wf_def)
  show thesis
  proof (cases "key \<in> keys_of (inorder (m_root m))")
    case True
    then have "entries m key \<noteq> None" by (metis domIff dom_entries)
    moreover have "map_insert m key val = Some (Inr (False, m))"
      using post True False by (simp add: insert_post_def map_insert_def)
    ultimately show thesis by (rule present)
  next
    case notin: False
    then obtain t' where t': "insert_from [] (m_root m) key val = Some (Inr (Some t'))" "avl t'"
      "inserted key val (inorder (m_root m)) (inorder t')"
      using post by (auto simp: insert_post_def)
    have "entries m key = None" using notin by (metis domIff dom_entries)
    moreover have "map_insert m key val = Some (Inr (True, m\<lparr>m_root := t', m_size := m_size m + 1\<rparr>))"
      using t'(1) False by (simp add: map_insert_def)
    moreover have "map_wf (m\<lparr>m_root := t', m_size := m_size m + 1\<rparr>)"
      "entries (m\<lparr>m_root := t', m_size := m_size m + 1\<rparr>) = (entries m)(key \<mapsto> val)"
      using assms inserted_sorted [OF t'(3)] t'(2) by (auto simp: map_wf_def entries_def)
    ultimately show thesis by (rule absent)
  qed
qed

lemma map_of_remove:
  assumes "sorted1 (xs @ (key, v) # ys)"
  shows "map_of (xs @ ys) = (map_of (xs @ (key, v) # ys))(key := None)"
proof -
  have "key \<notin> keys_of xs" "key \<notin> keys_of ys" using assms by (auto simp: sorted_wrt_append)
  then have "map_of xs key = None" "map_of ys key = None" by (simp_all add: map_of_eq_None_iff)
  then show ?thesis by (auto simp: map_add_def fun_eq_iff split: option.splits)
qed

lemma map_erase_ok:
  assumes "map_wf m"
  obtains m' where "map_erase m key = Some (Inr m')" "map_wf m'" "entries m' = (entries m)(key := None)"
proof (cases "key \<in> keys_of (inorder (m_root m))")
  case True
  then have nn: "m_root m \<noteq> Null" by auto
  obtain t' xs v ys where t': "erase_from [] (m_root m) key = Some (Inr (Some t'))" "avl t'"
    "inorder (m_root m) = xs @ (key, v) # ys" "inorder t' = xs @ ys"
    using erase_from_ok [of "[]" "m_root m" key] assms True by (auto simp: map_wf_def)
  let ?m = "m\<lparr>m_root := t', m_size := m_size m - 1\<rparr>"
  have "map_erase m key = Some (Inr ?m)" using t'(1) nn by (simp add: map_erase_def)
  moreover have s: "sorted1 (xs @ (key, v) # ys)" using assms t'(3) by (simp add: map_wf_def)
  then have "sorted1 (xs @ ys)" by (auto simp: sorted_wrt_append)
  then have "map_wf ?m" using assms t' by (simp add: map_wf_def)
  moreover have "entries ?m = (entries m)(key := None)"
    using map_of_remove [OF s] t'(3,4) by (simp add: entries_def)
  ultimately show thesis by (rule that)
next
  case False
  then have "erase_from [] (m_root m) key = Some (Inr None)"
    using erase_from_ok [of "[]" "m_root m" key] assms by (simp add: map_wf_def)
  moreover have "entries m key = None" using False by (metis domIff dom_entries)
  ultimately show thesis
    using assms that [of m] by (auto simp: map_erase_def fun_upd_idem)
qed

section \<open>Assignment through a reference\<close>

lemma ht_assign_from [simp]: "ht (assign_from t key val) = ht t"
  by (cases t) auto

lemma avl_assign_from: "avl t \<Longrightarrow> avl (assign_from t key val)"
  by (induction t) auto

lemma keys_assign_from: "map fst (inorder (assign_from t key val)) = map fst (inorder t)"
  by (induction t) auto

lemma map_of_assign_from:
  assumes "sorted1 (inorder t)" "key \<in> keys_of (inorder t)"
  shows "map_of (inorder (assign_from t key val)) = (map_of (inorder t))(key \<mapsto> val)"
  using assms
proof (induction t)
  case (Node l k v h r)
  then have s: "sorted1 (inorder l)" "sorted1 (inorder r)"
    "\<forall>x \<in> keys_of (inorder l). x < k" "\<forall>y \<in> keys_of (inorder r). k < y"
    unfolding sorted1_Node by auto
  have l: "map_of (inorder l) key = None" if "\<not> key < k"
    using that s(3) by (auto simp: map_of_eq_None_iff)
  have r: "map_of (inorder r) key = None" if "\<not> k < key"
    using that s(4) by (auto simp: map_of_eq_None_iff)
  consider (eq) "k = key" | (lt) "key < k" | (gt) "k < key" by (metis neqE)
  then show ?case
  proof cases
    case eq
    then show ?thesis using l r by (auto simp: map_add_def fun_eq_iff split: option.splits)
  next
    case lt
    then have "key \<in> keys_of (inorder l)" using Node.prems(2) s(4) by (auto dest: less_asym)
    then show ?thesis
      using Node.IH(1) s lt r by (auto simp: map_add_def fun_eq_iff split: option.splits)
  next
    case gt
    then have "key \<in> keys_of (inorder r)" using Node.prems(2) s(3) by (auto dest: less_asym)
    then show ?thesis
      using Node.IH(2) s gt l by (auto simp: map_add_def fun_eq_iff split: option.splits)
  qed
qed simp

lemma map_index_ok:
  assumes "map_wf m"
  obtains m' where "map_wf m'" "key \<in> dom (entries m')"
    "map_index m key dflt = Some (Inr (case entries m key of None \<Rightarrow> dflt | Some v \<Rightarrow> v, m'))"
    "entries m' = (entries m)(key \<mapsto> (case entries m key of None \<Rightarrow> dflt | Some v \<Rightarrow> v))"
proof (cases "entries m key")
  case None
  have find: "find_node m key = None" using None find_node_eq [OF assms, of key] by simp
  show thesis
  proof (cases rule: map_insert_ok [OF assms, of key dflt])
    case 1
    then show thesis using None by simp
  next
    case (2 m')
    then show thesis using that [of m'] None find by (simp add: map_index_def)
  qed
next
  case (Some v)
  then show thesis
    using that [of m] find_node_eq [OF assms, of key] assms
    by (auto simp: map_index_def fun_upd_idem)
qed

lemma map_assign_ok:
  assumes "map_wf m" "entries m key \<noteq> None"
  shows "map_wf (m\<lparr>m_root := assign_from (m_root m) key val\<rparr>)"
    and "entries (m\<lparr>m_root := assign_from (m_root m) key val\<rparr>) = (entries m)(key \<mapsto> val)"
proof -
  have "length (inorder (assign_from (m_root m) key val)) = length (inorder (m_root m))"
    by (metis keys_assign_from length_map)
  then show "map_wf (m\<lparr>m_root := assign_from (m_root m) key val\<rparr>)"
    using assms(1) avl_assign_from [of "m_root m"] by (simp add: map_wf_def keys_assign_from)
  have "key \<in> keys_of (inorder (m_root m))" using assms(2) dom_entries [of m] by blast
  then show "entries (m\<lparr>m_root := assign_from (m_root m) key val\<rparr>) = (entries m)(key \<mapsto> val)"
    using map_of_assign_from [of "m_root m" key val] assms(1) by (simp add: entries_def map_wf_def)
qed

lemma map_set_ok:
  assumes "map_wf m"
  obtains m' where "map_set m key dflt val = Some (Inr m')" "map_wf m'"
    "entries m' = (entries m)(key \<mapsto> val)"
proof -
  obtain m1 x where m1: "map_wf m1" "map_index m key dflt = Some (Inr (x, m1))"
    "entries m1 = (entries m)(key \<mapsto> x)"
    using map_index_ok [OF assms] by metis
  show thesis
    using that [of "m1\<lparr>m_root := assign_from (m_root m1) key val\<rparr>"] m1
      map_assign_ok [OF m1(1), of key val] by (simp add: map_set_def)
qed

section \<open>Refinement\<close>

datatype ('k, 'v) map_op = MInsert 'k 'v | MErase 'k | MGet 'k | MAssign 'k 'v | MSize

datatype 'v map_out = Inserted bool | Done | Got "'v option" | Size nat

fun fun_step :: "('k \<rightharpoonup> 'v) \<Rightarrow> ('k, 'v) map_op \<Rightarrow> ('v map_out \<times> ('k \<rightharpoonup> 'v)) result" where
  "fun_step f (MInsert k v) =
     (if f k = None then Inr (Inserted True, f(k \<mapsto> v)) else Inr (Inserted False, f))"
| "fun_step f (MErase k) = Inr (Done, f(k := None))"
| "fun_step f (MGet k) = Inr (Got (f k), f)"
| "fun_step f (MAssign k v) = Inr (Done, f(k \<mapsto> v))"
| "fun_step f MSize = Inr (Size (card (dom f)), f)"

fun map_step ::
  "'v \<Rightarrow> ('k::linorder, 'v) kmap \<Rightarrow> ('k, 'v) map_op \<Rightarrow> ('v map_out \<times> ('k, 'v) kmap) result" where
  "map_step dflt m (MInsert k v) =
     rbind (returned (map_insert m k v)) (\<lambda>(b, m'). Inr (Inserted b, m'))"
| "map_step dflt m (MErase k) = rbind (returned (map_erase m k)) (\<lambda>m'. Inr (Done, m'))"
| "map_step dflt m (MGet k) = Inr (Got (map_get m k), m)"
| "map_step dflt m (MAssign k v) =
     rbind (returned (map_set m k dflt v)) (\<lambda>m'. Inr (Done, m'))"
| "map_step dflt m MSize = Inr (Size (m_size m), m)"

lemma map_size_eq: "map_wf m \<Longrightarrow> m_size m = card (dom (entries m))"
  using distinct_card [of "map fst (inorder (m_root m))"]
  by (simp add: map_wf_def dom_entries strict_sorted_iff)

lemma map_step_sim:
  assumes "map_wf m"
  shows "lift_abs entries (map_step dflt m p) = fun_step (entries m) p \<and>
         (\<forall>r m'. map_step dflt m p = Inr (r, m') \<longrightarrow> map_wf m')"
proof (cases p)
  case (MInsert k v)
  show ?thesis
    by (cases rule: map_insert_ok [OF assms, of k v]) (use assms MInsert in auto)
next
  case (MErase k)
  obtain m' where "map_erase m k = Some (Inr m')" "map_wf m'" "entries m' = (entries m)(k := None)"
    by (rule map_erase_ok [OF assms])
  then show ?thesis using MErase by simp
next
  case (MGet k)
  then show ?thesis using assms by (simp add: map_get_eq)
next
  case (MAssign k v)
  obtain m' where "map_set m k dflt v = Some (Inr m')" "map_wf m'" "entries m' = (entries m)(k \<mapsto> v)"
    by (rule map_set_ok [OF assms])
  then show ?thesis using MAssign by simp
next
  case MSize
  then show ?thesis using assms by (simp add: map_size_eq)
qed

lemmas map_step_refines = map_step_sim [THEN conjunct1]
lemmas map_step_wf = map_step_sim [THEN conjunct2, rule_format]

lemma map_wf_new: "map_wf map_new" and entries_new [simp]: "entries map_new = Map.empty"
  by (simp_all add: map_new_def map_wf_def entries_def)

interpretation avlmap: data_refinement map_wf entries "map_step dflt" fun_step
  for dflt :: "'v"
  by unfold_locales (rule map_step_refines, assumption, rule map_step_wf)

section \<open>Iteration\<close>

definition rest_of :: "('k, 'v) cursor \<Rightarrow> ('k \<times> 'v) list" where
  "rest_of it = (case it of
     None \<Rightarrow> []
   | Some (path, Null) \<Rightarrow> []
   | Some (path, Node l k v h r) \<Rightarrow> (k, v) # inorder r @ after path)"

definition cursor_ok :: "('k, 'v) cursor \<Rightarrow> bool" where
  "cursor_ok it \<longleftrightarrow> (case it of None \<Rightarrow> True | Some (path, t) \<Rightarrow> t \<noteq> Null)"

lemma descend_left_rest:
  "t \<noteq> Null \<Longrightarrow> rest_of (descend_left path t) = inorder t @ after path \<and>
     cursor_ok (descend_left path t)"
  by (induction path t rule: descend_left.induct) (auto simp: rest_of_def cursor_ok_def)

lemma climb_successor_rest:
  "rest_of (climb_successor path t) = after path \<and> cursor_ok (climb_successor path t)"
  by (induction path t rule: climb_successor.induct) (auto simp: rest_of_def cursor_ok_def)

lemma iter_inc_rest:
  assumes "cursor_ok it"
  shows "rest_of (iter_inc it) = tl (rest_of it) \<and> cursor_ok (iter_inc it)"
proof (cases it)
  case None
  then show ?thesis by (simp add: iter_inc_def rest_of_def cursor_ok_def)
next
  case (Some z)
  then obtain path l k v h r where z: "it = Some (path, Node l k v h r)"
    using assms by (cases z; cases "snd z") (auto simp: cursor_ok_def)
  show ?thesis
    using descend_left_rest [of r "InRight l k v h # path"]
      climb_successor_rest [of path "Node l k v h r"]
    by (cases "r = Null") (auto simp: z iter_inc_def rest_of_def)
qed

lemma iterate_eq: "cursor_ok it \<Longrightarrow> iterate n it = take n (rest_of it)"
proof (induction n it rule: iterate.induct)
  case (4 n path l k v h r)
  then show ?case
    using iter_inc_rest [of "Some (path, Node l k v h r)"] by (simp add: rest_of_def)
qed (auto simp: rest_of_def cursor_ok_def)

lemma iter_begin_rest: "rest_of (iter_begin m) = inorder (m_root m) \<and> cursor_ok (iter_begin m)"
  using descend_left_rest [of "m_root m" "[]"]
  by (cases "m_root m = Null") (auto simp: iter_begin_def rest_of_def cursor_ok_def)

section \<open>Height\<close>

lemma avl_height_bound: "avl t \<Longrightarrow> 2 ^ (nat (ht t) div 2) \<le> Suc (length (inorder t))"
proof (induction t)
  case (Node l k v h r)
  define a b where "a = nat (ht l)" and "b = nat (ht r)"
  have lr: "avl l" "avl r" "0 \<le> ht l" "0 \<le> ht r" using Node.prems avl_ht_nonneg by auto
  have h: "nat h = Suc (max a b)" "a \<le> Suc b" "b \<le> Suc a"
    using Node.prems lr by (auto simp: a_def b_def)
  have "nat h div 2 \<le> Suc (min a b div 2)" using h by (auto simp: max_def min_def)
  then have "(2::nat) ^ (nat h div 2) \<le> 2 ^ Suc (min a b div 2)"
    by (rule power_increasing) simp
  then have "(2::nat) ^ (nat h div 2) \<le> 2 * 2 ^ (min a b div 2)" by simp
  moreover have p: "(2::nat) ^ (min a b div 2) \<le> 2 ^ (a div 2)" "(2::nat) ^ (min a b div 2) \<le> 2 ^ (b div 2)"
    by (simp_all add: div_le_mono)
  then have "2 * 2 ^ (min a b div 2) \<le> (2::nat) ^ (a div 2) + 2 ^ (b div 2)"
    by linarith
  moreover have "2 ^ (a div 2) + 2 ^ (b div 2) \<le> Suc (length (inorder l)) + Suc (length (inorder r))"
    using Node.IH lr by (simp add: a_def b_def add_mono)
  ultimately show ?case by simp
qed simp

section \<open>Properties\<close>

lemma fun_step_total: "\<exists>r f'. fun_step f p = Inr (r, f')"
  by (cases p) auto

text \<open>
  C6. A \<open>kstd::map\<close>, under every sequence of \<open>insert\<close>, \<open>erase\<close>, \<open>get\<close>, assignment through
  \<open>operator[]\<close> and \<open>size\<close>, returns what a finite function from keys to values returns and stands for
  the same function afterwards: rotations and the rebalancing walk lose and invent no entry.
\<close>

theorem map_is_finite_function:
  "lift_abs entries (run_ops (map_step dflt) map_new ps) = run_ops fun_step Map.empty ps"
  using avlmap.run_refines [OF map_wf_new, of dflt ps] by simp

text \<open>
  C7. Every such sequence returns: no operation runs into an assertion, a null node or an endless
  walk to the root. The tree left behind is ordered and balanced with the heights its nodes store,
  and its height is logarithmic in the number of entries.
\<close>

theorem map_runs_balanced:
  "\<exists>rs m. run_ops (map_step dflt) map_new ps = Inr (rs, m) \<and> map_wf m \<and>
          2 ^ (nat (ht (m_root m)) div 2) \<le> Suc (card (dom (entries m)))"
proof -
  obtain rs m where m: "run_ops (map_step dflt) map_new ps = Inr (rs, m)" "map_wf m"
    using avlmap.run_total [OF fun_step_total map_wf_new, of dflt ps] by blast
  then have "avl (m_root m)" "length (inorder (m_root m)) = card (dom (entries m))"
    using map_size_eq [OF m(2)] by (simp_all add: map_wf_def)
  then show ?thesis using m avl_height_bound [of "m_root m"] by auto
qed

text \<open>
  C24. A loop from \<open>begin()\<close> with \<open>++\<close> over a map that any sequence of operations built visits every
  entry once, in ascending order of the keys, and is then at \<open>end()\<close>.
\<close>

theorem map_iteration_sorted:
  "\<exists>rs m. run_ops (map_step dflt) map_new ps = Inr (rs, m) \<and>
          sorted_wrt (<) (map fst (iterate (m_size m) (iter_begin m))) \<and>
          map_of (iterate (m_size m) (iter_begin m)) = entries m \<and>
          iterate (Suc (m_size m)) (iter_begin m) = iterate (m_size m) (iter_begin m)"
proof -
  obtain rs m where m: "run_ops (map_step dflt) map_new ps = Inr (rs, m)" "map_wf m"
    using avlmap.run_total [OF fun_step_total map_wf_new, of dflt ps] by blast
  have "iterate n (iter_begin m) = take n (inorder (m_root m))" for n
    using iterate_eq iter_begin_rest by metis
  then show ?thesis using m by (auto simp: map_wf_def entries_def)
qed

end
