(* ===== verification/KVector.thy ===== *)
theory KVector
  imports CircularQueue
begin

text \<open>
  \<open>kstd::vector\<close> (\<open>src/kernel/kstd/vector.hpp\<close>): a growing array. As for the queues, a
  cell is \<open>None\<close> while no object is constructed in it, the unallocated vector has the empty cell
  list, and an access to a cell without object or outside the allocation is \<^const>\<open>Undefined\<close>.
\<close>

section \<open>Operations\<close>

record 'a kvec =
  vstorage :: "'a option list"
  vcapacity :: nat
  vsize :: nat

definition vec_new :: "'a kvec" where
  "vec_new = \<lparr>vstorage = [], vcapacity = 0, vsize = 0\<rparr>"

definition vec_sized :: "nat \<Rightarrow> 'a \<Rightarrow> 'a kvec" where
  "vec_sized n val = \<lparr>vstorage = replicate n (Some val), vcapacity = n, vsize = n\<rparr>"

definition vec_copy :: "'a kvec \<Rightarrow> 'a kvec result" where
  "vec_copy other =
     rbind (copy_cells (vstorage other) (vsize other) (vsize other))
       (\<lambda>st. Inr \<lparr>vstorage = st, vcapacity = vcapacity other, vsize = vsize other\<rparr>)"

definition vec_move :: "'a kvec \<Rightarrow> 'a kvec \<times> 'a kvec" where
  "vec_move other =
     (\<lparr>vstorage = vstorage other, vcapacity = vcapacity other, vsize = vsize other\<rparr>, vec_new)"

definition vec_clear :: "'a kvec \<Rightarrow> unit result" where
  "vec_clear v =
     (if vsize v \<le> length (vstorage v) \<and> None \<notin> set (take (vsize v) (vstorage v))
      then Inr () else Inl Undefined)"

definition vec_destroy :: "'a kvec \<Rightarrow> unit result" where
  "vec_destroy v = (if vstorage v \<noteq> [] then vec_clear v else Inr ())"

definition vec_realloc :: "'a kvec \<Rightarrow> nat \<Rightarrow> 'a kvec result" where
  "vec_realloc v new_capacity =
     (if new_capacity = vcapacity v then Inr v
      else if vstorage v = [] then
        Inr (v\<lparr>vcapacity := new_capacity, vstorage := replicate new_capacity None\<rparr>)
      else
        let cut = (if new_capacity < vsize v then [new_capacity..<vsize v] else []);
            size = (if new_capacity < vsize v then new_capacity else vsize v)
        in if \<forall>i \<in> set cut. i < length (vstorage v) \<and> vstorage v ! i \<noteq> None then
             rbind (copy_cells (vstorage v) size new_capacity) (\<lambda>st.
               Inr (v\<lparr>vsize := size, vstorage := st, vcapacity := new_capacity\<rparr>))
           else Inl Undefined)"

definition vec_push_back :: "'a kvec \<Rightarrow> 'a \<Rightarrow> 'a kvec result" where
  "vec_push_back v0 elem =
     rbind (if vsize v0 + 1 > vcapacity v0
            then vec_realloc v0 (if vcapacity v0 = 0 then 1 else vcapacity v0 * 2)
            else Inr v0)
       (\<lambda>v. if vsize v < length (vstorage v)
            then Inr (v\<lparr>vstorage := (vstorage v)[vsize v := Some elem], vsize := vsize v + 1\<rparr>)
            else Inl Undefined)"

text \<open>\<open>resize\<close>; \<open>dflt\<close> is the value of \<open>T()\<close>.\<close>

definition vec_resize :: "'a kvec \<Rightarrow> 'a \<Rightarrow> nat \<Rightarrow> 'a kvec result" where
  "vec_resize v0 dflt new_size =
     (if vsize v0 = new_size then Inr v0
      else
        rbind (if new_size > vcapacity v0 then vec_realloc v0 new_size else Inr v0) (\<lambda>v.
          if new_size > vsize v then
            (if new_size \<le> length (vstorage v)
             then Inr (v\<lparr>vstorage := fold (\<lambda>i st. st[i := Some dflt]) [vsize v..<new_size] (vstorage v),
                         vsize := new_size\<rparr>)
             else Inl Undefined)
          else
            (if \<forall>i \<in> set [new_size..<vsize v]. i < length (vstorage v) \<and> vstorage v ! i \<noteq> None
             then Inr (v\<lparr>vstorage := fold (\<lambda>i st. st[i := None]) [new_size..<vsize v] (vstorage v),
                         vsize := new_size\<rparr>)
             else Inl Undefined)))"

text \<open>
  The shifting loop of \<open>erase\<close>: each element after the erased one is copied one cell down and
  destroyed in its old cell.
\<close>

fun vec_shift :: "'a option list \<Rightarrow> nat list \<Rightarrow> 'a option list result" where
  "vec_shift st [] = Inr st"
| "vec_shift st (i # is) =
     (if i + 1 < length st \<and> st ! (i + 1) \<noteq> None
      then vec_shift (st[i := st ! (i + 1), i + 1 := None]) is
      else Inl Undefined)"

definition vec_erase :: "'a kvec \<Rightarrow> nat \<Rightarrow> 'a kvec result" where
  "vec_erase v elem =
     rassert (elem < vsize v)
       (if elem < length (vstorage v) \<and> vstorage v ! elem \<noteq> None then
          rbind (vec_shift ((vstorage v)[elem := None]) [elem..<vsize v - 1])
            (\<lambda>st. Inr (v\<lparr>vstorage := st, vsize := vsize v - 1\<rparr>))
        else Inl Undefined)"

definition vec_reserve :: "'a kvec \<Rightarrow> nat \<Rightarrow> 'a kvec result" where
  "vec_reserve v new_capacity =
     (if new_capacity > vcapacity v then vec_realloc v new_capacity else Inr v)"

definition vec_shrink_to_fit :: "'a kvec \<Rightarrow> 'a kvec result" where
  "vec_shrink_to_fit v = vec_realloc v (vsize v)"

definition vec_read :: "'a kvec \<Rightarrow> nat \<Rightarrow> 'a result" where
  "vec_read v i =
     (if i < length (vstorage v)
      then (case vstorage v ! i of None \<Rightarrow> Inl Undefined | Some x \<Rightarrow> Inr x)
      else Inl Undefined)"

definition vec_at :: "'a kvec \<Rightarrow> nat \<Rightarrow> 'a result" where
  "vec_at v index = rassert (index < vsize v) (vec_read v index)"

definition vec_empty :: "'a kvec \<Rightarrow> bool" where
  "vec_empty v \<longleftrightarrow> vsize v = 0"

definition vec_front :: "'a kvec \<Rightarrow> 'a result" where
  "vec_front v = rassert (vstorage v \<noteq> []) (vec_read v 0)"

definition vec_back :: "'a kvec \<Rightarrow> 'a result" where
  "vec_back v =
     rassert (vstorage v \<noteq> [])
       (vec_read v (if vsize v = 0 then 2 ^ 32 - 1 else vsize v - 1))"

definition vec_assign_copy :: "'a kvec \<Rightarrow> 'a kvec \<Rightarrow> 'a kvec result" where
  "vec_assign_copy this other =
     rbind (vec_clear this) (\<lambda>_.
     rbind (copy_cells (vstorage other) (vsize other) (vcapacity other)) (\<lambda>st.
       Inr (this\<lparr>vsize := vsize other, vcapacity := vcapacity other, vstorage := st\<rparr>)))"

definition vec_assign_move :: "'a kvec \<Rightarrow> 'a kvec \<Rightarrow> ('a kvec \<times> 'a kvec) result" where
  "vec_assign_move this other =
     rbind (vec_clear this) (\<lambda>_.
       Inr (this\<lparr>vsize := vsize other, vcapacity := vcapacity other, vstorage := vstorage other\<rparr>,
            vec_new))"

section \<open>The vector as a list\<close>

text \<open>
  A vector stands for a list: the elements of the list are constructed in the first cells, the
  cells after them up to the capacity hold raw memory.
\<close>

definition vec_of :: "'a kvec \<Rightarrow> 'a list \<Rightarrow> bool" where
  "vec_of v xs \<longleftrightarrow>
     vsize v = length xs \<and> length xs \<le> vcapacity v \<and>
     vstorage v = map Some xs @ replicate (vcapacity v - length xs) None"

lemma vec_of_size: "vec_of v xs \<Longrightarrow> vsize v = length xs"
  by (simp add: vec_of_def)

lemma vec_of_unique: "vec_of v xs \<Longrightarrow> vec_of v ys \<Longrightarrow> xs = ys"
  by (auto simp: vec_of_def append_eq_append_conv map_injective inj_def)

lemma vec_of_new: "vec_of vec_new []"
  by (simp add: vec_of_def vec_new_def)

lemma copy_cells_some:
  "n \<le> m \<Longrightarrow> length xs = n \<Longrightarrow>
   copy_cells (map Some xs @ ys) n m = Inr (map Some xs @ replicate (m - n) None)"
  by (auto simp: copy_cells_def)

lemma vec_realloc_grow:
  assumes "vec_of v xs" "vcapacity v < c"
  obtains v' where "vec_realloc v c = Inr v'" "vec_of v' xs" "vcapacity v' = c"
proof (cases "vstorage v = []")
  case True
  then show thesis
    using assms that [of "v\<lparr>vcapacity := c, vstorage := replicate c None\<rparr>"]
    by (auto simp: vec_realloc_def vec_of_def)
next
  case False
  then show thesis
    using assms that [of "v\<lparr>vsize := length xs, vstorage := map Some xs @ replicate (c - length xs) None, vcapacity := c\<rparr>"]
    by (auto simp: vec_realloc_def vec_of_def copy_cells_some Let_def)
qed

lemma vec_push_back_ok:
  assumes "vec_of v xs"
  obtains v' where "vec_push_back v x = Inr v'" "vec_of v' (xs @ [x])"
proof -
  obtain w where w: "vec_of w xs" "length xs < vcapacity w"
    and eq: "(if vsize v + 1 > vcapacity v
              then vec_realloc v (if vcapacity v = 0 then 1 else vcapacity v * 2)
              else Inr v) = Inr w"
  proof (cases "vsize v + 1 > vcapacity v")
    case True
    have "vcapacity v < (if vcapacity v = 0 then 1 else vcapacity v * 2)" by simp
    then obtain w where "vec_realloc v (if vcapacity v = 0 then 1 else vcapacity v * 2) = Inr w"
      "vec_of w xs" "vcapacity w = (if vcapacity v = 0 then 1 else vcapacity v * 2)"
      by (rule vec_realloc_grow [OF assms])
    moreover have "length xs \<le> vcapacity v" using assms by (simp add: vec_of_def)
    ultimately show thesis using True that [of w] by (auto split: if_splits)
  next
    case False
    then show thesis using that [of v] assms by (auto simp: vec_of_def)
  qed
  then show thesis
    using that [of "w\<lparr>vstorage := (vstorage w)[vsize w := Some x], vsize := vsize w + 1\<rparr>"]
    unfolding vec_push_back_def eq
    by (auto simp: vec_of_def list_update_append Suc_diff_Suc [symmetric])
qed

lemma vec_shift_ok:
  "vec_shift (map Some xs @ None # map Some ys @ zs) [length xs..<length xs + length ys] =
   Inr (map Some (xs @ ys) @ None # zs)"
proof (induction ys arbitrary: xs)
  case (Cons y ys)
  let ?st = "map Some xs @ None # map Some (y # ys) @ zs"
  have "?st[length xs := ?st ! (length xs + 1), length xs + 1 := None] =
        map Some (xs @ [y]) @ None # map Some ys @ zs"
    by (simp add: nth_append list_update_append)
  then show ?case
    using Cons.IH [of "xs @ [y]"] by (simp add: upt_conv_Cons nth_append del: upt_Suc)
qed simp

lemma vec_erase_ok:
  assumes "vec_of v xs" "i < length xs"
  obtains v' where "vec_erase v i = Inr v'" "vec_of v' (take i xs @ drop (Suc i) xs)"
proof -
  let ?zs = "replicate (vcapacity v - length xs) None"
  let ?v = "v\<lparr>vstorage := map Some (take i xs @ drop (Suc i) xs) @ None # ?zs, vsize := vsize v - 1\<rparr>"
  have xs: "xs = take i xs @ xs ! i # drop (Suc i) xs" using assms(2) by (simp add: id_take_nth_drop)
  have st: "(vstorage v)[i := None] = map Some (take i xs) @ None # map Some (drop (Suc i) xs) @ ?zs"
    using assms by (subst (2) xs) (simp add: vec_of_def upd_conv_take_nth_drop take_map drop_map)
  have "vec_shift ((vstorage v)[i := None]) [i..<vsize v - 1] =
        Inr (map Some (take i xs @ drop (Suc i) xs) @ None # ?zs)"
    using vec_shift_ok [of "take i xs" "drop (Suc i) xs" ?zs] assms st
    by (simp add: vec_of_def min_def)
  moreover have "i < length (vstorage v)" "vstorage v ! i \<noteq> None"
    using assms by (auto simp: vec_of_def nth_append)
  ultimately have "vec_erase v i = Inr ?v" using assms by (simp add: vec_erase_def vec_of_def)
  moreover have "vec_of ?v (take i xs @ drop (Suc i) xs)"
    using assms by (auto simp: vec_of_def Suc_diff_le replicate_Suc [symmetric] simp del: replicate_Suc)
  ultimately show thesis by (rule that)
qed

lemma vec_at_ok: "vec_of v xs \<Longrightarrow> i < length xs \<Longrightarrow> vec_at v i = Inr (xs ! i)"
  by (simp add: vec_at_def vec_read_def vec_of_def nth_append)

lemma vec_at_out: "vec_of v xs \<Longrightarrow> length xs \<le> i \<Longrightarrow> vec_at v i = Inl AssertFail"
  by (simp add: vec_at_def vec_of_def)

lemma vec_empty_iff: "vec_of v xs \<Longrightarrow> vec_empty v \<longleftrightarrow> xs = []"
  by (simp add: vec_empty_def vec_of_def)

definition vec_list :: "'a kvec \<Rightarrow> 'a list" where
  "vec_list v = map the (take (vsize v) (vstorage v))"

lemma vec_list_eq: "vec_of v xs \<Longrightarrow> vec_list v = xs"
  by (simp add: vec_list_def vec_of_def comp_def)

lemma vec_list_new [simp]: "vec_list vec_new = []"
  by (rule vec_list_eq [OF vec_of_new])

text \<open>
  The copy constructor allocates \<open>_size\<close> cells but takes over \<open>_capacity\<close>: it stands for the
  same list only if the two are equal.
\<close>

lemma vec_copy_cells:
  assumes "vec_of v xs"
  shows "vec_copy v = Inr \<lparr>vstorage = map Some xs, vcapacity = vcapacity v, vsize = length xs\<rparr>"
  using assms copy_cells_some [of "length xs" "length xs" xs "replicate (vcapacity v - length xs) None"]
  by (simp add: vec_copy_def vec_of_def)

section \<open>The vector as a list, operation by operation\<close>

datatype 'a vec_op = VPush 'a | VErase nat | VAt nat | VReserve nat | VSize

datatype 'a vec_out = VDone | VElem 'a | VLength nat

fun vec_step :: "'a kvec \<Rightarrow> 'a vec_op \<Rightarrow> ('a vec_out \<times> 'a kvec) result" where
  "vec_step v (VPush x) = rbind (vec_push_back v x) (\<lambda>v'. Inr (VDone, v'))"
| "vec_step v (VErase i) = rbind (vec_erase v i) (\<lambda>v'. Inr (VDone, v'))"
| "vec_step v (VAt i) = rbind (vec_at v i) (\<lambda>x. Inr (VElem x, v))"
| "vec_step v (VReserve n) = rbind (vec_reserve v n) (\<lambda>v'. Inr (VDone, v'))"
| "vec_step v VSize = Inr (VLength (vsize v), v)"

fun list_step :: "'a list \<Rightarrow> 'a vec_op \<Rightarrow> ('a vec_out \<times> 'a list) result" where
  "list_step xs (VPush x) = Inr (VDone, xs @ [x])"
| "list_step xs (VErase i) =
     (if i < length xs then Inr (VDone, take i xs @ drop (Suc i) xs) else Inl AssertFail)"
| "list_step xs (VAt i) = (if i < length xs then Inr (VElem (xs ! i), xs) else Inl AssertFail)"
| "list_step xs (VReserve n) = Inr (VDone, xs)"
| "list_step xs VSize = Inr (VLength (length xs), xs)"

definition vec_wf :: "'a kvec \<Rightarrow> bool" where
  "vec_wf v \<longleftrightarrow> vec_of v (vec_list v)"

lemma vec_wfI: "vec_of v xs \<Longrightarrow> vec_wf v"
  by (simp add: vec_wf_def vec_list_eq)

lemma vec_reserve_ok:
  assumes "vec_of v xs"
  obtains v' where "vec_reserve v n = Inr v'" "vec_of v' xs"
proof (cases "n > vcapacity v")
  case True
  obtain v' where "vec_realloc v n = Inr v'" "vec_of v' xs"
    by (rule vec_realloc_grow [OF assms True])
  then show thesis using that True by (simp add: vec_reserve_def)
next
  case False
  then show thesis using that [of v] assms by (simp add: vec_reserve_def)
qed

lemma vec_step_sim:
  assumes "vec_wf v"
  shows "lift_abs vec_list (vec_step v p) = list_step (vec_list v) p \<and>
         (\<forall>r v'. vec_step v p = Inr (r, v') \<longrightarrow> vec_wf v')"
proof -
  have v: "vec_of v (vec_list v)" using assms by (simp add: vec_wf_def)
  show ?thesis
  proof (cases p)
    case (VPush x)
    obtain v' where "vec_push_back v x = Inr v'" "vec_of v' (vec_list v @ [x])"
      by (rule vec_push_back_ok [OF v])
    then show ?thesis using VPush by (simp add: vec_list_eq vec_wfI)
  next
    case (VErase i)
    show ?thesis
    proof (cases "i < length (vec_list v)")
      case True
      obtain v' where "vec_erase v i = Inr v'"
        "vec_of v' (take i (vec_list v) @ drop (Suc i) (vec_list v))"
        by (rule vec_erase_ok [OF v True])
      then show ?thesis using VErase True by (simp add: vec_list_eq vec_wfI)
    next
      case False
      then have "vec_erase v i = Inl AssertFail" using v by (simp add: vec_erase_def vec_of_def)
      then show ?thesis using VErase False by simp
    qed
  next
    case (VAt i)
    then show ?thesis using v assms by (simp add: vec_at_ok vec_at_out not_less)
  next
    case (VReserve n)
    obtain v' where "vec_reserve v n = Inr v'" "vec_of v' (vec_list v)"
      by (rule vec_reserve_ok [OF v])
    then show ?thesis using VReserve by (simp add: vec_list_eq vec_wfI)
  next
    case VSize
    then show ?thesis using vec_of_size [OF v] assms by simp
  qed
qed

lemmas vec_step_refines = vec_step_sim [THEN conjunct1]
lemmas vec_step_wf = vec_step_sim [THEN conjunct2, rule_format]

interpretation vec: data_refinement vec_wf vec_list vec_step list_step
  by unfold_locales (rule vec_step_refines, assumption, rule vec_step_wf)

section \<open>Properties\<close>

text \<open>
  C25. A \<open>kstd::vector\<close>, under every sequence of \<open>push_back\<close>, \<open>erase\<close>, checked element access,
  \<open>reserve\<close> and \<open>size\<close>, returns what a list returns, asserts exactly on an index past the end, and
  never reads a cell without an element through its reallocations and shifts.
\<close>

theorem vector_is_list:
  "lift_abs vec_list (run_ops vec_step vec_new ps) = run_ops list_step [] ps"
  using vec.run_refines [OF vec_wfI [OF vec_of_new], of ps] by simp

text \<open>
  The copy of a vector that is neither empty nor full keeps \<open>_capacity\<close> over a storage of
  \<open>_size\<close> cells: the next \<open>push_back\<close> on the copy writes behind its storage.
\<close>

lemma vector_copy_push_back:
  assumes "vec_of v xs" "length xs < vcapacity v"
  shows "rbind (vec_copy v) (\<lambda>c. vec_push_back c x) = Inl Undefined"
  using assms by (simp add: vec_copy_cells vec_push_back_def)

lemma vector_copy_push_back_witness:
  "rbind (vec_copy \<lparr>vstorage = [Some (7::nat), None], vcapacity = 2, vsize = 1\<rparr>)
     (\<lambda>c. vec_push_back c 8) = Inl Undefined"
  by (rule vector_copy_push_back [of _ "[7]"]) (simp_all add: vec_of_def)

end
