(* ===== verification/LruCache.thy ===== *)
theory LruCache
  imports AvlMap KVector
begin

text \<open>
  \<open>kstd::LRUCache\<close> (\<open>src/kernel/kstd/LRUCache.h\<close>): a map with a vector of its keys,
  least recently used first. The class is modelled on the models of \<open>kstd::map\<close> and
  \<open>kstd::vector\<close>; it stands for the list of its entries in order of use.
\<close>

section \<open>Operations\<close>

record ('k, 'v) lru_cache =
  lmap :: "('k, 'v) kmap"
  lru_list :: "'k kvec"

definition lru_new :: "('k, 'v) lru_cache" where
  "lru_new = \<lparr>lmap = map_new, lru_list = vec_new\<rparr>"

text \<open>The search loop \<open>for(i < m_lru_list.size()) if(m_lru_list[i] == key)\<close>.\<close>

fun key_index :: "'k kvec \<Rightarrow> 'k \<Rightarrow> nat list \<Rightarrow> nat option result" where
  "key_index v key [] = Inr None"
| "key_index v key (i # is) =
     rbind (vec_at v i) (\<lambda>x. if x = key then Inr (Some i) else key_index v key is)"

definition lru_promote :: "('k, 'v) lru_cache \<Rightarrow> 'k \<Rightarrow> ('k, 'v) lru_cache result" where
  "lru_promote c key =
     rbind (key_index (lru_list c) key [0..<vsize (lru_list c)]) (\<lambda>found.
       case found of
         None \<Rightarrow> Inr c
       | Some i \<Rightarrow>
           rbind (vec_erase (lru_list c) i) (\<lambda>l1.
           rbind (vec_push_back l1 key) (\<lambda>l2. Inr (c\<lparr>lru_list := l2\<rparr>))))"

definition lru_insert ::
  "('k::linorder, 'v) lru_cache \<Rightarrow> 'k \<Rightarrow> 'v \<Rightarrow> ('k, 'v) lru_cache result" where
  "lru_insert c key val =
     (case map_get (lmap c) key of
        Some _ \<Rightarrow>
          lru_promote (c\<lparr>lmap := (lmap c)\<lparr>m_root := assign_from (m_root (lmap c)) key val\<rparr>\<rparr>) key
      | None \<Rightarrow>
          rbind (returned (map_insert (lmap c) key val)) (\<lambda>(_, m).
          rbind (vec_push_back (lru_list c) key) (\<lambda>l.
            Inr (c\<lparr>lmap := m, lru_list := l\<rparr>))))"

definition lru_erase :: "('k::linorder, 'v) lru_cache \<Rightarrow> 'k \<Rightarrow> ('k, 'v) lru_cache result" where
  "lru_erase c key =
     rbind (returned (map_erase (lmap c) key)) (\<lambda>m.
     rbind (key_index (lru_list c) key [0..<vsize (lru_list c)]) (\<lambda>found.
       case found of
         None \<Rightarrow> Inr (c\<lparr>lmap := m\<rparr>)
       | Some i \<Rightarrow>
           rbind (vec_erase (lru_list c) i) (\<lambda>l. Inr (c\<lparr>lmap := m, lru_list := l\<rparr>))))"

definition lru_get ::
  "('k::linorder, 'v) lru_cache \<Rightarrow> 'k \<Rightarrow> ('v option \<times> ('k, 'v) lru_cache) result" where
  "lru_get c key =
     (case map_get (lmap c) key of
        Some item \<Rightarrow> rbind (lru_promote c key) (\<lambda>c'. Inr (Some item, c'))
      | None \<Rightarrow> Inr (None, c))"

fun lru_prune :: "('k::linorder, 'v) lru_cache \<Rightarrow> nat \<Rightarrow> ('k, 'v) lru_cache result" where
  "lru_prune c 0 = Inr c"
| "lru_prune c (Suc num) =
     (if vec_empty (lru_list c) then Inr c
      else
        rbind (vec_at (lru_list c) 0) (\<lambda>k.
        rbind (returned (map_erase (lmap c) k)) (\<lambda>m.
        rbind (vec_erase (lru_list c) 0) (\<lambda>l.
          lru_prune (c\<lparr>lmap := m, lru_list := l\<rparr>) num))))"

text \<open>
  \<open>lru_unsafe\<close> and \<open>lru\<close>: the first key with the reference \<open>m_map[key]\<close>, here the
  value found there and the cache afterwards; \<open>dflt\<close> is \<open>Value()\<close>.
\<close>

definition lru_unsafe ::
  "'v \<Rightarrow> ('k::linorder, 'v) lru_cache \<Rightarrow> (('k \<times> 'v) \<times> ('k, 'v) lru_cache) result" where
  "lru_unsafe dflt c =
     rassert (\<not> vec_empty (lru_list c))
       (rbind (vec_at (lru_list c) 0) (\<lambda>k.
        rbind (returned (map_index (lmap c) k dflt)) (\<lambda>(v, m).
          Inr ((k, v), c\<lparr>lmap := m\<rparr>))))"

definition lru_first ::
  "'v \<Rightarrow> ('k::linorder, 'v) lru_cache \<Rightarrow> (('k \<times> 'v) option \<times> ('k, 'v) lru_cache) result" where
  "lru_first dflt c =
     (if vec_empty (lru_list c) then Inr (None, c)
      else
        rbind (vec_at (lru_list c) 0) (\<lambda>k.
        rbind (returned (map_index (lmap c) k dflt)) (\<lambda>(v, m).
          Inr (Some (k, v), c\<lparr>lmap := m\<rparr>))))"

section \<open>Entries in order of use\<close>

definition lru_of :: "('k::linorder, 'v) lru_cache \<Rightarrow> ('k \<times> 'v) list \<Rightarrow> bool" where
  "lru_of c xs \<longleftrightarrow>
     map_wf (lmap c) \<and> vec_of (lru_list c) (map fst xs) \<and> distinct (map fst xs) \<and>
     entries (lmap c) = map_of xs"

abbreviation without :: "'k \<Rightarrow> ('k \<times> 'v) list \<Rightarrow> ('k \<times> 'v) list" where
  "without k xs \<equiv> filter (\<lambda>e. fst e \<noteq> k) xs"

lemma lru_of_new: "lru_of lru_new []"
  by (simp add: lru_of_def lru_new_def map_wf_new vec_of_new)


lemma key_index_find:
  "vec_of v xs \<Longrightarrow> \<forall>i \<in> set is. i < length xs \<Longrightarrow>
   key_index v key is = Inr (List.find (\<lambda>i. xs ! i = key) is)"
  by (induction "is") (auto simp: vec_at_ok)

lemma key_index_found:
  assumes "vec_of v (ys @ key # zs)" "key \<notin> set ys"
  shows "key_index v key [0..<vsize v] = Inr (Some (length ys))"
proof -
  have "List.find (\<lambda>i. (ys @ key # zs) ! i = key) [0..<length (ys @ key # zs)] = Some (length ys)"
    unfolding find_Some_iff using assms(2) by (intro exI [of _ "length ys"]) (auto simp: nth_append)
  moreover have "key_index v key [0..<vsize v] =
      Inr (List.find (\<lambda>i. (ys @ key # zs) ! i = key) [0..<length (ys @ key # zs)])"
    unfolding vec_of_size [OF assms(1)] by (rule key_index_find [OF assms(1)]) simp
  ultimately show ?thesis by simp
qed

lemma key_index_absent:
  assumes "vec_of v xs" "key \<notin> set xs"
  shows "key_index v key [0..<vsize v] = Inr None"
proof -
  have "List.find (\<lambda>i. xs ! i = key) [0..<length xs] = None"
    using assms(2) by (auto simp: find_None_iff)
  then show ?thesis using key_index_find [OF assms(1), of "[0..<length xs]" key] vec_of_size [OF assms(1)]
    by simp
qed

lemma lru_of_split:
  assumes "lru_of c xs" "map_of xs key = Some val"
  obtains ys zs where "xs = ys @ (key, val) # zs" "key \<notin> fst ` set ys" "key \<notin> fst ` set zs"
    "without key xs = ys @ zs"
proof -
  obtain ys zs where xs: "xs = ys @ (key, val) # zs"
    using map_of_SomeD [OF assms(2)] by (auto simp: in_set_conv_decomp)
  then have n: "key \<notin> fst ` set ys" "key \<notin> fst ` set zs" using assms(1) by (auto simp: lru_of_def)
  then have "without key ys = ys" "without key zs = zs" by (auto simp: filter_id_conv)
  then show thesis using that [OF xs n] xs by simp
qed

lemma without_absent: "key \<notin> fst ` set xs \<Longrightarrow> without key xs = xs"
  by (auto simp: filter_id_conv)

lemma map_of_without: "map_of (without key xs) = (map_of xs)(key := None)"
  by (induction xs) (auto simp: fun_eq_iff)

lemma keys_without: "map fst (without key xs) = filter (\<lambda>k. k \<noteq> key) (map fst xs)"
  by (simp add: filter_map comp_def)

lemma lru_key_erase:
  assumes "lru_of c xs" "map_of xs key = Some val"
  obtains i l where "key_index (lru_list c) key [0..<vsize (lru_list c)] = Inr (Some i)"
    "vec_erase (lru_list c) i = Inr l" "vec_of l (map fst (without key xs))"
proof -
  obtain ys zs where xs: "xs = ys @ (key, val) # zs" "key \<notin> fst ` set ys"
    "without key xs = ys @ zs" by (rule lru_of_split [OF assms])
  have v: "vec_of (lru_list c) (map fst ys @ key # map fst zs)"
    using assms(1) xs(1) by (simp add: lru_of_def)
  obtain l where l: "vec_erase (lru_list c) (length ys) = Inr l" "vec_of l (map fst (without key xs))"
    unfolding xs(3) using vec_erase_ok [OF v, of "length ys"] by auto
  have "key_index (lru_list c) key [0..<vsize (lru_list c)] = Inr (Some (length ys))"
    using key_index_found [OF v] xs(2) by simp
  then show thesis using l by (rule that)
qed

lemma lru_promote_ok:
  assumes "lru_of c xs" "map_of xs key = Some val"
  obtains c' where "lru_promote c key = Inr c'" "lru_of c' (without key xs @ [(key, val)])"
proof -
  obtain i l where l: "key_index (lru_list c) key [0..<vsize (lru_list c)] = Inr (Some i)"
    "vec_erase (lru_list c) i = Inr l" "vec_of l (map fst (without key xs))"
    by (rule lru_key_erase [OF assms])
  obtain l2 where l2: "vec_push_back l key = Inr l2" "vec_of l2 (map fst (without key xs) @ [key])"
    by (rule vec_push_back_ok [OF l(3)])
  have "map_of (without key xs @ [(key, val)]) = map_of xs"
    using assms(2) map_of_without [of key xs] by (auto simp: map_add_def fun_eq_iff split: option.splits)
  then have "lru_of (c\<lparr>lru_list := l2\<rparr>) (without key xs @ [(key, val)])"
    using assms(1) l2 by (auto simp: lru_of_def keys_without)
  then show thesis using that l l2 by (simp add: lru_promote_def)
qed

lemma lru_promote_absent:
  assumes "lru_of c xs" "map_of xs key = None"
  shows "lru_promote c key = Inr c"
  using assms key_index_absent [of "lru_list c" "map fst xs" key]
  by (auto simp: lru_promote_def lru_of_def map_of_eq_None_iff)

lemma lru_insert_ok:
  assumes c: "lru_of c xs"
  obtains c' where "lru_insert c key val = Inr c'" "lru_of c' (without key xs @ [(key, val)])"
proof (cases "map_of xs key")
  case None
  have wf: "map_wf (lmap c)" and e: "entries (lmap c) = map_of xs"
    and v: "vec_of (lru_list c) (map fst xs)" using c by (auto simp: lru_of_def)
  have n: "key \<notin> fst ` set xs" using None by (simp add: map_of_eq_None_iff)
  obtain l where l: "vec_push_back (lru_list c) key = Inr l" "vec_of l (map fst xs @ [key])"
    by (rule vec_push_back_ok [OF v])
  show thesis
  proof (cases rule: map_insert_ok [OF wf, of key val])
    case 1
    then show thesis using None e by simp
  next
    case (2 m')
    have "map_of (xs @ [(key, val)]) = (map_of xs)(key \<mapsto> val)"
      using None by (auto simp: map_add_def fun_eq_iff split: option.splits)
    then have "lru_of (c\<lparr>lmap := m', lru_list := l\<rparr>) (without key xs @ [(key, val)])"
      using 2 e l(2) n c by (auto simp: lru_of_def without_absent [OF n])
    then show thesis using that None 2 e l by (simp add: lru_insert_def map_get_eq [OF wf])
  qed
next
  case (Some old)
  let ?m = "(lmap c)\<lparr>m_root := assign_from (m_root (lmap c)) key val\<rparr>"
  let ?xs = "map (\<lambda>(k, v). (k, if k = key then val else v)) xs"
  have wf: "map_wf (lmap c)" and e: "entries (lmap c) = map_of xs" using c by (auto simp: lru_of_def)
  have upd: "map_of ?xs = (map_of xs)(key \<mapsto> val)"
  proof -
    have "map_of ?xs k = map_option (\<lambda>v. if k = key then val else v) (map_of xs k)" for k
      by (induction xs) auto
    then show ?thesis using Some by (auto simp: fun_eq_iff map_option_case split: option.splits)
  qed
  have fs: "map fst ?xs = map fst xs" by (simp add: case_prod_beta comp_def)
  have "lru_of (c\<lparr>lmap := ?m\<rparr>) ?xs"
    unfolding lru_of_def fs upd using c map_assign_ok [OF wf, of key val] Some e
    by (simp add: lru_of_def)
  moreover have "map_of ?xs key = Some val" using upd by simp
  ultimately obtain c' where c': "lru_promote (c\<lparr>lmap := ?m\<rparr>) key = Inr c'"
    "lru_of c' (without key ?xs @ [(key, val)])" by (rule lru_promote_ok)
  moreover have "without key ?xs = without key xs"
    by (induction xs) auto
  ultimately show thesis using that Some e by (simp add: lru_insert_def map_get_eq [OF wf])
qed

lemma lru_erase_ok:
  assumes c: "lru_of c xs"
  obtains c' where "lru_erase c key = Inr c'" "lru_of c' (without key xs)"
proof -
  have wf: "map_wf (lmap c)" using c by (simp add: lru_of_def)
  obtain m where m: "map_erase (lmap c) key = Some (Inr m)" "map_wf m"
    "entries m = (entries (lmap c))(key := None)" by (rule map_erase_ok [OF wf])
  show thesis
  proof (cases "map_of xs key")
    case None
    then have n: "key \<notin> fst ` set xs" by (simp add: map_of_eq_None_iff)
    have "lru_of (c\<lparr>lmap := m\<rparr>) xs" using c m None by (auto simp: lru_of_def)
    then show thesis
      using that m n key_index_absent [of "lru_list c" "map fst xs" key] c
      by (simp add: lru_erase_def without_absent lru_of_def)
  next
    case (Some val)
    obtain i l where "key_index (lru_list c) key [0..<vsize (lru_list c)] = Inr (Some i)"
      "vec_erase (lru_list c) i = Inr l" "vec_of l (map fst (without key xs))"
      by (rule lru_key_erase [OF c Some])
    moreover from this have "lru_of (c\<lparr>lmap := m, lru_list := l\<rparr>) (without key xs)"
      using c m by (simp add: lru_of_def map_of_without keys_without)
    ultimately show thesis using that m by (simp add: lru_erase_def)
  qed
qed

lemma lru_get_ok:
  assumes c: "lru_of c xs"
  obtains (hit) c' val where "map_of xs key = Some val" "lru_get c key = Inr (Some val, c')"
      "lru_of c' (without key xs @ [(key, val)])"
  | (miss) "map_of xs key = None" "lru_get c key = Inr (None, c)"
proof (cases "map_of xs key")
  case None
  then show thesis using miss c by (simp add: lru_get_def lru_of_def map_get_eq)
next
  case (Some val)
  obtain c' where "lru_promote c key = Inr c'" "lru_of c' (without key xs @ [(key, val)])"
    by (rule lru_promote_ok [OF c Some])
  then show thesis using hit Some c by (simp add: lru_get_def lru_of_def map_get_eq)
qed

lemma lru_prune_ok:
  assumes "lru_of c xs"
  obtains c' where "lru_prune c num = Inr c'" "lru_of c' (drop num xs)"
  using assms
proof (induction num arbitrary: c xs thesis)
  case (Suc num)
  show ?case
  proof (cases xs)
    case Nil
    then show ?thesis using Suc.prems vec_empty_iff [of "lru_list c" "[]"] by (simp add: lru_of_def)
  next
    case (Cons e es)
    have wf: "map_wf (lmap c)" and v: "vec_of (lru_list c) (fst e # map fst es)"
      using Suc.prems(2) Cons by (auto simp: lru_of_def)
    obtain m where m: "map_erase (lmap c) (fst e) = Some (Inr m)" "map_wf m"
      "entries m = (entries (lmap c))(fst e := None)" by (rule map_erase_ok [OF wf])
    obtain l where l: "vec_erase (lru_list c) 0 = Inr l" "vec_of l (map fst es)"
      using vec_erase_ok [OF v, of 0] by auto
    have "map_of es (fst e) = None"
      using Suc.prems(2) Cons by (simp add: lru_of_def map_of_eq_None_iff)
    then have "(map_of xs)(fst e := None) = map_of es" using Cons by (auto simp: fun_eq_iff)
    then have "lru_of (c\<lparr>lmap := m, lru_list := l\<rparr>) es"
      using Suc.prems(2) Cons m l by (simp add: lru_of_def)
    then obtain c' where "lru_prune (c\<lparr>lmap := m, lru_list := l\<rparr>) num = Inr c'" "lru_of c' (drop num es)"
      using Suc.IH by blast
    then show ?thesis
      using Suc.prems(1) Cons m l vec_at_ok [OF v, of 0] vec_empty_iff [OF v] by simp
  qed
qed simp

lemma lru_first_ok:
  assumes c: "lru_of c xs"
  obtains (empty) "xs = []" "lru_first dflt c = Inr (None, c)" "lru_unsafe dflt c = Inl AssertFail"
  | (first) e es c' where "xs = e # es" "lru_first dflt c = Inr (Some e, c')"
      "lru_unsafe dflt c = Inr (e, c')" "lru_of c' xs"
proof (cases xs)
  case Nil
  then show thesis using empty c vec_empty_iff [of "lru_list c" "[]"]
    by (simp add: lru_first_def lru_unsafe_def lru_of_def)
next
  case (Cons e es)
  have wf: "map_wf (lmap c)" and v: "vec_of (lru_list c) (fst e # map fst es)"
    and e: "entries (lmap c) (fst e) = Some (snd e)"
    using c Cons by (auto simp: lru_of_def)
  obtain m where "map_wf m" "map_index (lmap c) (fst e) dflt = Some (Inr (snd e, m))"
    "entries m = entries (lmap c)"
    using map_index_ok [OF wf, of "fst e" dflt] e by (auto simp: fun_upd_idem)
  then show thesis
    using first [of e es "c\<lparr>lmap := m\<rparr>"] Cons c vec_at_ok [OF v, of 0] vec_empty_iff [OF v]
    by (simp add: lru_first_def lru_unsafe_def lru_of_def)
qed

section \<open>Refinement\<close>

definition lru_entries :: "('k::linorder, 'v) lru_cache \<Rightarrow> ('k \<times> 'v) list" where
  "lru_entries c = map (\<lambda>k. (k, the (entries (lmap c) k))) (vec_list (lru_list c))"

definition lru_wf :: "('k::linorder, 'v) lru_cache \<Rightarrow> bool" where
  "lru_wf c \<longleftrightarrow> lru_of c (lru_entries c)"

lemma lru_entries_eq: "lru_of c xs \<Longrightarrow> lru_entries c = xs"
  using vec_list_eq [of "lru_list c" "map fst xs"]
  by (auto simp: lru_entries_def lru_of_def comp_def intro!: map_idI)

lemma lru_wfI: "lru_of c xs \<Longrightarrow> lru_wf c"
  by (simp add: lru_wf_def lru_entries_eq)

text \<open>The same facts for a client that only looks at the entries, not at their order.\<close>

lemma lru_entries_map: "lru_wf c \<Longrightarrow> entries (lmap c) = map_of (lru_entries c)"
  by (simp add: lru_wf_def lru_of_def)

lemma lru_get_entries:
  assumes "lru_wf c"
  obtains c' where "lru_get c k = Inr (entries (lmap c) k, c')" "lru_wf c'"
    "entries (lmap c') = entries (lmap c)"
proof (cases rule: lru_get_ok [OF assms [unfolded lru_wf_def], of k])
  case (1 c' val)
  have "map_of (without k (lru_entries c) @ [(k, val)]) = map_of (lru_entries c)"
    using 1(1) map_of_without [of k "lru_entries c"]
    by (auto simp: map_add_def fun_eq_iff split: option.splits)
  then show thesis
    using that [of c'] 1 lru_wfI [OF 1(3)] lru_entries_map [OF assms]
    by (simp add: lru_of_def)
next
  case 2
  then show thesis using that [of c] assms lru_entries_map [OF assms] by simp
qed

lemma lru_insert_entries:
  assumes "lru_wf c"
  obtains c' where "lru_insert c k v = Inr c'" "lru_wf c'"
    "entries (lmap c') = (entries (lmap c))(k \<mapsto> v)"
proof -
  obtain c' where c': "lru_insert c k v = Inr c'" "lru_of c' (without k (lru_entries c) @ [(k, v)])"
    by (rule lru_insert_ok [OF assms [unfolded lru_wf_def]])
  have "map_of (without k (lru_entries c) @ [(k, v)]) = (map_of (lru_entries c))(k \<mapsto> v)"
    using map_of_without [of k "lru_entries c"]
    by (auto simp: map_add_def fun_eq_iff split: option.splits)
  then show thesis
    using that [OF c'(1) lru_wfI [OF c'(2)]] c'(2) lru_entries_map [OF assms] by (simp add: lru_of_def)
qed

lemma lru_oldest_entries:
  assumes "lru_wf c" "\<not> vec_empty (lru_list c)"
  obtains k v c' where "lru_unsafe dflt c = Inr ((k, v), c')" "lru_wf c'"
    "entries (lmap c') = entries (lmap c)" "lru_entries c' = lru_entries c"
    "entries (lmap c) k = Some v" "lru_entries c \<noteq> []" "hd (lru_entries c) = (k, v)"
proof (cases rule: lru_first_ok [OF assms(1) [unfolded lru_wf_def], of dflt])
  case 1
  then show thesis
    using assms vec_empty_iff [of "lru_list c" "[]"] by (simp add: lru_wf_def lru_of_def)
next
  case (2 e es c')
  then show thesis
    using that [of "fst e" "snd e" c'] lru_wfI [OF 2(4)] lru_entries_map [OF assms(1)]
      lru_entries_map [of c'] lru_entries_eq [OF 2(4)] by simp
qed

lemma lru_prune_entries:
  assumes "lru_wf c" "lru_entries c \<noteq> []" "hd (lru_entries c) = (k, v)"
  obtains c' where "lru_prune c 1 = Inr c'" "lru_wf c'" "entries (lmap c') = (entries (lmap c))(k := None)"
    "lru_entries c' = tl (lru_entries c)"
proof -
  obtain c' where c': "lru_prune c 1 = Inr c'" "lru_of c' (drop 1 (lru_entries c))"
    by (rule lru_prune_ok [OF assms(1) [unfolded lru_wf_def]])
  obtain es where es: "lru_entries c = (k, v) # es" using assms(2,3) by (cases "lru_entries c") auto
  have "map_of es k = None"
    using assms(1) es by (simp add: lru_wf_def lru_of_def map_of_eq_None_iff)
  then have "map_of es = (map_of (lru_entries c))(k := None)" using es by (auto simp: fun_eq_iff)
  then show thesis
    using that [OF c'(1) lru_wfI [OF c'(2)]] c'(2) es lru_entries_map [OF assms(1)]
      lru_entries_eq [OF c'(2)] by (simp add: lru_of_def)
qed

datatype ('k, 'v) lru_op =
  LInsert 'k 'v | LErase 'k | LGet 'k | LPromote 'k | LPrune nat | LFirst | LSize

datatype ('k, 'v) lru_out = LDone | LFound "'v option" | LOldest "('k \<times> 'v) option" | LCount nat

fun lru_step :: "'v \<Rightarrow> ('k::linorder, 'v) lru_cache \<Rightarrow> ('k, 'v) lru_op
    \<Rightarrow> (('k, 'v) lru_out \<times> ('k, 'v) lru_cache) result" where
  "lru_step dflt c (LInsert k v) = rbind (lru_insert c k v) (\<lambda>c'. Inr (LDone, c'))"
| "lru_step dflt c (LErase k) = rbind (lru_erase c k) (\<lambda>c'. Inr (LDone, c'))"
| "lru_step dflt c (LGet k) = rbind (lru_get c k) (\<lambda>(r, c'). Inr (LFound r, c'))"
| "lru_step dflt c (LPromote k) = rbind (lru_promote c k) (\<lambda>c'. Inr (LDone, c'))"
| "lru_step dflt c (LPrune n) = rbind (lru_prune c n) (\<lambda>c'. Inr (LDone, c'))"
| "lru_step dflt c LFirst = rbind (lru_first dflt c) (\<lambda>(r, c'). Inr (LOldest r, c'))"
| "lru_step dflt c LSize = Inr (LCount (vsize (lru_list c)), c)"

text \<open>The contract: a list of entries, oldest use first.\<close>

fun recency_step :: "('k \<times> 'v) list \<Rightarrow> ('k, 'v) lru_op
    \<Rightarrow> (('k, 'v) lru_out \<times> ('k \<times> 'v) list) result" where
  "recency_step xs (LInsert k v) = Inr (LDone, without k xs @ [(k, v)])"
| "recency_step xs (LErase k) = Inr (LDone, without k xs)"
| "recency_step xs (LGet k) =
     (case map_of xs k of
        None \<Rightarrow> Inr (LFound None, xs)
      | Some v \<Rightarrow> Inr (LFound (Some v), without k xs @ [(k, v)]))"
| "recency_step xs (LPromote k) =
     (case map_of xs k of
        None \<Rightarrow> Inr (LDone, xs)
      | Some v \<Rightarrow> Inr (LDone, without k xs @ [(k, v)]))"
| "recency_step xs (LPrune n) = Inr (LDone, drop n xs)"
| "recency_step xs LFirst = Inr (LOldest (case xs of [] \<Rightarrow> None | e # _ \<Rightarrow> Some e), xs)"
| "recency_step xs LSize = Inr (LCount (length xs), xs)"

lemma lru_step_sim:
  assumes "lru_wf c"
  shows "lift_abs lru_entries (lru_step dflt c p) = recency_step (lru_entries c) p \<and>
         (\<forall>r c'. lru_step dflt c p = Inr (r, c') \<longrightarrow> lru_wf c')"
proof -
  have c: "lru_of c (lru_entries c)" using assms by (simp add: lru_wf_def)
  note post = lru_entries_eq lru_wfI
  show ?thesis
  proof (cases p)
    case (LInsert k v)
    obtain c' where "lru_insert c k v = Inr c'" "lru_of c' (without k (lru_entries c) @ [(k, v)])"
      by (rule lru_insert_ok [OF c])
    then show ?thesis using LInsert by (simp add: post)
  next
    case (LErase k)
    obtain c' where "lru_erase c k = Inr c'" "lru_of c' (without k (lru_entries c))"
      by (rule lru_erase_ok [OF c])
    then show ?thesis using LErase by (simp add: post)
  next
    case (LGet k)
    then show ?thesis using assms by (cases rule: lru_get_ok [OF c, of k]) (simp_all add: post)
  next
    case (LPromote k)
    show ?thesis
    proof (cases "map_of (lru_entries c) k")
      case None
      then show ?thesis using LPromote assms lru_promote_absent [OF c] by simp
    next
      case (Some v)
      obtain c' where "lru_promote c k = Inr c'" "lru_of c' (without k (lru_entries c) @ [(k, v)])"
        by (rule lru_promote_ok [OF c Some])
      then show ?thesis using LPromote Some by (simp add: post)
    qed
  next
    case (LPrune n)
    obtain c' where "lru_prune c n = Inr c'" "lru_of c' (drop n (lru_entries c))"
      by (rule lru_prune_ok [OF c])
    then show ?thesis using LPrune by (simp add: post)
  next
    case LFirst
    then show ?thesis using assms by (cases rule: lru_first_ok [OF c, of dflt]) (simp_all add: post)
  next
    case LSize
    then show ?thesis using assms c vec_of_size [of "lru_list c" "map fst (lru_entries c)"] by (simp add: lru_of_def)
  qed
qed

lemmas lru_step_refines = lru_step_sim [THEN conjunct1]
lemmas lru_step_wf = lru_step_sim [THEN conjunct2, rule_format]

interpretation lru: data_refinement lru_wf lru_entries "lru_step dflt" recency_step
  for dflt :: "'v"
  by unfold_locales (rule lru_step_refines, assumption, rule lru_step_wf)

lemma lru_wf_new: "lru_wf lru_new" and lru_entries_new [simp]: "lru_entries lru_new = []"
  by (rule lru_wfI [OF lru_of_new], rule lru_entries_eq [OF lru_of_new])

section \<open>Properties\<close>

text \<open>
  C8. A \<open>kstd::LRUCache\<close>, under every sequence of \<open>insert\<close>, \<open>erase\<close>, \<open>get\<close>, \<open>promote\<close>,
  \<open>prune\<close>, \<open>lru\<close> and \<open>size\<close>, returns what a list of entries in order of their last use returns:
  its AVL tree and its vector of keys stay in step, and \<open>prune\<close> and \<open>lru\<close> take the entries used
  longest ago.
\<close>

theorem lru_cache_is_recency_list:
  "lift_abs lru_entries (run_ops (lru_step dflt) lru_new ps) = run_ops recency_step [] ps"
  using lru.run_refines [OF lru_wf_new, of dflt ps] by simp

end
