(* ===== verification/SizeQueue.thy ===== *)
theory SizeQueue
  imports KQueue
begin

text \<open>
  \<open>kstd::queue\<close> (\<open>src/kernel/kstd/queue.hpp\<close>) at the element type \<open>size_t\<close>, which
  \<open>DiskDevice::_dirty_regions\<close> uses. An integer has no constructor and no destructor: \<open>kcalloc\<close>
  gives zeros, a popped cell keeps its number, and every cell of the storage can be read. This is
  the one instance where the scan of \<open>contains\<close> past the last element has a value. The operations
  are related to those of the general queue, whose cells without an element are not readable.
\<close>

section \<open>Operations\<close>

record size_queue =
  z_storage :: "nat list"
  z_capacity :: nat
  z_size :: nat
  z_front :: nat
  z_back :: nat

definition zq_new :: size_queue where
  "zq_new = \<lparr>z_storage = [], z_capacity = 0, z_size = 0, z_front = 0, z_back = 0\<rparr>"

definition zq_read :: "size_queue \<Rightarrow> nat \<Rightarrow> nat result" where
  "zq_read q c = (if c < length (z_storage q) then Inr (z_storage q ! c) else Inl Undefined)"

fun zq_move_cells :: "size_queue \<Rightarrow> nat list \<Rightarrow> nat list \<Rightarrow> nat list result" where
  "zq_move_cells q tmp [] = Inr tmp"
| "zq_move_cells q tmp (i # is) =
     rbind (zq_read q ((z_front q + i) mod z_capacity q)) (\<lambda>x.
       if i < length tmp then zq_move_cells q (tmp[i := x]) is else Inl Undefined)"

definition zq_realloc :: "size_queue \<Rightarrow> nat \<Rightarrow> size_queue result" where
  "zq_realloc q new_capacity =
     (if new_capacity = z_capacity q then Inr q
      else if z_storage q = [] then
        Inr (q\<lparr>z_capacity := new_capacity, z_storage := replicate new_capacity 0\<rparr>)
      else
        let size = (if new_capacity < z_size q then new_capacity else z_size q) in
        rbind (zq_move_cells q (replicate new_capacity 0) [0..<size]) (\<lambda>st.
          Inr (q\<lparr>z_storage := st, z_size := size, z_capacity := new_capacity, z_front := 0,
                 z_back := (if size = 0 then 2 ^ 32 - 1 else size - 1)\<rparr>)))"

definition zq_push_back :: "size_queue \<Rightarrow> nat \<Rightarrow> size_queue result" where
  "zq_push_back q0 elem =
     rbind (if z_size q0 = z_capacity q0
            then zq_realloc q0 (if z_capacity q0 \<noteq> 0 then z_capacity q0 * 2 else 1)
            else Inr q0)
       (\<lambda>q.
          let front = (if z_size q = 0 then 0 else z_front q);
              back = (if z_size q = 0 then 0 else (z_back q + 1) mod z_capacity q)
          in if back < length (z_storage q)
             then Inr (q\<lparr>z_storage := (z_storage q)[back := elem],
                         z_front := front, z_back := back, z_size := z_size q + 1\<rparr>)
             else Inl Undefined)"

definition zq_pop_front :: "size_queue \<Rightarrow> (nat \<times> size_queue) result" where
  "zq_pop_front q =
     rassert (z_size q \<noteq> 0)
       (rbind (zq_read q (z_front q)) (\<lambda>ret.
          let n = z_size q - 1
          in Inr (ret, q\<lparr>z_size := n,
                         z_front := (if n = 0 then 0 else (z_front q + 1) mod z_capacity q),
                         z_back := (if n = 0 then 0 else z_back q)\<rparr>)))"

definition zq_empty :: "size_queue \<Rightarrow> bool" where
  "zq_empty q \<longleftrightarrow> z_size q = 0"

text \<open>As in the general queue, the first argument bounds the number of rounds.\<close>

fun zq_contains_loop :: "nat \<Rightarrow> size_queue \<Rightarrow> nat \<Rightarrow> nat \<Rightarrow> bool result option" where
  "zq_contains_loop 0 q v i = None"
| "zq_contains_loop (Suc fuel) q v i =
     (case zq_read q i of
        Inl e \<Rightarrow> Some (Inl e)
      | Inr x \<Rightarrow>
          if x = v then Some (Inr True)
          else let i' = (i + 1) mod z_capacity q
               in if i' \<noteq> (z_back q + 1) mod z_size q then zq_contains_loop fuel q v i'
                  else Some (Inr False))"

definition zq_contains :: "size_queue \<Rightarrow> nat \<Rightarrow> bool result option" where
  "zq_contains q v =
     (if zq_empty q then Some (Inr False) else zq_contains_loop (z_capacity q) q v (z_front q))"

section \<open>The same layout\<close>

definition zq_list :: "size_queue \<Rightarrow> nat list" where
  "zq_list q = map (\<lambda>i. z_storage q ! ((z_front q + i) mod z_capacity q)) [0..<z_size q]"

definition zq_wf :: "size_queue \<Rightarrow> bool" where
  "zq_wf q \<longleftrightarrow>
     length (z_storage q) = z_capacity q \<and> z_size q \<le> z_capacity q \<and>
     (if z_size q = 0 then z_front q = 0 \<and> z_back q = 0
      else z_front q < z_capacity q \<and> z_back q = (z_front q + (z_size q - 1)) mod z_capacity q)"

text \<open>
  A queue of integers agrees with a general queue if it has the same places and the same number in
  each cell that holds an element there.
\<close>

definition same_cells :: "nat list \<Rightarrow> nat option list \<Rightarrow> bool" where
  "same_cells = list_all2 (\<lambda>x cell. cell = None \<or> cell = Some x)"

definition agrees :: "size_queue \<Rightarrow> nat ring \<Rightarrow> bool" where
  "agrees z q \<longleftrightarrow>
     z_capacity z = rcapacity q \<and> z_size z = rsize q \<and> z_front z = rfront q \<and> z_back z = rback q \<and>
     same_cells (z_storage z) (rstorage q)"

lemma same_cells_update:
  "same_cells st cells \<Longrightarrow> same_cells (st[i := x]) (cells[i := Some x])"
  "same_cells st cells \<Longrightarrow> same_cells st (cells[i := None])"
  using list_all2_update_cong [of "\<lambda>x cell. cell = None \<or> cell = Some x" st cells x "Some x" i]
    list_all2_update_cong [of "\<lambda>x cell. cell = None \<or> cell = Some x" st cells "st ! i" None i]
  by (simp_all add: same_cells_def)

lemma same_cells_blank: "same_cells (replicate n 0) (replicate n None)"
  by (simp add: same_cells_def list_all2_conv_all_nth)

lemma same_cellsD:
  "same_cells st cells \<Longrightarrow> length st = length cells"
  "same_cells st cells \<Longrightarrow> c < length cells \<Longrightarrow> cells ! c = Some v \<Longrightarrow> st ! c = v"
  by (auto simp: same_cells_def list_all2_conv_all_nth)

lemma agreesD:
  assumes "agrees z q"
  shows "z_capacity z = rcapacity q" "z_size z = rsize q" "z_front z = rfront q" "z_back z = rback q"
    "length (z_storage z) = length (rstorage q)"
    "c < length (rstorage q) \<Longrightarrow> rstorage q ! c = Some v \<Longrightarrow> z_storage z ! c = v"
    "same_cells (z_storage z) (rstorage q)"
  using assms same_cellsD by (auto simp: agrees_def)

lemma agrees_wf:
  assumes "agrees z q" "ring_wf q"
  shows "zq_wf z" "zq_list z = ring_list q"
proof -
  note D = agreesD [OF assms(1)]
  show "zq_wf z" using assms(2) D by (simp add: zq_wf_def ring_wf_def ring_cell_def)
  have "z_storage z ! ring_cell q i = ring_list q ! i" if "i < rsize q" for i
    using D(6) ring_wf_live [OF assms(2) that] ring_cell_less [of q i] that assms(2)
    by (simp add: ring_wf_def)
  then show "zq_list z = ring_list q"
    using D by (intro nth_equalityI) (simp_all add: zq_list_def ring_cell_def)
qed

lemma agrees_ex:
  assumes "zq_wf z"
  obtains q where "agrees z q" "ring_wf q"
proof -
  let ?live = "\<lambda>c. \<exists>i < z_size z. c = (z_front z + i) mod z_capacity z"
  let ?q = "\<lparr>rstorage = map (\<lambda>c. if ?live c then Some (z_storage z ! c) else None) [0..<z_capacity z],
    rcapacity = z_capacity z, rsize = z_size z, rfront = z_front z, rback = z_back z\<rparr>"
  have "agrees z ?q" using assms by (auto simp: agrees_def zq_wf_def same_cells_def list_all2_conv_all_nth)
  moreover have "ring_wf ?q"
    using assms by (intro ring_wfI) (auto simp: zq_wf_def ring_cell_def split: if_splits)
  ultimately show thesis by (rule that)
qed

lemma agrees_read: "agrees z q \<Longrightarrow> ring_read q c = Inr x \<Longrightarrow> zq_read z c = Inr x"
  using agreesD(5,6) [of z q] by (auto simp: ring_read_def zq_read_def split: if_splits option.splits)

section \<open>Each operation\<close>

lemma agrees_move_cells:
  assumes "agrees z q" "kq_move_cells q tmp is = Inr st" "same_cells tmp' tmp"
  shows "\<exists>st'. zq_move_cells z tmp' is = Inr st' \<and> same_cells st' st"
  using assms(2-)
proof (induction "is" arbitrary: tmp tmp')
  case (Cons i "is")
  obtain x where x: "ring_read q ((rfront q + i) mod rcapacity q) = Inr x" "i < length tmp"
    "kq_move_cells q (tmp[i := Some x]) is = Inr st"
    using Cons.prems(1) by (auto simp: rbind_eq_Inr_iff split: if_splits)
  have "zq_read z ((z_front z + i) mod z_capacity z) = Inr x"
    using agrees_read [OF assms(1) x(1)] agreesD(1,3) [OF assms(1)] by simp
  then show ?case
    using Cons.IH [OF x(3) same_cells_update(1) [OF Cons.prems(2)]] same_cellsD(1) [OF Cons.prems(2)] x(2) by simp
qed simp

lemma agrees_grow:
  assumes "agrees z q" "ring_wf q" "rsize q \<le> n" "kq_realloc q n = Inr q'"
  shows "\<exists>z'. zq_realloc z n = Inr z' \<and> agrees z' q'"
proof -
  note D = agreesD [OF assms(1)]
  consider "n = rcapacity q" | "n \<noteq> rcapacity q" "rstorage q = []" | "n \<noteq> rcapacity q" "rstorage q \<noteq> []" by blast
  then show ?thesis
  proof cases
    case 1
    then show ?thesis using assms D(1) by (simp add: kq_realloc_def zq_realloc_def)
  next
    case 2
    then have "z_storage z = []" using D(5) by simp
    then show ?thesis using 2 assms(4) D(1-4) same_cells_blank by (auto simp: kq_realloc_def zq_realloc_def agrees_def)
  next
    case 3
    then have ne: "z_storage z \<noteq> []" using D(5) by auto
    have sz: "\<not> n < rsize q" using assms(3) by simp
    obtain st where st: "kq_move_cells q (replicate n None) [0..<rsize q] = Inr st"
      "q' = q\<lparr>rstorage := st, rcapacity := n, rfront := 0, rback := (if rsize q = 0 then 2 ^ 32 - 1 else rsize q - 1)\<rparr>"
      using assms(4) 3 sz by (cases q) (auto simp: kq_realloc_def Let_def rbind_eq_Inr_iff)
    obtain st' where "zq_move_cells z (replicate n 0) [0..<rsize q] = Inr st'" "same_cells st' st"
      using agrees_move_cells [OF assms(1) st(1) same_cells_blank] by blast
    then show ?thesis using 3 ne sz D(1-4) st(2) by (simp add: zq_realloc_def Let_def agrees_def)
  qed
qed

lemma agrees_push_back:
  assumes "agrees z q" "ring_wf q" "kq_push_back q x = Inr q'"
  shows "\<exists>z'. zq_push_back z x = Inr z' \<and> agrees z' q'"
proof -
  note D = agreesD [OF assms(1)]
  define n where "n = (if rcapacity q \<noteq> 0 then rcapacity q * 2 else 1)"
  obtain p where p: "(if rsize q = rcapacity q then kq_realloc q n else Inr q) = Inr p"
    using assms(3) unfolding kq_push_back_def rbind_eq_Inr_iff n_def by blast
  have "\<exists>y. (if z_size z = z_capacity z then zq_realloc z n else Inr z) = Inr y \<and> agrees y p"
  proof (cases "rsize q = rcapacity q")
    case True
    then have "kq_realloc q n = Inr p" "rsize q \<le> n" using p by (simp_all add: n_def)
    then show ?thesis using agrees_grow [OF assms(1,2)] True D(1,2) by simp
  qed (use p D(1,2) assms(1) in simp)
  then obtain y where y: "(if z_size z = z_capacity z then zq_realloc z n else Inr z) = Inr y" "agrees y p" by blast
  note E = agreesD [OF y(2)]
  let ?b = "if rsize p = 0 then 0 else (rback p + 1) mod rcapacity p"
  have "?b < length (rstorage p) \<and> q' = p\<lparr>rstorage := (rstorage p)[?b := Some x],
      rfront := (if rsize p = 0 then 0 else rfront p), rback := ?b, rsize := rsize p + 1\<rparr>"
    using assms(3) unfolding kq_push_back_def n_def [symmetric] p by (simp add: Let_def split: if_splits)
  moreover have "zq_push_back z x = (if ?b < length (z_storage y) then Inr (y\<lparr>z_storage := (z_storage y)[?b := x],
      z_front := (if rsize p = 0 then 0 else rfront p), z_back := ?b, z_size := rsize p + 1\<rparr>) else Inl Undefined)"
    unfolding zq_push_back_def D(1) n_def [symmetric] unfolding D(1) [symmetric] y(1) by (simp add: Let_def E(1-4))
  ultimately show ?thesis using E same_cells_update(1) [OF E(7), of ?b x] by (simp add: agrees_def)
qed

lemma agrees_pop_front:
  assumes "agrees z q" "kq_pop_front q = Inr (x, q')"
  shows "\<exists>z'. zq_pop_front z = Inr (x, z') \<and> agrees z' q'"
proof -
  note D = agreesD [OF assms(1)]
  have x: "rsize q \<noteq> 0" "ring_read q (rfront q) = Inr x"
    using assms(2) by (auto simp: kq_pop_front_def rassert_eq_Inr_iff rbind_eq_Inr_iff Let_def)
  then have "zq_read z (z_front z) = Inr x" using agrees_read [OF assms(1)] D(3) by simp
  then show ?thesis
    using x assms(2) D same_cells_update(2) [OF D(7)]
    by (simp add: kq_pop_front_def zq_pop_front_def Let_def agrees_def) (auto simp: agrees_def)
qed

lemma agrees_contains_loop:
  "agrees z q \<Longrightarrow> kq_contains_loop fuel q v i = Some (Inr b) \<Longrightarrow> zq_contains_loop fuel z v i = Some (Inr b)"
proof (induction fuel arbitrary: i)
  case (Suc fuel)
  then obtain x where "ring_read q i = Inr x" by (auto split: sum.splits)
  then show ?case using Suc agrees_read [OF Suc.prems(1)] agreesD(1,2,4) [OF Suc.prems(1)] by (auto simp: Let_def split: if_splits)
qed simp

text \<open>
  The scan ends: it visits the cells one after the other, and the index it stops at is below the
  capacity.
\<close>

lemma zq_scan_ends:
  assumes "length (z_storage q) = z_capacity q" "i < z_capacity q"
    "0 < k" "k \<le> fuel" "(i + k) mod z_capacity q = (z_back q + 1) mod z_size q"
  shows "\<exists>b. zq_contains_loop fuel q v i = Some (Inr b) \<and> (b \<longrightarrow> v \<in> set (z_storage q))"
  using assms(2-)
proof (induction fuel arbitrary: i k)
  case (Suc fuel)
  have r: "zq_read q i = Inr (z_storage q ! i)" using Suc.prems(1) assms(1) by (simp add: zq_read_def)
  have mem: "z_storage q ! i \<in> set (z_storage q)" using Suc.prems(1) assms(1) by simp
  define i' t where "i' = (i + 1) mod z_capacity q" and "t = (z_back q + 1) mod z_size q"
  have step: "zq_contains_loop (Suc fuel) q v i =
      (if z_storage q ! i = v then Some (Inr True) else if i' \<noteq> t then zq_contains_loop fuel q v i' else Some (Inr False))"
    unfolding zq_contains_loop.simps r i'_def t_def by (simp only: sum.case Let_def)
  show ?case
  proof (cases "z_storage q ! i = v \<or> i' = t")
    case True
    then show ?thesis unfolding step using mem by auto
  next
    case False
    have "k \<noteq> 1" using False Suc.prems(4) by (auto simp: i'_def t_def)
    then obtain k' where k: "k = Suc k'" "0 < k'" using Suc.prems(2) by (cases k) auto
    have "(i' + k') mod z_capacity q = (z_back q + 1) mod z_size q"
      using Suc.prems(4) k(1) by (simp add: i'_def mod_add_left_eq)
    moreover have "i' < z_capacity q" using Suc.prems(1) by (simp add: i'_def)
    ultimately have "\<exists>b. zq_contains_loop fuel q v i' = Some (Inr b) \<and> (b \<longrightarrow> v \<in> set (z_storage q))"
      using Suc.IH [of i' k'] Suc.prems(3) k by simp
    then show ?thesis unfolding step using False by simp
  qed
qed simp

lemma ring_distance:
  assumes "i < n" "t < (n :: nat)"
  obtains k where "0 < k" "k \<le> n" "(i + k) mod n = t"
proof (cases "i < t")
  case True
  then show thesis using that [of "t - i"] assms by simp
next
  case False
  then have "i + (n - i + t) = n + t" using assms by simp
  then have "(i + (n - i + t)) mod n = t" using assms by (metis mod_add_self1 mod_less)
  then show thesis using that [of "n - i + t"] assms False by simp
qed

section \<open>What the cache of a disk relies on\<close>

lemma zq_new_wf: "zq_wf zq_new" "zq_list zq_new = []"
  by (simp_all add: zq_new_def zq_wf_def zq_list_def)

lemma length_zq_list [simp]: "length (zq_list q) = z_size q"
  by (simp add: zq_list_def)

lemma zq_push_back_ok:
  assumes "zq_wf z"
  obtains z' where "zq_push_back z x = Inr z'" "zq_wf z'" "zq_list z' = zq_list z @ [x]"
proof -
  obtain q where q: "agrees z q" "ring_wf q" by (rule agrees_ex [OF assms])
  obtain q' where q': "kq_push_back q x = Inr q'" "ring_wf q'" "ring_list q' = ring_list q @ [x]"
    by (rule kq_push_back_ok [OF q(2)])
  obtain z' where "zq_push_back z x = Inr z'" "agrees z' q'" using agrees_push_back [OF q q'(1)] by blast
  then show thesis using that [of z'] agrees_wf [OF _ q'(2)] agrees_wf [OF q] q'(3) by simp
qed

lemma zq_pop_front_ok:
  assumes "zq_wf z" "zq_list z = x # xs"
  obtains z' where "zq_pop_front z = Inr (x, z')" "zq_wf z'" "zq_list z' = xs"
proof -
  obtain q where q: "agrees z q" "ring_wf q" by (rule agrees_ex [OF assms(1)])
  have l: "ring_list q = x # xs" using agrees_wf(2) [OF q] assms(2) by simp
  then have "rsize q \<noteq> 0" by (metis length_ring_list list.size(3) list.distinct(1) length_0_conv)
  then obtain q' where q': "kq_pop_front q = Inr (x, q')" "ring_wf q'" "ring_list q' = xs"
    using cq_pop_front_Cons [OF q(2) l] kq_pop_eq(1) by metis
  obtain z' where "zq_pop_front z = Inr (x, z')" "agrees z' q'" using agrees_pop_front [OF q(1) q'(1)] by blast
  then show thesis using that [of z'] agrees_wf [OF _ q'(2)] q'(3) by simp
qed

text \<open>
  \<open>contains\<close> always returns and finds every element. A number it reports and that is not an element
  stands in a cell that holds none, where \<open>kcalloc\<close> or an element popped before left it.
\<close>

lemma zq_contains_ok:
  assumes "zq_wf z"
  obtains b where "zq_contains z v = Some (Inr b)" "v \<in> set (zq_list z) \<Longrightarrow> b" "b \<Longrightarrow> v \<in> set (z_storage z)"
proof (cases "z_size z = 0")
  case True
  then show thesis using that [of False] by (simp add: zq_contains_def zq_empty_def zq_list_def)
next
  case False
  obtain q where q: "agrees z q" "ring_wf q" by (rule agrees_ex [OF assms])
  have wf: "length (z_storage z) = z_capacity z" "z_front z < z_capacity z" "z_size z \<le> z_capacity z"
    using assms False by (auto simp: zq_wf_def)
  have "(z_back z + 1) mod z_size z < z_capacity z" using False wf(3) by (simp add: order.strict_trans2 [OF mod_less_divisor])
  then obtain k where k: "0 < k" "k \<le> z_capacity z" "(z_front z + k) mod z_capacity z = (z_back z + 1) mod z_size z"
    by (rule ring_distance [OF wf(2)])
  obtain b where b: "zq_contains z v = Some (Inr b)" "b \<longrightarrow> v \<in> set (z_storage z)"
    using zq_scan_ends [OF wf(1,2) k] False by (auto simp: zq_contains_def zq_empty_def)
  have "b" if "v \<in> set (zq_list z)"
  proof -
    have "kq_contains q v = Some (Inr True)" using that agrees_wf(2) [OF q] kq_contains_eq [OF q(2), of v] by simp
    then have "zq_contains z v = Some (Inr True)"
      using agrees_contains_loop [OF q(1)] agreesD(1-3) [OF q(1)] False by (simp add: kq_contains_def zq_contains_def kq_empty_def zq_empty_def)
    then show b using b(1) by simp
  qed
  then show thesis using that b by blast
qed

text \<open>
  After three regions that are not region 0 were queued, the scan for region 0 runs into the zero
  of a cell that was never used, and reports it as queued.
\<close>

lemma zq_contains_stale:
  "rfold (\<lambda>x q. zq_push_back q x) [8, 16, 24] zq_new =
     Inr \<lparr>z_storage = [8, 16, 24, 0], z_capacity = 4, z_size = 3, z_front = 0, z_back = 2\<rparr>"
  "zq_contains \<lparr>z_storage = [8, 16, 24, 0], z_capacity = 4, z_size = 3, z_front = 0, z_back = 2\<rparr> 0 = Some (Inr True)"
  by code_simp+

end
