(* ===== verification/DiskCache.thy ===== *)
theory DiskCache
  imports LruCache SizeQueue
begin

text \<open>
  The block cache of \<open>DiskDevice\<close> (\<open>src/kernel/device/DiskDevice.cpp\<close>): pages of
  consecutive blocks, held in an LRU cache, written back later from a queue of dirty regions or
  when memory is short. The operations of the disk below (\<open>read_uncached_blocks\<close> and
  \<open>write_uncached_blocks\<close>, pure virtual in the class) are parameters: each gives a \<open>Result\<close>, which
  none of the callers looks at, with the buffer or the disk as it is afterwards.

  The operations are modelled one after the other: each runs under the locks of the device. A
  region is an object of its own that the cache and local variables refer to, so regions live in a
  store and the cache holds references.
\<close>

section \<open>State\<close>

type_synonym byte = "8 word"

text \<open>The class \<open>Result\<close>, with \<^const>\<open>None\<close> for success.\<close>

type_synonym status = "errno option"

definition PAGE_SIZE :: nat where
  "PAGE_SIZE = 4096"

record cache_region =
  reg_data :: "byte list"
  reg_block_size :: nat
  reg_start :: nat
  reg_last_used :: nat
  reg_dirty :: bool

record 'd disk =
  disk_cache :: "(nat, nat) lru_cache"
  disk_dirty :: size_queue
  disk_regions :: "nat \<Rightarrow> cache_region"
  disk_next :: nat
  disk_dev :: 'd
  disk_used :: nat
  disk_ready :: bool

record 'd disk_ops =
  block_size :: nat
  read_uncached :: "'d \<Rightarrow> nat \<Rightarrow> nat \<Rightarrow> byte list \<Rightarrow> status \<times> byte list"
  write_uncached :: "'d \<Rightarrow> nat \<Rightarrow> nat \<Rightarrow> byte list \<Rightarrow> status \<times> 'd"
  fresh_page :: "byte list"

definition disk_new :: "'d \<Rightarrow> 'd disk" where
  "disk_new d = \<lparr>disk_cache = lru_new, disk_dirty = zq_new, disk_regions = (\<lambda>_. undefined),
     disk_next = 0, disk_dev = d, disk_used = 0, disk_ready = False\<rparr>"

section \<open>Regions\<close>

definition num_blocks :: "cache_region \<Rightarrow> nat" where
  "num_blocks r = PAGE_SIZE div reg_block_size r"

definition has_block :: "cache_region \<Rightarrow> nat \<Rightarrow> bool" where
  "has_block r block \<longleftrightarrow> reg_start r \<le> block \<and> block < (reg_start r + num_blocks r) mod 2 ^ 32"

text \<open>\<open>memcpy\<close> from and to \<open>block_data(block)\<close>.\<close>

definition block_data :: "cache_region \<Rightarrow> nat \<Rightarrow> byte list" where
  "block_data r block =
     take (reg_block_size r) (drop (reg_block_size r * (block - reg_start r)) (reg_data r))"

definition set_block_data :: "cache_region \<Rightarrow> nat \<Rightarrow> byte list \<Rightarrow> cache_region" where
  "set_block_data r block bytes =
     (let off = reg_block_size r * (block - reg_start r)
      in r\<lparr>reg_data := take off (reg_data r) @ bytes @ drop (off + length bytes) (reg_data r)\<rparr>)"

definition blocks_per_cache_region :: "'d disk_ops \<Rightarrow> nat" where
  "blocks_per_cache_region ops = PAGE_SIZE div block_size ops"

definition block_cache_region_start :: "'d disk_ops \<Rightarrow> nat \<Rightarrow> nat" where
  "block_cache_region_start ops block = block - block mod blocks_per_cache_region ops"

abbreviation upd_region :: "nat \<Rightarrow> (cache_region \<Rightarrow> cache_region) \<Rightarrow> 'd disk \<Rightarrow> 'd disk" where
  "upd_region ref f s \<equiv> s\<lparr>disk_regions := (disk_regions s)(ref := f (disk_regions s ref))\<rparr>"

section \<open>Operations\<close>

text \<open>
  \<open>get_cache_region\<close>. The page of a new region has the contents \<open>fresh_page\<close> until the blocks are
  read into it; the result of \<open>read_uncached_blocks\<close> is not looked at. \<open>time\<close> is
  \<open>Time::now()\<close> at the construction.
\<close>

definition get_cache_region ::
  "'d disk_ops \<Rightarrow> nat \<Rightarrow> 'd disk \<Rightarrow> nat \<Rightarrow> (nat \<times> 'd disk) result" where
  "get_cache_region ops time s block =
     (let start = block_cache_region_start ops block in
      rbind (lru_get (disk_cache s) start) (\<lambda>(reg_opt, c).
        case reg_opt of
          Some ref \<Rightarrow> Inr (ref, s\<lparr>disk_cache := c\<rparr>)
        | None \<Rightarrow>
            let ref = disk_next s;
                (res, page) = read_uncached ops (disk_dev s) start (blocks_per_cache_region ops) (fresh_page ops);
                reg = \<lparr>reg_data = page, reg_block_size = block_size ops, reg_start = start,
                       reg_last_used = time, reg_dirty = False\<rparr>
            in rbind (lru_insert c start ref) (\<lambda>c'.
                 Inr (ref, s\<lparr>disk_cache := c', disk_next := ref + 1,
                             disk_regions := (disk_regions s)(ref := reg),
                             disk_used := disk_used s + PAGE_SIZE\<rparr>))))"

definition region_for ::
  "'d disk_ops \<Rightarrow> nat \<Rightarrow> 'd disk \<Rightarrow> nat option \<Rightarrow> nat \<Rightarrow> (nat \<times> 'd disk) result" where
  "region_for ops time s cache_region block =
     (case cache_region of
        Some ref \<Rightarrow> if has_block (disk_regions s ref) block then Inr (ref, s)
                    else get_cache_region ops time s block
      | None \<Rightarrow> get_cache_region ops time s block)"

fun read_blocks_loop ::
  "'d disk_ops \<Rightarrow> nat \<Rightarrow> 'd disk \<Rightarrow> nat option \<Rightarrow> nat \<Rightarrow> nat list \<Rightarrow> (byte list \<times> 'd disk) result" where
  "read_blocks_loop ops time s cache_region start_block [] = Inr ([], s)"
| "read_blocks_loop ops time s cache_region start_block (i # is) =
     (let block = (start_block + i) mod 2 ^ 32 in
      rbind (region_for ops time s cache_region block) (\<lambda>(ref, s1).
        let s2 = upd_region ref (\<lambda>r. r\<lparr>reg_last_used := time\<rparr>) s1 in
        rbind (read_blocks_loop ops time s2 (Some ref) start_block is) (\<lambda>(buffer, s3).
          Inr (block_data (disk_regions s2 ref) block @ buffer, s3))))"

definition read_blocks ::
  "'d disk_ops \<Rightarrow> nat \<Rightarrow> 'd disk \<Rightarrow> nat \<Rightarrow> nat \<Rightarrow> (byte list \<times> 'd disk) result" where
  "read_blocks ops time s start_block count =
     read_blocks_loop ops time s None start_block [0..<count]"

text \<open>The lambda \<open>invalidate_cache_region\<close> of \<open>write_blocks\<close>.\<close>

definition invalidate_cache_region :: "'d disk \<Rightarrow> nat \<Rightarrow> 'd disk result" where
  "invalidate_cache_region s ref =
     rbind (returned (zq_contains (disk_dirty s) (reg_start (disk_regions s ref)))) (\<lambda>found.
       if found then Inr s
       else rbind (zq_push_back (disk_dirty s) (reg_start (disk_regions s ref))) (\<lambda>q.
              Inr (s\<lparr>disk_dirty := q\<rparr>)))"

definition region_for_write ::
  "'d disk_ops \<Rightarrow> nat \<Rightarrow> 'd disk \<Rightarrow> nat option \<Rightarrow> nat \<Rightarrow> (nat \<times> 'd disk) result" where
  "region_for_write ops time s cache_region block =
     (case cache_region of
        Some ref \<Rightarrow>
          if has_block (disk_regions s ref) block then Inr (ref, s)
          else rbind (invalidate_cache_region s ref) (\<lambda>s1. get_cache_region ops time s1 block)
      | None \<Rightarrow> get_cache_region ops time s block)"

text \<open>The loop of \<open>write_blocks\<close>; its first result is the region of the last block.\<close>

fun write_blocks_loop ::
  "'d disk_ops \<Rightarrow> nat \<Rightarrow> 'd disk \<Rightarrow> nat option \<Rightarrow> nat \<Rightarrow> byte list \<Rightarrow> nat list
    \<Rightarrow> (nat option \<times> 'd disk) result" where
  "write_blocks_loop ops time s cache_region start_block buffer [] = Inr (cache_region, s)"
| "write_blocks_loop ops time s cache_region start_block buffer (i # is) =
     (let block = (start_block + i) mod 2 ^ 32 in
      rbind (region_for_write ops time s cache_region block) (\<lambda>(ref, s1).
        let bytes = take (block_size ops) (drop (i * block_size ops) buffer);
            s2 = upd_region ref
                   (\<lambda>r. set_block_data (r\<lparr>reg_last_used := time, reg_dirty := True\<rparr>) block bytes) s1
        in write_blocks_loop ops time s2 (Some ref) start_block buffer is))"

definition write_blocks ::
  "'d disk_ops \<Rightarrow> nat \<Rightarrow> 'd disk \<Rightarrow> nat \<Rightarrow> nat \<Rightarrow> byte list \<Rightarrow> 'd disk result" where
  "write_blocks ops time s start_block count buffer =
     rbind (write_blocks_loop ops time s None start_block buffer [0..<count]) (\<lambda>(last, s1).
       case last of
         None \<Rightarrow> Inl Undefined
       | Some ref \<Rightarrow>
           rbind (invalidate_cache_region s1 ref) (\<lambda>s2. Inr (s2\<lparr>disk_ready := True\<rparr>)))"

text \<open>
  The search of \<open>free_pages\<close> for the device whose least recently used region was used longest
  ago: index of the device, reference and time; \<open>None\<close> stands for \<open>Time::distant_future()\<close> with
  no region. \<open>lru_unsafe\<close> looks the value up with \<open>operator[]\<close>, whose default is a null reference,
  here \<open>0\<close>.
\<close>

fun lru_scan ::
  "nat \<Rightarrow> 'd disk list \<Rightarrow> (nat \<times> nat \<times> nat) option \<Rightarrow> ((nat \<times> nat \<times> nat) option \<times> 'd disk list) result" where
  "lru_scan i [] best = Inr (best, [])"
| "lru_scan i (s # ss) best =
     (if vec_empty (lru_list (disk_cache s)) then
        rbind (lru_scan (i + 1) ss best) (\<lambda>(b, ss'). Inr (b, s # ss'))
      else
        rbind (lru_unsafe 0 (disk_cache s)) (\<lambda>((_, ref), c).
          let time = reg_last_used (disk_regions s ref);
              best' = (case best of
                         None \<Rightarrow> Some (i, ref, time)
                       | Some (j, r, t) \<Rightarrow> if time < t then Some (i, ref, time) else best)
          in rbind (lru_scan (i + 1) ss best') (\<lambda>(b, ss'). Inr (b, s\<lparr>disk_cache := c\<rparr> # ss'))))"

definition evict :: "'d disk_ops \<Rightarrow> 'd disk \<Rightarrow> nat \<Rightarrow> 'd disk result" where
  "evict ops s ref =
     (let r = disk_regions s ref;
          s1 = (if reg_dirty r
                then s\<lparr>disk_dev := snd (write_uncached ops (disk_dev s) (reg_start r) (num_blocks r) (reg_data r))\<rparr>
                else s)
      in rbind (lru_prune (disk_cache s1) 1) (\<lambda>c.
           Inr (s1\<lparr>disk_used := disk_used s1 - length (reg_data r), disk_cache := c\<rparr>)))"

fun free_pages_loop ::
  "nat \<Rightarrow> 'd disk_ops \<Rightarrow> 'd disk list \<Rightarrow> nat \<Rightarrow> nat \<Rightarrow> (nat \<times> 'd disk list) result option" where
  "free_pages_loop fuel ops ss num_pages num_freed =
     (if num_freed < num_pages then
        (case fuel of
           0 \<Rightarrow> None
         | Suc fuel' \<Rightarrow>
             (case lru_scan 0 ss None of
                Inl e \<Rightarrow> Some (Inl e)
              | Inr (None, ss1) \<Rightarrow> Some (Inr (num_freed, ss1))
              | Inr (Some (i, ref, _), ss1) \<Rightarrow>
                  (case evict ops (ss1 ! i) ref of
                     Inl e \<Rightarrow> Some (Inl e)
                   | Inr s \<Rightarrow>
                       free_pages_loop fuel' ops (ss1[i := s]) num_pages
                         (num_freed + length (reg_data (disk_regions s ref)) div PAGE_SIZE))))
      else Some (Inr (num_freed, ss)))"

definition free_pages :: "'d disk_ops \<Rightarrow> 'd disk list \<Rightarrow> nat \<Rightarrow> (nat \<times> 'd disk list) result" where
  "free_pages ops ss num_pages = returned (free_pages_loop num_pages ops ss num_pages 0)"

text \<open>
  The inner loop of \<open>cache_writeback_task_entry\<close> for one device. The flag returned is
  \<open>False\<close> where the task returns because a region of the queue is no longer in the cache.
\<close>

fun writeback_loop :: "nat \<Rightarrow> 'd disk_ops \<Rightarrow> 'd disk \<Rightarrow> (bool \<times> 'd disk) result option" where
  "writeback_loop fuel ops s =
     (if zq_empty (disk_dirty s) then Some (Inr (True, s))
      else case fuel of
        0 \<Rightarrow> None
      | Suc fuel' \<Rightarrow>
          (case zq_pop_front (disk_dirty s) of
             Inl e \<Rightarrow> Some (Inl e)
           | Inr (region_loc, q) \<Rightarrow>
               (case lru_get (disk_cache s) region_loc of
                  Inl e \<Rightarrow> Some (Inl e)
                | Inr (None, c) \<Rightarrow> Some (Inr (False, s\<lparr>disk_dirty := q, disk_cache := c\<rparr>))
                | Inr (Some ref, c) \<Rightarrow>
                    let r = disk_regions s ref;
                        s1 = s\<lparr>disk_dirty := q, disk_cache := c,
                               disk_dev := snd (write_uncached ops (disk_dev s) (reg_start r) (num_blocks r) (reg_data r))\<rparr>
                    in writeback_loop fuel' ops (upd_region ref (\<lambda>r. r\<lparr>reg_dirty := False\<rparr>) s1))))"

definition writeback :: "'d disk_ops \<Rightarrow> 'd disk \<Rightarrow> (bool \<times> 'd disk) result" where
  "writeback ops s = returned (writeback_loop (z_size (disk_dirty s)) ops s)"

declare free_pages_loop.simps [simp del] writeback_loop.simps [simp del]

text \<open>
  \<open>s_used_cache_memory\<close> is one counter for all devices; \<^const>\<open>disk_used\<close> is the part of it that the
  regions of a device account for.
\<close>

definition used_cache_memory :: "'d disk list \<Rightarrow> nat" where
  "used_cache_memory ss = sum_list (map disk_used ss) mod 2 ^ 32"

section \<open>Contents of the disk seen through the cache\<close>

text \<open>
  What the class relies on of the disk below: reads and writes succeed, a read puts whole blocks, one
  after the other, at the start of the buffer, and a write replaces exactly its blocks. The block
  size divides the page size, and a new page has the size of a page.
\<close>

definition dev_read :: "'d disk_ops \<Rightarrow> 'd \<Rightarrow> nat \<Rightarrow> nat \<Rightarrow> byte list" where
  "dev_read ops d b n = snd (read_uncached ops d b n (replicate (n * block_size ops) 0))"

abbreviation dev_write :: "'d disk_ops \<Rightarrow> 'd \<Rightarrow> nat \<Rightarrow> nat \<Rightarrow> byte list \<Rightarrow> 'd" where
  "dev_write ops d b n buf \<equiv> snd (write_uncached ops d b n buf)"

definition disk_device :: "'d disk_ops \<Rightarrow> bool" where
  "disk_device ops \<longleftrightarrow>
     0 < block_size ops \<and> block_size ops dvd PAGE_SIZE \<and> length (fresh_page ops) = PAGE_SIZE \<and>
     (\<forall>d b n buf. n * block_size ops \<le> length buf \<longrightarrow>
        read_uncached ops d b n buf = (None, dev_read ops d b n @ drop (n * block_size ops) buf)) \<and>
     (\<forall>d b n. dev_read ops d b n = concat (map (\<lambda>i. dev_read ops d i 1) [b..<b + n])) \<and>
     (\<forall>d b. length (dev_read ops d b 1) = block_size ops) \<and>
     (\<forall>d b n buf. length buf = n * block_size ops \<longrightarrow> fst (write_uncached ops d b n buf) = None \<and>
        (\<forall>i. dev_read ops (dev_write ops d b n buf) i 1 =
          (if b \<le> i \<and> i < b + n then take (block_size ops) (drop ((i - b) * block_size ops) buf)
           else dev_read ops d i 1)))"

definition cached :: "'d disk_ops \<Rightarrow> 'd disk \<Rightarrow> nat \<Rightarrow> nat option" where
  "cached ops s b = entries (lmap (disk_cache s)) (block_cache_region_start ops b)"

definition content :: "'d disk_ops \<Rightarrow> 'd disk \<Rightarrow> nat \<Rightarrow> byte list" where
  "content ops s b =
     (case cached ops s b of
        Some ref \<Rightarrow> block_data (disk_regions s ref) b
      | None \<Rightarrow> dev_read ops (disk_dev s) b 1)"

definition region_ok :: "'d disk_ops \<Rightarrow> 'd disk \<Rightarrow> nat \<Rightarrow> cache_region \<Rightarrow> bool" where
  "region_ok ops s k r \<longleftrightarrow>
     reg_start r = k \<and> k mod blocks_per_cache_region ops = 0 \<and> reg_block_size r = block_size ops \<and>
     length (reg_data r) = PAGE_SIZE \<and>
     (\<not> reg_dirty r \<longrightarrow> reg_data r = dev_read ops (disk_dev s) k (blocks_per_cache_region ops))"

definition disk_wf :: "'d disk_ops \<Rightarrow> 'd disk \<Rightarrow> bool" where
  "disk_wf ops s \<longleftrightarrow>
     lru_wf (disk_cache s) \<and> zq_wf (disk_dirty s) \<and>
     (\<forall>k ref. entries (lmap (disk_cache s)) k = Some ref \<longrightarrow>
        ref < disk_next s \<and> region_ok ops s k (disk_regions s ref))"

section \<open>Blocks and regions\<close>

lemma disk_deviceD:
  assumes "disk_device ops"
  shows "0 < block_size ops" "0 < blocks_per_cache_region ops"
    "blocks_per_cache_region ops * block_size ops = PAGE_SIZE"
    "length (dev_read ops d b 1) = block_size ops"
    "dev_read ops d b n = concat (map (\<lambda>i. dev_read ops d i 1) [b..<b + n])"
    "length buf = n * block_size ops \<Longrightarrow> dev_read ops (dev_write ops d b n buf) i 1 =
       (if b \<le> i \<and> i < b + n then take (block_size ops) (drop ((i - b) * block_size ops) buf)
        else dev_read ops d i 1)"
proof -
  note d = assms [unfolded disk_device_def]
  show "0 < block_size ops" using d by blast
  show p: "blocks_per_cache_region ops * block_size ops = PAGE_SIZE"
    using d by (simp add: blocks_per_cache_region_def)
  show "0 < blocks_per_cache_region ops" using p by (cases "blocks_per_cache_region ops") (auto simp: PAGE_SIZE_def)
  show "length (dev_read ops d b 1) = block_size ops" using d by blast
  show "dev_read ops d b n = concat (map (\<lambda>i. dev_read ops d i 1) [b..<b + n])" using d by blast
  show "length buf = n * block_size ops \<Longrightarrow> dev_read ops (dev_write ops d b n buf) i 1 =
       (if b \<le> i \<and> i < b + n then take (block_size ops) (drop ((i - b) * block_size ops) buf)
        else dev_read ops d i 1)" using d by blast
qed

lemma fresh_page_length: "disk_device ops \<Longrightarrow> length (fresh_page ops) = PAGE_SIZE"
  unfolding disk_device_def by blast

lemma read_page:
  assumes "disk_device ops"
  shows "read_uncached ops d b (blocks_per_cache_region ops) (fresh_page ops) =
    (None, dev_read ops d b (blocks_per_cache_region ops))"
proof -
  have "blocks_per_cache_region ops * block_size ops = length (fresh_page ops)"
    using disk_deviceD(3) [OF assms] fresh_page_length [OF assms] by simp
  moreover have "n * block_size ops \<le> length buf \<Longrightarrow>
      read_uncached ops d b n buf = (None, dev_read ops d b n @ drop (n * block_size ops) buf)" for n buf
    using assms unfolding disk_device_def by blast
  ultimately show ?thesis by simp
qed

lemma length_concat_blocks:
  "\<forall>x \<in> set xs. length (f x) = c \<Longrightarrow> length (concat (map f xs)) = length xs * c"
  by (induction xs) auto

lemma concat_block:
  assumes "\<forall>x \<in> set xs. length (f x) = c" "j < length xs"
  shows "take c (drop (c * j) (concat (map f xs))) = f (xs ! j)"
  using assms
proof (induction xs arbitrary: j)
  case (Cons x xs)
  show ?case
  proof (cases j)
    case (Suc i)
    then have "drop (c * j) (concat (map f (x # xs))) = drop (c * i) (concat (map f xs))"
      using Cons.prems(1) by simp
    then show ?thesis using Cons Suc by simp
  qed (use Cons.prems in simp)
qed simp

lemma region_start_iff:
  assumes "0 < n" "k mod n = (0::nat)"
  shows "b - b mod n = k \<longleftrightarrow> k \<le> b \<and> b < k + n"
proof
  assume "b - b mod n = k"
  then show "k \<le> b \<and> b < k + n" using assms(1) mod_less_divisor [OF assms(1), of b] by auto
next
  assume b: "k \<le> b \<and> b < k + n"
  obtain j where j: "k = n * j" using assms(2) by auto
  have "b div n = j" using b j by (intro div_nat_eqI) (auto simp: algebra_simps)
  then show "b - b mod n = k" using j by (metis minus_mod_eq_mult_div)
qed

lemma region_start_props:
  assumes "0 < n"
  shows "(b - b mod n) mod n = (0::nat)" "b - b mod n \<le> b" "b < b - b mod n + n"
  using assms by (auto simp: minus_mod_eq_mult_div) (metis add.commute mod_less_divisor mult_div_mod_eq nat_add_left_cancel_less)

lemma region_ok_blocks:
  assumes "disk_device ops" "region_ok ops s k r"
  shows "block_cache_region_start ops b = k \<longleftrightarrow> k \<le> b \<and> b < k + blocks_per_cache_region ops"
    "num_blocks r = blocks_per_cache_region ops"
  using assms region_start_iff [OF disk_deviceD(2) [OF assms(1)], of k b]
  by (simp_all add: region_ok_def num_blocks_def block_cache_region_start_def blocks_per_cache_region_def)

text \<open>The last region below \<open>2 ^ 32\<close> has no block by \<open>has_block\<close>, whose sum wraps; no region has a block of another.\<close>

lemma region_ok_has_block:
  assumes "disk_device ops" "region_ok ops s k r" "has_block r b"
  shows "block_cache_region_start ops b = k"
proof -
  have "reg_start r = k" using assms(2) by (simp add: region_ok_def)
  moreover have "(reg_start r + num_blocks r) mod 2 ^ 32 \<le> reg_start r + num_blocks r" by simp
  ultimately show ?thesis
    using assms(3) unfolding region_ok_blocks(1) [OF assms(1,2)] has_block_def region_ok_blocks(2) [OF assms(1,2)] by linarith
qed

lemma read_region_block:
  assumes "disk_device ops" "k \<le> b" "b < k + n"
  shows "take (block_size ops) (drop (block_size ops * (b - k)) (dev_read ops d k n)) = dev_read ops d b 1"
  unfolding disk_deviceD(5) [OF assms(1), of d k n]
  using assms concat_block [of "[k..<k + n]" "\<lambda>i. dev_read ops d i 1" "block_size ops" "b - k"]
    disk_deviceD(4) [OF assms(1)] by simp

lemma read_region_length:
  assumes "disk_device ops"
  shows "length (dev_read ops d k n) = n * block_size ops"
  unfolding disk_deviceD(5) [OF assms, of d k n]
  by (subst length_concat_blocks [where c = "block_size ops"]) (use disk_deviceD(4) [OF assms] in auto)

lemma region_clean_block:
  assumes "disk_device ops" "region_ok ops s k r" "\<not> reg_dirty r" "block_cache_region_start ops b = k"
  shows "block_data r b = dev_read ops (disk_dev s) b 1"
  using assms region_ok_blocks(1) [OF assms(1,2), of b] read_region_block [OF assms(1), of k b]
  by (simp add: block_data_def region_ok_def)

lemma region_block_length:
  assumes "disk_device ops" "region_ok ops s k r" "block_cache_region_start ops b = k"
  shows "length (block_data r b) = block_size ops" 
    "block_size ops * (b - k) + block_size ops \<le> PAGE_SIZE"
proof -
  have "b - k < blocks_per_cache_region ops"
    using region_ok_blocks(1) [OF assms(1,2), of b] assms(3) by auto
  then have "Suc (b - k) * block_size ops \<le> blocks_per_cache_region ops * block_size ops"
    by (intro mult_le_mono1) simp
  then show le: "block_size ops * (b - k) + block_size ops \<le> PAGE_SIZE"
    using disk_deviceD(3) [OF assms(1)] by (simp add: algebra_simps)
  then show "length (block_data r b) = block_size ops"
    using assms(2) by (simp add: block_data_def region_ok_def)
qed

lemma block_offsets:
  assumes "i \<noteq> (j::nat)"
  shows "c * i + c \<le> c * j \<or> c * j + c \<le> c * i"
proof -
  have "Suc i \<le> j \<or> Suc j \<le> i" using assms by arith
  then show ?thesis by (metis mult_Suc_right mult_le_mono2 add.commute)
qed

lemma take_drop_splice:
  assumes "off' + c \<le> off \<or> off + length ys \<le> off'" "off + length ys \<le> length xs" "off' + c \<le> length xs"
  shows "take c (drop off' (take off xs @ ys @ drop (off + length ys) xs)) = take c (drop off' xs)"
  using assms by (intro nth_equalityI) (auto simp: nth_append)

lemma set_block_data_block:
  assumes "disk_device ops" "region_ok ops s k r" "length bytes = block_size ops"
    "block_cache_region_start ops b = k" "block_cache_region_start ops b' = k"
  shows "block_data (set_block_data r b bytes) b' = (if b' = b then bytes else block_data r b')"
proof (cases "b' = b")
  case True
  then show ?thesis
    using assms region_block_length(2) [OF assms(1,2,4)]
    by (auto simp: block_data_def set_block_data_def Let_def region_ok_def)
next
  case False
  have "k \<le> b" "k \<le> b'"
    using region_ok_blocks(1) [OF assms(1,2)] assms(4,5) by auto
  then have "b - k \<noteq> b' - k" using False by simp
  then show ?thesis
    using False block_offsets [of "b' - k" "b - k" "block_size ops"] assms
      region_block_length(2) [OF assms(1,2,4)] region_block_length(2) [OF assms(1,2,5)]
      take_drop_splice [of "block_size ops * (b' - k)" "block_size ops" "block_size ops * (b - k)" bytes "reg_data r"]
    by (simp add: block_data_def set_block_data_def Let_def region_ok_def)
qed

section \<open>Reads and writes\<close>

lemma disk_wfI:
  assumes "lru_wf (disk_cache s)" "zq_wf (disk_dirty s)"
    "\<And>k ref. entries (lmap (disk_cache s)) k = Some ref \<Longrightarrow>
       ref < disk_next s \<and> region_ok ops s k (disk_regions s ref)"
  shows "disk_wf ops s"
  using assms by (simp add: disk_wf_def)

lemma disk_wfD:
  assumes "disk_wf ops s"
  shows "lru_wf (disk_cache s)" "zq_wf (disk_dirty s)"
    "entries (lmap (disk_cache s)) k = Some ref \<Longrightarrow> ref < disk_next s"
    "entries (lmap (disk_cache s)) k = Some ref \<Longrightarrow> region_ok ops s k (disk_regions s ref)"
  using assms by (auto simp: disk_wf_def)

text \<open>The state after an operation: well formed, the device and the contents as before.\<close>

definition same_contents :: "'d disk_ops \<Rightarrow> 'd disk \<Rightarrow> 'd disk \<Rightarrow> bool" where
  "same_contents ops s s' \<longleftrightarrow>
     disk_wf ops s' \<and> content ops s' = content ops s \<and> disk_dev s' = disk_dev s \<and>
     disk_dirty s' = disk_dirty s"

lemma same_contents_trans:
  "same_contents ops s s1 \<Longrightarrow> same_contents ops s1 s2 \<Longrightarrow> same_contents ops s s2"
  by (simp add: same_contents_def)

lemma get_cache_region_ok:
  assumes dev: "disk_device ops" and wf: "disk_wf ops s"
  obtains ref s' where "get_cache_region ops time s block = Inr (ref, s')" "same_contents ops s s'"
    "cached ops s' block = Some ref"
proof -
  let ?start = "block_cache_region_start ops block" and ?n = "blocks_per_cache_region ops"
  obtain c where c: "lru_get (disk_cache s) ?start = Inr (entries (lmap (disk_cache s)) ?start, c)"
    "lru_wf c" "entries (lmap c) = entries (lmap (disk_cache s))"
    by (rule lru_get_entries [OF disk_wfD(1) [OF wf]])
  show thesis
  proof (cases "entries (lmap (disk_cache s)) ?start")
    case (Some ref)
    have "disk_wf ops (s\<lparr>disk_cache := c\<rparr>)"
      using c(2,3) wf by (simp add: disk_wf_def region_ok_def)
    moreover have "content ops (s\<lparr>disk_cache := c\<rparr>) = content ops s"
      using c(3) by (simp add: content_def cached_def fun_eq_iff cong: option.case_cong)
    ultimately show thesis
      using that [of ref "s\<lparr>disk_cache := c\<rparr>"] c Some
      by (simp add: get_cache_region_def Let_def same_contents_def cached_def)
  next
    case None
    let ?reg = "\<lparr>reg_data = dev_read ops (disk_dev s) ?start ?n,
        reg_block_size = block_size ops, reg_start = ?start, reg_last_used = time, reg_dirty = False\<rparr>"
    obtain c' where c': "lru_insert c ?start (disk_next s) = Inr c'" "lru_wf c'"
      "entries (lmap c') = (entries (lmap c))(?start \<mapsto> disk_next s)"
      by (rule lru_insert_entries [OF c(2)])
    let ?s = "s\<lparr>disk_cache := c', disk_next := disk_next s + 1,
      disk_regions := (disk_regions s)(disk_next s := ?reg), disk_used := disk_used s + PAGE_SIZE\<rparr>"
    have reg: "region_ok ops ?s ?start ?reg"
      using read_region_length [OF dev] disk_deviceD(3) [OF dev]
        region_start_props(1) [OF disk_deviceD(2) [OF dev]]
      by (simp add: region_ok_def block_cache_region_start_def)
    have "disk_wf ops ?s"
    proof (rule disk_wfI)
      fix k ref
      assume e: "entries (lmap (disk_cache ?s)) k = Some ref"
      show "ref < disk_next ?s \<and> region_ok ops ?s k (disk_regions ?s ref)"
      proof (cases "k = ?start")
        case True
        then show ?thesis using e reg c'(3) by simp
      next
        case False
        then have e': "entries (lmap (disk_cache s)) k = Some ref" using e c' c(3) by simp
        show ?thesis using disk_wfD(3,4) [OF wf e'] by (simp add: region_ok_def)
      qed
    qed (use c'(2) disk_wfD(2) [OF wf] in simp_all)
    moreover have "content ops ?s b = content ops s b" for b
    proof (cases "block_cache_region_start ops b = ?start")
      case True
      then have "content ops ?s b = block_data ?reg b" using c'(3) by (simp add: content_def cached_def)
      also have "\<dots> = dev_read ops (disk_dev s) b 1"
        using region_clean_block [OF dev reg] True by simp
      finally show ?thesis using True None by (simp add: content_def cached_def)
    next
      case False
      then have "cached ops ?s b = cached ops s b" using c' c(3) by (simp add: cached_def)
      moreover have "cached ops s b \<noteq> Some (disk_next s)"
        using disk_wfD(3) [OF wf] by (auto simp: cached_def)
      ultimately show ?thesis by (auto simp: content_def split: option.splits)
    qed
    ultimately have "same_contents ops s ?s" by (simp add: same_contents_def fun_eq_iff)
    then show thesis
      using that [of "disk_next s" ?s] c None c' by (simp add: get_cache_region_def Let_def cached_def read_page [OF dev])
  qed
qed

text \<open>A local variable \<open>cache_region\<close> that is set refers to a region of the cache.\<close>

definition handle_ok :: "'d disk \<Rightarrow> nat option \<Rightarrow> bool" where
  "handle_ok s h \<longleftrightarrow> (\<forall>ref. h = Some ref \<longrightarrow> (\<exists>k. entries (lmap (disk_cache s)) k = Some ref))"

lemma handle_cached:
  assumes "disk_device ops" "disk_wf ops s" "handle_ok s (Some ref)" "has_block (disk_regions s ref) b"
  shows "cached ops s b = Some ref"
proof -
  obtain k where k: "entries (lmap (disk_cache s)) k = Some ref" using assms(3) by (auto simp: handle_ok_def)
  then show ?thesis
    using region_ok_has_block [OF assms(1) disk_wfD(4) [OF assms(2) k] assms(4)] by (simp add: cached_def)
qed

lemma region_for_ok:
  assumes "disk_device ops" "disk_wf ops s" "handle_ok s h"
  obtains ref s' where "region_for ops time s h block = Inr (ref, s')" "same_contents ops s s'"
    "cached ops s' block = Some ref"
proof (cases "\<exists>r. h = Some r \<and> has_block (disk_regions s r) block")
  case True
  then obtain r where r: "h = Some r" "has_block (disk_regions s r) block" by blast
  then show thesis
    using that [of r s] handle_cached [OF assms(1,2) _ r(2)] assms by (simp add: region_for_def same_contents_def)
next
  case False
  obtain ref s' where "get_cache_region ops time s block = Inr (ref, s')" "same_contents ops s s'"
    "cached ops s' block = Some ref" by (rule get_cache_region_ok [OF assms(1,2)])
  then show thesis using that [of ref s'] False by (auto simp: region_for_def split: option.splits)
qed

lemma touch_region:
  assumes "disk_wf ops s"
  shows "same_contents ops s (upd_region ref (\<lambda>r. r\<lparr>reg_last_used := t\<rparr>) s)"
    "block_data (disk_regions (upd_region ref (\<lambda>r. r\<lparr>reg_last_used := t\<rparr>) s) ref) b =
     block_data (disk_regions s ref) b"
proof -
  let ?s = "upd_region ref (\<lambda>r. r\<lparr>reg_last_used := t\<rparr>) s"
  have bd: "block_data (disk_regions ?s r) b = block_data (disk_regions s r) b" for r b
    by (simp add: block_data_def)
  then show "block_data (disk_regions ?s ref) b = block_data (disk_regions s ref) b" .
  have "disk_wf ops ?s" using assms by (auto simp: disk_wf_def region_ok_def)
  moreover have "content ops ?s = content ops s"
    using bd by (auto simp: content_def cached_def fun_eq_iff split: option.splits)
  ultimately show "same_contents ops s ?s" by (simp add: same_contents_def)
qed

lemma read_blocks_loop_ok:
  assumes dev: "disk_device ops" and "disk_wf ops s" "handle_ok s h" "\<forall>i \<in> set is. start + i < 2 ^ 32"
  obtains s' where "read_blocks_loop ops time s h start is =
      Inr (concat (map (\<lambda>i. content ops s (start + i)) is), s')" "same_contents ops s s'"
  using assms(2-)
proof (induction "is" arbitrary: s h thesis)
  case Nil
  then show ?case by (simp add: same_contents_def)
next
  case (Cons i "is")
  obtain ref s1 where s1: "region_for ops time s h (start + i) = Inr (ref, s1)" "same_contents ops s s1"
    "cached ops s1 (start + i) = Some ref" by (rule region_for_ok [OF dev Cons.prems(2,3)])
  let ?s2 = "upd_region ref (\<lambda>r. r\<lparr>reg_last_used := time\<rparr>) s1"
  note t = touch_region [of ops s1 ref time]
  have s2: "same_contents ops s ?s2"
    using s1(2) t(1) same_contents_trans by (auto simp: same_contents_def)
  have "handle_ok ?s2 (Some ref)" using s1(3) by (auto simp: handle_ok_def cached_def)
  then obtain s3 where s3: "read_blocks_loop ops time ?s2 (Some ref) start is =
      Inr (concat (map (\<lambda>i. content ops ?s2 (start + i)) is), s3)" "same_contents ops ?s2 s3"
    using Cons.IH [of ?s2 "Some ref"] s2 Cons.prems(4) by (auto simp: same_contents_def)
  have "block_data (disk_regions ?s2 ref) (start + i) = content ops s (start + i)"
  proof -
    have "content ops s1 (start + i) = block_data (disk_regions s1 ref) (start + i)"
      using s1(3) by (simp add: content_def)
    then show ?thesis using t(2) s1(2) by (simp add: same_contents_def)
  qed
  moreover have "content ops ?s2 = content ops s" using s2 by (simp add: same_contents_def)
  ultimately show ?case
    using Cons.prems(1,4) s1(1) s3 same_contents_trans [OF s2 s3(2)] by (simp add: Let_def)
qed

lemma read_blocks_ok:
  assumes "disk_device ops" "disk_wf ops s" "start + count \<le> 2 ^ 32"
  obtains s' where "read_blocks ops time s start count =
      Inr (concat (map (content ops s) [start..<start + count]), s')" "same_contents ops s s'"
proof -
  have "map (\<lambda>i. content ops s (start + i)) [0..<count] = map (content ops s) [start..<start + count]"
    by (intro nth_equalityI) auto
  then show thesis
    using that read_blocks_loop_ok [OF assms(1,2), of None "[0..<count]" start time] assms(3)
    by (auto simp: read_blocks_def handle_ok_def)
qed

lemma store_block:
  fixes t :: nat
  assumes dev: "disk_device ops" and wf: "disk_wf ops s" and c: "cached ops s b = Some ref"
    and len: "length bytes = block_size ops"
  defines "s' \<equiv> upd_region ref
    (\<lambda>r. set_block_data (r\<lparr>reg_last_used := t, reg_dirty := True\<rparr>) b bytes) s"
  shows "disk_wf ops s'" "content ops s' = (content ops s)(b := bytes)"
proof -
  let ?k = "block_cache_region_start ops b"
  let ?r = "(disk_regions s ref)\<lparr>reg_last_used := t, reg_dirty := True\<rparr>"
  have e: "entries (lmap (disk_cache s)) ?k = Some ref" using c by (simp add: cached_def)
  have r: "region_ok ops s ?k ?r" using disk_wfD(4) [OF wf e] by (simp add: region_ok_def)
  have inj: "k = ?k" if "entries (lmap (disk_cache s)) k = Some ref" for k
    using disk_wfD(4) [OF wf that] disk_wfD(4) [OF wf e] by (simp add: region_ok_def)
  have r': "region_ok ops s' ?k (set_block_data ?r b bytes)"
    using r region_block_length(2) [OF dev r, of b] len
    by (auto simp: region_ok_def set_block_data_def Let_def)
  show "disk_wf ops s'"
  proof (rule disk_wfI)
    fix k ref'
    assume "entries (lmap (disk_cache s')) k = Some ref'"
    then have e': "entries (lmap (disk_cache s)) k = Some ref'" by (simp add: s'_def)
    then show "ref' < disk_next s' \<and> region_ok ops s' k (disk_regions s' ref')"
      using disk_wfD(3,4) [OF wf e'] r' inj by (cases "ref' = ref") (auto simp: s'_def region_ok_def)
  qed (use disk_wfD(1,2) [OF wf] in \<open>simp_all add: s'_def\<close>)
  show "content ops s' = (content ops s)(b := bytes)"
  proof
    fix b'
    have same: "cached ops s' b' = cached ops s b'" by (simp add: cached_def s'_def)
    show "content ops s' b' = ((content ops s)(b := bytes)) b'"
    proof (cases "cached ops s b' = Some ref")
      case True
      then have "block_cache_region_start ops b' = ?k" using inj by (simp add: cached_def)
      then show ?thesis
        using set_block_data_block [OF dev r len, of b b'] True c same
        by (auto simp: content_def s'_def block_data_def)
    next
      case False
      then show ?thesis using same c by (auto simp: content_def s'_def split: option.splits)
    qed
  qed
qed

lemma invalidate_ok:
  assumes "disk_wf ops s"
  obtains q where "invalidate_cache_region s ref = Inr (s\<lparr>disk_dirty := q\<rparr>)" "zq_wf q"
    "set (zq_list (disk_dirty s)) \<subseteq> set (zq_list q)"
proof -
  let ?v = "reg_start (disk_regions s ref)" and ?q = "disk_dirty s"
  have wf: "zq_wf ?q" using disk_wfD(2) [OF assms] .
  obtain b where b: "zq_contains ?q ?v = Some (Inr b)" by (rule zq_contains_ok [OF wf])
  obtain q where q: "zq_push_back ?q ?v = Inr q" "zq_wf q" "zq_list q = zq_list ?q @ [?v]"
    by (rule zq_push_back_ok [OF wf])
  have "s\<lparr>disk_dirty := ?q\<rparr> = s" by simp
  then show thesis
    using that [of q] that [of ?q] b q wf by (cases b) (auto simp: invalidate_cache_region_def)
qed

definition written :: "'d disk_ops \<Rightarrow> 'd disk \<Rightarrow> (nat \<Rightarrow> byte list) \<Rightarrow> 'd disk \<Rightarrow> bool" where
  "written ops s f s' \<longleftrightarrow> disk_wf ops s' \<and> content ops s' = f \<and> disk_dev s' = disk_dev s"

lemma requeue_written:
  assumes "disk_wf ops s" "zq_wf q"
  shows "written ops s (content ops s) (s\<lparr>disk_dirty := q\<rparr>)"
  using assms
  by (auto simp: written_def disk_wf_def region_ok_def content_def cached_def fun_eq_iff split: option.splits)

lemma region_for_write_ok:
  assumes dev: "disk_device ops" and wf: "disk_wf ops s" and h: "handle_ok s h"
  obtains ref s' where "region_for_write ops time s h block = Inr (ref, s')"
      "written ops s (content ops s) s'" "cached ops s' block = Some ref"
proof (cases "\<exists>r. h = Some r \<and> \<not> has_block (disk_regions s r) block")
  case True
  then obtain r where r: "h = Some r" "\<not> has_block (disk_regions s r) block" by blast
  obtain q where q: "invalidate_cache_region s r = Inr (s\<lparr>disk_dirty := q\<rparr>)" "zq_wf q" by (rule invalidate_ok [OF wf])
  note w = requeue_written [OF wf q(2)]
  then have "disk_wf ops (s\<lparr>disk_dirty := q\<rparr>)" by (simp add: written_def)
  then obtain ref s' where "get_cache_region ops time (s\<lparr>disk_dirty := q\<rparr>) block = Inr (ref, s')"
    "same_contents ops (s\<lparr>disk_dirty := q\<rparr>) s'" "cached ops s' block = Some ref"
    by (rule get_cache_region_ok [OF dev])
  then show thesis using that [of ref s'] q(1) r w
    by (simp add: region_for_write_def written_def same_contents_def)
next
  case False
  then have "region_for_write ops time s h block = region_for ops time s h block"
    by (auto simp: region_for_write_def region_for_def split: option.splits)
  moreover obtain ref s' where "region_for ops time s h block = Inr (ref, s')"
    "same_contents ops s s'" "cached ops s' block = Some ref" by (rule region_for_ok [OF dev wf h])
  ultimately show thesis using that [of ref s'] by (simp add: written_def same_contents_def)
qed

text \<open>The contents after the blocks of a buffer are written from \<open>start\<close> on.\<close>

definition store_blocks ::
  "nat \<Rightarrow> nat \<Rightarrow> byte list \<Rightarrow> nat list \<Rightarrow> (nat \<Rightarrow> byte list) \<Rightarrow> nat \<Rightarrow> byte list" where
  "store_blocks bs start buffer is f =
     fold (\<lambda>i g. g(start + i := take bs (drop (i * bs) buffer))) is f"

lemma store_blocks_upto:
  "store_blocks bs start buffer [0..<n] f =
     (\<lambda>b. if start \<le> b \<and> b < start + n then take bs (drop ((b - start) * bs) buffer) else f b)"
  by (induction n) (auto simp: store_blocks_def fun_eq_iff)

lemma write_blocks_loop_ok:
  assumes dev: "disk_device ops" and "disk_wf ops s" "handle_ok s h"
    and "\<forall>i \<in> set is. start + i < 2 ^ 32 \<and> i * block_size ops + block_size ops \<le> length buffer"
  obtains h' s' where "write_blocks_loop ops time s h start buffer is = Inr (h', s')"
      "written ops s (store_blocks (block_size ops) start buffer is (content ops s)) s'"
      "handle_ok s' h'" "is \<noteq> [] \<or> h \<noteq> None \<Longrightarrow> h' \<noteq> None"
  using assms(2-)
proof (induction "is" arbitrary: s h thesis)
  case Nil
  then show ?case by (simp add: written_def store_blocks_def)
next
  case (Cons i "is")
  obtain ref s1 where s1: "region_for_write ops time s h (start + i) = Inr (ref, s1)"
    "written ops s (content ops s) s1" "cached ops s1 (start + i) = Some ref"
    by (rule region_for_write_ok [OF dev Cons.prems(2,3)])
  let ?bytes = "take (block_size ops) (drop (i * block_size ops) buffer)"
  let ?s2 = "upd_region ref
    (\<lambda>r. set_block_data (r\<lparr>reg_last_used := time, reg_dirty := True\<rparr>) (start + i) ?bytes) s1"
  have "length ?bytes = block_size ops" using Cons.prems(4) by (auto simp: min_def)
  moreover have "disk_wf ops s1" using s1(2) by (simp add: written_def)
  ultimately have s2: "disk_wf ops ?s2" "content ops ?s2 = (content ops s)(start + i := ?bytes)"
    using store_block [OF dev _ s1(3), of ?bytes time] s1(2) by (simp_all add: written_def)
  have eq: "write_blocks_loop ops time s h start buffer (i # is) =
      write_blocks_loop ops time ?s2 (Some ref) start buffer is"
    using s1(1) Cons.prems(4) by (simp add: Let_def)
  have h: "handle_ok ?s2 (Some ref)" using s1(3) by (auto simp: handle_ok_def cached_def)
  have rest: "\<forall>j \<in> set is. start + j < 2 ^ 32 \<and> j * block_size ops + block_size ops \<le> length buffer"
    using Cons.prems(4) by simp
  show ?case
  proof (rule Cons.IH [OF _ s2(1) h rest])
    fix h' s'
    assume w: "write_blocks_loop ops time ?s2 (Some ref) start buffer is = Inr (h', s')"
      "written ops ?s2 (store_blocks (block_size ops) start buffer is (content ops ?s2)) s'"
      "handle_ok s' h'" "is \<noteq> [] \<or> Some ref \<noteq> None \<Longrightarrow> h' \<noteq> None"
    show ?thesis
      using Cons.prems(1) [of h' s'] w eq s2(2) s1(2) by (simp add: written_def store_blocks_def)
  qed
qed

lemma write_blocks_ok:
  assumes dev: "disk_device ops" and wf: "disk_wf ops s" and "0 < count" "start + count \<le> 2 ^ 32"
    and len: "length buffer = count * block_size ops"
  obtains s' where "write_blocks ops time s start count buffer = Inr s'"
      "written ops s (store_blocks (block_size ops) start buffer [0..<count] (content ops s)) s'"
      "disk_ready s'"
proof -
  have "Suc i * block_size ops \<le> count * block_size ops" if "i < count" for i
    using that by (intro mult_le_mono1) simp
  then have r: "\<forall>i \<in> set [0..<count]. start + i < 2 ^ 32 \<and> i * block_size ops + block_size ops \<le> length buffer"
    using assms(4) len by (simp add: add.commute)
  have h: "handle_ok s None" by (simp add: handle_ok_def)
  obtain h' s1 where w: "write_blocks_loop ops time s None start buffer [0..<count] = Inr (h', s1)"
    "written ops s (store_blocks (block_size ops) start buffer [0..<count] (content ops s)) s1"
    "handle_ok s1 h'" "h' \<noteq> None"
    by (rule write_blocks_loop_ok [OF dev wf h r, where time = time]) (use assms(3) in auto)
  obtain ref where ref: "h' = Some ref" using w(4) by auto
  have wf1: "disk_wf ops s1" using w(2) by (simp add: written_def)
  obtain q where q: "invalidate_cache_region s1 ref = Inr (s1\<lparr>disk_dirty := q\<rparr>)" "zq_wf q" by (rule invalidate_ok [OF wf1])
  have "written ops s1 (content ops s1) (s1\<lparr>disk_dirty := q, disk_ready := True\<rparr>)"
    using requeue_written [OF wf1 q(2)]
    by (auto simp: written_def disk_wf_def region_ok_def content_def cached_def fun_eq_iff split: option.splits)
  then show thesis
    using that [of "s1\<lparr>disk_dirty := q, disk_ready := True\<rparr>"] q(1) w(1,2) ref
    by (simp add: write_blocks_def written_def)
qed

section \<open>Eviction and writeback\<close>

text \<open>
  Writing a region of the cache to the device changes no contents, and afterwards the device
  holds its blocks.
\<close>

lemma flush_read:
  assumes dev: "disk_device ops" and r: "region_ok ops s k r"
  shows "dev_read ops (dev_write ops d k (num_blocks r) (reg_data r)) b 1 =
    (if block_cache_region_start ops b = k then block_data r b else dev_read ops d b 1)"
proof -
  have "num_blocks r = blocks_per_cache_region ops" by (rule region_ok_blocks(2) [OF dev r])
  moreover from this have "length (reg_data r) = num_blocks r * block_size ops"
    using r disk_deviceD(3) [OF dev] by (simp add: region_ok_def)
  ultimately show ?thesis
    using disk_deviceD(6) [OF dev, of "reg_data r" "num_blocks r" d k b]
      region_ok_blocks(1) [OF dev r, of b] r
    by (auto simp: region_ok_def block_data_def mult.commute)
qed

lemma concat_slices: "concat (map (\<lambda>j. take c (drop (c * j) xs)) [0..<n]) = take (c * n) xs"
proof (induction n)
  case (Suc n)
  have "take (c * Suc n) xs = take (c * n) xs @ take c (drop (c * n) xs)"
    using take_add [of "c * n" c xs] by (simp add: add.commute)
  then show ?case using Suc by simp
qed simp

lemma flush_region:
  assumes dev: "disk_device ops" and r: "region_ok ops s k r" and k': "k' mod blocks_per_cache_region ops = 0"
  shows "dev_read ops (dev_write ops d k (num_blocks r) (reg_data r)) k' (blocks_per_cache_region ops) =
    (if k' = k then reg_data r else dev_read ops d k' (blocks_per_cache_region ops))"
proof -
  let ?n = "blocks_per_cache_region ops"
  let ?d = "dev_write ops d k (num_blocks r) (reg_data r)"
  have start: "block_cache_region_start ops b = k'" if "b \<in> set [k'..<k' + ?n]" for b
    using that region_start_iff [OF disk_deviceD(2) [OF dev] k', of b]
    by (simp add: block_cache_region_start_def)
  have eq: "dev_read ops ?d k' ?n =
      concat (map (\<lambda>b. if k' = k then block_data r b else dev_read ops d b 1) [k'..<k' + ?n])"
    unfolding disk_deviceD(5) [OF dev, of ?d k' ?n] using start flush_read [OF dev r, of d]
    by (intro arg_cong [where f = concat] map_cong) simp_all
  show ?thesis
  proof (cases "k' = k")
    case True
    have "map (block_data r) [k..<k + ?n] =
        map (\<lambda>j. take (block_size ops) (drop (block_size ops * j) (reg_data r))) [0..<?n]"
      using r by (intro nth_equalityI) (simp_all add: block_data_def region_ok_def)
    then show ?thesis
      using eq True concat_slices [of "block_size ops" "reg_data r" ?n] r disk_deviceD(3) [OF dev]
      by (simp add: region_ok_def mult.commute)
  next
    case False
    then show ?thesis unfolding eq using disk_deviceD(5) [OF dev, of d k' ?n] by simp
  qed
qed

lemma flush_ok:
  assumes dev: "disk_device ops" and wf: "disk_wf ops s"
    and e: "entries (lmap (disk_cache s)) k = Some ref"
  defines "r \<equiv> disk_regions s ref"
  defines "s' \<equiv> s\<lparr>disk_dev := dev_write ops (disk_dev s) (reg_start r) (num_blocks r) (reg_data r)\<rparr>"
  shows "disk_wf ops s'" "content ops s' = content ops s"
    "dev_read ops (disk_dev s') k (blocks_per_cache_region ops) = reg_data r"
    "block_cache_region_start ops b = k \<Longrightarrow> dev_read ops (disk_dev s') b 1 = content ops s b"
proof -
  have r: "region_ok ops s k r" using disk_wfD(4) [OF wf e] by (simp add: r_def)
  then have k: "reg_start r = k" "k mod blocks_per_cache_region ops = 0" by (simp_all add: region_ok_def)
  note fr = flush_region [OF dev r, of _ "disk_dev s"]
  show "dev_read ops (disk_dev s') k (blocks_per_cache_region ops) = reg_data r"
    using fr [OF k(2)] k(1) by (simp add: s'_def)
  show "disk_wf ops s'"
  proof (rule disk_wfI)
    fix k' ref'
    assume "entries (lmap (disk_cache s')) k' = Some ref'"
    then have e': "entries (lmap (disk_cache s)) k' = Some ref'" by (simp add: s'_def)
    note old = disk_wfD(3,4) [OF wf e']
    then have "dev_read ops (disk_dev s') k' (blocks_per_cache_region ops) =
        (if k' = k then reg_data r else dev_read ops (disk_dev s) k' (blocks_per_cache_region ops))"
      using fr [of k'] k(1) by (simp add: s'_def region_ok_def)
    moreover have "disk_regions s ref' = r" if "k' = k" using that e e' by (simp add: r_def)
    ultimately show "ref' < disk_next s' \<and> region_ok ops s' k' (disk_regions s' ref')"
      using old by (cases "k' = k") (auto simp: s'_def region_ok_def)
  qed (use disk_wfD(1,2) [OF wf] in \<open>simp_all add: s'_def\<close>)
  have "content ops s' b = content ops s b" for b
  proof (cases "cached ops s b")
    case None
    then have "block_cache_region_start ops b \<noteq> k" using e by (auto simp: cached_def)
    then show ?thesis using None flush_read [OF dev r, of "disk_dev s" b] k(1)
      by (simp add: content_def cached_def s'_def)
  qed (simp add: content_def cached_def s'_def)
  then show "content ops s' = content ops s" by (simp add: fun_eq_iff)
  show "block_cache_region_start ops b = k \<Longrightarrow> dev_read ops (disk_dev s') b 1 = content ops s b"
    using flush_read [OF dev r, of "disk_dev s" b] k(1) e
    by (simp add: s'_def content_def cached_def r_def)
qed

abbreviation disk_entries :: "'d disk \<Rightarrow> (nat \<times> nat) list" where
  "disk_entries s \<equiv> lru_entries (disk_cache s)"

lemma drop_region:
  assumes dev: "disk_device ops" and wf: "disk_wf ops s" and "lru_wf c"
    and e: "entries (lmap (disk_cache s)) k = Some ref"
    and c: "entries (lmap c) = (entries (lmap (disk_cache s)))(k := None)"
    and clean: "dev_read ops (disk_dev s) k (blocks_per_cache_region ops) = reg_data (disk_regions s ref)"
  shows "disk_wf ops (s\<lparr>disk_used := u, disk_cache := c\<rparr>)"
    "content ops (s\<lparr>disk_used := u, disk_cache := c\<rparr>) = content ops s"
proof -
  let ?s = "s\<lparr>disk_used := u, disk_cache := c\<rparr>"
  show "disk_wf ops ?s"
    using assms(3) disk_wfD(2) [OF wf]
  proof (intro disk_wfI)
    fix k' ref'
    assume "entries (lmap (disk_cache ?s)) k' = Some ref'"
    then have "entries (lmap (disk_cache s)) k' = Some ref'" using c by (simp split: if_splits)
    from disk_wfD(3,4) [OF wf this]
    show "ref' < disk_next ?s \<and> region_ok ops ?s k' (disk_regions ?s ref')" by (simp add: region_ok_def)
  qed simp_all
  have r: "region_ok ops s k ((disk_regions s ref)\<lparr>reg_dirty := False\<rparr>)"
    using disk_wfD(4) [OF wf e] clean by (simp add: region_ok_def)
  have "content ops ?s b = content ops s b" for b
  proof (cases "block_cache_region_start ops b = k")
    case True
    then have "content ops ?s b = dev_read ops (disk_dev s) b 1"
      using c by (simp add: content_def cached_def)
    also have "\<dots> = block_data (disk_regions s ref) b"
      using region_clean_block [OF dev r _ True] by (simp add: block_data_def)
    finally show ?thesis using True e by (simp add: content_def cached_def)
  qed (use c in \<open>simp add: content_def cached_def split: option.splits\<close>)
  then show "content ops ?s = content ops s" by (simp add: fun_eq_iff)
qed

lemma evict_ok:
  assumes dev: "disk_device ops" and wf: "disk_wf ops s"
    and ne: "disk_entries s \<noteq> []" "hd (disk_entries s) = (k, ref)"
  obtains s' where "evict ops s ref = Inr s'" "disk_wf ops s'" "content ops s' = content ops s"
    "disk_entries s' = tl (disk_entries s)" "disk_regions s' = disk_regions s"
    "length (reg_data (disk_regions s ref)) = PAGE_SIZE"
proof -
  let ?r = "disk_regions s ref"
  let ?s1 = "if reg_dirty ?r
     then s\<lparr>disk_dev := dev_write ops (disk_dev s) (reg_start ?r) (num_blocks ?r) (reg_data ?r)\<rparr> else s"
  obtain es where "disk_entries s = (k, ref) # es" using ne by (cases "disk_entries s") auto
  then have e: "entries (lmap (disk_cache s)) k = Some ref"
    using lru_entries_map [OF disk_wfD(1) [OF wf]] by simp
  note f = flush_ok [OF dev wf e] and r = disk_wfD(4) [OF wf e]
  have s1: "disk_wf ops ?s1" "content ops ?s1 = content ops s" "disk_cache ?s1 = disk_cache s"
    "disk_regions ?s1 = disk_regions s" "entries (lmap (disk_cache ?s1)) k = Some ref"
    "dev_read ops (disk_dev ?s1) k (blocks_per_cache_region ops) = reg_data (disk_regions ?s1 ref)"
    using wf f e r by (simp_all add: region_ok_def)
  obtain c where c: "lru_prune (disk_cache s) 1 = Inr c" "lru_wf c"
    "entries (lmap c) = (entries (lmap (disk_cache s)))(k := None)" "lru_entries c = tl (disk_entries s)"
    by (rule lru_prune_entries [OF disk_wfD(1) [OF wf] ne])
  let ?s2 = "?s1\<lparr>disk_used := disk_used ?s1 - length (reg_data ?r), disk_cache := c\<rparr>"
  have "disk_wf ops ?s2" "content ops ?s2 = content ops s"
    using drop_region [OF dev s1(1) c(2) s1(5) _ s1(6)] c(3) s1(2,3) by simp_all
  moreover have "evict ops s ref = Inr ?s2" unfolding evict_def Let_def s1(3) c(1) by simp
  moreover have "length (reg_data ?r) = PAGE_SIZE" using r by (simp add: region_ok_def)
  ultimately show thesis using that [of ?s2] c(4) s1(4) by simp
qed

text \<open>What the scan of \<open>free_pages\<close> leaves of a device: only the shape of the tree may differ.\<close>

definition same_disk :: "'d disk_ops \<Rightarrow> 'd disk \<Rightarrow> 'd disk \<Rightarrow> bool" where
  "same_disk ops s s' \<longleftrightarrow> disk_wf ops s' \<and> content ops s' = content ops s \<and>
     disk_entries s' = disk_entries s \<and> disk_regions s' = disk_regions s"

definition candidate :: "nat \<Rightarrow> 'd disk list \<Rightarrow> (nat \<times> nat \<times> nat) option \<Rightarrow> bool" where
  "candidate i ss b \<longleftrightarrow> (case b of None \<Rightarrow> True | Some (j, ref, t) \<Rightarrow>
     i \<le> j \<and> j < i + length ss \<and> disk_entries (ss ! (j - i)) \<noteq> [] \<and>
     snd (hd (disk_entries (ss ! (j - i)))) = ref)"

lemma empty_entries: "disk_wf ops s \<Longrightarrow> vec_empty (lru_list (disk_cache s)) \<longleftrightarrow> disk_entries s = []"
  using vec_empty_iff [of "lru_list (disk_cache s)" "map fst (disk_entries s)"]
  by (simp add: disk_wf_def lru_wf_def lru_of_def)

lemma candidate_Cons: "candidate (Suc i) ss b \<Longrightarrow> candidate i (s # ss) b"
  by (auto simp: candidate_def nth_Cons' split: option.splits)

lemma rename_cache:
  assumes "disk_wf ops s" "lru_wf c" "entries (lmap c) = entries (lmap (disk_cache s))"
    "lru_entries c = disk_entries s"
  shows "same_disk ops s (s\<lparr>disk_cache := c\<rparr>)"
  using assms
  by (auto simp: same_disk_def disk_wf_def region_ok_def content_def cached_def fun_eq_iff split: option.splits)

lemma lru_scan_ok:
  assumes "\<forall>s \<in> set ss. disk_wf ops s"
  obtains b ss' where "lru_scan i ss best = Inr (b, ss')" "list_all2 (same_disk ops) ss ss'"
    "b = best \<or> candidate i ss b" "b = None \<Longrightarrow> best = None \<and> (\<forall>s \<in> set ss. disk_entries s = [])"
  using assms
proof (induction ss arbitrary: i best thesis)
  case (Cons s ss)
  have wf: "disk_wf ops s" and rest: "\<forall>s \<in> set ss. disk_wf ops s" using Cons.prems(2) by auto
  have refl: "same_disk ops s s" using wf by (simp add: same_disk_def)
  show ?case
  proof (cases "disk_entries s = []")
    case True
    obtain b ss' where "lru_scan (Suc i) ss best = Inr (b, ss')" "list_all2 (same_disk ops) ss ss'"
      "b = best \<or> candidate (Suc i) ss b" "b = None \<Longrightarrow> best = None \<and> (\<forall>s \<in> set ss. disk_entries s = [])"
      by (rule Cons.IH [where i = "Suc i" and best = best, OF _ rest]) (rule that)
    then show ?thesis
      using Cons.prems(1) [of b "s # ss'"] True refl candidate_Cons [of i ss b s] empty_entries [OF wf] by auto
  next
    case False
    obtain k ref c where c: "lru_unsafe 0 (disk_cache s) = Inr ((k, ref), c)" "lru_wf c"
      "entries (lmap c) = entries (lmap (disk_cache s))" "lru_entries c = disk_entries s"
      "hd (disk_entries s) = (k, ref)"
      using lru_oldest_entries [OF disk_wfD(1) [OF wf], of 0] False empty_entries [OF wf] by metis
    define best' where "best' = (let time = reg_last_used (disk_regions s ref) in
      case best of None \<Rightarrow> Some (i, ref, time)
      | Some (j, r, t) \<Rightarrow> if time < t then Some (i, ref, time) else best)"
    obtain b ss' where b: "lru_scan (Suc i) ss best' = Inr (b, ss')" "list_all2 (same_disk ops) ss ss'"
      "b = best' \<or> candidate (Suc i) ss b" "b = None \<Longrightarrow> best' = None \<and> (\<forall>s \<in> set ss. disk_entries s = [])"
      by (rule Cons.IH [where i = "Suc i" and best = best', OF _ rest]) (rule that)
    have best': "best' \<noteq> None" "best' = best \<or> candidate i (s # ss) best'"
      using False c(5) by (auto simp: best'_def Let_def candidate_def split: option.splits)
    have eq: "lru_scan i (s # ss) best = Inr (b, s\<lparr>disk_cache := c\<rparr> # ss')"
      using False empty_entries [OF wf] c(1) b(1) by (simp add: best'_def Let_def)
    show ?thesis
    proof (rule Cons.prems(1) [OF eq])
      show "list_all2 (same_disk ops) (s # ss) (s\<lparr>disk_cache := c\<rparr> # ss')"
        using b(2) rename_cache [OF wf c(2,3,4)] by simp
      show "b = best \<or> candidate i (s # ss) b" using b(3) best'(2) candidate_Cons [of i ss b s] by auto
      show "best = None \<and> (\<forall>s \<in> set (s # ss). disk_entries s = [])" if "b = None"
        using b(4) [OF that] best'(1) by simp
    qed
  qed
qed (simp add: candidate_def)

definition regions_cached :: "'d disk list \<Rightarrow> nat" where
  "regions_cached ss = sum_list (map (\<lambda>s. length (disk_entries s)) ss)"

lemma same_disks:
  assumes "list_all2 (same_disk ops) ss ss'"
  shows "map (content ops) ss' = map (content ops) ss" "regions_cached ss' = regions_cached ss"
    "\<forall>s \<in> set ss'. disk_wf ops s" "length ss' = length ss"
    "i < length ss \<Longrightarrow> disk_entries (ss' ! i) = disk_entries (ss ! i)"
    "i < length ss \<Longrightarrow> disk_regions (ss' ! i) = disk_regions (ss ! i)"
  using assms
  by (induction arbitrary: i rule: list_all2_induct)
    (auto simp: same_disk_def regions_cached_def nth_Cons' split: if_splits)

lemma regions_cached_evict:
  assumes "i < length ss" "disk_entries s = tl (disk_entries (ss ! i))" "disk_entries (ss ! i) \<noteq> []"
  shows "Suc (regions_cached (ss[i := s])) = regions_cached ss"
  using assms
proof (induction ss arbitrary: i)
  case (Cons x ss)
  then show ?case by (cases i) (auto simp: regions_cached_def)
qed simp

lemma regions_cached_none: "\<forall>s \<in> set ss. disk_entries s = [] \<Longrightarrow> regions_cached ss = 0"
  by (induction ss) (auto simp: regions_cached_def)

lemma free_pages_loop_ok:
  assumes dev: "disk_device ops" and "\<forall>s \<in> set ss. disk_wf ops s" "num_pages - freed \<le> fuel"
  obtains ss' where "free_pages_loop fuel ops ss num_pages freed =
      Some (Inr (freed + min (num_pages - freed) (regions_cached ss), ss'))"
    "\<forall>s \<in> set ss'. disk_wf ops s" "map (content ops) ss' = map (content ops) ss"
    "regions_cached ss' = regions_cached ss - (num_pages - freed)"
  using assms(2-)
proof (induction fuel arbitrary: ss freed thesis)
  case 0
  then show ?case by (simp add: free_pages_loop.simps)
next
  case (Suc fuel)
  show ?case
  proof (cases "freed < num_pages")
    case False
    then show ?thesis using Suc.prems(1) [of ss] Suc.prems(2) by (simp add: free_pages_loop.simps)
  next
    case True
    obtain b ss1 where b: "lru_scan 0 ss None = Inr (b, ss1)" "list_all2 (same_disk ops) ss ss1"
      "b = None \<or> candidate 0 ss b" "b = None \<Longrightarrow> \<forall>s \<in> set ss. disk_entries s = []"
      by (rule lru_scan_ok [OF Suc.prems(2), of 0 None]) blast
    note sd = same_disks [OF b(2)]
    show ?thesis
    proof (cases b)
      case None
      then show ?thesis
        using Suc.prems(1) [of ss1] True b(1) regions_cached_none [OF b(4)] sd(1-3)
        by (simp add: free_pages_loop.simps)
    next
      case (Some z)
      obtain i ref t where z: "z = (i, ref, t)" by (cases z)
      have i: "i < length ss1" "disk_entries (ss1 ! i) \<noteq> []" "snd (hd (disk_entries (ss1 ! i))) = ref"
        using b(3) Some z sd(4,5) by (simp_all add: candidate_def)
      then have wf: "disk_wf ops (ss1 ! i)" using sd(3) by simp
      obtain s where s: "evict ops (ss1 ! i) ref = Inr s" "disk_wf ops s" "content ops s = content ops (ss1 ! i)"
        "disk_entries s = tl (disk_entries (ss1 ! i))" "disk_regions s = disk_regions (ss1 ! i)"
        "length (reg_data (disk_regions (ss1 ! i) ref)) = PAGE_SIZE"
        by (rule evict_ok [OF dev wf i(2), of "fst (hd (disk_entries (ss1 ! i)))" ref]) (use i(3) in auto)
      let ?ss = "ss1[i := s]"
      have n: "Suc (regions_cached ?ss) = regions_cached ss"
        using regions_cached_evict [OF i(1) s(4) i(2)] sd(2) by simp
      have wfs: "\<forall>s \<in> set ?ss. disk_wf ops s" using sd(3) s(2) set_update_subset_insert by fastforce
      have "map (content ops) ?ss = map (content ops) ss"
        using sd(1) s(3) i(1) by (metis list_update_id map_update nth_map)
      moreover have "num_pages - Suc freed \<le> fuel" using Suc.prems(3) by simp
      then obtain ss' where "free_pages_loop fuel ops ?ss num_pages (Suc freed) =
          Some (Inr (Suc freed + min (num_pages - Suc freed) (regions_cached ?ss), ss'))"
        "\<forall>s \<in> set ss'. disk_wf ops s" "map (content ops) ss' = map (content ops) ?ss"
        "regions_cached ss' = regions_cached ?ss - (num_pages - Suc freed)"
        using Suc.IH [OF _ wfs] by blast
      moreover have "free_pages_loop (Suc fuel) ops ss num_pages freed =
          free_pages_loop fuel ops ?ss num_pages (Suc freed)"
        using True b(1) Some z s(1,5,6) by (simp add: free_pages_loop.simps [of "Suc fuel"] PAGE_SIZE_def)
      moreover have "Suc freed + min (num_pages - Suc freed) (regions_cached ?ss) =
          freed + min (num_pages - freed) (regions_cached ss)" using True n by (auto simp: min_def)
      moreover have "regions_cached ?ss - (num_pages - Suc freed) = regions_cached ss - (num_pages - freed)"
        using True n by linarith
      ultimately show ?thesis using Suc.prems(1) [of ss'] by simp
    qed
  qed
qed

definition on_disk :: "'d disk_ops \<Rightarrow> 'd disk \<Rightarrow> nat \<Rightarrow> bool" where
  "on_disk ops s k \<longleftrightarrow>
     (\<forall>b. block_cache_region_start ops b = k \<longrightarrow> dev_read ops (disk_dev s) b 1 = content ops s b)"

lemma writeback_one:
  assumes dev: "disk_device ops" and wf: "disk_wf ops s" and q: "zq_wf q" and c: "lru_wf c"
    "entries (lmap c) = entries (lmap (disk_cache s))"
    and e: "entries (lmap (disk_cache s)) k = Some ref"
  defines "r \<equiv> disk_regions s ref"
  defines "s1 \<equiv> s\<lparr>disk_dirty := q, disk_cache := c,
    disk_dev := dev_write ops (disk_dev s) (reg_start r) (num_blocks r) (reg_data r)\<rparr>"
  defines "s2 \<equiv> upd_region ref (\<lambda>r. r\<lparr>reg_dirty := False\<rparr>) s1"
  shows "disk_wf ops s2" "content ops s2 = content ops s" "on_disk ops s2 k"
    "on_disk ops s k' \<Longrightarrow> on_disk ops s2 k'"
proof -
  let ?s0 = "s\<lparr>disk_dev := dev_write ops (disk_dev s) (reg_start r) (num_blocks r) (reg_data r)\<rparr>"
  note f = flush_ok [OF dev wf e, folded r_def]
  have r: "region_ok ops s k r" using disk_wfD(4) [OF wf e] by (simp add: r_def)
  have inj: "k' = k" if "entries (lmap (disk_cache s)) k' = Some ref" for k'
    using disk_wfD(4) [OF wf that] disk_wfD(4) [OF wf e] by (simp add: region_ok_def)
  show "disk_wf ops s2"
  proof (rule disk_wfI)
    fix k' ref'
    assume "entries (lmap (disk_cache s2)) k' = Some ref'"
    then have e': "entries (lmap (disk_cache ?s0)) k' = Some ref'" using c(2) by (simp add: s2_def s1_def)
    note old = disk_wfD(3,4) [OF f(1) e']
    show "ref' < disk_next s2 \<and> region_ok ops s2 k' (disk_regions s2 ref')"
    proof (cases "ref' = ref")
      case True
      then have "k' = k" using e' inj by simp
      then show ?thesis using True old f(3) by (simp add: s2_def s1_def region_ok_def r_def)
    next
      case False
      then show ?thesis using old by (simp add: s2_def s1_def region_ok_def)
    qed
  qed (use q c(1) in \<open>simp_all add: s2_def s1_def\<close>)
  have "content ops s2 b = content ops ?s0 b" for b
  proof (cases "cached ops s b")
    case (Some ref')
    then show ?thesis using c(2) by (cases "ref' = ref") (simp_all add: content_def cached_def s2_def s1_def block_data_def)
  qed (use c(2) in \<open>simp add: content_def cached_def s2_def s1_def\<close>)
  then show same: "content ops s2 = content ops s" using f(2) by (simp add: fun_eq_iff)
  show "on_disk ops s2 k" using f(4) same by (simp add: on_disk_def s2_def s1_def)
  show "on_disk ops s k' \<Longrightarrow> on_disk ops s2 k'"
    using flush_read [OF dev r, of "disk_dev s"] f(4) same r
    by (cases "k' = k") (simp_all add: on_disk_def s2_def s1_def region_ok_def)
qed

lemma writeback_loop_ok:
  assumes dev: "disk_device ops" and "disk_wf ops s" "z_size (disk_dirty s) \<le> fuel"
  obtains ok s' where "writeback_loop fuel ops s = Some (Inr (ok, s'))" "disk_wf ops s'"
    "content ops s' = content ops s" "\<And>k. on_disk ops s k \<Longrightarrow> on_disk ops s' k"
    "ok \<longleftrightarrow> (\<forall>k \<in> set (zq_list (disk_dirty s)). entries (lmap (disk_cache s)) k \<noteq> None)"
    "ok \<Longrightarrow> \<forall>k \<in> set (zq_list (disk_dirty s)). on_disk ops s' k"
  using assms(2-)
proof (induction fuel arbitrary: s thesis)
  case 0
  then have "zq_list (disk_dirty s) = []" by (metis le_zero_eq length_0_conv length_zq_list)
  then show ?case using 0 by (simp add: writeback_loop.simps zq_empty_def)
next
  case (Suc fuel)
  have wf: "disk_wf ops s" and wfq: "zq_wf (disk_dirty s)" using Suc.prems(2) disk_wfD(2) by auto
  show ?case
  proof (cases "zq_list (disk_dirty s)")
    case Nil
    then have "z_size (disk_dirty s) = 0" by (metis length_zq_list list.size(3))
    then show ?thesis using Suc.prems(1) [of True s] wf Nil by (simp add: writeback_loop.simps zq_empty_def)
  next
    case (Cons k ks)
    then have sz: "z_size (disk_dirty s) = Suc (length ks)" by (metis length_zq_list length_Cons)
    obtain q where q: "zq_pop_front (disk_dirty s) = Inr (k, q)" "zq_wf q" "zq_list q = ks"
      by (rule zq_pop_front_ok [OF wfq Cons])
    obtain c where c: "lru_get (disk_cache s) k = Inr (entries (lmap (disk_cache s)) k, c)"
      "lru_wf c" "entries (lmap c) = entries (lmap (disk_cache s))"
      by (rule lru_get_entries [OF disk_wfD(1) [OF wf]])
    note unf = writeback_loop.simps [of "Suc fuel" ops s]
    show ?thesis
    proof (cases "entries (lmap (disk_cache s)) k")
      case None
      let ?s = "s\<lparr>disk_dirty := q, disk_cache := c\<rparr>"
      have "disk_wf ops ?s" using wf q(2) c(2,3) by (simp add: disk_wf_def region_ok_def)
      moreover have same: "content ops ?s = content ops s"
        using c(3) by (auto simp: content_def cached_def fun_eq_iff split: option.splits)
      moreover have "on_disk ops ?s k'" if "on_disk ops s k'" for k' using that same by (simp add: on_disk_def)
      moreover have "writeback_loop (Suc fuel) ops s = Some (Inr (False, ?s))"
        using unf q(1) c(1) None sz by (simp add: zq_empty_def)
      ultimately show ?thesis using Suc.prems(1) [of False ?s] Cons None by simp
    next
      case (Some ref)
      let ?r = "disk_regions s ref"
      let ?s1 = "s\<lparr>disk_dirty := q, disk_cache := c,
        disk_dev := dev_write ops (disk_dev s) (reg_start ?r) (num_blocks ?r) (reg_data ?r)\<rparr>"
      let ?s2 = "upd_region ref (\<lambda>r. r\<lparr>reg_dirty := False\<rparr>) ?s1"
      note w = writeback_one [OF dev wf q(2) c(2,3) Some]
      have eq: "writeback_loop (Suc fuel) ops s = writeback_loop fuel ops ?s2"
        using unf q(1) c(1) Some sz by (simp add: zq_empty_def Let_def)
      have sz2: "z_size (disk_dirty ?s2) \<le> fuel"
        using Suc.prems(3) sz q(3) length_zq_list [of q] by simp
      obtain ok s' where "writeback_loop fuel ops ?s2 = Some (Inr (ok, s'))" "disk_wf ops s'"
        "content ops s' = content ops ?s2" "\<And>k. on_disk ops ?s2 k \<Longrightarrow> on_disk ops s' k"
        "ok \<longleftrightarrow> (\<forall>k \<in> set (zq_list (disk_dirty ?s2)). entries (lmap (disk_cache ?s2)) k \<noteq> None)"
        "ok \<Longrightarrow> \<forall>k \<in> set (zq_list (disk_dirty ?s2)). on_disk ops s' k"
        by (rule Suc.IH [OF _ w(1) sz2]) (rule that)
      then show ?thesis
        using Suc.prems(1) [of ok s'] eq w(2-4) q(3) Cons Some c(3) by simp
    qed
  qed
qed

section \<open>Properties\<close>

text \<open>A disk in memory, which has the properties assumed of a device.\<close>

definition ram_disk :: "nat \<Rightarrow> (nat \<Rightarrow> byte) disk_ops" where
  "ram_disk bs = \<lparr>block_size = bs,
     read_uncached = (\<lambda>d b n buf. (None, map d [b * bs..<(b + n) * bs] @ drop (n * bs) buf)),
     write_uncached = (\<lambda>d b n buf. (None, \<lambda>i. if b * bs \<le> i \<and> i < (b + n) * bs then buf ! (i - b * bs) else d i)),
     fresh_page = replicate PAGE_SIZE 0\<rparr>"

lemma ram_disk_sel [simp]:
  "block_size (ram_disk bs) = bs" "fresh_page (ram_disk bs) = replicate PAGE_SIZE 0"
  "dev_read (ram_disk bs) d b n = map d [b * bs..<(b + n) * bs]"
  "dev_write (ram_disk bs) d b n buf i = (if b * bs \<le> i \<and> i < (b + n) * bs then buf ! (i - b * bs) else d i)"
  by (simp_all add: ram_disk_def dev_read_def)

definition blank_disk :: "(nat \<Rightarrow> byte) disk" where
  "blank_disk = disk_new (\<lambda>_. 7)"

lemma ram_disk_device:
  assumes "0 < bs" "bs dvd PAGE_SIZE"
  shows "disk_device (ram_disk bs)"
proof -
  let ?ops = "ram_disk bs"
  have "dev_read ?ops d b n = concat (map (\<lambda>i. dev_read ?ops d i 1) [b..<b + n])" for d b n
  proof (induction n)
    case (Suc n)
    have "[b * bs..<(b + Suc n) * bs] = [b * bs..<(b + n) * bs] @ [(b + n) * bs..<(b + n + 1) * bs]"
      using upt_add_eq_append [of "b * bs" "(b + n) * bs" bs] by (simp add: algebra_simps)
    then show ?case using Suc by (simp add: algebra_simps)
  qed simp
  moreover have "dev_read ?ops (dev_write ?ops d b n buf) i 1 =
      (if b \<le> i \<and> i < b + n then take bs (drop ((i - b) * bs) buf) else dev_read ?ops d i 1)"
    if len: "length buf = n * bs" for d b n buf i
  proof (cases "b \<le> i \<and> i < b + n")
    case True
    then have "(i - b) * bs + bs \<le> n * bs" and le: "b * bs \<le> i * bs"
      using mult_le_mono1 [of "Suc (i - b)" n bs] by (auto simp: add.commute)
    moreover have "i * bs + j - b * bs = (i - b) * bs + j" for j using le by (simp add: diff_mult_distrib)
    moreover have "b * bs \<le> i * bs + j" for j by (rule trans_le_add1 [OF le])
    moreover have "i * bs + bs \<le> (b + n) * bs"
      using True mult_le_mono1 [of "Suc i" "b + n" bs] by (simp add: add.commute)
    ultimately show ?thesis
      using True len by (intro nth_equalityI) auto
  next
    case False
    then have "Suc i * bs \<le> b * bs \<or> (b + n) * bs \<le> i * bs"
      using mult_le_mono1 [of "Suc i" b bs] mult_le_mono1 [of "b + n" i bs] by linarith
    then have "\<not> (b * bs \<le> x \<and> x < (b + n) * bs)" if "i * bs \<le> x" "x < Suc i * bs" for x
      using that by linarith
    then show ?thesis using False by auto
  qed
  moreover have "read_uncached ?ops d b n buf = (None, dev_read ?ops d b n @ drop (n * bs) buf)"
    "fst (write_uncached ?ops d b n buf) = None" for d b n buf
    unfolding ram_disk_sel by (simp_all add: ram_disk_def)
  ultimately show ?thesis
    using assms unfolding disk_device_def ram_disk_sel(1) by (auto simp: length_replicate)
qed

lemma disk_new_wf: "disk_wf ops (disk_new d)" "content ops (disk_new d) b = dev_read ops d b 1"
  using lru_wf_new by (simp_all add: disk_new_def disk_wf_def zq_new_wf content_def cached_def lru_new_def)

lemma blank_disk_wf: "disk_wf ops blank_disk"
  by (simp add: blank_disk_def disk_new_wf)

text \<open>A disk of which one block was written: its region is cached, dirty and queued.\<close>

lemma example_dirty:
  obtains s where "write_blocks (ram_disk 512) 0 blank_disk 3 1 (replicate 512 1) = Inr s" "disk_wf (ram_disk 512) s"
    "content (ram_disk 512) s 3 = replicate 512 1" "zq_list (disk_dirty s) = [0]"
    "entries (lmap (disk_cache s)) 0 = Some 0" "reg_dirty (disk_regions s 0)" "0 < regions_cached [s]"
proof -
  have dev: "disk_device (ram_disk 512)" by (rule ram_disk_device) (simp_all add: PAGE_SIZE_def)
  have len: "length (replicate 512 (1 :: byte)) = 1 * block_size (ram_disk 512)" by simp
  obtain s where s: "write_blocks (ram_disk 512) 0 blank_disk 3 1 (replicate 512 1) = Inr s"
    "written (ram_disk 512) blank_disk (store_blocks (block_size (ram_disk 512)) 3 (replicate 512 1) [0..<1] (content (ram_disk 512) blank_disk)) s"
    by (rule write_blocks_ok [OF dev blank_disk_wf _ _ len, of 3 0]) simp_all
  have wf: "disk_wf (ram_disk 512) s" and c3: "content (ram_disk 512) s 3 = replicate 512 1"
    using s(2) by (simp_all add: written_def store_blocks_def)
  have get: "lru_get lru_new 0 = Inr (None :: nat option, lru_new :: (nat, nat) lru_cache)" by code_simp
  obtain c :: "(nat, nat) lru_cache" where c: "lru_insert lru_new 0 0 = Inr c" "entries (lmap c) = (entries (lmap lru_new))(0 \<mapsto> 0)"
    by (rule lru_insert_entries [OF lru_wf_new])
  have q: "zq_contains zq_new 0 = Some (Inr False)"
    "zq_push_back zq_new 0 = Inr \<lparr>z_storage = [0], z_capacity = 1, z_size = 1, z_front = 0, z_back = 0\<rparr>" by code_simp+
  have run: "disk_cache s = c" "disk_dirty s = \<lparr>z_storage = [0], z_capacity = 1, z_size = 1, z_front = 0, z_back = 0\<rparr>"
    "reg_dirty (disk_regions s 0)"
    using s(1) get c(1) q
    by (auto simp: write_blocks_def region_for_write_def get_cache_region_def block_cache_region_start_def blocks_per_cache_region_def
        PAGE_SIZE_def blank_disk_def disk_new_def Let_def invalidate_cache_region_def set_block_data_def split: prod.splits)
  have e: "entries (lmap (disk_cache s)) 0 = Some 0" using run(1) c(2) by simp
  then have "disk_entries s \<noteq> []" using lru_entries_map [OF disk_wfD(1) [OF wf]] by (metis map_of.simps(1) option.distinct(1))
  then have "0 < regions_cached [s]" by (simp add: regions_cached_def)
  then show thesis using that [OF s(1) wf c3 _ e run(3)] run(2) by (simp add: zq_list_def)
qed

text \<open>
  C9. On a disk below whose transfers succeed, \<open>read_blocks\<close> returns the blocks that the disk has seen through the cache, whether they
  are cached, dirty or still to be read, and changes none of them.
\<close>

theorem disk_read_blocks:
  assumes "disk_device ops" "disk_wf ops s" "start + count \<le> 2 ^ 32"
  shows "\<exists>s'. read_blocks ops time s start count =
      Inr (concat (map (content ops s) [start..<start + count]), s') \<and>
    disk_wf ops s' \<and> content ops s' = content ops s"
  by (rule read_blocks_ok [OF assms]) (auto simp: same_contents_def)

theorem disk_read_blocks_witness:
  "\<exists>s'. read_blocks (ram_disk 512) 0 blank_disk 3 10 =
      Inr (concat (map (content (ram_disk 512) blank_disk) [3..<3 + 10]), s') \<and>
    disk_wf (ram_disk 512) s' \<and> content (ram_disk 512) s' = content (ram_disk 512) blank_disk"
  by (rule disk_read_blocks) (simp_all add: ram_disk_device blank_disk_wf PAGE_SIZE_def)

text \<open>
  C10. \<open>write_blocks\<close> of at least one block, on a disk below that does not fail, returns success and
  replaces exactly the blocks it names, as later reads see them, and touches no other; it wakes the
  writeback.
\<close>

theorem disk_write_blocks:
  assumes "disk_device ops" "disk_wf ops s" "0 < count" "start + count \<le> 2 ^ 32"
    "length buffer = count * block_size ops"
  shows "\<exists>s'. write_blocks ops time s start count buffer = Inr s' \<and> disk_wf ops s' \<and> disk_ready s' \<and>
       content ops s' = (\<lambda>b. if start \<le> b \<and> b < start + count
         then take (block_size ops) (drop ((b - start) * block_size ops) buffer) else content ops s b)"
  by (rule write_blocks_ok [OF assms]) (auto simp: written_def store_blocks_upto)

theorem disk_write_blocks_witness:
  "\<exists>s'. write_blocks (ram_disk 512) 0 blank_disk 3 1 (replicate 512 1) = Inr s' \<and> disk_wf (ram_disk 512) s' \<and>
       content (ram_disk 512) s' 3 = replicate 512 1 \<and> content (ram_disk 512) s' 4 = content (ram_disk 512) blank_disk 4"
proof -
  have "disk_device (ram_disk 512)" by (rule ram_disk_device) (simp_all add: PAGE_SIZE_def)
  from disk_write_blocks [OF this blank_disk_wf, of 1 3 "replicate 512 1" 0] show ?thesis by auto
qed

text \<open>
  C11. \<open>free_pages\<close> over any number of devices whose transfers succeed returns: it frees as many pages as it was asked
  for or, if fewer are cached, all of them, and no device loses contents, since a dirty region is
  written to its disk first.
\<close>

theorem disk_free_pages:
  assumes "disk_device ops" "\<forall>s \<in> set ss. disk_wf ops s"
  shows "\<exists>ss'. free_pages ops ss num_pages = Inr (min num_pages (regions_cached ss), ss') \<and>
    (\<forall>s \<in> set ss'. disk_wf ops s) \<and> map (content ops) ss' = map (content ops) ss \<and>
    regions_cached ss' = regions_cached ss - num_pages"
  by (rule free_pages_loop_ok [OF assms, of num_pages 0 num_pages]) (auto simp: free_pages_def)

theorem disk_free_pages_witness:
  "\<exists>s ss'. write_blocks (ram_disk 512) 0 blank_disk 3 1 (replicate 512 1) = Inr s \<and> reg_dirty (disk_regions s 0) \<and>
    free_pages (ram_disk 512) [s, blank_disk] 1 = Inr (1, ss') \<and>
    map (content (ram_disk 512)) ss' = map (content (ram_disk 512)) [s, blank_disk]"
proof (rule example_dirty)
  fix s
  assume s: "write_blocks (ram_disk 512) 0 blank_disk 3 1 (replicate 512 1) = Inr s" "disk_wf (ram_disk 512) s"
    "reg_dirty (disk_regions s 0)" "0 < regions_cached [s]"
  have dev: "disk_device (ram_disk 512)" by (rule ram_disk_device) (simp_all add: PAGE_SIZE_def)
  have wf: "\<forall>t \<in> set [s, blank_disk]. disk_wf (ram_disk 512) t" using s(2) blank_disk_wf by simp
  have "min 1 (regions_cached [s, blank_disk]) = 1" using s(4) by (cases "disk_entries s") (simp_all add: regions_cached_def)
  then show ?thesis using disk_free_pages [OF dev wf, of 1] s(1,3) by (metis (no_types, lifting))
qed

text \<open>
  C26. The writeback of a device whose transfers succeed changes no contents. It gets through the queue of dirty regions,
  and then every block of them is on the disk, exactly if all of them are still in the cache; if
  one was evicted in between, the task ends and leaves the rest of the queue.
\<close>

theorem disk_writeback:
  assumes "disk_device ops" "disk_wf ops s"
  shows "\<exists>ok s'. writeback ops s = Inr (ok, s') \<and> disk_wf ops s' \<and> content ops s' = content ops s \<and>
    ok = (\<forall>k \<in> set (zq_list (disk_dirty s)). entries (lmap (disk_cache s)) k \<noteq> None) \<and>
    (ok \<longrightarrow> (\<forall>k \<in> set (zq_list (disk_dirty s)). on_disk ops s' k))"
  by (rule writeback_loop_ok [OF assms order.refl]) (auto simp: writeback_def)

theorem disk_writeback_witness:
  "\<exists>s s'. write_blocks (ram_disk 512) 0 blank_disk 3 1 (replicate 512 1) = Inr s \<and> zq_list (disk_dirty s) = [0] \<and>
    writeback (ram_disk 512) s = Inr (True, s') \<and> dev_read (ram_disk 512) (disk_dev s') 3 1 = replicate 512 1"
proof (rule example_dirty)
  fix s
  assume s: "write_blocks (ram_disk 512) 0 blank_disk 3 1 (replicate 512 1) = Inr s" "disk_wf (ram_disk 512) s"
    "content (ram_disk 512) s 3 = replicate 512 1" "zq_list (disk_dirty s) = [0]" "entries (lmap (disk_cache s)) 0 = Some 0"
  have dev: "disk_device (ram_disk 512)" by (rule ram_disk_device) (simp_all add: PAGE_SIZE_def)
  obtain s' where s': "writeback (ram_disk 512) s = Inr (True, s')" "content (ram_disk 512) s' = content (ram_disk 512) s"
    "on_disk (ram_disk 512) s' 0"
    using disk_writeback [OF dev s(2)] s(4,5) by auto
  have "block_cache_region_start (ram_disk 512) 3 = 0"
    by (simp add: block_cache_region_start_def blocks_per_cache_region_def PAGE_SIZE_def)
  then have "dev_read (ram_disk 512) (disk_dev s') 3 1 = replicate 512 1"
    using s'(2,3) s(3) unfolding on_disk_def by metis
  then show ?thesis using s(1,4) s'(1) by blast
qed

end
