(* ===== verification/PataDevice.thy ===== *)
theory PataDevice
  imports DiskCache
begin

text \<open>
  Byte access to a disk: \<open>PATADevice::read\<close> and \<open>write\<close>
  (\<open>src/kernel/arch/i386/device/PATADevice.cpp\<close>) cut a range of bytes into blocks, which they
  read and write through the block cache, and \<open>PartitionDevice\<close>
  (\<open>src/kernel/device/PartitionDevice.cpp\<close>) moves the range to the place of a partition. The
  transfers between the controller and memory are the parameters of the block cache. Sums of
  \<open>size_t\<close> and \<open>uint32_t\<close> wrap at \<open>2 ^ 32\<close> where they can exceed it. The number of bytes read is
  given as a number; the \<open>ssize_t\<close> that carries it is negative from \<open>2 ^ 31\<close> on.
\<close>

section \<open>Operations\<close>

text \<open>\<open>SafePointer::write(source, offset, count)\<close> on the caller's buffer.\<close>

definition put_at :: "'a list \<Rightarrow> nat \<Rightarrow> 'a list \<Rightarrow> 'a list" where
  "put_at buf off xs = take off buf @ xs @ drop (off + length xs) buf"

partial_function (option) pata_read_loop ::
  "'d disk_ops \<Rightarrow> nat \<Rightarrow> nat \<Rightarrow> nat \<Rightarrow> nat \<Rightarrow> nat \<Rightarrow> 'd disk \<Rightarrow> nat \<Rightarrow> nat \<Rightarrow> nat \<Rightarrow> byte list
    \<Rightarrow> (nat \<times> byte list \<times> 'd disk) result option" where
  "pata_read_loop ops time max_block first_block first_block_start count s block bytes_left nread buffer =
     (if bytes_left = 0 \<or> block > max_block then Some (Inr (nread, buffer, s))
      else case read_blocks ops time s block 1 of
        Inl e \<Rightarrow> Some (Inl e)
      | Inr (block_buf, s1) \<Rightarrow>
          let avail = block_size ops - first_block_start in
          if block = first_block then
            if count < avail then
              pata_read_loop ops time max_block first_block first_block_start count s1 (block + 1)
                0 (nread + count) (put_at buffer 0 (take count (drop first_block_start block_buf)))
            else
              pata_read_loop ops time max_block first_block first_block_start count s1 (block + 1)
                (bytes_left - avail) (nread + avail)
                (put_at buffer 0 (take avail (drop first_block_start block_buf)))
          else if bytes_left < block_size ops then
            pata_read_loop ops time max_block first_block first_block_start count s1 (block + 1)
              0 (nread + bytes_left) (put_at buffer (count - bytes_left) (take bytes_left block_buf))
          else
            pata_read_loop ops time max_block first_block first_block_start count s1 (block + 1)
              (bytes_left - block_size ops) (nread + block_size ops)
              (put_at buffer (count - bytes_left) (take (block_size ops) block_buf)))"

definition pata_read ::
  "'d disk_ops \<Rightarrow> nat \<Rightarrow> nat \<Rightarrow> 'd disk \<Rightarrow> nat \<Rightarrow> byte list \<Rightarrow> nat
    \<Rightarrow> (nat \<times> byte list \<times> 'd disk) result" where
  "pata_read ops time max_block s offset buffer count =
     returned (pata_read_loop ops time max_block (offset div block_size ops) (offset mod block_size ops)
       count s (offset div block_size ops) count 0 buffer)"

partial_function (option) pata_write_loop ::
  "'d disk_ops \<Rightarrow> nat \<Rightarrow> nat \<Rightarrow> nat \<Rightarrow> nat \<Rightarrow> byte list \<Rightarrow> 'd disk \<Rightarrow> nat \<Rightarrow> nat \<Rightarrow> 'd disk result option" where
  "pata_write_loop ops time first_block first_block_start count buffer s block bytes_left =
     (if bytes_left = 0 then Some (Inr s)
      else case read_blocks ops time s block 1 of
        Inl e \<Rightarrow> Some (Inl e)
      | Inr (block_buf, s1) \<Rightarrow>
          let avail = block_size ops - first_block_start;
              (new_buf, left) =
                (if block = first_block then
                   if count < avail then (put_at block_buf first_block_start (take count buffer), 0)
                   else (put_at block_buf first_block_start (take avail buffer), bytes_left - avail)
                 else if bytes_left < block_size ops then
                   (put_at block_buf 0 (take bytes_left (drop (count - bytes_left) buffer)), 0)
                 else
                   (put_at block_buf 0 (take (block_size ops) (drop (count - bytes_left) buffer)),
                    bytes_left - block_size ops))
          in case write_blocks ops time s1 block 1 new_buf of
               Inl e \<Rightarrow> Some (Inl e)
             | Inr s2 \<Rightarrow>
                 pata_write_loop ops time first_block first_block_start count buffer s2 (block + 1) left)"

definition pata_write ::
  "'d disk_ops \<Rightarrow> nat \<Rightarrow> nat \<Rightarrow> 'd disk \<Rightarrow> nat \<Rightarrow> byte list \<Rightarrow> nat \<Rightarrow> (nat \<times> 'd disk) result" where
  "pata_write ops time max_block s offset buffer count =
     (if (offset + count) mod 2 ^ 32 div block_size ops > max_block then Inl (Err ENOSPC)
      else rbind (returned (pata_write_loop ops time (offset div block_size ops)
             (offset mod block_size ops) count buffer s (offset div block_size ops) count))
             (\<lambda>s'. Inr (count, s')))"

section \<open>Partitions\<close>

record partition_device =
  part_offset :: nat

definition partition_new :: "'d disk_ops \<Rightarrow> nat \<Rightarrow> partition_device" where
  "partition_new ops offset_blocks = \<lparr>part_offset = (offset_blocks * block_size ops) mod 2 ^ 32\<rparr>"

definition partition_read ::
  "'d disk_ops \<Rightarrow> nat \<Rightarrow> nat \<Rightarrow> partition_device \<Rightarrow> 'd disk \<Rightarrow> nat \<Rightarrow> byte list \<Rightarrow> nat
    \<Rightarrow> (nat \<times> byte list \<times> 'd disk) result" where
  "partition_read ops time max_block p s start buffer count =
     pata_read ops time max_block s ((start + part_offset p) mod 2 ^ 32) buffer count"

definition partition_write ::
  "'d disk_ops \<Rightarrow> nat \<Rightarrow> nat \<Rightarrow> partition_device \<Rightarrow> 'd disk \<Rightarrow> nat \<Rightarrow> byte list \<Rightarrow> nat \<Rightarrow> (nat \<times> 'd disk) result" where
  "partition_write ops time max_block p s start buffer count =
     pata_write ops time max_block s ((start + part_offset p) mod 2 ^ 32) buffer count"

definition partition_read_blocks ::
  "'d disk_ops \<Rightarrow> nat \<Rightarrow> partition_device \<Rightarrow> 'd disk \<Rightarrow> nat \<Rightarrow> nat \<Rightarrow> (byte list \<times> 'd disk) result" where
  "partition_read_blocks ops time p s block count = read_blocks ops time s ((block + part_offset p) mod 2 ^ 32) count"

definition partition_write_blocks ::
  "'d disk_ops \<Rightarrow> nat \<Rightarrow> partition_device \<Rightarrow> 'd disk \<Rightarrow> nat \<Rightarrow> nat \<Rightarrow> byte list \<Rightarrow> 'd disk result" where
  "partition_write_blocks ops time p s block count buffer =
     write_blocks ops time s ((block + part_offset p) mod 2 ^ 32) count buffer"

section \<open>The bytes of a disk\<close>

definition disk_byte :: "'d disk_ops \<Rightarrow> 'd disk \<Rightarrow> nat \<Rightarrow> byte" where
  "disk_byte ops s p = content ops s (p div block_size ops) ! (p mod block_size ops)"

lemma content_length:
  assumes "disk_device ops" "disk_wf ops s"
  shows "length (content ops s b) = block_size ops"
proof (cases "cached ops s b")
  case None
  then show ?thesis using disk_deviceD(4) [OF assms(1)] by (simp add: content_def)
next
  case (Some ref)
  then show ?thesis
    using region_block_length(1) [OF assms(1) disk_wfD(4) [OF assms(2)], of _ ref b]
    by (simp add: content_def cached_def)
qed

lemma block_bytes:
  assumes "disk_device ops" "disk_wf ops s" "off + m \<le> block_size ops"
  shows "take m (drop off (content ops s b)) =
    map (disk_byte ops s) [b * block_size ops + off..<b * block_size ops + off + m]"
proof (rule nth_equalityI)
  fix i
  assume "i < length (take m (drop off (content ops s b)))"
  then have i: "i < m" by simp
  have "(b * block_size ops + off + i) div block_size ops = b"
    "(b * block_size ops + off + i) mod block_size ops = off + i"
    using i assms(3) disk_deviceD(1) [OF assms(1)]
    by (simp_all add: add.assoc)
  then show "take m (drop off (content ops s b)) ! i =
      map (disk_byte ops s) [b * block_size ops + off..<b * block_size ops + off + m] ! i"
    using i assms(3) content_length [OF assms(1,2), of b] by (simp add: disk_byte_def add.assoc)
qed (use content_length [OF assms(1,2), of b] assms(3) in simp)

lemma read_one_block:
  assumes "disk_device ops" "disk_wf ops s" "block < 2 ^ 32"
  obtains s' where "read_blocks ops time s block 1 = Inr (content ops s block, s')" "same_contents ops s s'"
  by (rule read_blocks_ok [OF assms(1,2), of block 1 time]) (use assms(3) in auto)

lemma put_at_put_at:
  assumes "off + length xs \<le> length buf"
  shows "put_at (put_at buf off xs) (off + length xs) ys = put_at buf off (xs @ ys)"
  using assms by (simp add: put_at_def) (simp add: ac_simps)

lemma put_at_Nil [simp]: "put_at buf off [] = buf"
  by (simp add: put_at_def)

lemma length_put_at [simp]: "off + length xs \<le> length buf \<Longrightarrow> length (put_at buf off xs) = length buf"
  by (simp add: put_at_def)

lemma disk_byte_same: "same_contents ops s s' \<Longrightarrow> disk_byte ops s' = disk_byte ops s"
  by (simp add: same_contents_def disk_byte_def fun_eq_iff)

lemma map_upt_append: "map f [a..<a + m] @ map f [a + m..<a + m + n] = map f [a..<a + (m + n)]"
  by (metis add.assoc le_add1 map_append upt_add_eq_append)

text \<open>From a block boundary behind the first block on.\<close>

lemma pata_read_tail:
  assumes dev: "disk_device ops" and max: "max_block < 2 ^ 32"
    and "disk_wf ops s" "first_block < block" "n \<le> count" "count \<le> length buffer"
  obtains s' where "pata_read_loop ops time max_block first_block fbs count s block n nread buffer =
      Some (Inr (nread + min n (Suc max_block * block_size ops - block * block_size ops),
        put_at buffer (count - n) (map (disk_byte ops s) [block * block_size ops..<
          block * block_size ops + min n (Suc max_block * block_size ops - block * block_size ops)]), s'))"
    "same_contents ops s s'"
  using assms(3-)
proof (induction n arbitrary: s block nread buffer thesis rule: less_induct)
  case (less n)
  let ?bs = "block_size ops"
  note unf = pata_read_loop.simps [of ops time max_block first_block fbs count s block n nread buffer]
  have bs: "0 < ?bs" using disk_deviceD(1) [OF dev] .
  show ?case
  proof (cases "n = 0 \<or> block > max_block")
    case True
    then have "min n (Suc max_block * ?bs - block * ?bs) = 0"
      using mult_le_mono1 [of "Suc max_block" block ?bs] by auto
    then show ?thesis
      by (intro less.prems(1) [of s]) (use less.prems(2) True unf in \<open>simp_all add: same_contents_def\<close>)
  next
    case False
    obtain s1 where s1: "read_blocks ops time s block 1 = Inr (content ops s block, s1)" "same_contents ops s s1"
      by (rule read_one_block [OF dev less.prems(2), of block]) (use False max in simp_all)
    have lim: "Suc max_block * ?bs - block * ?bs = ?bs + (Suc max_block * ?bs - Suc block * ?bs)"
      using False mult_le_mono1 [of "Suc block" "Suc max_block" ?bs] by simp
    define m where "m = min n ?bs"
    let ?buf = "put_at buffer (count - n) (take m (content ops s block))"
    have step: "pata_read_loop ops time max_block first_block fbs count s block n nread buffer =
        pata_read_loop ops time max_block first_block fbs count s1 (Suc block) (n - m) (nread + m) ?buf"
      unfolding unf using False s1(1) less.prems(3) by (cases "n < ?bs") (simp_all add: m_def min_def Let_def)
    have c: "n - m < n" "disk_wf ops s1" "first_block < Suc block" "n - m \<le> count" "count \<le> length ?buf"
      using False bs less.prems(2-) s1(2) content_length [OF dev less.prems(2), of block]
      by (auto simp: m_def same_contents_def min_def)
    obtain s' where s': "pata_read_loop ops time max_block first_block fbs count s1 (Suc block) (n - m) (nread + m) ?buf =
        Some (Inr (nread + m + min (n - m) (Suc max_block * ?bs - Suc block * ?bs),
          put_at ?buf (count - (n - m)) (map (disk_byte ops s1) [Suc block * ?bs..<
            Suc block * ?bs + min (n - m) (Suc max_block * ?bs - Suc block * ?bs)]), s'))"
      "same_contents ops s1 s'"
      by (rule less.IH [of "n - m" s1 "Suc block" "nread + m" ?buf, OF c(1) _ c(2-)]) (rule that)
    have len: "length (take m (content ops s block)) = m"
      using content_length [OF dev less.prems(2), of block] by (simp add: m_def)
    have "m \<le> n" by (simp add: m_def)
    then have off: "count - (n - m) = count - n + m" using less.prems(4) by simp
    define k where "k = min (n - m) (Suc max_block * ?bs - Suc block * ?bs)"
    have mk: "m + k = min n (Suc max_block * ?bs - block * ?bs)"
      using lim by (auto simp: m_def k_def min_def)
    have tk: "take m (content ops s block) = map (disk_byte ops s) [block * ?bs..<block * ?bs + m]"
      using block_bytes [OF dev less.prems(2), of 0 m block] by (simp add: m_def)
    have "Suc block * ?bs = block * ?bs + m \<or> k = 0" by (auto simp: m_def k_def min_def)
    then have app: "take m (content ops s block) @ map (disk_byte ops s) [Suc block * ?bs..<Suc block * ?bs + k] =
        map (disk_byte ops s) [block * ?bs..<block * ?bs + (m + k)]"
    proof
      assume e: "Suc block * ?bs = block * ?bs + m"
      show ?thesis unfolding tk e by (rule map_upt_append)
    qed (simp add: tk)
    have put: "put_at ?buf (count - (n - m)) ys = put_at buffer (count - n) (take m (content ops s block) @ ys)" for ys
      using put_at_put_at [of "count - n" "take m (content ops s block)" buffer ys] \<open>m \<le> n\<close> less.prems(4,5)
      unfolding off len by simp
    show ?thesis
    proof (rule less.prems(1))
      show "same_contents ops s s'" by (rule same_contents_trans [OF s1(2) s'(2)])
    qed (simp only: step s'(1) k_def [symmetric] put disk_byte_same [OF s1(2)] app mk [symmetric] add.assoc)
  qed
qed

lemma pata_read_ok:
  fixes offset :: nat
  assumes dev: "disk_device ops" and max: "max_block < 2 ^ 32" and wf: "disk_wf ops s"
    and len: "count \<le> length buffer"
  defines "m \<equiv> min count (Suc max_block * block_size ops - offset)"
  obtains s' where "pata_read ops time max_block s offset buffer count =
      Inr (m, put_at buffer 0 (map (disk_byte ops s) [offset..<offset + m]), s')" "same_contents ops s s'"
proof -
  let ?bs = "block_size ops"
  define first fbs where "first = offset div ?bs" and "fbs = offset mod ?bs"
  have bs: "0 < ?bs" using disk_deviceD(1) [OF dev] .
  have off: "offset = first * ?bs + fbs" "fbs < ?bs" using bs by (simp_all add: first_def fbs_def)
  note unf = pata_read_loop.simps [of ops time max_block first fbs count s first count 0 buffer]
  show thesis
  proof (cases "count = 0 \<or> first > max_block")
    case True
    then have "m = 0"
      using off mult_le_mono1 [of "Suc max_block" first ?bs] by (auto simp: m_def)
    then show thesis
      by (intro that [of s]) (use wf True unf in \<open>simp_all add: pata_read_def first_def fbs_def same_contents_def\<close>)
  next
    case False
    obtain s1 where s1: "read_blocks ops time s first 1 = Inr (content ops s first, s1)" "same_contents ops s s1"
      by (rule read_one_block [OF dev wf, of first]) (use False max in simp_all)
    define m1 k where "m1 = min count (?bs - fbs)"
      and "k = min (count - m1) (Suc max_block * ?bs - Suc first * ?bs)"
    let ?piece = "take m1 (drop fbs (content ops s first))"
    have piece: "?piece = map (disk_byte ops s) [offset..<offset + m1]" "length ?piece = m1"
      using block_bytes [OF dev wf, of fbs m1 first] off content_length [OF dev wf, of first]
      by (simp_all add: m1_def)
    have step: "pata_read_loop ops time max_block first fbs count s first count 0 buffer =
        pata_read_loop ops time max_block first fbs count s1 (Suc first) (count - m1) m1 (put_at buffer 0 ?piece)"
      unfolding unf using False s1(1) by (cases "count < ?bs - fbs") (simp_all add: m1_def min_def Let_def)
    have c: "disk_wf ops s1" "first < Suc first" "count - m1 \<le> count" "count \<le> length (put_at buffer 0 ?piece)"
      using s1(2) piece(2) len by (auto simp: same_contents_def m1_def)
    obtain s' where s': "pata_read_loop ops time max_block first fbs count s1 (Suc first) (count - m1) m1 (put_at buffer 0 ?piece) =
        Some (Inr (m1 + k, put_at (put_at buffer 0 ?piece) (count - (count - m1))
          (map (disk_byte ops s1) [Suc first * ?bs..<Suc first * ?bs + k]), s'))" "same_contents ops s1 s'"
      by (rule pata_read_tail [where time = time and fbs = fbs and nread = m1, OF dev max c, folded k_def])
        (rule that)
    have lim: "Suc max_block * ?bs - offset = (?bs - fbs) + (Suc max_block * ?bs - Suc first * ?bs)"
      using False off mult_le_mono1 [of "Suc first" "Suc max_block" ?bs] by simp
    then have mk: "m1 + k = m" by (auto simp: m_def m1_def k_def min_def)
    have "Suc first * ?bs = offset + m1 \<or> k = 0" using off by (auto simp: m1_def k_def min_def)
    then have app: "?piece @ map (disk_byte ops s) [Suc first * ?bs..<Suc first * ?bs + k] =
        map (disk_byte ops s) [offset..<offset + (m1 + k)]"
    proof
      assume e: "Suc first * ?bs = offset + m1"
      show ?thesis unfolding piece(1) e by (rule map_upt_append)
    qed (simp add: piece(1))
    have "count - (count - m1) = 0 + length ?piece" using piece(2) by (simp add: m1_def)
    then have put: "put_at (put_at buffer 0 ?piece) (count - (count - m1)) ys = put_at buffer 0 (?piece @ ys)" for ys
      using put_at_put_at [of 0 ?piece buffer ys] piece(2) len by (simp add: m1_def)
    show thesis
    proof (rule that)
      show "same_contents ops s s'" by (rule same_contents_trans [OF s1(2) s'(2)])
      have "pata_read_loop ops time max_block first fbs count s first count 0 buffer =
          Some (Inr (m, put_at buffer 0 (map (disk_byte ops s) [offset..<offset + m]), s'))"
        by (simp only: step s'(1) put disk_byte_same [OF s1(2)] app mk)
      then show "pata_read ops time max_block s offset buffer count =
          Inr (m, put_at buffer 0 (map (disk_byte ops s) [offset..<offset + m]), s')"
        by (simp add: pata_read_def first_def fbs_def)
    qed
  qed
qed

section \<open>Writing bytes\<close>

definition byte_patch :: "(nat \<Rightarrow> 'a) \<Rightarrow> nat \<Rightarrow> 'a list \<Rightarrow> nat \<Rightarrow> 'a" where
  "byte_patch f a xs p = (if a \<le> p \<and> p < a + length xs then xs ! (p - a) else f p)"

lemma byte_patch_append: "byte_patch (byte_patch f a xs) (a + length xs) ys = byte_patch f a (xs @ ys)"
  by (auto simp: byte_patch_def fun_eq_iff nth_append diff_diff_add)

lemma byte_patch_Nil [simp]: "byte_patch f a [] = f"
  by (auto simp: byte_patch_def fun_eq_iff)

lemma put_at_nth:
  "off + length xs \<le> length buf \<Longrightarrow> i < length buf \<Longrightarrow>
   put_at buf off xs ! i = (if off \<le> i \<and> i < off + length xs then xs ! (i - off) else buf ! i)"
  by (auto simp: put_at_def nth_append)

lemma write_one_block:
  assumes "disk_device ops" "disk_wf ops s" "block < 2 ^ 32" "length buf = block_size ops"
  obtains s' where "write_blocks ops time s block 1 buf = Inr s'" "disk_wf ops s'"
      "content ops s' = (content ops s)(block := buf)"
  by (rule write_blocks_ok [OF assms(1,2), of 1 block buf time])
    (use assms(3,4) in \<open>auto simp: written_def store_blocks_def\<close>)

lemma patched_block:
  assumes dev: "disk_device ops" and wf: "disk_wf ops s" and len: "off + length xs \<le> block_size ops"
    and c: "content ops s' = (content ops s)(b := put_at (content ops s b) off xs)"
  shows "disk_byte ops s' = byte_patch (disk_byte ops s) (b * block_size ops + off) xs"
proof
  fix p
  let ?bs = "block_size ops"
  have bs: "0 < ?bs" using disk_deviceD(1) [OF dev] .
  show "disk_byte ops s' p = byte_patch (disk_byte ops s) (b * ?bs + off) xs p"
  proof (cases "p div ?bs = b")
    case True
    then have p: "p = b * ?bs + p mod ?bs" using div_mult_mod_eq [of p ?bs] by simp
    have "b * ?bs + off \<le> p \<and> p < b * ?bs + off + length xs \<longleftrightarrow>
        off \<le> p mod ?bs \<and> p mod ?bs < off + length xs" "p - (b * ?bs + off) = p mod ?bs - off"
      using p by linarith+
    then show ?thesis
      using True c put_at_nth [of off xs "content ops s b" "p mod ?bs"] len bs content_length [OF dev wf, of b]
      by (simp add: disk_byte_def byte_patch_def)
  next
    case False
    have "\<not> (b * ?bs + off \<le> p \<and> p < b * ?bs + off + length xs)"
    proof
      assume "b * ?bs + off \<le> p \<and> p < b * ?bs + off + length xs"
      then have "p div ?bs = b" using len by (intro div_nat_eqI) (auto simp: algebra_simps)
      then show False using False by simp
    qed
    then show ?thesis using False c by (auto simp: disk_byte_def byte_patch_def)
  qed
qed

lemma read_patch_write:
  assumes dev: "disk_device ops" and wf: "disk_wf ops s" and b: "block < 2 ^ 32"
    and len: "off + length xs \<le> block_size ops"
  obtains s1 s2 where "read_blocks ops time s block 1 = Inr (content ops s block, s1)"
    "write_blocks ops time s1 block 1 (put_at (content ops s block) off xs) = Inr s2"
    "disk_wf ops s2" "disk_byte ops s2 = byte_patch (disk_byte ops s) (block * block_size ops + off) xs"
proof -
  obtain s1 where s1: "read_blocks ops time s block 1 = Inr (content ops s block, s1)" "same_contents ops s s1"
    by (rule read_one_block [OF dev wf b])
  then have same: "disk_wf ops s1" "content ops s1 = content ops s" by (simp_all add: same_contents_def)
  have l: "length (put_at (content ops s block) off xs) = block_size ops"
    using len content_length [OF dev wf, of block] by simp
  obtain s2 where "write_blocks ops time s1 block 1 (put_at (content ops s block) off xs) = Inr s2" "disk_wf ops s2"
    "content ops s2 = (content ops s1)(block := put_at (content ops s block) off xs)"
    by (rule write_one_block [OF dev same(1) b l, of time])
  then show thesis using that [OF s1(1)] same(2) patched_block [OF dev wf len] by simp
qed

lemma pata_write_tail:
  assumes dev: "disk_device ops" and "disk_wf ops s" "first_block < block" "n \<le> count"
    "count \<le> length buffer" "block * block_size ops + n \<le> 2 ^ 32 * block_size ops"
  obtains s' where "pata_write_loop ops time first_block fbs count buffer s block n = Some (Inr s')" "disk_wf ops s'"
    "disk_byte ops s' = byte_patch (disk_byte ops s) (block * block_size ops) (take n (drop (count - n) buffer))"
  using assms(2-)
proof (induction n arbitrary: s block thesis rule: less_induct)
  case (less n)
  let ?bs = "block_size ops"
  note unf = pata_write_loop.simps [of ops time first_block fbs count buffer s block n]
  have bs: "0 < ?bs" using disk_deviceD(1) [OF dev] .
  show ?case
  proof (cases "n = 0")
    case True
    show ?thesis by (rule less.prems(1) [of s]) (use less.prems(2) True unf in simp_all)
  next
    case False
    define m where "m = min n ?bs"
    have mm: "m = (if n < ?bs then n else ?bs)" by (simp add: m_def)
    let ?xs = "take m (drop (count - n) buffer)"
    have "block * ?bs < 2 ^ 32 * ?bs" using False less.prems(6) by linarith
    then have b: "block < 2 ^ 32" by (simp only: mult_less_cancel2)
    have m: "length ?xs = m" "m \<le> n" "m \<le> ?bs" "0 < m"
      using less.prems(4,5) False bs by (simp_all add: m_def)
    then have len: "0 + length ?xs \<le> ?bs" by simp
    obtain s1 s2 where 2: "read_blocks ops time s block 1 = Inr (content ops s block, s1)"
      "write_blocks ops time s1 block 1 (put_at (content ops s block) 0 ?xs) = Inr s2"
      "disk_wf ops s2" "disk_byte ops s2 = byte_patch (disk_byte ops s) (block * ?bs + 0) ?xs"
      by (rule read_patch_write [OF dev less.prems(2) b len, of time])
    have step: "pata_write_loop ops time first_block fbs count buffer s block n =
        pata_write_loop ops time first_block fbs count buffer s2 (Suc block) (n - m)"
      unfolding unf using False less.prems(3) 2(1,2) by (cases "n < ?bs") (simp_all add: mm Let_def)
    have c: "n - m < n" "first_block < Suc block" "n - m \<le> count" using m less.prems(3,4) by auto
    have "Suc block * ?bs \<le> 2 ^ 32 * ?bs" using b by (intro mult_le_mono1) simp
    then have c': "Suc block * ?bs + (n - m) \<le> 2 ^ 32 * ?bs"
      using less.prems(6) by (auto simp: m_def min_def)
    have app: "take n (drop (count - n) buffer) = ?xs @ take (n - m) (drop (count - (n - m)) buffer)"
      using take_add [of m "n - m" "drop (count - n) buffer"] m(2) less.prems(4) by (simp add: add.commute)
    have e: "Suc block * ?bs = block * ?bs + length ?xs \<or> n - m = 0"
      unfolding m(1) by (auto simp: m_def min_def)
    show ?thesis
    proof (rule less.IH [of "n - m" s2 "Suc block", OF c(1) _ 2(3) c(2,3) less.prems(5) c'])
      fix s'
      assume s': "pata_write_loop ops time first_block fbs count buffer s2 (Suc block) (n - m) = Some (Inr s')"
        "disk_wf ops s'" "disk_byte ops s' = byte_patch (disk_byte ops s2) (Suc block * ?bs)
          (take (n - m) (drop (count - (n - m)) buffer))"
      have "disk_byte ops s' = byte_patch (disk_byte ops s) (block * ?bs) (take n (drop (count - n) buffer))"
        using e
      proof
        assume e1: "Suc block * ?bs = block * ?bs + length ?xs"
        show ?thesis unfolding s'(3) 2(4) app e1 add_0_right by (rule byte_patch_append)
      qed (use s'(3) 2(4) app in simp)
      then show ?thesis using less.prems(1) [of s'] s'(1,2) step by simp
    qed
  qed
qed

lemma pata_write_ok:
  fixes offset :: nat
  assumes dev: "disk_device ops" and wf: "disk_wf ops s" and len: "count \<le> length buffer"
    and room: "(offset + count) mod 2 ^ 32 div block_size ops \<le> max_block"
    and top: "offset + count \<le> 2 ^ 32 * block_size ops"
  obtains s' where "pata_write ops time max_block s offset buffer count = Inr (count, s')" "disk_wf ops s'"
    "disk_byte ops s' = byte_patch (disk_byte ops s) offset (take count buffer)"
proof -
  let ?bs = "block_size ops"
  define first fbs where "first = offset div ?bs" and "fbs = offset mod ?bs"
  have bs: "0 < ?bs" using disk_deviceD(1) [OF dev] .
  have off: "offset = first * ?bs + fbs" "fbs < ?bs" using bs by (simp_all add: first_def fbs_def)
  let ?loop = "pata_write_loop ops time first fbs count buffer s first count"
  note unf = pata_write_loop.simps [of ops time first fbs count buffer s first count]
  have eq: "pata_write ops time max_block s offset buffer count =
      rbind (returned ?loop) (\<lambda>s'. Inr (count, s'))"
    using room unfolding pata_write_def first_def fbs_def by simp
  show thesis
  proof (cases "count = 0")
    case True
    show thesis by (rule that [of s]) (use wf True unf eq in simp_all)
  next
    case False
    define m where "m = min count (?bs - fbs)"
    have mm: "m = (if count < ?bs - fbs then count else ?bs - fbs)" by (simp add: m_def)
    let ?xs = "take m buffer"
    have m: "length ?xs = m" "m \<le> count" "fbs + m \<le> ?bs" using len off(2) by (auto simp: m_def)
    have "first * ?bs < 2 ^ 32 * ?bs" using off False top by linarith
    then have b: "first < 2 ^ 32" by (simp only: mult_less_cancel2)
    have xs: "fbs + length ?xs \<le> ?bs" using m by simp
    obtain s1 s2 where 2: "read_blocks ops time s first 1 = Inr (content ops s first, s1)"
      "write_blocks ops time s1 first 1 (put_at (content ops s first) fbs ?xs) = Inr s2"
      "disk_wf ops s2" "disk_byte ops s2 = byte_patch (disk_byte ops s) (first * ?bs + fbs) ?xs"
      by (rule read_patch_write [OF dev wf b xs, of time])
    have step: "?loop = pata_write_loop ops time first fbs count buffer s2 (Suc first) (count - m)"
      unfolding unf using False 2(1,2) by (cases "count < ?bs - fbs") (simp_all add: mm Let_def)
    have "Suc first * ?bs \<le> 2 ^ 32 * ?bs" using b by (intro mult_le_mono1) simp
    then have c': "Suc first * ?bs + (count - m) \<le> 2 ^ 32 * ?bs"
      using top off by (auto simp: m_def min_def)
    have app: "take count buffer = ?xs @ take (count - m) (drop (count - (count - m)) buffer)"
      using take_add [of m "count - m" buffer] m(2) by simp
    have e: "Suc first * ?bs = offset + length ?xs \<or> count - m = 0"
      unfolding m(1) using off by (auto simp: m_def min_def)
    obtain s' where s': "pata_write_loop ops time first fbs count buffer s2 (Suc first) (count - m) = Some (Inr s')"
      "disk_wf ops s'" "disk_byte ops s' = byte_patch (disk_byte ops s2) (Suc first * ?bs)
        (take (count - m) (drop (count - (count - m)) buffer))"
      by (rule pata_write_tail [where time = time and fbs = fbs, OF dev 2(3) lessI diff_le_self len c'])
    have "disk_byte ops s' = byte_patch (disk_byte ops s) offset (take count buffer)"
      using e
    proof
      assume e1: "Suc first * ?bs = offset + length ?xs"
      show ?thesis unfolding s'(3) 2(4) app e1 off(1) [symmetric] by (rule byte_patch_append)
    qed (use s'(3) 2(4) app off(1) in simp)
    then show thesis using that [of s'] s'(1,2) eq step by simp
  qed
qed

section \<open>Properties\<close>

text \<open>
  C27. A read of \<open>count\<close> bytes at \<open>offset\<close> of a disk returns and delivers those bytes of the disk
  as the cache has them, cut off at the last addressable block, at the start of the caller's
  buffer; the rest of the buffer and the contents of the disk stay.
\<close>

theorem pata_read_bytes:
  assumes "disk_device ops" "max_block < 2 ^ 32" "disk_wf ops s" "count \<le> length buffer"
  shows "\<exists>s'. pata_read ops time max_block s offset buffer count =
      (let m = min count (Suc max_block * block_size ops - offset)
       in Inr (m, map (disk_byte ops s) [offset..<offset + m] @ drop m buffer, s')) \<and>
    disk_wf ops s' \<and> disk_byte ops s' = disk_byte ops s"
  by (rule pata_read_ok [OF assms, of time offset])
    (auto simp: Let_def put_at_def disk_byte_same same_contents_def)

theorem pata_read_bytes_witness:
  "\<exists>s'. pata_read (ram_disk 512) 0 100 blank_disk 700 (replicate 2000 0) 1500 =
      (let m = min 1500 (Suc 100 * block_size (ram_disk 512) - 700)
       in Inr (m, map (disk_byte (ram_disk 512) blank_disk) [700..<700 + m] @ drop m (replicate 2000 0), s')) \<and>
    disk_wf (ram_disk 512) s' \<and> disk_byte (ram_disk 512) s' = disk_byte (ram_disk 512) blank_disk"
  by (rule pata_read_bytes) (simp_all add: ram_disk_device blank_disk_wf PAGE_SIZE_def)

text \<open>
  C28. A write of \<open>count\<close> bytes at \<open>offset\<close> to a disk that does not fail either is refused with
  \<open>ENOSPC\<close>, exactly if the block of the end, computed in 32 bits, lies behind the last addressable
  block, or returns \<open>count\<close> and changes exactly those bytes: the blocks at both ends keep what lies
  outside the range. Blocks of 512 bytes have a number below \<open>2 ^ 32\<close> for every range of 32-bit size.
\<close>

theorem pata_write_bytes:
  assumes "disk_device ops" "disk_wf ops s" "count \<le> length buffer" "offset + count \<le> 2 ^ 32 * block_size ops"
  shows "if max_block < (offset + count) mod 2 ^ 32 div block_size ops
    then pata_write ops time max_block s offset buffer count = Inl (Err ENOSPC)
    else \<exists>s'. pata_write ops time max_block s offset buffer count = Inr (count, s') \<and> disk_wf ops s' \<and>
        disk_byte ops s' = (\<lambda>p. if offset \<le> p \<and> p < offset + count then buffer ! (p - offset)
                                else disk_byte ops s p)"
proof (cases "max_block < (offset + count) mod 2 ^ 32 div block_size ops")
  case True
  then show ?thesis by (simp add: pata_write_def)
next
  case False
  then have room: "(offset + count) mod 2 ^ 32 div block_size ops \<le> max_block" by simp
  show ?thesis
    by (rule pata_write_ok [OF assms(1-3) room assms(4), of time])
      (use False assms(3) in \<open>auto simp: byte_patch_def fun_eq_iff\<close>)
qed

theorem pata_write_bytes_witness:
  "pata_write (ram_disk 512) 0 2 blank_disk 700 (replicate 1500 1) 1500 = Inl (Err ENOSPC) \<and>
   (\<exists>s'. pata_write (ram_disk 512) 0 100 blank_disk 700 (replicate 1500 1) 1500 = Inr (1500, s') \<and>
      disk_byte (ram_disk 512) s' 699 = disk_byte (ram_disk 512) blank_disk 699 \<and> disk_byte (ram_disk 512) s' 700 = 1 \<and>
      disk_byte (ram_disk 512) s' 2199 = 1 \<and> disk_byte (ram_disk 512) s' 2200 = disk_byte (ram_disk 512) blank_disk 2200)"
proof -
  have dev: "disk_device (ram_disk 512)" by (rule ram_disk_device) (simp_all add: PAGE_SIZE_def)
  have len: "1500 \<le> length (replicate 1500 (1 :: byte))" "700 + 1500 \<le> 2 ^ 32 * block_size (ram_disk 512)" by simp_all
  note w = pata_write_bytes [OF dev blank_disk_wf len, where time = 0]
  have "pata_write (ram_disk 512) 0 2 blank_disk 700 (replicate 1500 1) 1500 = Inl (Err ENOSPC)" using w [of 2] by simp
  moreover obtain s' where s': "pata_write (ram_disk 512) 0 100 blank_disk 700 (replicate 1500 1) 1500 = Inr (1500, s')"
    "disk_byte (ram_disk 512) s' = (\<lambda>p. if 700 \<le> p \<and> p < 700 + 1500 then replicate 1500 1 ! (p - 700)
                                else disk_byte (ram_disk 512) blank_disk p)" using w [of 100] by auto
  ultimately show ?thesis unfolding s'(1) by (intro conjI exI [of _ s']) (simp_all add: s'(2))
qed

text \<open>
  Block access to a partition is not byte access to it: \<open>_offset\<close> is in bytes, and
  \<open>read_blocks\<close> adds it to a block number. Block \<open>b\<close> of a partition that starts at block
  \<open>k\<close> is read from block \<open>b + k * block_size\<close> of the disk, as far as that is below \<open>2 ^ 32\<close>.
\<close>

lemma partition_block_offset:
  assumes "disk_device ops" "disk_wf ops s" "b + k * block_size ops < 2 ^ 32"
  shows "\<exists>s'. partition_read_blocks ops time (partition_new ops k) s b 1 =
    Inr (content ops s (b + k * block_size ops), s')"
  by (rule read_one_block [OF assms, of time]) (use assms(3) in \<open>auto simp: partition_read_blocks_def partition_new_def\<close>)

lemma partition_block_offset_witness:
  "\<exists>s'. partition_read_blocks (ram_disk 512) 0 (partition_new (ram_disk 512) 2) blank_disk 3 1 =
    Inr (content (ram_disk 512) blank_disk (3 + 2 * block_size (ram_disk 512)), s')"
  by (rule partition_block_offset)
    (simp_all add: ram_disk_device blank_disk_wf PAGE_SIZE_def)

end
