(* ===== verification/LinkedList.thy ===== *)
theory LinkedList
  imports Prelude
begin

text \<open>
  Doubly linked lists in a store, as the free lists of the buddy allocator and the regions of an
  address space use them: two functions give the successor and the predecessor of a node, and
  \<open>null\<close> ends the list on both sides. \<open>chain\<close> says which nodes a list has; the lemmas cover the
  changes the clients make: insert in front, insert behind a node, remove a node.
\<close>

section \<open>Chains\<close>

primrec chain :: "'a \<Rightarrow> ('a \<Rightarrow> 'a) \<Rightarrow> ('a \<Rightarrow> 'a) \<Rightarrow> 'a \<Rightarrow> 'a \<Rightarrow> 'a list \<Rightarrow> bool" where
  "chain null nx pv p h [] \<longleftrightarrow> h = null"
| "chain null nx pv p h (x # xs) \<longleftrightarrow> h = x \<and> x \<noteq> null \<and> pv x = p \<and> chain null nx pv x (nx x) xs"

lemma chain_cong:
  "(\<And>x. x \<in> set xs \<Longrightarrow> nx x = nx' x \<and> pv x = pv' x) \<Longrightarrow>
   chain null nx pv p h xs \<longleftrightarrow> chain null nx' pv' p h xs"
  by (induction xs arbitrary: p h) auto

lemma chain_not_null: "chain null nx pv p h xs \<Longrightarrow> null \<notin> set xs"
  by (induction xs arbitrary: p h) auto

lemma chain_head: "chain null nx pv p h xs \<Longrightarrow> h = (case xs of [] \<Rightarrow> null | x # _ \<Rightarrow> x)"
  by (cases xs) auto

lemma chain_null_iff: "chain null nx pv p h xs \<Longrightarrow> h = null \<longleftrightarrow> xs = []"
  by (cases xs) auto


lemma chain_unique:
  "chain null nx pv p h xs \<Longrightarrow> chain null nx pv' p' h ys \<Longrightarrow> xs = ys"
proof (induction xs arbitrary: p p' h ys)
  case Nil
  then show ?case using chain_null_iff by fastforce
next
  case (Cons x xs)
  then obtain ys' where ys: "ys = x # ys'" by (cases ys) auto
  show ?case using Cons.IH [of x "nx x" x ys'] Cons.prems ys by simp
qed

text \<open>A node in the middle sees its neighbours.\<close>

lemma chain_middle:
  "chain null nx pv p h (xs @ x # ys) \<Longrightarrow>
     pv x = (if xs = [] then p else last xs) \<and> nx x = (if ys = [] then null else hd ys) \<and> x \<noteq> null"
proof (induction xs arbitrary: p h)
  case Nil
  then show ?case by (cases ys) auto
next
  case (Cons a xs)
  then show ?case using Cons.IH [of a "nx a"] by auto
qed

lemma chain_hd: "chain null nx pv p h xs \<Longrightarrow> xs \<noteq> [] \<Longrightarrow> h = hd xs"
  by (cases xs) auto

section \<open>Changes\<close>

lemma chain_push:
  assumes "chain null nx pv null h xs" "x \<noteq> null" "x \<notin> set xs" "distinct xs"
  shows "chain null (nx(x := h)) ((if h = null then pv else pv(h := x))(x := null)) null x (x # xs)"
proof (cases xs)
  case Nil
  then show ?thesis using assms by simp
next
  case (Cons y ys)
  then have "chain null nx pv y (nx y) ys" "y \<noteq> null" "h = y" "y \<notin> set ys" using assms by auto
  moreover from this have "chain null (nx(x := h)) (pv(h := x, x := null)) y (nx y) ys"
    using assms(3) Cons by (subst chain_cong [where nx' = nx and pv' = pv]) auto
  ultimately show ?thesis using assms(2,3) Cons by auto
qed

lemma chain_pop:
  assumes "chain null nx pv null h (x # xs)" "distinct (x # xs)"
  shows "chain null nx (pv(nx x := null)) null (nx x) xs"
proof (cases xs)
  case Nil
  then show ?thesis using assms by simp
next
  case (Cons y ys)
  then have "nx x = y" "y \<noteq> null" "chain null nx pv y (nx y) ys" "y \<notin> set ys" using assms by auto
  moreover from this have "chain null nx (pv(y := null)) y (nx y) ys"
    by (subst chain_cong [where nx' = nx and pv' = pv]) auto
  ultimately show ?thesis using Cons by simp
qed

text \<open>Removal of a node by its own links, whatever its place.\<close>

definition unlink_next :: "'a \<Rightarrow> ('a \<Rightarrow> 'a) \<Rightarrow> ('a \<Rightarrow> 'a) \<Rightarrow> 'a \<Rightarrow> 'a \<Rightarrow> 'a" where
  "unlink_next null nx pv x = (if pv x = null then nx else nx(pv x := nx x))"

definition unlink_prev :: "'a \<Rightarrow> ('a \<Rightarrow> 'a) \<Rightarrow> ('a \<Rightarrow> 'a) \<Rightarrow> 'a \<Rightarrow> 'a \<Rightarrow> 'a" where
  "unlink_prev null nx pv x = (if nx x = null then pv else pv(nx x := pv x))"

lemma chain_unlink_from:
  "chain null nx pv p h (xs @ x # ys) \<Longrightarrow> distinct (xs @ x # ys) \<Longrightarrow> p \<notin> set (xs @ x # ys) \<Longrightarrow>
   chain null (unlink_next null nx pv x) (unlink_prev null nx pv x) p (if h = x then nx x else h) (xs @ ys)"
proof (induction xs arbitrary: p h)
  case Nil
  show ?case
  proof (cases ys)
    case (Cons y zs)
    have "chain null nx pv y (nx y) zs" "y \<notin> set zs" "pv x = p" "nx x = y" "y \<noteq> null"
      using Nil Cons by auto
    moreover have "chain null (unlink_next null nx pv x) (unlink_prev null nx pv x) y (nx y) zs"
      using Nil Cons calculation
      by (subst chain_cong [where nx' = nx and pv' = pv]) (auto simp: unlink_next_def unlink_prev_def)
    moreover have "unlink_prev null nx pv x y = p" "unlink_next null nx pv x y = nx y"
      using Nil Cons by (auto simp: unlink_next_def unlink_prev_def)
    ultimately show ?thesis using Nil Cons by simp
  qed (use Nil in \<open>auto simp: unlink_next_def unlink_prev_def\<close>)
next
  case (Cons a xs)
  have a: "chain null nx pv a (nx a) (xs @ x # ys)" "pv a = p" "a \<noteq> null" "h = a" using Cons.prems(1) by auto
  have d: "distinct (xs @ x # ys)" "a \<notin> set (xs @ x # ys)" "a \<noteq> x" using Cons.prems(2) by auto
  note m = chain_middle [OF a(1)]
  have "nx a = hd (xs @ x # ys)" by (rule chain_hd [OF a(1)]) simp
  moreover have "hd ys \<noteq> a" if "ys \<noteq> []" using d(2) that hd_in_set [OF that] by auto
  ultimately have "unlink_next null nx pv x a = (if nx a = x then nx x else nx a)"
    "unlink_prev null nx pv x a = p"
    using m d a(2,3) hd_in_set [of xs] last_in_set [of xs]
    by (auto simp: unlink_next_def unlink_prev_def hd_append split: if_splits)
  then show ?case using Cons.IH [OF a(1) d(1,2)] a d by simp
qed

lemma chain_unlink:
  assumes "chain null nx pv null h xs" "distinct xs" "x \<in> set xs"
  shows "chain null (unlink_next null nx pv x) (unlink_prev null nx pv x) null
    (if h = x then nx x else h) (remove1 x xs)"
proof -
  obtain ys zs where xs: "xs = ys @ x # zs" "x \<notin> set ys" using split_list_first [OF assms(3)] by blast
  then have "remove1 x xs = ys @ zs" by (simp add: remove1_append)
  then show ?thesis
    using chain_unlink_from [of null nx pv null h ys x zs] assms chain_not_null [OF assms(1)] xs(1) by simp
qed

lemma unlink_other:
  assumes "chain null nx pv null h xs" "x \<in> set xs" "distinct xs" "y \<notin> set xs"
  shows "unlink_next null nx pv x y = nx y" "unlink_prev null nx pv x y = pv y"
proof -
  obtain ys zs where xs: "xs = ys @ x # zs" using split_list [OF assms(2)] by blast
  note m = chain_middle [OF assms(1) [unfolded xs]]
  have "pv x = null \<or> pv x \<in> set xs" "nx x = null \<or> nx x \<in> set xs"
    using m xs last_in_set [of ys] hd_in_set [of zs] by (auto split: if_splits)
  then show "unlink_next null nx pv x y = nx y" "unlink_prev null nx pv x y = pv y"
    using assms(4) by (auto simp: unlink_next_def unlink_prev_def)
qed

text \<open>Insertion of a node in front of another and behind another.\<close>

definition before_next :: "'a \<Rightarrow> ('a \<Rightarrow> 'a) \<Rightarrow> ('a \<Rightarrow> 'a) \<Rightarrow> 'a \<Rightarrow> 'a \<Rightarrow> 'a \<Rightarrow> 'a" where
  "before_next null nx pv x n = (if pv x = null then nx else nx(pv x := n))(n := x)"

definition before_prev :: "('a \<Rightarrow> 'a) \<Rightarrow> 'a \<Rightarrow> 'a \<Rightarrow> 'a \<Rightarrow> 'a" where
  "before_prev pv x n = pv(n := pv x, x := n)"

definition after_next :: "('a \<Rightarrow> 'a) \<Rightarrow> 'a \<Rightarrow> 'a \<Rightarrow> 'a \<Rightarrow> 'a" where
  "after_next nx x n = nx(n := nx x, x := n)"

definition after_prev :: "'a \<Rightarrow> ('a \<Rightarrow> 'a) \<Rightarrow> ('a \<Rightarrow> 'a) \<Rightarrow> 'a \<Rightarrow> 'a \<Rightarrow> 'a \<Rightarrow> 'a" where
  "after_prev null nx pv x n = (if nx x = null then pv else pv(nx x := n))(n := x)"

lemma chain_insert_before:
  "chain null nx pv p h (xs @ x # ys) \<Longrightarrow> distinct (xs @ x # ys) \<Longrightarrow> p \<notin> set (xs @ x # ys) \<Longrightarrow>
   n \<notin> set (xs @ x # ys) \<Longrightarrow> n \<noteq> null \<Longrightarrow> n \<noteq> p \<Longrightarrow>
   chain null (before_next null nx pv x n) (before_prev pv x n) p (if h = x then n else h) (xs @ n # x # ys)"
proof (induction xs arbitrary: p h)
  case Nil
  have "chain null nx pv x (nx x) ys" "pv x = p" "x \<noteq> null" "h = x" using Nil.prems(1) by auto
  moreover from this have "chain null (before_next null nx pv x n) (before_prev pv x n) x (nx x) ys"
    using Nil.prems by (subst chain_cong [where nx' = nx and pv' = pv]) (auto simp: before_next_def before_prev_def)
  moreover have "before_next null nx pv x n n = x" "before_next null nx pv x n x = nx x" "before_prev pv x n n = p" "before_prev pv x n x = n"
    using Nil.prems by (auto simp: before_next_def before_prev_def)
  ultimately show ?case using Nil.prems(5) by simp
next
  case (Cons a xs)
  have a: "chain null nx pv a (nx a) (xs @ x # ys)" "pv a = p" "a \<noteq> null" "h = a" using Cons.prems(1) by auto
  have d: "distinct (xs @ x # ys)" "a \<notin> set (xs @ x # ys)" "n \<notin> set (xs @ x # ys)" "n \<noteq> a" "a \<noteq> x"
    using Cons.prems by auto
  note m = chain_middle [OF a(1)]
  have "nx a = hd (xs @ x # ys)" by (rule chain_hd [OF a(1)]) simp
  then have "before_next null nx pv x n a = (if nx a = x then n else nx a)" "before_prev pv x n a = p"
    using m d a(2,3) hd_in_set [of xs] last_in_set [of xs]
    by (auto simp: before_next_def before_prev_def hd_append split: if_splits)
  then show ?case using Cons.IH [OF a(1) d(1-3)] Cons.prems(5) a d by simp
qed

lemma chain_insert_after:
  "chain null nx pv p h (xs @ x # ys) \<Longrightarrow> distinct (xs @ x # ys) \<Longrightarrow> p \<notin> set (xs @ x # ys) \<Longrightarrow>
   n \<notin> set (xs @ x # ys) \<Longrightarrow> n \<noteq> null \<Longrightarrow> n \<noteq> p \<Longrightarrow>
   chain null (after_next nx x n) (after_prev null nx pv x n) p h (xs @ x # n # ys)"
proof (induction xs arbitrary: p h)
  case Nil
  show ?case
  proof (cases ys)
    case (Cons y zs)
    have "chain null nx pv y (nx y) zs" "y \<noteq> null" "nx x = y" "h = x" "pv x = p" "x \<noteq> null" using Nil.prems(1) Cons by auto
    moreover from this have "chain null (after_next nx x n) (after_prev null nx pv x n) y (nx y) zs"
      using Nil.prems Cons by (subst chain_cong [where nx' = nx and pv' = pv]) (auto simp: after_next_def after_prev_def)
    moreover have "after_next nx x n x = n" "after_next nx x n n = y" "after_next nx x n y = nx y"
      "after_prev null nx pv x n x = p" "after_prev null nx pv x n n = x" "after_prev null nx pv x n y = n"
      using Nil.prems Cons calculation by (auto simp: after_next_def after_prev_def)
    ultimately show ?thesis using Nil.prems(5) Cons by simp
  qed (use Nil.prems in \<open>auto simp: after_next_def after_prev_def\<close>)
next
  case (Cons a xs)
  have a: "chain null nx pv a (nx a) (xs @ x # ys)" "pv a = p" "a \<noteq> null" "h = a" using Cons.prems(1) by auto
  have d: "distinct (xs @ x # ys)" "a \<notin> set (xs @ x # ys)" "n \<notin> set (xs @ x # ys)" "n \<noteq> a" "a \<noteq> x"
    using Cons.prems by auto
  note m = chain_middle [OF a(1)]
  have "hd ys \<noteq> a" if "ys \<noteq> []" using d(2) hd_in_set [OF that] by auto
  then have "after_next nx x n a = nx a" "after_prev null nx pv x n a = p"
    using m d a(2,3) by (auto simp: after_next_def after_prev_def split: if_splits)
  then show ?case using Cons.IH [OF a(1) d(1-3)] Cons.prems(5) a d by simp
qed

end
