(* ===== verification/Bitmap.thy ===== *)
theory Bitmap
  imports Prelude "HOL-Library.Word"
begin

text \<open>
  \<open>kstd::Bitmap\<close> (\<open>src/kernel/kstd/Bitmap.h\<close>): bits packed into bytes.
\<close>

unbundle bit_operations_syntax

record bitmap =
  m_bits :: "8 word list option"
  m_num_bits :: nat

definition bitmap_null :: bitmap where
  "bitmap_null = \<lparr>m_bits = None, m_num_bits = 0\<rparr>"

definition bitmap_set_all :: "bitmap \<Rightarrow> bool \<Rightarrow> bitmap" where
  "bitmap_set_all b v =
     b\<lparr>m_bits := map_option (\<lambda>_. replicate ((m_num_bits b + 7) div 8) (if v then - 1 else 0)) (m_bits b)\<rparr>"

text \<open>The memory that \<open>kmalloc\<close> returns is filled by \<open>set_all\<close> at once.\<close>

definition bitmap_new :: "nat \<Rightarrow> bool \<Rightarrow> bitmap" where
  "bitmap_new num_bits v = bitmap_set_all \<lparr>m_bits = Some [], m_num_bits = num_bits\<rparr> v"

definition bitmap_move :: "bitmap \<Rightarrow> bitmap \<times> bitmap" where
  "bitmap_move other = (other, other\<lparr>m_bits := None, m_num_bits := 0\<rparr>)"

text \<open>Move assignment, which leaves \<open>m_num_bits\<close> of both sides as they are.\<close>

definition bitmap_assign :: "bitmap \<Rightarrow> bitmap \<Rightarrow> bitmap \<times> bitmap" where
  "bitmap_assign this other = (this\<lparr>m_bits := m_bits other\<rparr>, other\<lparr>m_bits := None\<rparr>)"

definition bitmap_get :: "bitmap \<Rightarrow> nat \<Rightarrow> bool result" where
  "bitmap_get b index =
     (case m_bits b of
        None \<Rightarrow> Inl AssertFail
      | Some bits \<Rightarrow>
          if index div 8 < length bits
          then Inr ((bits ! (index div 8)) AND (push_bit (index mod 8) 1) \<noteq> 0)
          else Inl Undefined)"

definition bitmap_set :: "bitmap \<Rightarrow> nat \<Rightarrow> bool \<Rightarrow> bitmap result" where
  "bitmap_set b index v =
     (case m_bits b of
        None \<Rightarrow> Inl AssertFail
      | Some bits \<Rightarrow>
          if index div 8 < length bits
          then let mask = push_bit (index mod 8) 1; w = bits ! (index div 8)
               in Inr (b\<lparr>m_bits := Some (bits[index div 8 := (if v then w OR mask else w AND NOT mask)])\<rparr>)
          else Inl Undefined)"

section \<open>A bitmap as a function\<close>

definition bitmap_room :: "bitmap \<Rightarrow> nat" where
  "bitmap_room b = (case m_bits b of None \<Rightarrow> 0 | Some bits \<Rightarrow> 8 * length bits)"

definition bitmap_bit :: "bitmap \<Rightarrow> nat \<Rightarrow> bool" where
  "bitmap_bit b i = (case m_bits b of None \<Rightarrow> False | Some bits \<Rightarrow> bit (bits ! (i div 8)) (i mod 8))"

lemma and_mask_iff: "(w :: 8 word) AND 2 ^ i = 0 \<longleftrightarrow> \<not> bit w i"
  by (rule and_exp_eq_0_iff_not_bit)

lemma room_index: "i < bitmap_room b \<longleftrightarrow> (\<exists>bits. m_bits b = Some bits \<and> i div 8 < length bits)"
  by (cases "m_bits b") (simp_all add: bitmap_room_def div_less_iff_less_mult mult.commute)

lemma bitmap_get_ok: "i < bitmap_room b \<Longrightarrow> bitmap_get b i = Inr (bitmap_bit b i)"
  unfolding room_index by (auto simp: bitmap_get_def bitmap_bit_def and_mask_iff)

lemma bit_set_mask:
  assumes "i < 8" "j < 8"
  shows "bit (if v then (w :: 8 word) OR push_bit i 1 else w AND NOT (push_bit i 1)) j =
    (if j = i then v else bit w j)"
  using assms by (simp add: bit_or_iff bit_and_iff bit_not_iff bit_exp_iff possible_bit_word)

lemma bitmap_set_ok:
  assumes "i < bitmap_room b"
  obtains b' where "bitmap_set b i v = Inr b'" "bitmap_bit b' = (bitmap_bit b)(i := v)"
    "bitmap_room b' = bitmap_room b"
proof -
  obtain bits where bits: "m_bits b = Some bits" "i div 8 < length bits"
    using assms unfolding room_index by blast
  let ?w = "bits ! (i div 8)" and ?m = "push_bit (i mod 8) 1 :: 8 word"
  let ?b = "b\<lparr>m_bits := Some (bits[i div 8 := (if v then ?w OR ?m else ?w AND NOT ?m)])\<rparr>"
  have "bitmap_bit ?b j = ((bitmap_bit b)(i := v)) j" for j
  proof (cases "j div 8 = i div 8")
    case True
    then have "j = i \<longleftrightarrow> j mod 8 = i mod 8" by (metis div_mult_mod_eq)
    then show ?thesis
      using True bits bit_set_mask [of "i mod 8" "j mod 8" v ?w] by (simp add: bitmap_bit_def)
  next
    case False
    then show ?thesis using bits by (auto simp: bitmap_bit_def)
  qed
  then show thesis
    using that [of ?b] bits by (simp add: bitmap_set_def Let_def bitmap_room_def fun_eq_iff)
qed

lemma bitmap_new_ok: "n \<le> bitmap_room (bitmap_new n v)" "i < n \<Longrightarrow> bitmap_bit (bitmap_new n v) i = v"
proof -
  have n: "n \<le> 8 * ((n + 7) div 8)" by presburger
  then show "n \<le> bitmap_room (bitmap_new n v)"
    by (simp add: bitmap_room_def bitmap_new_def bitmap_set_all_def)
  have "i div 8 < (n + 7) div 8" if "i < n" using that n by (simp add: div_less_iff_less_mult)
  then show "i < n \<Longrightarrow> bitmap_bit (bitmap_new n v) i = v"
    by (simp add: bitmap_bit_def bitmap_new_def bitmap_set_all_def)
qed

end
