(* ===== verification/BuddyZone.thy ===== *)
theory BuddyZone
  imports LinkedList Bitmap
begin

text \<open>
  The buddy allocator of physical pages, \<open>BuddyZone\<close>
  (\<open>src/kernel/memory/BuddyZone.cpp\<close> and \<open>.h\<close>), with the page descriptors
  \<open>PhysicalPage\<close> (\<open>src/kernel/memory/PhysicalPage.h\<close>). The descriptors of all pages of the
  machine are one array; a zone keeps the links of its free lists in the descriptors of its free
  pages. The functions of a zone take and return that array.
\<close>

section \<open>Page descriptors\<close>

text \<open>
  The union \<open>PhysicalPage\<close>: \<open>free.next\<close> shares its 16 bits with \<open>allocated.ref_count\<close>, and
  \<open>free.prev\<close> shares its with the byte of \<open>allocated.reserved\<close>.
\<close>

record physical_page =
  half0 :: "16 word"
  half1 :: "16 word"

record page_array =
  num_pages :: nat
  pages :: "nat \<Rightarrow> physical_page"

definition page_ref_count :: "physical_page \<Rightarrow> nat" where
  "page_ref_count p = unat (half0 p)"

definition page_reserved :: "physical_page \<Rightarrow> bool" where
  "page_reserved p \<longleftrightarrow> take_bit 8 (half1 p) \<noteq> 0"

definition free_next :: "physical_page \<Rightarrow> int" where
  "free_next p = sint (half0 p)"

definition free_prev :: "physical_page \<Rightarrow> int" where
  "free_prev p = sint (half1 p)"

abbreviation put_next :: "int \<Rightarrow> physical_page \<Rightarrow> physical_page" where
  "put_next i p \<equiv> p\<lparr>half0 := word_of_int i\<rparr>"

abbreviation put_prev :: "int \<Rightarrow> physical_page \<Rightarrow> physical_page" where
  "put_prev i p \<equiv> p\<lparr>half1 := word_of_int i\<rparr>"

text \<open>\<open>ref\<close> panics on overflow; \<open>unref\<close> says whether this was the last reference.\<close>

definition page_ref :: "physical_page \<Rightarrow> physical_page result" where
  "page_ref p = (if half0 p = 0xFFFF then Inl AssertFail else Inr (p\<lparr>half0 := half0 p + 1\<rparr>))"

definition page_unref :: "physical_page \<Rightarrow> (bool \<times> physical_page) result" where
  "page_unref p =
     (if half0 p = 0 then Inl AssertFail
      else Inr (half0 p = 1 \<and> \<not> page_reserved (p\<lparr>half0 := half0 p - 1\<rparr>), p\<lparr>half0 := half0 p - 1\<rparr>))"

text \<open>Access to a descriptor, which is undefined outside the array.\<close>

definition get_page :: "page_array \<Rightarrow> nat \<Rightarrow> physical_page result" where
  "get_page m i = (if i < num_pages m then Inr (pages m i) else Inl Undefined)"

definition put_page :: "page_array \<Rightarrow> nat \<Rightarrow> (physical_page \<Rightarrow> physical_page) \<Rightarrow> page_array result" where
  "put_page m i f =
     (if i < num_pages m then Inr (m\<lparr>pages := (pages m)(i := f (pages m i))\<rparr>) else Inl Undefined)"

section \<open>Orders\<close>

definition MAX_ORDER :: nat where
  "MAX_ORDER = 10"

text \<open>Index of the highest bit set, \<open>31 - __builtin_clz(n)\<close> for \<open>n > 0\<close>.\<close>

fun highest_bit :: "nat \<Rightarrow> nat" where
  "highest_bit n = (if n \<le> 1 then 0 else Suc (highest_bit (n div 2)))"

declare highest_bit.simps [simp del]

definition size_of_order :: "nat \<Rightarrow> nat" where
  "size_of_order order = 2 ^ order"

definition order_for :: "nat \<Rightarrow> nat" where
  "order_for n = (if n - 2 ^ highest_bit n \<noteq> 0 then highest_bit n + 1 else highest_bit n)"

record buddy_order =
  block_map :: bitmap
  freelist :: int

record zone =
  orders :: "nat \<Rightarrow> buddy_order"
  first_page :: nat
  highest_order :: nat
  zone_pages :: nat
  free_count :: nat

type_synonym buddy_state = "zone \<times> page_array"

definition bit_index :: "nat \<Rightarrow> int \<Rightarrow> nat" where
  "bit_index order block = nat (drop_bit order block) div 2"

definition get_bit :: "zone \<Rightarrow> nat \<Rightarrow> int \<Rightarrow> bool result" where
  "get_bit z order block = bitmap_get (block_map (orders z order)) (bit_index order block)"

definition set_bit :: "zone \<Rightarrow> nat \<Rightarrow> int \<Rightarrow> bool \<Rightarrow> zone result" where
  "set_bit z order block v =
     rbind (bitmap_set (block_map (orders z order)) (bit_index order block) v) (\<lambda>b.
       Inr (z\<lparr>orders := (orders z)(order := (orders z order)\<lparr>block_map := b\<rparr>)\<rparr>))"

definition set_freelist :: "zone \<Rightarrow> nat \<Rightarrow> int \<Rightarrow> zone" where
  "set_freelist z order block = z\<lparr>orders := (orders z)(order := (orders z order)\<lparr>freelist := block\<rparr>)\<rparr>"

text \<open>\<open>page_of_block\<close>: unsigned arithmetic in 32 bits.\<close>

definition page_of_block :: "zone \<Rightarrow> int \<Rightarrow> nat" where
  "page_of_block z block = nat ((int (first_page z) + block) mod 2 ^ 32)"

definition get_block :: "zone \<Rightarrow> page_array \<Rightarrow> int \<Rightarrow> physical_page result" where
  "get_block z m block = get_page m (page_of_block z block)"

definition put_block :: "zone \<Rightarrow> page_array \<Rightarrow> int \<Rightarrow> (physical_page \<Rightarrow> physical_page) \<Rightarrow> page_array result" where
  "put_block z m block f = put_page m (page_of_block z block) f"

section \<open>Operations\<close>

fun zone_init_orders :: "nat \<Rightarrow> nat list \<Rightarrow> (nat \<Rightarrow> buddy_order) \<Rightarrow> nat \<Rightarrow> buddy_order" where
  "zone_init_orders n [] os = os"
| "zone_init_orders n (i # is) os =
     (let num_blocks = n div size_of_order i; bits = (num_blocks + 1) div 2
      in zone_init_orders n is
           (if bits \<noteq> 0
            then os(i := (os i)\<lparr>block_map := fst (bitmap_assign (block_map (os i)) (bitmap_new bits False))\<rparr>)
            else os))"

definition zone_new :: "nat \<Rightarrow> nat \<Rightarrow> zone result" where
  "zone_new first n =
     (let high = order_for n;
          z = \<lparr>orders = zone_init_orders n [0..<Suc high] (\<lambda>_. \<lparr>block_map = bitmap_null, freelist = -1\<rparr>),
               first_page = first, highest_order = high, zone_pages = n, free_count = n\<rparr>
      in rassert (size_of_order high = n) (rassert (high \<le> MAX_ORDER)
           (set_bit (set_freelist z high 0) high 0 True)))"

definition remove_from_freelist :: "zone \<Rightarrow> page_array \<Rightarrow> int \<Rightarrow> nat \<Rightarrow> buddy_state result" where
  "remove_from_freelist z m block order =
     rbind (get_block z m block) (\<lambda>page.
     rbind (if free_next page \<noteq> - 1 then put_block z m (free_next page) (put_prev (free_prev page)) else Inr m) (\<lambda>m1.
     rbind (if free_prev page \<noteq> - 1 then put_block z m1 (free_prev page) (put_next (free_next page)) else Inr m1) (\<lambda>m2.
       if freelist (orders z order) = block
       then rassert (free_prev page = - 1) (Inr (set_freelist z order (free_next page), m2))
       else Inr (z, m2))))"

text \<open>
  The two recursive functions climb the orders; \<open>high\<close> is \<open>m_highest_order\<close>, which no
  operation changes.
\<close>

function alloc_block_internal :: "nat \<Rightarrow> zone \<Rightarrow> page_array \<Rightarrow> nat \<Rightarrow> (int \<times> buddy_state) result" where
  "alloc_block_internal high z m order =
     (if \<not> order \<le> high then Inl AssertFail
      else if freelist (orders z order) = - 1 then
        rbind (alloc_block_internal high z m (order + 1)) (\<lambda>(higher, z1, m1).
        rbind (set_bit z1 order higher True) (\<lambda>z2.
          let free_block = higher + int (size_of_order order);
              z3 = set_freelist z2 order free_block
          in rbind (put_block z3 m1 free_block (put_next (- 1))) (\<lambda>m2.
             rbind (put_block z3 m2 free_block (put_prev (- 1))) (\<lambda>m3.
               Inr (higher, z3, m3)))))
      else
        let block = freelist (orders z order) in
        rbind (get_bit z order block) (\<lambda>state.
        rassert state
          (rbind (set_bit z order block False) (\<lambda>z1.
           rbind (get_block z1 m block) (\<lambda>page.
             let z2 = set_freelist z1 order (free_next page) in
             rbind (put_block z2 m (freelist (orders z2 order)) (put_prev (- 1))) (\<lambda>m1.
               Inr (block, z2, m1)))))))"
  by pat_completeness auto
termination
  by (relation "measure (\<lambda>(high, z, m, order). Suc high - order)") auto

function free_block_internal :: "nat \<Rightarrow> zone \<Rightarrow> page_array \<Rightarrow> int \<Rightarrow> nat \<Rightarrow> buddy_state result" where
  "free_block_internal high z m block order =
     (if \<not> order \<le> high then Inl AssertFail
      else
        rbind (get_bit z order block) (\<lambda>mixed.
        if mixed then
          rbind (set_bit z order block False) (\<lambda>z1.
            let first = int (bit_index order block * 2 * size_of_order order) in
            rbind (remove_from_freelist z1 m
                     (if block = first then first + int (size_of_order order) else first) order)
              (\<lambda>(z2, m2). free_block_internal high z2 m2 first (order + 1)))
        else
          rbind (set_bit z order block True) (\<lambda>z1.
            let head = freelist (orders z1 order) in
            rbind (if head \<noteq> - 1 then put_block z1 m head (put_prev block) else Inr m) (\<lambda>m1.
            rbind (put_block z1 m1 block (put_next head)) (\<lambda>m2.
            rbind (put_block z1 m2 block (put_prev (- 1))) (\<lambda>m3.
              Inr (set_freelist z1 order block, m3)))))))"
  by pat_completeness auto
termination
  by (relation "measure (\<lambda>(high, z, m, block, order). Suc high - order)") auto

declare alloc_block_internal.simps [simp del] free_block_internal.simps [simp del]

definition alloc_block :: "zone \<Rightarrow> page_array \<Rightarrow> nat \<Rightarrow> (nat \<times> buddy_state) result" where
  "alloc_block z m n =
     (if free_count z < n then Inl (Err ENOMEM)
      else rbind (alloc_block_internal (highest_order z) z m (order_for n)) (\<lambda>(block, z1, m1).
             Inr (page_of_block z1 block, z1\<lparr>free_count := free_count z1 - n\<rparr>, m1)))"

definition free_block :: "zone \<Rightarrow> page_array \<Rightarrow> nat \<Rightarrow> nat \<Rightarrow> buddy_state result" where
  "free_block z m start n =
     rassert (first_page z \<le> start) (rassert (start + n \<le> first_page z + zone_pages z)
       (rassert (size_of_order (order_for n) = n)
         (rbind (free_block_internal (highest_order z) z m (int start - int (first_page z)) (order_for n)) (\<lambda>(z1, m1).
            Inr (z1\<lparr>free_count := free_count z1 + n\<rparr>, m1)))))"

definition contains_page :: "zone \<Rightarrow> nat \<Rightarrow> bool" where
  "contains_page z page \<longleftrightarrow> first_page z \<le> page \<and> page < first_page z + zone_pages z"

section \<open>Orders and sizes\<close>

lemma highest_bit_bounds: "0 < n \<Longrightarrow> 2 ^ highest_bit n \<le> n \<and> n < 2 ^ Suc (highest_bit n)"
proof (induction n rule: highest_bit.induct)
  case (1 n)
  show ?case
  proof (cases "n \<le> 1")
    case True
    then show ?thesis using 1 by (simp add: highest_bit.simps)
  next
    case False
    then have "2 ^ highest_bit (n div 2) \<le> n div 2" "n div 2 < 2 ^ Suc (highest_bit (n div 2))"
      using 1(1) by (auto simp: div_greater_zero_iff)
    then show ?thesis using False by (auto simp: highest_bit.simps [of n])
  qed
qed

lemma order_for_bounds:
  assumes "0 < n"
  shows "n \<le> size_of_order (order_for n)" "size_of_order (order_for n) < 2 * n"
  using highest_bit_bounds [OF assms] by (auto simp: order_for_def size_of_order_def)

lemma highest_bit_power: "highest_bit (2 ^ k) = k"
proof (induction k)
  case (Suc k)
  have "\<not> 2 ^ Suc k \<le> (1::nat)" using one_less_power [of "2::nat" "Suc k"] by simp
  then show ?case using Suc by (subst highest_bit.simps) simp
qed (simp add: highest_bit.simps)

lemma order_for_power [simp]: "order_for (2 ^ k) = k"
  by (simp add: order_for_def highest_bit_power)

section \<open>Blocks\<close>

text \<open>Block number \<open>n\<close> of order \<open>k\<close> starts at page \<open>n * 2 ^ k\<close> of the zone.\<close>

definition blk :: "nat \<Rightarrow> nat \<Rightarrow> nat set" where
  "blk k n = {n * 2 ^ k..<Suc n * 2 ^ k}"

definition start :: "nat \<Rightarrow> nat \<Rightarrow> int" where
  "start k n = int (n * 2 ^ k)"

lemma blk_split: "blk (Suc k) n = blk k (2 * n) \<union> blk k (Suc (2 * n))"
  by (auto simp: blk_def)

lemma blk_disjoint: "n \<noteq> n' \<Longrightarrow> blk k n \<inter> blk k n' = {}"
proof -
  assume "n \<noteq> n'"
  then have "Suc n \<le> n' \<or> Suc n' \<le> n" by arith
  then have "Suc n * 2 ^ k \<le> n' * 2 ^ k \<or> Suc n' * 2 ^ k \<le> n * 2 ^ k"
    using mult_le_mono1 by blast
  then show ?thesis by (auto simp: blk_def)
qed

lemma start_in_blk: "n * 2 ^ k \<in> blk k n"
  by (simp add: blk_def)

lemma blk_nonempty: "blk k n \<noteq> {}"
  using start_in_blk by blast

lemma blk_subset: "blk k n \<subseteq> {..<2 ^ h} \<longleftrightarrow> Suc n * 2 ^ k \<le> 2 ^ h"
proof
  assume s: "blk k n \<subseteq> {..<2 ^ h}"
  obtain e where e: "(2::nat) ^ k = Suc e" using gr0_implies_Suc [of "2 ^ k"] by auto
  have "n * 2 ^ k + (2 ^ k - 1) \<in> blk k n" by (simp add: blk_def e)
  then have "n * 2 ^ k + (2 ^ k - 1) \<in> {..<2 ^ h}" by (rule subsetD [OF s])
  then show "Suc n * 2 ^ k \<le> 2 ^ h" by simp
qed (auto simp: blk_def)

lemma bit_index_start [simp]: "bit_index k (start k n) = n div 2"
  by (simp add: bit_index_def start_def drop_bit_eq_div)

lemma start_eq_iff [simp]: "start k n = start k n' \<longleftrightarrow> n = n'"
  by (simp add: start_def)

lemma start_not_null [simp]: "start k n \<noteq> - 1" "- 1 \<noteq> start k n"
proof -
  have "0 \<le> start k n" unfolding start_def by (rule of_nat_0_le_iff)
  then show "start k n \<noteq> - 1" "- 1 \<noteq> start k n" by auto
qed

lemma start_mem_iff [simp]: "start k n \<in> start k ` A \<longleftrightarrow> n \<in> A"
  by auto

lemma distinct_starts [simp]: "distinct (map (start k) xs) \<longleftrightarrow> distinct xs"
  by (simp add: distinct_map inj_on_def)

section \<open>The links of a zone\<close>

definition in_zone :: "zone \<Rightarrow> int \<Rightarrow> bool" where
  "in_zone z b \<longleftrightarrow> 0 \<le> b \<and> b < 2 ^ highest_order z"

definition nxt :: "zone \<Rightarrow> page_array \<Rightarrow> int \<Rightarrow> int" where
  "nxt z m b = (if in_zone z b then free_next (pages m (page_of_block z b)) else - 1)"

definition prv :: "zone \<Rightarrow> page_array \<Rightarrow> int \<Rightarrow> int" where
  "prv z m b = (if in_zone z b then free_prev (pages m (page_of_block z b)) else - 1)"

text \<open>
  Where a zone lies: inside the array, which 32 bits can index, and not at its very start; its
  orders are small enough for links of 16 bits.
\<close>

definition zone_place :: "zone \<Rightarrow> page_array \<Rightarrow> bool" where
  "zone_place z m \<longleftrightarrow> 0 < first_page z \<and> first_page z + 2 ^ highest_order z \<le> num_pages m \<and>
     num_pages m \<le> 2 ^ 32 \<and> highest_order z \<le> MAX_ORDER"

abbreviation same_place :: "zone \<Rightarrow> zone \<Rightarrow> bool" where
  "same_place z z' \<equiv> first_page z' = first_page z \<and> highest_order z' = highest_order z"

lemma links_same_place:
  assumes "same_place z z'"
  shows "nxt z' m = nxt z m" "prv z' m = prv z m" "page_of_block z' b = page_of_block z b"
    "zone_place z' m = zone_place z m" "in_zone z' b = in_zone z b"
  using assms by (auto simp: nxt_def prv_def in_zone_def page_of_block_def zone_place_def fun_eq_iff)

lemma page_of_block_in:
  assumes "zone_place z m" "in_zone z b"
  shows "page_of_block z b = first_page z + nat b" "page_of_block z b < num_pages m"
proof -
  have "first_page z + 2 ^ highest_order z \<le> 2 ^ 32" using assms(1) by (simp add: zone_place_def)
  then have "int (first_page z + 2 ^ highest_order z) \<le> int (2 ^ 32)" by (simp only: of_nat_le_iff)
  then have b: "0 \<le> b" "int (first_page z) + b < 2 ^ 32"
    using assms(2) by (auto simp: in_zone_def)
  then have "(int (first_page z) + b) mod 2 ^ 32 = int (first_page z) + b" by (intro mod_pos_pos_trivial) auto
  then show e: "page_of_block z b = first_page z + nat b" using b by (simp add: page_of_block_def nat_add_distrib)
  show "page_of_block z b < num_pages m"
  proof -
    have "nat b < 2 ^ highest_order z" using assms(2) by (simp add: in_zone_def nat_less_iff)
    moreover have "first_page z + 2 ^ highest_order z \<le> num_pages m"
      using assms(1) by (simp add: zone_place_def)
    ultimately show ?thesis unfolding e by linarith
  qed
qed

lemma page_before_zone:
  assumes "zone_place z m"
  shows "page_of_block z (- 1) = first_page z - 1" "first_page z - 1 < num_pages m"
proof -
  have "(int (first_page z) - 1) mod 2 ^ 32 = int (first_page z) - 1"
    using assms by (intro mod_pos_pos_trivial) (auto simp: zone_place_def)
  then show "page_of_block z (- 1) = first_page z - 1" using assms by (simp add: page_of_block_def zone_place_def nat_diff_distrib)
  show "first_page z - 1 < num_pages m" using assms by (auto simp: zone_place_def)
qed

lemma sint_small: "- (2 ^ 15) \<le> i \<Longrightarrow> i < 2 ^ 15 \<Longrightarrow> sint (word_of_int i :: 16 word) = i"
  by (simp add: sint_sbintrunc' signed_take_bit_int_eq_self)

definition link_ok :: "zone \<Rightarrow> int \<Rightarrow> bool" where
  "link_ok z i \<longleftrightarrow> i = - 1 \<or> in_zone z i"

lemma link_small:
  assumes "zone_place z m" "link_ok z i"
  shows "sint (word_of_int i :: 16 word) = i"
proof (rule sint_small)
  have "(2::int) ^ highest_order z \<le> 2 ^ 10"
    using assms(1) by (intro power_increasing) (auto simp: zone_place_def MAX_ORDER_def)
  then show "- (2 ^ 15) \<le> i" "i < 2 ^ 15" using assms(2) by (auto simp: link_ok_def in_zone_def)
qed

lemma page_of_block_eq_iff:
  assumes "zone_place z m" "in_zone z b" "in_zone z c"
  shows "page_of_block z b = page_of_block z c \<longleftrightarrow> b = c"
  using page_of_block_in(1) [OF assms(1,2)] page_of_block_in(1) [OF assms(1,3)] assms(2,3)
  by (auto simp: in_zone_def)

text \<open>Pages that a change leaves alone, except those in a set.\<close>

definition touches :: "page_array \<Rightarrow> page_array \<Rightarrow> nat set \<Rightarrow> bool" where
  "touches m m' A \<longleftrightarrow> num_pages m' = num_pages m \<and> (\<forall>i. i \<notin> A \<longrightarrow> pages m' i = pages m i)"

lemma touches_refl [simp]: "touches m m A"
  by (simp add: touches_def)

lemma touches_trans: "touches m m1 A \<Longrightarrow> touches m1 m2 B \<Longrightarrow> A \<subseteq> C \<Longrightarrow> B \<subseteq> C \<Longrightarrow> touches m m2 C"
  unfolding touches_def by (metis subsetD)

lemma touches_mono: "touches m m' A \<Longrightarrow> A \<subseteq> B \<Longrightarrow> touches m m' B"
  unfolding touches_def by blast

lemma zone_place_touches: "touches m m' A \<Longrightarrow> zone_place z m' = zone_place z m"
  by (simp add: touches_def zone_place_def)

lemma put_next_ok:
  assumes "zone_place z m" "in_zone z b" "link_ok z v"
  obtains m' where "put_block z m b (put_next v) = Inr m'" "nxt z m' = (nxt z m)(b := v)" "prv z m' = prv z m"
    "touches m m' {page_of_block z b}"
proof -
  let ?m = "m\<lparr>pages := (pages m)(page_of_block z b := put_next v (pages m (page_of_block z b)))\<rparr>"
  have "nxt z ?m c = ((nxt z m)(b := v)) c" "prv z ?m c = prv z m c" for c
    using page_of_block_eq_iff [OF assms(1,2), of c] assms(2) link_small [OF assms(1,3)]
    by (auto simp: nxt_def prv_def free_next_def free_prev_def)
  then show thesis
    using that [of ?m] page_of_block_in(2) [OF assms(1,2)]
    by (simp add: put_block_def put_page_def touches_def fun_eq_iff)
qed

lemma put_prev_ok:
  assumes "zone_place z m" "in_zone z b" "link_ok z v"
  obtains m' where "put_block z m b (put_prev v) = Inr m'" "nxt z m' = nxt z m" "prv z m' = (prv z m)(b := v)"
    "touches m m' {page_of_block z b}"
proof -
  let ?m = "m\<lparr>pages := (pages m)(page_of_block z b := put_prev v (pages m (page_of_block z b)))\<rparr>"
  have "nxt z ?m c = nxt z m c" "prv z ?m c = ((prv z m)(b := v)) c" for c
    using page_of_block_eq_iff [OF assms(1,2), of c] assms(2) link_small [OF assms(1,3)]
    by (auto simp: nxt_def prv_def free_next_def free_prev_def)
  then show thesis
    using that [of ?m] page_of_block_in(2) [OF assms(1,2)]
    by (simp add: put_block_def put_page_def touches_def fun_eq_iff)
qed

lemma put_before_ok:
  assumes "zone_place z m"
  obtains m' where "put_block z m (- 1) (put_prev v) = Inr m'" "nxt z m' = nxt z m" "prv z m' = prv z m"
    "touches m m' {first_page z - 1}" "half1 (pages m' (first_page z - 1)) = word_of_int v"
proof -
  let ?i = "first_page z - 1"
  let ?m = "m\<lparr>pages := (pages m)(?i := put_prev v (pages m ?i))\<rparr>"
  have "page_of_block z c \<noteq> ?i" if "in_zone z c" for c
    using page_of_block_in(1) [OF assms that] assms by (auto simp: zone_place_def)
  then have "nxt z ?m c = nxt z m c" "prv z ?m c = prv z m c" for c by (auto simp: nxt_def prv_def)
  then show thesis
    using that [of ?m] page_before_zone [OF assms]
    by (simp add: put_block_def put_page_def touches_def fun_eq_iff)
qed

lemma get_block_ok:
  assumes "zone_place z m" "in_zone z b"
  obtains page where "get_block z m b = Inr page" "free_next page = nxt z m b" "free_prev page = prv z m b"
  using assms page_of_block_in(2) [OF assms] by (simp add: get_block_def get_page_def nxt_def prv_def)

section \<open>The invariant\<close>

text \<open>
  \<open>F k\<close> lists the free blocks of order \<open>k\<close>. Their links form a list from the head of the order,
  the bit of a pair of buddies says whether one of them is free, and never are both.
\<close>

definition order_ok :: "zone \<Rightarrow> page_array \<Rightarrow> nat \<Rightarrow> nat list \<Rightarrow> bool" where
  "order_ok z m k xs \<longleftrightarrow>
     chain (- 1) (nxt z m) (prv z m) (- 1) (freelist (orders z k)) (map (start k) xs) \<and>
     distinct xs \<and> (\<forall>n \<in> set xs. blk k n \<subseteq> {..<2 ^ highest_order z}) \<and>
     (\<forall>j. 2 * j * 2 ^ k < 2 ^ highest_order z \<longrightarrow>
        j < bitmap_room (block_map (orders z k)) \<and>
        bitmap_bit (block_map (orders z k)) j = (2 * j \<in> set xs \<or> Suc (2 * j) \<in> set xs) \<and>
        \<not> (2 * j \<in> set xs \<and> Suc (2 * j) \<in> set xs))"

definition free_disjoint :: "nat \<Rightarrow> (nat \<Rightarrow> nat list) \<Rightarrow> bool" where
  "free_disjoint h F \<longleftrightarrow>
     (\<forall>k \<le> h. \<forall>k' \<le> h. \<forall>n \<in> set (F k). \<forall>n' \<in> set (F k'). (k, n) \<noteq> (k', n') \<longrightarrow> blk k n \<inter> blk k' n' = {})"

definition buddy_inv :: "zone \<Rightarrow> page_array \<Rightarrow> (nat \<Rightarrow> nat list) \<Rightarrow> bool" where
  "buddy_inv z m F \<longleftrightarrow> zone_place z m \<and> (\<forall>k \<le> highest_order z. order_ok z m k (F k)) \<and>
     free_disjoint (highest_order z) F"

definition free_set :: "nat \<Rightarrow> (nat \<Rightarrow> nat list) \<Rightarrow> nat set" where
  "free_set h F = (\<Union>k \<in> {..h}. \<Union>n \<in> set (F k). blk k n)"

lemma free_setI: "k \<le> h \<Longrightarrow> n \<in> set (F k) \<Longrightarrow> blk k n \<subseteq> free_set h F"
  by (auto simp: free_set_def)

lemma free_set_upd:
  assumes "k \<le> h"
  shows "free_set h (F(k := ys)) = (\<Union>k' \<in> {..h} - {k}. \<Union>n \<in> set (F k'). blk k' n) \<union> (\<Union>n \<in> set ys. blk k n)"
proof -
  have h: "insert k ({..h} - {k}) = {..h}" using assms by auto
  have e: "(\<Union>k' \<in> {..h} - {k}. \<Union>n \<in> set ((F(k := ys)) k'). blk k' n) =
      (\<Union>k' \<in> {..h} - {k}. \<Union>n \<in> set (F k'). blk k' n)" by (rule SUP_cong) auto
  have "free_set h (F(k := ys)) = (\<Union>k' \<in> insert k ({..h} - {k}). \<Union>n \<in> set ((F(k := ys)) k'). blk k' n)"
    by (simp only: free_set_def h)
  also have "\<dots> = (\<Union>n \<in> set ys. blk k n) \<union> (\<Union>k' \<in> {..h} - {k}. \<Union>n \<in> set (F k'). blk k' n)"
    by (simp only: UN_insert e fun_upd_same)
  finally show ?thesis by (simp only: Un_commute)
qed

lemma order_okD:
  assumes "order_ok z m k xs"
  shows "chain (- 1) (nxt z m) (prv z m) (- 1) (freelist (orders z k)) (map (start k) xs)" "distinct xs"
    "n \<in> set xs \<Longrightarrow> blk k n \<subseteq> {..<2 ^ highest_order z}"
    "n * 2 ^ k < 2 ^ highest_order z \<Longrightarrow> n div 2 < bitmap_room (block_map (orders z k))"
    "n * 2 ^ k < 2 ^ highest_order z \<Longrightarrow> bitmap_bit (block_map (orders z k)) (n div 2) =
       (2 * (n div 2) \<in> set xs \<or> Suc (2 * (n div 2)) \<in> set xs)"
    "n * 2 ^ k < 2 ^ highest_order z \<Longrightarrow> \<not> (2 * (n div 2) \<in> set xs \<and> Suc (2 * (n div 2)) \<in> set xs)"
proof -
  have j: "2 * (n div 2) * 2 ^ k < 2 ^ highest_order z" if "n * 2 ^ k < 2 ^ highest_order z"
  proof -
    have "2 * (n div 2) * 2 ^ k \<le> n * 2 ^ k" by (intro mult_le_mono1) simp
    then show ?thesis using that by linarith
  qed
  show "n * 2 ^ k < 2 ^ highest_order z \<Longrightarrow> n div 2 < bitmap_room (block_map (orders z k))"
    "n * 2 ^ k < 2 ^ highest_order z \<Longrightarrow> bitmap_bit (block_map (orders z k)) (n div 2) =
       (2 * (n div 2) \<in> set xs \<or> Suc (2 * (n div 2)) \<in> set xs)"
    "n * 2 ^ k < 2 ^ highest_order z \<Longrightarrow> \<not> (2 * (n div 2) \<in> set xs \<and> Suc (2 * (n div 2)) \<in> set xs)"
    using assms j by (auto simp: order_ok_def)
qed (use assms in \<open>auto simp: order_ok_def\<close>)

lemma start_in_zone: "blk k n \<subseteq> {..<2 ^ highest_order z} \<Longrightarrow> in_zone z (start k n)"
proof -
  assume "blk k n \<subseteq> {..<2 ^ highest_order z}"
  then have "n * 2 ^ k < 2 ^ highest_order z" using start_in_blk [of n k] by blast
  then have "start k n < int (2 ^ highest_order z)" by (simp only: start_def of_nat_less_iff)
  then show ?thesis by (simp add: in_zone_def start_def)
qed

lemma start_less: "blk k n \<subseteq> {..<2 ^ h} \<Longrightarrow> n * 2 ^ k < 2 ^ h"
  using start_in_blk [of n k] by blast

text \<open>The pages whose links may change: the starts of the blocks of a list.\<close>

definition links_off :: "zone \<Rightarrow> page_array \<Rightarrow> page_array \<Rightarrow> int set \<Rightarrow> bool" where
  "links_off z m m' A \<longleftrightarrow> (\<forall>c. c \<notin> A \<longrightarrow> nxt z m' c = nxt z m c \<and> prv z m' c = prv z m c)"

lemma order_ok_frame:
  assumes "order_ok z m k xs" "same_place z z'" "orders z' k = orders z k" "links_off z m m' A"
    "\<forall>n \<in> set xs. start k n \<notin> A"
  shows "order_ok z' m' k xs"
proof -
  have "chain (- 1) (nxt z m') (prv z m') (- 1) (freelist (orders z k)) (map (start k) xs)"
    using order_okD(1) [OF assms(1)] assms(4,5)
    by (subst chain_cong [where nx' = "nxt z m" and pv' = "prv z m"]) (auto simp: links_off_def)
  then show ?thesis
    using assms(1-3) links_same_place [OF assms(2)] by (simp add: order_ok_def)
qed

lemma inv_step:
  assumes inv: "buddy_inv z m F" and k: "k \<le> highest_order z" and ok: "order_ok z' m' k ys"
    and place: "same_place z z'" "zone_place z' m'" and os: "\<forall>k'. k' \<noteq> k \<longrightarrow> orders z' k' = orders z k'"
    and links: "links_off z m m' (start k ` (set (F k) \<union> set ys))"
    and new: "\<forall>n \<in> set ys. n \<in> set (F k) \<or> blk k n \<inter> free_set (highest_order z) F = {}"
  shows "buddy_inv z' m' (F(k := ys))"
proof -
  have dis: "blk k n \<inter> blk k' n' = {}" if "k' \<le> highest_order z" "k' \<noteq> k" "n' \<in> set (F k')"
    "n \<in> set (F k) \<union> set ys" for k' n n'
  proof (cases "n \<in> set (F k)")
    case True
    then show ?thesis using inv k that by (auto simp: buddy_inv_def free_disjoint_def)
  next
    case False
    then have "blk k n \<inter> free_set (highest_order z) F = {}" using new that(4) by blast
    then show ?thesis using free_setI [of k' "highest_order z" n' F] that by blast
  qed
  have "order_ok z' m' k' ((F(k := ys)) k')" if "k' \<le> highest_order z" for k'
  proof (cases "k' = k")
    case False
    have "start k' n' \<notin> start k ` (set (F k) \<union> set ys)" if "n' \<in> set (F k')" for n'
    proof
      assume "start k' n' \<in> start k ` (set (F k) \<union> set ys)"
      then obtain n where n: "n \<in> set (F k) \<union> set ys" "start k' n' = start k n" by blast
      from n(2) have e: "n' * 2 ^ k' = n * 2 ^ k" by (simp only: start_def of_nat_eq_iff)
      have "n * 2 ^ k \<in> blk k n \<inter> blk k' n'" using start_in_blk [of n k] start_in_blk [of n' k'] e by simp
      then show False using dis [OF \<open>k' \<le> highest_order z\<close> False that n(1)] by simp
    qed
    then show ?thesis
      using order_ok_frame [OF _ place(1) _ links] inv that False os by (simp add: buddy_inv_def)
  qed (use ok in simp)
  moreover have "free_disjoint (highest_order z) (F(k := ys))"
    unfolding free_disjoint_def
  proof (intro allI impI ballI)
    fix k1 k2 n1 n2
    assume h: "k1 \<le> highest_order z" "k2 \<le> highest_order z" "n1 \<in> set ((F(k := ys)) k1)"
      "n2 \<in> set ((F(k := ys)) k2)" "(k1, n1) \<noteq> (k2, n2)"
    consider (both) "k1 = k" "k2 = k" | (left) "k1 = k" "k2 \<noteq> k" | (right) "k1 \<noteq> k" "k2 = k"
      | (none) "k1 \<noteq> k" "k2 \<noteq> k" by blast
    then show "blk k1 n1 \<inter> blk k2 n2 = {}"
    proof cases
      case both
      then show ?thesis using h(5) blk_disjoint by simp
    next
      case left
      then show ?thesis using dis [of k2 n2 n1] h by simp
    next
      case right
      then show ?thesis using dis [of k1 n1 n2] h by (simp add: Int_commute)
    next
      case none
      then show ?thesis using inv h by (auto simp: buddy_inv_def free_disjoint_def)
    qed
  qed
  ultimately show ?thesis using place by (simp add: buddy_inv_def)
qed

section \<open>Steps on one order\<close>

lemma set_bit_ok:
  assumes "order_ok z m k xs" "n * 2 ^ k < 2 ^ highest_order z"
  obtains b where "set_bit z k (start k n) v = Inr (z\<lparr>orders := (orders z)(k := (orders z k)\<lparr>block_map := b\<rparr>)\<rparr>)"
    "bitmap_bit b = (bitmap_bit (block_map (orders z k)))(n div 2 := v)"
    "bitmap_room b = bitmap_room (block_map (orders z k))"
proof -
  obtain b where "bitmap_set (block_map (orders z k)) (n div 2) v = Inr b"
    "bitmap_bit b = (bitmap_bit (block_map (orders z k)))(n div 2 := v)"
    "bitmap_room b = bitmap_room (block_map (orders z k))"
    by (rule bitmap_set_ok [OF order_okD(4) [OF assms]])
  then show thesis using that by (simp add: set_bit_def)
qed

lemma get_bit_ok:
  assumes "order_ok z m k xs" "n * 2 ^ k < 2 ^ highest_order z"
  shows "get_bit z k (start k n) = Inr (2 * (n div 2) \<in> set xs \<or> Suc (2 * (n div 2)) \<in> set xs)"
  using bitmap_get_ok [OF order_okD(4) [OF assms]] order_okD(5) [OF assms]
  by (simp add: get_bit_def)

lemma order_ok_update:
  assumes ok: "order_ok z m k xs" and place: "same_place z z'"
    and b: "bitmap_bit (block_map (orders z' k)) = (bitmap_bit (block_map (orders z k)))(n div 2 := v)"
      "bitmap_room (block_map (orders z' k)) = bitmap_room (block_map (orders z k))"
    and c: "chain (- 1) (nxt z m') (prv z m') (- 1) (freelist (orders z' k)) (map (start k) ys)"
    and ys: "distinct ys" "\<forall>n \<in> set ys. blk k n \<subseteq> {..<2 ^ highest_order z}"
    and other: "\<forall>x. x div 2 \<noteq> n div 2 \<longrightarrow> (x \<in> set ys \<longleftrightarrow> x \<in> set xs)"
    and v: "v \<longleftrightarrow> 2 * (n div 2) \<in> set ys \<or> Suc (2 * (n div 2)) \<in> set ys"
      "\<not> (2 * (n div 2) \<in> set ys \<and> Suc (2 * (n div 2)) \<in> set ys)"
  shows "order_ok z' m' k ys"
proof -
  have "j < bitmap_room (block_map (orders z' k)) \<and>
      bitmap_bit (block_map (orders z' k)) j = (2 * j \<in> set ys \<or> Suc (2 * j) \<in> set ys) \<and>
      \<not> (2 * j \<in> set ys \<and> Suc (2 * j) \<in> set ys)" if "2 * j * 2 ^ k < 2 ^ highest_order z" for j
  proof (cases "j = n div 2")
    case True
    then show ?thesis using ok that b v by (auto simp: order_ok_def)
  next
    case False
    then have "2 * j \<in> set ys \<longleftrightarrow> 2 * j \<in> set xs" "Suc (2 * j) \<in> set ys \<longleftrightarrow> Suc (2 * j) \<in> set xs"
      using other by simp_all
    then show ?thesis using ok that b False by (auto simp: order_ok_def)
  qed
  then show ?thesis using c ys place links_same_place [OF place] by (simp add: order_ok_def)
qed

definition same_zone :: "zone \<Rightarrow> zone \<Rightarrow> nat \<Rightarrow> bool" where
  "same_zone z z' k \<longleftrightarrow> same_place z z' \<and> zone_pages z' = zone_pages z \<and> free_count z' = free_count z \<and>
     (\<forall>k'. k' \<noteq> k \<longrightarrow> orders z' k' = orders z k')"

text \<open>The pages at which the blocks of a list start.\<close>

definition starts :: "zone \<Rightarrow> nat \<Rightarrow> nat list \<Rightarrow> nat set" where
  "starts z k xs = (\<lambda>n. first_page z + n * 2 ^ k) ` set xs"

lemma page_of_start:
  assumes "zone_place z m" "blk k n \<subseteq> {..<2 ^ highest_order z}"
  shows "page_of_block z (start k n) = first_page z + n * 2 ^ k"
  using page_of_block_in(1) [OF assms(1) start_in_zone [OF assms(2)]] by (simp add: start_def nat_mult_distrib nat_power_eq)

text \<open>What one step of an operation does to the list of an order.\<close>

definition order_step :: "zone \<Rightarrow> page_array \<Rightarrow> nat \<Rightarrow> nat list \<Rightarrow> nat list \<Rightarrow> nat set \<Rightarrow> zone \<Rightarrow> page_array \<Rightarrow> bool" where
  "order_step z m k xs ys A z' m' \<longleftrightarrow>
     order_ok z' m' k ys \<and> same_zone z z' k \<and> links_off z m m' (start k ` (set xs \<union> set ys)) \<and> touches m m' A"

lemma put_links_ok:
  assumes place: "zone_place z m" and b: "in_zone z b" and h: "link_ok z h" and p: "link_ok z p"
  obtains m2 m3 where "put_block z m b (put_next h) = Inr m2" "put_block z m2 b (put_prev p) = Inr m3"
    "nxt z m3 = (nxt z m)(b := h)" "prv z m3 = (prv z m)(b := p)" "touches m m3 {page_of_block z b}"
proof -
  obtain m2 where m2: "put_block z m b (put_next h) = Inr m2" "nxt z m2 = (nxt z m)(b := h)" "prv z m2 = prv z m"
    "touches m m2 {page_of_block z b}" by (rule put_next_ok [OF place b h])
  then have "zone_place z m2" using place zone_place_touches by blast
  then obtain m3 where m3: "put_block z m2 b (put_prev p) = Inr m3" "nxt z m3 = nxt z m2" "prv z m3 = (prv z m2)(b := p)"
    "touches m2 m3 {page_of_block z b}" by (rule put_prev_ok [OF _ b p])
  show thesis by (rule that [OF m2(1) m3(1)]) (use m2 m3 touches_trans [OF m2(4) m3(4)] in auto)
qed

text \<open>The pair of a block holds the block and its buddy.\<close>

lemma pair_cases: "2 * (n div 2) = n \<or> Suc (2 * (n div 2)) = (n::nat)"
  by presburger

lemma same_pair: "x div 2 = n div 2 \<longleftrightarrow> x = 2 * (n div 2) \<or> x = Suc (2 * (n div 2))" for x n :: nat
  by auto

lemma head_link:
  assumes "order_ok z m k xs"
  shows "link_ok z (freelist (orders z k))" "freelist (orders z k) \<noteq> - 1 \<Longrightarrow> xs \<noteq> [] \<and> freelist (orders z k) = start k (hd xs)"
    "xs \<noteq> [] \<Longrightarrow> freelist (orders z k) = start k (hd xs)" "freelist (orders z k) = - 1 \<longleftrightarrow> xs = []"
proof -
  note c = order_okD(1) [OF assms]
  show e: "freelist (orders z k) = - 1 \<longleftrightarrow> xs = []" using chain_null_iff [OF c] by simp
  show h: "xs \<noteq> [] \<Longrightarrow> freelist (orders z k) = start k (hd xs)" using chain_hd [OF c] by (simp add: hd_map)
  then show "freelist (orders z k) \<noteq> - 1 \<Longrightarrow> xs \<noteq> [] \<and> freelist (orders z k) = start k (hd xs)" using e by blast
  show "link_ok z (freelist (orders z k))"
    using e h start_in_zone [OF order_okD(3) [OF assms], of "hd xs"] by (cases "xs = []") (auto simp: link_ok_def)
qed

lemma push_ok:
  assumes place: "zone_place z m" and ok: "order_ok z m k xs" and rng: "blk k n \<subseteq> {..<2 ^ highest_order z}"
    and free: "2 * (n div 2) \<notin> set xs" "Suc (2 * (n div 2)) \<notin> set xs"
    and z1: "z1 = z\<lparr>orders := (orders z)(k := (orders z k)\<lparr>block_map := b\<rparr>)\<rparr>"
      "bitmap_bit b = (bitmap_bit (block_map (orders z k)))(n div 2 := True)"
      "bitmap_room b = bitmap_room (block_map (orders z k))"
  defines "head \<equiv> freelist (orders z k)"
  obtains m1 m2 m3 where
    "(if head \<noteq> - 1 then put_block z1 m head (put_prev (start k n)) else Inr m) = Inr m1"
    "put_block z1 m1 (start k n) (put_next head) = Inr m2"
    "put_block z1 m2 (start k n) (put_prev (- 1)) = Inr m3"
    "order_step z m k xs (n # xs) (starts z k (n # xs)) (set_freelist z1 k (start k n)) m3"
proof -
  let ?s = "start k n"
  let ?z = "set_freelist z1 k ?s"
  have sp: "same_place z z1" "same_place z ?z" by (auto simp: z1(1) set_freelist_def)
  note ls = links_same_place [OF sp(1)]
  have s: "in_zone z ?s" "link_ok z ?s" using start_in_zone [OF rng] by (auto simp: link_ok_def)
  have h: "link_ok z head" "head \<noteq> - 1 \<Longrightarrow> in_zone z head \<and> xs \<noteq> [] \<and> head = start k (hd xs)"
    using head_link(1,2) [OF ok] by (auto simp: head_def link_ok_def)
  have nin: "n \<notin> set xs" using free pair_cases [of n] by metis
  have pg: "page_of_block z (start k x) \<in> starts z k (n # xs)" if "x \<in> set (n # xs)" for x
    using page_of_start [OF place] that rng order_okD(3) [OF ok] by (auto simp: starts_def)
  obtain m1 where m1: "(if head \<noteq> - 1 then put_block z m head (put_prev ?s) else Inr m) = Inr m1"
    "nxt z m1 = nxt z m" "prv z m1 = (if head = - 1 then prv z m else (prv z m)(head := ?s))"
    "touches m m1 (starts z k (n # xs))"
  proof (cases "head = - 1")
    case True
    then show thesis using that [of m] by simp
  next
    case False
    obtain m1 where "put_block z m head (put_prev ?s) = Inr m1" "nxt z m1 = nxt z m"
      "prv z m1 = (prv z m)(head := ?s)" "touches m m1 {page_of_block z head}"
      using put_prev_ok [OF place _ s(2), of head] h(2) [OF False] by blast
    moreover have "page_of_block z head \<in> starts z k (n # xs)" using pg [of "hd xs"] h(2) [OF False] by simp
    ultimately show thesis using that [of m1] False touches_trans [of m m1 _ m1 "{}"] by simp
  qed
  have place1: "zone_place z m1" using place zone_place_touches [OF m1(4)] by simp
  have null: "link_ok z (- 1)" by (simp add: link_ok_def)
  obtain m2 m3 where m3: "put_block z m1 ?s (put_next head) = Inr m2" "put_block z m2 ?s (put_prev (- 1)) = Inr m3"
    "nxt z m3 = (nxt z m1)(?s := head)" "prv z m3 = (prv z m1)(?s := - 1)" "touches m1 m3 {page_of_block z ?s}"
    by (rule put_links_ok [OF place1 s(1) h(1) null])
  have t: "touches m m3 (starts z k (n # xs))" using touches_trans [OF m1(4) m3(5)] pg [of n] by simp
  have ch: "chain (- 1) (nxt z m3) (prv z m3) (- 1) ?s (map (start k) (n # xs))"
    using chain_push [OF order_okD(1) [OF ok], of ?s] s(1) nin order_okD(2) [OF ok]
    by (auto simp: m1 m3 head_def [symmetric])
  have "order_ok ?z m3 k (n # xs)"
  proof (rule order_ok_update [OF ok sp(2), where n = n and v = True])
    show "chain (- 1) (nxt z m3) (prv z m3) (- 1) (freelist (orders ?z k)) (map (start k) (n # xs))"
      using ch by (simp add: set_freelist_def z1(1))
    show "\<forall>x. x div 2 \<noteq> n div 2 \<longrightarrow> (x \<in> set (n # xs) \<longleftrightarrow> x \<in> set xs)" by auto
    show "True \<longleftrightarrow> 2 * (n div 2) \<in> set (n # xs) \<or> Suc (2 * (n div 2)) \<in> set (n # xs)"
      using pair_cases [of n] by auto
    show "\<not> (2 * (n div 2) \<in> set (n # xs) \<and> Suc (2 * (n div 2)) \<in> set (n # xs))"
      using free by auto
  qed (use z1 nin order_okD(2,3) [OF ok] rng in \<open>auto simp: set_freelist_def\<close>)
  moreover have "links_off z m m3 (start k ` (set xs \<union> set (n # xs)))"
    using m1(2,3) m3(3,4) h(2) by (auto simp: links_off_def)
  moreover have "same_zone z ?z k" by (auto simp: same_zone_def set_freelist_def z1(1))
  ultimately have step: "order_step z m k xs (n # xs) (starts z k (n # xs)) ?z m3"
    using t by (simp add: order_step_def)
  have e: "put_block z1 = put_block z" using ls(3) by (simp add: put_block_def fun_eq_iff)
  show thesis by (rule that [of m1 m2 m3, unfolded e, OF m1(1) m3(1,2) step])
qed

lemma links_of_list:
  assumes "order_ok z m k xs" "n \<in> set xs"
  shows "nxt z m (start k n) = - 1 \<or> nxt z m (start k n) \<in> start k ` set xs"
    "prv z m (start k n) = - 1 \<or> prv z m (start k n) \<in> start k ` set xs"
    "freelist (orders z k) = start k n \<Longrightarrow> prv z m (start k n) = - 1"
proof -
  note c = order_okD(1) [OF assms(1)]
  obtain ys zs where xs: "xs = ys @ n # zs" using split_list [OF assms(2)] by blast
  note m = chain_middle [of "- 1" "nxt z m" "prv z m" "- 1" "freelist (orders z k)" "map (start k) ys" "start k n" "map (start k) zs"]
  have m': "prv z m (start k n) = (if ys = [] then - 1 else start k (last ys))"
    "nxt z m (start k n) = (if zs = [] then - 1 else start k (hd zs))"
    using m c xs by (auto simp: last_map hd_map)
  show "nxt z m (start k n) = - 1 \<or> nxt z m (start k n) \<in> start k ` set xs" using m' xs by auto
  show "prv z m (start k n) = - 1 \<or> prv z m (start k n) \<in> start k ` set xs" using m' xs by auto
  show "freelist (orders z k) = start k n \<Longrightarrow> prv z m (start k n) = - 1"
  proof -
    assume "freelist (orders z k) = start k n"
    then have "hd xs = n" using head_link(3) [OF assms(1)] xs by simp
    then have "ys = []" using xs order_okD(2) [OF assms(1)] by (cases ys) auto
    then show ?thesis using m' by simp
  qed
qed

lemma link_in_zone:
  assumes "order_ok z m k xs" "c \<in> start k ` set xs"
  shows "in_zone z c" "link_ok z c"
  using assms start_in_zone order_okD(3) [OF assms(1)] by (auto simp: link_ok_def)

lemma page_in_starts:
  assumes "zone_place z m" "order_ok z m k xs" "c \<in> start k ` set xs"
  shows "page_of_block z c \<in> starts z k xs"
  using assms(3) page_of_start [OF assms(1) order_okD(3) [OF assms(2)]] by (auto simp: starts_def)

lemma remove_ok:
  assumes place: "zone_place z m" and ok: "order_ok z m k xs" and n: "n \<in> set xs"
    and z1: "z1 = z\<lparr>orders := (orders z)(k := (orders z k)\<lparr>block_map := b\<rparr>)\<rparr>"
      "bitmap_bit b = (bitmap_bit (block_map (orders z k)))(n div 2 := False)"
      "bitmap_room b = bitmap_room (block_map (orders z k))"
  obtains z2 m2 where "remove_from_freelist z1 m (start k n) k = Inr (z2, m2)"
    "order_step z m k xs (remove1 n xs) (starts z k xs) z2 m2"
proof -
  let ?s = "start k n" and ?N = "nxt z m (start k n)" and ?P = "prv z m (start k n)"
  have sp: "same_place z z1" by (simp add: z1(1))
  have e: "put_block z1 = put_block z" "get_block z1 = get_block z"
    using links_same_place(3) [OF sp] by (simp_all add: put_block_def get_block_def fun_eq_iff)
  note ll = links_of_list [OF ok n]
  have s: "in_zone z ?s" using start_in_zone order_okD(3) [OF ok n] by blast
  have lN: "link_ok z ?N" and lP: "link_ok z ?P"
    using ll(1,2) link_in_zone(2) [OF ok] by (auto simp: link_ok_def)
  obtain page where page: "get_block z m ?s = Inr page" "free_next page = ?N" "free_prev page = ?P"
    by (rule get_block_ok [OF place s])
  obtain m1 where m1: "(if ?N \<noteq> - 1 then put_block z m ?N (put_prev ?P) else Inr m) = Inr m1"
    "nxt z m1 = nxt z m" "prv z m1 = unlink_prev (- 1) (nxt z m) (prv z m) ?s" "touches m m1 (starts z k xs)"
  proof (cases "?N = - 1")
    case True
    then show thesis using that [of m] by (simp add: unlink_prev_def)
  next
    case False
    then have N: "?N \<in> start k ` set xs" using ll(1) by simp
    obtain m1 where "put_block z m ?N (put_prev ?P) = Inr m1" "nxt z m1 = nxt z m"
      "prv z m1 = (prv z m)(?N := ?P)" "touches m m1 {page_of_block z ?N}"
      by (rule put_prev_ok [OF place link_in_zone(1) [OF ok N] lP])
    then show thesis
      using that [of m1] False touches_trans [of m m1 _ m1 "{}"] page_in_starts [OF place ok N]
      by (simp add: unlink_prev_def)
  qed
  have place1: "zone_place z m1" using place zone_place_touches [OF m1(4)] by simp
  obtain m2 where m2: "(if ?P \<noteq> - 1 then put_block z m1 ?P (put_next ?N) else Inr m1) = Inr m2"
    "nxt z m2 = unlink_next (- 1) (nxt z m) (prv z m) ?s" "prv z m2 = prv z m1" "touches m m2 (starts z k xs)"
  proof (cases "?P = - 1")
    case True
    then show thesis using that [of m1] m1 by (simp add: unlink_next_def)
  next
    case False
    then have P: "?P \<in> start k ` set xs" using ll(2) by simp
    obtain m2 where "put_block z m1 ?P (put_next ?N) = Inr m2" "nxt z m2 = (nxt z m1)(?P := ?N)"
      "prv z m2 = prv z m1" "touches m1 m2 {page_of_block z ?P}"
      by (rule put_next_ok [OF place1 link_in_zone(1) [OF ok P] lN])
    then show thesis
      using that [of m2] False m1(2) touches_trans [OF m1(4)] page_in_starts [OF place ok P]
      by (simp add: unlink_next_def)
  qed
  let ?z2 = "if freelist (orders z k) = ?s then set_freelist z1 k ?N else z1"
  have eq: "remove_from_freelist z1 m ?s k = Inr (?z2, m2)"
    unfolding remove_from_freelist_def e page(1) rbind_simps page(2,3) m1(1) m2(1)
    using ll(3) by (simp add: z1(1))
  have sp2: "same_place z ?z2" by (simp add: z1(1) set_freelist_def)
  have fl: "freelist (orders ?z2 k) = (if freelist (orders z k) = ?s then ?N else freelist (orders z k))"
    by (simp add: set_freelist_def z1(1))
  have rm: "remove1 ?s (map (start k) xs) = map (start k) (remove1 n xs)"
    by (induction xs) auto
  have "order_ok ?z2 m2 k (remove1 n xs)"
  proof (rule order_ok_update [OF ok sp2, where n = n and v = False])
    show "chain (- 1) (nxt z m2) (prv z m2) (- 1) (freelist (orders ?z2 k)) (map (start k) (remove1 n xs))"
      using chain_unlink [OF order_okD(1) [OF ok], of ?s] n order_okD(2) [OF ok]
      unfolding fl m2(2,3) m1(3) rm by simp
    have "2 * (n div 2) \<notin> set (remove1 n xs)" "Suc (2 * (n div 2)) \<notin> set (remove1 n xs)"
      using order_okD(6) [OF ok start_less [OF order_okD(3) [OF ok n]]] n pair_cases [of n] order_okD(2) [OF ok]
      by auto
    then show "False \<longleftrightarrow> 2 * (n div 2) \<in> set (remove1 n xs) \<or> Suc (2 * (n div 2)) \<in> set (remove1 n xs)"
      "\<not> (2 * (n div 2) \<in> set (remove1 n xs) \<and> Suc (2 * (n div 2)) \<in> set (remove1 n xs))" by auto
    show "\<forall>x. x div 2 \<noteq> n div 2 \<longrightarrow> (x \<in> set (remove1 n xs) \<longleftrightarrow> x \<in> set xs)"
      using order_okD(2) [OF ok] by auto
  qed (use z1 order_okD(2,3) [OF ok] in \<open>auto simp: set_freelist_def\<close>)
  moreover have "links_off z m m2 (start k ` (set xs \<union> set (remove1 n xs)))"
    unfolding links_off_def m2(2,3) m1(3)
  proof (intro allI impI)
    fix c
    assume "c \<notin> start k ` (set xs \<union> set (remove1 n xs))"
    then have "c \<notin> set (map (start k) xs)" by auto
    then show "unlink_next (- 1) (nxt z m) (prv z m) ?s c = nxt z m c \<and>
        unlink_prev (- 1) (nxt z m) (prv z m) ?s c = prv z m c"
      using unlink_other [OF order_okD(1) [OF ok], of ?s c] n order_okD(2) [OF ok] by simp
  qed
  moreover have "same_zone z ?z2 k" by (auto simp: same_zone_def set_freelist_def z1(1))
  ultimately show thesis using that [OF eq] m2(4) by (simp add: order_step_def)
qed

lemma pop_ok:
  assumes place: "zone_place z m" and ok: "order_ok z m k (n # ys)"
    and z1: "z1 = z\<lparr>orders := (orders z)(k := (orders z k)\<lparr>block_map := b\<rparr>)\<rparr>"
      "bitmap_bit b = (bitmap_bit (block_map (orders z k)))(n div 2 := False)"
      "bitmap_room b = bitmap_room (block_map (orders z k))"
  obtains page m1 where "get_block z1 m (start k n) = Inr page"
    "put_block (set_freelist z1 k (free_next page)) m (free_next page) (put_prev (- 1)) = Inr m1"
    "order_step z m k (n # ys) ys (insert (first_page z - 1) (starts z k (n # ys))) (set_freelist z1 k (free_next page)) m1"
    "ys = [] \<Longrightarrow> half1 (pages m1 (first_page z - 1)) = word_of_int (- 1)"
proof -
  let ?s = "start k n" and ?N = "nxt z m (start k n)"
  let ?z2 = "set_freelist z1 k ?N"
  have sp: "same_place z z1" "same_place z ?z2" by (simp_all add: z1(1) set_freelist_def)
  have e: "put_block ?z2 = put_block z" "get_block z1 = get_block z"
    using links_same_place(3) [OF sp(1)] links_same_place(3) [OF sp(2)]
    by (simp_all add: put_block_def get_block_def fun_eq_iff)
  have null: "link_ok z (- 1)" by (simp add: link_ok_def)
  have nin: "n \<in> set (n # ys)" by simp
  have s: "in_zone z ?s" using start_in_zone order_okD(3) [OF ok nin] by blast
  obtain page where page: "get_block z m ?s = Inr page" "free_next page = ?N" "free_prev page = prv z m ?s"
    by (rule get_block_ok [OF place s])
  have N: "?N = (if ys = [] then - 1 else start k (hd ys))"
    using order_okD(1) [OF ok] chain_hd [of "- 1" "nxt z m" "prv z m" ?s ?N "map (start k) ys"]
    by (auto simp: hd_map)
  obtain m1 where m1: "put_block z m ?N (put_prev (- 1)) = Inr m1" "nxt z m1 = nxt z m"
    "\<forall>c. c \<noteq> - 1 \<longrightarrow> prv z m1 c = ((prv z m)(?N := - 1)) c"
    "touches m m1 (insert (first_page z - 1) (starts z k (n # ys)))"
    "ys = [] \<Longrightarrow> half1 (pages m1 (first_page z - 1)) = word_of_int (- 1)"
  proof (cases "ys = []")
    case True
    obtain m1 where "put_block z m (- 1) (put_prev (- 1)) = Inr m1" "nxt z m1 = nxt z m" "prv z m1 = prv z m"
      "touches m m1 {first_page z - 1}" "half1 (pages m1 (first_page z - 1)) = word_of_int (- 1)"
      by (rule put_before_ok [OF place])
    then show thesis using that [of m1] True N touches_trans [of m m1 _ m1 "{}"] by simp
  next
    case False
    then have "start k (hd ys) \<in> start k ` set (n # ys)" by simp
    note h = link_in_zone(1) [OF ok this] page_in_starts [OF place ok this]
    obtain m1 where "put_block z m (start k (hd ys)) (put_prev (- 1)) = Inr m1" "nxt z m1 = nxt z m"
      "prv z m1 = (prv z m)(start k (hd ys) := - 1)" "touches m m1 {page_of_block z (start k (hd ys))}"
      by (rule put_prev_ok [OF place h(1) null])
    then show thesis using that [of m1] False N h(2) touches_trans [of m m1 _ m1 "{}"] by simp
  qed
  have fl: "freelist (orders ?z2 k) = ?N" by (simp add: set_freelist_def)
  have ch: "chain (- 1) (nxt z m) ((prv z m)(?N := - 1)) (- 1) ?N (map (start k) ys)"
    using chain_pop [of "- 1" "nxt z m" "prv z m" "freelist (orders z k)" ?s "map (start k) ys"]
      order_okD(1,2) [OF ok] by simp
  have "order_ok ?z2 m1 k ys"
  proof (rule order_ok_update [OF ok sp(2), where n = n and v = False])
    show "chain (- 1) (nxt z m1) (prv z m1) (- 1) (freelist (orders ?z2 k)) (map (start k) ys)"
    proof -
      have "prv z m1 c = ((prv z m)(?N := - 1)) c" if "c \<in> set (map (start k) ys)" for c
      proof -
        have "c \<noteq> - 1" using that by auto
        then show ?thesis using m1(3) by blast
      qed
      then show ?thesis
        unfolding fl m1(2) using ch
        by (simp only: chain_cong [of "map (start k) ys" "nxt z m" "nxt z m" "prv z m1" "(prv z m)(?N := - 1)"])
    qed
    have "2 * (n div 2) \<notin> set ys" "Suc (2 * (n div 2)) \<notin> set ys"
      using order_okD(6) [OF ok start_less [OF order_okD(3) [OF ok nin]]] pair_cases [of n] order_okD(2) [OF ok]
      by auto
    then show "False \<longleftrightarrow> 2 * (n div 2) \<in> set ys \<or> Suc (2 * (n div 2)) \<in> set ys"
      "\<not> (2 * (n div 2) \<in> set ys \<and> Suc (2 * (n div 2)) \<in> set ys)" by auto
  qed (use z1 order_okD(2,3) [OF ok] in \<open>auto simp: set_freelist_def\<close>)
  moreover have "links_off z m m1 (start k ` (set (n # ys) \<union> set ys))"
    unfolding links_off_def
  proof (intro allI impI)
    fix c
    assume c: "c \<notin> start k ` (set (n # ys) \<union> set ys)"
    show "nxt z m1 c = nxt z m c \<and> prv z m1 c = prv z m c"
    proof (cases "c = - 1")
      case True
      then show ?thesis using m1(2) by (simp add: prv_def in_zone_def)
    next
      case False
      have "c \<noteq> ?N" using c N False hd_in_set [of ys] by (auto split: if_splits)
      then show ?thesis using m1(2,3) False by simp
    qed
  qed
  moreover have "same_zone z ?z2 k" by (auto simp: same_zone_def set_freelist_def z1(1))
  ultimately have step: "order_step z m k (n # ys) ys (insert (first_page z - 1) (starts z k (n # ys))) ?z2 m1"
    using m1(4) by (simp add: order_step_def)
  show thesis by (rule that [of page m1, unfolded page(2) e, OF page(1) m1(1) step m1(5)])
qed

section \<open>Allocation\<close>

text \<open>The descriptors an operation may write: those of free pages, and the one before the zone.\<close>

definition own_pages :: "zone \<Rightarrow> (nat \<Rightarrow> nat list) \<Rightarrow> nat set" where
  "own_pages z F = insert (first_page z - 1) ((\<lambda>i. first_page z + i) ` free_set (highest_order z) F)"

lemma starts_own: "k \<le> highest_order z \<Longrightarrow> set xs \<subseteq> set (F k) \<Longrightarrow> starts z k xs \<subseteq> own_pages z F"
  using start_in_blk free_setI [of k "highest_order z" _ F] by (fastforce simp: starts_def own_pages_def)

lemma order_step_inv:
  assumes "buddy_inv z m F" "k \<le> highest_order z" "order_step z m k (F k) ys A z' m'"
    "\<forall>n \<in> set ys. n \<in> set (F k) \<or> blk k n \<inter> free_set (highest_order z) F = {}"
  shows "buddy_inv z' m' (F(k := ys))"
  using assms inv_step [OF assms(1,2), of z' m' ys] zone_place_touches [of m m' A z]
    links_same_place(4) [of z z' m']
  by (auto simp: order_step_def same_zone_def buddy_inv_def)

lemma free_set_add: "k \<le> h \<Longrightarrow> free_set h (F(k := n # F k)) = free_set h F \<union> blk k n"
  using free_set_upd [of k h F "n # F k"] free_set_upd [of k h F "F k"] by auto

lemma union_minus_part: "A \<inter> R = {} \<Longrightarrow> A \<inter> Y = {} \<Longrightarrow> S = R \<union> (A \<union> Y) \<Longrightarrow> T = R \<union> Y \<Longrightarrow> T = S - A"
  by blast

lemma free_set_remove:
  assumes "free_disjoint h F" "k \<le> h" "set (F k) = insert n (set ys)" "n \<notin> set ys"
  shows "free_set h (F(k := ys)) = free_set h F - blk k n"
proof -
  let ?R = "\<Union>k' \<in> {..h} - {k}. \<Union>n \<in> set (F k'). blk k' n" and ?Y = "\<Union>n \<in> set ys. blk k n"
  have n: "n \<in> set (F k)" using assms(3) by simp
  have "blk k n \<inter> blk k' n' = {}" if "k' \<in> {..h} - {k}" "n' \<in> set (F k')" for k' n'
    using assms(1,2) n that by (auto simp: free_disjoint_def)
  then have "blk k n \<inter> ?R = {}" by blast
  moreover have "blk k n \<inter> blk k n' = {}" if "n' \<in> set ys" for n'
    using that assms(4) by (intro blk_disjoint) auto
  then have "blk k n \<inter> ?Y = {}" by blast
  moreover have "free_set h F = ?R \<union> (blk k n \<union> ?Y)"
    using free_set_upd [OF assms(2), of F "F k"] assms(3) by simp
  moreover have "free_set h (F(k := ys)) = ?R \<union> ?Y" by (rule free_set_upd [OF assms(2)])
  ultimately show ?thesis by (rule union_minus_part)
qed

definition same_consts :: "zone \<Rightarrow> zone \<Rightarrow> bool" where
  "same_consts z z' \<longleftrightarrow> same_place z z' \<and> zone_pages z' = zone_pages z \<and> free_count z' = free_count z"

definition alloc_post :: "zone \<Rightarrow> page_array \<Rightarrow> (nat \<Rightarrow> nat list) \<Rightarrow> nat \<Rightarrow> nat \<Rightarrow> zone \<Rightarrow> page_array \<Rightarrow> (nat \<Rightarrow> nat list) \<Rightarrow> bool" where
  "alloc_post z m F k n z' m' F' \<longleftrightarrow>
     buddy_inv z' m' F' \<and> blk k n \<subseteq> free_set (highest_order z) F \<and>
     free_set (highest_order z) F' = free_set (highest_order z) F - blk k n \<and> same_consts z z' \<and>
     (\<forall>k' < k. F' k' = F k') \<and> touches m m' (own_pages z F)"

lemma alloc_pop:
  assumes inv: "buddy_inv z m F" and k: "k \<le> highest_order z" and F: "F k = n # ys"
  obtains z' m' where "alloc_block_internal (highest_order z) z m k = Inr (start k n, z', m')"
    "alloc_post z m F k n z' m' (F(k := ys))" "ys = [] \<Longrightarrow> half1 (pages m' (first_page z - 1)) = word_of_int (- 1)"
proof -
  have place: "zone_place z m" and ok: "order_ok z m k (n # ys)" and dis: "free_disjoint (highest_order z) F"
    using inv k F by (auto simp: buddy_inv_def dest!: spec [of _ k])
  have rng: "blk k n \<subseteq> {..<2 ^ highest_order z}" using order_okD(3) [OF ok] by simp
  note sl = start_less [OF rng]
  have head: "freelist (orders z k) = start k n" using head_link(3) [OF ok] by simp
  have bit: "get_bit z k (start k n) = Inr True"
    using get_bit_ok [OF ok sl] pair_cases [of n] by auto
  obtain b where b: "set_bit z k (start k n) False = Inr (z\<lparr>orders := (orders z)(k := (orders z k)\<lparr>block_map := b\<rparr>)\<rparr>)"
    "bitmap_bit b = (bitmap_bit (block_map (orders z k)))(n div 2 := False)"
    "bitmap_room b = bitmap_room (block_map (orders z k))" by (rule set_bit_ok [OF ok sl])
  let ?z1 = "z\<lparr>orders := (orders z)(k := (orders z k)\<lparr>block_map := b\<rparr>)\<rparr>"
  obtain page m1 where p: "get_block ?z1 m (start k n) = Inr page"
    "put_block (set_freelist ?z1 k (free_next page)) m (free_next page) (put_prev (- 1)) = Inr m1"
    "order_step z m k (n # ys) ys (insert (first_page z - 1) (starts z k (n # ys))) (set_freelist ?z1 k (free_next page)) m1"
    "ys = [] \<Longrightarrow> half1 (pages m1 (first_page z - 1)) = word_of_int (- 1)"
    by (rule pop_ok [OF place ok refl b(2,3)]) (rule that)
  let ?z2 = "set_freelist ?z1 k (free_next page)"
  have fl: "freelist (orders ?z2 k) = free_next page" by (simp add: set_freelist_def)
  have eq: "alloc_block_internal (highest_order z) z m k = Inr (start k n, ?z2, m1)"
    unfolding alloc_block_internal.simps [of _ z m k] head Let_def bit b(1) rbind_simps p(1) fl p(2)
    using k by simp
  have "buddy_inv ?z2 m1 (F(k := ys))"
    using order_step_inv [OF inv k] p(3) F by auto
  moreover have "free_set (highest_order z) (F(k := ys)) = free_set (highest_order z) F - blk k n"
    using order_okD(2) [OF ok] F by (intro free_set_remove [OF dis k]) auto
  moreover have "touches m m1 (own_pages z F)"
    using p(3) starts_own [OF k, of "n # ys" F] F touches_trans [of m m1 _ m1 "{}" "own_pages z F"]
    by (auto simp: order_step_def own_pages_def)
  ultimately have "alloc_post z m F k n ?z2 m1 (F(k := ys))"
    using p(3) free_setI [OF k, of n F] F by (auto simp: alloc_post_def order_step_def same_zone_def same_consts_def)
  then show thesis using that eq p(4) by blast
qed

lemma inv_order: "buddy_inv z m F \<Longrightarrow> k \<le> highest_order z \<Longrightarrow> order_ok z m k (F k)"
  by (simp add: buddy_inv_def)

lemma inv_freelist: "buddy_inv z m F \<Longrightarrow> k \<le> highest_order z \<Longrightarrow> freelist (orders z k) = - 1 \<longleftrightarrow> F k = []"
  using head_link(4) [OF inv_order] by blast

lemma start_Suc: "start (Suc k) n = start k (2 * n)"
  by (simp add: start_def)

lemma start_buddy: "start k n + int (size_of_order k) = start k (Suc n)"
  by (simp add: start_def size_of_order_def)

lemma blk_halves: "blk k (2 * n) \<subseteq> blk (Suc k) n" "blk k (Suc (2 * n)) \<subseteq> blk (Suc k) n"
  "blk k (2 * n) \<inter> blk k (Suc (2 * n)) = {}"
  using blk_split [of k n] blk_disjoint [of "2 * n" "Suc (2 * n)" k] by auto

lemma alloc_split:
  assumes inv: "buddy_inv z m F" and k: "k < highest_order z" and F: "F k = []"
    and rec: "alloc_block_internal (highest_order z) z m (Suc k) = Inr (start (Suc k) n, z1, m1)"
    and post: "alloc_post z m F (Suc k) n z1 m1 F1"
  obtains z' m' where "alloc_block_internal (highest_order z) z m k = Inr (start k (2 * n), z', m')"
    "alloc_post z m F k (2 * n) z' m' (F1(k := [Suc (2 * n)]))"
proof -
  let ?H = "highest_order z"
  have inv1: "buddy_inv z1 m1 F1" and fs: "free_set ?H F1 = free_set ?H F - blk (Suc k) n"
    and sub: "blk (Suc k) n \<subseteq> free_set ?H F" and con: "same_consts z z1" and F1: "F1 k = []"
    and low: "\<forall>k' < k. F1 k' = F k'" and t1: "touches m m1 (own_pages z F)"
    using post F by (auto simp: alloc_post_def)
  have H: "highest_order z1 = ?H" using con by (simp add: same_consts_def)
  have place: "zone_place z1 m1" and ok: "order_ok z1 m1 k []"
    using inv1 k H F1 by (auto simp: buddy_inv_def dest!: spec [of _ k])
  have "free_set ?H F \<subseteq> {..<2 ^ ?H}"
    using inv by (auto simp: free_set_def buddy_inv_def order_ok_def)
  then have rng: "blk k (2 * n) \<subseteq> {..<2 ^ highest_order z1}" "blk k (Suc (2 * n)) \<subseteq> {..<2 ^ highest_order z1}"
    using sub blk_halves [of k n] unfolding H by blast+
  obtain b where b: "set_bit z1 k (start k (2 * n)) True = Inr (z1\<lparr>orders := (orders z1)(k := (orders z1 k)\<lparr>block_map := b\<rparr>)\<rparr>)"
    "bitmap_bit b = (bitmap_bit (block_map (orders z1 k)))((2 * n) div 2 := True)"
    "bitmap_room b = bitmap_room (block_map (orders z1 k))" by (rule set_bit_ok [OF ok start_less [OF rng(1)]])
  let ?z2 = "z1\<lparr>orders := (orders z1)(k := (orders z1 k)\<lparr>block_map := b\<rparr>)\<rparr>"
  have b': "bitmap_bit b = (bitmap_bit (block_map (orders z1 k)))(Suc (2 * n) div 2 := True)" using b(2) by simp
  have null: "freelist (orders z1 k) = - 1" using head_link(4) [OF ok] by simp
  let ?s = "start k (Suc (2 * n))"
  obtain m2 m3 where p: "put_block ?z2 m1 ?s (put_next (- 1)) = Inr m2" "put_block ?z2 m2 ?s (put_prev (- 1)) = Inr m3"
    "order_step z1 m1 k [] [Suc (2 * n)] (starts z1 k [Suc (2 * n)]) (set_freelist ?z2 k ?s) m3"
  proof (rule push_ok [OF place ok rng(2) _ _ refl b' b(3)])
    fix ma mb mc
    assume "(if freelist (orders z1 k) \<noteq> - 1 then put_block ?z2 m1 (freelist (orders z1 k)) (put_prev ?s) else Inr m1) = Inr ma"
      "put_block ?z2 ma ?s (put_next (freelist (orders z1 k))) = Inr mb" "put_block ?z2 mb ?s (put_prev (- 1)) = Inr mc"
      "order_step z1 m1 k [] [Suc (2 * n)] (starts z1 k [Suc (2 * n)]) (set_freelist ?z2 k ?s) mc"
    then show thesis using that [of mb mc] null by simp
  qed simp_all
  let ?z3 = "set_freelist ?z2 k ?s"
  have e: "put_block ?z3 = put_block ?z2"
    by (simp add: put_block_def page_of_block_def set_freelist_def fun_eq_iff)
  have fl: "freelist (orders z k) = - 1"
    using inv_freelist [OF inv, of k] k F by simp
  have eq: "alloc_block_internal ?H z m k = Inr (start k (2 * n), ?z3, m3)"
    unfolding alloc_block_internal.simps [of _ z m k] fl
    using k rec p(1,2) b(1) by (simp add: Let_def start_Suc start_buddy e)
  have new: "blk k (Suc (2 * n)) \<inter> free_set ?H F1 = {}" using fs blk_halves(2) [of k n] by blast
  have kH: "k \<le> highest_order z1" using k H by simp
  have "buddy_inv ?z3 m3 (F1(k := [Suc (2 * n)]))"
    using order_step_inv [OF inv1 kH] p(3) F1 new H by simp
  moreover have "free_set ?H (F1(k := [Suc (2 * n)])) = free_set ?H F - blk k (2 * n)"
  proof -
    have "free_set ?H (F1(k := [Suc (2 * n)])) = free_set ?H F1 \<union> blk k (Suc (2 * n))"
      using free_set_add [of k ?H F1 "Suc (2 * n)"] k F1 by simp
    also have "\<dots> = free_set ?H F - blk k (2 * n)"
      using fs sub blk_split [of k n] blk_halves(3) [of k n] by blast
    finally show ?thesis .
  qed
  moreover have "touches m m3 (own_pages z F)"
  proof (rule touches_trans [OF t1])
    show "touches m1 m3 (starts z1 k [Suc (2 * n)])" using p(3) by (simp add: order_step_def)
    have "Suc (2 * n) * 2 ^ k \<in> free_set ?H F" using start_in_blk [of "Suc (2 * n)" k] blk_halves(2) [of k n] sub by blast
    then show "starts z1 k [Suc (2 * n)] \<subseteq> own_pages z F"
      using con by (auto simp: starts_def own_pages_def same_consts_def)
  qed simp
  moreover have "same_consts z ?z3" using con p(3) by (auto simp: same_consts_def order_step_def same_zone_def)
  moreover have "blk k (2 * n) \<subseteq> free_set ?H F" using sub blk_halves(1) [of k n] by blast
  ultimately have "alloc_post z m F k (2 * n) ?z3 m3 (F1(k := [Suc (2 * n)]))"
    using low by (simp add: alloc_post_def)
  then show thesis using that eq by blast
qed

lemma alloc_internal_ok:
  assumes "buddy_inv z m F" "k \<le> highest_order z"
  obtains (none) "\<forall>k'. k \<le> k' \<and> k' \<le> highest_order z \<longrightarrow> F k' = []"
    "alloc_block_internal (highest_order z) z m k = Inl AssertFail"
  | (some) n z' m' F' where "alloc_block_internal (highest_order z) z m k = Inr (start k n, z', m')"
    "alloc_post z m F k n z' m' F'"
  using assms(2)
proof (induction "highest_order z - k" arbitrary: k thesis)
  case 0
  then have k: "k = highest_order z" by simp
  show ?case
  proof (cases "F k")
    case Nil
    have "freelist (orders z k) = - 1"
      using inv_freelist [OF assms(1), of k] Nil k by simp
    then have "alloc_block_internal (highest_order z) z m k = Inl AssertFail"
      using k by (subst alloc_block_internal.simps) (simp add: alloc_block_internal.simps [of _ z m "Suc (highest_order z)"])
    then show ?thesis using 0(2) Nil k by (metis le_antisym)
  next
    case (Cons n ys)
    obtain z' m' where "alloc_block_internal (highest_order z) z m k = Inr (start k n, z', m')"
      "alloc_post z m F k n z' m' (F(k := ys))" by (rule alloc_pop [OF assms(1) 0(4) Cons])
    then show ?thesis using 0(3) by blast
  qed
next
  case (Suc d)
  have k: "k < highest_order z" using Suc.hyps(2) by simp
  show ?case
  proof (cases "F k")
    case Nil
    have fl: "freelist (orders z k) = - 1"
      using inv_freelist [OF assms(1), of k] Nil k by simp
    show ?thesis
    proof (rule Suc.hyps(1) [of "Suc k"])
      show "d = highest_order z - Suc k" "Suc k \<le> highest_order z" using Suc.hyps(2) by simp_all
    next
      assume h: "\<forall>k'. Suc k \<le> k' \<and> k' \<le> highest_order z \<longrightarrow> F k' = []"
        "alloc_block_internal (highest_order z) z m (Suc k) = Inl AssertFail"
      have "\<forall>k'. k \<le> k' \<and> k' \<le> highest_order z \<longrightarrow> F k' = []"
        using h(1) Nil by (metis Suc_leI le_neq_implies_less)
      moreover have "alloc_block_internal (highest_order z) z m k = Inl AssertFail"
        using h(2) fl k by (simp add: alloc_block_internal.simps [of _ z m k])
      ultimately show ?thesis by (rule Suc.prems(1))
    next
      fix n z1 m1 F1
      assume "alloc_block_internal (highest_order z) z m (Suc k) = Inr (start (Suc k) n, z1, m1)"
        "alloc_post z m F (Suc k) n z1 m1 F1"
      then obtain z' m' where "alloc_block_internal (highest_order z) z m k = Inr (start k (2 * n), z', m')"
        "alloc_post z m F k (2 * n) z' m' (F1(k := [Suc (2 * n)]))"
        by (rule alloc_split [OF assms(1) k Nil])
      then show ?thesis by (rule Suc.prems(2))
    qed
  next
    case (Cons n ys)
    obtain z' m' where "alloc_block_internal (highest_order z) z m k = Inr (start k n, z', m')"
      "alloc_post z m F k n z' m' (F(k := ys))" by (rule alloc_pop [OF assms(1) Suc.prems(3) Cons])
    then show ?thesis by (rule Suc.prems(2))
  qed
qed

section \<open>Release\<close>

definition free_post :: "zone \<Rightarrow> page_array \<Rightarrow> (nat \<Rightarrow> nat list) \<Rightarrow> nat \<Rightarrow> nat \<Rightarrow> zone \<Rightarrow> page_array \<Rightarrow> (nat \<Rightarrow> nat list) \<Rightarrow> bool" where
  "free_post z m F k n z' m' F' \<longleftrightarrow>
     buddy_inv z' m' F' \<and> free_set (highest_order z) F' = free_set (highest_order z) F \<union> blk k n \<and>
     same_consts z z' \<and> touches m m' (own_pages z F \<union> (\<lambda>i. first_page z + i) ` blk k n)"

definition buddy :: "nat \<Rightarrow> nat" where
  "buddy n = (if 2 * (n div 2) = n then Suc n else n - 1)"

lemma buddy_pair:
  "buddy n div 2 = n div 2" "buddy n \<noteq> n" "blk (Suc k) (n div 2) = blk k n \<union> blk k (buddy n)"
  "2 * (n div 2) \<in> A \<or> Suc (2 * (n div 2)) \<in> A \<longleftrightarrow> n \<in> A \<or> buddy n \<in> A"
proof -
  have c: "(2 * (n div 2) = n \<and> buddy n = Suc (2 * (n div 2))) \<or>
      (Suc (2 * (n div 2)) = n \<and> buddy n = 2 * (n div 2) \<and> 2 * (n div 2) \<noteq> n)"
    using pair_cases [of n] by (auto simp: buddy_def)
  show "buddy n div 2 = n div 2" using c by (elim disjE conjE) simp_all
  show "buddy n \<noteq> n" using c by (elim disjE conjE) simp_all
  show "blk (Suc k) (n div 2) = blk k n \<union> blk k (buddy n)"
    using c by (elim disjE conjE) (simp_all add: blk_split Un_commute)
  show "2 * (n div 2) \<in> A \<or> Suc (2 * (n div 2)) \<in> A \<longleftrightarrow> n \<in> A \<or> buddy n \<in> A"
    using c by (elim disjE conjE) auto
qed

lemma first_of_pair:
  "int (bit_index k (start k n) * 2 * size_of_order k) = start (Suc k) (n div 2)"
  "(if start k n = start (Suc k) (n div 2) then start (Suc k) (n div 2) + int (size_of_order k)
    else start (Suc k) (n div 2)) = start k (buddy n)"
proof -
  show "int (bit_index k (start k n) * 2 * size_of_order k) = start (Suc k) (n div 2)"
    unfolding bit_index_start by (simp add: start_def size_of_order_def)
  show "(if start k n = start (Suc k) (n div 2) then start (Suc k) (n div 2) + int (size_of_order k)
      else start (Suc k) (n div 2)) = start k (buddy n)"
    using pair_cases [of n] by (auto simp: start_Suc start_buddy buddy_def)
qed

lemma blk_top: "blk h n \<subseteq> {..<2 ^ h} \<Longrightarrow> n = 0"
  using blk_subset [of h n h] by (cases n) auto

lemma not_free_block: "k \<le> h \<Longrightarrow> blk k n \<inter> free_set h F = {} \<Longrightarrow> n \<notin> set (F k)"
  using free_setI [of k h n F] blk_nonempty [of k n] by blast

lemma free_push:
  assumes inv: "buddy_inv z m F" and k: "k \<le> highest_order z" and rng: "blk k n \<subseteq> {..<2 ^ highest_order z}"
    and new: "blk k n \<inter> free_set (highest_order z) F = {}" and bud: "buddy n \<notin> set (F k)"
  obtains z' m' where "free_block_internal (highest_order z) z m (start k n) k = Inr (z', m')"
    "free_post z m F k n z' m' (F(k := n # F k))"
proof -
  have place: "zone_place z m" using inv by (simp add: buddy_inv_def)
  note ok = inv_order [OF inv k]
  have nin: "n \<notin> set (F k)" by (rule not_free_block [OF k new])
  have free: "2 * (n div 2) \<notin> set (F k)" "Suc (2 * (n div 2)) \<notin> set (F k)"
    using buddy_pair(4) [of n "set (F k)"] nin bud by auto
  have bit: "get_bit z k (start k n) = Inr False" using get_bit_ok [OF ok start_less [OF rng]] free by simp
  obtain b where b: "set_bit z k (start k n) True = Inr (z\<lparr>orders := (orders z)(k := (orders z k)\<lparr>block_map := b\<rparr>)\<rparr>)"
    "bitmap_bit b = (bitmap_bit (block_map (orders z k)))(n div 2 := True)"
    "bitmap_room b = bitmap_room (block_map (orders z k))" by (rule set_bit_ok [OF ok start_less [OF rng]])
  let ?z1 = "z\<lparr>orders := (orders z)(k := (orders z k)\<lparr>block_map := b\<rparr>)\<rparr>"
  have fl: "freelist (orders ?z1 k) = freelist (orders z k)" by simp
  obtain m1 m2 m3 where p:
    "(if freelist (orders z k) \<noteq> - 1 then put_block ?z1 m (freelist (orders z k)) (put_prev (start k n)) else Inr m) = Inr m1"
    "put_block ?z1 m1 (start k n) (put_next (freelist (orders z k))) = Inr m2"
    "put_block ?z1 m2 (start k n) (put_prev (- 1)) = Inr m3"
    "order_step z m k (F k) (n # F k) (starts z k (n # F k)) (set_freelist ?z1 k (start k n)) m3"
    by (rule push_ok [OF place ok rng free refl b(2,3)])
  let ?z2 = "set_freelist ?z1 k (start k n)"
  have eq: "free_block_internal (highest_order z) z m (start k n) k = Inr (?z2, m3)"
    unfolding free_block_internal.simps [of _ z m _ k] bit rbind_simps if_False b(1) Let_def fl p(1,2,3)
    using k by simp
  have "buddy_inv ?z2 m3 (F(k := n # F k))"
    using order_step_inv [OF inv k p(4)] new by auto
  moreover have "starts z k (n # F k) \<subseteq> own_pages z F \<union> (\<lambda>i. first_page z + i) ` blk k n"
    using starts_own [OF k, of "F k" F] start_in_blk [of n k] by (auto simp: starts_def)
  then have "touches m m3 (own_pages z F \<union> (\<lambda>i. first_page z + i) ` blk k n)"
    by (rule touches_mono [rotated]) (use p(4) in \<open>simp add: order_step_def\<close>)
  ultimately have "free_post z m F k n ?z2 m3 (F(k := n # F k))"
    using free_set_add [OF k, of F n] p(4)
    by (auto simp: free_post_def order_step_def same_zone_def same_consts_def)
  then show thesis using that eq by blast
qed

lemma free_merge_step:
  assumes inv: "buddy_inv z m F" and k: "k \<le> highest_order z" and rng: "blk k n \<subseteq> {..<2 ^ highest_order z}"
    and new: "blk k n \<inter> free_set (highest_order z) F = {}" and bud: "buddy n \<in> set (F k)"
  obtains z2 m2 where "free_block_internal (highest_order z) z m (start k n) k =
      free_block_internal (highest_order z) z2 m2 (start (Suc k) (n div 2)) (Suc k)"
    "buddy_inv z2 m2 (F(k := remove1 (buddy n) (F k)))" "same_consts z z2" "touches m m2 (own_pages z F)"
    "free_set (highest_order z) (F(k := remove1 (buddy n) (F k))) = free_set (highest_order z) F - blk k (buddy n)"
    "k < highest_order z"
proof -
  let ?c = "buddy n"
  have place: "zone_place z m" and dis: "free_disjoint (highest_order z) F" using inv by (auto simp: buddy_inv_def)
  note ok = inv_order [OF inv k]
  have bit: "get_bit z k (start k n) = Inr True"
    using get_bit_ok [OF ok start_less [OF rng]] bud buddy_pair(4) [of n "set (F k)"] by simp
  obtain b where b: "set_bit z k (start k n) False = Inr (z\<lparr>orders := (orders z)(k := (orders z k)\<lparr>block_map := b\<rparr>)\<rparr>)"
    "bitmap_bit b = (bitmap_bit (block_map (orders z k)))(n div 2 := False)"
    "bitmap_room b = bitmap_room (block_map (orders z k))" by (rule set_bit_ok [OF ok start_less [OF rng]])
  let ?z1 = "z\<lparr>orders := (orders z)(k := (orders z k)\<lparr>block_map := b\<rparr>)\<rparr>"
  obtain z2 m2 where p: "remove_from_freelist ?z1 m (start k ?c) k = Inr (z2, m2)"
    "order_step z m k (F k) (remove1 ?c (F k)) (starts z k (F k)) z2 m2"
    by (rule remove_ok [OF place ok bud refl _ b(3)]) (simp_all add: b(2) buddy_pair(1))
  have "free_block_internal (highest_order z) z m (start k n) k =
      free_block_internal (highest_order z) z2 m2 (start (Suc k) (n div 2)) (Suc k)"
    unfolding free_block_internal.simps [of _ z m _ k] bit rbind_simps if_True b(1) Let_def first_of_pair p(1)
    using k by simp
  moreover have "buddy_inv z2 m2 (F(k := remove1 ?c (F k)))"
  proof (rule order_step_inv [OF inv k p(2)])
    show "\<forall>x \<in> set (remove1 ?c (F k)). x \<in> set (F k) \<or> blk k x \<inter> free_set (highest_order z) F = {}"
      using set_remove1_subset [of ?c "F k"] by blast
  qed
  moreover have "free_set (highest_order z) (F(k := remove1 ?c (F k))) = free_set (highest_order z) F - blk k ?c"
    using order_okD(2) [OF ok] bud by (intro free_set_remove [OF dis k]) auto
  moreover have "touches m m2 (own_pages z F)"
    by (rule touches_mono [OF _ starts_own [OF k order.refl]]) (use p(2) in \<open>simp add: order_step_def\<close>)
  moreover have "k < highest_order z"
  proof (rule ccontr)
    assume "\<not> k < highest_order z"
    then have "k = highest_order z" using k by simp
    then have "n = 0" "?c = 0" using blk_top rng order_okD(3) [OF ok bud] by auto
    then show False using buddy_pair(2) [of n] by simp
  qed
  moreover have "same_consts z z2" using p(2) by (auto simp: order_step_def same_zone_def same_consts_def)
  ultimately show thesis using that by blast
qed

lemma free_internal_ok:
  assumes "buddy_inv z m F" "k \<le> highest_order z" "blk k n \<subseteq> {..<2 ^ highest_order z}"
    "blk k n \<inter> free_set (highest_order z) F = {}"
  obtains z' m' F' where "free_block_internal (highest_order z) z m (start k n) k = Inr (z', m')"
    "free_post z m F k n z' m' F'"
  using assms
proof (induction "highest_order z - k" arbitrary: z m F k n thesis rule: less_induct)
  case less
  let ?H = "highest_order z"
  show ?case
  proof (cases "buddy n \<in> set (F k)")
    case False
    obtain z' m' where "free_block_internal ?H z m (start k n) k = Inr (z', m')"
      "free_post z m F k n z' m' (F(k := n # F k))"
      by (rule free_push [OF less.prems(2-5) False])
    then show ?thesis by (rule less.prems(1))
  next
    case True
    let ?F = "F(k := remove1 (buddy n) (F k))"
    obtain z2 m2 where s: "free_block_internal ?H z m (start k n) k = free_block_internal ?H z2 m2 (start (Suc k) (n div 2)) (Suc k)"
      "buddy_inv z2 m2 ?F" "same_consts z z2" "touches m m2 (own_pages z F)"
      "free_set ?H ?F = free_set ?H F - blk k (buddy n)" "k < ?H"
      by (rule free_merge_step [OF less.prems(2-5) True])
    have H: "highest_order z2 = ?H" "first_page z2 = first_page z" using s(3) by (simp_all add: same_consts_def)
    have bc: "blk k (buddy n) \<subseteq> free_set ?H F" using free_setI [of k ?H "buddy n" F] less.prems(3) True by simp
    have "free_set ?H F \<subseteq> {..<2 ^ ?H}"
      using less.prems(2) by (auto simp: free_set_def buddy_inv_def order_ok_def)
    then have r: "blk (Suc k) (n div 2) \<subseteq> {..<2 ^ highest_order z2}" "Suc k \<le> highest_order z2"
      using buddy_pair(3) [of k n] bc less.prems(4) H s(6) by auto
    have d: "blk (Suc k) (n div 2) \<inter> free_set (highest_order z2) ?F = {}"
      using buddy_pair(3) [of k n] s(5) less.prems(5) H by auto
    show ?thesis
    proof (rule less.hyps [of z2 "Suc k" m2 "n div 2" ?F, OF _ _ s(2) r(2,1) d])
      show "highest_order z2 - Suc k < ?H - k" using H s(6) by simp
      fix z' m' F'
      assume f: "free_block_internal (highest_order z2) z2 m2 (start (Suc k) (n div 2)) (Suc k) = Inr (z', m')"
        "free_post z2 m2 ?F (Suc k) (n div 2) z' m' F'"
      have "free_set ?H F' = free_set ?H F \<union> blk k n"
        using f(2) H s(5) buddy_pair(3) [of k n] bc by (auto simp: free_post_def)
      moreover have "touches m m' (own_pages z F \<union> (\<lambda>i. first_page z + i) ` blk k n)"
      proof (rule touches_trans [OF s(4)])
        show "touches m2 m' (own_pages z2 ?F \<union> (\<lambda>i. first_page z2 + i) ` blk (Suc k) (n div 2))"
          using f(2) by (simp add: free_post_def)
        show "own_pages z2 ?F \<union> (\<lambda>i. first_page z2 + i) ` blk (Suc k) (n div 2) \<subseteq>
            own_pages z F \<union> (\<lambda>i. first_page z + i) ` blk k n"
          using H s(5) bc buddy_pair(3) [of k n] by (auto simp: own_pages_def)
      qed simp
      ultimately have "free_post z m F k n z' m' F'"
        using f(2) s(3) H by (auto simp: free_post_def same_consts_def)
      then show ?thesis using less.prems(1) f(1) s(1) H by simp
    qed
  qed
qed

section \<open>Fragmentation\<close>

text \<open>
  Free buddies are merged: a run of pages that is aligned to its size and wholly free lies within
  one block of the lists.
\<close>

lemma blk_contains:
  assumes "k \<le> k'" "blk k n \<inter> blk k' n' \<noteq> {}"
  shows "blk k n \<subseteq> blk k' n'"
proof -
  obtain d where d: "k' = k + d" using assms(1) le_iff_add by blast
  obtain i where i: "i \<in> blk k n" "i \<in> blk k' n'" using assms(2) by blast
  have "i div 2 ^ k = n" using i(1) by (intro div_nat_eqI) (auto simp: blk_def algebra_simps)
  moreover have "i div 2 ^ k' = n'" using i(2) by (intro div_nat_eqI) (auto simp: blk_def algebra_simps)
  ultimately have "n' = n div 2 ^ d" using d by (simp add: div_mult2_eq power_add)
  then have "n = n' * 2 ^ d + n mod 2 ^ d" by (metis div_mult_mod_eq)
  moreover have "n mod 2 ^ d < 2 ^ d" by simp
  ultimately have le: "n' * 2 ^ d \<le> n" "Suc n \<le> Suc n' * 2 ^ d" unfolding mult_Suc by linarith+
  show ?thesis using d mult_le_mono1 [OF le(1), of "2 ^ k"] mult_le_mono1 [OF le(2), of "2 ^ k"]
    by (auto simp: blk_def power_add algebra_simps)
qed

lemma blk_sub_eq: "blk k n \<subseteq> blk k n' \<Longrightarrow> n' = n"
  using blk_disjoint [of n n' k] blk_nonempty [of k n] by (cases "n = n'") (auto simp: Int_absorb2)

lemma free_run_in_block:
  assumes "buddy_inv z m F" "k \<le> highest_order z" "blk k n \<subseteq> free_set (highest_order z) F"
  shows "\<exists>k' n'. k \<le> k' \<and> k' \<le> highest_order z \<and> n' \<in> set (F k') \<and> blk k n \<subseteq> blk k' n'"
  using assms(2,3)
proof (induction k arbitrary: n)
  case 0
  have "n \<in> free_set (highest_order z) F" using 0(2) start_in_blk [of n 0] by auto
  then obtain k' n' where "k' \<le> highest_order z" "n' \<in> set (F k')" "n \<in> blk k' n'" by (auto simp: free_set_def)
  moreover from this have "blk 0 n \<subseteq> blk k' n'" using start_in_blk [of n 0] by (intro blk_contains) auto
  ultimately show ?case by blast
next
  case (Suc k)
  have k: "k \<le> highest_order z" using Suc.prems(1) by simp
  have half: "\<exists>k' n'. k \<le> k' \<and> k' \<le> highest_order z \<and> n' \<in> set (F k') \<and> blk k i \<subseteq> blk k' n'"
    if "blk k i \<subseteq> blk (Suc k) n" for i using Suc.IH [OF k] that Suc.prems(2) by blast
  obtain k1 n1 where 1: "k \<le> k1" "k1 \<le> highest_order z" "n1 \<in> set (F k1)" "blk k (2 * n) \<subseteq> blk k1 n1"
    using half [OF blk_halves(1)] by blast
  obtain k2 n2 where 2: "k \<le> k2" "k2 \<le> highest_order z" "n2 \<in> set (F k2)" "blk k (Suc (2 * n)) \<subseteq> blk k2 n2"
    using half [OF blk_halves(2)] by blast
  have whole: "blk (Suc k) n \<subseteq> blk k' n'" if "Suc k \<le> k'" "blk k i \<subseteq> blk k' n'" "blk k i \<subseteq> blk (Suc k) n" for k' n' i
    using that blk_nonempty [of k i] by (intro blk_contains) auto
  show ?case
  proof (cases "Suc k \<le> k1 \<or> Suc k \<le> k2")
    case True
    then show ?thesis
    proof
      assume "Suc k \<le> k1"
      then show ?thesis using whole [OF _ 1(4) blk_halves(1)] 1(2,3) by blast
    next
      assume "Suc k \<le> k2"
      then show ?thesis using whole [OF _ 2(4) blk_halves(2)] 2(2,3) by blast
    qed
  next
    case False
    then have e: "k1 = k" "k2 = k" using 1(1) 2(1) by auto
    then have "n1 = 2 * n" "n2 = Suc (2 * n)"
      using 1(4) 2(4) blk_sub_eq by blast+
    moreover have "(2 * n) * 2 ^ k < 2 ^ highest_order z"
      using start_less order_okD(3) [OF inv_order [OF assms(1) k]] 1(3) e calculation by blast
    ultimately show ?thesis using order_okD(6) [OF inv_order [OF assms(1) k], of "2 * n"] 1(3) 2(3) e by auto
  qed
qed

lemma no_block_iff:
  assumes inv: "buddy_inv z m F" and k: "k \<le> highest_order z"
  shows "(\<forall>k'. k \<le> k' \<and> k' \<le> highest_order z \<longrightarrow> F k' = []) \<longleftrightarrow>
    (\<forall>n. \<not> blk k n \<subseteq> free_set (highest_order z) F)"
proof
  assume "\<forall>k'. k \<le> k' \<and> k' \<le> highest_order z \<longrightarrow> F k' = []"
  then show "\<forall>n. \<not> blk k n \<subseteq> free_set (highest_order z) F"
    using free_run_in_block [OF assms] by fastforce
next
  assume no: "\<forall>n. \<not> blk k n \<subseteq> free_set (highest_order z) F"
  show "\<forall>k'. k \<le> k' \<and> k' \<le> highest_order z \<longrightarrow> F k' = []"
  proof (rule ccontr)
    assume "\<not> (\<forall>k'. k \<le> k' \<and> k' \<le> highest_order z \<longrightarrow> F k' = [])"
    then obtain k' where k': "k \<le> k'" "k' \<le> highest_order z" "F k' \<noteq> []" by blast
    define n' where "n' = hd (F k')"
    have h: "k \<le> k'" "k' \<le> highest_order z" "n' \<in> set (F k')" using k' by (simp_all add: n'_def)
    have "blk k (n' * 2 ^ (k' - k)) \<subseteq> blk k' n'"
    proof (rule blk_contains [OF h(1)])
      have e: "n' * 2 ^ (k' - k) * 2 ^ k = n' * 2 ^ k'" using h(1) by (simp add: mult.assoc power_add [symmetric])
      show "blk k (n' * 2 ^ (k' - k)) \<inter> blk k' n' \<noteq> {}"
        using start_in_blk [of "n' * 2 ^ (k' - k)" k, unfolded e] start_in_blk [of n' k'] by blast
    qed
    then show False using no free_setI [OF h(2), of n' F] h(3) by blast
  qed
qed

section \<open>A new zone\<close>

lemma zone_init_orders_ok:
  assumes "distinct is" "\<forall>i \<in> set is. i \<le> h"
  shows "zone_init_orders (2 ^ h) is os i =
    (if i \<in> set is then (os i)\<lparr>block_map := (block_map (os i))\<lparr>m_bits := m_bits (bitmap_new ((2 ^ (h - i) + 1) div 2) False)\<rparr>\<rparr>
     else os i)"
  using assms
proof (induction "is" arbitrary: os)
  case (Cons j "is")
  have "2 ^ h div size_of_order j = 2 ^ (h - j)"
    using Cons.prems(2) by (simp add: size_of_order_def power_diff)
  moreover have "(2 ^ (h - j) + 1) div 2 \<noteq> (0::nat)" by (simp add: div_eq_0_iff)
  ultimately show ?case
    using Cons.IH Cons.prems by (auto simp: Let_def bitmap_assign_def)
qed simp

lemma new_bits:
  assumes "2 * j * 2 ^ k < 2 ^ h" "k \<le> h"
  shows "j < (2 ^ (h - k) + 1) div (2::nat)"
proof -
  have "2 * j * 2 ^ k < 2 ^ (h - k) * 2 ^ k" using assms by (simp add: power_add [symmetric])
  then have "2 * j < 2 ^ (h - k)" by (simp only: mult_less_cancel2)
  then show ?thesis by linarith
qed

lemma bitmap_bits_cong: "m_bits a = m_bits b \<Longrightarrow> bitmap_room a = bitmap_room b \<and> bitmap_bit a = bitmap_bit b"
  by (simp add: bitmap_room_def bitmap_bit_def fun_eq_iff)

lemma set_bit_set_freelist:
  "set_bit (set_freelist z k i) k b v = rbind (set_bit z k b v) (\<lambda>z'. Inr (set_freelist z' k i))"
  by (cases "orders z k") (simp add: set_bit_def set_freelist_def rbind_def split: sum.splits)

definition fresh_lists :: "nat \<Rightarrow> nat \<Rightarrow> nat list" where
  "fresh_lists h k = (if k = h then [0] else [])"

lemma zone_new_ok:
  assumes h: "h \<le> MAX_ORDER" and place: "0 < first" "first + 2 ^ h \<le> num_pages m" "num_pages m \<le> 2 ^ 32"
    and links: "free_next (pages m first) = - 1" "free_prev (pages m first) = - 1"
  obtains z where "zone_new first (2 ^ h) = Inr z" "buddy_inv z m (fresh_lists h)" "highest_order z = h"
    "first_page z = first" "zone_pages z = 2 ^ h" "free_count z = 2 ^ h"
proof -
  let ?os = "zone_init_orders (2 ^ h) [0..<Suc h] (\<lambda>_. \<lparr>block_map = bitmap_null, freelist = - 1\<rparr>)"
  let ?z = "\<lparr>orders = ?os, first_page = first, highest_order = h, zone_pages = 2 ^ h, free_count = 2 ^ h\<rparr>"
  have os: "?os k = \<lparr>block_map = bitmap_null\<lparr>m_bits := m_bits (bitmap_new ((2 ^ (h - k) + 1) div 2) False)\<rparr>, freelist = - 1\<rparr>"
    if "k \<le> h" for k using zone_init_orders_ok [of "[0..<Suc h]" h] that by (simp del: upt_Suc)
  have pl: "zone_place ?z m" using place h by (simp add: zone_place_def)
  have "order_ok ?z m k []" if k: "k \<le> h" for k
  proof -
    define c where "c = (2 ^ (h - k) + 1) div (2::nat)"
    have osk: "m_bits (block_map (?os k)) = m_bits (bitmap_new c False)" "freelist (?os k) = - 1"
      using os [OF k] by (simp_all add: c_def)
    note bm = bitmap_bits_cong [OF osk(1)]
    have bit: "j < bitmap_room (block_map (?os k))" "\<not> bitmap_bit (block_map (?os k)) j"
      if "2 * j * 2 ^ k < 2 ^ h" for j
    proof -
      have j: "j < c" using new_bits [OF that k] by (simp add: c_def)
      then show "j < bitmap_room (block_map (?os k))" using bm bitmap_new_ok(1) [of c False] by simp
      show "\<not> bitmap_bit (block_map (?os k)) j" using bm bitmap_new_ok(2) [OF j, of False] by simp
    qed
    show ?thesis
      unfolding order_ok_def zone.simps by (simp only: osk(2)) (simp add: bit del: upt_Suc)
  qed
  then have inv: "buddy_inv ?z m (\<lambda>_. [])" using pl by (simp add: buddy_inv_def free_disjoint_def)
  have ok: "order_ok ?z m h []" using inv_order [OF inv, of h] by simp
  obtain b where b: "set_bit ?z h (start h 0) True = Inr (?z\<lparr>orders := (orders ?z)(h := (orders ?z h)\<lparr>block_map := b\<rparr>)\<rparr>)"
    "bitmap_bit b = (bitmap_bit (block_map (orders ?z h)))(0 div 2 := True)"
    "bitmap_room b = bitmap_room (block_map (orders ?z h))" by (rule set_bit_ok [OF ok]) simp
  let ?z1 = "?z\<lparr>orders := (orders ?z)(h := (orders ?z h)\<lparr>block_map := b\<rparr>)\<rparr>"
  let ?z2 = "set_freelist ?z1 h 0"
  have s0: "start h 0 = 0" by (simp add: start_def)
  have pg: "page_of_block ?z 0 = first" using page_of_block_in(1) [OF pl, of 0] by (simp add: in_zone_def)
  have "order_ok ?z2 m h [0]"
  proof (rule order_ok_update [OF ok, where n = 0 and v = True])
    show "chain (- 1) (nxt ?z m) (prv ?z m) (- 1) (freelist (orders ?z2 h)) (map (start h) [0])"
      using links pg by (simp add: set_freelist_def s0 nxt_def prv_def in_zone_def)
  qed (use b in \<open>auto simp: set_freelist_def blk_def\<close>)
  then have "order_step ?z m h [] [0] {} ?z2 m"
    by (simp add: order_step_def same_zone_def links_off_def set_freelist_def)
  then have "buddy_inv ?z2 m ((\<lambda>_. [])(h := [0]))"
    by (intro order_step_inv [OF inv]) (simp_all add: free_set_def)
  moreover have "(\<lambda>_. [])(h := [0]) = fresh_lists h" by (simp add: fresh_lists_def fun_eq_iff)
  moreover have "zone_new first (2 ^ h) = Inr ?z2"
    using b(1) h unfolding s0 by (simp add: zone_new_def size_of_order_def Let_def set_bit_set_freelist del: upt_Suc)
  ultimately show thesis using that [of ?z2] by (simp add: set_freelist_def)
qed

end
