(* ===== verification/PhysicalRegion.thy ===== *)
theory PhysicalRegion
  imports BuddyZone
begin

text \<open>
  Histories of a buddy zone and the guarantees of its two operations over all of them, and
  \<open>PhysicalRegion\<close> (\<open>src/kernel/memory/PhysicalRegion.cpp\<close>), which tiles a range of pages
  with zones.
\<close>

section \<open>Runs of a zone\<close>

text \<open>
  \<open>zone_run z m U\<close>: the zone and the descriptors after some history in which the pages \<open>U\<close> (their
  indices in the machine) are in use. A zone starts with its first descriptor set up by
  \<open>PhysicalRegion::init\<close>; a request for \<open>n\<close> pages takes a whole block; blocks that are in use
  are given back in any aligned pieces of a power of two; and whoever holds pages, or pages
  outside the zone, may change their descriptors at any time.
\<close>

inductive zone_run :: "zone \<Rightarrow> page_array \<Rightarrow> nat set \<Rightarrow> bool" where
  run_new: "zone_new first n = Inr z \<Longrightarrow> 0 < n \<Longrightarrow> 0 < first \<Longrightarrow> first + n \<le> num_pages m \<Longrightarrow>
    num_pages m \<le> 2 ^ 32 \<Longrightarrow> free_next (pages m first) = - 1 \<Longrightarrow> free_prev (pages m first) = - 1 \<Longrightarrow>
    zone_run z m {}"
| run_alloc: "zone_run z m U \<Longrightarrow> 0 < n \<Longrightarrow> alloc_block z m n = Inr (p, z', m') \<Longrightarrow>
    zone_run z' m' (U \<union> {p..<p + size_of_order (order_for n)})"
| run_free: "zone_run z m U \<Longrightarrow> 0 < n \<Longrightarrow> {p..<p + n} \<subseteq> U \<Longrightarrow> n dvd p - first_page z \<Longrightarrow>
    free_block z m p n = Inr (z', m') \<Longrightarrow> zone_run z' m' (U - {p..<p + n})"
| run_use: "zone_run z m U \<Longrightarrow> num_pages m' = num_pages m \<Longrightarrow>
    (\<And>p. contains_page z p \<Longrightarrow> p \<notin> U \<Longrightarrow> pages m' p = pages m p) \<Longrightarrow> zone_run z m' U"

definition zone_state :: "zone \<Rightarrow> page_array \<Rightarrow> nat set \<Rightarrow> (nat \<Rightarrow> nat list) \<Rightarrow> bool" where
  "zone_state z m U F \<longleftrightarrow> buddy_inv z m F \<and> zone_pages z = 2 ^ highest_order z \<and>
     U \<subseteq> {p. contains_page z p} \<and>
     (\<lambda>i. first_page z + i) ` free_set (highest_order z) F = {p. contains_page z p} - U \<and>
     card (free_set (highest_order z) F) \<le> free_count z"

text \<open>Zone-relative blocks and ranges of machine pages.\<close>

lemma shift_blk: "(\<lambda>i. f + i) ` blk k n = {f + n * 2 ^ k..<f + n * 2 ^ k + size_of_order k}"
proof -
  have "(\<lambda>i. f + i) ` blk k n = (+) f ` {n * 2 ^ k..<Suc n * 2 ^ k}" by (simp add: blk_def)
  also have "\<dots> = {f + n * 2 ^ k..<f + Suc n * 2 ^ k}" by (simp add: add.commute del: mult_Suc)
  finally show ?thesis by (simp add: size_of_order_def add.commute add.left_commute)
qed

lemma zone_range: "zone_pages z = 2 ^ highest_order z \<Longrightarrow> {p. contains_page z p} = (\<lambda>i. first_page z + i) ` {..<2 ^ highest_order z}"
proof -
  assume "zone_pages z = 2 ^ highest_order z"
  then have "p \<in> {p. contains_page z p} \<longleftrightarrow> p \<in> (\<lambda>i. first_page z + i) ` {..<2 ^ highest_order z}" for p
    by (auto simp: contains_page_def image_iff intro!: bexI [of _ "p - first_page z"])
  then show ?thesis by blast
qed

lemma shift_sub: "(\<lambda>i. f + i) ` A \<subseteq> (\<lambda>i. f + i) ` B \<longleftrightarrow> A \<subseteq> B" for f :: nat
  by (simp add: inj_image_subset_iff)

lemma free_set_finite: "finite (free_set h F)"
  by (simp add: free_set_def blk_def)

lemma free_set_range: "buddy_inv z m F \<Longrightarrow> free_set (highest_order z) F \<subseteq> {..<2 ^ highest_order z}"
  by (auto simp: free_set_def buddy_inv_def order_ok_def)

lemma card_blk [simp]: "card (blk k n) = size_of_order k"
  by (simp add: blk_def size_of_order_def)

text \<open>The invariant only looks at descriptors of free pages.\<close>

lemma buddy_inv_use:
  assumes inv: "buddy_inv z m F" and "num_pages m' = num_pages m"
    and eq: "\<And>i. i \<in> free_set (highest_order z) F \<Longrightarrow> pages m' (first_page z + i) = pages m (first_page z + i)"
  shows "buddy_inv z m' F"
proof -
  have place: "zone_place z m" "zone_place z m'" using inv assms(2) by (auto simp: buddy_inv_def zone_place_def)
  have link: "nxt z m' (start k n) = nxt z m (start k n) \<and> prv z m' (start k n) = prv z m (start k n)"
    if "k \<le> highest_order z" "n \<in> set (F k)" for k n
  proof -
    have "n * 2 ^ k \<in> free_set (highest_order z) F" using free_setI [of k _ n F] that start_in_blk [of n k] by blast
    moreover have "page_of_block z (start k n) = first_page z + n * 2 ^ k" if "in_zone z (start k n)"
      using page_of_block_in(1) [OF place(1) that] by (simp add: start_def nat_int del: of_nat_mult)
    ultimately show ?thesis using eq [of "n * 2 ^ k"] by (auto simp: nxt_def prv_def)
  qed
  have "order_ok z m' k (F k)" if k: "k \<le> highest_order z" for k
  proof -
    have ok: "order_ok z m k (F k)" by (rule inv_order [OF inv k])
    have "chain (- 1) (nxt z m') (prv z m') (- 1) (freelist (orders z k)) (map (start k) (F k))"
      by (rule chain_cong [THEN iffD1, of _ "nxt z m" _ "prv z m"]) (use ok link [OF k] in \<open>auto simp: order_ok_def\<close>)
    then show ?thesis using ok by (auto simp: order_ok_def)
  qed
  then show ?thesis using inv place(2) by (auto simp: buddy_inv_def)
qed


definition free_run :: "zone \<Rightarrow> nat set \<Rightarrow> nat \<Rightarrow> nat \<Rightarrow> bool" where
  "free_run z U p n \<longleftrightarrow> {p..<p + n} \<subseteq> {p. contains_page z p} - U \<and> n dvd p - first_page z"

lemma free_run_blk:
  assumes "zone_state z m U F"
  shows "free_run z U (first_page z + i * 2 ^ k) (size_of_order k) \<longleftrightarrow> blk k i \<subseteq> free_set (highest_order z) F"
proof -
  have eq: "{p. contains_page z p} - U = (\<lambda>i. first_page z + i) ` free_set (highest_order z) F"
    using assms by (simp add: zone_state_def)
  show ?thesis unfolding free_run_def eq shift_blk [symmetric] shift_sub by (simp add: size_of_order_def)
qed

lemma free_run_obtain:
  assumes "zone_state z m U F" "free_run z U p (size_of_order k)"
  obtains i where "p = first_page z + i * 2 ^ k" "blk k i \<subseteq> free_set (highest_order z) F"
proof -
  have "p \<in> {p..<p + size_of_order k}" by (simp add: size_of_order_def)
  then have "contains_page z p" using assms(2) unfolding free_run_def by blast
  then have "first_page z \<le> p" by (simp add: contains_page_def)
  moreover obtain i where "p - first_page z = i * 2 ^ k"
    using assms(2) by (auto simp: free_run_def size_of_order_def dvd_def mult.commute)
  ultimately have p: "p = first_page z + i * 2 ^ k" by simp
  then show thesis using that free_run_blk [OF assms(1), of i k] assms(2) by simp
qed

lemma no_run_iff:
  assumes "zone_state z m U F" "k \<le> highest_order z"
  shows "(\<forall>k'. k \<le> k' \<and> k' \<le> highest_order z \<longrightarrow> F k' = []) \<longleftrightarrow> (\<nexists>p. free_run z U p (size_of_order k))"
proof -
  have inv: "buddy_inv z m F" using assms(1) by (simp add: zone_state_def)
  show ?thesis
    unfolding no_block_iff [OF inv assms(2)] using free_run_blk [OF assms(1)] free_run_obtain [OF assms(1)] by metis
qed

lemma big_order_no_run:
  assumes "zone_state z m U F" "highest_order z < k"
  shows "\<nexists>p. free_run z U p (size_of_order k)"
proof
  assume "\<exists>p. free_run z U p (size_of_order k)"
  then obtain p i where "blk k i \<subseteq> free_set (highest_order z) F"
    using free_run_obtain [OF assms(1)] by metis
  then have "card (blk k i) \<le> card {..<(2::nat) ^ highest_order z}"
    using free_set_range [of z m F] assms(1) by (intro card_mono) (auto simp: zone_state_def)
  then have "(2::nat) ^ k \<le> 2 ^ highest_order z" by (simp add: size_of_order_def)
  then show False using assms(2) by simp
qed

lemma contains_same: "same_consts z z' \<Longrightarrow> contains_page z' p = contains_page z p"
  by (simp add: same_consts_def contains_page_def)

lemma inv_free_count [simp]: "buddy_inv (z\<lparr>free_count := c\<rparr>) m F = buddy_inv z m F"
  by (simp add: buddy_inv_def order_ok_def links_same_place [of z "z\<lparr>free_count := c\<rparr>"])

text \<open>The three outcomes of a request.\<close>

lemma alloc_state:
  assumes st: "zone_state z m U F" and n: "0 < n"
  obtains (nomem) "free_count z < n" "alloc_block z m n = Inl (Err ENOMEM)"
  | (fragmented) "n \<le> free_count z" "\<nexists>p. free_run z U p (size_of_order (order_for n))"
      "alloc_block z m n = Inl AssertFail"
  | (some) p z' m' F' where "n \<le> free_count z" "free_run z U p (size_of_order (order_for n))"
      "alloc_block z m n = Inr (p, z', m')"
      "zone_state z' m' (U \<union> {p..<p + size_of_order (order_for n)}) F'" "same_place z z'"
      "touches m m' (insert (first_page z - 1) ({p. contains_page z p} - U))"
proof -
  let ?k = "order_for n" and ?H = "highest_order z"
  have inv: "buddy_inv z m F" using st by (simp add: zone_state_def)
  consider (a) "free_count z < n" | (b) "n \<le> free_count z" "?H < ?k" | (c) "n \<le> free_count z" "?k \<le> ?H" by linarith
  then show thesis
  proof cases
    case a
    then show thesis by (rule nomem) (use a in \<open>simp add: alloc_block_def\<close>)
  next
    case b
    have "alloc_block z m n = Inl AssertFail"
      using b by (simp add: alloc_block_def alloc_block_internal.simps [of ?H z m ?k])
    then show thesis by (rule fragmented [OF b(1) big_order_no_run [OF st b(2)]])
  next
    case c
    show thesis
    proof (rule alloc_internal_ok [OF inv c(2)])
      assume none: "\<forall>k'. ?k \<le> k' \<and> k' \<le> ?H \<longrightarrow> F k' = []" "alloc_block_internal ?H z m ?k = Inl AssertFail"
      have "alloc_block z m n = Inl AssertFail" using c none(2) by (simp add: alloc_block_def)
      then show thesis by (rule fragmented [OF c(1) iffD1 [OF no_run_iff [OF st c(2)] none(1)]])
    next
      fix i z1 m1 F1
      assume s: "alloc_block_internal ?H z m ?k = Inr (start ?k i, z1, m1)" "alloc_post z m F ?k i z1 m1 F1"
      have p: "buddy_inv z1 m1 F1" "blk ?k i \<subseteq> free_set ?H F" "free_set ?H F1 = free_set ?H F - blk ?k i"
        "same_consts z z1" "touches m m1 (own_pages z F)" using s(2) by (simp_all add: alloc_post_def)
      have place: "zone_place z m" using inv by (simp add: buddy_inv_def)
      let ?p = "first_page z + i * 2 ^ ?k" and ?z = "z1\<lparr>free_count := free_count z1 - n\<rparr>"
      have "page_of_block z1 (start ?k i) = ?p"
      proof -
        have "blk ?k i \<subseteq> {..<2 ^ ?H}" using p(2) free_set_range [OF inv] by blast
        then have "page_of_block z (start ?k i) = ?p"
          using page_of_block_in(1) [OF place start_in_zone] by (simp add: start_def nat_int del: of_nat_mult)
        then show ?thesis using p(4) by (simp add: same_consts_def page_of_block_def)
      qed
      then have eq: "alloc_block z m n = Inr (?p, ?z, m1)" using c s(1) by (simp add: alloc_block_def)
      have run: "free_run z U ?p (size_of_order ?k)" using free_run_blk [OF st] p(2) by simp
      have img: "(\<lambda>i. first_page z + i) ` free_set ?H F = {p. contains_page z p} - U" using st by (simp add: zone_state_def)
      have inv': "buddy_inv ?z m1 F1" using p(1) by simp
      have "zone_state ?z m1 (U \<union> {?p..<?p + size_of_order ?k}) F1"
        unfolding zone_state_def
      proof (intro conjI inv')
        show "zone_pages ?z = 2 ^ highest_order ?z" using st p(4) by (simp add: zone_state_def same_consts_def)
        show "U \<union> {?p..<?p + size_of_order ?k} \<subseteq> {p. contains_page ?z p}"
          using st run p(4) by (auto simp: zone_state_def free_run_def same_consts_def contains_page_def)
        have "(\<lambda>i. first_page z + i) ` free_set ?H F1 = (\<lambda>i. first_page z + i) ` free_set ?H F - (\<lambda>i. first_page z + i) ` blk ?k i"
          unfolding p(3) by (rule image_set_diff) simp
        then have "(\<lambda>i. first_page z + i) ` free_set ?H F1 = {p. contains_page z p} - (U \<union> {?p..<?p + size_of_order ?k})"
          unfolding img shift_blk by blast
        then show "(\<lambda>i. first_page ?z + i) ` free_set (highest_order ?z) F1 = {p. contains_page ?z p} - (U \<union> {?p..<?p + size_of_order ?k})"
          using p(4) by (simp add: same_consts_def contains_page_def)
        have "card (free_set ?H F1) = card (free_set ?H F) - size_of_order ?k"
          using p(2) by (simp add: p(3) card_Diff_subset free_set_finite blk_def finite_subset size_of_order_def)
        then have "card (free_set ?H F1) \<le> free_count z - n"
          using st order_for_bounds(1) [OF n] unfolding zone_state_def by linarith
        then show "card (free_set (highest_order ?z) F1) \<le> free_count ?z" using p(4) by (simp add: same_consts_def)
      qed
      moreover have "same_place z ?z" using p(4) by (simp add: same_consts_def)
      moreover have "touches m m1 (insert (first_page z - 1) ({p. contains_page z p} - U))"
        using p(5) by (simp add: own_pages_def img)
      ultimately show thesis by (rule some [OF c(1) run eq])
    qed
  qed
qed


lemma free_state:
  assumes st: "zone_state z m U F" and U: "{p..<p + 2 ^ k} \<subseteq> U" and al: "2 ^ k dvd p - first_page z"
  obtains z' m' F' where "free_block z m p (2 ^ k) = Inr (z', m')" "zone_state z' m' (U - {p..<p + 2 ^ k}) F'"
    "same_place z z'" "free_count z' = free_count z + 2 ^ k"
    "touches m m' (insert (first_page z - 1) ({p. contains_page z p} - U \<union> {p..<p + 2 ^ k}))"
proof -
  let ?H = "highest_order z" and ?B = "{p..<p + 2 ^ k}"
  have inv: "buddy_inv z m F" and img: "(\<lambda>i. first_page z + i) ` free_set ?H F = {p. contains_page z p} - U"
    and zp: "zone_pages z = 2 ^ ?H" and Uz: "U \<subseteq> {p. contains_page z p}" using st by (simp_all add: zone_state_def)
  obtain e where e: "(2::nat) ^ k = Suc e" using gr0_implies_Suc [of "2 ^ k"] by auto
  have mem: "contains_page z p" "contains_page z (p + 2 ^ k - 1)" using U Uz by (auto simp: subset_iff e)
  then have fp: "first_page z \<le> p" by (simp add: contains_page_def)
  obtain i where i: "p - first_page z = i * 2 ^ k" using al by (auto simp: dvd_def mult.commute)
  then have p: "p = first_page z + i * 2 ^ k" using fp by simp
  have B: "(\<lambda>i. first_page z + i) ` blk k i = ?B" using shift_blk [of "first_page z" k i] p by (simp add: size_of_order_def)
  then have rng: "blk k i \<subseteq> {..<2 ^ ?H}" using U Uz zone_range [OF zp] shift_sub by (metis subset_trans)
  then have "(2::nat) ^ k \<le> 2 ^ ?H" using card_mono [OF _ rng] by (simp add: size_of_order_def)
  then have k: "k \<le> ?H" by simp
  have new: "blk k i \<inter> free_set ?H F = {}"
  proof -
    have "(\<lambda>i. first_page z + i) ` (blk k i \<inter> free_set ?H F) = ?B \<inter> ({p. contains_page z p} - U)"
      unfolding B [symmetric] img [symmetric] by (rule image_Int) simp
    then show ?thesis using U by auto
  qed
  obtain z1 m1 F1 where f: "free_block_internal ?H z m (start k i) k = Inr (z1, m1)" "free_post z m F k i z1 m1 F1"
    by (rule free_internal_ok [OF inv k rng new])
  have c: "buddy_inv z1 m1 F1" "free_set ?H F1 = free_set ?H F \<union> blk k i" "same_consts z z1"
    "touches m m1 (own_pages z F \<union> ?B)" using f(2) B by (simp_all add: free_post_def)
  let ?z = "z1\<lparr>free_count := free_count z1 + 2 ^ k\<rparr>"
  have le: "p + 2 ^ k \<le> first_page z + zone_pages z" using mem(2) by (simp add: contains_page_def e)
  have st_i: "int p - int (first_page z) = start k i" using p by (simp add: start_def)
  have "free_block z m p (2 ^ k) = Inr (?z, m1)"
    using fp le f(1) unfolding free_block_def st_i by (simp add: size_of_order_def)
  moreover have "zone_state ?z m1 (U - ?B) F1"
    unfolding zone_state_def
  proof (intro conjI)
    have "(\<lambda>i. first_page z + i) ` free_set ?H F1 = ({p. contains_page z p} - U) \<union> ?B"
      unfolding c(2) image_Un img B ..
    then have "(\<lambda>i. first_page z + i) ` free_set ?H F1 = {p. contains_page z p} - (U - ?B)" using U Uz by blast
    then show "(\<lambda>i. first_page ?z + i) ` free_set (highest_order ?z) F1 = {p. contains_page ?z p} - (U - ?B)"
      using c(3) by (simp add: same_consts_def contains_page_def)
    have "card (free_set ?H F1) = card (free_set ?H F) + 2 ^ k"
      unfolding c(2) using new by (subst card_Un_disjoint) (auto simp: free_set_finite size_of_order_def blk_def)
    then show "card (free_set (highest_order ?z) F1) \<le> free_count ?z"
      using st c(3) by (simp add: same_consts_def zone_state_def)
    show "U - ?B \<subseteq> {p. contains_page ?z p}" using Uz c(3) by (auto simp: same_consts_def contains_page_def)
  qed (use c(1,3) zp in \<open>simp_all add: same_consts_def\<close>)
  moreover have "touches m m1 (insert (first_page z - 1) ({p. contains_page z p} - U \<union> ?B))"
    using c(4) by (simp add: own_pages_def img)
  ultimately show thesis using that c(3) by (simp add: same_consts_def)
qed

lemma zone_new_size:
  assumes "zone_new first n = Inr z"
  obtains h where "n = 2 ^ h" "h \<le> MAX_ORDER"
  using assms that [of "order_for n"] by (auto simp: zone_new_def Let_def rassert_eq_Inr_iff size_of_order_def)

lemma free_block_power:
  assumes "free_block z m p n = Inr r"
  obtains k where "n = 2 ^ k"
  using assms that [of "order_for n"] by (auto simp: free_block_def rassert_eq_Inr_iff size_of_order_def)

lemma zone_run_state: "zone_run z m U \<Longrightarrow> \<exists>F. zone_state z m U F"
proof (induction rule: zone_run.induct)
  case (run_new first n z m)
  obtain h where h: "n = 2 ^ h" "h \<le> MAX_ORDER" by (rule zone_new_size [OF run_new(1)])
  obtain z1 where z: "zone_new first (2 ^ h) = Inr z1" "buddy_inv z1 m (fresh_lists h)" "highest_order z1 = h"
    "first_page z1 = first" "zone_pages z1 = 2 ^ h" "free_count z1 = 2 ^ h"
    by (rule zone_new_ok [OF h(2) run_new(3) _ run_new(5-7)]) (use run_new(4) h in simp)
  have "free_set h (fresh_lists h) = {..<2 ^ h}" by (auto simp: free_set_def fresh_lists_def blk_def split: if_splits)
  then have "zone_state z1 m {} (fresh_lists h)" using z zone_range [of z1] by (simp add: zone_state_def)
  then show ?case using run_new(1) z(1) h by auto
next
  case (run_alloc z m U n p z' m')
  obtain F where F: "zone_state z m U F" using run_alloc.IH by blast
  show ?case by (rule alloc_state [OF F run_alloc(2)]) (use run_alloc(3) in auto)
next
  case (run_free z m U n p z' m')
  obtain F where F: "zone_state z m U F" using run_free.IH by blast
  obtain k where k: "n = 2 ^ k" by (rule free_block_power [OF run_free(5)])
  show ?case by (rule free_state [OF F, of p k]) (use run_free(3,4,5) k in auto)
next
  case (run_use z m U m')
  obtain F where F: "zone_state z m U F" using run_use.IH by blast
  have "pages m' (first_page z + i) = pages m (first_page z + i)" if "i \<in> free_set (highest_order z) F" for i
  proof -
    have "first_page z + i \<in> {p. contains_page z p} - U" using F that unfolding zone_state_def by blast
    then show ?thesis using run_use(3) by simp
  qed
  then have "buddy_inv z m' F" using buddy_inv_use [of z m F m'] F run_use(2) by (simp add: zone_state_def)
  then show ?case using F by (auto simp: zone_state_def)
qed


section \<open>Guarantees of a zone\<close>

lemma singleton_of_zeros:
  assumes "xs \<noteq> []" "distinct xs" "\<And>x. x \<in> set xs \<Longrightarrow> x = (0::nat)"
  shows "xs = [0]"
proof -
  obtain y ys where xs: "xs = y # ys" using assms(1) by (cases xs) auto
  have "y = 0" "\<forall>x \<in> set ys. x = 0" using assms(3) xs by auto
  then show ?thesis using assms(2) xs by (cases ys) auto
qed

definition demo_pages :: page_array where
  "demo_pages = \<lparr>num_pages = 8, pages = (\<lambda>_. \<lparr>half0 = - 1, half1 = - 1\<rparr>)\<rparr>"

definition demo_zone :: zone where
  "demo_zone = projr (zone_new 1 4)"

lemma demo_run: "zone_run demo_zone demo_pages {}"
proof -
  obtain z where "zone_new 1 (2 ^ 2) = Inr z"
    by (rule zone_new_ok [of 2 1 demo_pages]) (simp_all add: MAX_ORDER_def demo_pages_def free_next_def free_prev_def)
  then have "zone_new 1 4 = Inr demo_zone" by (simp add: demo_zone_def)
  then show ?thesis
    by (rule run_new) (simp_all add: demo_pages_def free_next_def free_prev_def)
qed

text \<open>
  C4. Whatever the history of a zone, \<open>alloc_block\<close> for \<open>n > 0\<close> pages returns a run of at least
  \<open>n\<close> pages of the zone, aligned to its size, none of which is in use, and leaves every
  descriptor of a page in use or outside the zone alone, except the one just before the zone. It
  fails with ENOMEM exactly if the counter of free pages is below \<open>n\<close>; otherwise it fails, in an
  assertion, exactly if no free run of the needed size and alignment exists.
\<close>

theorem zone_alloc_safe:
  assumes "zone_run z m U" "0 < n"
  shows "case alloc_block z m n of
      Inl e \<Rightarrow> (if free_count z < n then e = Err ENOMEM
               else e = AssertFail \<and> (\<nexists>p. free_run z U p (size_of_order (order_for n))))
    | Inr (p, z', m') \<Rightarrow>
        n \<le> size_of_order (order_for n) \<and> free_run z U p (size_of_order (order_for n)) \<and>
        (\<forall>q. q \<noteq> first_page z - 1 \<longrightarrow> q \<in> U \<or> \<not> contains_page z q \<longrightarrow> pages m' q = pages m q)"
proof -
  obtain F where F: "zone_state z m U F" using zone_run_state [OF assms(1)] by blast
  show ?thesis
    by (rule alloc_state [OF F assms(2)]) (auto simp: order_for_bounds(1) [OF assms(2)] touches_def)
qed

theorem zone_alloc_safe_witness:
  "case alloc_block demo_zone demo_pages 3 of
      Inl e \<Rightarrow> False
    | Inr (p, z', m') \<Rightarrow> p = 1 \<and> free_run demo_zone {} p 4 \<and> pages m' 5 = pages demo_pages 5"
proof -
  have r: "case alloc_block demo_zone demo_pages 3 of Inl e \<Rightarrow> False | Inr (p, z', m') \<Rightarrow> p = 1"
    by code_simp
  have o: "size_of_order (order_for 3) = 4" by code_simp
  have z: "first_page demo_zone = 1" "\<not> contains_page demo_zone 5" by code_simp+
  show ?thesis
    using zone_alloc_safe [OF demo_run, of 3] r z unfolding o by (cases "alloc_block demo_zone demo_pages 3") auto
qed

text \<open>
  C5. Whatever the history of a zone, \<open>free_block\<close> of an aligned run of \<open>2 ^ k\<close> pages that are
  in use returns: no assertion fails. The run is free afterwards, the counter grows by its size, and
  only descriptors of free pages and the one before the zone are written.
\<close>

theorem zone_free_returns:
  assumes "zone_run z m U" "{p..<p + 2 ^ k} \<subseteq> U" "2 ^ k dvd p - first_page z"
  shows "\<exists>z' m'. free_block z m p (2 ^ k) = Inr (z', m') \<and> zone_run z' m' (U - {p..<p + 2 ^ k}) \<and>
    free_count z' = free_count z + 2 ^ k \<and> free_run z' (U - {p..<p + 2 ^ k}) p (2 ^ k) \<and>
    (\<forall>q \<in> U - {p..<p + 2 ^ k}. pages m' q = pages m q)"
proof -
  obtain F where F: "zone_state z m U F" using zone_run_state [OF assms(1)] by blast
  obtain z' m' F' where f: "free_block z m p (2 ^ k) = Inr (z', m')" "zone_state z' m' (U - {p..<p + 2 ^ k}) F'"
    "same_place z z'" "free_count z' = free_count z + 2 ^ k"
    "touches m m' (insert (first_page z - 1) ({p. contains_page z p} - U \<union> {p..<p + 2 ^ k}))"
    by (rule free_state [OF F assms(2,3)])
  have run: "zone_run z' m' (U - {p..<p + 2 ^ k})" using run_free [OF assms(1) _ assms(2,3) f(1)] by simp
  have U: "U \<subseteq> {p. contains_page z p}" "zone_place z m" using F by (auto simp: zone_state_def buddy_inv_def)
  have pages: "zone_pages z' = zone_pages z" using F f(2,3) by (simp add: zone_state_def)
  have "free_run z' (U - {p..<p + 2 ^ k}) p (2 ^ k)"
    using U(1) assms(2,3) f(3) pages by (auto simp: free_run_def contains_page_def)
  moreover have "q \<noteq> first_page z - 1" if "q \<in> U" for q
    using U that by (auto simp: contains_page_def zone_place_def)
  ultimately show ?thesis using f(1,4,5) run by (auto simp: touches_def)
qed

theorem zone_free_returns_witness:
  "case alloc_block demo_zone demo_pages 4 of Inl e \<Rightarrow> False
    | Inr (p, z, m) \<Rightarrow> \<exists>z' m'. free_block z m 3 2 = Inr (z', m') \<and> zone_run z' m' {1, 2} \<and> free_count z' = free_count z + 2"
proof -
  have "case alloc_block demo_zone demo_pages 4 of Inl e \<Rightarrow> False | Inr (p, z, m) \<Rightarrow> p = 1 \<and> first_page z = 1"
    by code_simp
  then obtain z m where a: "alloc_block demo_zone demo_pages 4 = Inr (1, z, m)" "first_page z = 1"
    by (cases "alloc_block demo_zone demo_pages 4") auto
  have o: "{1..<1 + size_of_order (order_for 4)} = {1, 2, 3, 4}" by code_simp
  have run: "zone_run z m {1, 2, 3, 4}" using run_alloc [OF demo_run _ a(1)] unfolding o by simp
  have "{1, 2, 3, 4} - {3..<5::nat} = {1, 2}" "{3..<5::nat} \<subseteq> {1, 2, 3, 4}" by auto
  then show ?thesis using zone_free_returns [OF run, of 3 1] a by auto
qed

text \<open>
  C29. A zone does not wear out: after any history at the end of which no page is in use, every
  request for up to the size of the zone succeeds.
\<close>

theorem zone_reusable:
  assumes "zone_run z m {}" "0 < n" "n \<le> zone_pages z"
  shows "\<exists>p z' m'. alloc_block z m n = Inr (p, z', m')"
proof -
  let ?k = "order_for n"
  obtain F where F: "zone_state z m {} F" using zone_run_state [OF assms(1)] by blast
  have zp: "zone_pages z = 2 ^ highest_order z" and fc: "card (free_set (highest_order z) F) \<le> free_count z"
    using F by (simp_all add: zone_state_def)
  have "(\<lambda>i. first_page z + i) ` free_set (highest_order z) F = (\<lambda>i. first_page z + i) ` {..<2 ^ highest_order z}"
    using F zone_range [OF zp] by (simp add: zone_state_def)
  then have fs: "free_set (highest_order z) F = {..<2 ^ highest_order z}" by (simp add: inj_image_eq_iff)
  have "(2::nat) ^ ?k < 2 ^ Suc (highest_order z)"
    using order_for_bounds(2) [OF assms(2)] assms(3) zp by (simp add: size_of_order_def)
  then have "?k < Suc (highest_order z)" by (rule power_less_imp_less_exp [rotated]) simp
  then have "(2::nat) ^ ?k \<le> 2 ^ highest_order z" by simp
  moreover have "blk ?k 0 = {..<2 ^ ?k}" by (auto simp: blk_def)
  ultimately have "blk ?k 0 \<subseteq> free_set (highest_order z) F" unfolding fs by simp
  then have run: "free_run z {} (first_page z + 0 * 2 ^ ?k) (size_of_order ?k)" using free_run_blk [OF F] by blast
  have "n \<le> free_count z" using fc assms(3) zp by (simp add: fs)
  then show ?thesis using run by (cases rule: alloc_state [OF F assms(2)]) auto
qed

theorem zone_reusable_witness:
  "\<exists>p z' m'. alloc_block demo_zone demo_pages 4 = Inr (p, z', m')"
proof -
  have "zone_pages demo_zone = 4" by code_simp
  then show ?thesis using zone_reusable [OF demo_run, of 4] by simp
qed


text \<open>
  Taking the last block of a free list writes \<open>free.prev = -1\<close> through \<open>get_block(-1)\<close>,
  the descriptor of the page before the zone, where the bits are those of \<open>allocated.reserved\<close>:
  when an unused zone is allocated as a whole, the page before it counts as reserved, and dropping
  its last reference no longer frees it.
\<close>

lemma zone_alloc_reserves_neighbour:
  assumes "zone_run z m {}"
  shows "case alloc_block z m (zone_pages z) of
      Inl e \<Rightarrow> False
    | Inr (p, z', m') \<Rightarrow>
        page_reserved (pages m' (first_page z - 1)) \<and>
        (\<forall>page. page_unref (pages m' (first_page z - 1)) \<noteq> Inr (True, page))"
proof -
  let ?H = "highest_order z"
  obtain F where F: "zone_state z m {} F" using zone_run_state [OF assms] by blast
  have inv: "buddy_inv z m F" and zp: "zone_pages z = 2 ^ ?H"
    and fc: "card (free_set ?H F) \<le> free_count z" using F by (simp_all add: zone_state_def)
  have "(\<lambda>i. first_page z + i) ` free_set ?H F = (\<lambda>i. first_page z + i) ` {..<2 ^ ?H}"
    using F zone_range [OF zp] by (simp add: zone_state_def)
  then have fs: "free_set ?H F = {..<2 ^ ?H}" by (simp add: inj_image_eq_iff)
  have ok: "order_ok z m ?H (F ?H)" by (rule inv_order [OF inv]) simp
  have zero: "x = 0" if "x \<in> set (F ?H)" for x using order_okD(3) [OF ok that] by (rule blk_top)
  have "F ?H \<noteq> []"
  proof
    assume "F ?H = []"
    then have "\<forall>k'. ?H \<le> k' \<and> k' \<le> ?H \<longrightarrow> F k' = []" using le_antisym by blast
    then have "\<not> blk ?H 0 \<subseteq> free_set ?H F" using no_block_iff [OF inv order.refl] by blast
    moreover have "blk ?H 0 = {..<2 ^ ?H}" by (auto simp: blk_def)
    ultimately show False using fs by simp
  qed
  moreover have "distinct (F ?H)" by (rule order_okD(2) [OF ok])
  ultimately have list: "F ?H = [0]" using zero by (rule singleton_of_zeros)
  obtain z' m' where a: "alloc_block_internal ?H z m ?H = Inr (start ?H 0, z', m')"
    "half1 (pages m' (first_page z - 1)) = word_of_int (- 1)"
    by (rule alloc_pop [OF inv order.refl list]) auto
  have "alloc_block z m (zone_pages z) = Inr (page_of_block z' (start ?H 0), z'\<lparr>free_count := free_count z' - zone_pages z\<rparr>, m')"
    using a(1) fc by (simp add: alloc_block_def zp fs)
  moreover have "page_reserved (pages m' (first_page z - 1))"
    using a(2) by (simp add: page_reserved_def)
  ultimately show ?thesis by (auto simp: page_unref_def page_reserved_def)
qed

lemma zone_alloc_reserves_neighbour_witness:
  "case alloc_block demo_zone (demo_pages\<lparr>pages := (pages demo_pages)(0 := \<lparr>half0 = 1, half1 = 0\<rparr>)\<rparr>) 4 of
      Inl e \<Rightarrow> False
    | Inr (p, z', m') \<Rightarrow> page_ref_count (pages m' 0) = 1 \<and> page_reserved (pages m' 0)"
proof -
  let ?m = "demo_pages\<lparr>pages := (pages demo_pages)(0 := \<lparr>half0 = 1, half1 = 0\<rparr>)\<rparr>"
  have z: "first_page demo_zone = 1" "zone_pages demo_zone = 4" by code_simp+
  have "zone_run demo_zone ?m {}" by (rule run_use [OF demo_run]) (simp_all add: contains_page_def z)
  from zone_alloc_reserves_neighbour [OF this]
  have "case alloc_block demo_zone ?m 4 of Inl e \<Rightarrow> False | Inr (p, z', m') \<Rightarrow> page_reserved (pages m' 0)"
    by (auto simp: z split: sum.splits)
  moreover have "case alloc_block demo_zone ?m 4 of Inl e \<Rightarrow> False | Inr (p, z', m') \<Rightarrow> page_ref_count (pages m' 0) = 1"
    by code_simp
  ultimately show ?thesis by (auto split: sum.splits)
qed

text \<open>
  The same write breaks the free list of a zone that lies just before: two zones of four pages
  at pages 1 and 5. All pages of the first are taken and pages 4 and 1 given back; the second zone
  is taken as a whole; page 3 is given back. Then two single pages are requested from the first.
\<close>

definition neighbour_history :: "nat result" where
  "neighbour_history =
     rbind (zone_new 1 4) (\<lambda>a. rbind (zone_new 5 4) (\<lambda>b. let m = demo_pages\<lparr>num_pages := 16\<rparr> in
     rbind (alloc_block a m 4) (\<lambda>(p, a, m).
     rbind (free_block a m 4 1) (\<lambda>(a, m). rbind (free_block a m 1 1) (\<lambda>(a, m).
     rbind (alloc_block b m 4) (\<lambda>(q, b, m).
     rbind (free_block a m 3 1) (\<lambda>(a, m).
     rbind (alloc_block a m 1) (\<lambda>(r, a, m). rbind (alloc_block a m 1) (\<lambda>(s, a, m). Inr s)))))))))"

lemma neighbour_history_panics: "neighbour_history = Inl AssertFail"
  by code_simp


section \<open>Regions\<close>

record region =
  m_zones :: "zone list"
  start_page :: nat
  region_pages :: nat
  region_free :: nat
  region_reserved :: bool

text \<open>
  The loop of the constructor, over the rest of the range. A region that is in use takes every
  zone as a whole at once; the requests write descriptors, so the array is passed on.
\<close>

definition zone_order :: "nat \<Rightarrow> nat" where
  "zone_order n = (if highest_bit n > MAX_ORDER then MAX_ORDER else highest_bit n)"

lemma zone_order_le: "0 < n \<Longrightarrow> 2 ^ zone_order n \<le> n"
proof -
  assume n: "0 < n"
  have "(2::nat) ^ zone_order n \<le> 2 ^ highest_bit n"
    by (rule power_increasing) (auto simp: zone_order_def)
  then show ?thesis using highest_bit_bounds [OF n] by linarith
qed

function region_fill :: "nat \<Rightarrow> nat \<Rightarrow> bool \<Rightarrow> zone list \<Rightarrow> page_array \<Rightarrow> (zone list \<times> page_array) result" where
  "region_fill first n used zs m =
     (if n = 0 then Inr (zs, m)
      else let zone_num_pages = 2 ^ zone_order n in
        rbind (zone_new first zone_num_pages) (\<lambda>zone.
        rbind (if used
               then (case alloc_block zone m zone_num_pages of
                       Inl (Err e) \<Rightarrow> Inl AssertFail | Inl e \<Rightarrow> Inl e | Inr (p, z, m) \<Rightarrow> Inr (z, m))
               else Inr (zone, m)) (\<lambda>(z, m1).
          region_fill (first + zone_num_pages) (n - zone_num_pages) used (zs @ [z]) m1)))"
  by pat_completeness auto
termination
  by (relation "measure (\<lambda>(first, n, used, zs, m). n)") (auto simp: Let_def)

declare region_fill.simps [simp del]

definition region_new :: "nat \<Rightarrow> nat \<Rightarrow> bool \<Rightarrow> bool \<Rightarrow> page_array \<Rightarrow> (region \<times> page_array) result" where
  "region_new first n reserved used m =
     (let r = \<lparr>m_zones = [], start_page = first, region_pages = n, region_free = (if used then 0 else n),
               region_reserved = reserved\<rparr>
      in if reserved then Inr (r, m)
         else rbind (region_fill first n used [] m) (\<lambda>(zs, m1). Inr (r\<lparr>m_zones := zs\<rparr>, m1)))"

text \<open>
  The loops of \<open>alloc_page\<close> and \<open>alloc_pages\<close>: the first zone that does not answer with an
  error. An assertion that fails in a zone stops the kernel.
\<close>

fun zones_alloc :: "nat \<Rightarrow> zone list \<Rightarrow> page_array \<Rightarrow> (nat \<times> zone list \<times> page_array) result" where
  "zones_alloc n [] m = Inl (Err ENOMEM)"
| "zones_alloc n (z # zs) m =
     (case alloc_block z m n of
        Inr (p, z', m') \<Rightarrow> Inr (p, z' # zs, m')
      | Inl (Err e) \<Rightarrow> rbind (zones_alloc n zs m) (\<lambda>(p, zs', m'). Inr (p, z # zs', m'))
      | Inl e \<Rightarrow> Inl e)"

definition region_alloc_page :: "region \<Rightarrow> page_array \<Rightarrow> (nat \<times> region \<times> page_array) result" where
  "region_alloc_page r m =
     (if region_reserved r then Inl (Err ENOMEM)
      else if region_free r = 0 then Inl (Err ENOMEM)
      else rbind (zones_alloc 1 (m_zones r) m) (\<lambda>(p, zs, m').
             Inr (p, r\<lparr>m_zones := zs, region_free := region_free r - 1\<rparr>, m')))"

definition region_alloc_pages :: "region \<Rightarrow> page_array \<Rightarrow> nat \<Rightarrow> (nat \<times> region \<times> page_array) result" where
  "region_alloc_pages r m n =
     (if region_reserved r then Inl (Err ENOMEM)
      else if region_free r < n then Inl (Err ENOMEM)
      else if order_for n > MAX_ORDER then Inl (Err EINVAL)
      else rbind (zones_alloc n (m_zones r) m) (\<lambda>(p, zs, m').
             Inr (p, r\<lparr>m_zones := zs, region_free := region_free r - n\<rparr>, m')))"

definition region_contains_page :: "region \<Rightarrow> nat \<Rightarrow> bool" where
  "region_contains_page r page \<longleftrightarrow> start_page r \<le> page \<and> page < start_page r + region_pages r"

fun zones_free :: "nat \<Rightarrow> zone list \<Rightarrow> page_array \<Rightarrow> (zone list \<times> page_array) result" where
  "zones_free page [] m = Inl AssertFail"
| "zones_free page (z # zs) m =
     (if contains_page z page then rbind (free_block z m page 1) (\<lambda>(z', m'). Inr (z' # zs, m'))
      else rbind (zones_free page zs m) (\<lambda>(zs', m'). Inr (z # zs', m')))"

definition region_free_page :: "region \<Rightarrow> page_array \<Rightarrow> nat \<Rightarrow> (region \<times> page_array) result" where
  "region_free_page r m page =
     rassert (\<not> region_reserved r) (rassert (region_contains_page r page)
       (rbind (zones_free page (m_zones r) m) (\<lambda>(zs, m').
          Inr (r\<lparr>m_zones := zs, region_free := region_free r + 1\<rparr>, m'))))"

fun zones_init :: "zone list \<Rightarrow> page_array \<Rightarrow> page_array result" where
  "zones_init [] m = Inr m"
| "zones_init (z # zs) m =
     rbind (put_page m (first_page z) (\<lambda>page. put_next (- 1) (put_prev (- 1) page))) (zones_init zs)"

definition region_init :: "region \<Rightarrow> page_array \<Rightarrow> page_array result" where
  "region_init r m = (if region_reserved r then Inr m else zones_init (m_zones r) m)"

text \<open>The range of a zone, and the zones of a new region one after the other.\<close>

definition zone_span :: "zone \<Rightarrow> nat list" where
  "zone_span z = [first_page z..<first_page z + zone_pages z]"

lemma zone_new_returns:
  assumes "0 < n"
  obtains z where "zone_new first (2 ^ zone_order n) = Inr z" "first_page z = first" "zone_pages z = 2 ^ zone_order n"
proof -
  let ?h = "zone_order n"
  let ?m = "\<lparr>num_pages = 2 ^ ?h + 1, pages = (\<lambda>_. \<lparr>half0 = - 1, half1 = - 1\<rparr>)\<rparr>"
  have h: "?h \<le> MAX_ORDER" by (simp add: zone_order_def)
  then have "(2::nat) ^ ?h \<le> 2 ^ 10" by (intro power_increasing) (auto simp: MAX_ORDER_def)
  then obtain z where z: "zone_new 1 (2 ^ ?h) = Inr z"
    by (rule_tac zone_new_ok [OF h, of 1 ?m]) (auto simp: free_next_def free_prev_def)
  show thesis
  proof (cases "zone_new first (2 ^ ?h)")
    case (Inl e)
    then show thesis using z by (auto simp: zone_new_def Let_def set_bit_def set_freelist_def rbind_def rassert_def split: sum.splits if_splits)
  next
    case (Inr z1)
    then show thesis
      using that by (auto simp: zone_new_def Let_def set_bit_def set_freelist_def rbind_eq_Inr_iff rassert_eq_Inr_iff)
  qed
qed

lemma region_fill_spans:
  "\<exists>new. region_fill first n False zs m = Inr (zs @ new, m) \<and> concat (map zone_span new) = [first..<first + n] \<and>
     (\<forall>z \<in> set new. \<exists>h \<le> MAX_ORDER. zone_new (first_page z) (2 ^ h) = Inr z \<and> zone_pages z = 2 ^ h)"
proof (induction n arbitrary: first zs rule: less_induct)
  case (less n)
  show ?case
  proof (cases "n = 0")
    case False
    let ?k = "2 ^ zone_order n :: nat"
    obtain z where z: "zone_new first ?k = Inr z" "first_page z = first" "zone_pages z = ?k"
      by (rule zone_new_returns) (use False in auto)
    have le: "?k \<le> n" by (rule zone_order_le) (use False in simp)
    obtain new where new: "region_fill (first + ?k) (n - ?k) False (zs @ [z]) m = Inr ((zs @ [z]) @ new, m)"
      "concat (map zone_span new) = [first + ?k..<first + ?k + (n - ?k)]"
      "\<forall>z \<in> set new. \<exists>h \<le> MAX_ORDER. zone_new (first_page z) (2 ^ h) = Inr z \<and> zone_pages z = 2 ^ h"
      using less.IH [of "n - ?k" "first + ?k" "zs @ [z]"] False by auto
    have "region_fill first n False zs m = Inr (zs @ z # new, m)"
      using False z(1) new(1) by (subst region_fill.simps) (simp add: Let_def)
    moreover have "concat (map zone_span (z # new)) = [first..<first + n]"
      using new(2) z(2,3) le upt_add_eq_append [of first "first + ?k" "n - ?k"] by (simp add: zone_span_def)
    moreover have "zone_order n \<le> MAX_ORDER" by (simp add: zone_order_def)
    ultimately show ?thesis using new(3) z by (intro exI [of _ "z # new"]) auto
  qed (simp add: region_fill.simps)
qed


lemma zones_init_ok:
  "\<forall>z \<in> set zs. first_page z < num_pages m \<Longrightarrow>
   \<exists>m'. zones_init zs m = Inr m' \<and> num_pages m' = num_pages m \<and>
     (\<forall>q. pages m' q = (if q \<in> first_page ` set zs then put_next (- 1) (put_prev (- 1) (pages m q)) else pages m q))"
proof (induction zs arbitrary: m)
  case (Cons z zs)
  let ?m = "m\<lparr>pages := (pages m)(first_page z := put_next (- 1) (put_prev (- 1) (pages m (first_page z))))\<rparr>"
  have s: "put_page m (first_page z) (\<lambda>page. put_next (- 1) (put_prev (- 1) page)) = Inr ?m"
    using Cons.prems by (simp add: put_page_def)
  have "\<forall>z \<in> set zs. first_page z < num_pages ?m" using Cons.prems by simp
  from Cons.IH [OF this] obtain m' where "zones_init zs ?m = Inr m'" "num_pages m' = num_pages ?m"
    "\<And>q. pages m' q = (if q \<in> first_page ` set zs then put_next (- 1) (put_prev (- 1) (pages ?m q)) else pages ?m q)" by blast
  then show ?case using s by (intro exI [of _ m']) auto
qed simp

lemma zone_in_spans:
  assumes "concat (map zone_span zs) = [first..<first + n]" "z \<in> set zs" "0 < zone_pages z"
  shows "first \<le> first_page z" "first_page z + zone_pages z \<le> first + n"
proof -
  have sub: "set (zone_span z) \<subseteq> {first..<first + n}"
  proof -
    have "set (concat (map zone_span zs)) = {first..<first + n}" by (simp add: assms(1))
    then show ?thesis using assms(2) by auto
  qed
  have "first_page z \<in> set (zone_span z)" "first_page z + zone_pages z - 1 \<in> set (zone_span z)"
    using assms(3) by (auto simp: zone_span_def)
  then have "first_page z \<in> {first..<first + n}" "first_page z + zone_pages z - 1 \<in> {first..<first + n}"
    using sub by blast+
  then show "first \<le> first_page z" "first_page z + zone_pages z \<le> first + n" using assms(3) by auto
qed

text \<open>
  C30. The constructor of \<open>PhysicalRegion\<close> ends and cuts the range of the region into
  consecutive zones without gap or overlap; after \<open>init\<close> every zone is ready, a zone without
  pages in use from which runs start.
\<close>

theorem region_zones_tile:
  assumes "0 < first" "first + n \<le> num_pages m" "num_pages m \<le> 2 ^ 32"
  shows "\<exists>r m'. region_new first n False False m = Inr (r, m) \<and> region_init r m = Inr m' \<and> region_free r = n \<and>
    concat (map zone_span (m_zones r)) = [first..<first + n] \<and> (\<forall>z \<in> set (m_zones r). zone_run z m' {})"
proof -
  obtain zs where zs: "region_fill first n False [] m = Inr (zs, m)" "concat (map zone_span zs) = [first..<first + n]"
    "\<forall>z \<in> set zs. \<exists>h \<le> MAX_ORDER. zone_new (first_page z) (2 ^ h) = Inr z \<and> zone_pages z = 2 ^ h"
    using region_fill_spans [of first n "[]" m] by auto
  let ?r = "\<lparr>m_zones = zs, start_page = first, region_pages = n, region_free = n, region_reserved = False\<rparr>"
  have new: "region_new first n False False m = Inr (?r, m)" using zs(1) by (simp add: region_new_def Let_def)
  have bounds: "first \<le> first_page z" "first_page z + zone_pages z \<le> first + n" "0 < zone_pages z" if "z \<in> set zs" for z
  proof -
    show "0 < zone_pages z" using zs(3) that by auto
    then show "first \<le> first_page z" "first_page z + zone_pages z \<le> first + n" using zone_in_spans [OF zs(2) that] by auto
  qed
  have "\<forall>z \<in> set zs. first_page z < num_pages m" using bounds assms(2) by fastforce
  from zones_init_ok [OF this] obtain m' where m': "zones_init zs m = Inr m'" "num_pages m' = num_pages m"
    "\<And>q. pages m' q = (if q \<in> first_page ` set zs then put_next (- 1) (put_prev (- 1) (pages m q)) else pages m q)" by blast
  have "zone_run z m' {}" if z: "z \<in> set zs" for z
  proof -
    obtain h where h: "zone_new (first_page z) (2 ^ h) = Inr z" "zone_pages z = 2 ^ h" using zs(3) z by blast
    have p: "pages m' (first_page z) = put_next (- 1) (put_prev (- 1) (pages m (first_page z)))" using m'(3) z by simp
    have le: "first_page z + 2 ^ h \<le> num_pages m'" using bounds(2) [OF z] h(2) assms(2) m'(2) by simp
    show ?thesis
      by (rule run_new [OF h(1) _ _ le]) (use bounds(1) [OF z] assms m'(2) p in \<open>simp_all add: free_next_def free_prev_def\<close>)
  qed
  then show ?thesis using new zs(2) m'(1) by (intro exI [of _ ?r] exI [of _ m']) (simp add: region_init_def)
qed

theorem region_zones_tile_witness:
  "\<exists>r m'. region_new 1 7 False False demo_pages = Inr (r, demo_pages) \<and> region_init r demo_pages = Inr m' \<and>
     concat (map zone_span (m_zones r)) = [1, 2, 3, 4, 5, 6, 7] \<and> (\<forall>z \<in> set (m_zones r). zone_run z m' {})"
proof -
  have "[1..<1 + 7] = [1, 2, 3, 4, 5, 6, 7 :: nat]" by code_simp
  then show ?thesis using region_zones_tile [of 1 7 demo_pages] by (auto simp: demo_pages_def)
qed

text \<open>
  A request for several pages stops the kernel as soon as it meets a zone whose counter covers
  the request but whose free pages form no run of the needed size, whatever the zones behind it
  could offer.
\<close>

lemma region_alloc_fragmented:
  assumes "\<not> region_reserved r" "n \<le> region_free r" "0 < n" "order_for n \<le> MAX_ORDER"
    "m_zones r = z # zs" "zone_run z m U" "n \<le> free_count z" "\<nexists>p. free_run z U p (size_of_order (order_for n))"
  shows "region_alloc_pages r m n = Inl AssertFail"
proof -
  obtain F where F: "zone_state z m U F" using zone_run_state [OF assms(6)] by blast
  have "alloc_block z m n = Inl AssertFail"
    using assms(7,8) by (cases rule: alloc_state [OF F assms(3)]) auto
  then show ?thesis using assms(1-5) by (simp add: region_alloc_pages_def)
qed


lemma run_free_page:
  assumes "zone_run z m U" "p \<in> U" "free_block z m p 1 = Inr (z', m')"
  shows "zone_run z' m' (U - {p})"
proof -
  have e: "{p..<p + 1} = {p}" by auto
  show ?thesis using run_free [OF assms(1) _ _ _ assms(3)] assms(2) unfolding e by simp
qed

definition demo_fragmented :: "buddy_state result" where
  "demo_fragmented = rbind (alloc_block demo_zone demo_pages 4) (\<lambda>(p, z, m).
     rbind (free_block z m 4 1) (\<lambda>(z, m). free_block z m 1 1))"

lemma demo_fragmented_run:
  obtains z m where "demo_fragmented = Inr (z, m)" "zone_run z m {2, 3}" "free_count z = 2"
    "first_page z = 1" "zone_pages z = 4"
proof -
  have "case demo_fragmented of Inl e \<Rightarrow> False | Inr (z, m) \<Rightarrow> free_count z = 2 \<and> first_page z = 1 \<and> zone_pages z = 4"
    by code_simp
  then obtain z m where z: "demo_fragmented = Inr (z, m)" "free_count z = 2" "first_page z = 1" "zone_pages z = 4"
    by (auto split: sum.splits)
  have a1: "case alloc_block demo_zone demo_pages 4 of Inl e \<Rightarrow> False | Inr (p, z, m) \<Rightarrow> p = 1" by code_simp
  obtain z1 m1 z2 m2 where s: "alloc_block demo_zone demo_pages 4 = Inr (1, z1, m1)"
    "free_block z1 m1 4 1 = Inr (z2, m2)" "free_block z2 m2 1 1 = Inr (z, m)"
    using z(1) a1 by (auto simp: demo_fragmented_def rbind_eq_Inr_iff)
  have o: "{1..<1 + size_of_order (order_for 4)} = {1, 2, 3, 4}" by code_simp
  have "zone_run z1 m1 {1, 2, 3, 4}" using run_alloc [OF demo_run _ s(1)] unfolding o by simp
  from run_free_page [OF this _ s(2)] have "zone_run z2 m2 ({1, 2, 3, 4} - {4})" by simp
  from run_free_page [OF this _ s(3)] have "zone_run z m ({1, 2, 3, 4} - {4} - {1})" by simp
  moreover have "{1, 2, 3, 4} - {4} - {1} = {2, 3 :: nat}" by code_simp
  ultimately show thesis using that z by simp
qed

lemma region_alloc_fragmented_witness:
  "case demo_fragmented of
     Inl e \<Rightarrow> False
   | Inr (z, m) \<Rightarrow> region_alloc_pages \<lparr>m_zones = [z, demo_zone\<lparr>first_page := 5\<rparr>], start_page = 1, region_pages = 8,
                      region_free = 6, region_reserved = False\<rparr> m 2 = Inl AssertFail"
proof -
  obtain z m where z: "demo_fragmented = Inr (z, m)" "zone_run z m {2, 3}" "free_count z = 2"
    "first_page z = 1" "zone_pages z = 4" by (rule demo_fragmented_run)
  have o: "order_for 2 = 1" "size_of_order 1 = 2" by code_simp+
  have "\<not> free_run z {2, 3} p (size_of_order (order_for 2))" for p
  proof
    assume run: "free_run z {2, 3} p (size_of_order (order_for 2))"
    then have "{p..<p + 2} \<subseteq> {p. 1 \<le> p \<and> p < 1 + 4} - {2, 3}"
      unfolding free_run_def contains_page_def o z(4,5) by blast
    moreover have "p \<in> {p..<p + 2}" "p + 1 \<in> {p..<p + 2}" by auto
    ultimately have "p \<in> {p. 1 \<le> p \<and> p < 1 + 4} - {2, 3}" "p + 1 \<in> {p. 1 \<le> p \<and> p < 1 + 4} - {2, 3}" by blast+
    then show False by simp presburger
  qed
  then have no: "\<nexists>p. free_run z {2, 3} p (size_of_order (order_for 2))" by blast
  let ?r = "\<lparr>m_zones = [z, demo_zone\<lparr>first_page := 5\<rparr>], start_page = 1, region_pages = 8, region_free = 6, region_reserved = False\<rparr>"
  have "region_alloc_pages ?r m 2 = Inl AssertFail"
    by (rule region_alloc_fragmented [OF _ _ _ _ _ z(2) _ no]) (simp_all add: o z(3) MAX_ORDER_def)
  then show ?thesis unfolding z(1) by simp
qed

end
