(* ===== verification/WordBits.thy ===== *)
theory WordBits
  imports Prelude
begin

text \<open>
  Facts on the bits of machine words that the components with bit fields share.
\<close>

unbundle bit_operations_syntax

lemma small_bit:
  fixes w :: "'a::len word"
  assumes "w < 2 ^ k" "bit w n"
  shows "n < k"
proof -
  have "0 < (2 ^ k :: 'a word)" using assms(1) by (metis le_less_trans word_zero_le)
  then have "uint (2 ^ k :: 'a word) = 2 ^ k" by (rule uint_2p)
  then have "uint w < 2 ^ k" using assms(1) by (simp add: word_less_def)
  then have "take_bit k (uint w) = uint w" by (simp add: take_bit_int_eq_self)
  then have "bit (uint w) n \<longleftrightarrow> n < k \<and> bit (uint w) n" by (metis bit_take_bit_iff)
  then show ?thesis using assms(2) by (simp add: bit_uint_iff bit_imp_le_length)
qed

lemma word_eq_bits: "a = b \<longleftrightarrow> (\<forall>n < LENGTH('a). bit a n = bit b n)" for a b :: "'a::len word"
  by (auto intro: bit_word_eqI)

lemma unat_byte: "unat w < 256" for w :: "8 word"
  using unsigned_less [where ?'a = nat, of w] by simp

lemma all_less_8: "(\<forall>n < (8::nat). P n) \<longleftrightarrow> P 0 \<and> P 1 \<and> P 2 \<and> P 3 \<and> P 4 \<and> P 5 \<and> P 6 \<and> P 7"
  by (simp add: numeral_eq_Suc All_less_Suc conj_ac)

lemma all_less_16:
  "(\<forall>n < (16::nat). P n) \<longleftrightarrow> (\<forall>n < 8. P n) \<and>
     P 8 \<and> P 9 \<and> P 10 \<and> P 11 \<and> P 12 \<and> P 13 \<and> P 14 \<and> P 15"
  by (simp add: numeral_eq_Suc All_less_Suc conj_ac)

lemma all_less_32:
  "(\<forall>n < (32::nat). P n) \<longleftrightarrow> (\<forall>n < 16. P n) \<and>
     P 16 \<and> P 17 \<and> P 18 \<and> P 19 \<and> P 20 \<and> P 21 \<and> P 22 \<and> P 23 \<and>
     P 24 \<and> P 25 \<and> P 26 \<and> P 27 \<and> P 28 \<and> P 29 \<and> P 30 \<and> P 31"
  by (simp add: numeral_eq_Suc All_less_Suc conj_ac)

end
