(* ===== verification/Terminal.thy ===== *)
theory Terminal
  imports WordBits
begin

text \<open>
  The terminal emulator \<open>Term::Terminal\<close> (\<open>src/libraries/libterm/Terminal.cpp\<close>, with
  \<open>Line.cpp\<close> and \<open>types.h\<close>) that the kernel's virtual consoles and the terminal application
  share: the grid of characters, the cursor, the UTF-8 decoder and the escape sequences. Calls of
  the listener are events that the state collects in order. The grid is a list of lines; every
  access to it by index can fail, and so can the accesses to the buffers of escape parameters.
\<close>

unbundle bit_operations_syntax

section \<open>Data\<close>

record attribute =
  fg :: "8 word"
  bg :: "8 word"

record character =
  codepoint :: "32 word"
  attr :: attribute

record position =
  col :: int
  line :: int

record term_size =
  cols :: int
  lines :: int

datatype escape_status = Beginning | Value

text \<open>The calls of \<open>Term::Listener\<close>.\<close>

datatype event =
    OnCharacterChange position character
  | OnCursorChange position
  | OnBackspace position
  | OnClear
  | OnClearLine int
  | OnScroll int
  | OnResize term_size term_size
  | Emit "8 word list"

record terminal =
  current_attribute :: attribute
  cursor_position :: position
  dimensions :: term_size
  screen :: "character list list"
  escape_mode :: bool
  escape_status :: escape_status
  escape_parameters :: "8 word list list"
  current_escape_parameter :: nat
  escape_parameter_index :: nat
  escape_parameter_char_index :: nat
  current_escape_codepoint :: "32 word"
  prevent_scroll :: bool
  events :: "event list"

abbreviation pos :: "int \<Rightarrow> int \<Rightarrow> position" where
  "pos c l \<equiv> \<lparr>col = c, line = l\<rparr>"

definition default_attribute :: attribute where
  "default_attribute = \<lparr>fg = 7, bg = 0\<rparr>"

definition blank :: "attribute \<Rightarrow> character" where
  "blank a = \<lparr>codepoint = 0, attr = a\<rparr>"

definition notify :: "event \<Rightarrow> terminal \<Rightarrow> terminal" where
  "notify e t = t\<lparr>events := events t @ [e]\<rparr>"

section \<open>The grid\<close>

text \<open>\<open>Line::resize\<close>: new cells take the attribute of the last cell there was.\<close>

definition line_resize :: "nat \<Rightarrow> character list \<Rightarrow> character list" where
  "line_resize new_size chars =
     (let old_size = length chars;
          fill_char = blank (if old_size \<noteq> 0 then attr (chars ! (old_size - 1)) else default_attribute)
      in take new_size chars @ replicate (new_size - old_size) fill_char)"

definition screen_get :: "character list list \<Rightarrow> int \<Rightarrow> int \<Rightarrow> character result" where
  "screen_get scr y x =
     (if 0 \<le> y \<and> y < int (length scr) \<and> 0 \<le> x \<and> x < int (length (scr ! nat y))
      then Inr (scr ! nat y ! nat x) else Inl Undefined)"

definition screen_put :: "character list list \<Rightarrow> int \<Rightarrow> int \<Rightarrow> character \<Rightarrow> character list list result" where
  "screen_put scr y x c =
     (if 0 \<le> y \<and> y < int (length scr) \<and> 0 \<le> x \<and> x < int (length (scr ! nat y))
      then Inr (scr[nat y := (scr ! nat y)[nat x := c]]) else Inl Undefined)"

definition screen_line :: "character list list \<Rightarrow> int \<Rightarrow> character list result" where
  "screen_line scr y = (if 0 \<le> y \<and> y < int (length scr) then Inr (scr ! nat y) else Inl Undefined)"

definition screen_set_line :: "character list list \<Rightarrow> int \<Rightarrow> character list \<Rightarrow> character list list result" where
  "screen_set_line scr y l = (if 0 \<le> y \<and> y < int (length scr) then Inr (scr[nat y := l]) else Inl Undefined)"

definition set_screen :: "terminal \<Rightarrow> character list list \<Rightarrow> terminal" where
  "set_screen t scr = t\<lparr>screen := scr\<rparr>"

section \<open>Operations\<close>

text \<open>
  The constructor; the escape parameters and the pointer into them have no initial value in the
  source, so they are arguments here.
\<close>

definition term_new :: "term_size \<Rightarrow> 8 word list list \<Rightarrow> nat \<Rightarrow> terminal" where
  "term_new d params p =
     \<lparr>current_attribute = default_attribute, cursor_position = pos 0 0, dimensions = d,
      screen = map (line_resize (nat (cols d))) (replicate (nat (lines d)) []),
      escape_mode = False, escape_status = Beginning, escape_parameters = params, current_escape_parameter = p,
      escape_parameter_index = 0, escape_parameter_char_index = 0, current_escape_codepoint = 0,
      prevent_scroll = False, events = []\<rparr>"

definition resize_lines :: "nat \<Rightarrow> character list list \<Rightarrow> character list list" where
  "resize_lines n scr = take n scr @ replicate (n - length scr) []"

definition set_dimensions :: "terminal \<Rightarrow> term_size \<Rightarrow> terminal result" where
  "set_dimensions t new_size =
     (if lines new_size \<le> 0 \<or> cols new_size \<le> 0 then Inr t
      else
        rbind (if lines new_size < lines (dimensions t)
               then rfold (\<lambda>y scr.
                      rbind (screen_line scr (int y + (lines (dimensions t) - lines new_size))) (screen_set_line scr (int y)))
                      [0..<nat (lines new_size)] (screen t)
               else Inr (screen t)) (\<lambda>scr.
        rbind (rfold (\<lambda>y scr.
                 rbind (screen_line scr (int y)) (\<lambda>l. screen_set_line scr (int y) (line_resize (nat (cols new_size)) l)))
                 [0..<nat (lines new_size)] (resize_lines (nat (lines new_size)) scr)) (\<lambda>scr.
          let p = cursor_position t;
              p = (if col p \<ge> cols new_size then p\<lparr>col := cols new_size - 1\<rparr> else p);
              p = (if line p \<ge> lines new_size then p\<lparr>line := lines new_size - 1\<rparr> else p)
          in Inr (notify (OnResize (dimensions t) new_size)
                   ((set_screen t scr)\<lparr>cursor_position := p, dimensions := new_size\<rparr>)))))"

definition on_screen :: "term_size \<Rightarrow> position \<Rightarrow> bool" where
  "on_screen d p \<longleftrightarrow> 0 \<le> col p \<and> col p < cols d \<and> 0 \<le> line p \<and> line p < lines d"

definition set_cursor :: "terminal \<Rightarrow> position \<Rightarrow> terminal" where
  "set_cursor t p =
     (let old_pos = cursor_position t; t1 = t\<lparr>cursor_position := p\<rparr>
      in if on_screen (dimensions t) old_pos then notify (OnCursorChange old_pos) t1 else t1)"

definition clear :: "terminal \<Rightarrow> terminal result" where
  "clear t =
     (let t1 = set_cursor t (pos 0 0) in
      rbind (rfold (\<lambda>y scr. rfold (\<lambda>x scr. screen_put scr (int y) (int x) (blank (current_attribute t1)))
               [0..<nat (cols (dimensions t1))] scr) [0..<nat (lines (dimensions t1))] (screen t1)) (\<lambda>scr.
        Inr (notify OnClear (set_screen t1 scr))))"

definition clear_line :: "terminal \<Rightarrow> int \<Rightarrow> terminal result" where
  "clear_line t l =
     (if l < 0 \<or> l \<ge> lines (dimensions t) then Inr t
      else rbind (rfold (\<lambda>x scr. screen_put scr l (int x) (blank (current_attribute t)))
               [0..<nat (cols (dimensions t))] (screen t)) (\<lambda>scr.
        Inr (notify (OnClearLine l) (set_screen t scr))))"

definition scroll :: "terminal \<Rightarrow> int \<Rightarrow> terminal result" where
  "scroll t n =
     (if n \<ge> lines (dimensions t) then clear t
      else
        let clear_start_line = lines (dimensions t) - n in
        rbind (rfold (\<lambda>y scr. rfold (\<lambda>x scr.
                 if int y \<ge> clear_start_line then screen_put scr (int y) (int x) (blank (current_attribute t))
                 else rbind (screen_get scr (int y + n) (int x)) (screen_put scr (int y) (int x)))
               [0..<nat (cols (dimensions t))] scr) [0..<nat (lines (dimensions t))] (screen t)) (\<lambda>scr.
          Inr (notify (OnScroll n) (set_screen t scr))))"

definition get_character :: "terminal \<Rightarrow> position \<Rightarrow> character result" where
  "get_character t p =
     (if \<not> on_screen (dimensions t) p then Inr (blank default_attribute)
      else screen_get (screen t) (line p) (col p))"

definition set_character :: "terminal \<Rightarrow> position \<Rightarrow> character \<Rightarrow> terminal result" where
  "set_character t p c =
     (if \<not> on_screen (dimensions t) p then Inr t
      else rbind (screen_put (screen t) (line p) (col p) c) (\<lambda>scr.
             Inr (notify (OnCharacterChange p c) (set_screen t scr))))"

definition advance_cursor :: "terminal \<Rightarrow> terminal result" where
  "advance_cursor t =
     (let p = cursor_position t; p = p\<lparr>col := col p + 1\<rparr>;
          p = (if col p = cols (dimensions t) then \<lparr>col = 0, line = line p + 1\<rparr> else p)
      in if line p \<ge> lines (dimensions t)
         then rbind (scroll t (line p + 1 - lines (dimensions t))) (\<lambda>t1.
                Inr (set_cursor t1 (p\<lparr>line := lines (dimensions t) - 1\<rparr>)))
         else Inr (set_cursor t p))"

definition regress_cursor :: "terminal \<Rightarrow> terminal" where
  "regress_cursor t =
     (let p = cursor_position t; p = p\<lparr>col := col p - 1\<rparr>
      in set_cursor t
           (if col p < 0
            then \<lparr>col = cols (dimensions t) - 1, line = (if line p - 1 < 0 then 0 else line p - 1)\<rparr>
            else p))"

text \<open>
  Both listeners answer \<open>on_backspace\<close> by blanking the cell under the cursor
  (\<open>VirtualTTY::on_backspace\<close>, \<open>TerminalWidget::on_backspace\<close>).
\<close>

definition on_backspace :: "terminal \<Rightarrow> terminal result" where
  "on_backspace t = set_character t (cursor_position t) (blank (current_attribute t))"

definition backspace :: "terminal \<Rightarrow> terminal result" where
  "backspace t = (let t1 = regress_cursor t in on_backspace (notify (OnBackspace (cursor_position t1)) t1))"

definition emit_str :: "terminal \<Rightarrow> 8 word list \<Rightarrow> terminal" where
  "emit_str t s = notify (Emit (takeWhile (\<lambda>c. c \<noteq> 0) s)) t"

text \<open>
  Keys: the arrows are 0x48, 0x50, 0x4D and 0x4B; the modifiers alt and control are bits 0 and 1.
\<close>

definition handle_keypress :: "terminal \<Rightarrow> 16 word \<Rightarrow> 32 word \<Rightarrow> 8 word \<Rightarrow> terminal" where
  "handle_keypress t keycode cp modifiers =
     (let cp = (if modifiers AND 2 \<noteq> 0 \<and> 97 \<le> cp \<and> cp \<le> 122 then cp - 96 else cp);
          emit_csi = (\<lambda>esc. emit_str t [27, 91, esc])
      in if keycode = 0x48 then emit_csi 65
         else if keycode = 0x50 then emit_csi 66
         else if keycode = 0x4D then emit_csi 67
         else if keycode = 0x4B then emit_csi 68
         else let t1 = (if modifiers AND 1 \<noteq> 0 then emit_str t [27] else t)
              in if cp = 0 then t1 else emit_str t1 [ucast cp])"

definition set_current_attribute :: "terminal \<Rightarrow> attribute \<Rightarrow> terminal" where
  "set_current_attribute t a = t\<lparr>current_attribute := a\<rparr>"

definition set_prevent_scroll :: "terminal \<Rightarrow> bool \<Rightarrow> terminal" where
  "set_prevent_scroll t b = t\<lparr>prevent_scroll := b\<rparr>"

section \<open>Escape sequences\<close>

text \<open>
  \<open>atoi\<close> of the kernel (\<open>src/kernel/kstd/kstdlib.cpp\<close>), with which the virtual consoles are built: it
  takes every character for a digit. A sequence is evaluated with at most eight characters in a
  parameter, so that the sum stays within an \<open>int\<close>. The one of \<open>libc\<close> that the terminal application links skips white
  space and stops at the first character that is not a digit; the properties below hold for any
  value. Reading a parameter without a terminating zero is undefined.
\<close>

definition katoi :: "8 word list \<Rightarrow> int result" where
  "katoi str =
     (if 0 \<in> set str then Inr (foldl (\<lambda>ret c. ret * 10 + (sint c - 48)) 0 (takeWhile (\<lambda>c. c \<noteq> 0) str))
      else Inl Undefined)"

definition param_row :: "terminal \<Rightarrow> nat \<Rightarrow> 8 word list result" where
  "param_row t i = (if i < length (escape_parameters t) then Inr (escape_parameters t ! i) else Inl Undefined)"

definition apply_graphics_mode :: "int \<Rightarrow> attribute \<Rightarrow> attribute" where
  "apply_graphics_mode v a =
     (if 30 \<le> v \<and> v < 38 then a\<lparr>fg := word_of_int (v - 30)\<rparr>
      else if 40 \<le> v \<and> v < 48 then a\<lparr>bg := word_of_int (v - 40)\<rparr>
      else if 90 \<le> v \<and> v < 98 then a\<lparr>fg := word_of_int (v - 82)\<rparr>
      else if 100 \<le> v \<and> v < 108 then a\<lparr>bg := word_of_int (v - 92)\<rparr>
      else if v = 39 then a\<lparr>fg := 7, bg := 0\<rparr>
      else if v = 40 then a\<lparr>bg := 0\<rparr>
      else a)"

definition evaluate_graphics_mode_escape :: "terminal \<Rightarrow> terminal result" where
  "evaluate_graphics_mode_escape t =
     rfold (\<lambda>i t. rbind (param_row t i) (\<lambda>row. rbind (katoi row) (\<lambda>v.
              Inr (t\<lparr>current_attribute := apply_graphics_mode v (current_attribute t)\<rparr>))))
       [0..<escape_parameter_index t + 1] t"

text \<open>
  \<open>!escape_parameters[0]\<close> tests the address of an array, so the value is always that of
  \<open>atoi\<close>, which is 0 for a parameter that was left out.
\<close>

definition first_parameter :: "terminal \<Rightarrow> int result" where
  "first_parameter t = rbind (param_row t 0) katoi"

definition evaluate_clear_escape :: "terminal \<Rightarrow> terminal result" where
  "evaluate_clear_escape t =
     rbind (first_parameter t) (\<lambda>v.
       if v = 0 then rfold (\<lambda>l t. clear_line t (int l)) [nat (line (cursor_position t))..<nat (lines (dimensions t))] t
       else if v = 1 then rfold (\<lambda>l t. clear_line t (int l)) [0..<nat (line (cursor_position t) + 1)] t
       else if v = 2 then clear t
       else Inr t)"

definition evaluate_clear_line_escape :: "terminal \<Rightarrow> terminal result" where
  "evaluate_clear_line_escape t =
     rbind (first_parameter t) (\<lambda>v.
       if v = 0 then rfold (\<lambda>x t. set_character t (pos (int x) (line (cursor_position t))) (blank (current_attribute t)))
                       [nat (col (cursor_position t))..<nat (cols (dimensions t))] t
       else if v = 1 then rfold (\<lambda>x t. set_character t (pos (int x) (line (cursor_position t))) (blank (current_attribute t)))
                       [0..<nat (col (cursor_position t) + 1)] t
       else if v = 2 then clear_line t (line (cursor_position t))
       else Inr t)"

definition evaluate_cursor_escape :: "terminal \<Rightarrow> terminal result" where
  "evaluate_cursor_escape t =
     rbind (first_parameter t) (\<lambda>amount.
       if current_escape_codepoint t = 67 then rrepeat (nat amount) advance_cursor t
       else if current_escape_codepoint t = 68 then rrepeat (nat amount) (\<lambda>t. Inr (regress_cursor t)) t
       else Inr t)"

definition put_parameter :: "terminal \<Rightarrow> 8 word \<Rightarrow> terminal result" where
  "put_parameter t c =
     (let p = current_escape_parameter t; i = escape_parameter_char_index t in
      if p < length (escape_parameters t) \<and> i < length (escape_parameters t ! p)
      then Inr (t\<lparr>escape_parameters := (escape_parameters t)[p := (escape_parameters t ! p)[i := c]],
                  escape_parameter_char_index := i + 1\<rparr>)
      else Inl Undefined)"

text \<open>
  The switch: \<open>;\<close> is 59, \<open>m\<close> 109, \<open>K\<close> 75, \<open>J\<close> 74 (which falls through to the cursor
  sequences \<open>A\<close> to \<open>D\<close>, 65 to 68), and \<open>[\<close> is 91.
\<close>

definition evaluate_escape_codepoint :: "terminal \<Rightarrow> 32 word \<Rightarrow> terminal result" where
  "evaluate_escape_codepoint t0 cp =
     (let t = t0\<lparr>current_escape_codepoint := cp\<rparr> in
      case escape_status t of
        Beginning \<Rightarrow>
          if cp \<noteq> 91 then Inr (t\<lparr>escape_mode := False\<rparr>)
          else Inr (t\<lparr>current_escape_parameter := 0, escape_parameter_index := 0, escape_parameter_char_index := 0,
                     escape_status := Value, escape_parameters := replicate 10 (replicate 10 0)\<rparr>)
      | Value \<Rightarrow>
          if cp = 59 then
            let i = escape_parameter_index t + 1;
                t1 = t\<lparr>escape_parameter_char_index := 0, escape_parameter_index := i\<rparr>
            in Inr (if i \<ge> 10 then t1\<lparr>escape_mode := False\<rparr> else t1\<lparr>current_escape_parameter := i\<rparr>)
          else if cp = 109 then evaluate_graphics_mode_escape (t\<lparr>escape_mode := False\<rparr>)
          else if cp = 75 then evaluate_clear_line_escape (t\<lparr>escape_mode := False\<rparr>)
          else if cp = 74 then
            rbind (evaluate_clear_escape (t\<lparr>escape_mode := False\<rparr>)) (\<lambda>t1. evaluate_cursor_escape (t1\<lparr>escape_mode := False\<rparr>))
          else if cp = 65 \<or> cp = 66 \<or> cp = 67 \<or> cp = 68 then evaluate_cursor_escape (t\<lparr>escape_mode := False\<rparr>)
          else rbind (put_parameter t (ucast cp)) (\<lambda>t1.
            Inr (if escape_parameter_char_index t1 \<ge> 9 then t1\<lparr>escape_mode := False\<rparr> else t1)))"

section \<open>Writing\<close>

text \<open>The end of \<open>write_codepoint\<close>: wrapping, scrolling and moving the cursor to \<open>p\<close>.\<close>

definition finish_write :: "terminal \<Rightarrow> position \<Rightarrow> terminal result" where
  "finish_write t p0 =
     (let p = (if col p0 = cols (dimensions t) then \<lparr>col = 0, line = line p0 + 1\<rparr> else p0) in
      rbind (if line p \<ge> lines (dimensions t)
             then rbind (if \<not> prevent_scroll t then scroll t (line p + 1 - lines (dimensions t)) else Inr t) (\<lambda>t1.
                    Inr (t1, p\<lparr>line := lines (dimensions t1) - 1\<rparr>))
             else Inr (t, p)) (\<lambda>(t1, p).
        Inr (if col p \<noteq> col (cursor_position t1) \<or> line p \<noteq> line (cursor_position t1) then set_cursor t1 p else t1)))"

definition write_codepoint :: "terminal \<Rightarrow> 32 word \<Rightarrow> terminal result" where
  "write_codepoint t cp =
     (if escape_mode t then evaluate_escape_codepoint t cp
      else let p = cursor_position t in
        if cp = 10 then finish_write t \<lparr>col = 0, line = line p + 1\<rparr>
        else if cp = 13 then finish_write t (p\<lparr>col := 0\<rparr>)
        else if cp = 8 then backspace t
        else if cp = 9 then
          let next_mult = col p + (8 - col p mod 8) in
          finish_write t (if next_mult \<ge> cols (dimensions t) then \<lparr>col = 0, line = line p + 1\<rparr> else p\<lparr>col := next_mult\<rparr>)
        else if cp = 27 then Inr (t\<lparr>escape_mode := True, escape_status := Beginning\<rparr>)
        else rbind (set_character t p \<lparr>codepoint = cp, attr = current_attribute t\<rparr>) (\<lambda>t1.
               finish_write t1 (p\<lparr>col := col p + 1\<rparr>)))"

text \<open>The static variables of \<open>write_char\<close>, which all terminals share.\<close>

record utf8 =
  utf8_buffer :: "32 word"
  utf8_index :: int
  utf8_char_length :: int
  utf8_remaining_bits :: "8 word"

definition utf8_init :: utf8 where
  "utf8_init = \<lparr>utf8_buffer = 0, utf8_index = 0, utf8_char_length = 1, utf8_remaining_bits = 0\<rparr>"

text \<open>The decoder: a byte (sign-extended when it is widened) gives the next state and perhaps a code point.\<close>

definition utf8_first :: "utf8 \<Rightarrow> 8 word \<Rightarrow> utf8" where
  "utf8_first u c =
     (let w = scast c :: 32 word in
      if c AND 0xF0 = 0xF0 then u\<lparr>utf8_char_length := 4, utf8_buffer := push_bit 18 (w AND 0x7), utf8_remaining_bits := 18\<rparr>
      else if c AND 0xE0 = 0xE0 then u\<lparr>utf8_char_length := 3, utf8_buffer := push_bit 12 (w AND 0xF), utf8_remaining_bits := 12\<rparr>
      else if c AND 0xC0 = 0xC0 then u\<lparr>utf8_char_length := 2, utf8_buffer := push_bit 6 (w AND 0x1F), utf8_remaining_bits := 6\<rparr>
      else u\<lparr>utf8_char_length := 1\<rparr>)"

definition utf8_step :: "utf8 \<Rightarrow> 8 word \<Rightarrow> 32 word option \<times> utf8" where
  "utf8_step u0 c =
     (let w = scast c :: 32 word;
          u = (if utf8_index u0 = 0 then utf8_first u0 c else u0);
          u = (if utf8_char_length u = 1 then u\<lparr>utf8_buffer := w\<rparr>
               else if utf8_index u \<noteq> 0
               then let r = utf8_remaining_bits u - 6
                    in u\<lparr>utf8_remaining_bits := r, utf8_buffer := utf8_buffer u OR push_bit (unat r) (w AND 0x3F)\<rparr>
               else u);
          u = u\<lparr>utf8_index := utf8_index u + 1\<rparr>
      in if utf8_index u = utf8_char_length u
         then (Some (utf8_buffer u), u\<lparr>utf8_index := 0, utf8_buffer := 0\<rparr>)
         else (None, u))"

definition write_char :: "utf8 \<times> terminal \<Rightarrow> 8 word \<Rightarrow> (utf8 \<times> terminal) result" where
  "write_char s c =
     (case utf8_step (fst s) c of
        (None, u) \<Rightarrow> Inr (u, snd s)
      | (Some cp, u) \<Rightarrow> rbind (write_codepoint (snd s) cp) (\<lambda>t. Inr (u, t)))"

definition write_chars :: "utf8 \<times> terminal \<Rightarrow> 8 word list \<Rightarrow> (utf8 \<times> terminal) result" where
  "write_chars s cs = rfold (\<lambda>c s. write_char s c) cs s"

definition write_codepoints :: "terminal \<Rightarrow> 32 word list \<Rightarrow> terminal result" where
  "write_codepoints t cps = rfold (\<lambda>cp t. write_codepoint t cp) cps t"


section \<open>The loops over the grid\<close>

lemma take_update_drop:
  assumes "y < length new" "length new = length old"
  shows "(take y new @ drop y old)[y := new ! y] = take (Suc y) new @ drop (Suc y) old"
  using assms by (intro nth_equalityI) (auto simp: nth_append nth_list_update less_Suc_eq)

lemma fill_row:
  assumes y: "y < length s0" and len: "length (s0 ! y) = n" "length new = n"
    and step: "\<And>x s. x < n \<Longrightarrow> s = s0[y := take x new @ drop x (s0 ! y)] \<Longrightarrow>
      f x s = screen_put s (int y) (int x) (new ! x)"
  shows "rfold f [0..<n] s0 = Inr (s0[y := new])"
proof -
  have "\<exists>s'. rfold f [0..<n] s0 = Inr s' \<and> s' = s0[y := take n new @ drop n (s0 ! y)]"
  proof (rule rfold_upt [where I = "\<lambda>x s. s = s0[y := take x new @ drop x (s0 ! y)]"])
    fix x s
    assume x: "x < n" and s: "s = s0[y := take x new @ drop x (s0 ! y)]"
    show "\<exists>s'. f x s = Inr s' \<and> s' = s0[y := take (Suc x) new @ drop (Suc x) (s0 ! y)]"
      using step [OF x s] x y len take_update_drop [of x new "s0 ! y"] by (simp add: s screen_put_def)
  qed simp_all
  then show ?thesis using len by simp
qed

lemma fill_rows:
  assumes len: "length s0 = n" "length new = n"
    and step: "\<And>y s. y < n \<Longrightarrow> s = take y new @ drop y s0 \<Longrightarrow> f y s = Inr (s[y := new ! y])"
  shows "rfold f [0..<n] s0 = Inr new"
proof -
  have "\<exists>s'. rfold f [0..<n] s0 = Inr s' \<and> s' = take n new @ drop n s0"
  proof (rule rfold_upt [where I = "\<lambda>y s. s = take y new @ drop y s0"])
    fix y s
    assume y: "y < n" and s: "s = take y new @ drop y s0"
    show "\<exists>s'. f y s = Inr s' \<and> s' = take (Suc y) new @ drop (Suc y) s0"
      using step [OF y s] y len take_update_drop [of y new s0] by (simp add: s)
  qed simp_all
  then show ?thesis using len by simp
qed

definition grid_ok :: "term_size \<Rightarrow> character list list \<Rightarrow> bool" where
  "grid_ok d scr \<longleftrightarrow> 0 < cols d \<and> 0 < lines d \<and> length scr = nat (lines d) \<and> (\<forall>l \<in> set scr. length l = nat (cols d))"

lemma grid_nth: "grid_ok d scr \<Longrightarrow> y < nat (lines d) \<Longrightarrow> length (scr ! y) = nat (cols d)"
  by (simp add: grid_ok_def)

lemma clear_loop:
  assumes "grid_ok d scr"
  shows "rfold (\<lambda>y scr. rfold (\<lambda>x scr. screen_put scr (int y) (int x) c) [0..<nat (cols d)] scr) [0..<nat (lines d)] scr =
    Inr (replicate (nat (lines d)) (replicate (nat (cols d)) c))"
proof (rule fill_rows)
  fix y s
  assume y: "y < nat (lines d)" and s: "s = take y (replicate (nat (lines d)) (replicate (nat (cols d)) c)) @ drop y scr"
  have "rfold (\<lambda>x scr. screen_put scr (int y) (int x) c) [0..<nat (cols d)] s = Inr (s[y := replicate (nat (cols d)) c])"
    using y s assms by (intro fill_row) (auto simp: grid_ok_def nth_append)
  then show "rfold (\<lambda>x scr. screen_put scr (int y) (int x) c) [0..<nat (cols d)] s =
      Inr (s[y := replicate (nat (lines d)) (replicate (nat (cols d)) c) ! y])" using y by simp
qed (use assms in \<open>auto simp: grid_ok_def\<close>)

lemma clear_row_loop:
  assumes "grid_ok d scr" "0 \<le> l" "l < lines d"
  shows "rfold (\<lambda>x scr. screen_put scr l (int x) c) [0..<nat (cols d)] scr = Inr (scr[nat l := replicate (nat (cols d)) c])"
proof -
  have "rfold (\<lambda>x scr. screen_put scr (int (nat l)) (int x) c) [0..<nat (cols d)] scr = Inr (scr[nat l := replicate (nat (cols d)) c])"
    using assms by (intro fill_row) (auto simp: grid_ok_def)
  then show ?thesis using assms(2) by simp
qed

definition scrolled :: "nat \<Rightarrow> nat \<Rightarrow> 'a \<Rightarrow> 'a list list \<Rightarrow> 'a list list" where
  "scrolled n w c g = drop n g @ replicate n (replicate w c)"

lemma scrolled_nth:
  "y < length g \<Longrightarrow> n \<le> length g \<Longrightarrow>
   scrolled n w c g ! y = (if y < length g - n then g ! (n + y) else replicate w c)"
  by (auto simp: scrolled_def nth_append)

lemma scroll_loop:
  assumes g: "grid_ok d scr" and n: "0 \<le> n" "n < lines d"
  shows "rfold (\<lambda>y scr. rfold (\<lambda>x scr.
           if int y \<ge> lines d - n then screen_put scr (int y) (int x) c
           else rbind (screen_get scr (int y + n) (int x)) (screen_put scr (int y) (int x)))
         [0..<nat (cols d)] scr) [0..<nat (lines d)] scr = Inr (scrolled (nat n) (nat (cols d)) c scr)"
    (is "rfold ?f _ _ = Inr ?new")
proof (rule fill_rows)
  have len: "length scr = nat (lines d)" "length ?new = nat (lines d)" using g n by (auto simp: grid_ok_def scrolled_def)
  then show "length scr = nat (lines d)" "length ?new = nat (lines d)" by simp_all
  fix y s
  assume y: "y < nat (lines d)" and s: "s = take y ?new @ drop y scr"
  have row: "length (?new ! y) = nat (cols d)" "length (s ! y) = nat (cols d)" "y < length s"
  proof -
    have "?new ! y = (if y < nat (lines d) - nat n then scr ! (nat n + y) else replicate (nat (cols d)) c)"
      using y n len(1) by (subst scrolled_nth) auto
    then show "length (?new ! y) = nat (cols d)" using y grid_nth [OF g, of "nat n + y"] by simp
    have "s ! y = scr ! y" using y len by (simp add: s nth_append)
    then show "length (s ! y) = nat (cols d)" using y grid_nth [OF g] by simp
    show "y < length s" using y len by (simp add: s)
  qed
  show "?f y s = Inr (s[y := ?new ! y])"
  proof (rule fill_row [OF row(3,2,1)])
    fix x s'
    assume x: "x < nat (cols d)" and s': "s' = s[y := take x (?new ! y) @ drop x (s ! y)]"
    show "(if int y \<ge> lines d - n then screen_put s' (int y) (int x) c
        else rbind (screen_get s' (int y + n) (int x)) (screen_put s' (int y) (int x))) = screen_put s' (int y) (int x) (?new ! y ! x)"
    proof (cases "int y \<ge> lines d - n")
      case True
      then have "\<not> y < nat (lines d) - nat n" using n by linarith
      then have "?new ! y = replicate (nat (cols d)) c" using y n len(1) by (subst scrolled_nth) auto
      then show ?thesis using True x by simp
    next
      case False
      then have yn: "y + nat n < nat (lines d)" "nat (int y + n) = y + nat n" using n by linarith+
      have new: "?new ! y = scr ! (y + nat n)" using yn len(1) by (subst scrolled_nth) (auto simp: add.commute)
      have src: "s' ! (y + nat n) ! x = ?new ! y ! x \<and> length (s' ! (y + nat n)) = nat (cols d)"
      proof (cases "nat n = 0")
        case True
        then have "?new ! y = scr ! y" using new by simp
        then have "s' ! y = ?new ! y" using row y s len by (simp add: s' nth_append)
        then show ?thesis using True row by simp
      next
        case False
        then have "s' ! (y + nat n) = scr ! (y + nat n)" using yn len by (simp add: s' s nth_append)
        then show ?thesis using new grid_nth [OF g yn(1)] by simp
      qed
      have "y + nat n < length s'" using yn len row by (simp add: s' s)
      then have "screen_get s' (int y + n) (int x) = Inr (?new ! y ! x)"
        using src x n yn g by (auto simp: screen_get_def grid_ok_def)
      then show ?thesis using False by simp
    qed
  qed
qed


lemma resize_loop:
  assumes g: "grid_ok d scr" and new: "0 < lines e" "0 < cols e" "lines e < lines d"
  shows "rfold (\<lambda>y scr. rbind (screen_line scr (int y + (lines d - lines e))) (screen_set_line scr (int y)))
      [0..<nat (lines e)] scr = Inr (take (nat (lines e)) (drop (nat (lines d - lines e)) scr) @ drop (nat (lines e)) scr)"
    (is "rfold ?f _ _ = Inr ?new")
proof -
  let ?k = "nat (lines d - lines e)" and ?m = "nat (lines e)"
  have len: "length scr = ?k + ?m" using g new by (auto simp: grid_ok_def)
  have "\<exists>s'. rfold ?f [0..<?m] scr = Inr s' \<and> s' = take ?m (drop ?k scr) @ drop ?m scr"
  proof (rule rfold_upt [where I = "\<lambda>y s. s = take y (drop ?k scr) @ drop y scr"])
    fix y s
    assume y: "y < ?m" and s: "s = take y (drop ?k scr) @ drop y scr"
    have k: "0 < ?k" "int y + (lines d - lines e) = int (y + ?k)" using new by auto
    have "s ! (y + ?k) = scr ! (y + ?k)" using y len by (simp add: s nth_append)
    then have "?f y s = Inr (s[y := scr ! (y + ?k)])"
      using y len k by (simp add: screen_line_def screen_set_line_def s del: of_nat_add)
    moreover have "s[y := scr ! (y + ?k)] = take (Suc y) (drop ?k scr) @ drop (Suc y) scr"
      using y len by (intro nth_equalityI) (auto simp: s nth_append nth_list_update less_Suc_eq add.commute)
    ultimately show "\<exists>s'. ?f y s = Inr s' \<and> s' = take (Suc y) (drop ?k scr) @ drop (Suc y) scr" by simp
  qed simp_all
  then show ?thesis by simp
qed

lemma resize_rows_loop:
  assumes "length scr = n"
  shows "rfold (\<lambda>y scr. rbind (screen_line scr (int y)) (\<lambda>l. screen_set_line scr (int y) (line_resize w l))) [0..<n] scr =
    Inr (map (line_resize w) scr)"
proof (rule fill_rows)
  fix y s
  assume y: "y < n" and s: "s = take y (map (line_resize w) scr) @ drop y scr"
  have "s ! y = scr ! y" "y < length s" using y assms by (simp_all add: s nth_append)
  then show "rbind (screen_line s (int y)) (\<lambda>l. screen_set_line s (int y) (line_resize w l)) = Inr (s[y := map (line_resize w) scr ! y])"
    using y assms by (simp add: screen_line_def screen_set_line_def)
qed (use assms in simp_all)

lemma line_resize_length [simp]: "length (line_resize n l) = n"
  by (simp add: line_resize_def Let_def)

section \<open>What the listener sees\<close>

text \<open>
  A listener that keeps its own copy of the code points and follows the calls it gets. A call that
  names a place outside the grid has no meaning for it.
\<close>

definition fit :: "nat \<Rightarrow> 'a \<Rightarrow> 'a list \<Rightarrow> 'a list" where
  "fit n c xs = take n xs @ replicate (n - length xs) c"

definition resized :: "term_size \<Rightarrow> term_size \<Rightarrow> 'a \<Rightarrow> 'a list list \<Rightarrow> 'a list list" where
  "resized d e c g = map (fit (nat (cols e)) c) (fit (nat (lines e)) [] (drop (nat (lines d - lines e)) g))"

type_synonym view = "term_size \<times> 32 word list list"

fun mirror_event :: "event \<Rightarrow> view \<Rightarrow> view option" where
  "mirror_event (OnCharacterChange p c) (d, g) =
     (if on_screen d p then Some (d, g[nat (line p) := (g ! nat (line p))[nat (col p) := codepoint c]]) else None)"
| "mirror_event (OnCursorChange p) (d, g) = (if on_screen d p then Some (d, g) else None)"
| "mirror_event (OnBackspace p) (d, g) = (if on_screen d p then Some (d, g) else None)"
| "mirror_event OnClear (d, g) = Some (d, replicate (nat (lines d)) (replicate (nat (cols d)) 0))"
| "mirror_event (OnClearLine l) (d, g) =
     (if 0 \<le> l \<and> l < lines d then Some (d, g[nat l := replicate (nat (cols d)) 0]) else None)"
| "mirror_event (OnScroll n) (d, g) =
     (if 0 \<le> n \<and> n < lines d then Some (d, scrolled (nat n) (nat (cols d)) 0 g) else None)"
| "mirror_event (OnResize d' e) (d, g) =
     (if d' = d \<and> 0 < cols e \<and> 0 < lines e then Some (e, resized d e 0 g) else None)"
| "mirror_event (Emit s) (d, g) = Some (d, g)"

fun mirror_events :: "event list \<Rightarrow> view \<Rightarrow> view option" where
  "mirror_events [] v = Some v"
| "mirror_events (e # es) v = (case mirror_event e v of None \<Rightarrow> None | Some v' \<Rightarrow> mirror_events es v')"

lemma mirror_events_append:
  "mirror_events (es @ fs) v = (case mirror_events es v of None \<Rightarrow> None | Some v' \<Rightarrow> mirror_events fs v')"
  by (induction es arbitrary: v) (auto split: option.splits)

definition grid :: "character list list \<Rightarrow> 32 word list list" where
  "grid scr = map (map codepoint) scr"

definition term_view :: "terminal \<Rightarrow> view" where
  "term_view t = (dimensions t, grid (screen t))"

text \<open>
  The invariant of a terminal: the grid has the dimensions, the cursor is on it, and while the
  parameters of an escape sequence are read, the next character has its place in the buffer of a
  parameter, and all ten are terminated.
\<close>

definition params_ok :: "terminal \<Rightarrow> bool" where
  "params_ok t \<longleftrightarrow> length (escape_parameters t) = 10 \<and> (\<forall>r \<in> set (escape_parameters t). length r = 10) \<and>
     (escape_mode t \<and> escape_status t = Value \<longrightarrow>
        escape_parameter_index t < 10 \<and> current_escape_parameter t = escape_parameter_index t \<and>
        escape_parameter_char_index t < 9 \<and> (\<forall>r \<in> set (escape_parameters t). r ! 9 = 0))"

definition term_ok :: "terminal \<Rightarrow> bool" where
  "term_ok t \<longleftrightarrow> grid_ok (dimensions t) (screen t) \<and> on_screen (dimensions t) (cursor_position t) \<and> params_ok t"

text \<open>Steps whose events a listener can follow.\<close>

definition follows :: "terminal \<Rightarrow> terminal \<Rightarrow> bool" where
  "follows t t' \<longleftrightarrow> (\<exists>es. events t' = events t @ es \<and> mirror_events es (term_view t) = Some (term_view t'))"

lemma follows_refl [simp]: "follows t t"
  by (simp add: follows_def)

lemma follows_trans: "follows t t1 \<Longrightarrow> follows t1 t2 \<Longrightarrow> follows t t2"
  unfolding follows_def by (metis append.assoc mirror_events_append option.simps(5))

lemma follows_same:
  "events t' = events t \<Longrightarrow> screen t' = screen t \<Longrightarrow> dimensions t' = dimensions t \<Longrightarrow> follows t t'"
  by (simp add: follows_def term_view_def)

lemma follows_notify:
  "mirror_event e (term_view t) = Some (term_view t') \<Longrightarrow> events t' = events t @ [e] \<Longrightarrow> follows t t'"
  unfolding follows_def by (intro exI [of _ "[e]"]) simp


lemma grid_simps [simp]:
  "grid (scr[y := row]) = (grid scr)[y := map codepoint row]"
  "grid (replicate n row) = replicate n (map codepoint row)"
  "grid (scrolled n w c scr) = scrolled n w (codepoint c) (grid scr)"
  "length (grid scr) = length scr"
  "y < length scr \<Longrightarrow> grid scr ! y = map codepoint (scr ! y)"
  by (simp_all add: grid_def map_update scrolled_def drop_map)

lemma blank_codepoint [simp]: "codepoint (blank a) = 0"
  by (simp add: blank_def)

lemma line_resize_codepoints: "map codepoint (line_resize n l) = fit n 0 (map codepoint l)"
  by (simp add: line_resize_def fit_def Let_def take_map)

lemma notify_simps [simp]:
  "screen (notify e t) = screen t" "dimensions (notify e t) = dimensions t"
  "cursor_position (notify e t) = cursor_position t" "current_attribute (notify e t) = current_attribute t"
  "prevent_scroll (notify e t) = prevent_scroll t" "events (notify e t) = events t @ [e]"
  "escape_mode (notify e t) = escape_mode t" "params_ok (notify e t) = params_ok t"
  by (simp_all add: notify_def params_ok_def)

lemma set_screen_simps [simp]:
  "screen (set_screen t s) = s" "dimensions (set_screen t s) = dimensions t"
  "cursor_position (set_screen t s) = cursor_position t" "current_attribute (set_screen t s) = current_attribute t"
  "prevent_scroll (set_screen t s) = prevent_scroll t" "events (set_screen t s) = events t"
  "escape_mode (set_screen t s) = escape_mode t" "params_ok (set_screen t s) = params_ok t"
  by (simp_all add: set_screen_def params_ok_def)

text \<open>
  \<open>draws t t'\<close>: a step that touches only the grid and the cursor, keeps the invariant and can be
  followed.
\<close>

definition esc_state where
  "esc_state t = (escape_mode t, escape_status t, escape_parameters t, current_escape_parameter t,
     escape_parameter_index t, escape_parameter_char_index t, current_escape_codepoint t)"

definition draws :: "terminal \<Rightarrow> terminal \<Rightarrow> bool" where
  "draws t t' \<longleftrightarrow> term_ok t' \<and> follows t t' \<and> dimensions t' = dimensions t \<and> current_attribute t' = current_attribute t \<and>
     prevent_scroll t' = prevent_scroll t \<and> esc_state t' = esc_state t"

lemma draws_refl: "term_ok t \<Longrightarrow> draws t t"
  by (simp add: draws_def)

lemma draws_trans: "draws t t1 \<Longrightarrow> draws t1 t2 \<Longrightarrow> draws t t2"
  unfolding draws_def using follows_trans by metis

lemma draws_term_ok: "draws t t' \<Longrightarrow> term_ok t'"
  by (simp add: draws_def)

lemma esc_state_notify [simp]:
  "esc_state (notify e t) = esc_state t" "esc_state (set_screen t s) = esc_state t"
  "esc_state (t\<lparr>cursor_position := p\<rparr>) = esc_state t"
  by (simp_all add: esc_state_def notify_def set_screen_def)

lemma params_ok_cursor [simp]: "params_ok (t\<lparr>cursor_position := p\<rparr>) = params_ok t"
  by (simp add: params_ok_def)

lemma set_cursor_ok:
  assumes "term_ok t" "on_screen (dimensions t) p"
  shows "draws t (set_cursor t p)" "cursor_position (set_cursor t p) = p" "screen (set_cursor t p) = screen t"
proof -
  have "set_cursor t p = notify (OnCursorChange (cursor_position t)) (t\<lparr>cursor_position := p\<rparr>)"
    using assms(1) by (simp add: set_cursor_def Let_def term_ok_def)
  then show "draws t (set_cursor t p)" "cursor_position (set_cursor t p) = p" "screen (set_cursor t p) = screen t"
    using assms by (auto simp: draws_def term_ok_def term_view_def intro!: follows_notify)
qed

lemma new_screen_draws:
  assumes "term_ok t" "grid_ok (dimensions t) scr" "mirror_event e (term_view t) = Some (dimensions t, grid scr)"
  shows "draws t (notify e (set_screen t scr))"
  using assms by (auto simp: draws_def term_ok_def term_view_def intro!: follows_notify)

lemma origin_on_screen: "term_ok t \<Longrightarrow> on_screen (dimensions t) (pos 0 0)"
  by (simp add: term_ok_def grid_ok_def on_screen_def)

lemma clear_ok:
  assumes t: "term_ok t"
  obtains t' where "clear t = Inr t'" "draws t t'"
proof -
  let ?t1 = "set_cursor t (pos 0 0)" and ?a = "blank (current_attribute t)"
  let ?new = "replicate (nat (lines (dimensions t))) (replicate (nat (cols (dimensions t))) ?a)"
  note c = set_cursor_ok [OF t origin_on_screen [OF t]]
  have d: "dimensions ?t1 = dimensions t" "current_attribute ?t1 = current_attribute t" using c(1) by (auto simp: draws_def)
  have "clear t = Inr (notify OnClear (set_screen ?t1 ?new))"
    unfolding clear_def Let_def d c(3) using clear_loop [of "dimensions t" "screen t"] t by (simp add: term_ok_def)
  moreover have "draws ?t1 (notify OnClear (set_screen ?t1 ?new))"
    using c(1) d t by (intro new_screen_draws) (auto simp: draws_def term_ok_def grid_ok_def term_view_def)
  ultimately show thesis using that draws_trans [OF c(1)] by blast
qed

lemma grid_ok_update: "grid_ok d scr \<Longrightarrow> length row = nat (cols d) \<Longrightarrow> grid_ok d (scr[y := row])"
  using set_update_subset_insert [of scr y row] by (auto simp: grid_ok_def)

lemma clear_line_ok:
  assumes t: "term_ok t"
  obtains t' where "clear_line t l = Inr t'" "draws t t'"
proof (cases "l < 0 \<or> l \<ge> lines (dimensions t)")
  case True
  then show thesis using that draws_refl [OF t] by (simp add: clear_line_def)
next
  case False
  let ?scr = "(screen t)[nat l := replicate (nat (cols (dimensions t))) (blank (current_attribute t))]"
  have g: "grid_ok (dimensions t) (screen t)" using t by (simp add: term_ok_def)
  have "clear_line t l = Inr (notify (OnClearLine l) (set_screen t ?scr))"
    using False clear_row_loop [OF g, of l] by (simp add: clear_line_def)
  moreover have "draws t (notify (OnClearLine l) (set_screen t ?scr))"
    using False g by (intro new_screen_draws [OF t] grid_ok_update) (auto simp: term_view_def)
  ultimately show thesis by (rule that)
qed

lemma set_character_ok:
  assumes t: "term_ok t"
  obtains t' where "set_character t p c = Inr t'" "draws t t'" "cursor_position t' = cursor_position t"
proof (cases "on_screen (dimensions t) p")
  case False
  then show thesis using that draws_refl [OF t] by (simp add: set_character_def)
next
  case True
  let ?y = "nat (line p)" and ?x = "nat (col p)"
  let ?scr = "(screen t)[?y := (screen t ! ?y)[?x := c]]"
  have g: "grid_ok (dimensions t) (screen t)" using t by (simp add: term_ok_def)
  have y: "?y < nat (lines (dimensions t))" using True by (auto simp: on_screen_def)
  have "set_character t p c = Inr (notify (OnCharacterChange p c) (set_screen t ?scr))"
    using True grid_nth [OF g y] g by (auto simp: set_character_def screen_put_def on_screen_def grid_ok_def)
  moreover have "draws t (notify (OnCharacterChange p c) (set_screen t ?scr))"
    using True g y grid_nth [OF g y]
    by (intro new_screen_draws [OF t] grid_ok_update) (auto simp: term_view_def map_update grid_ok_def)
  ultimately show thesis by (rule that) simp
qed

lemma scroll_ok:
  assumes t: "term_ok t" and n: "0 \<le> n"
  obtains t' where "scroll t n = Inr t'" "draws t t'"
proof (cases "n \<ge> lines (dimensions t)")
  case True
  then show thesis using that by (auto simp: scroll_def intro: clear_ok [OF t])
next
  case False
  let ?d = "dimensions t"
  let ?scr = "scrolled (nat n) (nat (cols ?d)) (blank (current_attribute t)) (screen t)"
  have g: "grid_ok ?d (screen t)" using t by (simp add: term_ok_def)
  have "scroll t n = Inr (notify (OnScroll n) (set_screen t ?scr))"
    using False n scroll_loop [OF g, of n "blank (current_attribute t)"] by (simp add: scroll_def Let_def)
  moreover have "draws t (notify (OnScroll n) (set_screen t ?scr))"
  proof (rule new_screen_draws [OF t])
    show "grid_ok ?d ?scr" using g n False by (auto simp: grid_ok_def scrolled_def dest: in_set_dropD)
  qed (use n False in \<open>simp add: term_view_def\<close>)
  ultimately show thesis by (rule that)
qed


lemma advance_cursor_ok:
  assumes t: "term_ok t"
  obtains t' where "advance_cursor t = Inr t'" "draws t t'"
proof -
  let ?d = "dimensions t" and ?q = "cursor_position t"
  let ?p = "if col ?q + 1 = cols ?d then pos 0 (line ?q + 1) else pos (col ?q + 1) (line ?q)"
  have q: "on_screen ?d ?q" using t by (simp add: term_ok_def)
  have p: "0 \<le> col ?p" "col ?p < cols ?d" "0 \<le> line ?p" using q by (auto simp: on_screen_def)
  have eq: "advance_cursor t =
      (if line ?p \<ge> lines ?d
       then rbind (scroll t (line ?p + 1 - lines ?d)) (\<lambda>t1. Inr (set_cursor t1 (?p\<lparr>line := lines ?d - 1\<rparr>)))
       else Inr (set_cursor t ?p))" by (cases ?q) (simp add: advance_cursor_def Let_def)
  show thesis
  proof (cases "line ?p \<ge> lines ?d")
    case True
    have "0 \<le> line ?p + 1 - lines ?d" using True by simp
    from scroll_ok [OF t this] obtain t1 where s: "scroll t (line ?p + 1 - lines ?d) = Inr t1" "draws t t1" by blast
    have "on_screen (dimensions t1) (?p\<lparr>line := lines ?d - 1\<rparr>)" using s(2) p q by (auto simp: draws_def on_screen_def)
    from set_cursor_ok(1) [OF draws_term_ok [OF s(2)] this]
    show thesis using that eq True s draws_trans [OF s(2)] by simp
  next
    case False
    then have "on_screen ?d ?p" using p by (simp add: on_screen_def)
    from set_cursor_ok(1) [OF t this] show thesis using that eq False by simp
  qed
qed

lemma regress_cursor_ok:
  assumes t: "term_ok t"
  shows "draws t (regress_cursor t)"
proof -
  have "on_screen (dimensions t) (cursor_position t)" "0 < cols (dimensions t)" "0 < lines (dimensions t)"
    using t by (auto simp: term_ok_def grid_ok_def)
  then show ?thesis unfolding regress_cursor_def Let_def
    by (intro set_cursor_ok(1) [OF t]) (auto simp: on_screen_def)
qed

lemma notify_draws: "term_ok t \<Longrightarrow> mirror_event e (term_view t) = Some (term_view t) \<Longrightarrow> draws t (notify e t)"
  by (auto simp: draws_def term_ok_def term_view_def intro!: follows_notify)

lemma backspace_ok:
  assumes t: "term_ok t"
  obtains t' where "backspace t = Inr t'" "draws t t'"
proof -
  let ?t1 = "regress_cursor t"
  have r: "draws t ?t1" by (rule regress_cursor_ok [OF t])
  have n: "draws ?t1 (notify (OnBackspace (cursor_position ?t1)) ?t1)"
    using r by (intro notify_draws) (auto simp: draws_def term_ok_def term_view_def)
  obtain t' where t': "backspace t = Inr t'" "draws (notify (OnBackspace (cursor_position ?t1)) ?t1) t'"
    unfolding backspace_def Let_def on_backspace_def by (rule set_character_ok [OF draws_term_ok [OF n]])
  show thesis by (rule that [OF t'(1) draws_trans [OF draws_trans [OF r n] t'(2)]])
qed

text \<open>Loops of drawing steps.\<close>

lemma draws_rfold:
  assumes "term_ok t" "\<And>k t. term_ok t \<Longrightarrow> \<exists>t'. f k t = Inr t' \<and> draws t t'"
  obtains t' where "rfold f ks t = Inr t'" "draws t t'"
proof -
  have "\<exists>t'. rfold f ks t = Inr t' \<and> draws t t'"
  proof (rule rfold_inv)
    fix k s assume "draws t s"
    then show "\<exists>s'. f k s = Inr s' \<and> draws t s'"
      using assms(2) [OF draws_term_ok, of t s k] draws_trans by blast
  qed (rule draws_refl [OF assms(1)])
  then show thesis using that by blast
qed

lemma draws_rrepeat:
  assumes "term_ok t" "\<And>t. term_ok t \<Longrightarrow> \<exists>t'. f t = Inr t' \<and> draws t t'"
  obtains t' where "rrepeat n f t = Inr t'" "draws t t'"
proof -
  have "\<exists>t'. rrepeat n f t = Inr t' \<and> draws t t'"
  proof (rule rrepeat_inv)
    fix s assume "draws t s"
    then show "\<exists>s'. f s = Inr s' \<and> draws t s'"
      using assms(2) [OF draws_term_ok, of t s] draws_trans by blast
  qed (rule draws_refl [OF assms(1)])
  then show thesis using that by blast
qed

section \<open>Escape sequences keep the invariant\<close>

definition steps :: "terminal \<Rightarrow> terminal result \<Rightarrow> bool" where
  "steps t r \<longleftrightarrow> (\<exists>t'. r = Inr t' \<and> term_ok t' \<and> follows t t')"

lemma stepsI: "r = Inr t' \<Longrightarrow> draws t t' \<Longrightarrow> steps t r"
  by (auto simp: steps_def draws_def)

lemma steps_refl: "term_ok t \<Longrightarrow> steps t (Inr t)"
  by (simp add: steps_def)

lemma steps_same:
  "term_ok t' \<Longrightarrow> events t' = events t \<Longrightarrow> screen t' = screen t \<Longrightarrow> dimensions t' = dimensions t \<Longrightarrow> steps t (Inr t')"
  by (simp add: steps_def follows_same)

lemma draws_steps: "draws t t1 \<Longrightarrow> steps t1 r \<Longrightarrow> steps t r"
  using follows_trans by (auto simp: steps_def draws_def)

lemma steps_bind:
  assumes "steps t r" "\<And>t1. term_ok t1 \<Longrightarrow> steps t1 (f t1)"
  shows "steps t (rbind r f)"
proof -
  obtain t1 where 1: "r = Inr t1" "term_ok t1" "follows t t1" using assms(1) by (auto simp: steps_def)
  obtain t2 where "f t1 = Inr t2" "term_ok t2" "follows t1 t2" using assms(2) [OF 1(2)] by (auto simp: steps_def)
  then show ?thesis using 1 follows_trans by (auto simp: steps_def)
qed

text \<open>Parameters that are terminated can be read.\<close>

definition terminated :: "terminal \<Rightarrow> bool" where
  "terminated t \<longleftrightarrow> length (escape_parameters t) = 10 \<and> (\<forall>r \<in> set (escape_parameters t). length r = 10 \<and> r ! 9 = 0)"

lemma katoi_ok:
  assumes "terminated t" "i < 10"
  obtains r v where "param_row t i = Inr r" "katoi r = Inr v"
proof -
  let ?r = "escape_parameters t ! i"
  have "?r \<in> set (escape_parameters t)" "i < length (escape_parameters t)" using assms by (auto simp: terminated_def)
  then have "length ?r = 10" "?r ! 9 = 0" using assms(1) by (auto simp: terminated_def)
  then have "0 \<in> set ?r" using nth_mem [of 9 ?r] by simp
  then show thesis using that [of ?r] \<open>i < length _\<close> by (simp add: param_row_def katoi_def)
qed

lemma first_parameter_ok:
  assumes "terminated t"
  obtains v where "first_parameter t = Inr v"
proof (rule katoi_ok [OF assms])
  show "(0::nat) < 10" by simp
  fix r v
  assume "param_row t 0 = Inr r" "katoi r = Inr v"
  then show thesis using that by (simp add: first_parameter_def)
qed

text \<open>A cursor sequence without parameter moves the cursor by nothing, where the code asks for 1.\<close>

lemma cursor_escape_without_parameter:
  assumes "escape_parameters t = replicate 10 (replicate 10 0)"
  shows "evaluate_cursor_escape t = Inr t"
  using assms by (simp add: evaluate_cursor_escape_def first_parameter_def param_row_def katoi_def)

lemma esc_state_terminated: "esc_state t' = esc_state t \<Longrightarrow> terminated t' = terminated t"
  by (simp add: esc_state_def terminated_def)

lemma graphics_ok:
  assumes t: "term_ok t" "terminated t" "escape_parameter_index t < 10"
  shows "steps t (evaluate_graphics_mode_escape t)"
proof -
  let ?f = "\<lambda>i t. rbind (param_row t i) (\<lambda>row. rbind (katoi row) (\<lambda>v.
              Inr (t\<lparr>current_attribute := apply_graphics_mode v (current_attribute t)\<rparr>)))"
  have "\<exists>t'. rfold ?f [0..<escape_parameter_index t + 1] t = Inr t' \<and> (term_ok t' \<and> terminated t' \<and> follows t t')"
  proof (rule rfold_inv)
    fix i s
    assume i: "i \<in> set [0..<escape_parameter_index t + 1]" and s: "term_ok s \<and> terminated s \<and> follows t s"
    have "i < 10" using i t(3) by auto
    then obtain r v where rv: "param_row s i = Inr r" "katoi r = Inr v" using katoi_ok s by blast
    let ?s = "s\<lparr>current_attribute := apply_graphics_mode v (current_attribute s)\<rparr>"
    have "term_ok ?s" "terminated ?s" "follows s ?s"
      using s by (auto simp: term_ok_def params_ok_def terminated_def intro: follows_same)
    then show "\<exists>s'. ?f i s = Inr s' \<and> (term_ok s' \<and> terminated s' \<and> follows t s')"
      using rv follows_trans s by auto
  qed (use t in simp)
  then show ?thesis by (auto simp: evaluate_graphics_mode_escape_def steps_def)
qed

lemma clear_escape_ok:
  assumes t: "term_ok t" "terminated t"
  obtains t' where "evaluate_clear_escape t = Inr t'" "draws t t'"
proof -
  obtain v where v: "first_parameter t = Inr v" by (rule first_parameter_ok [OF t(2)])
  obtain t1 where t1: "\<And>a b. rfold (\<lambda>l t. clear_line t (int l)) [a..<b] t = Inr (t1 a b)" "\<And>a b. draws t (t1 a b)"
  proof -
    have "\<exists>t'. rfold (\<lambda>l t. clear_line t (int l)) [a..<b] t = Inr t' \<and> draws t t'" for a b
      by (rule draws_rfold [OF t(1), of "\<lambda>l t. clear_line t (int l)" "[a..<b]"]) (blast intro: clear_line_ok)+
    then show thesis using that by metis
  qed
  obtain t2 where t2: "clear t = Inr t2" "draws t t2" by (rule clear_ok [OF t(1)])
  show thesis
    using that v t1 t2 draws_refl [OF t(1)]
    by (cases "v = 0"; cases "v = 1"; cases "v = 2") (auto simp: evaluate_clear_escape_def)
qed

lemma clear_line_escape_ok:
  assumes t: "term_ok t" "terminated t"
  obtains t' where "evaluate_clear_line_escape t = Inr t'" "draws t t'"
proof -
  let ?f = "\<lambda>x t. set_character t (pos (int x) (line (cursor_position t))) (blank (current_attribute t))"
  obtain v where v: "first_parameter t = Inr v" by (rule first_parameter_ok [OF t(2)])
  obtain t1 where t1: "\<And>a b. rfold ?f [a..<b] t = Inr (t1 a b)" "\<And>a b. draws t (t1 a b)"
  proof -
    have "\<exists>t'. rfold ?f [a..<b] t = Inr t' \<and> draws t t'" for a b
      by (rule draws_rfold [OF t(1), of ?f "[a..<b]"]) (blast intro: set_character_ok)+
    then show thesis using that by metis
  qed
  obtain t2 where t2: "clear_line t (line (cursor_position t)) = Inr t2" "draws t t2" by (rule clear_line_ok [OF t(1)])
  show thesis
    using that v t1 t2 draws_refl [OF t(1)]
    by (cases "v = 0"; cases "v = 1"; cases "v = 2") (auto simp: evaluate_clear_line_escape_def)
qed

lemma cursor_escape_ok:
  assumes t: "term_ok t" "terminated t"
  shows "steps t (evaluate_cursor_escape t)"
proof -
  obtain v where v: "first_parameter t = Inr v" by (rule first_parameter_ok [OF t(2)])
  have "\<exists>t'. rrepeat (nat v) advance_cursor t = Inr t' \<and> draws t t'"
    by (rule draws_rrepeat [OF t(1), of advance_cursor]) (blast intro: advance_cursor_ok)+
  moreover have "\<exists>t'. rrepeat (nat v) (\<lambda>t. Inr (regress_cursor t)) t = Inr t' \<and> draws t t'"
    by (rule draws_rrepeat [OF t(1), of "\<lambda>t. Inr (regress_cursor t)"]) (blast intro: regress_cursor_ok)+
  ultimately show ?thesis
    using v steps_refl [OF t(1)] stepsI unfolding evaluate_cursor_escape_def by auto
qed


lemma put_parameter_ok:
  assumes t: "term_ok t" "escape_mode t" "escape_status t = Value"
  obtains t1 where "put_parameter t c = Inr t1" "terminated t1" "screen t1 = screen t" "events t1 = events t"
    "dimensions t1 = dimensions t" "cursor_position t1 = cursor_position t" "escape_mode t1" "escape_status t1 = Value"
    "escape_parameter_char_index t1 = escape_parameter_char_index t + 1"
    "escape_parameter_index t1 = escape_parameter_index t" "current_escape_parameter t1 = current_escape_parameter t"
proof -
  let ?p = "current_escape_parameter t" and ?i = "escape_parameter_char_index t" and ?ps = "escape_parameters t"
  have k: "length ?ps = 10" "\<forall>r \<in> set ?ps. length r = 10 \<and> r ! 9 = 0" "?p < 10" "?i < 9"
    using t by (auto simp: term_ok_def params_ok_def)
  then have row: "length (?ps ! ?p) = 10" "?ps ! ?p ! 9 = 0" by auto
  let ?t = "t\<lparr>escape_parameters := ?ps[?p := (?ps ! ?p)[?i := c]], escape_parameter_char_index := ?i + 1\<rparr>"
  have "terminated ?t"
    using k row set_update_subset_insert [of ?ps ?p "(?ps ! ?p)[?i := c]"] by (auto simp: terminated_def)
  moreover have "put_parameter t c = Inr ?t" using k row by (simp add: put_parameter_def Let_def)
  ultimately show thesis using that [of ?t] t by simp
qed

lemma escape_ok:
  assumes t: "term_ok t" "escape_mode t"
  shows "steps t (evaluate_escape_codepoint t cp)"
proof -
  define t1 where "t1 = t\<lparr>current_escape_codepoint := cp\<rparr>"
  have ok: "term_ok t1" using t(1) by (auto simp: t1_def term_ok_def params_ok_def)
  have st: "steps t (Inr t1)" using ok by (intro steps_same) (auto simp: t1_def)
  have off: "term_ok (t1\<lparr>escape_mode := False\<rparr>)" "steps t (Inr (t1\<lparr>escape_mode := False\<rparr>))"
    using ok by (auto simp: t1_def term_ok_def params_ok_def intro!: steps_same)
  have via: "steps t r" if "steps (t1\<lparr>escape_mode := False\<rparr>) r" for r
    using steps_bind [OF off(2), of "\<lambda>_. r"] that follows_trans off(2) by (auto simp: steps_def)
  show ?thesis
  proof (cases "escape_status t")
    case Beginning
    then show ?thesis
      using off(2) ok unfolding evaluate_escape_codepoint_def t1_def [symmetric]
      by (auto simp: Let_def t1_def term_ok_def params_ok_def intro!: steps_same)
  next
    case Value
    have pk: "escape_parameter_index t1 < 10" "terminated (t1\<lparr>escape_mode := False\<rparr>)"
      using t Value by (auto simp: t1_def term_ok_def params_ok_def terminated_def)
    have eq: "evaluate_escape_codepoint t cp =
      (if cp = 59 then
            let i = escape_parameter_index t1 + 1;
                t2 = t1\<lparr>escape_parameter_char_index := 0, escape_parameter_index := i\<rparr>
            in Inr (if i \<ge> 10 then t2\<lparr>escape_mode := False\<rparr> else t2\<lparr>current_escape_parameter := i\<rparr>)
          else if cp = 109 then evaluate_graphics_mode_escape (t1\<lparr>escape_mode := False\<rparr>)
          else if cp = 75 then evaluate_clear_line_escape (t1\<lparr>escape_mode := False\<rparr>)
          else if cp = 74 then
            rbind (evaluate_clear_escape (t1\<lparr>escape_mode := False\<rparr>)) (\<lambda>t1. evaluate_cursor_escape (t1\<lparr>escape_mode := False\<rparr>))
          else if cp = 65 \<or> cp = 66 \<or> cp = 67 \<or> cp = 68 then evaluate_cursor_escape (t1\<lparr>escape_mode := False\<rparr>)
          else rbind (put_parameter t1 (ucast cp)) (\<lambda>t2.
            Inr (if escape_parameter_char_index t2 \<ge> 9 then t2\<lparr>escape_mode := False\<rparr> else t2)))"
      using Value unfolding evaluate_escape_codepoint_def t1_def by (simp add: Let_def)
    have semi: "steps t (let i = escape_parameter_index t1 + 1;
                t2 = t1\<lparr>escape_parameter_char_index := 0, escape_parameter_index := i\<rparr>
            in Inr (if i \<ge> 10 then t2\<lparr>escape_mode := False\<rparr> else t2\<lparr>current_escape_parameter := i\<rparr>))"
      using t Value by (auto simp: Let_def t1_def term_ok_def params_ok_def intro!: steps_same)
    have J: "steps (t1\<lparr>escape_mode := False\<rparr>) (rbind (evaluate_clear_escape (t1\<lparr>escape_mode := False\<rparr>))
        (\<lambda>t1. evaluate_cursor_escape (t1\<lparr>escape_mode := False\<rparr>)))"
    proof -
      obtain t2 where t2: "evaluate_clear_escape (t1\<lparr>escape_mode := False\<rparr>) = Inr t2" "draws (t1\<lparr>escape_mode := False\<rparr>) t2"
        by (rule clear_escape_ok [OF off(1) pk(2)])
      have e: "esc_state t2 = esc_state (t1\<lparr>escape_mode := False\<rparr>)" "term_ok t2" using t2(2) by (auto simp: draws_def)
      then have same: "t2\<lparr>escape_mode := False\<rparr> = t2" by (cases t2) (simp add: esc_state_def)
      have "steps t2 (evaluate_cursor_escape t2)"
        using cursor_escape_ok [OF e(2)] esc_state_terminated [OF e(1)] pk(2) by simp
      then show ?thesis using t2 same follows_trans by (auto simp: steps_def draws_def)
    qed
    have K: "steps (t1\<lparr>escape_mode := False\<rparr>) (evaluate_clear_line_escape (t1\<lparr>escape_mode := False\<rparr>))"
      using clear_line_escape_ok [OF off(1) pk(2)] stepsI by metis
    have m: "steps (t1\<lparr>escape_mode := False\<rparr>) (evaluate_graphics_mode_escape (t1\<lparr>escape_mode := False\<rparr>))"
      by (rule graphics_ok [OF off(1) pk(2)]) (use pk(1) in simp)
    have other: "steps t (rbind (put_parameter t1 (ucast cp)) (\<lambda>t2.
            Inr (if escape_parameter_char_index t2 \<ge> 9 then t2\<lparr>escape_mode := False\<rparr> else t2)))"
    proof (rule put_parameter_ok [OF ok])
      show "escape_mode t1" "escape_status t1 = Value" using t Value by (simp_all add: t1_def)
      fix t2
      assume t2: "put_parameter t1 (ucast cp) = Inr t2" "terminated t2" "screen t2 = screen t1" "events t2 = events t1"
        "dimensions t2 = dimensions t1" "cursor_position t2 = cursor_position t1" "escape_mode t2" "escape_status t2 = Value"
        "escape_parameter_char_index t2 = escape_parameter_char_index t1 + 1"
        "escape_parameter_index t2 = escape_parameter_index t1" "current_escape_parameter t2 = current_escape_parameter t1"
      then show ?thesis using ok t Value pk(1)
        by (auto simp: t1_def term_ok_def params_ok_def terminated_def intro!: steps_same)
    qed
    show ?thesis
      unfolding eq using semi via [OF J] via [OF K] via [OF m] other via [OF cursor_escape_ok [OF off(1) pk(2)]] by simp
  qed
qed

section \<open>Writing keeps the invariant\<close>

lemma finish_write_ok:
  assumes t: "term_ok t" and p: "0 \<le> col p" "col p \<le> cols (dimensions t)" "0 \<le> line p" "line p \<le> lines (dimensions t)"
  shows "steps t (finish_write t p)"
proof -
  let ?d = "dimensions t"
  let ?p = "if col p = cols ?d then pos 0 (line p + 1) else p"
  have d: "0 < cols ?d" "0 < lines ?d" using t by (auto simp: term_ok_def grid_ok_def)
  have q: "0 \<le> col ?p" "col ?p < cols ?d" "0 \<le> line ?p" using p d by auto
  have move: "steps t1 (Inr (if col r \<noteq> col (cursor_position t1) \<or> line r \<noteq> line (cursor_position t1) then set_cursor t1 r else t1))"
    if "term_ok t1" "on_screen (dimensions t1) r" for t1 r
    using set_cursor_ok(1) [OF that] steps_refl [OF that(1)] by (auto intro: stepsI)
  show ?thesis
  proof (cases "line ?p \<ge> lines ?d")
    case True
    have "\<exists>t1. (if \<not> prevent_scroll t then scroll t (line ?p + 1 - lines ?d) else Inr t) = Inr t1 \<and> draws t t1"
    proof (cases "prevent_scroll t")
      case False
      have "0 \<le> line ?p + 1 - lines ?d" using True by simp
      from scroll_ok [OF t this] obtain t1 where "scroll t (line ?p + 1 - lines ?d) = Inr t1" "draws t t1" by blast
      then show ?thesis using False by (intro exI [of _ t1]) simp
    qed (use draws_refl [OF t] in simp)
    then obtain t1 where t1: "(if \<not> prevent_scroll t then scroll t (line ?p + 1 - lines ?d) else Inr t) = Inr t1" "draws t t1" by blast
    have "on_screen (dimensions t1) (?p\<lparr>line := lines (dimensions t1) - 1\<rparr>)" using t1(2) q d by (auto simp: draws_def on_screen_def)
    note st = move [OF draws_term_ok [OF t1(2)] this]
    let ?r = "?p\<lparr>line := lines (dimensions t1) - 1\<rparr>"
    have "finish_write t p = Inr (if col ?r \<noteq> col (cursor_position t1) \<or> line ?r \<noteq> line (cursor_position t1) then set_cursor t1 ?r else t1)"
      unfolding finish_write_def Let_def if_P [OF True] t1(1) rbind_simps prod.case ..
    then show ?thesis using draws_steps [OF t1(2) st] by simp
  next
    case False
    then have "on_screen ?d ?p" using q by (simp add: on_screen_def)
    from move [OF t this] show ?thesis using False unfolding finish_write_def Let_def by simp
  qed
qed


lemma write_codepoint_ok:
  assumes t: "term_ok t"
  shows "steps t (write_codepoint t cp)"
proof (cases "escape_mode t")
  case True
  then show ?thesis using escape_ok [OF t] by (simp add: write_codepoint_def)
next
  case False
  let ?p = "cursor_position t" and ?d = "dimensions t"
  have q: "0 \<le> col ?p" "col ?p < cols ?d" "0 \<le> line ?p" "line ?p < lines ?d"
    using t by (auto simp: term_ok_def on_screen_def)
  have m: "0 \<le> col ?p + (8 - col ?p mod 8)"
    using q(1) pos_mod_bound [of 8 "col ?p"] by linarith
  have bs: "steps t (backspace t)" using backspace_ok [OF t] stepsI by metis
  have esc: "steps t (Inr (t\<lparr>escape_mode := True, escape_status := Beginning\<rparr>))"
    using t by (intro steps_same) (auto simp: term_ok_def params_ok_def)
  have ch: "steps t (rbind (set_character t ?p \<lparr>codepoint = cp, attr = current_attribute t\<rparr>) (\<lambda>t1. finish_write t1 (?p\<lparr>col := col ?p + 1\<rparr>)))"
  proof -
    obtain t1 where t1: "set_character t ?p \<lparr>codepoint = cp, attr = current_attribute t\<rparr> = Inr t1" "draws t t1"
      by (rule set_character_ok [OF t])
    have "steps t1 (finish_write t1 (?p\<lparr>col := col ?p + 1\<rparr>))"
      using t1(2) q by (intro finish_write_ok) (auto simp: draws_def)
    then show ?thesis using draws_steps [OF t1(2)] t1(1) by simp
  qed
  have f1: "steps t (finish_write t (pos 0 (line ?p + 1)))" "steps t (finish_write t (?p\<lparr>col := 0\<rparr>))"
    using q by (auto intro!: finish_write_ok [OF t])
  have f2: "steps t (finish_write t (if col ?p + (8 - col ?p mod 8) \<ge> cols ?d then pos 0 (line ?p + 1)
      else ?p\<lparr>col := col ?p + (8 - col ?p mod 8)\<rparr>))"
    using q m by (intro finish_write_ok [OF t]) auto
  show ?thesis
    using False bs esc ch f1 f2 unfolding write_codepoint_def Let_def by simp
qed

lemma set_dimensions_ok:
  assumes t: "term_ok t"
  shows "steps t (set_dimensions t e)"
proof (cases "lines e \<le> 0 \<or> cols e \<le> 0")
  case True
  then show ?thesis using steps_refl [OF t] by (simp add: set_dimensions_def)
next
  case False
  let ?d = "dimensions t" and ?n = "nat (lines e)" and ?w = "nat (cols e)" and ?p = "cursor_position t"
  have g: "grid_ok ?d (screen t)" and q: "on_screen ?d ?p" using t by (simp_all add: term_ok_def)
  define scr where "scr = fit ?n [] (drop (nat (lines ?d - lines e)) (screen t))"
  define p where "p = (let p = (if col ?p \<ge> cols e then ?p\<lparr>col := cols e - 1\<rparr> else ?p)
     in if line p \<ge> lines e then p\<lparr>line := lines e - 1\<rparr> else p)"
  have first: "\<exists>s. (if lines e < lines ?d
       then rfold (\<lambda>y scr. rbind (screen_line scr (int y + (lines ?d - lines e))) (screen_set_line scr (int y))) [0..<?n] (screen t)
       else Inr (screen t)) = Inr s \<and> resize_lines ?n s = scr"
  proof (cases "lines e < lines ?d")
    case True
    have "length (screen t) = nat (lines ?d - lines e) + ?n" using g False True by (auto simp: grid_ok_def)
    then show ?thesis
      using resize_loop [OF g _ _ True] False True by (simp add: scr_def fit_def resize_lines_def)
  next
    case f: False
    then have "length (screen t) \<le> ?n" using g by (auto simp: grid_ok_def)
    then show ?thesis using f by (simp add: scr_def fit_def resize_lines_def)
  qed
  then obtain s where s: "(if lines e < lines ?d
       then rfold (\<lambda>y scr. rbind (screen_line scr (int y + (lines ?d - lines e))) (screen_set_line scr (int y))) [0..<?n] (screen t)
       else Inr (screen t)) = Inr s" "resize_lines ?n s = scr" by blast
  have len: "length scr = ?n" by (simp add: scr_def fit_def)
  let ?t = "notify (OnResize ?d e) ((set_screen t (map (line_resize ?w) scr))\<lparr>cursor_position := p, dimensions := e\<rparr>)"
  have eq: "set_dimensions t e = Inr ?t"
    unfolding set_dimensions_def s(1) rbind_simps s(2) resize_rows_loop [OF len] using False by (simp add: p_def Let_def)
  have "on_screen e p" using False q by (auto simp: on_screen_def p_def Let_def)
  moreover have "params_ok ?t" using t unfolding params_ok_def term_ok_def notify_def set_screen_def by simp
  moreover have "grid_ok e (map (line_resize ?w) scr)" using False len by (simp add: grid_ok_def)
  ultimately have ok: "term_ok ?t" by (simp add: term_ok_def)
  have "grid (map (line_resize ?w) scr) = resized ?d e 0 (grid (screen t))"
    by (simp add: grid_def resized_def scr_def fit_def line_resize_codepoints o_def take_map drop_map)
  then have "follows t ?t" using False by (intro follows_notify) (auto simp: term_view_def)
  then show ?thesis using eq ok by (simp add: steps_def)
qed

lemma handle_keypress_ok:
  assumes "term_ok t"
  shows "draws t (handle_keypress t k cp m)"
proof -
  have e: "draws s (emit_str s str)" if "term_ok s" for s str
    unfolding emit_str_def using that by (intro notify_draws) (simp_all add: term_view_def)
  have "draws s (emit_str (emit_str s a) b)" if "term_ok s" for s a b
    using e [OF that, of a] e [of "emit_str s a" b] draws_trans draws_term_ok by blast
  then show ?thesis using e [OF assms] assms draws_refl unfolding handle_keypress_def Let_def by auto
qed


section \<open>Whole runs\<close>

text \<open>The public operations of a terminal that change it.\<close>

datatype term_op =
    WriteChars "8 word list"
  | WriteCodepoints "32 word list"
  | SetDimensions term_size
  | SetCharacter position character
  | HandleKeypress "16 word" "32 word" "8 word"
  | ClearAll
  | ClearLine int
  | Advance
  | Regress
  | Erase
  | SetAttribute attribute
  | PreventScroll bool
  | SetCursor position
  | Scroll int
  | EmitStr "8 word list"
  | EvaluateEscape "32 word"
  | EvaluateGraphics
  | EvaluateClear
  | EvaluateClearLine
  | EvaluateCursor

definition on_term :: "(terminal \<Rightarrow> terminal result) \<Rightarrow> utf8 \<times> terminal \<Rightarrow> (utf8 \<times> terminal) result" where
  "on_term f s = rbind (f (snd s)) (\<lambda>t. Inr (fst s, t))"

fun term_step :: "term_op \<Rightarrow> utf8 \<times> terminal \<Rightarrow> (utf8 \<times> terminal) result" where
  "term_step (WriteChars cs) s = write_chars s cs"
| "term_step (WriteCodepoints cps) s = on_term (\<lambda>t. write_codepoints t cps) s"
| "term_step (SetDimensions d) s = on_term (\<lambda>t. set_dimensions t d) s"
| "term_step (SetCharacter p c) s = on_term (\<lambda>t. set_character t p c) s"
| "term_step (HandleKeypress k cp m) s = on_term (\<lambda>t. Inr (handle_keypress t k cp m)) s"
| "term_step ClearAll s = on_term clear s"
| "term_step (ClearLine l) s = on_term (\<lambda>t. clear_line t l) s"
| "term_step Advance s = on_term advance_cursor s"
| "term_step Regress s = on_term (\<lambda>t. Inr (regress_cursor t)) s"
| "term_step Erase s = on_term backspace s"
| "term_step (SetAttribute a) s = on_term (\<lambda>t. Inr (set_current_attribute t a)) s"
| "term_step (PreventScroll b) s = on_term (\<lambda>t. Inr (set_prevent_scroll t b)) s"
| "term_step (SetCursor q) s = on_term (\<lambda>t. Inr (set_cursor t q)) s"
| "term_step (Scroll n) s = on_term (\<lambda>t. scroll t n) s"
| "term_step (EmitStr str) s = on_term (\<lambda>t. Inr (emit_str t str)) s"
| "term_step (EvaluateEscape cp) s = on_term (\<lambda>t. evaluate_escape_codepoint t cp) s"
| "term_step EvaluateGraphics s = on_term evaluate_graphics_mode_escape s"
| "term_step EvaluateClear s = on_term evaluate_clear_escape s"
| "term_step EvaluateClearLine s = on_term evaluate_clear_line_escape s"
| "term_step EvaluateCursor s = on_term evaluate_cursor_escape s"

text \<open>
  What the code does not check and a caller has to respect: \<open>set_cursor\<close> needs a place on the grid as
  it is at that moment, \<open>scroll\<close> a number of lines that is not negative, and the evaluators of escape
  sequences, which \<open>write_codepoint\<close> calls but which are public, a sequence that has begun and
  parameters of at most eight characters that are terminated.
\<close>

definition parameters_read :: "terminal \<Rightarrow> bool" where
  "parameters_read t \<longleftrightarrow> terminated t \<and> (\<forall>r \<in> set (escape_parameters t). r ! 8 = 0) \<and> escape_parameter_index t < 10"

fun call_ok :: "term_op \<Rightarrow> terminal \<Rightarrow> bool" where
  "call_ok (SetCursor q) t = on_screen (dimensions t) q"
| "call_ok (Scroll n) t = (0 \<le> n)"
| "call_ok (EvaluateEscape cp) t = escape_mode t"
| "call_ok EvaluateGraphics t = parameters_read t"
| "call_ok EvaluateClear t = parameters_read t"
| "call_ok EvaluateClearLine t = parameters_read t"
| "call_ok EvaluateCursor t = parameters_read t"
| "call_ok _ t = True"

fun calls_ok :: "term_op list \<Rightarrow> utf8 \<times> terminal \<Rightarrow> bool" where
  "calls_ok [] s = True"
| "calls_ok (p # ops) s = (call_ok p (snd s) \<and> (case term_step p s of Inl f \<Rightarrow> True | Inr s' \<Rightarrow> calls_ok ops s'))"

lemma on_term_ok:
  assumes "steps (snd s) (f (snd s))"
  shows "\<exists>s'. on_term f s = Inr s' \<and> term_ok (snd s') \<and> follows (snd s) (snd s')"
  using assms by (auto simp: on_term_def steps_def)

lemma write_char_ok:
  assumes "term_ok (snd s)"
  shows "\<exists>s'. write_char s c = Inr s' \<and> term_ok (snd s') \<and> follows (snd s) (snd s')"
proof (cases "utf8_step (fst s) c")
  case (Pair r u)
  show ?thesis
  proof (cases r)
    case None
    then show ?thesis using Pair assms by (simp add: write_char_def)
  next
    case (Some cp)
    then show ?thesis using Pair write_codepoint_ok [OF assms, of cp] by (auto simp: write_char_def steps_def)
  qed
qed

lemma follow_loop:
  fixes f :: "'k \<Rightarrow> utf8 \<times> terminal \<Rightarrow> (utf8 \<times> terminal) result"
  assumes "term_ok (snd s)" "\<And>k s. term_ok (snd s) \<Longrightarrow> \<exists>s'. f k s = Inr s' \<and> term_ok (snd s') \<and> follows (snd s) (snd s')"
  shows "\<exists>s'. rfold f ks s = Inr s' \<and> term_ok (snd s') \<and> follows (snd s) (snd s')"
proof (rule rfold_inv)
  fix k and s1 :: "utf8 \<times> terminal"
  assume "term_ok (snd s1) \<and> follows (snd s) (snd s1)"
  then show "\<exists>s'. f k s1 = Inr s' \<and> term_ok (snd s') \<and> follows (snd s) (snd s')"
    using assms(2) [of s1 k] follows_trans by blast
qed (use assms(1) in simp)

lemma write_codepoints_ok:
  assumes "term_ok t"
  shows "steps t (write_codepoints t cps)"
proof -
  have "\<exists>t'. rfold (\<lambda>cp t. write_codepoint t cp) cps t = Inr t' \<and> (term_ok t' \<and> follows t t')"
  proof (rule rfold_inv)
    fix cp s
    assume "term_ok s \<and> follows t s"
    then show "\<exists>s'. write_codepoint s cp = Inr s' \<and> (term_ok s' \<and> follows t s')"
      using write_codepoint_ok [of s cp] follows_trans unfolding steps_def by blast
  qed (use assms in simp)
  then show ?thesis by (simp add: write_codepoints_def steps_def)
qed

lemma op_steps:
  assumes t: "term_ok t"
  shows "steps t (set_character t p c)" "steps t (clear t)" "steps t (clear_line t l)" "steps t (advance_cursor t)"
    "steps t (Inr (regress_cursor t))" "steps t (backspace t)" "steps t (Inr (handle_keypress t k cp m))"
    "steps t (Inr (set_current_attribute t a))" "steps t (Inr (set_prevent_scroll t b))"
proof -
  show "steps t (set_character t p c)" by (rule set_character_ok [OF t]) (rule stepsI)
  show "steps t (clear t)" by (rule clear_ok [OF t]) (rule stepsI)
  show "steps t (clear_line t l)" by (rule clear_line_ok [OF t]) (rule stepsI)
  show "steps t (advance_cursor t)" by (rule advance_cursor_ok [OF t]) (rule stepsI)
  show "steps t (Inr (regress_cursor t))" by (rule stepsI [OF refl regress_cursor_ok [OF t]])
  show "steps t (backspace t)" by (rule backspace_ok [OF t]) (rule stepsI)
  show "steps t (Inr (handle_keypress t k cp m))" by (rule stepsI [OF refl handle_keypress_ok [OF t]])
  show "steps t (Inr (set_current_attribute t a))" "steps t (Inr (set_prevent_scroll t b))"
    using t by (auto simp: set_current_attribute_def set_prevent_scroll_def term_ok_def params_ok_def intro!: steps_same)
qed

lemma call_steps:
  assumes t: "term_ok t"
  shows "on_screen (dimensions t) q \<Longrightarrow> steps t (Inr (set_cursor t q))" "0 \<le> n \<Longrightarrow> steps t (scroll t n)" "steps t (Inr (emit_str t str))"
    "terminated t \<Longrightarrow> steps t (evaluate_clear_escape t)" "terminated t \<Longrightarrow> steps t (evaluate_clear_line_escape t)"
proof -
  show "steps t (Inr (set_cursor t q))" if "on_screen (dimensions t) q" by (rule stepsI [OF refl set_cursor_ok(1) [OF t that]])
  show "steps t (scroll t n)" if "0 \<le> n" by (rule scroll_ok [OF t that]) (rule stepsI)
  show "steps t (Inr (emit_str t str))" unfolding emit_str_def by (rule stepsI [OF refl notify_draws [OF t]]) (simp_all add: term_view_def)
  show "steps t (evaluate_clear_escape t)" if "terminated t" by (rule clear_escape_ok [OF t that]) (rule stepsI)
  show "steps t (evaluate_clear_line_escape t)" if "terminated t" by (rule clear_line_escape_ok [OF t that]) (rule stepsI)
qed

lemma term_step_ok:
  assumes "term_ok (snd s)" and call: "call_ok p (snd s)"
  shows "\<exists>s'. term_step p s = Inr s' \<and> term_ok (snd s') \<and> follows (snd s) (snd s')"
proof (cases "\<exists>cs. p = WriteChars cs")
  case True
  then obtain cs where p: "p = WriteChars cs" by blast
  show ?thesis unfolding p term_step.simps write_chars_def
    by (rule follow_loop [OF assms(1)]) (rule write_char_ok)
next
  case False
  then obtain f where f: "term_step p s = on_term f s" "steps (snd s) (f (snd s))"
    using op_steps [OF assms(1)] write_codepoints_ok [OF assms(1)] set_dimensions_ok [OF assms(1)] call_steps [OF assms(1)]
      escape_ok [OF assms(1)] graphics_ok [OF assms(1)] cursor_escape_ok [OF assms(1)] call
    by (cases p) (simp_all add: parameters_read_def del: split_paired_Ex)
  show ?thesis unfolding f(1) by (rule on_term_ok [of s f, OF f(2)])
qed

lemma term_new_ok:
  assumes "0 < cols d" "0 < lines d" "length params = 10" "\<forall>r \<in> set params. length r = 10"
  shows "term_ok (term_new d params p)"
    "term_view (term_new d params p) = (d, replicate (nat (lines d)) (replicate (nat (cols d)) 0))"
  using assms
  by (auto simp: term_ok_def term_new_def grid_ok_def on_screen_def params_ok_def term_view_def line_resize_codepoints fit_def)

lemma calls_follow:
  "term_ok (snd s) \<Longrightarrow> calls_ok ops s \<Longrightarrow> \<exists>s'. rfold term_step ops s = Inr s' \<and> term_ok (snd s') \<and> follows (snd s) (snd s')"
proof (induction ops arbitrary: s)
  case (Cons p ops)
  obtain s1 where s1: "term_step p s = Inr s1" "term_ok (snd s1)" "follows (snd s) (snd s1)"
    using term_step_ok [OF Cons.prems(1), of p] Cons.prems(2) by auto
  then obtain s' where "rfold term_step ops s1 = Inr s'" "term_ok (snd s')" "follows (snd s1) (snd s')"
    using Cons.IH [of s1] Cons.prems(2) by auto
  then show ?case using s1 follows_trans by (intro exI [of _ s']) auto
qed simp

text \<open>
  C13. Whatever is written to a terminal (bytes, code points, escape sequences, well-formed or not),
  typed at it, and however it is cleared, resized and scrolled, in any order of the public operations:
  no access leaves the grid or the buffers of the escape parameters, the cursor stays on the grid,
  every place that the listener is told lies on the grid as the listener knows it, and the calls of
  the listener are enough to keep a copy of the screen that shows the same code points. The calls
  keep to \<open>call_ok\<close>, which the code does not check: \<open>set_cursor\<close> gets a place on the grid of that
  moment, \<open>scroll\<close> a number of lines that is not negative, and the public evaluators of escape
  sequences are called only when a sequence has begun and its parameters, of at most eight
  characters, are terminated.
\<close>

theorem terminal_followed:
  assumes "0 < cols d" "0 < lines d" "length params = 10" "\<forall>r \<in> set params. length r = 10" "calls_ok ops (u0, term_new d params p)"
  shows "\<exists>u t. rfold term_step ops (u0, term_new d params p) = Inr (u, t) \<and>
    on_screen (dimensions t) (cursor_position t) \<and> grid_ok (dimensions t) (screen t) \<and>
    mirror_events (events t) (d, replicate (nat (lines d)) (replicate (nat (cols d)) 0)) = Some (term_view t)"
proof -
  note new = term_new_ok [OF assms(1-4), of p]
  have "\<exists>s'. rfold term_step ops (u0, term_new d params p) = Inr s' \<and> term_ok (snd s') \<and> follows (term_new d params p) (snd s')"
    using calls_follow [OF _ assms(5)] new by simp
  moreover have "events (term_new d params p) = []" by (simp add: term_new_def)
  ultimately show ?thesis using new(2) by (auto simp: follows_def term_ok_def)
qed

definition example_calls :: "term_op list" where
  "example_calls = [WriteChars [72, 105, 27, 91, 51, 49, 109, 10], SetCursor (pos 3 2), Scroll 1, SetDimensions \<lparr>cols = 2, lines = 1\<rparr>, WriteCodepoints [0x1F986]]"

theorem terminal_followed_witness:
  "\<exists>u t. rfold term_step example_calls (utf8_init, term_new \<lparr>cols = 4, lines = 3\<rparr> (replicate 10 (replicate 10 0)) 0) = Inr (u, t) \<and>
    on_screen (dimensions t) (cursor_position t) \<and> grid_ok (dimensions t) (screen t) \<and>
    mirror_events (events t) (\<lparr>cols = 4, lines = 3\<rparr>, replicate 3 (replicate 4 0)) = Some (term_view t)"
proof -
  have "calls_ok example_calls (utf8_init, term_new \<lparr>cols = 4, lines = 3\<rparr> (replicate 10 (replicate 10 0)) 0)" by code_simp
  from terminal_followed [OF _ _ _ _ this] show ?thesis by simp
qed

text \<open>
  A negative number of lines reads above the grid, and a place outside the grid is taken as the
  cursor.
\<close>

lemma unchecked_calls:
  "scroll (term_new \<lparr>cols = 4, lines = 3\<rparr> params p) (- 1) = Inl Undefined"
  "cursor_position (set_cursor (term_new \<lparr>cols = 4, lines = 3\<rparr> params p) (pos 9 9)) = pos 9 9"
  by (simp_all add: scroll_def term_new_def screen_get_def screen_put_def set_cursor_def Let_def notify_def numeral_eq_Suc)

section \<open>UTF-8\<close>

text \<open>The encoding of a code point in one to four bytes.\<close>

definition tail_byte :: "32 word \<Rightarrow> nat \<Rightarrow> 8 word" where
  "tail_byte cp k = 0x80 OR (ucast (drop_bit k cp) AND 0x3F)"

definition utf8_encode :: "32 word \<Rightarrow> 8 word list" where
  "utf8_encode cp =
     (if cp < 2 ^ 7 then [ucast cp]
      else if cp < 2 ^ 11 then [0xC0 OR ucast (drop_bit 6 cp), tail_byte cp 0]
      else if cp < 2 ^ 16 then [0xE0 OR ucast (drop_bit 12 cp), tail_byte cp 6, tail_byte cp 0]
      else [0xF0 OR ucast (drop_bit 18 cp), tail_byte cp 12, tail_byte cp 6, tail_byte cp 0])"

lemma lead_bits:
  fixes c :: "8 word"
  shows "c AND 0xF0 = 0xF0 \<longleftrightarrow> bit c 4 \<and> bit c 5 \<and> bit c 6 \<and> bit c 7"
    "c AND 0xE0 = 0xE0 \<longleftrightarrow> bit c 5 \<and> bit c 6 \<and> bit c 7"
    "c AND 0xC0 = 0xC0 \<longleftrightarrow> bit c 6 \<and> bit c 7"
  by (simp_all add: word_eq_bits bit_simps all_less_8)

lemma no_high_bits:
  fixes cp :: "32 word"
  assumes "cp < 2 ^ k" "k \<le> n"
  shows "\<not> bit cp n"
  using small_bit [OF assms(1), of n] assms(2) by auto

text \<open>The code points that the decoder passes on for a list of bytes.\<close>

fun utf8_run :: "utf8 \<Rightarrow> 8 word list \<Rightarrow> 32 word list \<times> utf8" where
  "utf8_run u [] = ([], u)"
| "utf8_run u (c # cs) =
     (case utf8_step u c of (r, u1) \<Rightarrow>
        case utf8_run u1 cs of (cps, u2) \<Rightarrow> ((case r of None \<Rightarrow> cps | Some cp \<Rightarrow> cp # cps), u2))"

lemma utf8_run_append:
  "utf8_run u (as @ bs) = (case utf8_run u as of (xs, u1) \<Rightarrow> case utf8_run u1 bs of (ys, u2) \<Rightarrow> (xs @ ys, u2))"
  by (induction "as" arbitrary: u) (auto split: prod.splits option.splits)

lemma write_chars_run:
  "write_chars (u, t) cs = rbind (write_codepoints t (fst (utf8_run u cs))) (\<lambda>t'. Inr (snd (utf8_run u cs), t'))"
proof (induction cs arbitrary: u t)
  case (Cons c cs)
  obtain r u1 where s: "utf8_step u c = (r, u1)" by (cases "utf8_step u c")
  obtain xs u2 where run: "utf8_run u1 cs = (xs, u2)" by (cases "utf8_run u1 cs")
  show ?case
  proof (cases r)
    case None
    then show ?thesis using s run Cons.IH [of u1 t] by (simp add: write_chars_def write_char_def)
  next
    case (Some cp)
    show ?thesis
    proof (cases "write_codepoint t cp")
      case (Inl e)
      then show ?thesis using s run Some by (simp add: write_chars_def write_char_def write_codepoints_def)
    next
      case (Inr t1)
      then show ?thesis using s run Some Cons.IH [of u1 t1] by (simp add: write_chars_def write_char_def write_codepoints_def)
    qed
  qed
qed (simp add: write_chars_def write_codepoints_def)

definition decodes :: "8 word list \<Rightarrow> 32 word \<Rightarrow> bool" where
  "decodes bs cp \<longleftrightarrow> (\<forall>u. utf8_index u = 0 \<longrightarrow> (\<exists>u'. utf8_index u' = 0 \<and> utf8_run u bs = ([cp], u')))"

lemma decode1:
  assumes "cp < 2 ^ 7"
  shows "decodes [ucast cp] cp"
proof -
  note hi = no_high_bits [OF assms]
  have w: "(scast (ucast cp :: 8 word) :: 32 word) = cp"
    using hi by (simp add: word_eq_bits bit_simps all_less_32 all_less_16 all_less_8)
  have "\<not> bit (ucast cp :: 8 word) 7" using hi by (simp add: bit_simps)
  then have "utf8_step u (ucast cp) = (Some cp, u\<lparr>utf8_char_length := 1, utf8_index := 0, utf8_buffer := 0\<rparr>)"
    if "utf8_index u = 0" for u
    using that w by (cases u) (simp add: utf8_step_def utf8_first_def lead_bits Let_def)
  then show ?thesis unfolding decodes_def by auto
qed

text \<open>Bytes after the first.\<close>

lemma utf8_tail:
  assumes "utf8_index u \<noteq> 0" "utf8_char_length u \<noteq> 1"
  shows "utf8_step u (tail_byte cp k) =
    (let r = utf8_remaining_bits u - 6;
         b = utf8_buffer u OR push_bit (unat r) (drop_bit k cp AND 0x3F)
     in if utf8_index u + 1 = utf8_char_length u
        then (Some b, u\<lparr>utf8_remaining_bits := r, utf8_index := 0, utf8_buffer := 0\<rparr>)
        else (None, u\<lparr>utf8_remaining_bits := r, utf8_buffer := b, utf8_index := utf8_index u + 1\<rparr>))"
proof -
  have "(scast (tail_byte cp k) :: 32 word) AND 0x3F = drop_bit k cp AND 0x3F"
    by (simp add: tail_byte_def word_eq_bits bit_simps all_less_32 all_less_16 all_less_8)
  then show ?thesis using assms by (cases u) (simp add: utf8_step_def Let_def)
qed

lemma decode2:
  assumes "cp < 2 ^ 11"
  shows "decodes [0xC0 OR ucast (drop_bit 6 cp), tail_byte cp 0] cp"
proof -
  note hi = no_high_bits [OF assms]
  let ?c = "0xC0 OR ucast (drop_bit 6 cp) :: 8 word"
  have c: "\<not> ?c AND 0xF0 = 0xF0" "\<not> ?c AND 0xE0 = 0xE0" "?c AND 0xC0 = 0xC0"
    using hi unfolding lead_bits by (simp_all add: bit_simps)
  have w: "push_bit 6 ((scast ?c :: 32 word) AND 0x1F) OR (cp AND 0x3F) = cp"
    using hi by (simp add: word_eq_bits bit_simps all_less_32 all_less_16 all_less_8)
  show ?thesis unfolding decodes_def
    using w by (auto simp: utf8_tail utf8_step_def [of _ ?c] utf8_first_def c Let_def or.assoc)
qed

lemma decode3:
  assumes "cp < 2 ^ 16"
  shows "decodes [0xE0 OR ucast (drop_bit 12 cp), tail_byte cp 6, tail_byte cp 0] cp"
proof -
  note hi = no_high_bits [OF assms]
  let ?c = "0xE0 OR ucast (drop_bit 12 cp) :: 8 word"
  have c: "\<not> ?c AND 0xF0 = 0xF0" "?c AND 0xE0 = 0xE0"
    using hi unfolding lead_bits by (simp_all add: bit_simps)
  have w: "push_bit 12 ((scast ?c :: 32 word) AND 0xF) OR push_bit 6 (drop_bit 6 cp AND 0x3F) OR (cp AND 0x3F) = cp"
    using hi by (simp add: word_eq_bits bit_simps all_less_32 all_less_16 all_less_8)
  show ?thesis unfolding decodes_def
    using w by (auto simp: utf8_tail utf8_step_def [of _ ?c] utf8_first_def c Let_def or.assoc)
qed

lemma decode4:
  assumes "cp < 2 ^ 21"
  shows "decodes [0xF0 OR ucast (drop_bit 18 cp), tail_byte cp 12, tail_byte cp 6, tail_byte cp 0] cp"
proof -
  note hi = no_high_bits [OF assms]
  let ?c = "0xF0 OR ucast (drop_bit 18 cp) :: 8 word"
  have c: "?c AND 0xF0 = 0xF0" unfolding lead_bits by (simp add: bit_simps)
  have w: "push_bit 18 ((scast ?c :: 32 word) AND 0x7) OR push_bit 12 (drop_bit 12 cp AND 0x3F) OR
      push_bit 6 (drop_bit 6 cp AND 0x3F) OR (cp AND 0x3F) = cp"
    using hi by (simp add: word_eq_bits bit_simps all_less_32 all_less_16 all_less_8)
  show ?thesis unfolding decodes_def
    using w by (auto simp: utf8_tail utf8_step_def [of _ ?c] utf8_first_def c Let_def or.assoc)
qed

lemma decode_encode: "cp < 2 ^ 21 \<Longrightarrow> decodes (utf8_encode cp) cp"
  unfolding utf8_encode_def using decode1 decode2 decode3 decode4 by simp

lemma utf8_run_encode:
  assumes "utf8_index u = 0" "\<forall>cp \<in> set cps. cp < 2 ^ 21"
  shows "\<exists>u'. utf8_index u' = 0 \<and> utf8_run u (concat (map utf8_encode cps)) = (cps, u')"
  using assms
proof (induction cps arbitrary: u)
  case (Cons cp cps)
  obtain u1 where u1: "utf8_index u1 = 0" "utf8_run u (utf8_encode cp) = ([cp], u1)"
    using decode_encode [of cp] Cons.prems by (auto simp: decodes_def)
  then show ?case using Cons.IH [OF u1(1)] Cons.prems(2) by (auto simp: utf8_run_append)
qed simp

text \<open>
  C31. Writing the UTF-8 encoding of a string of code points below \<open>2 ^ 21\<close> byte by byte has the effect
  of writing the code points, and leaves the decoder at the start of a character.
\<close>

theorem utf8_roundtrip:
  assumes "utf8_index u = 0" "\<forall>cp \<in> set cps. cp < 2 ^ 21"
  shows "\<exists>u'. utf8_index u' = 0 \<and>
    write_chars (u, t) (concat (map utf8_encode cps)) = rbind (write_codepoints t cps) (\<lambda>t'. Inr (u', t'))"
  using utf8_run_encode [OF assms] by (auto simp: write_chars_run)

theorem utf8_roundtrip_witness:
  "utf8_encode 0x1F986 = [0xF0, 0x9F, 0xA6, 0x86] \<and>
   (\<exists>u'. utf8_index u' = 0 \<and> write_chars (utf8_init, term_new \<lparr>cols = 4, lines = 3\<rparr> (replicate 10 (replicate 10 0)) 0) [0xF0, 0x9F, 0xA6, 0x86, 0x21] =
      rbind (write_codepoints (term_new \<lparr>cols = 4, lines = 3\<rparr> (replicate 10 (replicate 10 0)) 0) [0x1F986, 0x21]) (\<lambda>t'. Inr (u', t')))"
proof -
  have "utf8_encode 0x1F986 = [0xF0, 0x9F, 0xA6, 0x86]" "utf8_encode 0x21 = [0x21]"
    by (simp_all add: utf8_encode_def tail_byte_def drop_bit_eq_div)
  then show ?thesis using utf8_roundtrip [of utf8_init "[0x1F986, 0x21]" "term_new \<lparr>cols = 4, lines = 3\<rparr> (replicate 10 (replicate 10 0)) 0"] by (simp add: utf8_init_def)
qed

end
