(* ===== verification/TTYDevice.thy ===== *)
theory TTYDevice
  imports CircularQueue WordBits
begin

text \<open>
  The line discipline of terminals, \<open>TTYDevice\<close> (\<open>src/kernel/terminal/TTYDevice.cpp\<close>), on the
  model of its input buffer, a \<open>kstd::circular_queue\<close>. Echoed bytes and signals sent are
  collected in order. A reader that has to wait is \<^const>\<open>Diverges\<close>: it returns when the state
  has changed.
\<close>

unbundle bit_operations_syntax

section \<open>State\<close>

record tty =
  input_buffer :: "8 word ring"
  buffer_ready :: bool
  tty_pgid :: int
  c_lflag :: "32 word"
  c_cc :: "8 word list"
  tty_lines :: int
  echoed :: "8 word list"
  signals :: "(int \<times> string) list"

text \<open>Flags and the indices of the control characters (\<open>src/kernel/api/termios.h\<close>).\<close>

definition ISIG :: "32 word" where "ISIG = 0x1"
definition ICANON :: "32 word" where "ICANON = 0x2"
definition ECHO :: "32 word" where "ECHO = 0x8"

definition VEOF :: nat where "VEOF = 2"
definition VEOL :: nat where "VEOL = 3"
definition VERASE :: nat where "VERASE = 5"
definition VINTR :: nat where "VINTR = 6"
definition VKILL :: nat where "VKILL = 7"
definition VQUIT :: nat where "VQUIT = 10"
definition VSUSP :: nat where "VSUSP = 15"
definition VWERASE :: nat where "VWERASE = 18"

lemmas tty_consts = ISIG_def ICANON_def ECHO_def VEOF_def VEOL_def VERASE_def VINTR_def VKILL_def VQUIT_def VSUSP_def VWERASE_def

definition tty_new :: tty where
  "tty_new =
     \<lparr>input_buffer = cq_new 1024, buffer_ready = False, tty_pgid = - 1, c_lflag = ISIG OR ECHO OR ICANON,
      c_cc = [15, 25, 4, 0, 0, 8, 3, 21, 22, 1, 28, 18, 17, 20, 19, 26, 0, 0, 23],
      tty_lines = 0, echoed = [], signals = []\<rparr>"

section \<open>Operations\<close>

definition lflag :: "tty \<Rightarrow> 32 word \<Rightarrow> bool" where
  "lflag t f \<longleftrightarrow> c_lflag t AND f \<noteq> 0"

definition echo :: "8 word \<Rightarrow> tty \<Rightarrow> tty" where
  "echo c t = t\<lparr>echoed := echoed t @ [c]\<rparr>"

definition generate_signal :: "tty \<Rightarrow> string \<Rightarrow> tty" where
  "generate_signal t sig = (if tty_pgid t = 0 then t else t\<lparr>signals := signals t @ [(tty_pgid t, sig)]\<rparr>)"

text \<open>
  \<open>_input_buffer.back()\<close>: with an empty buffer the byte is whatever memory holds, \<open>junk\<close>.
\<close>

definition input_back :: "8 word \<Rightarrow> tty \<Rightarrow> 8 word" where
  "input_back junk t = (case cq_back (input_buffer t) of Inl e \<Rightarrow> junk | Inr c \<Rightarrow> c)"

text \<open>Comparison of a (signed) \<open>char\<close> with a control character, which is unsigned.\<close>

definition char_is_cc :: "tty \<Rightarrow> 8 word \<Rightarrow> nat \<Rightarrow> bool" where
  "char_is_cc t c i \<longleftrightarrow> sint c = uint (c_cc t ! i)"

definition can_erase :: "8 word \<Rightarrow> tty \<Rightarrow> bool" where
  "can_erase junk t \<longleftrightarrow>
     (let last_char = input_back junk t
      in \<not> cq_empty (input_buffer t) \<and> last_char \<noteq> 0 \<and> \<not> char_is_cc t last_char VEOL)"

definition tty_backspace :: "8 word \<Rightarrow> tty \<Rightarrow> (bool \<times> tty) result" where
  "tty_backspace junk t =
     (if can_erase junk t
      then rbind (cq_pop_back (input_buffer t)) (\<lambda>(c, q).
             Inr (True, echo 8 (echo 32 (echo 8 (t\<lparr>input_buffer := q\<rparr>)))))
      else Inr (False, t))"

definition erase :: "8 word \<Rightarrow> tty \<Rightarrow> (bool \<times> tty) result" where
  "erase junk t =
     (if can_erase junk t
      then rbind (cq_pop_back (input_buffer t)) (\<lambda>(c, q).
             let e = c_cc t ! VERASE in Inr (True, echo e (echo 32 (echo e (t\<lparr>input_buffer := q\<rparr>)))))
      else Inr (False, t))"

lemma erase_smaller:
  assumes "erase junk t = Inr (True, t')"
  shows "rsize (input_buffer t') < rsize (input_buffer t)"
proof -
  have "rsize (input_buffer t) \<noteq> 0" using assms by (auto simp: erase_def can_erase_def cq_empty_def Let_def split: if_splits)
  moreover have "rsize (input_buffer t') = rsize (input_buffer t) - 1"
    using assms by (auto simp: erase_def cq_pop_back_def echo_def Let_def rbind_eq_Inr_iff split: if_splits)
  ultimately show ?thesis by simp
qed

text \<open>\<open>while(P && erase());\<close>\<close>

function erase_while :: "(tty \<Rightarrow> bool) \<Rightarrow> 8 word \<Rightarrow> tty \<Rightarrow> tty result" where
  "erase_while P junk t =
     (if P t
      then (case erase junk t of
              Inl e \<Rightarrow> Inl e
            | Inr (b, t') \<Rightarrow> if b then erase_while P junk t' else Inr t')
      else Inr t)"
  by pat_completeness auto
termination
  by (relation "measure (\<lambda>(P, junk, t). rsize (input_buffer t))") (auto dest: erase_smaller)

declare erase_while.simps [simp del]

definition update_ready :: "tty \<Rightarrow> tty" where
  "update_ready t = t\<lparr>buffer_ready := (tty_lines t \<noteq> 0 \<and> \<not> cq_empty (input_buffer t))\<rparr>"

definition push_input :: "tty \<Rightarrow> 8 word \<Rightarrow> tty result" where
  "push_input t c = rbind (cq_push_back (input_buffer t) c) (\<lambda>(b, q). Inr (t\<lparr>input_buffer := q\<rparr>))"

text \<open>The end of \<open>emit\<close>: the character goes into the buffer and is echoed.\<close>

definition emit_plain :: "tty \<Rightarrow> 8 word \<Rightarrow> tty result" where
  "emit_plain t c =
     rbind (push_input t c) (\<lambda>t1.
       let t2 = (if \<not> lflag t1 ICANON then t1\<lparr>buffer_ready := True\<rparr> else t1)
       in Inr (if lflag t2 ECHO then echo c t2 else t2))"

definition emit_canonical :: "8 word \<Rightarrow> tty \<Rightarrow> 8 word \<Rightarrow> tty result" where
  "emit_canonical junk t c =
     (if c = c_cc t ! VEOF
      then rbind (push_input t 0) (\<lambda>t1. Inr (t1\<lparr>tty_lines := tty_lines t1 + 1, buffer_ready := True\<rparr>))
      else
        let t1 = (if c = 10 \<or> c = c_cc t ! VEOL then t\<lparr>tty_lines := tty_lines t + 1, buffer_ready := True\<rparr> else t)
        in if c = c_cc t1 ! VERASE then rbind (tty_backspace junk t1) (\<lambda>(b, t2). Inr t2)
           else if c = c_cc t1 ! VKILL then rbind (erase_while (\<lambda>t. True) junk t1) (\<lambda>t2. Inr (update_ready t2))
           else if c = c_cc t1 ! VWERASE then
             rbind (erase_while (\<lambda>t. input_back junk t = 32) junk t1) (\<lambda>t2.
             rbind (erase_while (\<lambda>t. input_back junk t \<noteq> 32) junk t2) (\<lambda>t3. Inr (update_ready t3)))
           else emit_plain t1 c)"

definition tty_emit :: "8 word \<Rightarrow> tty \<Rightarrow> 8 word \<Rightarrow> tty result" where
  "tty_emit junk t c =
     (if lflag t ISIG \<and> c = c_cc t ! VINTR then Inr (generate_signal t ''SIGINT'')
      else if lflag t ISIG \<and> c = c_cc t ! VQUIT then Inr (generate_signal t ''SIGQUIT'')
      else if lflag t ISIG \<and> c = c_cc t ! VSUSP then Inr (generate_signal t ''SIGTSTP'')
      else if lflag t ICANON then emit_canonical junk t c
      else emit_plain t c)"

text \<open>The two loops of \<open>read\<close>; bytes read so far are \<open>acc\<close>.\<close>

fun read_canonical :: "nat \<Rightarrow> tty \<Rightarrow> 8 word list \<Rightarrow> (8 word list \<times> tty) result" where
  "read_canonical 0 t acc = Inr (acc, t)"
| "read_canonical (Suc n) t acc =
     rbind (cq_pop_front (input_buffer t)) (\<lambda>(c, q).
       let t1 = t\<lparr>input_buffer := q\<rparr> in
       if c = 10 \<or> char_is_cc t1 c VEOL then Inr (acc @ [c], t1\<lparr>tty_lines := tty_lines t1 - 1\<rparr>)
       else if c = 0 then Inr (acc, t1\<lparr>tty_lines := tty_lines t1 - 1\<rparr>)
       else read_canonical n t1 (acc @ [c]))"

fun read_raw :: "nat \<Rightarrow> tty \<Rightarrow> 8 word list \<Rightarrow> (8 word list \<times> tty) result" where
  "read_raw 0 t acc = Inr (acc, t)"
| "read_raw (Suc n) t acc =
     rbind (cq_pop_front (input_buffer t)) (\<lambda>(c, q). read_raw n (t\<lparr>input_buffer := q\<rparr>) (acc @ [c]))"

definition tty_read :: "tty \<Rightarrow> nat \<Rightarrow> (8 word list \<times> tty) result" where
  "tty_read t count =
     (if \<not> buffer_ready t then Inl Diverges
      else
        let count = min count (rsize (input_buffer t)) in
        if lflag t ICANON
        then rbind (read_canonical count t []) (\<lambda>(bs, t1). Inr (bs, update_ready t1))
        else rbind (read_raw count t []) (\<lambda>(bs, t1). Inr (bs, t1\<lparr>buffer_ready := \<not> cq_empty (input_buffer t1)\<rparr>)))"

definition can_read :: "tty \<Rightarrow> bool" where
  "can_read t \<longleftrightarrow> (if lflag t ICANON then tty_lines t \<noteq> 0 else cq_empty (input_buffer t))"

definition tty_type :: "8 word \<Rightarrow> tty \<Rightarrow> 8 word list \<Rightarrow> tty result" where
  "tty_type junk t cs = rfold (\<lambda>c t. tty_emit junk t c) cs t"


section \<open>Editing a line\<close>

text \<open>
  What the control characters of a new terminal mean for the line that is being typed: 8 takes the
  last character back, 21 the whole line, 23 the last word with the blanks behind it.
\<close>

definition edit_char :: "8 word list \<Rightarrow> 8 word \<Rightarrow> 8 word list" where
  "edit_char buf c =
     (if c = 8 then butlast buf
      else if c = 21 then []
      else if c = 23 then rev (dropWhile (\<lambda>c. c \<noteq> 32) (dropWhile (\<lambda>c. c = 32) (rev buf)))
      else buf @ [c])"

definition edit_line :: "8 word list \<Rightarrow> 8 word list" where
  "edit_line cs = foldl edit_char [] cs"

text \<open>Bytes that neither end a line nor send a signal.\<close>

definition line_byte :: "8 word \<Rightarrow> bool" where
  "line_byte c \<longleftrightarrow> c \<notin> {0, 3, 4, 10, 26, 28}"

definition cooked :: "tty \<Rightarrow> 8 word list \<Rightarrow> int \<Rightarrow> bool \<Rightarrow> bool" where
  "cooked t buf n r \<longleftrightarrow> ring_wf (input_buffer t) \<and> rcapacity (input_buffer t) = 1024 \<and> ring_list (input_buffer t) = buf \<and>
     c_lflag t = c_lflag tty_new \<and> c_cc t = c_cc tty_new \<and> tty_lines t = n \<and> buffer_ready t = r"

lemma cooked_new: "cooked tty_new [] 0 False"
  using ring_wf_new [of 1024] by (simp add: cooked_def tty_new_def)

lemma cooked_flags:
  assumes "cooked t buf n r"
  shows "lflag t ISIG" "lflag t ICANON" "lflag t ECHO"
  using assms by (simp_all add: cooked_def lflag_def tty_new_def tty_consts)

lemma cooked_cc:
  assumes "cooked t buf n r"
  shows "c_cc t ! VINTR = 3" "c_cc t ! VQUIT = 28" "c_cc t ! VSUSP = 26" "c_cc t ! VEOF = 4" "c_cc t ! VEOL = 0"
    "c_cc t ! VERASE = 8" "c_cc t ! VKILL = 21" "c_cc t ! VWERASE = 23" "char_is_cc t c VEOL \<longleftrightarrow> c = 0"
  using assms by (simp_all add: cooked_def tty_new_def tty_consts char_is_cc_def signed_eq_0_iff)

lemma cooked_echo [simp]: "cooked (echo c t) buf n r = cooked t buf n r"
  by (simp add: cooked_def echo_def)

lemma cooked_size: "cooked t buf n r \<Longrightarrow> rsize (input_buffer t) = length buf"
  by (auto simp: cooked_def)

lemma cooked_empty: "cooked t buf n r \<Longrightarrow> cq_empty (input_buffer t) \<longleftrightarrow> buf = []"
  by (simp add: cooked_def cq_empty_iff)

lemma cooked_back: "cooked t (buf @ [c]) n r \<Longrightarrow> input_back junk t = c"
  using ring_read_back [of "input_buffer t" buf c] by (simp add: cooked_def input_back_def cq_back_def)

lemma push_input_ok:
  assumes "cooked t buf n r" "length buf < 1024"
  obtains t1 where "push_input t c = Inr t1" "cooked t1 (buf @ [c]) n r"
proof -
  have "ring_wf (input_buffer t)" "rsize (input_buffer t) < rcapacity (input_buffer t)"
    using assms cooked_size [OF assms(1)] by (simp_all add: cooked_def)
  from cq_push_back_room [OF this, of c] obtain q where q: "cq_push_back (input_buffer t) c = Inr (True, q)" "ring_wf q"
    "ring_list q = ring_list (input_buffer t) @ [c]" "rcapacity q = rcapacity (input_buffer t)" by blast
  show thesis by (rule that [of "t\<lparr>input_buffer := q\<rparr>"]) (use q assms(1) in \<open>auto simp: push_input_def cooked_def\<close>)
qed

lemma pop_last:
  assumes "cooked t (buf @ [c]) n r"
  obtains q where "cq_pop_back (input_buffer t) = Inr (c, q)" "cooked (t\<lparr>input_buffer := q\<rparr>) buf n r"
proof -
  have "ring_wf (input_buffer t)" "ring_list (input_buffer t) = buf @ [c]" using assms by (simp_all add: cooked_def)
  from cq_pop_back_snoc [OF this] obtain q where "cq_pop_back (input_buffer t) = Inr (c, q)" "ring_wf q" "ring_list q = buf"
    "rcapacity q = rcapacity (input_buffer t)" by blast
  then show thesis using that [of q] assms by (simp add: cooked_def)
qed

lemma can_erase_cooked:
  "cooked t [] n r \<Longrightarrow> \<not> can_erase junk t"
  "cooked t (buf @ [c]) n r \<Longrightarrow> can_erase junk t \<longleftrightarrow> c \<noteq> 0"
  using cooked_empty [of t] cooked_back [of t buf c] cooked_cc(9) [of t]
  by (auto simp: can_erase_def Let_def)

lemma erase_ok:
  assumes "cooked t (buf @ [c]) n r" "c \<noteq> 0"
  obtains t1 where "erase junk t = Inr (True, t1)" "cooked t1 buf n r"
proof -
  obtain q where q: "cq_pop_back (input_buffer t) = Inr (c, q)" "cooked (t\<lparr>input_buffer := q\<rparr>) buf n r"
    by (rule pop_last [OF assms(1)])
  let ?e = "c_cc t ! VERASE"
  show thesis
    by (rule that [of "echo ?e (echo 32 (echo ?e (t\<lparr>input_buffer := q\<rparr>)))"])
      (use q can_erase_cooked(2) [OF assms(1)] assms(2) in \<open>auto simp: erase_def Let_def\<close>)
qed

lemma tty_backspace_ok:
  assumes "cooked t buf n r" "\<forall>c \<in> set buf. c \<noteq> 0"
  obtains b t1 where "tty_backspace junk t = Inr (b, t1)" "cooked t1 (butlast buf) n r"
proof (cases buf rule: rev_cases)
  case Nil
  then show thesis using that can_erase_cooked(1) [of t n r junk] assms(1) by (simp add: tty_backspace_def)
next
  case (snoc xs c)
  then have t: "cooked t (xs @ [c]) n r" "c \<noteq> 0" using assms by auto
  obtain q where q: "cq_pop_back (input_buffer t) = Inr (c, q)" "cooked (t\<lparr>input_buffer := q\<rparr>) xs n r"
    by (rule pop_last [OF t(1)])
  show thesis
    by (rule that [of True "echo 8 (echo 32 (echo 8 (t\<lparr>input_buffer := q\<rparr>)))"])
      (use q can_erase_cooked(2) [OF t(1)] t(2) snoc in \<open>auto simp: tty_backspace_def\<close>)
qed

text \<open>A loop that erases while its test holds of the last character.\<close>

lemma erase_while_ok:
  assumes "cooked t buf n r" "\<forall>c \<in> set buf. c \<noteq> 0"
    and P: "\<And>t xs c. cooked t (xs @ [c]) n r \<Longrightarrow> P t \<longleftrightarrow> p c"
  shows "\<exists>t1. erase_while P junk t = Inr t1 \<and> cooked t1 (rev (dropWhile p (rev buf))) n r"
  using assms(1,2)
proof (induction buf arbitrary: t rule: rev_induct)
  case Nil
  then have "erase junk t = Inr (False, t)" using can_erase_cooked(1) by (simp add: erase_def)
  then show ?case using Nil by (subst erase_while.simps) auto
next
  case (snoc c xs)
  show ?case
  proof (cases "p c")
    case True
    obtain t1 where t1: "erase junk t = Inr (True, t1)" "cooked t1 xs n r"
      by (rule erase_ok [OF snoc.prems(1)]) (use snoc.prems(2) in auto)
    have "\<exists>t2. erase_while P junk t1 = Inr t2 \<and> cooked t2 (rev (dropWhile p (rev xs))) n r"
      by (rule snoc.IH [OF t1(2)]) (use snoc.prems(2) in auto)
    then show ?thesis using True t1(1) P [OF snoc.prems(1)] by (subst erase_while.simps) simp
  next
    case False
    then show ?thesis using P [OF snoc.prems(1)] snoc.prems(1) by (subst erase_while.simps) simp
  qed
qed


lemma set_dropWhile_in: "x \<in> set (dropWhile P xs) \<Longrightarrow> x \<in> set xs"
  by (metis dropWhile_eq_drop in_set_dropD)

lemma update_ready_cooked: "cooked t buf n r \<Longrightarrow> cooked (update_ready t) buf n (n \<noteq> 0 \<and> buf \<noteq> [])"
  using cooked_empty [of t buf n r] by (simp add: update_ready_def cooked_def)

lemma emit_plain_ok:
  assumes "cooked t buf n r" "length buf < 1024"
  obtains t1 where "emit_plain t c = Inr t1" "cooked t1 (buf @ [c]) n r"
proof -
  obtain t1 where t1: "push_input t c = Inr t1" "cooked t1 (buf @ [c]) n r" by (rule push_input_ok [OF assms])
  show thesis by (rule that [of "echo c t1"]) (use t1 cooked_flags [OF t1(2)] in \<open>simp_all add: emit_plain_def Let_def\<close>)
qed

lemma cooked_line:
  "cooked t buf n r \<Longrightarrow> cooked (t\<lparr>tty_lines := tty_lines t + 1, buffer_ready := True\<rparr>) buf (n + 1) True"
  by (simp add: cooked_def)

lemma emit_cooked:
  assumes "cooked t buf n r" "c \<notin> {3, 26, 28}"
  shows "tty_emit junk t c = emit_canonical junk t c"
  using assms cooked_flags [OF assms(1)] cooked_cc [OF assms(1)] by (simp add: tty_emit_def)

text \<open>Typing at the end of an unfinished line.\<close>

lemma emit_edit:
  assumes t: "cooked t buf 0 False" "length buf < 1024" and buf: "\<forall>c \<in> set buf. line_byte c" and c: "line_byte c"
  shows "\<exists>t1. tty_emit junk t c = Inr t1 \<and> cooked t1 (edit_char buf c) 0 False"
proof -
  have nz: "\<forall>c \<in> set buf. c \<noteq> 0" using buf by (auto simp: line_byte_def)
  note cc = cooked_cc [OF t(1)]
  have e: "tty_emit junk t c = emit_canonical junk t c" using emit_cooked [OF t(1)] c by (simp add: line_byte_def)
  have n: "c \<noteq> 4" "c \<noteq> 10" "c \<noteq> 0" using c by (auto simp: line_byte_def)
  consider "c = 8" | "c = 21" | "c = 23" | "c \<notin> {8, 21, 23}" by blast
  then show ?thesis
  proof cases
    case 1
    obtain b t1 where "tty_backspace junk t = Inr (b, t1)" "cooked t1 (butlast buf) 0 False" by (rule tty_backspace_ok [OF t(1) nz])
    then show ?thesis using 1 n cc unfolding e by (simp add: emit_canonical_def Let_def edit_char_def)
  next
    case 2
    obtain t1 where t1: "erase_while (\<lambda>t. True) junk t = Inr t1" "cooked t1 (rev (dropWhile (\<lambda>c. True) (rev buf))) 0 False"
      using erase_while_ok [OF t(1) nz, of "\<lambda>t. True" "\<lambda>c. True" junk] by blast
    have d: "dropWhile (\<lambda>c. True) xs = []" for xs :: "8 word list" by (induction xs) auto
    show ?thesis using t1 update_ready_cooked [OF t1(2)] 2 n cc unfolding e by (simp add: emit_canonical_def Let_def edit_char_def d)
  next
    case 3
    let ?b1 = "rev (dropWhile (\<lambda>c. c = 32) (rev buf))"
    obtain t1 where t1: "erase_while (\<lambda>t. input_back junk t = 32) junk t = Inr t1" "cooked t1 ?b1 0 False"
      using erase_while_ok [OF t(1) nz, of "\<lambda>t. input_back junk t = 32" "\<lambda>c. c = 32" junk] cooked_back by fastforce
    have nz1: "\<forall>c \<in> set ?b1. c \<noteq> 0" using nz set_dropWhile_in [of _ _ "rev buf"] unfolding set_rev by blast
    obtain t2 where t2: "erase_while (\<lambda>t. input_back junk t \<noteq> 32) junk t1 = Inr t2"
      "cooked t2 (rev (dropWhile (\<lambda>c. c \<noteq> 32) (rev ?b1))) 0 False"
      using erase_while_ok [OF t1(2) nz1, of "\<lambda>t. input_back junk t \<noteq> 32" "\<lambda>c. c \<noteq> 32" junk] cooked_back by fastforce
    show ?thesis using t1(1) t2 update_ready_cooked [OF t2(2)] 3 n cc unfolding e
      by (simp add: emit_canonical_def Let_def edit_char_def)
  next
    case 4
    obtain t1 where "emit_plain t c = Inr t1" "cooked t1 (buf @ [c]) 0 False" by (rule emit_plain_ok [OF t])
    then show ?thesis using 4 n cc unfolding e by (simp add: emit_canonical_def Let_def edit_char_def)
  qed
qed

lemma edit_char_set: "set (edit_char buf c) \<subseteq> insert c (set buf)"
  by (auto simp: edit_char_def dest!: in_set_butlastD set_dropWhile_in)

lemma edit_char_length: "length (edit_char buf c) \<le> Suc (length buf)"
proof -
  have "length (dropWhile (\<lambda>c. c \<noteq> 32) (dropWhile (\<lambda>c. c = 32) (rev buf))) \<le> length (rev buf)"
    by (meson length_dropWhile_le order_trans)
  then show ?thesis by (auto simp: edit_char_def)
qed

lemma type_line:
  assumes "cooked t buf 0 False" "length buf + length cs \<le> 1024" "\<forall>c \<in> set buf. line_byte c" "\<forall>c \<in> set cs. line_byte c"
  shows "\<exists>t1. tty_type junk t cs = Inr t1 \<and> cooked t1 (foldl edit_char buf cs) 0 False \<and>
    (\<forall>c \<in> set (foldl edit_char buf cs). line_byte c) \<and> length (foldl edit_char buf cs) \<le> length buf + length cs"
  using assms
proof (induction cs arbitrary: t buf)
  case (Cons c cs)
  obtain t1 where t1: "tty_emit junk t c = Inr t1" "cooked t1 (edit_char buf c) 0 False"
    using emit_edit [OF Cons.prems(1) _ Cons.prems(3), of c junk] Cons.prems(2,4) by auto
  have 2: "length (edit_char buf c) + length cs \<le> 1024" "\<forall>c \<in> set (edit_char buf c). line_byte c" "\<forall>c \<in> set cs. line_byte c"
    using edit_char_length [of buf c] edit_char_set [of buf c] Cons.prems by auto
  from Cons.IH [OF t1(2) 2] show ?case
    using t1(1) edit_char_length [of buf c] by (auto simp: tty_type_def)
qed (simp add: tty_type_def)

lemma read_line:
  assumes "cooked t (xs @ [c]) n r" "\<forall>c \<in> set xs. c \<noteq> 0 \<and> c \<noteq> 10" "c = 10 \<or> c = 0" "length xs < k"
  shows "\<exists>t1. read_canonical k t acc = Inr (acc @ xs @ [c], t1) \<and> cooked t1 [] (n - 1) r"
  using assms
proof (induction xs arbitrary: t k acc)
  case Nil
  obtain j where k: "k = Suc j" using Nil.prems(4) by (cases k) auto
  have "ring_wf (input_buffer t)" "ring_list (input_buffer t) = c # []" using Nil.prems(1) by (simp_all add: cooked_def)
  from cq_pop_front_Cons [OF this] obtain q where q: "cq_pop_front (input_buffer t) = Inr (c, q)" "ring_wf q" "ring_list q = []"
    "rcapacity q = rcapacity (input_buffer t)" by blast
  have "cooked (t\<lparr>input_buffer := q\<rparr>) [] n r" using q Nil.prems(1) by (simp add: cooked_def)
  then show ?case using q(1) k Nil.prems(3) cooked_cc(9) [of "t\<lparr>input_buffer := q\<rparr>" "[]" n r c]
    by (auto simp: cooked_def Let_def)
next
  case (Cons x xs)
  obtain j where k: "k = Suc j" using Cons.prems(4) by (cases k) auto
  have "ring_wf (input_buffer t)" "ring_list (input_buffer t) = x # (xs @ [c])" using Cons.prems(1) by (simp_all add: cooked_def)
  from cq_pop_front_Cons [OF this] obtain q where q: "cq_pop_front (input_buffer t) = Inr (x, q)" "ring_wf q" "ring_list q = xs @ [c]"
    "rcapacity q = rcapacity (input_buffer t)" by blast
  have t1: "cooked (t\<lparr>input_buffer := q\<rparr>) (xs @ [c]) n r" using q Cons.prems(1) by (simp add: cooked_def)
  have "\<exists>t2. read_canonical j (t\<lparr>input_buffer := q\<rparr>) (acc @ [x]) = Inr ((acc @ [x]) @ xs @ [c], t2) \<and> cooked t2 [] (n - 1) r"
    by (rule Cons.IH [OF t1]) (use Cons.prems k in auto)
  then show ?case using q(1) k Cons.prems(2) cooked_cc(9) [OF t1, of x] by (auto simp: Let_def)
qed

lemma tty_read_line:
  assumes t: "cooked t (xs @ [c]) 1 True" "\<forall>c \<in> set xs. c \<noteq> 0 \<and> c \<noteq> 10" "c = 10 \<or> c = 0" "length xs < count"
  shows "\<exists>t1. tty_read t count = Inr (xs @ [c], t1) \<and> cooked t1 [] 0 False"
proof -
  have "\<exists>t1. read_canonical (min count (rsize (input_buffer t))) t [] = Inr ([] @ xs @ [c], t1) \<and> cooked t1 [] (1 - 1) True"
    by (rule read_line [OF t(1-3)]) (use t(4) cooked_size [OF t(1)] in simp)
  then obtain t1 where t1: "read_canonical (min count (rsize (input_buffer t))) t [] = Inr (xs @ [c], t1)" "cooked t1 [] 0 True"
    by auto
  have "buffer_ready t" using t(1) by (simp add: cooked_def)
  then show ?thesis using t1(1) update_ready_cooked [OF t1(2)] cooked_flags(2) [OF t(1)] by (simp add: tty_read_def Let_def)
qed

text \<open>
  C22. A line typed at a new terminal, with any use of the characters that take back a character, a word
  or the line, and ended by a newline, is what the next read returns, edited and with its newline; the
  terminal is then as before, with nothing to read. (Lines up to 1023 bytes.)
\<close>

theorem tty_line_read:
  assumes "\<forall>c \<in> set cs. line_byte c" "length cs < 1024" "1024 \<le> count"
  shows "\<exists>t1 t2. tty_type junk tty_new (cs @ [10]) = Inr t1 \<and> can_read t1 \<and>
    tty_read t1 count = Inr (edit_line cs @ [10], t2) \<and> \<not> can_read t2 \<and> tty_read t2 count = Inl Diverges"
proof -
  obtain t where t: "tty_type junk tty_new cs = Inr t" "cooked t (edit_line cs) 0 False"
    "\<forall>c \<in> set (edit_line cs). line_byte c" "length (edit_line cs) \<le> length cs"
    using type_line [OF cooked_new, of cs junk] assms(1,2) by (auto simp: edit_line_def)
  note c0 = cooked_line [OF t(2)]
  obtain t1 where t1: "emit_plain (t\<lparr>tty_lines := tty_lines t + 1, buffer_ready := True\<rparr>) 10 = Inr t1"
    "cooked t1 (edit_line cs @ [10]) (0 + 1) True" by (rule emit_plain_ok [OF c0]) (use t(4) assms(2) in auto)
  have "tty_emit junk t 10 = Inr t1"
    using t1(1) emit_cooked [OF t(2), of 10 junk] cooked_cc [OF t(2)] by (simp add: emit_canonical_def Let_def)
  then have ty: "tty_type junk tty_new (cs @ [10]) = Inr t1" using t(1) by (simp add: tty_type_def rfold_append)
  have "\<exists>t2. tty_read t1 count = Inr (edit_line cs @ [10], t2) \<and> cooked t2 [] 0 False"
    by (rule tty_read_line) (use t1(2) t(3,4) assms(2,3) in \<open>auto simp: line_byte_def\<close>)
  then obtain t2 where t2: "tty_read t1 count = Inr (edit_line cs @ [10], t2)" "cooked t2 [] 0 False" by blast
  have "can_read t1" "\<not> can_read t2" "tty_read t2 count = Inl Diverges"
    using t1(2) t2(2) cooked_flags(2) [OF t1(2)] cooked_flags(2) [OF t2(2)] by (auto simp: can_read_def cooked_def tty_read_def)
  then show ?thesis using ty t2(1) by blast
qed

theorem tty_line_read_witness:
  "\<exists>t1 t2. tty_type 0 tty_new ([104, 105, 32, 120, 23, 8, 33] @ [10]) = Inr t1 \<and> can_read t1 \<and>
    tty_read t1 1024 = Inr ([104, 105, 33, 10], t2) \<and> \<not> can_read t2 \<and> tty_read t2 1024 = Inl Diverges"
proof -
  have "edit_line [104, 105, 32, 120, 23, 8, 33] = [104, 105, 33]" by (simp add: edit_line_def edit_char_def)
  then show ?thesis using tty_line_read [of "[104, 105, 32, 120, 23, 8, 33]" 1024 0] by (simp add: line_byte_def)
qed

text \<open>
  C32. The end-of-file character does not end the file: \<open>VEOL\<close> of a new terminal is 0, the byte that
  stands for the end of file in the buffer, so the read returns the line with a zero byte, and one
  zero byte for an empty line, where a read of length 0 would say end of file.
\<close>

theorem tty_eof_reads_zero:
  assumes "\<forall>c \<in> set cs. line_byte c" "length cs < 1024" "1024 \<le> count"
  shows "\<exists>t1 t2. tty_type junk tty_new (cs @ [4]) = Inr t1 \<and> tty_read t1 count = Inr (edit_line cs @ [0], t2)"
proof -
  obtain t where t: "tty_type junk tty_new cs = Inr t" "cooked t (edit_line cs) 0 False"
    "\<forall>c \<in> set (edit_line cs). line_byte c" "length (edit_line cs) \<le> length cs"
    using type_line [OF cooked_new, of cs junk] assms(1,2) by (auto simp: edit_line_def)
  obtain t1 where t1: "push_input t 0 = Inr t1" "cooked t1 (edit_line cs @ [0]) 0 False"
    by (rule push_input_ok [OF t(2)]) (use t(4) assms(2) in auto)
  let ?t = "t1\<lparr>tty_lines := tty_lines t1 + 1, buffer_ready := True\<rparr>"
  have "tty_emit junk t 4 = Inr ?t"
    using t1(1) emit_cooked [OF t(2), of 4 junk] cooked_cc [OF t(2)] by (simp add: emit_canonical_def)
  then have ty: "tty_type junk tty_new (cs @ [4]) = Inr ?t" using t(1) by (simp add: tty_type_def rfold_append)
  have "\<exists>t2. tty_read ?t count = Inr (edit_line cs @ [0], t2) \<and> cooked t2 [] 0 False"
    by (rule tty_read_line) (use cooked_line [OF t1(2)] t(3,4) assms(2,3) in \<open>auto simp: line_byte_def\<close>)
  then show ?thesis using ty by blast
qed

theorem tty_eof_reads_zero_witness:
  "\<exists>t1 t2. tty_type 0 tty_new [4] = Inr t1 \<and> tty_read t1 1024 = Inr ([0], t2)"
  using tty_eof_reads_zero [of "[]" 1024 0] by (simp add: edit_line_def)


text \<open>
  A newline that is not read yet can be taken back, but stays counted: the terminal then claims to
  have a line to read while its buffer is empty, and a read returns 0 bytes.
\<close>

lemma tty_newline_erased:
  "case tty_type 0 tty_new [97, 10, 8, 8] of
     Inl e \<Rightarrow> False
   | Inr t \<Rightarrow> can_read t \<and> cq_empty (input_buffer t) \<and>
       (case tty_read t 16 of Inl e \<Rightarrow> False | Inr (bs, t') \<Rightarrow> bs = [] \<and> can_read t')"
  by code_simp

end
