(* ===== verification/Geometry.thy ===== *)
theory Geometry
  imports Prelude "HOL-Library.Signed_Division"
begin

text \<open>
  Points, dimensions and rectangles with integer coordinates
  (\<open>src/libraries/libgraphics/Geometry.h\<close>, \<open>GenericPoint<int>\<close>, \<open>GenericDimensions<int>\<close>,
  \<open>GenericRect<int>\<close>). Coordinates are integers without a bound: screen coordinates stay far
  from the limits of \<open>int\<close>. Division is the one of the language, towards zero. The functions that
  compute with floating point (\<open>distance_to\<close>, \<open>scaled\<close>) are left out.
\<close>

record point =
  px :: int
  py :: int

record dims =
  dwidth :: int
  dheight :: int

record rect =
  rx :: int
  ry :: int
  rwidth :: int
  rheight :: int

abbreviation mk_rect :: "int \<Rightarrow> int \<Rightarrow> int \<Rightarrow> int \<Rightarrow> rect" where
  "mk_rect x y w h \<equiv> \<lparr>rx = x, ry = y, rwidth = w, rheight = h\<rparr>"

abbreviation mk_point :: "int \<Rightarrow> int \<Rightarrow> point" where
  "mk_point x y \<equiv> \<lparr>px = x, py = y\<rparr>"

section \<open>Points\<close>

definition point_in :: "point \<Rightarrow> rect \<Rightarrow> bool" where
  "point_in p r \<longleftrightarrow> px p \<ge> rx r \<and> px p \<le> rx r + rwidth r \<and> py p \<ge> ry r \<and> py p \<le> ry r + rheight r"

definition near_border :: "point \<Rightarrow> rect \<Rightarrow> int \<Rightarrow> bool" where
  "near_border p r b \<longleftrightarrow>
     point_in p (mk_rect (rx r - b) (ry r - b) (rwidth r + b * 2) (rheight r + b * 2)) \<and>
     \<not> point_in p (mk_rect (rx r + b) (ry r + b) (rwidth r - b * 2) (rheight r - b * 2))"

definition point_constrain :: "point \<Rightarrow> rect \<Rightarrow> point" where
  "point_constrain p r =
     (let x = px p; y = py p;
          x = (if x < rx r then rx r else x);
          x = (if x \<ge> rx r + rwidth r then rx r + rwidth r - (if rwidth r \<noteq> 0 then 1 else 0) else x);
          y = (if y < ry r then ry r else y);
          y = (if y \<ge> ry r + rheight r \<and> rheight r \<noteq> 0 then ry r + rheight r - (if rheight r \<noteq> 0 then 1 else 0) else y)
      in mk_point x y)"

definition point_add :: "point \<Rightarrow> point \<Rightarrow> point" where
  "point_add p q = mk_point (px p + px q) (py p + py q)"

definition point_sub :: "point \<Rightarrow> point \<Rightarrow> point" where
  "point_sub p q = mk_point (px p - px q) (py p - py q)"

definition point_mul :: "point \<Rightarrow> int \<Rightarrow> point" where
  "point_mul p k = mk_point (px p * k) (py p * k)"

definition point_div :: "point \<Rightarrow> int \<Rightarrow> point result" where
  "point_div p k = (if k = 0 then Inl Undefined else Inr (mk_point (px p sdiv k) (py p sdiv k)))"

definition point_eq :: "point \<Rightarrow> point \<Rightarrow> bool" where
  "point_eq p q \<longleftrightarrow> px q = px p \<and> py q = py p"

section \<open>Dimensions\<close>

definition dims_add :: "dims \<Rightarrow> dims \<Rightarrow> dims" where
  "dims_add d e = \<lparr>dwidth = dwidth d + dwidth e, dheight = dheight d + dheight e\<rparr>"

definition dims_sub :: "dims \<Rightarrow> dims \<Rightarrow> dims" where
  "dims_sub d e = \<lparr>dwidth = dwidth d - dwidth e, dheight = dheight d - dheight e\<rparr>"

definition dims_mul :: "dims \<Rightarrow> int \<Rightarrow> dims" where
  "dims_mul d k = \<lparr>dwidth = dwidth d * k, dheight = dheight d * k\<rparr>"

definition dims_div :: "dims \<Rightarrow> int \<Rightarrow> dims result" where
  "dims_div d k = (if k = 0 then Inl Undefined else Inr \<lparr>dwidth = dwidth d sdiv k, dheight = dheight d sdiv k\<rparr>)"

definition dims_eq :: "dims \<Rightarrow> dims \<Rightarrow> bool" where
  "dims_eq d e \<longleftrightarrow> dheight d = dheight e \<and> dwidth d = dwidth e"

section \<open>Rectangles\<close>

definition rect_position :: "rect \<Rightarrow> point" where
  "rect_position r = mk_point (rx r) (ry r)"

definition rect_set_position :: "rect \<Rightarrow> point \<Rightarrow> rect" where
  "rect_set_position r p = r\<lparr>rx := px p, ry := py p\<rparr>"

definition rect_dimensions :: "rect \<Rightarrow> dims" where
  "rect_dimensions r = \<lparr>dwidth = rwidth r, dheight = rheight r\<rparr>"

definition rect_set_dimensions :: "rect \<Rightarrow> dims \<Rightarrow> rect" where
  "rect_set_dimensions r d = r\<lparr>rwidth := dwidth d, rheight := dheight d\<rparr>"

definition collides :: "rect \<Rightarrow> rect \<Rightarrow> bool" where
  "collides r s \<longleftrightarrow> rx r < rx s + rwidth s \<and> rx r + rwidth r > rx s \<and> ry r < ry s + rheight s \<and> ry r + rheight r > ry s"

definition inside :: "rect \<Rightarrow> rect \<Rightarrow> bool" where
  "inside r s \<longleftrightarrow> rx r \<ge> rx s \<and> ry r \<ge> ry s \<and> rx r + rwidth r \<le> rx s + rwidth s \<and> ry r + rheight r \<le> ry s + rheight s"

definition rect_contains :: "rect \<Rightarrow> rect \<Rightarrow> bool" where
  "rect_contains r s \<longleftrightarrow> inside s r"

definition area :: "rect \<Rightarrow> int" where
  "area r = rwidth r * rheight r"

definition transform :: "rect \<Rightarrow> point \<Rightarrow> rect" where
  "transform r p = mk_rect (rx r + px p) (ry r + py p) (rwidth r) (rheight r)"

definition constrain_relative :: "rect \<Rightarrow> rect \<Rightarrow> rect" where
  "constrain_relative r s =
     (let x = rx r; y = ry r; w = rwidth r; h = rheight r;
          w = (if w > rwidth s then rwidth s else w);
          h = (if h > rheight s then rheight s else h);
          x = (if x < 0 then 0 else x);
          y = (if y < 0 then 0 else y);
          x = (if x + w \<ge> rwidth s then rwidth s - w else x);
          y = (if y + h \<ge> rheight s then rheight s - h else y)
      in mk_rect x y w h)"

definition rect_constrain :: "rect \<Rightarrow> rect \<Rightarrow> rect" where
  "rect_constrain r s =
     (let x = rx r; y = ry r; w = rwidth r; h = rheight r;
          w = (if w > rwidth s then rwidth s else w);
          h = (if h > rheight s then rheight s else h);
          x = (if x < rx s then rx s else x);
          y = (if y < ry s then ry s else y);
          x = (if x + w \<ge> rx s + rwidth s then rx s + rwidth s - w else x);
          y = (if y + h \<ge> ry s + rheight s then ry s + rheight s - h else y)
      in mk_rect x y w h)"

definition overlapping_area :: "rect \<Rightarrow> rect \<Rightarrow> rect" where
  "overlapping_area r s =
     (if \<not> collides r s then mk_rect (rx r) (ry r) 0 0
      else
        let x = max (rx r) (rx s); y = max (ry r) (ry s); w = rwidth r; h = rheight r;
            w = (if x + w > rx r + rwidth r then rx r + rwidth r - x else w);
            w = (if x + w > rx s + rwidth s then rx s + rwidth s - x else w);
            h = (if y + h > ry r + rheight r then ry r + rheight r - y else h);
            h = (if y + h > ry s + rheight s then ry s + rheight s - y else h)
        in mk_rect x y w h)"

definition combine :: "rect \<Rightarrow> rect \<Rightarrow> rect" where
  "combine r s =
     (let tx = min (rx r) (rx s); ty = min (ry r) (ry s);
          bx = max (rx r + rwidth r) (rx s + rwidth s); by' = max (ry r + rheight r) (ry s + rheight s)
      in mk_rect tx ty (bx - tx) (by' - ty))"

definition inset :: "rect \<Rightarrow> int \<Rightarrow> int \<Rightarrow> int \<Rightarrow> int \<Rightarrow> rect" where
  "inset r top' right' bottom' left' =
     (if top' + bottom' > rheight r \<or> right' + left' > rwidth r then mk_rect 0 0 0 0
      else mk_rect (rx r + left') (ry r + top') (rwidth r - left' - right') (rheight r - top' - bottom'))"

definition inset_all :: "rect \<Rightarrow> int \<Rightarrow> rect" where
  "inset_all r amount = inset r amount amount amount amount"

definition rect_empty :: "rect \<Rightarrow> bool" where
  "rect_empty r \<longleftrightarrow> rwidth r = 0 \<and> rheight r = 0"

definition center :: "rect \<Rightarrow> point" where
  "center r = mk_point (rx r + rwidth r sdiv 2) (ry r + rheight r sdiv 2)"

definition centered_on :: "rect \<Rightarrow> point \<Rightarrow> rect" where
  "centered_on r p = mk_rect (px p - rwidth r sdiv 2) (py p - rheight r sdiv 2) (rwidth r) (rheight r)"

section \<open>Rectangles as sets of pixels\<close>

definition pixels :: "rect \<Rightarrow> (int \<times> int) set" where
  "pixels r = {(x, y). rx r \<le> x \<and> x < rx r + rwidth r \<and> ry r \<le> y \<and> y < ry r + rheight r}"

lemma pixels_nonempty: "pixels r \<noteq> {} \<longleftrightarrow> 0 < rwidth r \<and> 0 < rheight r"
proof
  assume "0 < rwidth r \<and> 0 < rheight r"
  then have "(rx r, ry r) \<in> pixels r" by (simp add: pixels_def)
  then show "pixels r \<noteq> {}" by blast
qed (auto simp: pixels_def)

lemma pixels_overlap: "pixels (overlapping_area r s) = pixels r \<inter> pixels s"
  by (auto simp: pixels_def overlapping_area_def collides_def Let_def split: if_splits)

lemma pixels_subset_iff:
  assumes "0 < rwidth r" "0 < rheight r"
  shows "pixels r \<subseteq> pixels s \<longleftrightarrow> inside r s"
proof
  assume sub: "pixels r \<subseteq> pixels s"
  have "(rx r, ry r) \<in> pixels r" "(rx r + rwidth r - 1, ry r + rheight r - 1) \<in> pixels r"
    using assms by (auto simp: pixels_def)
  then have "(rx r, ry r) \<in> pixels s" "(rx r + rwidth r - 1, ry r + rheight r - 1) \<in> pixels s" using sub by blast+
  then show "inside r s" by (auto simp: pixels_def inside_def)
qed (auto simp: pixels_def inside_def)

lemma inside_pixels: "inside r s \<Longrightarrow> pixels r \<subseteq> pixels s"
  by (auto simp: pixels_def inside_def)

lemma collides_iff:
  assumes "0 < rwidth r" "0 < rheight r" "0 < rwidth s" "0 < rheight s"
  shows "collides r s \<longleftrightarrow> pixels r \<inter> pixels s \<noteq> {}"
  unfolding pixels_overlap [symmetric] pixels_nonempty using assms
  by (auto simp: overlapping_area_def collides_def Let_def max_def)

lemma combine_inside: "inside r (combine r s)" "inside s (combine r s)"
  by (auto simp: inside_def combine_def Let_def)

lemma combine_least: "inside r t \<Longrightarrow> inside s t \<Longrightarrow> inside (combine r s) t"
  by (auto simp: inside_def combine_def Let_def)

lemma overlap_inside:
  "collides r s \<Longrightarrow> inside (overlapping_area r s) r"
  "collides r s \<Longrightarrow> inside (overlapping_area r s) s"
  by (auto simp: inside_def overlapping_area_def collides_def Let_def)

text \<open>
  C33. The rectangles of libgraphics form the lattice of pixel areas: for rectangles that have pixels,
  \<open>collides\<close> says whether they share one, \<open>inside\<close> whether one's pixels are all the other's,
  \<open>overlapping_area\<close> has exactly the common pixels, and \<open>combine\<close> is the smallest rectangle that has
  the pixels of both.
\<close>

theorem rect_lattice:
  assumes "0 < rwidth r" "0 < rheight r" "0 < rwidth s" "0 < rheight s"
  shows "(collides r s \<longleftrightarrow> pixels r \<inter> pixels s \<noteq> {}) \<and>
    (inside r s \<longleftrightarrow> pixels r \<subseteq> pixels s) \<and>
    pixels (overlapping_area r s) = pixels r \<inter> pixels s \<and>
    pixels r \<union> pixels s \<subseteq> pixels (combine r s) \<and>
    (\<forall>t. pixels r \<union> pixels s \<subseteq> pixels t \<longrightarrow> pixels (combine r s) \<subseteq> pixels t)"
proof (intro conjI allI impI)
  show "collides r s \<longleftrightarrow> pixels r \<inter> pixels s \<noteq> {}" by (rule collides_iff [OF assms])
  show "inside r s \<longleftrightarrow> pixels r \<subseteq> pixels s" using pixels_subset_iff [OF assms(1,2)] by simp
  show "pixels (overlapping_area r s) = pixels r \<inter> pixels s" by (rule pixels_overlap)
  show "pixels r \<union> pixels s \<subseteq> pixels (combine r s)"
    using inside_pixels [OF combine_inside(1) [of r s]] inside_pixels [OF combine_inside(2) [of s r]] by blast
  fix t
  assume sub: "pixels r \<union> pixels s \<subseteq> pixels t"
  have "inside (combine r s) t"
    using sub pixels_subset_iff [OF assms(1,2), of t] pixels_subset_iff [OF assms(3,4), of t] by (intro combine_least) auto
  then show "pixels (combine r s) \<subseteq> pixels t" by (rule inside_pixels)
qed

theorem rect_lattice_witness:
  "collides (mk_rect 0 0 4 4) (mk_rect 2 1 4 2) \<and>
   pixels (overlapping_area (mk_rect 0 0 4 4) (mk_rect 2 1 4 2)) = pixels (mk_rect 0 0 4 4) \<inter> pixels (mk_rect 2 1 4 2) \<and>
   combine (mk_rect 0 0 4 4) (mk_rect 2 1 4 2) = mk_rect 0 0 6 4 \<and>
   pixels (mk_rect 0 0 4 4) \<union> pixels (mk_rect 2 1 4 2) \<subseteq> pixels (mk_rect 0 0 6 4)"
  using rect_lattice [of "mk_rect 0 0 4 4" "mk_rect 2 1 4 2"]
  by (simp add: collides_def combine_def Let_def)

text \<open>
  C34. \<open>constrain\<close> keeps a window on its display: the result lies inside the other rectangle,
  is as large as the first where that fits, and the first itself if it lies inside already.
\<close>

theorem constrain_inside:
  assumes "0 \<le> rwidth r" "0 \<le> rheight r" "0 \<le> rwidth s" "0 \<le> rheight s"
  shows "inside (rect_constrain r s) s \<and> rwidth (rect_constrain r s) = min (rwidth r) (rwidth s) \<and>
    rheight (rect_constrain r s) = min (rheight r) (rheight s) \<and> (inside r s \<longrightarrow> rect_constrain r s = r)"
  using assms by (auto simp: inside_def rect_constrain_def Let_def)

theorem constrain_inside_witness:
  "inside (rect_constrain (mk_rect (- 5) 90 30 20) (mk_rect 0 0 100 100)) (mk_rect 0 0 100 100) \<and>
   rect_constrain (mk_rect (- 5) 90 30 20) (mk_rect 0 0 100 100) = mk_rect 0 80 30 20"
  using constrain_inside [of "mk_rect (- 5) 90 30 20" "mk_rect 0 0 100 100"] by (simp add: rect_constrain_def Let_def)

text \<open>
  \<open>empty\<close> is documented as "an area of zero", but asks for both dimensions to be zero.
\<close>

lemma rect_empty_not_area: "area (mk_rect 0 0 0 5) = 0 \<and> \<not> rect_empty (mk_rect 0 0 0 5)"
  by (simp add: area_def rect_empty_def)

text \<open>A point on the right or lower edge is \<open>in\<close> a rectangle, though no pixel of it is there.\<close>

lemma point_in_edge: "point_in (mk_point 4 0) (mk_rect 0 0 4 4) \<and> (4, 0) \<notin> pixels (mk_rect 0 0 4 4)"
  by (simp add: point_in_def pixels_def)

end
