(* ===== verification/Framebuffer.thy ===== *)
theory Framebuffer
  imports Geometry WordBits
begin

text \<open>
  Colours and drawing (\<open>src/libraries/libgraphics/Color.h\<close>, \<open>Framebuffer.cpp\<close>, the glyph lookup
  of \<open>Font.cpp\<close>). A framebuffer is its array of colours with its dimensions; reading or
  writing outside the array is \<^const>\<open>Undefined\<close>. The source of a copy is another array than
  the destination. The functions that scale or mix colours in floating point
  (\<open>draw_image_scaled\<close>, \<open>fill_gradient_h\<close>, \<open>fill_gradient_v\<close>) are left out.
\<close>

unbundle bit_operations_syntax

section \<open>Colours\<close>

text \<open>The union \<open>Color\<close>: the 32-bit value and its four bytes.\<close>

type_synonym color = "32 word"

definition color_b :: "color \<Rightarrow> 8 word" where "color_b c = ucast c"
definition color_g :: "color \<Rightarrow> 8 word" where "color_g c = ucast (drop_bit 8 c)"
definition color_r :: "color \<Rightarrow> 8 word" where "color_r c = ucast (drop_bit 16 c)"
definition color_a :: "color \<Rightarrow> 8 word" where "color_a c = ucast (drop_bit 24 c)"

definition RGBA :: "8 word \<Rightarrow> 8 word \<Rightarrow> 8 word \<Rightarrow> 8 word \<Rightarrow> color" where
  "RGBA r g b a = ucast b OR push_bit 8 (ucast g) OR push_bit 16 (ucast r) OR push_bit 24 (ucast a)"

text \<open>One channel: \<open>(uint8_t) ((alpha * o + inv_alpha * t) >> 8)\<close> with \<open>alpha = a + 1\<close>, \<open>inv_alpha = 256 - a\<close>.\<close>

definition blend_channel :: "8 word \<Rightarrow> 8 word \<Rightarrow> 8 word \<Rightarrow> 8 word" where
  "blend_channel a o' t = word_of_nat (((unat a + 1) * unat o' + (256 - unat a) * unat t) div 256)"

definition blended :: "color \<Rightarrow> color \<Rightarrow> color" where
  "blended this other =
     (if other = 0 \<or> color_a other = 0 then this
      else if color_a other = 255 then other
      else let a = color_a other in
        RGBA (blend_channel a (color_r other) (color_r this)) (blend_channel a (color_g other) (color_g this))
             (blend_channel a (color_b other) (color_b this)) (blend_channel a (color_a other) (color_a this)))"

definition mul_channel :: "8 word \<Rightarrow> 8 word \<Rightarrow> 8 word" where
  "mul_channel x y = word_of_nat ((unat x * unat y + 255) div 256)"

definition color_mul :: "color \<Rightarrow> color \<Rightarrow> color" where
  "color_mul this other =
     RGBA (mul_channel (color_r this) (color_r other)) (mul_channel (color_g this) (color_g other))
          (mul_channel (color_b this) (color_b other)) (mul_channel (color_a this) (color_a other))"

definition inverted :: "color \<Rightarrow> color" where
  "inverted c = RGBA (255 - color_r c) (255 - color_g c) (255 - color_b c) (color_a c)"

section \<open>Framebuffers\<close>

record framebuffer =
  fb_null :: bool
  fb_data :: "color list"
  fb_width :: int
  fb_height :: int

definition data_get :: "'a list \<Rightarrow> int \<Rightarrow> 'a result" where
  "data_get d i = (if 0 \<le> i \<and> i < int (length d) then Inr (d ! nat i) else Inl Undefined)"

definition data_put :: "'a list \<Rightarrow> int \<Rightarrow> 'a \<Rightarrow> 'a list result" where
  "data_put d i v = (if 0 \<le> i \<and> i < int (length d) then Inr (d[nat i := v]) else Inl Undefined)"

text \<open>\<open>memcpy_uint32\<close> between two arrays; a negative count becomes a huge one.\<close>

definition memcpy_uint32 :: "'a list \<Rightarrow> int \<Rightarrow> 'a list \<Rightarrow> int \<Rightarrow> int \<Rightarrow> 'a list result" where
  "memcpy_uint32 d di s si n =
     (if n = 0 then Inr d
      else if 0 < n \<and> 0 \<le> di \<and> di + n \<le> int (length d) \<and> 0 \<le> si \<and> si + n \<le> int (length s)
      then Inr (take (nat di) d @ take (nat n) (drop (nat si) s) @ drop (nat (di + n)) d)
      else Inl Undefined)"

text \<open>\<open>for(y < h) for(x < w)\<close>.\<close>

definition for_area :: "rect \<Rightarrow> (int \<Rightarrow> int \<Rightarrow> 'a list \<Rightarrow> 'a list result) \<Rightarrow> 'a list \<Rightarrow> 'a list result" where
  "for_area r f d =
     rfold (\<lambda>y d. rfold (\<lambda>x d. f (int x) (int y) d) [0..<nat (rwidth r)] d) [0..<nat (rheight r)] d"

definition fb_bounds :: "framebuffer \<Rightarrow> rect" where
  "fb_bounds fb = mk_rect 0 0 (fb_width fb) (fb_height fb)"

text \<open>The area of the destination that is drawn, and the source area shifted with it.\<close>

definition self_area :: "framebuffer \<Rightarrow> rect \<Rightarrow> point \<Rightarrow> rect" where
  "self_area fb other_area p = overlapping_area (mk_rect (px p) (py p) (rwidth other_area) (rheight other_area)) (fb_bounds fb)"

definition shifted_area :: "rect \<Rightarrow> rect \<Rightarrow> point \<Rightarrow> rect" where
  "shifted_area other_area self p =
     mk_rect (rx other_area + (rx self - px p)) (ry other_area + (ry self - py p)) (rwidth self) (rheight self)"

definition on_data :: "framebuffer \<Rightarrow> (color list \<Rightarrow> color list result) \<Rightarrow> framebuffer result" where
  "on_data fb f = rbind (f (fb_data fb)) (\<lambda>d. Inr (fb\<lparr>fb_data := d\<rparr>))"

definition at_index :: "framebuffer \<Rightarrow> rect \<Rightarrow> int \<Rightarrow> int \<Rightarrow> int" where
  "at_index fb s x y = (rx s + x) + (ry s + y) * fb_width fb"

definition modify :: "'a list \<Rightarrow> int \<Rightarrow> ('a \<Rightarrow> 'a) \<Rightarrow> 'a list result" where
  "modify d i f = rbind (data_get d i) (\<lambda>v. data_put d i (f v))"

definition fb_copy :: "framebuffer \<Rightarrow> framebuffer \<Rightarrow> rect \<Rightarrow> point \<Rightarrow> framebuffer result" where
  "fb_copy fb other oa p =
     (let s = self_area fb oa p; o2 = shifted_area oa s p in
      if rect_empty s then Inr fb
      else on_data fb (rfold (\<lambda>y d. memcpy_uint32 d (at_index fb s 0 (int y)) (fb_data other) (at_index other o2 0 (int y)) (rwidth s))
             [0..<nat (rheight s)]))"

definition fb_copy_noalpha :: "framebuffer \<Rightarrow> framebuffer \<Rightarrow> rect \<Rightarrow> point \<Rightarrow> framebuffer result" where
  "fb_copy_noalpha fb other oa p =
     (let s = self_area fb oa p; o2 = shifted_area oa s p in
      if rect_empty s then Inr fb
      else on_data fb (for_area s (\<lambda>x y d. rbind (data_get (fb_data other) (at_index other o2 x y)) (\<lambda>v.
             data_put d (at_index fb s x y) (RGBA 0 0 0 255 OR v)))))"

definition fb_copy_blitting :: "framebuffer \<Rightarrow> framebuffer \<Rightarrow> rect \<Rightarrow> point \<Rightarrow> framebuffer result" where
  "fb_copy_blitting fb other oa p =
     (let s = self_area fb oa p; o2 = shifted_area oa s p in
      if rect_empty s then Inr fb
      else on_data fb (for_area s (\<lambda>x y d. rbind (data_get (fb_data other) (at_index other o2 x y)) (\<lambda>v.
             modify d (at_index fb s x y) (\<lambda>this. blended this v)))))"

definition fb_copy_blitting_flipped :: "framebuffer \<Rightarrow> framebuffer \<Rightarrow> rect \<Rightarrow> point \<Rightarrow> bool \<Rightarrow> bool \<Rightarrow> framebuffer result" where
  "fb_copy_blitting_flipped fb other oa p flip_h flip_v =
     (let s = self_area fb oa p; o2 = shifted_area oa s p in
      if rect_empty s then Inr fb
      else on_data fb (for_area s (\<lambda>x y d.
             rbind (data_get (fb_data other)
                      (at_index other o2 (if flip_h then rwidth o2 - x - 1 else x) (if flip_v then rheight o2 - y - 1 else y))) (\<lambda>v.
             modify d (at_index fb s x y) (\<lambda>this. blended this v)))))"

definition fb_copy_tiled :: "framebuffer \<Rightarrow> framebuffer \<Rightarrow> rect \<Rightarrow> point \<Rightarrow> framebuffer result" where
  "fb_copy_tiled fb other oa p =
     (let s = self_area fb oa p; o2 = shifted_area oa s p in
      if rect_empty s then Inr fb
      else on_data fb (for_area s (\<lambda>x y d.
             if fb_width other = 0 \<or> fb_height other = 0 then Inl Undefined
             else rbind (data_get (fb_data other)
                    (((rx o2 + x) smod fb_width other + ((ry o2 + y) smod fb_height other) * fb_width other) smod
                       (fb_width other * fb_height other))) (\<lambda>v.
             data_put d (at_index fb s x y) v))))"

definition draw_image :: "framebuffer \<Rightarrow> framebuffer \<Rightarrow> rect \<Rightarrow> point \<Rightarrow> framebuffer result" where
  "draw_image fb other oa p =
     (let s = self_area fb oa p; o2 = shifted_area oa s p in
      if rect_empty s then Inr fb
      else on_data fb (for_area s (\<lambda>x y d. rbind (data_get (fb_data other) (at_index other o2 x y)) (\<lambda>v.
             modify d (at_index fb s x y) (\<lambda>this. blended this v)))))"

definition draw_whole_image :: "framebuffer \<Rightarrow> framebuffer \<Rightarrow> point \<Rightarrow> framebuffer result" where
  "draw_whole_image fb other p = draw_image fb other (mk_rect 0 0 (fb_width other) (fb_height other)) p"

definition fill :: "framebuffer \<Rightarrow> rect \<Rightarrow> color \<Rightarrow> framebuffer result" where
  "fill fb r c =
     (let s = overlapping_area r (fb_bounds fb) in
      if rect_empty s then Inr fb
      else on_data fb (for_area s (\<lambda>x y d. data_put d (at_index fb s x y) c)))"

definition fill_blitting :: "framebuffer \<Rightarrow> rect \<Rightarrow> color \<Rightarrow> framebuffer result" where
  "fill_blitting fb r c =
     (let s = overlapping_area r (fb_bounds fb); a = color_a c in
      if rect_empty s then Inr fb
      else on_data fb (for_area s (\<lambda>x y d. modify d (at_index fb s x y) (\<lambda>this.
             RGBA (blend_channel a (color_r c) (color_r this)) (blend_channel a (color_g c) (color_g this))
                  (blend_channel a (color_b c) (color_b this)) (blend_channel a (color_a c) (color_a this))))))"

definition invert :: "framebuffer \<Rightarrow> rect \<Rightarrow> framebuffer result" where
  "invert fb r =
     (let s = overlapping_area r (fb_bounds fb) in
      if rect_empty s then Inr fb
      else on_data fb (for_area s (\<lambda>x y d. modify d (at_index fb s x y) inverted)))"

text \<open>\<open>for(x = y % 2; x < w; x += 2)\<close> visits the \<open>x\<close> with the parity of \<open>y\<close>.\<close>

definition invert_checkered :: "framebuffer \<Rightarrow> rect \<Rightarrow> framebuffer result" where
  "invert_checkered fb r =
     (let s = overlapping_area r (fb_bounds fb) in
      if rect_empty s then Inr fb
      else on_data fb (rfold (\<lambda>y d. rfold (\<lambda>x d. modify d (at_index fb s (int x) (int y)) inverted)
             (filter (\<lambda>x. x mod 2 = y mod 2) [0..<nat (rwidth s)]) d) [0..<nat (rheight s)]))"

definition outline_rects :: "rect \<Rightarrow> rect list" where
  "outline_rects r =
     [mk_rect (rx r + 1) (ry r) (rwidth r - 2) 1, mk_rect (rx r + 1) (ry r + rheight r - 1) (rwidth r - 2) 1,
      mk_rect (rx r) (ry r) 1 (rheight r), mk_rect (rx r + rwidth r - 1) (ry r) 1 (rheight r)]"

definition outline :: "framebuffer \<Rightarrow> rect \<Rightarrow> color \<Rightarrow> framebuffer result" where
  "outline fb r c = rfold (\<lambda>r fb. fill fb r c) (outline_rects r) fb"

definition outline_blitting :: "framebuffer \<Rightarrow> rect \<Rightarrow> color \<Rightarrow> framebuffer result" where
  "outline_blitting fb r c = rfold (\<lambda>r fb. fill_blitting fb r c) (outline_rects r) fb"

definition outline_inverting :: "framebuffer \<Rightarrow> rect \<Rightarrow> framebuffer result" where
  "outline_inverting fb r = rfold (\<lambda>r fb. invert fb r) (outline_rects r) fb"

definition outline_inverting_checkered :: "framebuffer \<Rightarrow> rect \<Rightarrow> framebuffer result" where
  "outline_inverting_checkered fb r = rfold (\<lambda>r fb. invert_checkered fb r) (outline_rects r) fb"

definition multiply :: "framebuffer \<Rightarrow> color \<Rightarrow> framebuffer result" where
  "multiply fb c = on_data fb (for_area (fb_bounds fb) (\<lambda>x y d. modify d (x + y * fb_width fb) (\<lambda>v. color_mul v c)))"

definition fb_at :: "framebuffer \<Rightarrow> point \<Rightarrow> int option" where
  "fb_at fb p =
     (if px p < 0 \<or> py p < 0 \<or> py p \<ge> fb_height fb \<or> px p \<ge> fb_width fb then None
      else Some (px p + py p * fb_width fb))"

definition put :: "framebuffer \<Rightarrow> point \<Rightarrow> color \<Rightarrow> framebuffer result" where
  "put fb p c =
     (if px p \<ge> fb_width fb \<or> py p \<ge> fb_height fb \<or> px p < 0 \<or> py p < 0 then Inr fb
      else on_data fb (\<lambda>d. data_put d (px p + py p * fb_width fb) c))"

section \<open>Text\<close>

record glyph =
  g_width :: int
  g_height :: int
  g_base_x :: int
  g_base_y :: int
  next_offset :: point
  g_bitmap :: "8 word list"

record font =
  font_size :: int
  box_base_x :: int
  box_base_y :: int
  glyphs :: "(32 word \<times> glyph) list"
  unknown_glyph :: glyph

definition font_glyph :: "font \<Rightarrow> 32 word \<Rightarrow> glyph" where
  "font_glyph f cp = (case map_of (glyphs f) cp of Some g \<Rightarrow> g | None \<Rightarrow> unknown_glyph f)"

definition draw_glyph :: "framebuffer \<Rightarrow> font \<Rightarrow> 32 word \<Rightarrow> point \<Rightarrow> color \<Rightarrow> (point \<times> framebuffer) result" where
  "draw_glyph fb f cp gp c =
     (let g = font_glyph f cp;
          y_offset = (box_base_y f - g_base_y g) + (font_size f - g_height g);
          x_offset = g_base_x g - box_base_x f;
          p = mk_point (px gp + x_offset) (py gp + y_offset);
          ga = mk_rect 0 0 (g_width g) (g_height g);
          s = self_area fb ga p; g2 = shifted_area ga s p;
          next = point_add gp (next_offset g)
      in if rect_empty s then Inr (next, fb)
         else rbind (on_data fb (for_area s (\<lambda>x y d.
                rbind (data_get (g_bitmap g) ((rx g2 + x) + (ry g2 + y) * g_width g)) (\<lambda>b.
                  if b \<noteq> 0 then modify d (at_index fb s x y) (\<lambda>this. blended this c) else Inr d)))) (\<lambda>fb'. Inr (next, fb')))"

text \<open>
  The two \<open>draw_text\<close>: up to the terminator, or \<open>len\<close> characters. A \<open>char\<close> is signed, so the code
  point passed on is its sign extension.
\<close>

definition draw_chars :: "framebuffer \<Rightarrow> font \<Rightarrow> 8 word list \<Rightarrow> point \<Rightarrow> color \<Rightarrow> (point \<times> framebuffer) result" where
  "draw_chars fb f str p c = rfold (\<lambda>ch (p, fb). draw_glyph fb f (scast ch) p c) str (p, fb)"

definition draw_text :: "framebuffer \<Rightarrow> font \<Rightarrow> 8 word list \<Rightarrow> point \<Rightarrow> color \<Rightarrow> (point \<times> framebuffer) result" where
  "draw_text fb f str p c =
     (if 0 \<in> set str then draw_chars fb f (takeWhile (\<lambda>ch. ch \<noteq> 0) str) p c else Inl Undefined)"

definition draw_text_len :: "framebuffer \<Rightarrow> font \<Rightarrow> 8 word list \<Rightarrow> nat \<Rightarrow> point \<Rightarrow> color \<Rightarrow> (point \<times> framebuffer) result" where
  "draw_text_len fb f str len p c =
     (if len = 0 then Inr (p, fb)
      else if len \<le> length str then draw_chars fb f (take len str) p c else Inl Undefined)"

section \<open>Serialization\<close>

text \<open>
  \<open>FramebufferSerialization\<close>: the two dimensions and the colours, as 32-bit words. Without data the
  dimensions are written as 0, and the words that are skipped keep what the buffer had, \<open>old\<close>.
\<close>

definition fb_serialize :: "framebuffer \<Rightarrow> 32 word list \<Rightarrow> 32 word list" where
  "fb_serialize fb old =
     (let n = nat (fb_width fb * fb_height fb) in
      if fb_null fb then [0, 0] @ take n old
      else [word_of_int (fb_width fb), word_of_int (fb_height fb)] @ take n (fb_data fb))"

text \<open>
  The dimensions are read back as signed. If one is 0, the old data is gone, but the pointer to it
  stays.
\<close>

definition fb_deserialize :: "framebuffer \<Rightarrow> 32 word list \<Rightarrow> (framebuffer \<times> 32 word list) result" where
  "fb_deserialize fb ws =
     (case ws of
        w # h # rest \<Rightarrow>
          let n = nat (sint w * sint h); fb1 = fb\<lparr>fb_data := [], fb_width := sint w, fb_height := sint h\<rparr> in
          if sint w = 0 \<or> sint h = 0 then Inr (fb1, rest)
          else if n \<le> length rest then Inr (fb1\<lparr>fb_null := False, fb_data := take n rest\<rparr>, drop n rest)
          else Inl Undefined
      | _ \<Rightarrow> Inl Undefined)"


section \<open>Indices\<close>

definition fb_ok :: "framebuffer \<Rightarrow> bool" where
  "fb_ok fb \<longleftrightarrow> 0 \<le> fb_width fb \<and> 0 \<le> fb_height fb \<and> int (length (fb_data fb)) = fb_width fb * fb_height fb"

definition pixel :: "framebuffer \<Rightarrow> int \<times> int \<Rightarrow> color" where
  "pixel fb p = fb_data fb ! nat (fst p + snd p * fb_width fb)"

lemma index_in:
  fixes w h x y :: int
  assumes "0 \<le> x" "x < w" "0 \<le> y" "y < h"
  shows "0 \<le> x + y * w" "x + y * w < w * h"
proof -
  show "0 \<le> x + y * w" using assms by simp
  have "x + y * w < (1 + y) * w" using assms(2) by (simp add: distrib_right)
  also have "\<dots> \<le> h * w" using assms by (intro mult_right_mono) auto
  finally show "x + y * w < w * h" by (simp add: mult.commute)
qed

lemma index_inj:
  fixes w x y x' y' :: int
  assumes "0 \<le> x" "x < w" "0 \<le> x'" "x' < w" "0 \<le> y" "0 \<le> y'"
  shows "nat (x + y * w) = nat (x' + y' * w) \<longleftrightarrow> x = x' \<and> y = y'"
proof -
  have "0 \<le> x + y * w" "0 \<le> x' + y' * w" using assms by auto
  then have "nat (x + y * w) = nat (x' + y' * w) \<longleftrightarrow> x + y * w = x' + y' * w" by (simp add: nat_eq_iff)
  also have "\<dots> \<longleftrightarrow> x = x' \<and> y = y'"
  proof
    assume e: "x + y * w = x' + y' * w"
    have "(x + y * w) mod w = (x' + y' * w) mod w" using e by simp
    then have "x = x'" using assms by simp
    then show "x = x' \<and> y = y'" using e assms by simp
  qed simp
  finally show ?thesis .
qed

section \<open>Loops over an area\<close>

lemma row_loop:
  fixes d :: "'a list" and w h :: int
  assumes len: "int (length d) = w * h" and s: "0 \<le> ax" "ax + aw \<le> w" "0 \<le> y" "y < h"
    and step: "\<And>x d'. 0 \<le> x \<Longrightarrow> x < aw \<Longrightarrow> length d' = length d \<Longrightarrow>
      f x d' = Inr (d'[nat ((ax + x) + y * w) := g x (d' ! nat ((ax + x) + y * w))])"
  shows "\<exists>d'. rfold (\<lambda>x d. f (int x) d) [0..<nat aw] d = Inr d' \<and> length d' = length d \<and>
    (\<forall>i j. 0 \<le> i \<longrightarrow> i < w \<longrightarrow> 0 \<le> j \<longrightarrow> j < h \<longrightarrow>
      d' ! nat (i + j * w) = (if j = y \<and> ax \<le> i \<and> i < ax + aw then g (i - ax) (d ! nat (i + j * w)) else d ! nat (i + j * w)))"
proof -
  let ?I = "\<lambda>n d'. length d' = length d \<and> (\<forall>i j. 0 \<le> i \<longrightarrow> i < w \<longrightarrow> 0 \<le> j \<longrightarrow> j < h \<longrightarrow>
      d' ! nat (i + j * w) = (if j = y \<and> ax \<le> i \<and> i < ax + int n then g (i - ax) (d ! nat (i + j * w)) else d ! nat (i + j * w)))"
  have "\<exists>d'. rfold (\<lambda>x d. f (int x) d) [0..<nat aw] d = Inr d' \<and> ?I (nat aw) d'"
  proof (rule rfold_upt [where I = ?I])
    fix n d'
    assume n: "n < nat aw" and I: "?I n d'"
    let ?k = "nat ((ax + int n) + y * w)"
    have x: "0 \<le> ax + int n" "ax + int n < w" "int n < aw" using n s by auto
    have k: "?k < length d'" using index_in [OF x(1,2) s(3,4)] len I by auto
    have fx: "f (int n) d' = Inr (d'[?k := g (int n) (d' ! ?k)])" using step [of "int n" d'] x I by simp
    have old: "d' ! ?k = d ! ?k"
    proof -
      have "d' ! ?k = (if y = y \<and> ax \<le> ax + int n \<and> ax + int n < ax + int n then g (ax + int n - ax) (d ! ?k) else d ! ?k)"
        using I x s by blast
      then show ?thesis by simp
    qed
    have "?I (Suc n) (d'[?k := g (int n) (d' ! ?k)])"
    proof (intro conjI allI impI)
      show "length (d'[?k := g (int n) (d' ! ?k)]) = length d" using I by simp
      fix i j :: int
      assume ij: "0 \<le> i" "i < w" "0 \<le> j" "j < h"
      have eq: "nat (i + j * w) = ?k \<longleftrightarrow> i = ax + int n \<and> j = y" using index_inj [OF ij(1,2) x(1,2) ij(3) s(3)] by blast
      show "d'[?k := g (int n) (d' ! ?k)] ! nat (i + j * w) =
        (if j = y \<and> ax \<le> i \<and> i < ax + int (Suc n) then g (i - ax) (d ! nat (i + j * w)) else d ! nat (i + j * w))"
      proof (cases "i = ax + int n \<and> j = y")
        case True
        then have "nat (i + j * w) = ?k" using eq by blast
        then show ?thesis using True k old by simp
      next
        case False
        then have "d'[?k := g (int n) (d' ! ?k)] ! nat (i + j * w) = d' ! nat (i + j * w)" using eq by auto
        then show ?thesis using I ij False by auto
      qed
    qed
    then show "\<exists>d''. f (int n) d' = Inr d'' \<and> ?I (Suc n) d''" using fx by blast
  qed (use s in auto)
  then show ?thesis
  proof (elim exE conjE, intro exI conjI)
    fix d'
    assume "\<forall>i j. 0 \<le> i \<longrightarrow> i < w \<longrightarrow> 0 \<le> j \<longrightarrow> j < h \<longrightarrow>
      d' ! nat (i + j * w) = (if j = y \<and> ax \<le> i \<and> i < ax + int (nat aw) then g (i - ax) (d ! nat (i + j * w)) else d ! nat (i + j * w))"
    then show "\<forall>i j. 0 \<le> i \<longrightarrow> i < w \<longrightarrow> 0 \<le> j \<longrightarrow> j < h \<longrightarrow>
      d' ! nat (i + j * w) = (if j = y \<and> ax \<le> i \<and> i < ax + aw then g (i - ax) (d ! nat (i + j * w)) else d ! nat (i + j * w))"
      by (cases "0 \<le> aw") auto
  qed
qed


text \<open>
  \<open>redrawn w h P g d d'\<close>: the pixels of which \<open>P\<close> holds are changed by \<open>g\<close>, the others are kept.
\<close>

definition redrawn :: "int \<Rightarrow> int \<Rightarrow> (int \<Rightarrow> int \<Rightarrow> bool) \<Rightarrow> (int \<Rightarrow> int \<Rightarrow> 'a \<Rightarrow> 'a) \<Rightarrow> 'a list \<Rightarrow> 'a list \<Rightarrow> bool" where
  "redrawn w h P g d d' \<longleftrightarrow> length d' = length d \<and> (\<forall>i j. 0 \<le> i \<longrightarrow> i < w \<longrightarrow> 0 \<le> j \<longrightarrow> j < h \<longrightarrow>
      d' ! nat (i + j * w) = (if P i j then g i j (d ! nat (i + j * w)) else d ! nat (i + j * w)))"

lemma redrawn_cong:
  assumes "redrawn w h P g d d'"
    "\<And>i j. 0 \<le> i \<Longrightarrow> i < w \<Longrightarrow> 0 \<le> j \<Longrightarrow> j < h \<Longrightarrow> P i j = P' i j"
    "\<And>i j c. 0 \<le> i \<Longrightarrow> i < w \<Longrightarrow> 0 \<le> j \<Longrightarrow> j < h \<Longrightarrow> P i j \<Longrightarrow> g i j c = g' i j c"
  shows "redrawn w h P' g' d d'"
  using assms by (auto simp: redrawn_def)

lemma redrawn_row:
  fixes d :: "'a list"
  assumes "int (length d) = w * h" "0 \<le> ax" "ax + aw \<le> w" "0 \<le> y" "y < h"
    "\<And>x d'. 0 \<le> x \<Longrightarrow> x < aw \<Longrightarrow> length d' = length d \<Longrightarrow>
      f x d' = Inr (d'[nat ((ax + x) + y * w) := g x (d' ! nat ((ax + x) + y * w))])"
  shows "\<exists>d'. rfold (\<lambda>x d. f (int x) d) [0..<nat aw] d = Inr d' \<and>
    redrawn w h (\<lambda>i j. j = y \<and> ax \<le> i \<and> i < ax + aw) (\<lambda>i j. g (i - ax)) d d'"
  unfolding redrawn_def by (rule row_loop [of d w h ax aw y f g, OF assms(1-5)]) (rule assms(6))

lemma redrawn_rows:
  fixes d :: "'a list"
  assumes row: "\<And>y d'. 0 \<le> y \<Longrightarrow> y < ah \<Longrightarrow> length d' = length d \<Longrightarrow>
      \<exists>d''. F y d' = Inr d'' \<and> redrawn w h (\<lambda>i j. j = ay + y \<and> R y i) (\<lambda>i j. g y i) d' d''"
  shows "\<exists>d'. rfold (\<lambda>y d. F (int y) d) [0..<nat ah] d = Inr d' \<and>
    redrawn w h (\<lambda>i j. ay \<le> j \<and> j < ay + ah \<and> R (j - ay) i) (\<lambda>i j. g (j - ay) i) d d'"
proof -
  let ?I = "\<lambda>n d'. redrawn w h (\<lambda>i j. ay \<le> j \<and> j < ay + int n \<and> R (j - ay) i) (\<lambda>i j. g (j - ay) i) d d'"
  have "\<exists>d'. rfold (\<lambda>y d. F (int y) d) [0..<nat ah] d = Inr d' \<and> ?I (nat ah) d'"
  proof (rule rfold_upt [where I = ?I])
    fix n d'
    assume n: "n < nat ah" and I: "?I n d'"
    have "length d' = length d" "int n < ah" using I n by (auto simp: redrawn_def)
    then obtain d'' where d'': "F (int n) d' = Inr d''" "redrawn w h (\<lambda>i j. j = ay + int n \<and> R (int n) i) (\<lambda>i j. g (int n) i) d' d''"
      using row [of "int n" d'] by auto
    have "?I (Suc n) d''"
      unfolding redrawn_def
    proof (intro conjI allI impI)
      show "length d'' = length d" using I d''(2) by (simp add: redrawn_def)
      fix i j :: int
      assume ij: "0 \<le> i" "i < w" "0 \<le> j" "j < h"
      have 2: "d'' ! nat (i + j * w) = (if j = ay + int n \<and> R (int n) i then g (int n) i (d' ! nat (i + j * w)) else d' ! nat (i + j * w))"
        using d''(2) ij by (simp add: redrawn_def)
      have 1: "d' ! nat (i + j * w) = (if ay \<le> j \<and> j < ay + int n \<and> R (j - ay) i then g (j - ay) i (d ! nat (i + j * w)) else d ! nat (i + j * w))"
        using I ij by (simp add: redrawn_def)
      show "d'' ! nat (i + j * w) = (if ay \<le> j \<and> j < ay + int (Suc n) \<and> R (j - ay) i then g (j - ay) i (d ! nat (i + j * w)) else d ! nat (i + j * w))"
        unfolding 2 1 by (cases "j = ay + int n") auto
    qed
    then show "\<exists>d''. F (int n) d' = Inr d'' \<and> ?I (Suc n) d''" using d''(1) by blast
  qed (auto simp: redrawn_def)
  then obtain d' where d': "rfold (\<lambda>y d. F (int y) d) [0..<nat ah] d = Inr d'" "?I (nat ah) d'" by blast
  have "redrawn w h (\<lambda>i j. ay \<le> j \<and> j < ay + ah \<and> R (j - ay) i) (\<lambda>i j. g (j - ay) i) d d'"
    by (rule redrawn_cong [OF d'(2)]) (cases "0 \<le> ah"; auto)+
  then show ?thesis using d'(1) by blast
qed

text \<open>An area that is empty or lies within the bounds.\<close>

definition clipped :: "int \<Rightarrow> int \<Rightarrow> rect \<Rightarrow> bool" where
  "clipped w h s \<longleftrightarrow> (0 < rwidth s \<and> 0 < rheight s \<longrightarrow>
     0 \<le> rx s \<and> rx s + rwidth s \<le> w \<and> 0 \<le> ry s \<and> ry s + rheight s \<le> h)"

lemma redrawn_area:
  fixes d :: "'a list"
  assumes len: "int (length d) = w * h" and s: "clipped w h s"
    and step: "\<And>x y d'. 0 \<le> x \<Longrightarrow> x < rwidth s \<Longrightarrow> 0 \<le> y \<Longrightarrow> y < rheight s \<Longrightarrow> length d' = length d \<Longrightarrow>
      f x y d' = Inr (d'[nat ((rx s + x) + (ry s + y) * w) := g x y (d' ! nat ((rx s + x) + (ry s + y) * w))])"
  shows "\<exists>d'. for_area s f d = Inr d' \<and>
    redrawn w h (\<lambda>i j. (i, j) \<in> pixels s) (\<lambda>i j. g (i - rx s) (j - ry s)) d d'"
proof (cases "0 < rwidth s \<and> 0 < rheight s")
  case True
  let ?R = "\<lambda>y i. rx s \<le> i \<and> i < rx s + rwidth s"
  have b: "0 \<le> rx s" "rx s + rwidth s \<le> w" "0 \<le> ry s" "ry s + rheight s \<le> h" using s True by (auto simp: clipped_def)
  have row: "\<exists>d''. rfold (\<lambda>x d. f (int x) y d) [0..<nat (rwidth s)] d' = Inr d'' \<and>
      redrawn w h (\<lambda>i j. j = ry s + y \<and> ?R y i) (\<lambda>i j. g (i - rx s) y) d' d''"
    if y: "0 \<le> y" "y < rheight s" "length d' = length d" for y d'
  proof (rule redrawn_row [where f = "\<lambda>x. f x y" and g = "\<lambda>x. g x y"])
    show "f x y d'' = Inr (d''[nat (rx s + x + (ry s + y) * w) := g x y (d'' ! nat (rx s + x + (ry s + y) * w))])"
      if "0 \<le> x" "x < rwidth s" "length d'' = length d'" for x d'' using step y that by simp
  qed (use len b y in auto)
  have "\<exists>d'. rfold (\<lambda>y d. rfold (\<lambda>x d. f (int x) (int y) d) [0..<nat (rwidth s)] d) [0..<nat (rheight s)] d = Inr d' \<and>
    redrawn w h (\<lambda>i j. ry s \<le> j \<and> j < ry s + rheight s \<and> ?R (j - ry s) i) (\<lambda>i j. g (i - rx s) (j - ry s)) d d'"
    by (rule redrawn_rows [where F = "\<lambda>y d. rfold (\<lambda>x d. f (int x) y d) [0..<nat (rwidth s)] d" and g = "\<lambda>y i. g (i - rx s) y" and R = ?R])
      (rule row)
  then obtain d' where d': "for_area s f d = Inr d'"
    "redrawn w h (\<lambda>i j. ry s \<le> j \<and> j < ry s + rheight s \<and> ?R (j - ry s) i) (\<lambda>i j. g (i - rx s) (j - ry s)) d d'"
    unfolding for_area_def by blast
  have "redrawn w h (\<lambda>i j. (i, j) \<in> pixels s) (\<lambda>i j. g (i - rx s) (j - ry s)) d d'"
    by (rule redrawn_cong [OF d'(2)]) (auto simp: pixels_def)
  then show ?thesis using d'(1) by blast
next
  case False
  then have "pixels s = {}" using pixels_nonempty by blast
  moreover have "for_area s f d = Inr d"
  proof (cases "rwidth s \<le> 0")
    case True
    have "rfold (\<lambda>y d. Inr d) ys d = Inr d" for ys by (induction ys) auto
    then show ?thesis using True by (simp add: for_area_def)
  qed (use False in \<open>simp add: for_area_def\<close>)
  ultimately show ?thesis by (simp add: redrawn_def)
qed

lemma clipped_overlap: "0 \<le> w \<Longrightarrow> 0 \<le> h \<Longrightarrow> clipped w h (overlapping_area r (mk_rect 0 0 w h))"
proof (cases "collides r (mk_rect 0 0 w h)")
  case True
  then show ?thesis using overlap_inside(2) [OF True] by (auto simp: clipped_def inside_def)
qed (auto simp: clipped_def overlapping_area_def)

lemma empty_no_pixels: "rect_empty s \<Longrightarrow> pixels s = {}"
  by (auto simp: rect_empty_def pixels_def)


section \<open>Blending\<close>

lemma RGBA_channels: "RGBA (color_r c) (color_g c) (color_b c) (color_a c) = c"
  by (simp add: RGBA_def color_r_def color_g_def color_b_def color_a_def word_eq_bits bit_simps
      all_less_32 all_less_16 all_less_8)

lemma blend_channel_nat:
  "unat (blend_channel a o' t) = ((unat a + 1) * unat o' + (256 - unat a) * unat t) div 256"
proof -
  have a: "unat a < 256" "unat o' < 256" "unat t < 256" by (auto simp: unat_byte)
  have "(unat a + 1) * unat o' + (256 - unat a) * unat t \<le> (unat a + 1) * 255 + (256 - unat a) * 255"
    using a by (intro add_mono mult_left_mono) auto
  also have "\<dots> = 257 * 255" using a by (simp add: algebra_simps diff_mult_distrib)
  finally have "((unat a + 1) * unat o' + (256 - unat a) * unat t) div 256 < 256" by simp
  then show ?thesis unfolding blend_channel_def unat_of_nat by (simp add: take_bit_nat_eq_self)
qed

lemma blend_channel_ends: "blend_channel 0 o' t = t" "blend_channel 255 o' t = o'"
proof -
  have "unat o' < 256" "unat t < 256" by (auto simp: unat_byte)
  then have "unat (blend_channel 0 o' t) = unat t" "unat (blend_channel 255 o' t) = unat o'"
    by (simp_all add: blend_channel_nat)
  then show "blend_channel 0 o' t = t" "blend_channel 255 o' t = o'" by (simp_all add: word_unat_eq_iff)
qed

lemma blended_channels:
  "RGBA (blend_channel (color_a c) (color_r c) (color_r this)) (blend_channel (color_a c) (color_g c) (color_g this))
     (blend_channel (color_a c) (color_b c) (color_b this)) (blend_channel (color_a c) (color_a c) (color_a this)) = blended this c"
proof -
  have "color_a 0 = 0" by (simp add: color_a_def)
  moreover have "RGBA (color_r c) (color_g c) (color_b c) 255 = c" if "color_a c = 255" using RGBA_channels [of c] that by simp
  ultimately show ?thesis by (auto simp: blended_def blend_channel_ends RGBA_channels Let_def)
qed

text \<open>
  C35. Alpha blending never wraps around: every channel of the result lies between that channel of the
  two colours, whatever the alpha value.
\<close>

theorem blend_channel_between:
  "min (unat o') (unat t) \<le> unat (blend_channel a o' t) \<and> unat (blend_channel a o' t) \<le> max (unat o') (unat t)"
proof -
  let ?A = "unat a" and ?m = "min (unat o') (unat t)" and ?M = "max (unat o') (unat t)"
  have a: "?A < 256" "?M < 256" by (auto simp: unat_byte)
  have s: "(?A + 1) * x + (256 - ?A) * x = 257 * x" for x using a(1) by (simp add: algebra_simps diff_mult_distrib)
  have "257 * ?m \<le> (?A + 1) * unat o' + (256 - ?A) * unat t"
    unfolding s [symmetric] by (intro add_mono mult_left_mono) auto
  then have lo: "?m \<le> ((?A + 1) * unat o' + (256 - ?A) * unat t) div 256" by (simp add: less_eq_div_iff_mult_less_eq)
  have "(?A + 1) * unat o' + (256 - ?A) * unat t \<le> 257 * ?M"
    unfolding s [symmetric] by (intro add_mono mult_left_mono) auto
  then have "((?A + 1) * unat o' + (256 - ?A) * unat t) div 256 \<le> (257 * ?M) div 256" by (rule div_le_mono)
  moreover have "(257 * x) div 256 = x" if "x < 256" for x :: nat
  proof -
    have "257 * x = x + x * 256" by simp
    then show ?thesis using that by simp
  qed
  then have "(257 * ?M) div 256 = ?M" using a(2) by blast
  ultimately show ?thesis using lo by (simp add: blend_channel_nat)
qed

section \<open>Operations, pixel by pixel\<close>

definition fb_redrawn :: "framebuffer \<Rightarrow> framebuffer result \<Rightarrow> (int \<Rightarrow> int \<Rightarrow> bool) \<Rightarrow> (int \<Rightarrow> int \<Rightarrow> color \<Rightarrow> color) \<Rightarrow> bool" where
  "fb_redrawn fb r P g \<longleftrightarrow> (\<exists>fb'. r = Inr fb' \<and> fb_ok fb' \<and> fb_bounds fb' = fb_bounds fb \<and>
     (\<forall>i j. (i, j) \<in> pixels (fb_bounds fb) \<longrightarrow>
        pixel fb' (i, j) = (if P i j then g i j (pixel fb (i, j)) else pixel fb (i, j))))"

lemma on_data_redrawn:
  assumes "fb_ok fb" "\<exists>d'. F (fb_data fb) = Inr d' \<and> redrawn (fb_width fb) (fb_height fb) P g (fb_data fb) d'"
  shows "fb_redrawn fb (on_data fb F) P g"
proof -
  obtain d' where d': "F (fb_data fb) = Inr d'" "redrawn (fb_width fb) (fb_height fb) P g (fb_data fb) d'" using assms(2) by blast
  have "fb_ok (fb\<lparr>fb_data := d'\<rparr>)" using assms(1) d'(2) by (simp add: fb_ok_def redrawn_def)
  then show ?thesis using d' by (auto simp: fb_redrawn_def on_data_def fb_bounds_def pixel_def redrawn_def pixels_def)
qed

lemma fb_redrawn_cong:
  assumes "fb_redrawn fb r P g"
    "\<And>i j. (i, j) \<in> pixels (fb_bounds fb) \<Longrightarrow> P i j = P' i j"
    "\<And>i j c. (i, j) \<in> pixels (fb_bounds fb) \<Longrightarrow> P i j \<Longrightarrow> g i j c = g' i j c"
  shows "fb_redrawn fb r P' g'"
proof -
  obtain fb' where fb': "r = Inr fb'" "fb_ok fb'" "fb_bounds fb' = fb_bounds fb"
    "\<And>i j. (i, j) \<in> pixels (fb_bounds fb) \<Longrightarrow> pixel fb' (i, j) = (if P i j then g i j (pixel fb (i, j)) else pixel fb (i, j))"
    using assms(1) by (auto simp: fb_redrawn_def)
  have "pixel fb' (i, j) = (if P' i j then g' i j (pixel fb (i, j)) else pixel fb (i, j))"
    if "(i, j) \<in> pixels (fb_bounds fb)" for i j using fb'(4) [OF that] assms(2,3) [OF that] by auto
  then show ?thesis using fb'(1-3) by (auto simp: fb_redrawn_def)
qed

lemma fb_redrawn_none: "fb_ok fb \<Longrightarrow> (\<And>i j. (i, j) \<in> pixels (fb_bounds fb) \<Longrightarrow> \<not> P i j) \<Longrightarrow> fb_redrawn fb (Inr fb) P g"
  by (auto simp: fb_redrawn_def)

text \<open>
  An operation that clips \<open>r\<close> to the bounds and then changes each pixel of the area: the change
  is given in coordinates of the framebuffer.
\<close>

lemma area_op:
  assumes ok: "fb_ok fb" and s: "s = overlapping_area r (fb_bounds fb)"
    and step: "\<And>i j d. (i, j) \<in> pixels s \<Longrightarrow> length d = length (fb_data fb) \<Longrightarrow>
      f (i - rx s) (j - ry s) d = Inr (d[nat (i + j * fb_width fb) := g i j (d ! nat (i + j * fb_width fb))])"
  shows "fb_redrawn fb (if rect_empty s then Inr fb else on_data fb (for_area s f)) (\<lambda>i j. (i, j) \<in> pixels r) g"
proof -
  let ?w = "fb_width fb" and ?h = "fb_height fb"
  have px: "pixels s = pixels r \<inter> pixels (fb_bounds fb)" by (simp add: s pixels_overlap)
  have cl: "clipped ?w ?h s" using ok by (simp add: s fb_bounds_def fb_ok_def clipped_overlap)
  have "\<exists>d'. for_area s f (fb_data fb) = Inr d' \<and>
    redrawn ?w ?h (\<lambda>i j. (i, j) \<in> pixels s) (\<lambda>i j. g (rx s + (i - rx s)) (ry s + (j - ry s))) (fb_data fb) d'"
  proof (rule redrawn_area [OF _ cl])
    show "int (length (fb_data fb)) = ?w * ?h" using ok by (simp add: fb_ok_def)
    fix x y :: int and d' :: "color list"
    assume x: "0 \<le> x" "x < rwidth s" "0 \<le> y" "y < rheight s" "length d' = length (fb_data fb)"
    then have "(rx s + x, ry s + y) \<in> pixels s" by (simp add: pixels_def)
    from step [OF this x(5)] show "f x y d' = Inr (d'[nat (rx s + x + (ry s + y) * ?w) := g (rx s + x) (ry s + y) (d' ! nat (rx s + x + (ry s + y) * ?w))])"
      by simp
  qed
  then have r: "fb_redrawn fb (on_data fb (for_area s f)) (\<lambda>i j. (i, j) \<in> pixels s) g"
    by (intro on_data_redrawn [OF ok]) simp
  show ?thesis
  proof (cases "rect_empty s")
    case True
    then have "pixels s = {}" by (rule empty_no_pixels)
    then show ?thesis using True px by (auto intro!: fb_redrawn_none [OF ok])
  next
    case False
    then show ?thesis using fb_redrawn_cong [OF r, of "\<lambda>i j. (i, j) \<in> pixels r" g] px by auto
  qed
qed

text \<open>Access to a pixel within the bounds.\<close>

lemma data_access:
  assumes "fb_ok fb" "(i, j) \<in> pixels (fb_bounds fb)" "length d = length (fb_data fb)"
  shows "data_put d (i + j * fb_width fb) v = Inr (d[nat (i + j * fb_width fb) := v])"
    "modify d (i + j * fb_width fb) f = Inr (d[nat (i + j * fb_width fb) := f (d ! nat (i + j * fb_width fb))])"
    "data_get d (i + j * fb_width fb) = Inr (d ! nat (i + j * fb_width fb))"
proof -
  have "0 \<le> i" "i < fb_width fb" "0 \<le> j" "j < fb_height fb" using assms(2) by (auto simp: pixels_def fb_bounds_def)
  note ix = index_in [OF this]
  then show "data_put d (i + j * fb_width fb) v = Inr (d[nat (i + j * fb_width fb) := v])"
    "data_get d (i + j * fb_width fb) = Inr (d ! nat (i + j * fb_width fb))"
    "modify d (i + j * fb_width fb) f = Inr (d[nat (i + j * fb_width fb) := f (d ! nat (i + j * fb_width fb))])"
    using assms(1,3) by (simp_all add: data_put_def data_get_def modify_def fb_ok_def)
qed

lemma at_index_back: "at_index fb s (i - rx s) (j - ry s) = i + j * fb_width fb"
  by (simp add: at_index_def)

lemma fill_redrawn:
  assumes "fb_ok fb"
  shows "fb_redrawn fb (fill fb r c) (\<lambda>i j. (i, j) \<in> pixels r) (\<lambda>i j old. c)"
  unfolding fill_def Let_def
  by (rule area_op [OF assms refl]) (auto simp: at_index_back pixels_overlap data_access [OF assms])

lemma fill_blitting_redrawn:
  assumes "fb_ok fb"
  shows "fb_redrawn fb (fill_blitting fb r c) (\<lambda>i j. (i, j) \<in> pixels r) (\<lambda>i j old. blended old c)"
  unfolding fill_blitting_def Let_def blended_channels
  by (rule area_op [OF assms refl]) (auto simp: at_index_back pixels_overlap data_access [OF assms])

lemma invert_redrawn:
  assumes "fb_ok fb"
  shows "fb_redrawn fb (invert fb r) (\<lambda>i j. (i, j) \<in> pixels r) (\<lambda>i j old. inverted old)"
  unfolding invert_def Let_def
  by (rule area_op [OF assms refl]) (auto simp: at_index_back pixels_overlap data_access [OF assms])


text \<open>
  Copies: pixel \<open>(i, j)\<close> of the destination takes its value from the pixel of the source that lies
  at the same place relative to the source area. The source area must lie within the source.
\<close>

definition source_ok :: "framebuffer \<Rightarrow> rect \<Rightarrow> bool" where
  "source_ok other oa \<longleftrightarrow> fb_ok other \<and> inside oa (fb_bounds other)"

definition dest_rect :: "rect \<Rightarrow> point \<Rightarrow> rect" where
  "dest_rect oa p = mk_rect (px p) (py p) (rwidth oa) (rheight oa)"

definition source_pos :: "rect \<Rightarrow> point \<Rightarrow> int \<Rightarrow> int \<Rightarrow> int \<times> int" where
  "source_pos oa p i j = (rx oa + (i - px p), ry oa + (j - py p))"

lemma source_pos_in:
  assumes "source_ok other oa" "(i, j) \<in> pixels (dest_rect oa p)"
  shows "source_pos oa p i j \<in> pixels (fb_bounds other)"
  using assms by (auto simp: source_ok_def inside_def source_pos_def pixels_def dest_rect_def fb_bounds_def)

lemma source_get:
  assumes "source_ok other oa" "(i, j) \<in> pixels (dest_rect oa p)"
  shows "data_get (fb_data other) (at_index other (shifted_area oa s p) (i - rx s) (j - ry s)) =
    Inr (pixel other (source_pos oa p i j))"
proof -
  have "at_index other (shifted_area oa s p) (i - rx s) (j - ry s) =
      fst (source_pos oa p i j) + snd (source_pos oa p i j) * fb_width other"
    by (simp add: at_index_def shifted_area_def source_pos_def)
  then show ?thesis
    using data_access(3) [of other "fst (source_pos oa p i j)" "snd (source_pos oa p i j)" "fb_data other"]
      source_pos_in [OF assms] assms(1) by (simp add: source_ok_def pixel_def)
qed

lemma self_area_eq: "self_area fb oa p = overlapping_area (dest_rect oa p) (fb_bounds fb)"
  by (simp add: self_area_def dest_rect_def)

lemma copy_blitting_redrawn:
  assumes ok: "fb_ok fb" and src: "source_ok other oa"
  shows "fb_redrawn fb (fb_copy_blitting fb other oa p) (\<lambda>i j. (i, j) \<in> pixels (dest_rect oa p))
    (\<lambda>i j old. blended old (pixel other (source_pos oa p i j)))"
  unfolding fb_copy_blitting_def Let_def self_area_eq
  by (rule area_op [OF ok refl]) (auto simp: at_index_back pixels_overlap data_access [OF ok] source_get [OF src])

lemma draw_image_redrawn:
  assumes ok: "fb_ok fb" and src: "source_ok other oa"
  shows "fb_redrawn fb (draw_image fb other oa p) (\<lambda>i j. (i, j) \<in> pixels (dest_rect oa p))
    (\<lambda>i j old. blended old (pixel other (source_pos oa p i j)))"
  unfolding draw_image_def Let_def self_area_eq
  by (rule area_op [OF ok refl]) (auto simp: at_index_back pixels_overlap data_access [OF ok] source_get [OF src])

lemma copy_noalpha_redrawn:
  assumes ok: "fb_ok fb" and src: "source_ok other oa"
  shows "fb_redrawn fb (fb_copy_noalpha fb other oa p) (\<lambda>i j. (i, j) \<in> pixels (dest_rect oa p))
    (\<lambda>i j old. RGBA 0 0 0 255 OR pixel other (source_pos oa p i j))"
  unfolding fb_copy_noalpha_def Let_def self_area_eq
  by (rule area_op [OF ok refl]) (auto simp: at_index_back pixels_overlap data_access [OF ok] source_get [OF src])

text \<open>The flipped copy mirrors the clipped area, not the source area.\<close>

definition flip_pos :: "rect \<Rightarrow> bool \<Rightarrow> bool \<Rightarrow> int \<Rightarrow> int \<Rightarrow> int \<times> int" where
  "flip_pos s flip_h flip_v i j =
     ((if flip_h then rx s + (rx s + rwidth s - 1 - i) else i), (if flip_v then ry s + (ry s + rheight s - 1 - j) else j))"

lemma flip_pos_in: "(i, j) \<in> pixels s \<Longrightarrow> flip_pos s a b i j \<in> pixels s"
  by (auto simp: flip_pos_def pixels_def)

lemma copy_flipped_redrawn:
  assumes ok: "fb_ok fb" and src: "source_ok other oa"
  shows "fb_redrawn fb (fb_copy_blitting_flipped fb other oa p fh fv) (\<lambda>i j. (i, j) \<in> pixels (dest_rect oa p))
    (\<lambda>i j old. blended old (pixel other (case flip_pos (self_area fb oa p) fh fv i j of (i', j') \<Rightarrow> source_pos oa p i' j')))"
  unfolding fb_copy_blitting_flipped_def Let_def self_area_eq
proof (rule area_op [OF ok refl])
  let ?s = "overlapping_area (dest_rect oa p) (fb_bounds fb)"
  let ?o = "shifted_area oa ?s p"
  fix i j and d :: "color list"
  assume ij: "(i, j) \<in> pixels ?s" and len: "length d = length (fb_data fb)"
  obtain i' j' where f: "flip_pos ?s fh fv i j = (i', j')" by (cases "flip_pos ?s fh fv i j")
  have "(i', j') \<in> pixels ?s" using flip_pos_in [OF ij] f by metis
  then have in': "(i', j') \<in> pixels (dest_rect oa p)" by (simp add: pixels_overlap)
  have "(if fh then rwidth ?o - (i - rx ?s) - 1 else i - rx ?s) = i' - rx ?s"
    "(if fv then rheight ?o - (j - ry ?s) - 1 else j - ry ?s) = j' - ry ?s"
    using f by (auto simp: flip_pos_def shifted_area_def)
  then show "rbind (data_get (fb_data other) (at_index other ?o (if fh then rwidth ?o - (i - rx ?s) - 1 else i - rx ?s)
        (if fv then rheight ?o - (j - ry ?s) - 1 else j - ry ?s)))
        (\<lambda>v. modify d (at_index fb ?s (i - rx ?s) (j - ry ?s)) (\<lambda>this. blended this v)) =
      Inr (d[nat (i + j * fb_width fb) := blended (d ! nat (i + j * fb_width fb))
        (pixel other (case flip_pos ?s fh fv i j of (i', j') \<Rightarrow> source_pos oa p i' j'))])"
    using source_get [OF src in', of ?s] ij by (simp add: f at_index_back pixels_overlap data_access [OF ok _ len])
qed

lemma copy_tiled_redrawn:
  assumes ok: "fb_ok fb" and src: "fb_ok other" "0 < fb_width other" "0 < fb_height other" "0 \<le> rx oa" "0 \<le> ry oa"
  shows "fb_redrawn fb (fb_copy_tiled fb other oa p) (\<lambda>i j. (i, j) \<in> pixels (dest_rect oa p))
    (\<lambda>i j old. pixel other (fst (source_pos oa p i j) mod fb_width other, snd (source_pos oa p i j) mod fb_height other))"
  unfolding fb_copy_tiled_def Let_def self_area_eq
proof (rule area_op [OF ok refl])
  let ?s = "overlapping_area (dest_rect oa p) (fb_bounds fb)"
  let ?o = "shifted_area oa ?s p" and ?w = "fb_width other" and ?h = "fb_height other"
  fix i j and d :: "color list"
  assume ij: "(i, j) \<in> pixels ?s" and len: "length d = length (fb_data fb)"
  let ?x = "fst (source_pos oa p i j)" and ?y = "snd (source_pos oa p i j)"
  have xy: "rx ?o + (i - rx ?s) = ?x" "ry ?o + (j - ry ?s) = ?y" by (simp_all add: shifted_area_def source_pos_def)
  have "(i, j) \<in> pixels (dest_rect oa p)" using ij by (simp add: pixels_overlap)
  then have nn: "0 \<le> ?x" "0 \<le> ?y" using src(4,5) by (auto simp: source_pos_def pixels_def dest_rect_def)
  have sm: "a smod b = a mod b" if "0 \<le> a" "0 < b" for a b :: int
    using that by (simp add: smod_mod_positive)
  have in': "(?x mod ?w, ?y mod ?h) \<in> pixels (fb_bounds other)" using src(2,3) by (simp add: pixels_def fb_bounds_def)
  have "0 \<le> ?x mod ?w + ?y mod ?h * ?w" "?x mod ?w + ?y mod ?h * ?w < ?w * ?h"
    using index_in [of "?x mod ?w" ?w "?y mod ?h" ?h] src(2,3) by auto
  then have ix: "(?x smod ?w + (?y smod ?h) * ?w) smod (?w * ?h) = ?x mod ?w + ?y mod ?h * ?w"
    using sm nn src(2,3) by simp
  show "(if ?w = 0 \<or> ?h = 0 then Inl Undefined
      else rbind (data_get (fb_data other) (((rx ?o + (i - rx ?s)) smod ?w + (ry ?o + (j - ry ?s)) smod ?h * ?w) smod (?w * ?h)))
        (\<lambda>v. data_put d (at_index fb ?s (i - rx ?s) (j - ry ?s)) v)) =
      Inr (d[nat (i + j * fb_width fb) := pixel other (?x mod ?w, ?y mod ?h)])"
    using ij src(2,3) data_access(3) [OF src(1) in' refl] data_access(1) [OF ok _ len]
    unfolding xy ix by (simp add: at_index_back pixels_overlap pixel_def)
qed


text \<open>Rows copied as blocks of memory.\<close>

lemma nth_spliced:
  assumes "a + n \<le> length d" "b + n \<le> length s" "k < length d"
  shows "(take a d @ take n (drop b s) @ drop (a + n) d) ! k = (if a \<le> k \<and> k < a + n then s ! (b + (k - a)) else d ! k)"
proof -
  have "min (length d) a = a" "min (length s - b) n = n" using assms by auto
  then show ?thesis using assms by (auto simp: nth_append)
qed

lemma memcpy_row:
  fixes d :: "'a list"
  assumes len: "int (length d) = w * h" and s: "0 \<le> ax" "0 < n" "ax + n \<le> w" "0 \<le> y" "y < h"
    and src: "0 \<le> si" "si + n \<le> int (length sd)"
  shows "\<exists>d'. memcpy_uint32 d (ax + y * w) sd si n = Inr d' \<and>
    redrawn w h (\<lambda>i j. j = y \<and> ax \<le> i \<and> i < ax + n) (\<lambda>i j old. sd ! nat (si + (i - ax))) d d'"
proof -
  let ?di = "ax + y * w"
  let ?d = "take (nat ?di) d @ take (nat n) (drop (nat si) sd) @ drop (nat (?di + n)) d"
  have last: "(ax + n - 1) + y * w < w * h" using index_in(2) [of "ax + n - 1" w y h] s by simp
  then have b: "0 \<le> ?di" "?di + n \<le> int (length d)" using s len by auto
  have lens: "length (take (nat ?di) d) = nat ?di" "length (take (nat n) (drop (nat si) sd)) = nat n"
    using b s src by auto
  have nd: "nat (?di + n) = nat ?di + nat n" "nat ?di + nat n \<le> length d" using b s(2) by linarith+
  have "redrawn w h (\<lambda>i j. j = y \<and> ax \<le> i \<and> i < ax + n) (\<lambda>i j old. sd ! nat (si + (i - ax))) d ?d"
    unfolding redrawn_def
  proof (intro conjI allI impI)
    show "length ?d = length d" unfolding length_append lens nd(1) using nd(2) by simp
    fix i j :: int
    assume ij: "0 \<le> i" "i < w" "0 \<le> j" "j < h"
    let ?k = "i + j * w"
    have k: "0 \<le> ?k" "?k < int (length d)" using index_in [OF ij] len by auto
    have in_row: "?di \<le> ?k \<and> ?k < ?di + n \<longleftrightarrow> j = y \<and> ax \<le> i \<and> i < ax + n"
    proof
      assume r: "?di \<le> ?k \<and> ?k < ?di + n"
      have "?k div w = j" "(ax + y * w) div w = y" "(ax + n - 1 + y * w) div w = y" using ij s by auto
      moreover have "(ax + y * w) div w \<le> ?k div w" "?k div w \<le> (ax + n - 1 + y * w) div w"
        by (rule zdiv_mono1, use r s in linarith, use s in linarith)+
      ultimately have "j = y" by simp
      then show "j = y \<and> ax \<le> i \<and> i < ax + n" using r by auto
    qed auto
    have "nat ?di \<le> nat ?k \<and> nat ?k < nat ?di + nat n \<longleftrightarrow> ?di \<le> ?k \<and> ?k < ?di + n" using k b nd by linarith
    moreover have "nat si + (nat ?k - nat ?di) = nat (si + (i - ax))" if "j = y \<and> ax \<le> i \<and> i < ax + n"
      using that k b src by auto
    moreover have "nat si + nat n \<le> length sd" "nat ?k < length d" using src s(2) k by linarith+
    ultimately show "?d ! nat ?k = (if j = y \<and> ax \<le> i \<and> i < ax + n then sd ! nat (si + (i - ax)) else d ! nat ?k)"
      unfolding nd(1) using nd(2) in_row by (simp add: nth_spliced)
  qed
  moreover have "memcpy_uint32 d ?di sd si n = Inr ?d" using b s src by (simp add: memcpy_uint32_def)
  ultimately show ?thesis by blast
qed

lemma overlap_width: "0 \<le> rwidth r \<Longrightarrow> 0 \<le> rwidth b \<Longrightarrow> 0 \<le> rwidth (overlapping_area r b)"
  by (auto simp: overlapping_area_def collides_def Let_def max_def)

lemma rfold_skip: "rfold (\<lambda>x s. Inr s) xs s = Inr s"
  by (induction xs) auto

lemma copy_redrawn:
  assumes ok: "fb_ok fb" and src: "source_ok other oa" "0 \<le> rwidth oa" "0 \<le> rheight oa"
  shows "fb_redrawn fb (fb_copy fb other oa p) (\<lambda>i j. (i, j) \<in> pixels (dest_rect oa p))
    (\<lambda>i j old. pixel other (source_pos oa p i j))"
proof -
  let ?s = "overlapping_area (dest_rect oa p) (fb_bounds fb)" and ?w = "fb_width fb" and ?h = "fb_height fb"
  let ?o = "shifted_area oa ?s p"
  let ?F = "\<lambda>y d. memcpy_uint32 d (at_index fb ?s 0 y) (fb_data other) (at_index other ?o 0 y) (rwidth ?s)"
  have px: "pixels ?s = pixels (dest_rect oa p) \<inter> pixels (fb_bounds fb)" by (rule pixels_overlap)
  have len: "int (length (fb_data fb)) = ?w * ?h" using ok by (simp add: fb_ok_def)
  show ?thesis
  proof (cases "0 < rwidth ?s \<and> 0 < rheight ?s")
    case True
    have b: "0 \<le> rx ?s" "rx ?s + rwidth ?s \<le> ?w" "0 \<le> ry ?s" "ry ?s + rheight ?s \<le> ?h"
      using clipped_overlap [of ?w ?h "dest_rect oa p"] ok True by (auto simp: clipped_def fb_ok_def fb_bounds_def)
    have row: "\<exists>d''. ?F y d' = Inr d'' \<and> redrawn ?w ?h (\<lambda>i j. j = ry ?s + y \<and> (rx ?s \<le> i \<and> i < rx ?s + rwidth ?s))
        (\<lambda>i j old. pixel other (source_pos oa p i (ry ?s + y))) d' d''"
      if y: "0 \<le> y" "y < rheight ?s" and d': "length d' = length (fb_data fb)" for y d'
    proof -
      let ?si = "at_index other ?o 0 y"
      have "(rx ?s, ry ?s + y) \<in> pixels ?s" "(rx ?s + rwidth ?s - 1, ry ?s + y) \<in> pixels ?s"
        using y True unfolding pixels_def by auto
      then have in1: "(rx ?s, ry ?s + y) \<in> pixels (dest_rect oa p)" "(rx ?s + rwidth ?s - 1, ry ?s + y) \<in> pixels (dest_rect oa p)"
        unfolding px by blast+
      have src_ix: "?si + (i - rx ?s) = fst (source_pos oa p i (ry ?s + y)) + snd (source_pos oa p i (ry ?s + y)) * fb_width other" for i
        by (simp add: at_index_def shifted_area_def source_pos_def)
      have so: "source_pos oa p i (ry ?s + y) \<in> pixels (fb_bounds other)" if "(i, ry ?s + y) \<in> pixels (dest_rect oa p)" for i
        using source_pos_in [OF src(1) that] .
      have rng: "0 \<le> ?si + (i - rx ?s)" "?si + (i - rx ?s) < int (length (fb_data other))"
        if "(i, ry ?s + y) \<in> pixels (dest_rect oa p)" for i
        using so [OF that] src(1) index_in [of "fst (source_pos oa p i (ry ?s + y))" "fb_width other" "snd (source_pos oa p i (ry ?s + y))" "fb_height other"]
        unfolding src_ix by (auto simp: pixels_def fb_bounds_def source_ok_def fb_ok_def)
      have si: "0 \<le> ?si" "?si + rwidth ?s \<le> int (length (fb_data other))" using rng(1) [OF in1(1)] rng(2) [OF in1(2)] by auto
      have "\<exists>d''. memcpy_uint32 d' (rx ?s + (ry ?s + y) * ?w) (fb_data other) ?si (rwidth ?s) = Inr d'' \<and>
          redrawn ?w ?h (\<lambda>i j. j = ry ?s + y \<and> rx ?s \<le> i \<and> i < rx ?s + rwidth ?s) (\<lambda>i j old. fb_data other ! nat (?si + (i - rx ?s))) d' d''"
        by (rule memcpy_row) (use len d' b y True si in auto)
      then show ?thesis unfolding src_ix by (simp add: at_index_def pixel_def)
    qed
    have "\<exists>d'. rfold (\<lambda>y d. ?F (int y) d) [0..<nat (rheight ?s)] (fb_data fb) = Inr d' \<and>
        redrawn ?w ?h (\<lambda>i j. ry ?s \<le> j \<and> j < ry ?s + rheight ?s \<and> (rx ?s \<le> i \<and> i < rx ?s + rwidth ?s))
          (\<lambda>i j old. pixel other (source_pos oa p i (ry ?s + (j - ry ?s)))) (fb_data fb) d'"
      by (rule redrawn_rows [where F = ?F and R = "\<lambda>y i. rx ?s \<le> i \<and> i < rx ?s + rwidth ?s"
            and g = "\<lambda>y i old. pixel other (source_pos oa p i (ry ?s + y))"]) (rule row)
    then have "fb_redrawn fb (on_data fb (rfold (\<lambda>y d. ?F (int y) d) [0..<nat (rheight ?s)]))
        (\<lambda>i j. ry ?s \<le> j \<and> j < ry ?s + rheight ?s \<and> (rx ?s \<le> i \<and> i < rx ?s + rwidth ?s))
        (\<lambda>i j old. pixel other (source_pos oa p i (ry ?s + (j - ry ?s))))" by (rule on_data_redrawn [OF ok])
    then have "fb_redrawn fb (on_data fb (rfold (\<lambda>y d. ?F (int y) d) [0..<nat (rheight ?s)]))
        (\<lambda>i j. (i, j) \<in> pixels (dest_rect oa p)) (\<lambda>i j old. pixel other (source_pos oa p i j))"
    proof (rule fb_redrawn_cong)
      fix i j
      assume "(i, j) \<in> pixels (fb_bounds fb)"
      then have "(i, j) \<in> pixels (dest_rect oa p) \<longleftrightarrow> (i, j) \<in> pixels ?s" using px by blast
      then show "(ry ?s \<le> j \<and> j < ry ?s + rheight ?s \<and> (rx ?s \<le> i \<and> i < rx ?s + rwidth ?s)) = ((i, j) \<in> pixels (dest_rect oa p))"
        by (auto simp: pixels_def)
    qed simp
    moreover have "\<not> rect_empty ?s" using True by (simp add: rect_empty_def)
    ultimately show ?thesis by (simp add: fb_copy_def Let_def self_area_eq)
  next
    case False
    then have "pixels ?s = {}" using pixels_nonempty by blast
    moreover have "0 \<le> rwidth ?s"
      using src(2) ok by (intro overlap_width) (auto simp: fb_ok_def fb_bounds_def dest_rect_def)
    then have "rwidth ?s = 0 \<or> rheight ?s \<le> 0" using False by linarith
    then have "on_data fb (rfold (\<lambda>y d. ?F (int y) d) [0..<nat (rheight ?s)]) = Inr fb"
      by (auto simp: on_data_def memcpy_uint32_def rfold_skip)
    ultimately show ?thesis using px by (auto simp: fb_copy_def Let_def self_area_eq intro!: fb_redrawn_none [OF ok])
  qed
qed


text \<open>A loop over a filtered range is a loop whose body does nothing elsewhere.\<close>

lemma rfold_filter: "rfold f (filter P xs) = rfold (\<lambda>x s. if P x then f x s else Inr s) xs"
proof
  show "rfold f (filter P xs) s = rfold (\<lambda>x s. if P x then f x s else Inr s) xs s" for s
    by (induction xs arbitrary: s) (auto simp: rbind_def split: sum.splits)
qed

definition checkered :: "rect \<Rightarrow> int \<Rightarrow> int \<Rightarrow> bool" where
  "checkered s i j \<longleftrightarrow> even ((i - rx s) + (j - ry s))"

lemma invert_checkered_redrawn:
  assumes ok: "fb_ok fb"
  shows "fb_redrawn fb (invert_checkered fb r) (\<lambda>i j. (i, j) \<in> pixels r)
    (\<lambda>i j old. if checkered (overlapping_area r (fb_bounds fb)) i j then inverted old else old)"
proof -
  let ?s = "overlapping_area r (fb_bounds fb)"
  let ?f = "\<lambda>x y d. if nat x mod 2 = nat y mod 2 then modify d (at_index fb ?s x y) inverted else Inr d"
  have eq: "invert_checkered fb r = (if rect_empty ?s then Inr fb else on_data fb (for_area ?s ?f))"
    by (simp add: invert_checkered_def Let_def rfold_filter for_area_def [abs_def])
  show ?thesis
    unfolding eq
  proof (rule area_op [OF ok refl])
    fix i j and d :: "color list"
    assume ij: "(i, j) \<in> pixels ?s" and len: "length d = length (fb_data fb)"
    have "0 \<le> i - rx ?s" "0 \<le> j - ry ?s" using ij by (auto simp: pixels_def)
    then have "nat (i - rx ?s) mod 2 = nat (j - ry ?s) mod 2 \<longleftrightarrow> checkered ?s i j"
      unfolding checkered_def by (simp add: mod2_eq_if even_nat_iff)
    then show "?f (i - rx ?s) (j - ry ?s) d = Inr (d[nat (i + j * fb_width fb) :=
        if checkered ?s i j then inverted (d ! nat (i + j * fb_width fb)) else d ! nat (i + j * fb_width fb)])"
      using ij data_access(2) [OF ok _ len] by (simp add: at_index_back pixels_overlap)
  qed
qed

lemma multiply_redrawn:
  assumes ok: "fb_ok fb"
  shows "fb_redrawn fb (multiply fb c) (\<lambda>i j. True) (\<lambda>i j old. color_mul old c)"
proof -
  let ?b = "fb_bounds fb"
  have "\<exists>d'. for_area ?b (\<lambda>x y d. modify d (x + y * fb_width fb) (\<lambda>v. color_mul v c)) (fb_data fb) = Inr d' \<and>
      redrawn (fb_width fb) (fb_height fb) (\<lambda>i j. (i, j) \<in> pixels ?b) (\<lambda>i j old. color_mul old c) (fb_data fb) d'"
  proof (rule redrawn_area [where g = "\<lambda>x y old. color_mul old c"])
    fix x y :: int and d' :: "color list"
    assume "0 \<le> x" "x < rwidth ?b" "0 \<le> y" "y < rheight ?b" and len: "length d' = length (fb_data fb)"
    then have "(x, y) \<in> pixels ?b" by (simp add: pixels_def fb_bounds_def)
    from data_access(2) [OF ok this len] show "modify d' (x + y * fb_width fb) (\<lambda>v. color_mul v c) =
        Inr (d'[nat (rx ?b + x + (ry ?b + y) * fb_width fb) := color_mul (d' ! nat (rx ?b + x + (ry ?b + y) * fb_width fb)) c])"
      by (simp add: fb_bounds_def)
  qed (use ok in \<open>auto simp: fb_ok_def clipped_def fb_bounds_def\<close>)
  then have "fb_redrawn fb (multiply fb c) (\<lambda>i j. (i, j) \<in> pixels ?b) (\<lambda>i j old. color_mul old c)"
    unfolding multiply_def by (rule on_data_redrawn [OF ok])
  then show ?thesis by (rule fb_redrawn_cong) auto
qed

lemma put_redrawn:
  assumes ok: "fb_ok fb"
  shows "fb_redrawn fb (put fb p c) (\<lambda>i j. i = px p \<and> j = py p) (\<lambda>i j old. c)"
proof (cases "(px p, py p) \<in> pixels (fb_bounds fb)")
  case True
  have "redrawn (fb_width fb) (fb_height fb) (\<lambda>i j. i = px p \<and> j = py p) (\<lambda>i j old. c)
      (fb_data fb) ((fb_data fb)[nat (px p + py p * fb_width fb) := c])"
    unfolding redrawn_def
  proof (intro conjI allI impI)
    fix i j
    assume ij: "0 \<le> i" "i < fb_width fb" "0 \<le> j" "j < fb_height fb"
    have "nat (px p + py p * fb_width fb) = nat (i + j * fb_width fb) \<longleftrightarrow> px p = i \<and> py p = j"
      using True ij by (intro index_inj) (auto simp: pixels_def fb_bounds_def)
    moreover have "nat (i + j * fb_width fb) < length (fb_data fb)" using index_in [OF ij] ok by (auto simp: fb_ok_def)
    ultimately show "(fb_data fb)[nat (px p + py p * fb_width fb) := c] ! nat (i + j * fb_width fb) =
        (if i = px p \<and> j = py p then c else fb_data fb ! nat (i + j * fb_width fb))" by auto
  qed simp
  then have "fb_redrawn fb (on_data fb (\<lambda>d. data_put d (px p + py p * fb_width fb) c)) (\<lambda>i j. i = px p \<and> j = py p) (\<lambda>i j old. c)"
    using data_access(1) [OF ok True refl] by (intro on_data_redrawn [OF ok]) simp
  then show ?thesis using True by (simp add: put_def pixels_def fb_bounds_def)
next
  case False
  then show ?thesis
    by (auto simp: put_def pixels_def fb_bounds_def intro!: fb_redrawn_none [OF ok])
qed


section \<open>Glyphs and outlines\<close>

text \<open>A glyph whose bitmap has its dimensions; the pixels where its bitmap is set are blended.\<close>

definition glyph_ok :: "glyph \<Rightarrow> bool" where
  "glyph_ok g \<longleftrightarrow> 0 \<le> g_width g \<and> 0 \<le> g_height g \<and> int (length (g_bitmap g)) = g_width g * g_height g"

definition font_ok :: "font \<Rightarrow> bool" where
  "font_ok f \<longleftrightarrow> glyph_ok (unknown_glyph f) \<and> (\<forall>(cp, g) \<in> set (glyphs f). glyph_ok g)"

definition glyph_pos :: "font \<Rightarrow> glyph \<Rightarrow> point \<Rightarrow> point" where
  "glyph_pos f g gp =
     mk_point (px gp + (g_base_x g - box_base_x f))
              (py gp + ((box_base_y f - g_base_y g) + (font_size f - g_height g)))"

definition glyph_set :: "font \<Rightarrow> glyph \<Rightarrow> point \<Rightarrow> int \<Rightarrow> int \<Rightarrow> bool" where
  "glyph_set f g gp i j \<longleftrightarrow>
     (let x = i - px (glyph_pos f g gp); y = j - py (glyph_pos f g gp) in
      0 \<le> x \<and> x < g_width g \<and> 0 \<le> y \<and> y < g_height g \<and> g_bitmap g ! nat (x + y * g_width g) \<noteq> 0)"

lemma font_glyph_ok: "font_ok f \<Longrightarrow> glyph_ok (font_glyph f cp)"
  by (auto simp: font_ok_def font_glyph_def split: option.splits dest!: map_of_SomeD)

lemma fb_redrawn_if:
  assumes "fb_redrawn fb r P (\<lambda>i j old. if Q i j then g i j old else old)" "\<And>i j. Q i j \<Longrightarrow> P i j"
  shows "fb_redrawn fb r Q g"
proof -
  obtain fb' where fb': "r = Inr fb'" "fb_ok fb'" "fb_bounds fb' = fb_bounds fb"
    "\<And>i j. (i, j) \<in> pixels (fb_bounds fb) \<Longrightarrow>
      pixel fb' (i, j) = (if P i j then if Q i j then g i j (pixel fb (i, j)) else pixel fb (i, j) else pixel fb (i, j))"
    using assms(1) by (auto simp: fb_redrawn_def)
  have "pixel fb' (i, j) = (if Q i j then g i j (pixel fb (i, j)) else pixel fb (i, j))"
    if "(i, j) \<in> pixels (fb_bounds fb)" for i j using fb'(4) [OF that] assms(2) [of i j] by auto
  then show ?thesis using fb'(1-3) by (auto simp: fb_redrawn_def)
qed

lemma draw_glyph_redrawn:
  assumes ok: "fb_ok fb" and f: "font_ok f"
  shows "\<exists>r. draw_glyph fb f cp gp c = rbind r (\<lambda>fb'. Inr (point_add gp (next_offset (font_glyph f cp)), fb')) \<and>
    fb_redrawn fb r (glyph_set f (font_glyph f cp) gp) (\<lambda>i j old. blended old c)"
proof -
  let ?g = "font_glyph f cp"
  let ?p = "glyph_pos f ?g gp"
  let ?ga = "mk_rect 0 0 (g_width ?g) (g_height ?g)"
  let ?s = "overlapping_area (dest_rect ?ga ?p) (fb_bounds fb)"
  let ?o = "shifted_area ?ga ?s ?p"
  let ?f = "\<lambda>x y d. rbind (data_get (g_bitmap ?g) ((rx ?o + x) + (ry ?o + y) * g_width ?g)) (\<lambda>b.
    if b \<noteq> 0 then modify d (at_index fb ?s x y) (\<lambda>this. blended this c) else Inr d)"
  let ?r = "if rect_empty ?s then Inr fb else on_data fb (for_area ?s ?f)"
  have g: "glyph_ok ?g" by (rule font_glyph_ok [OF f])
  have "fb_redrawn fb ?r (\<lambda>i j. (i, j) \<in> pixels (dest_rect ?ga ?p)) (\<lambda>i j old. if glyph_set f ?g gp i j then blended old c else old)"
  proof (rule area_op [OF ok refl])
    fix i j and d :: "color list"
    assume ij: "(i, j) \<in> pixels ?s" and len: "length d = length (fb_data fb)"
    let ?x = "i - px ?p" and ?y = "j - py ?p"
    have "(i, j) \<in> pixels (dest_rect ?ga ?p)" using ij by (simp add: pixels_overlap)
    then have xy: "0 \<le> ?x" "?x < g_width ?g" "0 \<le> ?y" "?y < g_height ?g" by (auto simp: pixels_def dest_rect_def)
    have at: "(rx ?o + (i - rx ?s)) + (ry ?o + (j - ry ?s)) * g_width ?g = ?x + ?y * g_width ?g" by (simp add: shifted_area_def)
    have "data_get (g_bitmap ?g) (?x + ?y * g_width ?g) = Inr (g_bitmap ?g ! nat (?x + ?y * g_width ?g))"
      using index_in [OF xy] g by (simp add: data_get_def glyph_ok_def)
    then show "?f (i - rx ?s) (j - ry ?s) d = Inr (d[nat (i + j * fb_width fb) :=
        if glyph_set f ?g gp i j then blended (d ! nat (i + j * fb_width fb)) c else d ! nat (i + j * fb_width fb)])"
      unfolding at using xy ij data_access(2) [OF ok _ len] by (simp add: at_index_back pixels_overlap glyph_set_def)
  qed
  then have "fb_redrawn fb ?r (glyph_set f ?g gp) (\<lambda>i j old. blended old c)"
    by (rule fb_redrawn_if) (auto simp: glyph_set_def pixels_def dest_rect_def Let_def)
  moreover have "draw_glyph fb f cp gp c = rbind ?r (\<lambda>fb'. Inr (point_add gp (next_offset ?g), fb'))"
    unfolding draw_glyph_def Let_def self_area_eq glyph_pos_def by (simp split: if_split)
  ultimately show ?thesis by blast
qed

text \<open>Two operations in a row.\<close>

lemma fb_redrawn_seq:
  assumes "fb_redrawn fb r P g" "\<And>fb'. fb_ok fb' \<Longrightarrow> fb_bounds fb' = fb_bounds fb \<Longrightarrow> fb_redrawn fb' (k fb') Q h"
  shows "fb_redrawn fb (rbind r k) (\<lambda>i j. P i j \<or> Q i j)
    (\<lambda>i j old. if Q i j then h i j (if P i j then g i j old else old) else g i j old)"
proof -
  obtain fb1 where 1: "r = Inr fb1" "fb_ok fb1" "fb_bounds fb1 = fb_bounds fb"
    "\<forall>i j. (i, j) \<in> pixels (fb_bounds fb) \<longrightarrow> pixel fb1 (i, j) = (if P i j then g i j (pixel fb (i, j)) else pixel fb (i, j))"
    using assms(1) by (auto simp: fb_redrawn_def)
  show ?thesis using assms(2) [OF 1(2,3)] 1 by (auto simp: fb_redrawn_def)
qed

text \<open>
  A sequence of steps, each with the pixels that it covers and what it does to them: later steps work
  on what the earlier ones left.
\<close>

type_synonym layer = "(int \<Rightarrow> int \<Rightarrow> bool) \<times> (int \<Rightarrow> int \<Rightarrow> color \<Rightarrow> color)"

definition layers_cover :: "layer list \<Rightarrow> int \<Rightarrow> int \<Rightarrow> bool" where
  "layers_cover ls i j \<longleftrightarrow> (\<exists>l \<in> set ls. fst l i j)"

fun layers_value :: "layer list \<Rightarrow> int \<Rightarrow> int \<Rightarrow> color \<Rightarrow> color" where
  "layers_value [] i j old = old"
| "layers_value (l # ls) i j old = layers_value ls i j (if fst l i j then snd l i j old else old)"

lemma layers_uncovered: "\<not> layers_cover ls i j \<Longrightarrow> layers_value ls i j old = old"
  by (induction ls arbitrary: old) (auto simp: layers_cover_def)

lemma layers_Cons:
  assumes "fb_redrawn fb r P g" "\<And>fb'. fb_ok fb' \<Longrightarrow> fb_bounds fb' = fb_bounds fb \<Longrightarrow> fb_redrawn fb' (k fb') (layers_cover ls) (layers_value ls)"
  shows "fb_redrawn fb (rbind r k) (layers_cover ((P, g) # ls)) (layers_value ((P, g) # ls))"
  by (rule fb_redrawn_cong [OF fb_redrawn_seq [OF assms]]) (auto simp: layers_cover_def layers_uncovered)

lemma layers_Nil: "fb_ok fb \<Longrightarrow> fb_redrawn fb (Inr fb) (layers_cover []) (layers_value [])"
  by (rule fb_redrawn_none) (simp_all add: layers_cover_def)

text \<open>The four strips of an outline.\<close>

definition strips :: "rect \<Rightarrow> (rect \<Rightarrow> int \<Rightarrow> int \<Rightarrow> color \<Rightarrow> color) \<Rightarrow> layer list" where
  "strips r g = map (\<lambda>s. (\<lambda>i j. (i, j) \<in> pixels s, g s)) (outline_rects r)"

lemma rects_redrawn:
  assumes op: "\<And>fb r. fb_ok fb \<Longrightarrow> fb_bounds fb = b \<Longrightarrow> fb_redrawn fb (f r fb) (\<lambda>i j. (i, j) \<in> pixels r) (g r)"
  shows "fb_ok fb \<Longrightarrow> fb_bounds fb = b \<Longrightarrow>
    fb_redrawn fb (rfold f rs fb) (layers_cover (map (\<lambda>s. (\<lambda>i j. (i, j) \<in> pixels s, g s)) rs)) (layers_value (map (\<lambda>s. (\<lambda>i j. (i, j) \<in> pixels s, g s)) rs))"
proof (induction rs arbitrary: fb)
  case Nil
  then show ?case using layers_Nil [of fb] by (simp del: layers_value.simps)
next
  case (Cons r rs)
  then show ?case unfolding rfold.simps list.map by (intro layers_Cons op) auto
qed

lemma outline_redrawn:
  assumes "\<And>fb r. fb_ok fb \<Longrightarrow> fb_redrawn fb (f r fb) (\<lambda>i j. (i, j) \<in> pixels r) (\<lambda>i j. g)" "fb_ok fb"
  shows "fb_redrawn fb (rfold f (outline_rects r) fb) (layers_cover (strips r (\<lambda>s i j. g))) (layers_value (strips r (\<lambda>s i j. g)))"
  unfolding strips_def by (rule rects_redrawn [OF assms(1) assms(2) refl])

text \<open>
  With at least two rows and two columns the strips do not overlap and form the frame of the
  rectangle, so that each of its pixels is changed once. In a single row or column some pixels belong
  to two strips.
\<close>

definition on_outline :: "rect \<Rightarrow> int \<Rightarrow> int \<Rightarrow> bool" where
  "on_outline r i j \<longleftrightarrow> (i, j) \<in> pixels r \<and>
     (i = rx r \<or> i = rx r + rwidth r - 1 \<or> j = ry r \<or> j = ry r + rheight r - 1)"

lemma layers_once:
  "sorted_wrt (\<lambda>a b. pixels a \<inter> pixels b = {}) rs \<Longrightarrow>
    layers_value (map (\<lambda>s. (\<lambda>i j. (i, j) \<in> pixels s, \<lambda>i j. g)) rs) i j old = (if \<exists>s \<in> set rs. (i, j) \<in> pixels s then g old else old)"
  by (induction rs arbitrary: old) auto

lemma frame_once:
  assumes "2 \<le> rwidth r" "2 \<le> rheight r"
  shows "layers_cover (strips r g) i j = on_outline r i j"
    "layers_value (strips r (\<lambda>s i j. h)) i j old = (if on_outline r i j then h old else old)"
proof -
  have c: "(\<exists>s \<in> set (outline_rects r). (i, j) \<in> pixels s) = on_outline r i j"
    using assms by (auto simp: on_outline_def outline_rects_def pixels_def)
  then show "layers_cover (strips r g) i j = on_outline r i j" by (simp add: layers_cover_def strips_def)
  have "sorted_wrt (\<lambda>a b. pixels a \<inter> pixels b = {}) (outline_rects r)" using assms by (auto simp: outline_rects_def pixels_def)
  from layers_once [OF this] c show "layers_value (strips r (\<lambda>s i j. h)) i j old = (if on_outline r i j then h old else old)" by (simp add: strips_def)
qed

text \<open>The glyphs of a text, each at its place.\<close>

fun text_layers :: "font \<Rightarrow> 8 word list \<Rightarrow> point \<Rightarrow> color \<Rightarrow> layer list" where
  "text_layers f [] p c = []"
| "text_layers f (ch # str) p c =
     (let g = font_glyph f (scast ch) in (glyph_set f g p, \<lambda>i j old. blended old c) # text_layers f str (point_add p (next_offset g)) c)"

definition drop_point :: "(point \<times> framebuffer) result \<Rightarrow> framebuffer result" where
  "drop_point r = rbind r (\<lambda>(next, fb). Inr fb)"

lemma draw_chars_redrawn:
  assumes f: "font_ok f"
  shows "fb_ok fb \<Longrightarrow> fb_redrawn fb (drop_point (draw_chars fb f str p c)) (layers_cover (text_layers f str p c)) (layers_value (text_layers f str p c))"
proof (induction str arbitrary: fb p)
  case Nil
  then show ?case using layers_Nil [of fb] by (simp add: draw_chars_def drop_point_def del: layers_value.simps)
next
  case (Cons ch str)
  let ?g = "font_glyph f (scast ch)"
  obtain r where r: "draw_glyph fb f (scast ch) p c = rbind r (\<lambda>fb'. Inr (point_add p (next_offset ?g), fb'))"
    "fb_redrawn fb r (glyph_set f ?g p) (\<lambda>i j old. blended old c)"
    using draw_glyph_redrawn [OF Cons.prems f] by blast
  have "drop_point (draw_chars fb f (ch # str) p c) = rbind r (\<lambda>fb'. drop_point (draw_chars fb' f str (point_add p (next_offset ?g)) c))"
    by (cases r) (simp_all add: draw_chars_def drop_point_def r(1))
  then show ?case using layers_Cons [OF r(2) Cons.IH] by (simp add: Let_def del: layers_value.simps)
qed

section \<open>The drawing operations\<close>

datatype draw =
    Fill rect color
  | Fill_Blitting rect color
  | Invert rect
  | Invert_Checkered rect
  | Outline rect color
  | Outline_Blitting rect color
  | Outline_Inverting rect
  | Outline_Inverting_Checkered rect
  | Copy framebuffer rect point
  | Copy_Noalpha framebuffer rect point
  | Copy_Blitting framebuffer rect point
  | Copy_Flipped framebuffer rect point bool bool
  | Copy_Tiled framebuffer rect point
  | Draw_Image framebuffer rect point
  | Draw_Whole_Image framebuffer point
  | Multiply color
  | Put point color
  | Glyph font "32 word" point color
  | Draw_Text font "8 word list" point color
  | Draw_Text_Len font "8 word list" nat point color

fun draw_exec :: "framebuffer \<Rightarrow> draw \<Rightarrow> framebuffer result" where
  "draw_exec fb (Fill r c) = fill fb r c"
| "draw_exec fb (Fill_Blitting r c) = fill_blitting fb r c"
| "draw_exec fb (Invert r) = invert fb r"
| "draw_exec fb (Invert_Checkered r) = invert_checkered fb r"
| "draw_exec fb (Outline r c) = outline fb r c"
| "draw_exec fb (Outline_Blitting r c) = outline_blitting fb r c"
| "draw_exec fb (Outline_Inverting r) = outline_inverting fb r"
| "draw_exec fb (Outline_Inverting_Checkered r) = outline_inverting_checkered fb r"
| "draw_exec fb (Copy src a p) = fb_copy fb src a p"
| "draw_exec fb (Copy_Noalpha src a p) = fb_copy_noalpha fb src a p"
| "draw_exec fb (Copy_Blitting src a p) = fb_copy_blitting fb src a p"
| "draw_exec fb (Copy_Flipped src a p fh fv) = fb_copy_blitting_flipped fb src a p fh fv"
| "draw_exec fb (Copy_Tiled src a p) = fb_copy_tiled fb src a p"
| "draw_exec fb (Draw_Image src a p) = draw_image fb src a p"
| "draw_exec fb (Draw_Whole_Image src p) = draw_whole_image fb src p"
| "draw_exec fb (Multiply c) = multiply fb c"
| "draw_exec fb (Put p c) = put fb p c"
| "draw_exec fb (Glyph f cp p c) = drop_point (draw_glyph fb f cp p c)"
| "draw_exec fb (Draw_Text f str p c) = drop_point (draw_text fb f str p c)"
| "draw_exec fb (Draw_Text_Len f str len p c) = drop_point (draw_text_len fb f str len p c)"

text \<open>
  What the caller must see to, since the code does not check it: the source area of a copy lies
  within the source, and for the plain copy it has no negative size; a tiled source is not empty and
  its area starts at coordinates that are not negative; the bitmaps of a font have the size of their
  glyphs; a text has its terminator or the given number of characters.
\<close>

fun draw_valid :: "draw \<Rightarrow> bool" where
  "draw_valid (Copy src a p) = (source_ok src a \<and> 0 \<le> rwidth a \<and> 0 \<le> rheight a)"
| "draw_valid (Copy_Noalpha src a p) = source_ok src a"
| "draw_valid (Copy_Blitting src a p) = source_ok src a"
| "draw_valid (Copy_Flipped src a p fh fv) = source_ok src a"
| "draw_valid (Copy_Tiled src a p) = (fb_ok src \<and> 0 < fb_width src \<and> 0 < fb_height src \<and> 0 \<le> rx a \<and> 0 \<le> ry a)"
| "draw_valid (Draw_Image src a p) = source_ok src a"
| "draw_valid (Draw_Whole_Image src p) = fb_ok src"
| "draw_valid (Glyph f cp p c) = font_ok f"
| "draw_valid (Draw_Text f str p c) = (font_ok f \<and> 0 \<in> set str)"
| "draw_valid (Draw_Text_Len f str len p c) = (font_ok f \<and> len \<le> length str)"
| "draw_valid _ = True"

text \<open>The pixels an operation covers, before clipping.\<close>

fun draw_covers :: "draw \<Rightarrow> int \<Rightarrow> int \<Rightarrow> bool" where
  "draw_covers (Fill r c) = (\<lambda>i j. ((i, j) \<in> pixels r))"
| "draw_covers (Fill_Blitting r c) = (\<lambda>i j. ((i, j) \<in> pixels r))"
| "draw_covers (Invert r) = (\<lambda>i j. ((i, j) \<in> pixels r))"
| "draw_covers (Invert_Checkered r) = (\<lambda>i j. ((i, j) \<in> pixels r))"
| "draw_covers (Outline r c) = layers_cover (strips r (\<lambda>s i j old. c))"
| "draw_covers (Outline_Blitting r c) = layers_cover (strips r (\<lambda>s i j old. blended old c))"
| "draw_covers (Outline_Inverting r) = layers_cover (strips r (\<lambda>s i j. inverted))"
| "draw_covers (Outline_Inverting_Checkered r) = layers_cover (strips r (\<lambda>s i j. inverted))"
| "draw_covers (Copy src a p) = (\<lambda>i j. ((i, j) \<in> pixels (dest_rect a p)))"
| "draw_covers (Copy_Noalpha src a p) = (\<lambda>i j. ((i, j) \<in> pixels (dest_rect a p)))"
| "draw_covers (Copy_Blitting src a p) = (\<lambda>i j. ((i, j) \<in> pixels (dest_rect a p)))"
| "draw_covers (Copy_Flipped src a p fh fv) = (\<lambda>i j. ((i, j) \<in> pixels (dest_rect a p)))"
| "draw_covers (Copy_Tiled src a p) = (\<lambda>i j. ((i, j) \<in> pixels (dest_rect a p)))"
| "draw_covers (Draw_Image src a p) = (\<lambda>i j. ((i, j) \<in> pixels (dest_rect a p)))"
| "draw_covers (Draw_Whole_Image src p) = (\<lambda>i j. ((i, j) \<in> pixels (mk_rect (px p) (py p) (fb_width src) (fb_height src))))"
| "draw_covers (Multiply c) = (\<lambda>i j. True)"
| "draw_covers (Put p c) = (\<lambda>i j. (i = px p \<and> j = py p))"
| "draw_covers (Glyph f cp p c) = glyph_set f (font_glyph f cp) p"
| "draw_covers (Draw_Text f str p c) = layers_cover (text_layers f (takeWhile (\<lambda>ch. ch \<noteq> 0) str) p c)"
| "draw_covers (Draw_Text_Len f str len p c) = layers_cover (text_layers f (take len str) p c)"

text \<open>What becomes of the old colour of a covered pixel; the area is the clipped one.\<close>

fun draw_value :: "framebuffer \<Rightarrow> draw \<Rightarrow> int \<Rightarrow> int \<Rightarrow> color \<Rightarrow> color" where
  "draw_value fb (Fill r c) = (\<lambda>i j old. c)"
| "draw_value fb (Fill_Blitting r c) = (\<lambda>i j old. blended old c)"
| "draw_value fb (Invert r) = (\<lambda>i j old. inverted old)"
| "draw_value fb (Invert_Checkered r) = (\<lambda>i j old. (if checkered (overlapping_area r (fb_bounds fb)) i j then inverted old else old))"
| "draw_value fb (Outline r c) = layers_value (strips r (\<lambda>s i j old. c))"
| "draw_value fb (Outline_Blitting r c) = layers_value (strips r (\<lambda>s i j old. blended old c))"
| "draw_value fb (Outline_Inverting r) = layers_value (strips r (\<lambda>s i j. inverted))"
| "draw_value fb (Outline_Inverting_Checkered r) =
     layers_value (strips r (\<lambda>s i j old. if checkered (overlapping_area s (fb_bounds fb)) i j then inverted old else old))"
| "draw_value fb (Copy src a p) = (\<lambda>i j old. pixel src (source_pos a p i j))"
| "draw_value fb (Copy_Noalpha src a p) = (\<lambda>i j old. RGBA 0 0 0 255 OR pixel src (source_pos a p i j))"
| "draw_value fb (Copy_Blitting src a p) = (\<lambda>i j old. blended old (pixel src (source_pos a p i j)))"
| "draw_value fb (Copy_Flipped src a p fh fv) = (\<lambda>i j old. blended old (pixel src (case flip_pos (self_area fb a p) fh fv i j of (i', j') \<Rightarrow> source_pos a p i' j')))"
| "draw_value fb (Copy_Tiled src a p) = (\<lambda>i j old. pixel src (fst (source_pos a p i j) mod fb_width src, snd (source_pos a p i j) mod fb_height src))"
| "draw_value fb (Draw_Image src a p) = (\<lambda>i j old. blended old (pixel src (source_pos a p i j)))"
| "draw_value fb (Draw_Whole_Image src p) = (\<lambda>i j old. blended old (pixel src (i - px p, j - py p)))"
| "draw_value fb (Multiply c) = (\<lambda>i j old. color_mul old c)"
| "draw_value fb (Put p c) = (\<lambda>i j old. c)"
| "draw_value fb (Glyph f cp p c) = (\<lambda>i j old. blended old c)"
| "draw_value fb (Draw_Text f str p c) = layers_value (text_layers f (takeWhile (\<lambda>ch. ch \<noteq> 0) str) p c)"
| "draw_value fb (Draw_Text_Len f str len p c) = layers_value (text_layers f (take len str) p c)"

lemma outline_checkered_redrawn:
  assumes "fb_ok fb"
  shows "fb_redrawn fb (outline_inverting_checkered fb r) (draw_covers (Outline_Inverting_Checkered r)) (draw_value fb (Outline_Inverting_Checkered r))"
proof -
  let ?g = "\<lambda>s i j old. if checkered (overlapping_area s (fb_bounds fb)) i j then inverted old else old"
  have "fb_redrawn fb (outline_inverting_checkered fb r) (layers_cover (strips r ?g)) (layers_value (strips r ?g))"
    unfolding outline_inverting_checkered_def strips_def
  proof (rule rects_redrawn [OF _ assms refl])
    fix fb' and r' :: rect
    assume "fb_ok fb'" "fb_bounds fb' = fb_bounds fb"
    then show "fb_redrawn fb' (invert_checkered fb' r') (\<lambda>i j. (i, j) \<in> pixels r') (?g r')" using invert_checkered_redrawn [of fb' r'] by simp
  qed
  then show ?thesis by (rule fb_redrawn_cong) (simp_all add: layers_cover_def strips_def)
qed

lemma whole_image_redrawn:
  assumes "fb_ok fb" "fb_ok src"
  shows "fb_redrawn fb (draw_whole_image fb src p) (draw_covers (Draw_Whole_Image src p)) (draw_value fb (Draw_Whole_Image src p))"
proof -
  let ?a = "mk_rect 0 0 (fb_width src) (fb_height src)"
  have "source_ok src ?a" using assms(2) by (simp add: source_ok_def inside_def fb_bounds_def)
  from draw_image_redrawn [OF assms(1) this, of p] show ?thesis
    unfolding draw_whole_image_def by (rule fb_redrawn_cong) (simp_all add: dest_rect_def source_pos_def)
qed

lemma text_redrawn:
  assumes "fb_ok fb" "font_ok f"
  shows "0 \<in> set str \<Longrightarrow> fb_redrawn fb (drop_point (draw_text fb f str p c)) (draw_covers (Draw_Text f str p c)) (draw_value fb (Draw_Text f str p c))"
    "len \<le> length str \<Longrightarrow> fb_redrawn fb (drop_point (draw_text_len fb f str len p c)) (draw_covers (Draw_Text_Len f str len p c)) (draw_value fb (Draw_Text_Len f str len p c))"
  using draw_chars_redrawn [OF assms(2,1)] layers_Nil [OF assms(1)] by (simp_all add: draw_text_def draw_text_len_def drop_point_def)

lemma glyph_redrawn:
  assumes "fb_ok fb" "font_ok f"
  shows "fb_redrawn fb (drop_point (draw_glyph fb f cp p c)) (glyph_set f (font_glyph f cp) p) (\<lambda>i j old. blended old c)"
proof -
  obtain r where r: "draw_glyph fb f cp p c = rbind r (\<lambda>fb'. Inr (point_add p (next_offset (font_glyph f cp)), fb'))"
    "fb_redrawn fb r (glyph_set f (font_glyph f cp) p) (\<lambda>i j old. blended old c)" using draw_glyph_redrawn [OF assms] by blast
  have "drop_point (draw_glyph fb f cp p c) = r" by (cases r) (simp_all add: drop_point_def r(1))
  then show ?thesis using r(2) by simp
qed

lemmas draw_redraws =
  fill_redrawn fill_blitting_redrawn invert_redrawn invert_checkered_redrawn
  outline_redrawn [where f = "\<lambda>r fb. fill fb r c" and g = "\<lambda>old. c" for c, OF fill_redrawn]
  outline_redrawn [where f = "\<lambda>r fb. fill_blitting fb r c" and g = "\<lambda>old. blended old c" for c, OF fill_blitting_redrawn]
  outline_redrawn [where f = "\<lambda>r fb. invert fb r" and g = inverted, OF invert_redrawn]
  copy_redrawn copy_noalpha_redrawn copy_blitting_redrawn copy_flipped_redrawn copy_tiled_redrawn
  draw_image_redrawn multiply_redrawn put_redrawn glyph_redrawn

lemmas composed_redraws = outline_checkered_redrawn whole_image_redrawn text_redrawn

text \<open>
  C21. Filling, inverting, outlining, copying, blending, tiling, multiplying, single pixels, glyphs and
  text, on a framebuffer whose array has the size of its dimensions: the operation stays within the
  array for every position and size of the area it draws to, clipped or wholly outside included. It
  keeps the dimensions, gives each pixel that it covers the value that \<open>draw_value\<close> says, and leaves
  every other pixel as it was. The caller keeps to \<open>draw_valid\<close>: the source area of a copy lies within
  the source (and has no negative size for \<open>copy\<close>), the source of \<open>copy_tiled\<close> is not empty and its area
  does not start at negative coordinates, the bitmaps of a font have the size of their glyphs, and a
  text has its terminator or length. The two operations that compute with floating-point numbers,
  \<open>draw_image_scaled\<close> and the gradients, are not covered.
\<close>

theorem framebuffer_draws:
  assumes "fb_ok fb" "draw_valid op"
  shows "\<exists>fb'. draw_exec fb op = Inr fb' \<and> fb_ok fb' \<and> fb_bounds fb' = fb_bounds fb \<and>
    (\<forall>i j. (i, j) \<in> pixels (fb_bounds fb) \<longrightarrow>
       pixel fb' (i, j) = (if draw_covers op i j then draw_value fb op i j (pixel fb (i, j)) else pixel fb (i, j)))"
proof -
  have "fb_redrawn fb (draw_exec fb op) (draw_covers op) (draw_value fb op)"
  proof (cases op)
    case (Outline_Inverting_Checkered r)
    show ?thesis unfolding Outline_Inverting_Checkered draw_exec.simps by (rule composed_redraws) (rule assms)
  next
    case (Draw_Whole_Image src p)
    then show ?thesis using assms unfolding Draw_Whole_Image draw_exec.simps by (intro composed_redraws) simp_all
  next
    case (Draw_Text f str p c)
    then show ?thesis using assms unfolding Draw_Text draw_exec.simps by (intro composed_redraws) simp_all
  next
    case (Draw_Text_Len f str len p c)
    then show ?thesis using assms unfolding Draw_Text_Len draw_exec.simps by (intro composed_redraws) simp_all
  qed (use assms in \<open>simp_all add: outline_def outline_blitting_def outline_inverting_def draw_redraws\<close>)
  then show ?thesis by (simp add: fb_redrawn_def)
qed

definition fb_small :: framebuffer where
  "fb_small = \<lparr>fb_null = False, fb_data = [1, 2, 3, 4], fb_width = 2, fb_height = 2\<rparr>"

theorem framebuffer_draws_witness:
  "\<exists>fb'. draw_exec fb_small (Copy fb_small (mk_rect 0 0 2 2) (mk_point (- 1) 0)) = Inr fb' \<and>
     map (pixel fb') [(0, 0), (1, 0), (0, 1), (1, 1)] = [2, 2, 4, 4]"
proof -
  let ?op = "Copy fb_small (mk_rect 0 0 2 2) (mk_point (- 1) 0)"
  have "fb_ok fb_small" "draw_valid ?op" by (simp_all add: fb_ok_def fb_small_def source_ok_def inside_def fb_bounds_def)
  from framebuffer_draws [OF this] obtain fb' where fb': "draw_exec fb_small ?op = Inr fb'"
    "\<And>i j. (i, j) \<in> pixels (fb_bounds fb_small) \<Longrightarrow> pixel fb' (i, j) =
      (if draw_covers ?op i j then draw_value fb_small ?op i j (pixel fb_small (i, j)) else pixel fb_small (i, j))" by blast
  have "map (pixel fb') [(0, 0), (1, 0), (0, 1), (1, 1)] = [2, 2, 4, 4]"
    using fb'(2) [of 0 0] fb'(2) [of 1 0] fb'(2) [of 0 1] fb'(2) [of 1 1]
    by (simp add: pixels_def fb_bounds_def fb_small_def pixel_def dest_rect_def source_pos_def)
  then show ?thesis using fb'(1) by (intro exI [of _ fb'] conjI)
qed

section \<open>Serialization round trip\<close>

lemma fb_serialize_roundtrip:
  assumes ok: "fb_ok fb" and fb: "\<not> fb_null fb" "0 < fb_width fb" "fb_width fb < 2 ^ 31" "0 < fb_height fb" "fb_height fb < 2 ^ 31"
  shows "\<exists>fb'. fb_deserialize fb0 (fb_serialize fb old @ rest) = Inr (fb', rest) \<and> fb_data fb' = fb_data fb \<and> fb_bounds fb' = fb_bounds fb"
proof -
  have w: "sint (word_of_int k :: 32 word) = k" if "0 < k" "k < 2 ^ 31" for k
    using that by (simp add: signed_take_bit_int_eq_self sint_sbintrunc')
  have "nat (fb_width fb * fb_height fb) = length (fb_data fb)" using ok by (metis fb_ok_def nat_int)
  then show ?thesis using fb by (simp add: fb_serialize_def fb_deserialize_def Let_def w fb_bounds_def)
qed

end
