(* ===== verification/PageDirectory.thy ===== *)
theory PageDirectory
  imports Bitmap
begin

text \<open>
  Page tables of the i386 kernel (\<open>src/kernel/arch/i386/PageDirectory.cpp\<close>) and the mapping of
  regions into them (\<open>src/kernel/memory/PageDirectory.cpp\<close>). \<open>size_t\<close> has 32 bits and a page has
  4096 bytes. The arrays of the directory are functions of the index; an index is always taken
  modulo 1024. A new page table is zeroed, and where the kernel keeps it is left out.
\<close>

section \<open>Addresses, protections, objects and regions\<close>

definition add32 :: "nat \<Rightarrow> nat \<Rightarrow> nat" where "add32 a b = (a + b) mod 4294967296"
definition sub32 :: "nat \<Rightarrow> nat \<Rightarrow> nat" where "sub32 a b = (a + 4294967296 - b) mod 4294967296"

lemma add32_small [simp]: "a + b < 4294967296 \<Longrightarrow> add32 a b = a + b"
  by (simp add: add32_def)

lemma sub32_small [simp]: "b \<le> a \<Longrightarrow> a < 4294967296 \<Longrightarrow> sub32 a b = a - b"
  by (simp add: sub32_def mod_if)

definition HIGHER_HALF :: nat where "HIGHER_HALF = 3221225472"

record vm_prot =
  prot_read :: bool
  prot_write :: bool
  prot_execute :: bool

record virtual_range =
  range_start :: nat
  range_size :: nat

definition range_end :: "virtual_range \<Rightarrow> nat" where
  "range_end r = add32 (range_start r) (range_size r)"

definition range_contains :: "virtual_range \<Rightarrow> nat \<Rightarrow> bool" where
  "range_contains r a \<longleftrightarrow> a \<ge> range_start r \<and> a < range_end r"

record vm_object =
  physical_pages :: "nat list"
  cow_pages :: bitmap
  obj_size :: nat

text \<open>\<open>VMRegion\<close>; \<open>in_space\<close> says whether the weak pointer to the address space is set.\<close>

record vm_region =
  vr_object :: nat
  in_space :: bool
  vr_range :: virtual_range
  object_start :: nat
  vr_prot :: vm_prot

definition object_physical_page :: "vm_object \<Rightarrow> nat \<Rightarrow> nat result" where
  "object_physical_page ob index = rassert (index < length (physical_pages ob)) (Inr (physical_pages ob ! index))"

section \<open>Page tables\<close>

record pt_entry =
  e_present :: bool
  e_read_write :: bool
  e_user :: bool
  page_addr :: nat

definition entry_zero :: pt_entry where
  "entry_zero = \<lparr>e_present = False, e_read_write = False, e_user = False, page_addr = 0\<rparr>"

definition entry_set_address :: "nat \<Rightarrow> pt_entry \<Rightarrow> pt_entry" where
  "entry_set_address address e = e\<lparr>page_addr := (address div 4096) mod 1048576\<rparr>"

definition entry_get_address :: "pt_entry \<Rightarrow> nat" where
  "entry_get_address e = page_addr e * 4096"

datatype directory_type = USER | KERNEL

record page_directory =
  m_type :: directory_type
  m_present :: "nat \<Rightarrow> bool"
  m_page_tables :: "nat \<Rightarrow> (nat \<Rightarrow> pt_entry) option"
  num_mapped :: "nat \<Rightarrow> int"
  s_kernel_present :: "nat \<Rightarrow> bool"
  s_kernel_page_tables :: "nat \<Rightarrow> nat \<Rightarrow> pt_entry"

text \<open>The kernel's tables after \<open>init_paging\<close>, and a directory that shares them.\<close>

definition kernel_present :: "nat \<Rightarrow> bool" where
  "kernel_present i \<longleftrightarrow> 768 \<le> i \<and> i < 1024"

definition pd_new :: "directory_type \<Rightarrow> (nat \<Rightarrow> nat \<Rightarrow> pt_entry) \<Rightarrow> page_directory" where
  "pd_new t ktables =
     \<lparr>m_type = t, m_present = (\<lambda>i. if 768 \<le> i then kernel_present i else False), m_page_tables = (\<lambda>_. None),
      num_mapped = (\<lambda>_. 0), s_kernel_present = kernel_present, s_kernel_page_tables = ktables\<rparr>"

definition get_physaddr :: "page_directory \<Rightarrow> nat \<Rightarrow> nat" where
  "get_physaddr pd virtaddr =
     (let page = virtaddr div 4096; directory_index = (page div 1024) mod 1024; table_index = page mod 1024 in
      if virtaddr < HIGHER_HALF then
        if \<not> m_present pd directory_index then 4294967295
        else case m_page_tables pd directory_index of
          None \<Rightarrow> 4294967295
        | Some t \<Rightarrow> add32 (entry_get_address (t table_index)) (virtaddr mod 4096)
      else
        if \<not> s_kernel_present pd directory_index then 4294967295
        else add32 (entry_get_address (s_kernel_page_tables pd (directory_index - 768) table_index)) (virtaddr mod 4096))"

definition alloc_page_table :: "page_directory \<Rightarrow> nat \<Rightarrow> page_directory" where
  "alloc_page_table pd i =
     (if m_page_tables pd i \<noteq> None then pd
      else pd\<lparr>m_page_tables := (m_page_tables pd)(i := Some (\<lambda>_. entry_zero)), m_present := (m_present pd)(i := True)\<rparr>)"

definition dealloc_page_table :: "page_directory \<Rightarrow> nat \<Rightarrow> page_directory" where
  "dealloc_page_table pd i =
     (if m_page_tables pd i = None then pd
      else pd\<lparr>m_page_tables := (m_page_tables pd)(i := None), m_present := (m_present pd)(i := False)\<rparr>)"

definition is_mapped :: "page_directory \<Rightarrow> nat \<Rightarrow> bool \<Rightarrow> bool" where
  "is_mapped pd vaddr write \<longleftrightarrow>
     (let page = vaddr div 4096; directory_index = (page div 1024) mod 1024 in
      if vaddr < HIGHER_HALF then
        m_present pd directory_index \<and>
        (case m_page_tables pd directory_index of
           None \<Rightarrow> False
         | Some t \<Rightarrow> e_present (t (page mod 1024)) \<and> (write \<longrightarrow> e_read_write (t (page mod 1024))))
      else
        s_kernel_present pd directory_index \<and>
        (let e = s_kernel_page_tables pd (directory_index - 768) (page mod 1024) in e_present e \<and> (\<not> write \<or> e_read_write e)))"

definition new_entry :: "nat \<Rightarrow> nat \<Rightarrow> vm_prot \<Rightarrow> pt_entry \<Rightarrow> pt_entry" where
  "new_entry directory_index ppage prot e =
     entry_set_address ((ppage * 4096) mod 4294967296)
       (e\<lparr>e_present := True, e_read_write := prot_write prot, e_user := directory_index < 768\<rparr>)"

definition map_page :: "page_directory \<Rightarrow> nat \<Rightarrow> nat \<Rightarrow> vm_prot \<Rightarrow> page_directory result" where
  "map_page pd vpage ppage prot =
     (let directory_index = (vpage div 1024) mod 1024; table_index = vpage mod 1024 in
      if directory_index < 768 then
        if m_type pd \<noteq> USER then Inl (Err EINVAL)
        else
          let pd1 = (if m_page_tables pd directory_index = None then alloc_page_table pd directory_index else pd) in
          case m_page_tables pd1 directory_index of
            None \<Rightarrow> Inl Undefined
          | Some t \<Rightarrow>
              Inr (pd1\<lparr>num_mapped := (if e_present (t table_index) then num_mapped pd1
                                        else (num_mapped pd1)(directory_index := num_mapped pd1 directory_index + 1)),
                         m_page_tables := (m_page_tables pd1)
                           (directory_index := Some (t(table_index := new_entry directory_index ppage prot (t table_index))))\<rparr>)
      else
        if m_type pd \<noteq> KERNEL then Inl (Err EINVAL)
        else
          let ts = s_kernel_page_tables pd; t = ts (directory_index - 768) in
          Inr (pd\<lparr>s_kernel_page_tables := ts(directory_index - 768 := t(table_index := new_entry directory_index ppage prot (t table_index)))\<rparr>))"

definition unmap_page :: "page_directory \<Rightarrow> nat \<Rightarrow> page_directory result" where
  "unmap_page pd vpage =
     (let directory_index = (vpage div 1024) mod 1024; table_index = vpage mod 1024 in
      if directory_index < 768 then
        if m_type pd \<noteq> USER then Inl (Err EINVAL)
        else
          let pd1 = (if m_page_tables pd directory_index = None then alloc_page_table pd directory_index else pd) in
          case m_page_tables pd1 directory_index of
            None \<Rightarrow> Inl Undefined
          | Some t \<Rightarrow>
              let pd2 = pd1\<lparr>num_mapped := (if e_present (t table_index)
                                             then (num_mapped pd1)(directory_index := num_mapped pd1 directory_index - 1)
                                             else num_mapped pd1),
                            m_page_tables := (m_page_tables pd1)(directory_index := Some (t(table_index := entry_zero)))\<rparr>
              in Inr (if num_mapped pd2 directory_index = 0 then dealloc_page_table pd2 directory_index else pd2)
      else
        if m_type pd \<noteq> KERNEL then Inl (Err EINVAL)
        else
          let ts = s_kernel_page_tables pd; t = ts (directory_index - 768) in
          Inr (pd\<lparr>s_kernel_page_tables := ts(directory_index - 768 := t(table_index := entry_zero))\<rparr>))"

section \<open>Mapping a region\<close>

text \<open>The loops end at the first page that cannot be mapped.\<close>

fun pd_map_loop :: "vm_region \<Rightarrow> vm_object \<Rightarrow> nat list \<Rightarrow> page_directory \<Rightarrow> page_directory result" where
  "pd_map_loop r ob [] pd = Inr pd"
| "pd_map_loop r ob (page_index # rest) pd =
     rbind (object_physical_page ob (page_index + object_start r div 4096)) (\<lambda>page.
     if page = 0 then pd_map_loop r ob rest pd
     else rbind (bitmap_get (cow_pages ob) page_index) (\<lambda>cow.
       case map_page pd (range_start (vr_range r) div 4096 + page_index) page
              (let prot = vr_prot r in \<lparr>prot_read = prot_read prot, prot_write = (if cow then False else prot_write prot), prot_execute = prot_execute prot\<rparr>) of
         Inl (Err e) \<Rightarrow> Inr pd
       | Inl f \<Rightarrow> Inl f
       | Inr pd' \<Rightarrow> pd_map_loop r ob rest pd'))"

fun pd_unmap_loop :: "nat \<Rightarrow> nat list \<Rightarrow> page_directory \<Rightarrow> page_directory result" where
  "pd_unmap_loop start_vpage [] pd = Inr pd"
| "pd_unmap_loop start_vpage (page_index # rest) pd =
     (case unmap_page pd (start_vpage + page_index) of
        Inl (Err e) \<Rightarrow> Inr pd
      | Inl f \<Rightarrow> Inl f
      | Inr pd' \<Rightarrow> pd_unmap_loop start_vpage rest pd')"

definition whole_if_null :: "vm_region \<Rightarrow> virtual_range \<Rightarrow> virtual_range" where
  "whole_if_null r rg = (if range_size rg = 0 then rg\<lparr>range_size := range_size (vr_range r)\<rparr> else rg)"

definition range_asserts :: "vm_region \<Rightarrow> virtual_range \<Rightarrow> bool" where
  "range_asserts r rg \<longleftrightarrow> range_start rg mod 4096 = 0 \<and> range_size rg mod 4096 = 0 \<and>
     add32 (range_start rg) (range_size rg) \<le> range_end (vr_range r)"

definition range_pages :: "virtual_range \<Rightarrow> nat list" where
  "range_pages rg = [range_start rg div 4096..<add32 (range_start rg) (range_size rg) div 4096]"

definition pd_map :: "page_directory \<Rightarrow> vm_region \<Rightarrow> vm_object \<Rightarrow> virtual_range \<Rightarrow> page_directory result" where
  "pd_map pd r ob rg0 =
     (let rg = whole_if_null r rg0 in
      rassert (prot_read (vr_prot r)) (rassert (range_asserts r rg) (pd_map_loop r ob (range_pages rg) pd)))"

definition pd_unmap :: "page_directory \<Rightarrow> vm_region \<Rightarrow> virtual_range \<Rightarrow> page_directory result" where
  "pd_unmap pd r rg0 =
     (let rg = whole_if_null r rg0 in
      rassert (range_asserts r rg)
        (if range_end (vr_range r) > HIGHER_HALF \<and> m_type pd \<noteq> KERNEL then Inr pd
         else pd_unmap_loop (range_start (vr_range r) div 4096) (range_pages rg) pd))"


section \<open>A directory as a function\<close>

text \<open>What the hardware finds for a page: the frame, and whether it may be written.\<close>

definition entry_of :: "page_directory \<Rightarrow> nat \<Rightarrow> pt_entry option" where
  "entry_of pd vpage =
     (let d = (vpage div 1024) mod 1024; i = vpage mod 1024 in
      if d < 768 then if m_present pd d then map_option (\<lambda>t. t i) (m_page_tables pd d) else None
      else if s_kernel_present pd d then Some (s_kernel_page_tables pd (d - 768) i) else None)"

definition translate :: "page_directory \<Rightarrow> nat \<Rightarrow> (nat \<times> bool) option" where
  "translate pd vpage =
     (case entry_of pd vpage of
        None \<Rightarrow> None
      | Some e \<Rightarrow> if e_present e then Some (page_addr e, e_read_write e) else None)"

definition mapped_in :: "(nat \<Rightarrow> pt_entry) \<Rightarrow> nat set" where
  "mapped_in t = {i. i < 1024 \<and> e_present (t i)}"

text \<open>An entry that is not present is clear.\<close>

definition entry_ok :: "pt_entry \<Rightarrow> bool" where
  "entry_ok e \<longleftrightarrow> page_addr e < 1048576 \<and> (\<not> e_present e \<longrightarrow> page_addr e = 0)"

definition pd_ok :: "page_directory \<Rightarrow> bool" where
  "pd_ok pd \<longleftrightarrow> (\<forall>v e. entry_of pd v = Some e \<longrightarrow> entry_ok e) \<and>
     (\<forall>d < 768. case m_page_tables pd d of
        None \<Rightarrow> \<not> m_present pd d \<and> num_mapped pd d = 0
      | Some t \<Rightarrow> m_present pd d \<and> num_mapped pd d = int (card (mapped_in t)) \<and> mapped_in t \<noteq> {}) \<and>
     (\<forall>d. 768 \<le> d \<longrightarrow> d < 1024 \<longrightarrow> s_kernel_present pd d)"

definition own_page :: "page_directory \<Rightarrow> nat \<Rightarrow> bool" where
  "own_page pd vpage \<longleftrightarrow> (if vpage < 786432 then m_type pd = USER else m_type pd = KERNEL)"

lemma mapped_in_upd:
  assumes "i < 1024"
  shows "mapped_in (t(i := e)) = (if e_present e then insert i (mapped_in t) else mapped_in t - {i})"
  using assms by (auto simp: mapped_in_def)

lemma mapped_in_finite [simp]: "finite (mapped_in t)"
  by (simp add: mapped_in_def)

lemma mapped_in_none: "mapped_in (\<lambda>_. entry_zero) = {}"
  by (simp add: mapped_in_def entry_zero_def)

lemma page_split: "v = v' \<longleftrightarrow> v div 1024 = v' div 1024 \<and> v mod 1024 = (v' mod 1024 :: nat)"
  by (metis div_mult_mod_eq)

lemma dir_index: "vpage < (1048576 :: nat) \<Longrightarrow> (vpage div 1024) mod 1024 = vpage div 1024 \<and> (vpage div 1024 < 768 \<longleftrightarrow> vpage < 786432)"
  by (auto simp: div_less_iff_less_mult)

text \<open>Only user pages have tables that come and go.\<close>

lemma pd_okD:
  assumes "pd_ok pd" "d < 768"
  shows "m_page_tables pd d = None \<Longrightarrow> \<not> m_present pd d \<and> num_mapped pd d = 0"
    "m_page_tables pd d = Some t \<Longrightarrow> m_present pd d \<and> num_mapped pd d = int (card (mapped_in t)) \<and> mapped_in t \<noteq> {}"
  using assms by (auto simp: pd_ok_def split: option.splits)

text \<open>A change of one table keeps the directory consistent, and the pages of the other tables as they were.\<close>

lemma table_step:
  assumes ok: "pd_ok pd" and d: "d < 768"
    and T: "case T of None \<Rightarrow> n = 0 | Some t \<Rightarrow> n = int (card (mapped_in t)) \<and> mapped_in t \<noteq> {} \<and> (\<forall>i < 1024. entry_ok (t i))"
    and pd': "m_page_tables pd' = (m_page_tables pd)(d := T)" "m_present pd' = (m_present pd)(d := T \<noteq> None)"
      "num_mapped pd' = (num_mapped pd)(d := n)"
      "s_kernel_present pd' = s_kernel_present pd" "s_kernel_page_tables pd' = s_kernel_page_tables pd"
  shows "pd_ok pd'" "entry_of pd' v = (if (v div 1024) mod 1024 = d then map_option (\<lambda>t. t (v mod 1024)) T else entry_of pd v)"
proof -
  show entry: "entry_of pd' v = (if (v div 1024) mod 1024 = d then map_option (\<lambda>t. t (v mod 1024)) T else entry_of pd v)" for v
    using d by (cases T) (auto simp: entry_of_def pd' Let_def)
  have "entry_ok e" if "entry_of pd' v = Some e" for v e
    using that ok T by (auto simp: entry pd_ok_def split: if_splits option.splits)
  then show "pd_ok pd'" using ok T by (auto simp: pd_ok_def pd' split: option.splits)
qed

text \<open>The table of a directory entry, zeroed if there is none yet.\<close>

definition table_or_new :: "page_directory \<Rightarrow> nat \<Rightarrow> nat \<Rightarrow> pt_entry" where
  "table_or_new pd d = (case m_page_tables pd d of None \<Rightarrow> (\<lambda>_. entry_zero) | Some t \<Rightarrow> t)"

definition with_table :: "page_directory \<Rightarrow> nat \<Rightarrow> page_directory" where
  "with_table pd d = (if m_page_tables pd d = None then alloc_page_table pd d else pd)"

lemma with_table_ok:
  assumes "pd_ok pd" "d < 768"
  shows "m_page_tables (with_table pd d) = (m_page_tables pd)(d := Some (table_or_new pd d))"
    "m_present (with_table pd d) = (m_present pd)(d := True)"
    "num_mapped (with_table pd d) = num_mapped pd" "m_type (with_table pd d) = m_type pd"
    "s_kernel_present (with_table pd d) = s_kernel_present pd"
    "s_kernel_page_tables (with_table pd d) = s_kernel_page_tables pd"
    "num_mapped pd d = int (card (mapped_in (table_or_new pd d)))"
  using pd_okD [OF assms] mapped_in_none
  by (auto simp: with_table_def alloc_page_table_def table_or_new_def fun_eq_iff split: option.splits)

lemma entry_zero_ok: "entry_ok entry_zero"
  by (simp add: entry_ok_def entry_zero_def)

lemma table_entries_ok:
  assumes "pd_ok pd" "d < 768" "i < 1024"
  shows "entry_ok (table_or_new pd d i)"
proof (cases "m_page_tables pd d")
  case None
  then show ?thesis by (simp add: table_or_new_def entry_zero_ok)
next
  case (Some t)
  have "entry_of pd (d * 1024 + i) = Some (t i)" using pd_okD(2) [OF assms(1,2) Some] assms Some by (simp add: entry_of_def Let_def)
  then show ?thesis using assms(1) Some by (auto simp: pd_ok_def table_or_new_def)
qed

lemma entry_of_table:
  assumes "pd_ok pd" "(v div 1024) mod 1024 = d" "d < 768"
  shows "translate pd v = (let e = table_or_new pd d (v mod 1024) in if e_present e then Some (page_addr e, e_read_write e) else None)"
  using pd_okD [OF assms(1,3)] assms(2,3)
  by (auto simp: translate_def entry_of_def table_or_new_def entry_zero_def Let_def split: option.splits)

lemma card_entry:
  assumes "i < 1024"
  shows "int (card (mapped_in (t(i := e)))) =
    int (card (mapped_in t)) + (if e_present e then 1 else 0) - (if e_present (t i) then 1 else 0)"
proof (cases "e_present (t i)")
  case True
  then have "i \<in> mapped_in t" using assms by (simp add: mapped_in_def)
  then show ?thesis using True card_Suc_Diff1 [of "mapped_in t" i] by (auto simp: mapped_in_upd [OF assms] insert_absorb)
next
  case False
  then have "i \<notin> mapped_in t" by (simp add: mapped_in_def)
  then show ?thesis using False by (simp add: mapped_in_upd [OF assms])
qed


section \<open>Mapping and unmapping a page\<close>

lemma new_entry_sel:
  "e_present (new_entry d p prot e)" "e_read_write (new_entry d p prot e) = prot_write prot"
  "page_addr (new_entry d p prot e) = p mod 1048576" "entry_ok (new_entry d p prot e)"
proof -
  have "(p * 4096) mod 4294967296 div 4096 = p mod 1048576"
    using mult_mod_right [of 4096 p 1048576] by (simp add: mult.commute)
  then show "page_addr (new_entry d p prot e) = p mod 1048576" by (simp add: new_entry_def entry_set_address_def)
  then show "entry_ok (new_entry d p prot e)" by (simp add: entry_ok_def new_entry_def entry_set_address_def)
qed (simp_all add: new_entry_def entry_set_address_def)

text \<open>The kernel's tables are always there.\<close>

lemma set_kernel_entry:
  assumes ok: "pd_ok pd" and v: "786432 \<le> v" "v < 1048576" and d: "d = v div 1024" and i: "i = v mod 1024" and e: "entry_ok e"
    and pd': "pd' = pd\<lparr>s_kernel_page_tables := (s_kernel_page_tables pd)(d - 768 := (s_kernel_page_tables pd (d - 768))(i := e))\<rparr>"
  shows "pd_ok pd'" "w < 1048576 \<Longrightarrow> translate pd' w =
    (if w = v then if e_present e then Some (page_addr e, e_read_write e) else None else translate pd w)"
proof -
  have d': "\<not> d < 768" "d < 1024" using v d by (simp_all add: div_less_iff_less_mult)
  have entry: "entry_of pd' w = (if (w div 1024) mod 1024 = d \<and> w mod 1024 = i then Some e else entry_of pd w)" for w
  proof -
    have "(w div 1024) mod 1024 - 768 = d - 768 \<longleftrightarrow> (w div 1024) mod 1024 = d" if "\<not> (w div 1024) mod 1024 < 768" using that d' by auto
    then show ?thesis using ok d' by (auto simp: entry_of_def Let_def pd_ok_def pd')
  qed
  have "entry_ok e'" if "entry_of pd' w = Some e'" for w e' using that ok e by (auto simp: entry pd_ok_def split: if_splits)
  then show "pd_ok pd'" using ok by (auto simp: pd_ok_def pd' split: option.splits)
  assume w: "w < 1048576"
  have "(w div 1024) mod 1024 = d \<and> w mod 1024 = i \<longleftrightarrow> w = v" using page_split [of w v] dir_index [OF w] d i by auto
  then show "translate pd' w = (if w = v then if e_present e then Some (page_addr e, e_read_write e) else None else translate pd w)"
    by (simp add: translate_def entry)
qed

text \<open>The result of setting entry \<open>i\<close> of table \<open>d\<close> to \<open>e\<close>, as both operations do it.\<close>

lemma set_user_entry:
  assumes ok: "pd_ok pd" and v: "v < 786432" and d: "d = v div 1024" and i: "i = v mod 1024" and e: "entry_ok e"
    and n: "n = int (card (mapped_in ((table_or_new pd d)(i := e))))"
    and pd': "m_page_tables pd' = (m_page_tables pd)(d := (if n = 0 then None else Some ((table_or_new pd d)(i := e))))"
      "m_present pd' = (m_present pd)(d := n \<noteq> 0)" "num_mapped pd' = (num_mapped pd)(d := n)"
      "s_kernel_present pd' = s_kernel_present pd" "s_kernel_page_tables pd' = s_kernel_page_tables pd"
  shows "pd_ok pd'" "w < 1048576 \<Longrightarrow> translate pd' w =
    (if w = v then if e_present e then Some (page_addr e, e_read_write e) else None else translate pd w)"
proof -
  let ?t = "(table_or_new pd d)(i := e)"
  let ?T = "if n = 0 then None else Some ?t"
  have d768: "d < 768" using v d by (simp add: div_less_iff_less_mult)
  have emp: "n = 0 \<longleftrightarrow> mapped_in ?t = {}" using n by simp
  have step: "case ?T of None \<Rightarrow> n = 0 | Some t \<Rightarrow> n = int (card (mapped_in t)) \<and> mapped_in t \<noteq> {} \<and> (\<forall>i < 1024. entry_ok (t i))"
    using n emp e table_entries_ok [OF ok d768] by auto
  have pr: "m_present pd' = (m_present pd)(d := ?T \<noteq> None)" using pd'(2) by simp
  note ts = table_step [OF ok d768 step pd'(1) pr pd'(3-5)]
  show ok': "pd_ok pd'" by (rule ts(1))
  assume w: "w < 1048576"
  show "translate pd' w = (if w = v then if e_present e then Some (page_addr e, e_read_write e) else None else translate pd w)"
  proof (cases "w div 1024 = d")
    case False
    then show ?thesis using dir_index [OF w] d by (auto simp: translate_def ts(2))
  next
    case True
    have wd: "(w div 1024) mod 1024 = d" using True dir_index [OF w] by simp
    have new: "table_or_new pd' d k = (if n = 0 then entry_zero else ?t k)" for k by (simp add: table_or_new_def pd'(1))
    have abs: "\<not> e_present (?t (w mod 1024))" if "n = 0"
      using that emp by (auto simp: mapped_in_def simp del: fun_upd_apply)
    have "w = v \<longleftrightarrow> w mod 1024 = i" using page_split [of w v] True d i by simp
    then show ?thesis
      unfolding entry_of_table [OF ok' wd d768] entry_of_table [OF ok wd d768] Let_def new
      using abs by (auto simp: entry_zero_def)
  qed
qed

lemma map_page_ok:
  assumes ok: "pd_ok pd" and v: "vpage < 1048576"
  shows "own_page pd vpage \<Longrightarrow> \<exists>pd'. map_page pd vpage ppage prot = Inr pd' \<and> pd_ok pd' \<and> m_type pd' = m_type pd \<and>
      (\<forall>w < 1048576. translate pd' w = (if w = vpage then Some (ppage mod 1048576, prot_write prot) else translate pd w))"
    "\<not> own_page pd vpage \<Longrightarrow> map_page pd vpage ppage prot = Inl (Err EINVAL)"
proof -
  let ?d = "vpage div 1024" and ?i = "vpage mod 1024"
  have dv: "(vpage div 1024) mod 1024 = ?d" "?d < 768 \<longleftrightarrow> vpage < 786432" using dir_index [OF v] by auto
  show "\<not> own_page pd vpage \<Longrightarrow> map_page pd vpage ppage prot = Inl (Err EINVAL)"
    unfolding map_page_def Let_def dv by (cases "m_type pd") (auto simp: own_page_def split: if_splits)
  assume own: "own_page pd vpage"
  show "\<exists>pd'. map_page pd vpage ppage prot = Inr pd' \<and> pd_ok pd' \<and> m_type pd' = m_type pd \<and>
      (\<forall>w < 1048576. translate pd' w = (if w = vpage then Some (ppage mod 1048576, prot_write prot) else translate pd w))"
  proof (cases "vpage < 786432")
    case True
    then have d: "?d < 768" by (simp add: dv)
    note wt = with_table_ok [OF ok d]
    let ?t = "table_or_new pd ?d"
    let ?e = "new_entry ?d ppage prot (?t ?i)"
    let ?n = "int (card (mapped_in (?t(?i := ?e))))"
    have eo: "entry_ok ?e" by (rule new_entry_sel(4))
    let ?pd = "(with_table pd ?d)\<lparr>num_mapped := (if e_present (?t ?i) then num_mapped (with_table pd ?d)
         else (num_mapped (with_table pd ?d))(?d := num_mapped (with_table pd ?d) ?d + 1)),
       m_page_tables := (m_page_tables (with_table pd ?d))(?d := Some (?t(?i := ?e)))\<rparr>"
    have n: "?n = num_mapped pd ?d + (if e_present (?t ?i) then 0 else 1)"
      using card_entry [of ?i ?t ?e] wt(7) by (simp add: new_entry_sel(1))
    have "?n \<noteq> 0" using mapped_in_upd [of ?i ?t ?e] by (simp add: new_entry_sel(1))
    then have f: "m_page_tables ?pd = (m_page_tables pd)(?d := (if ?n = 0 then None else Some (?t(?i := ?e))))"
      "m_present ?pd = (m_present pd)(?d := ?n \<noteq> 0)" using wt(1,2) by auto
    have "num_mapped ?pd = (num_mapped pd)(?d := ?n)" unfolding n by (auto simp: wt(3))
    note su = set_user_entry [OF ok True refl refl eo refl f this]
    have "map_page pd vpage ppage prot = Inr ?pd"
      using d own True wt(1) by (simp add: map_page_def Let_def dv(1) own_page_def flip: with_table_def)
    moreover have "pd_ok ?pd" by (rule su(1)) (simp_all add: wt(5,6))
    moreover have "translate ?pd w = (if w = vpage then Some (ppage mod 1048576, prot_write prot) else translate pd w)"
      if "w < 1048576" for w using su(2) [OF _ _ that] by (simp add: wt(5,6) new_entry_sel)
    moreover have "m_type ?pd = m_type pd" by (simp add: wt(4))
    ultimately show ?thesis by blast
  next
    case False
    then have d: "\<not> ?d < 768" "?d < 1024" using v by (simp_all add: dv div_less_iff_less_mult)
    let ?ts = "s_kernel_page_tables pd"
    let ?pd = "pd\<lparr>s_kernel_page_tables := ?ts(?d - 768 := (?ts (?d - 768))(?i := new_entry ?d ppage prot (?ts (?d - 768) ?i)))\<rparr>"
    note sk = set_kernel_entry [OF ok leI [OF False] v refl refl new_entry_sel(4) refl]
    have "translate ?pd w = (if w = vpage then Some (ppage mod 1048576, prot_write prot) else translate pd w)" if "w < 1048576" for w
      unfolding sk(2) [OF that] by (simp add: new_entry_sel)
    moreover have "pd_ok ?pd" by (rule sk(1))
    moreover have "map_page pd vpage ppage prot = Inr ?pd"
      using d own False by (simp add: map_page_def Let_def dv(1) own_page_def)
    ultimately show ?thesis by simp
  qed
qed


lemma unmap_page_ok:
  assumes ok: "pd_ok pd" and v: "vpage < 1048576"
  shows "own_page pd vpage \<Longrightarrow> \<exists>pd'. unmap_page pd vpage = Inr pd' \<and> pd_ok pd' \<and> m_type pd' = m_type pd \<and>
      (\<forall>w < 1048576. translate pd' w = (if w = vpage then None else translate pd w))"
    "\<not> own_page pd vpage \<Longrightarrow> unmap_page pd vpage = Inl (Err EINVAL)"
proof -
  let ?d = "vpage div 1024" and ?i = "vpage mod 1024"
  have dv: "(vpage div 1024) mod 1024 = ?d" "?d < 768 \<longleftrightarrow> vpage < 786432" using dir_index [OF v] by auto
  show "\<not> own_page pd vpage \<Longrightarrow> unmap_page pd vpage = Inl (Err EINVAL)"
    unfolding unmap_page_def Let_def dv by (cases "m_type pd") (auto simp: own_page_def split: if_splits)
  assume own: "own_page pd vpage"
  show "\<exists>pd'. unmap_page pd vpage = Inr pd' \<and> pd_ok pd' \<and> m_type pd' = m_type pd \<and>
      (\<forall>w < 1048576. translate pd' w = (if w = vpage then None else translate pd w))"
  proof (cases "vpage < 786432")
    case True
    then have d: "?d < 768" by (simp add: dv)
    note wt = with_table_ok [OF ok d]
    let ?t = "table_or_new pd ?d"
    let ?n = "int (card (mapped_in (?t(?i := entry_zero))))"
    have eo: "entry_ok entry_zero" by (rule entry_zero_ok)
    let ?pd2 = "(with_table pd ?d)\<lparr>num_mapped := (if e_present (?t ?i)
          then (num_mapped (with_table pd ?d))(?d := num_mapped (with_table pd ?d) ?d - 1) else num_mapped (with_table pd ?d)),
       m_page_tables := (m_page_tables (with_table pd ?d))(?d := Some (?t(?i := entry_zero)))\<rparr>"
    let ?pd = "if num_mapped ?pd2 ?d = 0 then dealloc_page_table ?pd2 ?d else ?pd2"
    have n: "?n = num_mapped pd ?d - (if e_present (?t ?i) then 1 else 0)"
      using card_entry [of ?i ?t entry_zero] wt(7) by (simp add: entry_zero_def)
    have n2: "num_mapped ?pd2 = (num_mapped pd)(?d := ?n)" unfolding n by (auto simp: wt(3))
    then have n0: "num_mapped ?pd2 ?d = 0 \<longleftrightarrow> ?n = 0" by simp
    have f: "m_page_tables ?pd = (m_page_tables pd)(?d := (if ?n = 0 then None else Some (?t(?i := entry_zero))))"
      "m_present ?pd = (m_present pd)(?d := ?n \<noteq> 0)"
      unfolding n0 by (auto simp: dealloc_page_table_def wt(1,2))
    have "num_mapped ?pd = num_mapped ?pd2" by (simp add: dealloc_page_table_def)
    then have f3: "num_mapped ?pd = (num_mapped pd)(?d := ?n)" unfolding n2 .
    note su = set_user_entry [OF ok True refl refl eo refl f f3]
    have "unmap_page pd vpage = Inr ?pd"
      using d own True wt(1) by (simp add: unmap_page_def Let_def dv(1) own_page_def flip: with_table_def)
    moreover have k: "s_kernel_present ?pd = s_kernel_present pd" "s_kernel_page_tables ?pd = s_kernel_page_tables pd" "m_type ?pd = m_type pd"
      by (simp_all add: dealloc_page_table_def wt(4-6))
    moreover have "translate ?pd w = (if w = vpage then None else translate pd w)" if "w < 1048576" for w
      unfolding su(2) [OF k(1,2) that] by (simp add: entry_zero_def)
    moreover have "pd_ok ?pd" by (rule su(1) [OF k(1,2)])
    ultimately show ?thesis by blast
  next
    case False
    then have d: "\<not> ?d < 768" by (simp add: dv)
    let ?ts = "s_kernel_page_tables pd"
    let ?pd = "pd\<lparr>s_kernel_page_tables := ?ts(?d - 768 := (?ts (?d - 768))(?i := entry_zero))\<rparr>"
    note sk = set_kernel_entry [OF ok leI [OF False] v refl refl entry_zero_ok refl]
    have "translate ?pd w = (if w = vpage then None else translate pd w)" if "w < 1048576" for w
      unfolding sk(2) [OF that] by (simp add: entry_zero_def)
    moreover have "pd_ok ?pd" by (rule sk(1))
    moreover have "unmap_page pd vpage = Inr ?pd"
      using d own False by (simp add: unmap_page_def Let_def dv(1) own_page_def)
    ultimately show ?thesis by simp
  qed
qed


section \<open>Refinement\<close>

datatype pd_op = Map_Page nat nat vm_prot | Unmap_Page nat | Get_Physaddr nat | Is_Mapped nat bool

datatype pd_ret = Done | Refused errno | Address nat | Answer bool

definition pd_done :: "page_directory \<Rightarrow> page_directory result \<Rightarrow> (pd_ret \<times> page_directory) result" where
  "pd_done pd r = (case r of Inl (Err e) \<Rightarrow> Inr (Refused e, pd) | Inl f \<Rightarrow> Inl f | Inr pd' \<Rightarrow> Inr (Done, pd'))"

fun pd_step :: "page_directory \<Rightarrow> pd_op \<Rightarrow> (pd_ret \<times> page_directory) result" where
  "pd_step pd (Map_Page v p prot) = pd_done pd (map_page pd v p prot)"
| "pd_step pd (Unmap_Page v) = pd_done pd (unmap_page pd v)"
| "pd_step pd (Get_Physaddr a) = Inr (Address (get_physaddr pd (a mod 4294967296)), pd)"
| "pd_step pd (Is_Mapped a write) = Inr (Answer (is_mapped pd (a mod 4294967296) write), pd)"

text \<open>The specification: a partial function from pages to frames with their protection.\<close>

type_synonym page_map = "directory_type \<times> (nat \<Rightarrow> (nat \<times> bool) option)"

definition owned :: "directory_type \<Rightarrow> nat \<Rightarrow> bool" where
  "owned t v \<longleftrightarrow> (if v < 786432 then t = USER else t = KERNEL)"

definition area_mapped :: "(nat \<Rightarrow> (nat \<times> bool) option) \<Rightarrow> nat \<Rightarrow> bool" where
  "area_mapped m a \<longleftrightarrow> (\<exists>v < 1048576. v div 1024 = a div 4194304 \<and> m v \<noteq> None)"

fun page_map_step :: "page_map \<Rightarrow> pd_op \<Rightarrow> (pd_ret \<times> page_map) result" where
  "page_map_step (t, m) (Map_Page v p prot) =
     (let v' = v mod 1048576 in
      if owned t v' then Inr (Done, (t, m(v' := Some (p mod 1048576, prot_write prot)))) else Inr (Refused EINVAL, (t, m)))"
| "page_map_step (t, m) (Unmap_Page v) =
     (let v' = v mod 1048576 in if owned t v' then Inr (Done, (t, m(v' := None))) else Inr (Refused EINVAL, (t, m)))"
| "page_map_step (t, m) (Get_Physaddr a0) =
     (let a = a0 mod 4294967296 in
      Inr (Address (case m (a div 4096) of
             Some (frame, write) \<Rightarrow> frame * 4096 + a mod 4096
           | None \<Rightarrow> if HIGHER_HALF \<le> a \<or> area_mapped m a then a mod 4096 else 4294967295), (t, m)))"
| "page_map_step (t, m) (Is_Mapped a0 write) =
     (let a = a0 mod 4294967296 in
      Inr (Answer (case m (a div 4096) of Some (frame, w) \<Rightarrow> write \<longrightarrow> w | None \<Rightarrow> False), (t, m)))"

definition pd_abs :: "page_directory \<Rightarrow> page_map" where
  "pd_abs pd = (m_type pd, \<lambda>v. if v < 1048576 then translate pd v else None)"

lemma page_wraps: "map_page pd (v mod 1048576) p prot = map_page pd v p prot" "unmap_page pd (v mod 1048576) = unmap_page pd v"
proof -
  have "v mod 1048576 div 1024 mod 1024 = v div 1024 mod 1024" "v mod 1048576 mod 1024 = v mod 1024"
    using mod_mult2_eq [of v 1024 1024] by simp_all
  then show "map_page pd (v mod 1048576) p prot = map_page pd v p prot" "unmap_page pd (v mod 1048576) = unmap_page pd v"
    by (simp_all add: map_page_def unmap_page_def)
qed

lemma address_page:
  assumes "a < (4294967296 :: nat)"
  shows "a div 4096 < 1048576" "a div 4096 div 1024 mod 1024 = a div 4194304" "a div 4194304 < 768 \<longleftrightarrow> a < HIGHER_HALF"
    "a div 4096 < 786432 \<longleftrightarrow> a < HIGHER_HALF"
  using assms by (auto simp: div_less_iff_less_mult HIGHER_HALF_def div_mult2_eq [of a 4096 1024, simplified])

lemma page_of_table: "d < 1024 \<Longrightarrow> i < 1024 \<Longrightarrow> d * 1024 + i < (1048576 :: nat)"
  by simp

lemma get_physaddr_ok:
  assumes ok: "pd_ok pd" and a: "a < 4294967296"
  shows "get_physaddr pd a = (case translate pd (a div 4096) of
      Some (frame, write) \<Rightarrow> frame * 4096 + a mod 4096
    | None \<Rightarrow> if HIGHER_HALF \<le> a \<or> area_mapped (translate pd) a then a mod 4096 else 4294967295)"
proof -
  let ?d = "a div 4194304" and ?i = "a div 4096 mod 1024"
  note ap = address_page [OF a]
  have found: "add32 (entry_get_address e) (a mod 4096) = (if e_present e then page_addr e * 4096 + a mod 4096 else a mod 4096)"
    if "entry_ok e" for e
  proof -
    have "page_addr e * 4096 + a mod 4096 < 4294967296" using that by (simp add: entry_ok_def) (use mod_less_divisor [of 4096 a] in linarith)
    then show ?thesis using that by (auto simp: entry_get_address_def entry_ok_def)
  qed
  show ?thesis
  proof (cases "a < HIGHER_HALF")
    case True
    then have d: "?d < 768" using ap by simp
    note tr = entry_of_table [OF ok ap(2) d]
    show ?thesis
    proof (cases "m_page_tables pd ?d")
      case None
      have "translate pd v = None" if "v < 1048576" "v div 1024 = ?d" for v
        using that dir_index [OF that(1)] d None by (auto simp: translate_def entry_of_def Let_def)
      then have "\<not> area_mapped (translate pd) a" "translate pd (a div 4096) = None" using ap by (auto simp: area_mapped_def)
      then show ?thesis using True None pd_okD(1) [OF ok d None] ap by (auto simp: get_physaddr_def Let_def)
    next
      case (Some t)
      have t: "table_or_new pd ?d = t" using Some by (simp add: table_or_new_def)
      obtain i where i: "i < 1024" "e_present (t i)" using pd_okD(2) [OF ok d Some] by (auto simp: mapped_in_def)
      have v: "(?d * 1024 + i) div 1024 = ?d" "?d * 1024 + i < 1048576" "(?d * 1024 + i) mod 1024 = i" using i d by auto
      then have "translate pd (?d * 1024 + i) \<noteq> None"
        using entry_of_table [OF ok _ d, of "?d * 1024 + i"] d i by (simp add: t Let_def)
      then have "area_mapped (translate pd) a" using v unfolding area_mapped_def by blast
      moreover have "get_physaddr pd a = (if e_present (t ?i) then page_addr (t ?i) * 4096 + a mod 4096 else a mod 4096)"
        using True Some pd_okD(2) [OF ok d Some] ap found [OF table_entries_ok [OF ok d, of ?i]] t by (simp add: get_physaddr_def Let_def)
      ultimately show ?thesis using tr t by (simp add: Let_def)
    qed
  next
    case False
    then have d: "\<not> ?d < 768" "?d < 1024" using ap a by (simp_all add: div_less_iff_less_mult)
    let ?e = "s_kernel_page_tables pd (?d - 768) ?i"
    have k: "s_kernel_present pd ?d" using ok d by (simp add: pd_ok_def)
    then have en: "entry_of pd (a div 4096) = Some ?e" using d ap by (simp add: entry_of_def Let_def)
    then have "entry_ok ?e" using ok by (auto simp: pd_ok_def)
    then show ?thesis using False k en found [of ?e] ap by (simp add: get_physaddr_def Let_def translate_def)
  qed
qed

lemma is_mapped_ok:
  assumes ok: "pd_ok pd" and a: "a < 4294967296"
  shows "is_mapped pd a write = (case translate pd (a div 4096) of Some (frame, w) \<Rightarrow> write \<longrightarrow> w | None \<Rightarrow> False)"
  using address_page [OF a] by (auto simp: is_mapped_def translate_def entry_of_def Let_def split: option.splits)


lemma pd_step_sim:
  assumes ok: "pd_ok pd"
  shows "lift_abs pd_abs (pd_step pd op) = page_map_step (pd_abs pd) op \<and>
    (\<forall>r pd'. pd_step pd op = Inr (r, pd') \<longrightarrow> pd_ok pd')"
proof (cases op)
  case (Map_Page v p prot)
  let ?v = "v mod 1048576"
  have v: "?v < 1048576" by simp
  show ?thesis
  proof (cases "own_page pd ?v")
    case True
    obtain pd' where pd': "map_page pd v p prot = Inr pd'" "pd_ok pd'" "m_type pd' = m_type pd"
      "\<forall>w < 1048576. translate pd' w = (if w = ?v then Some (p mod 1048576, prot_write prot) else translate pd w)"
      using map_page_ok(1) [OF ok v True, of p prot] unfolding page_wraps by blast
    have "pd_abs pd' = (m_type pd, (snd (pd_abs pd))(?v := Some (p mod 1048576, prot_write prot)))"
      using pd'(3,4) by (auto simp: pd_abs_def)
    then show ?thesis using Map_Page pd'(1,2) True by (simp add: pd_done_def own_page_def owned_def pd_abs_def Let_def)
  next
    case False
    then have "map_page pd v p prot = Inl (Err EINVAL)" using map_page_ok(2) [OF ok v False, of p prot] unfolding page_wraps by blast
    then show ?thesis using Map_Page ok False by (simp add: pd_done_def own_page_def owned_def pd_abs_def Let_def)
  qed
next
  case (Unmap_Page v)
  let ?v = "v mod 1048576"
  have v: "?v < 1048576" by simp
  show ?thesis
  proof (cases "own_page pd ?v")
    case True
    obtain pd' where pd': "unmap_page pd v = Inr pd'" "pd_ok pd'" "m_type pd' = m_type pd"
      "\<forall>w < 1048576. translate pd' w = (if w = ?v then None else translate pd w)"
      using unmap_page_ok(1) [OF ok v True] unfolding page_wraps by blast
    have "pd_abs pd' = (m_type pd, (snd (pd_abs pd))(?v := None))" using pd'(3,4) by (auto simp: pd_abs_def)
    then show ?thesis using Unmap_Page pd'(1,2) True by (simp add: pd_done_def own_page_def owned_def pd_abs_def Let_def)
  next
    case False
    then have "unmap_page pd v = Inl (Err EINVAL)" using unmap_page_ok(2) [OF ok v False] unfolding page_wraps by blast
    then show ?thesis using Unmap_Page ok False by (simp add: pd_done_def own_page_def owned_def pd_abs_def Let_def)
  qed
next
  case (Get_Physaddr a0)
  let ?a = "a0 mod 4294967296"
  have "area_mapped (\<lambda>v. if v < 1048576 then translate pd v else None) ?a = area_mapped (translate pd) ?a"
    by (auto simp: area_mapped_def)
  then show ?thesis
    using Get_Physaddr ok get_physaddr_ok [OF ok, of ?a] address_page(1) [of ?a] by (simp add: pd_abs_def Let_def)
next
  case (Is_Mapped a0 wr)
  then show ?thesis
    using ok is_mapped_ok [OF ok, of "a0 mod 4294967296" wr] address_page(1) [of "a0 mod 4294967296"] by (simp add: pd_abs_def Let_def)
qed

lemmas pd_step_refines = pd_step_sim [THEN conjunct1]
lemmas pd_step_ok = pd_step_sim [THEN conjunct2, rule_format]

interpretation pages: data_refinement pd_ok pd_abs pd_step page_map_step
  by unfold_locales (rule pd_step_refines, assumption, rule pd_step_ok)

definition ktables_ok :: "(nat \<Rightarrow> nat \<Rightarrow> pt_entry) \<Rightarrow> bool" where
  "ktables_ok k \<longleftrightarrow> (\<forall>d i. entry_ok (k d i))"

lemma pd_new_ok: "ktables_ok k \<Longrightarrow> pd_ok (pd_new t k)"
  by (auto simp: pd_ok_def pd_new_def ktables_ok_def kernel_present_def entry_of_def Let_def split: if_splits)

lemma page_map_total: "\<exists>r m'. page_map_step m op = Inr (r, m')"
  by (cases m; cases op) (auto simp: Let_def)

lemma tables_used:
  assumes ok: "pd_ok pd" and d: "d < 768"
  shows "m_page_tables pd d \<noteq> None \<longleftrightarrow> (\<exists>v < 1048576. v div 1024 = d \<and> translate pd v \<noteq> None)"
proof
  assume "m_page_tables pd d \<noteq> None"
  then obtain t where t: "m_page_tables pd d = Some t" by blast
  obtain i where i: "i < 1024" "e_present (t i)" using pd_okD(2) [OF ok d t] by (auto simp: mapped_in_def)
  have "translate pd (d * 1024 + i) \<noteq> None" using entry_of_table [OF ok _ d, of "d * 1024 + i"] d i t by (simp add: table_or_new_def Let_def)
  then show "\<exists>v < 1048576. v div 1024 = d \<and> translate pd v \<noteq> None" using d i by (intro exI [of _ "d * 1024 + i"]) auto
next
  assume "\<exists>v < 1048576. v div 1024 = d \<and> translate pd v \<noteq> None"
  then obtain v where v: "v < 1048576" "v div 1024 = d" "translate pd v \<noteq> None" by blast
  then show "m_page_tables pd d \<noteq> None" using dir_index [OF v(1)] d by (auto simp: translate_def entry_of_def Let_def split: if_splits option.splits)
qed

text \<open>
  C3. A page directory is a partial function from pages to frames with their write permission: any
  sequence of \<open>map_page\<close>, \<open>unmap_page\<close>, \<open>get_physaddr\<close> and \<open>is_mapped\<close> returns what the function
  returns, never dereferences a missing table, and refuses exactly the pages of the other half of
  the address space. Afterwards there is a page table for exactly those areas of 4 MiB in which a
  page is mapped, so tables neither leak nor vanish under a mapped page.
\<close>

theorem page_directory_is_map:
  assumes "ktables_ok k"
  shows "\<exists>rs pd. run_ops pd_step (pd_new t k) ops = Inr (rs, pd) \<and>
    run_ops page_map_step (pd_abs (pd_new t k)) ops = Inr (rs, pd_abs pd) \<and>
    (\<forall>d < 768. m_page_tables pd d \<noteq> None \<longleftrightarrow> (\<exists>v < 1048576. v div 1024 = d \<and> snd (pd_abs pd) v \<noteq> None))"
proof -
  note new = pd_new_ok [OF assms, of t]
  obtain rs pd where pd: "run_ops pd_step (pd_new t k) ops = Inr (rs, pd)" "pd_ok pd"
    using pages.run_total [OF page_map_total new] by blast
  have "run_ops page_map_step (pd_abs (pd_new t k)) ops = Inr (rs, pd_abs pd)"
    using pages.run_refines [OF new, of ops] pd(1) by simp
  moreover have "m_page_tables pd d \<noteq> None \<longleftrightarrow> (\<exists>v < 1048576. v div 1024 = d \<and> snd (pd_abs pd) v \<noteq> None)" if "d < 768" for d
    unfolding tables_used [OF pd(2) that] by (auto simp: pd_abs_def)
  ultimately show ?thesis using pd(1) by blast
qed

theorem page_directory_is_map_witness:
  "\<exists>rs pd. run_ops pd_step (pd_new USER (\<lambda>_ _. entry_zero))
     [Map_Page 5 7 \<lparr>prot_read = True, prot_write = True, prot_execute = False\<rparr>, Get_Physaddr 20481] = Inr (rs, pd) \<and>
     rs = [Done, Address 28673] \<and> m_page_tables pd 0 \<noteq> None \<and> m_page_tables pd 1 = None"
proof -
  let ?ops = "[Map_Page 5 7 \<lparr>prot_read = True, prot_write = True, prot_execute = False\<rparr>, Get_Physaddr 20481]"
  have "ktables_ok (\<lambda>_ _. entry_zero)" by (simp add: ktables_ok_def entry_zero_ok)
  from page_directory_is_map [OF this, of USER ?ops] obtain rs pd where
    run: "run_ops pd_step (pd_new USER (\<lambda>_ _. entry_zero)) ?ops = Inr (rs, pd)"
    and spec: "run_ops page_map_step (pd_abs (pd_new USER (\<lambda>_ _. entry_zero))) ?ops = Inr (rs, pd_abs pd)"
    and tab: "\<And>d. d < 768 \<Longrightarrow> m_page_tables pd d \<noteq> None \<longleftrightarrow> (\<exists>v < 1048576. v div 1024 = d \<and> snd (pd_abs pd) v \<noteq> None)"
    by blast
  have none: "translate (pd_new USER (\<lambda>_ _. entry_zero)) v = None" for v
    by (simp add: translate_def entry_of_def pd_new_def Let_def entry_zero_def)
  have "m_type (pd_new USER (\<lambda>_ _. entry_zero)) = USER" by (simp add: pd_new_def)
  then have start: "pd_abs (pd_new USER (\<lambda>_ _. entry_zero)) = (USER, \<lambda>v. None)" by (auto simp: pd_abs_def none fun_eq_iff)
  have m: "rs = [Done, Address 28673]" "pd_abs pd = (USER, (\<lambda>v. None)(5 := Some (7, True)))"
    using spec unfolding start by (simp_all add: owned_def Let_def)
  have "m_page_tables pd 0 \<noteq> None"
    using tab [of 0] by (rule iffD2) (simp, rule exI [of _ 5], simp add: m(2))
  moreover have "m_page_tables pd 1 = None" using tab [of 1] by (auto simp: m(2) split: if_splits)
  ultimately show ?thesis using run m(1) by blast
qed


section \<open>Mapping a region\<close>

text \<open>
  Which pages of a region a loop over the page indices \<open>ks\<close> maps, and to what. The write
  permission depends on the copy-on-write flag of page \<open>k\<close> of the object, not of the page that is
  mapped, which is page \<open>k + object_start / PAGE_SIZE\<close>.
\<close>

definition region_vpage :: "vm_region \<Rightarrow> nat" where
  "region_vpage r = range_start (vr_range r) div 4096"

definition frame_at :: "vm_region \<Rightarrow> vm_object \<Rightarrow> nat \<Rightarrow> nat" where
  "frame_at r ob k = physical_pages ob ! (k + object_start r div 4096)"

definition page_mapping :: "vm_region \<Rightarrow> vm_object \<Rightarrow> nat \<Rightarrow> nat \<times> bool" where
  "page_mapping r ob k = (frame_at r ob k mod 1048576, \<not> bitmap_bit (cow_pages ob) k \<and> prot_write (vr_prot r))"

definition region_fits :: "page_directory \<Rightarrow> vm_region \<Rightarrow> nat \<Rightarrow> bool" where
  "region_fits pd r k \<longleftrightarrow> region_vpage r + k < 1048576 \<and> own_page pd (region_vpage r + k)"

definition object_covers :: "vm_region \<Rightarrow> vm_object \<Rightarrow> nat \<Rightarrow> bool" where
  "object_covers r ob k \<longleftrightarrow> k + object_start r div 4096 < length (physical_pages ob) \<and> k < bitmap_room (cow_pages ob)"

lemma pd_map_loop_ok:
  assumes "pd_ok pd" "distinct ks" "\<And>k. k \<in> set ks \<Longrightarrow> region_fits pd r k \<and> object_covers r ob k"
  shows "\<exists>pd'. pd_map_loop r ob ks pd = Inr pd' \<and> pd_ok pd' \<and> m_type pd' = m_type pd \<and>
    (\<forall>w < 1048576. translate pd' w =
       (if \<exists>k \<in> set ks. w = region_vpage r + k \<and> frame_at r ob k \<noteq> 0 then Some (page_mapping r ob (w - region_vpage r)) else translate pd w))"
  using assms
proof (induction ks arbitrary: pd)
  case (Cons k ks)
  have k: "region_vpage r + k < 1048576" "own_page pd (region_vpage r + k)" "object_covers r ob k"
    using Cons.prems(3) [of k] by (auto simp: region_fits_def)
  have pp: "object_physical_page ob (k + object_start r div 4096) = Inr (frame_at r ob k)"
    using k(3) by (simp add: object_physical_page_def frame_at_def object_covers_def)
  show ?case
  proof (cases "frame_at r ob k = 0")
    case True
    then show ?thesis using Cons.IH [of pd] Cons.prems pp by (auto simp: Cons.prems)
  next
    case False
    let ?prot = "\<lparr>prot_read = prot_read (vr_prot r), prot_write = (if bitmap_bit (cow_pages ob) k then False else prot_write (vr_prot r)),
      prot_execute = prot_execute (vr_prot r)\<rparr>"
    obtain pd1 where pd1: "map_page pd (region_vpage r + k) (frame_at r ob k) ?prot = Inr pd1" "pd_ok pd1" "m_type pd1 = m_type pd"
      "\<forall>w < 1048576. translate pd1 w = (if w = region_vpage r + k then Some (frame_at r ob k mod 1048576, prot_write ?prot) else translate pd w)"
      using map_page_ok(1) [OF Cons.prems(1) k(1,2)] by blast
    have "region_fits pd1 r j \<and> object_covers r ob j" if "j \<in> set ks" for j
      using Cons.prems(3) [of j] that pd1(3) by (simp add: region_fits_def own_page_def)
    then obtain pd2 where pd2: "pd_map_loop r ob ks pd1 = Inr pd2" "pd_ok pd2" "m_type pd2 = m_type pd1"
      "\<forall>w < 1048576. translate pd2 w =
        (if \<exists>k \<in> set ks. w = region_vpage r + k \<and> frame_at r ob k \<noteq> 0 then Some (page_mapping r ob (w - region_vpage r)) else translate pd1 w)"
      using Cons.IH [OF pd1(2)] Cons.prems(2) by auto
    have "pd_map_loop r ob (k # ks) pd = Inr pd2"
      using False pp pd1(1) pd2(1) bitmap_get_ok [of k "cow_pages ob"] k(3)
      by (simp add: region_vpage_def object_covers_def Let_def)
    moreover have "translate pd2 w = (if \<exists>k' \<in> set (k # ks). w = region_vpage r + k' \<and> frame_at r ob k' \<noteq> 0
        then Some (page_mapping r ob (w - region_vpage r)) else translate pd w)" if "w < 1048576" for w
    proof (cases "w = region_vpage r + k")
      case True
      then show ?thesis using pd2(4) pd1(4) that False Cons.prems(2) by (auto simp: page_mapping_def)
    next
      case w: False
      then show ?thesis using pd2(4) pd1(4) that by auto
    qed
    ultimately show ?thesis using pd2(2,3) pd1(3) by auto
  qed
qed simp

lemma pd_unmap_loop_ok:
  assumes "pd_ok pd" "\<And>k. k \<in> set ks \<Longrightarrow> sv + k < 1048576 \<and> own_page pd (sv + k)"
  shows "\<exists>pd'. pd_unmap_loop sv ks pd = Inr pd' \<and> pd_ok pd' \<and> m_type pd' = m_type pd \<and>
    (\<forall>w < 1048576. translate pd' w = (if \<exists>k \<in> set ks. w = sv + k then None else translate pd w))"
  using assms
proof (induction ks arbitrary: pd)
  case (Cons k ks)
  obtain pd1 where pd1: "unmap_page pd (sv + k) = Inr pd1" "pd_ok pd1" "m_type pd1 = m_type pd"
    "\<forall>w < 1048576. translate pd1 w = (if w = sv + k then None else translate pd w)"
    using unmap_page_ok(1) [OF Cons.prems(1)] Cons.prems(2) [of k] by force
  have "sv + j < 1048576 \<and> own_page pd1 (sv + j)" if "j \<in> set ks" for j
    using Cons.prems(2) [of j] that pd1(3) by (simp add: own_page_def)
  then obtain pd2 where pd2: "pd_unmap_loop sv ks pd1 = Inr pd2" "pd_ok pd2" "m_type pd2 = m_type pd1"
    "\<forall>w < 1048576. translate pd2 w = (if \<exists>k \<in> set ks. w = sv + k then None else translate pd1 w)"
    using Cons.IH [OF pd1(2)] by blast
  then show ?case using pd1 by (intro exI [of _ pd2]) auto
qed simp

text \<open>A whole region: all its pages.\<close>

definition region_pages :: "vm_region \<Rightarrow> nat" where
  "region_pages r = range_size (vr_range r) div 4096"

definition region_ok :: "page_directory \<Rightarrow> vm_region \<Rightarrow> bool" where
  "region_ok pd r \<longleftrightarrow> range_size (vr_range r) mod 4096 = 0 \<and> range_start (vr_range r) mod 4096 = 0 \<and>
     range_start (vr_range r) + range_size (vr_range r) < 4294967296 \<and> prot_read (vr_prot r) \<and>
     (case m_type pd of USER \<Rightarrow> range_start (vr_range r) + range_size (vr_range r) \<le> HIGHER_HALF | KERNEL \<Rightarrow> HIGHER_HALF \<le> range_start (vr_range r))"

definition null_range :: virtual_range where
  "null_range = \<lparr>range_start = 0, range_size = 0\<rparr>"

lemma region_ok_pages:
  assumes "region_ok pd r"
  shows "range_asserts r (whole_if_null r null_range)" "range_pages (whole_if_null r null_range) = [0..<region_pages r]"
    "k < region_pages r \<Longrightarrow> region_fits pd r k"
proof -
  let ?s = "range_start (vr_range r)" and ?n = "range_size (vr_range r)"
  have r: "?n mod 4096 = 0" "?s mod 4096 = 0" "?s + ?n < 4294967296" using assms by (auto simp: region_ok_def)
  show "range_asserts r (whole_if_null r null_range)" "range_pages (whole_if_null r null_range) = [0..<region_pages r]"
    using r by (auto simp: range_asserts_def whole_if_null_def null_range_def range_end_def range_pages_def region_pages_def)
  assume k: "k < region_pages r"
  have "?n = region_pages r * 4096" "?s = region_vpage r * 4096" using r(1,2) by (auto simp: region_pages_def region_vpage_def)
  then have "region_vpage r + k < 1048576" "m_type pd = USER \<Longrightarrow> region_vpage r + k < 786432"
    "m_type pd = KERNEL \<Longrightarrow> 786432 \<le> region_vpage r + k"
    using k r(3) assms by (auto simp: region_ok_def HIGHER_HALF_def)
  then show "region_fits pd r k" by (cases "m_type pd") (auto simp: region_fits_def own_page_def)
qed

lemma pd_map_ok:
  assumes "pd_ok pd" and r: "region_ok pd r" and ob: "\<And>k. k < region_pages r \<Longrightarrow> object_covers r ob k"
  shows "\<exists>pd'. pd_map pd r ob null_range = Inr pd' \<and> pd_ok pd' \<and> m_type pd' = m_type pd \<and>
    (\<forall>w < 1048576. translate pd' w =
       (if region_vpage r \<le> w \<and> w < region_vpage r + region_pages r \<and> frame_at r ob (w - region_vpage r) \<noteq> 0
        then Some (page_mapping r ob (w - region_vpage r)) else translate pd w))"
proof -
  note rp = region_ok_pages [OF r]
  have "(\<exists>k \<in> set [0..<region_pages r]. w = region_vpage r + k \<and> frame_at r ob k \<noteq> 0) \<longleftrightarrow>
      region_vpage r \<le> w \<and> w < region_vpage r + region_pages r \<and> frame_at r ob (w - region_vpage r) \<noteq> 0" for w
    by (auto intro!: bexI [of _ "w - region_vpage r"])
  moreover have "prot_read (vr_prot r)" using r by (simp add: region_ok_def)
  ultimately show ?thesis
    using pd_map_loop_ok [OF assms(1), of "[0..<region_pages r]" r ob] rp(3) ob by (simp add: pd_map_def Let_def rp(1,2))
qed

lemma pd_unmap_ok:
  assumes "pd_ok pd" and r: "region_ok pd r"
  shows "\<exists>pd'. pd_unmap pd r null_range = Inr pd' \<and> pd_ok pd' \<and> m_type pd' = m_type pd \<and>
    (\<forall>w < 1048576. translate pd' w = (if region_vpage r \<le> w \<and> w < region_vpage r + region_pages r then None else translate pd w))"
proof -
  note rp = region_ok_pages [OF r]
  have "(\<exists>k \<in> set [0..<region_pages r]. w = region_vpage r + k) \<longleftrightarrow> region_vpage r \<le> w \<and> w < region_vpage r + region_pages r" for w
    by (auto intro!: bexI [of _ "w - region_vpage r"])
  moreover have "\<not> (range_end (vr_range r) > HIGHER_HALF \<and> m_type pd \<noteq> KERNEL)"
    using r by (cases "m_type pd") (auto simp: region_ok_def range_end_def)
  ultimately show ?thesis
    using pd_unmap_loop_ok [OF assms(1), of "[0..<region_pages r]" "region_vpage r"] rp(3)
    by (simp add: pd_unmap_def Let_def rp(1,2) region_fits_def flip: region_vpage_def) blast
qed

end
