(* ===== verification/VMSpace.thy ===== *)
theory VMSpace
  imports LinkedList PageDirectory
begin

text \<open>
  Address spaces (\<open>src/kernel/memory/VMSpace.cpp\<close>): a doubly linked list of regions in the heap,
  split on allocation and merged on release, with the mapping of objects through the page
  directory. A pointer is a number, 0 is null; \<open>new\<close> takes the next number, \<open>delete\<close> removes the
  node, and an access to a node that is not there is \<^const>\<open>Undefined\<close>. Locks are left out. When
  an operation returns an error the state is the old one; the nodes that \<open>alloc_space_at\<close> does not
  delete on its way to \<open>ENOMEM\<close> are not part of the model.
\<close>

section \<open>State\<close>

record space_region =
  sr_start :: nat
  sr_size :: nat
  sr_used :: bool
  sr_next :: nat
  sr_prev :: nat
  sr_vm :: nat

record vmspace =
  m_start :: nat
  m_size :: nat
  m_region_map :: nat
  m_used :: nat
  sr_heap :: "nat \<Rightarrow> space_region option"
  sr_fresh :: nat
  vr_heap :: "nat \<Rightarrow> vm_region option"
  vr_fresh :: nat
  m_directory :: page_directory

definition sr_end :: "space_region \<Rightarrow> nat" where
  "sr_end r = add32 (sr_start r) (sr_size r)"

definition sr_contains :: "space_region \<Rightarrow> nat \<Rightarrow> bool" where
  "sr_contains r address \<longleftrightarrow> sr_start r \<le> address \<and> sr_end r > address"

definition vmspace_new :: "nat \<Rightarrow> nat \<Rightarrow> page_directory \<Rightarrow> vmspace" where
  "vmspace_new start sz pd =
     \<lparr>m_start = start, m_size = sz, m_region_map = 1, m_used = 0,
      sr_heap = [1 \<mapsto> \<lparr>sr_start = start, sr_size = sz, sr_used = False, sr_next = 0, sr_prev = 0, sr_vm = 0\<rparr>], sr_fresh = 2,
      vr_heap = Map.empty, vr_fresh = 1, m_directory = pd\<rparr>"

text \<open>Access to a node, its update, and the allocation and release of one.\<close>

definition sr_node :: "vmspace \<Rightarrow> nat \<Rightarrow> space_region result" where
  "sr_node s p = (case sr_heap s p of None \<Rightarrow> Inl Undefined | Some r \<Rightarrow> Inr r)"

definition sr_update :: "nat \<Rightarrow> (space_region \<Rightarrow> space_region) \<Rightarrow> vmspace \<Rightarrow> vmspace result" where
  "sr_update p f s = rbind (sr_node s p) (\<lambda>r. Inr (s\<lparr>sr_heap := (sr_heap s)(p := Some (f r))\<rparr>))"

definition sr_new :: "space_region \<Rightarrow> vmspace \<Rightarrow> vmspace" where
  "sr_new r s = s\<lparr>sr_heap := (sr_heap s)(sr_fresh s := Some r), sr_fresh := sr_fresh s + 1\<rparr>"

definition sr_delete :: "nat \<Rightarrow> vmspace \<Rightarrow> vmspace" where
  "sr_delete p s = (if p = 0 then s else s\<lparr>sr_heap := (sr_heap s)(p := None)\<rparr>)"

text \<open>
  The loops that look for a region: \<open>while(cur) { if(...) ...; cur = cur->next; }\<close>. The result is
  the first region that satisfies the test, or null.
\<close>

partial_function (option) sr_walk :: "(nat \<Rightarrow> space_region option) \<Rightarrow> (space_region \<Rightarrow> bool) \<Rightarrow> nat \<Rightarrow> nat result option" where
  "sr_walk h P p =
     (if p = 0 then Some (Inr 0)
      else case h p of
        None \<Rightarrow> Some (Inl Undefined)
      | Some r \<Rightarrow> if P r then Some (Inr p) else sr_walk h P (sr_next r))"

definition sr_find :: "vmspace \<Rightarrow> (space_region \<Rightarrow> bool) \<Rightarrow> nat result" where
  "sr_find s P = returned (sr_walk (sr_heap s) P (m_region_map s))"

section \<open>Allocation and release\<close>

definition take_whole :: "nat \<Rightarrow> nat \<Rightarrow> vmspace \<Rightarrow> (nat \<times> vmspace) result" where
  "take_whole cur sz s =
     rbind (sr_update cur (\<lambda>r. r\<lparr>sr_used := True\<rparr>) s) (\<lambda>s1. Inr (cur, s1\<lparr>m_used := add32 (m_used s1) sz\<rparr>))"

definition link_before :: "nat \<Rightarrow> nat \<Rightarrow> nat \<Rightarrow> vmspace \<Rightarrow> vmspace result" where
  "link_before prev cur new s = (if prev \<noteq> 0 then sr_update prev (\<lambda>r. r\<lparr>sr_next := new\<rparr>) s else Inr s)"

definition new_head :: "nat \<Rightarrow> nat \<Rightarrow> vmspace \<Rightarrow> vmspace" where
  "new_head cur new s = (if m_region_map s = cur then s\<lparr>m_region_map := new\<rparr> else s)"

definition alloc_space :: "nat \<Rightarrow> vmspace \<Rightarrow> (nat \<times> vmspace) result" where
  "alloc_space sz s =
     rassert (sz mod 4096 = 0)
       (rbind (sr_find s (\<lambda>r. \<not> (sr_used r \<or> sr_size r < sz))) (\<lambda>cur.
        if cur = 0 then Inl (Err ENOMEM)
        else rbind (sr_node s cur) (\<lambda>c.
          if sr_size c = sz then take_whole cur sz s
          else
            let new = sr_fresh s;
                s1 = sr_new \<lparr>sr_start = sr_start c, sr_size = sz, sr_used = True, sr_next = cur, sr_prev = sr_prev c, sr_vm = 0\<rparr> s in
            rbind (link_before (sr_prev c) cur new s1) (\<lambda>s2.
            rbind (sr_update cur (\<lambda>r. r\<lparr>sr_start := add32 (sr_start r) sz, sr_size := sub32 (sr_size r) sz, sr_prev := new\<rparr>) s2) (\<lambda>s3.
            Inr (new, new_head cur new (s3\<lparr>m_used := add32 (m_used s3) sz\<rparr>)))))))"

definition split_before :: "nat \<Rightarrow> nat \<Rightarrow> vmspace \<Rightarrow> vmspace result" where
  "split_before cur address s =
     rbind (sr_node s cur) (\<lambda>c.
     if sr_start c < address then
       let new = sr_fresh s;
           s1 = sr_new \<lparr>sr_start = sr_start c, sr_size = sub32 address (sr_start c), sr_used = False, sr_next = cur, sr_prev = sr_prev c, sr_vm = 0\<rparr> s in
       rbind (link_before (sr_prev c) cur new s1) (\<lambda>s2.
       rbind (sr_update cur (\<lambda>r. r\<lparr>sr_prev := new\<rparr>) s2) (\<lambda>s3. Inr (new_head cur new s3)))
     else Inr s)"

definition split_after :: "nat \<Rightarrow> nat \<Rightarrow> vmspace \<Rightarrow> vmspace result" where
  "split_after cur after s =
     rbind (sr_node s cur) (\<lambda>c.
     if sr_end c > after then
       let new = sr_fresh s;
           s1 = sr_new \<lparr>sr_start = after, sr_size = sub32 (sr_end c) after, sr_used = False, sr_next = sr_next c, sr_prev = cur, sr_vm = 0\<rparr> s in
       rbind (if sr_next c \<noteq> 0 then sr_update (sr_next c) (\<lambda>r. r\<lparr>sr_prev := new\<rparr>) s1 else Inr s1) (\<lambda>s2.
       sr_update cur (\<lambda>r. r\<lparr>sr_next := new\<rparr>) s2)
     else Inr s)"

definition alloc_space_at :: "nat \<Rightarrow> nat \<Rightarrow> vmspace \<Rightarrow> (nat \<times> vmspace) result" where
  "alloc_space_at sz address s =
     rassert (address mod 4096 = 0) (rassert (sz mod 4096 = 0)
       (rbind (sr_find s (\<lambda>r. sr_contains r address)) (\<lambda>cur.
        if cur = 0 then Inl (Err ENOMEM)
        else rbind (sr_node s cur) (\<lambda>c.
          if sr_used c then Inl (Err ENOMEM)
          else if sr_size c = sz then take_whole cur sz s
          else if sub32 (sr_size c) (sub32 address (sr_start c)) \<ge> sz then
            rbind (split_before cur address s) (\<lambda>s1.
            rbind (split_after cur (add32 address sz) s1) (\<lambda>s2.
            rbind (sr_update cur (\<lambda>r. r\<lparr>sr_start := address, sr_size := sz, sr_used := True\<rparr>) s2) (\<lambda>s3.
            Inr (cur, s3\<lparr>m_used := add32 (m_used s3) sz\<rparr>))))
          else Inl (Err ENOMEM)))))"

definition merge_prev :: "nat \<Rightarrow> vmspace \<Rightarrow> (nat \<times> vmspace) result" where
  "merge_prev region s =
     rbind (sr_node s region) (\<lambda>r.
     if sr_prev r = 0 then Inr (0, s)
     else rbind (sr_node s (sr_prev r)) (\<lambda>q.
       if sr_used q then Inr (0, s)
       else
         rbind (sr_update region (\<lambda>r. r\<lparr>sr_prev := sr_prev q\<rparr>) s) (\<lambda>s1.
         rbind (if sr_prev q \<noteq> 0 then sr_update (sr_prev q) (\<lambda>x. x\<lparr>sr_next := region\<rparr>) s1 else Inr s1) (\<lambda>s2.
         rbind (sr_update region (\<lambda>r. r\<lparr>sr_start := sub32 (sr_start r) (sr_size q), sr_size := add32 (sr_size r) (sr_size q)\<rparr>) s2) (\<lambda>s3.
         Inr (sr_prev r, new_head (sr_prev r) region s3))))))"

definition merge_next :: "nat \<Rightarrow> vmspace \<Rightarrow> (nat \<times> vmspace) result" where
  "merge_next region s =
     rbind (sr_node s region) (\<lambda>r.
     if sr_next r = 0 then Inr (0, s)
     else rbind (sr_node s (sr_next r)) (\<lambda>q.
       if sr_used q then Inr (0, s)
       else
         rbind (sr_update region (\<lambda>r. r\<lparr>sr_next := sr_next q\<rparr>) s) (\<lambda>s1.
         rbind (if sr_next q \<noteq> 0 then sr_update (sr_next q) (\<lambda>x. x\<lparr>sr_prev := region\<rparr>) s1 else Inr s1) (\<lambda>s2.
         rbind (sr_update region (\<lambda>r. r\<lparr>sr_size := add32 (sr_size r) (sr_size q)\<rparr>) s2) (\<lambda>s3.
         Inr (sr_next r, s3))))))"

definition free_region :: "nat \<Rightarrow> vmspace \<Rightarrow> vmspace result" where
  "free_region region s =
     rbind (sr_node s region) (\<lambda>r.
     rbind (sr_update region (\<lambda>r. r\<lparr>sr_used := False, sr_vm := 0\<rparr>) s) (\<lambda>s1.
     rbind (merge_prev region (s1\<lparr>m_used := sub32 (m_used s1) (sr_size r)\<rparr>)) (\<lambda>(del0, s2).
     rbind (merge_next region s2) (\<lambda>(del1, s3).
     Inr (sr_delete del1 (sr_delete del0 s3))))))"

definition find_free_space :: "nat \<Rightarrow> vmspace \<Rightarrow> nat result" where
  "find_free_space sz s =
     rbind (sr_find s (\<lambda>r. \<not> sr_used r \<and> sr_size r \<ge> sz)) (\<lambda>cur.
     if cur = 0 then Inl (Err ENOMEM) else rbind (sr_node s cur) (\<lambda>c. Inr (sr_start c)))"

definition reserve_region :: "nat \<Rightarrow> nat \<Rightarrow> vmspace \<Rightarrow> vmspace result" where
  "reserve_region start sz s = rbind (alloc_space_at sz start s) (\<lambda>(p, s'). Inr s')"


section \<open>Mapping objects\<close>

text \<open>An object is passed with its address, which the region keeps.\<close>

definition map_region :: "nat \<Rightarrow> vm_object \<Rightarrow> vm_region \<Rightarrow> nat \<Rightarrow> vmspace \<Rightarrow> (nat \<times> vmspace) result" where
  "map_region ob obj vr region s =
     (let vm = vr_fresh s; s1 = s\<lparr>vr_heap := (vr_heap s)(vm := Some vr), vr_fresh := vm + 1\<rparr> in
      rbind (sr_update region (\<lambda>r. r\<lparr>sr_vm := vm\<rparr>) s1) (\<lambda>s2.
      rbind (pd_map (m_directory s2) vr obj null_range) (\<lambda>pd. Inr (vm, s2\<lparr>m_directory := pd\<rparr>))))"

definition map_object :: "nat \<Rightarrow> vm_object \<Rightarrow> vm_prot \<Rightarrow> virtual_range \<Rightarrow> nat \<Rightarrow> vmspace \<Rightarrow> (nat \<times> vmspace) result" where
  "map_object ob obj prot rg start s =
     (let sz = (if range_size rg = 0 then sub32 (obj_size obj) start else range_size rg) in
      if range_start rg mod 4096 \<noteq> 0 \<or> sz mod 4096 \<noteq> 0 \<or> start mod 4096 \<noteq> 0 \<or> add32 start sz > obj_size obj
      then Inl (Err EINVAL)
      else
        rbind (if range_start rg \<noteq> 0 then alloc_space_at sz (range_start rg) s else alloc_space sz s) (\<lambda>(region, s1).
        rbind (sr_node s1 region) (\<lambda>r.
        map_region ob obj
          \<lparr>vr_object = ob, in_space = True, vr_range = \<lparr>range_start = sr_start r, range_size = sz\<rparr>, object_start = start, vr_prot = prot\<rparr>
          region s1)))"

definition map_object_with_sentinel :: "nat \<Rightarrow> vm_object \<Rightarrow> vm_prot \<Rightarrow> vmspace \<Rightarrow> (nat \<times> vmspace) result" where
  "map_object_with_sentinel ob obj prot s =
     rbind (alloc_space (add32 (obj_size obj) (4096 * 2)) s) (\<lambda>(region, s1).
     rbind (sr_node s1 region) (\<lambda>r.
     map_region ob obj
       \<lparr>vr_object = ob, in_space = True, vr_range = \<lparr>range_start = add32 (sr_start r) 4096, range_size = obj_size obj\<rparr>, object_start = 0, vr_prot = prot\<rparr>
       region s1))"

text \<open>
  \<open>map_stack\<close> looks from the end. The second loop reads \<open>cur_region\<close> before it tests it.
\<close>

partial_function (option) sr_last :: "(nat \<Rightarrow> space_region option) \<Rightarrow> nat \<Rightarrow> nat result option" where
  "sr_last h p =
     (case h p of
        None \<Rightarrow> Some (Inl Undefined)
      | Some r \<Rightarrow> if sr_next r \<noteq> 0 then sr_last h (sr_next r) else Some (Inr p))"

partial_function (option) sr_back :: "(nat \<Rightarrow> space_region option) \<Rightarrow> (space_region \<Rightarrow> bool) \<Rightarrow> nat \<Rightarrow> nat result option" where
  "sr_back h P p =
     (case h p of
        None \<Rightarrow> Some (Inl Undefined)
      | Some r \<Rightarrow> if P r then sr_back h P (sr_prev r) else Some (Inr p))"

definition map_stack :: "nat \<Rightarrow> vm_object \<Rightarrow> vm_prot \<Rightarrow> vmspace \<Rightarrow> (nat \<times> vmspace) result" where
  "map_stack ob obj prot s =
     rbind (returned (sr_last (sr_heap s) (m_region_map s))) (\<lambda>end_region.
     rbind (returned (sr_back (sr_heap s) (\<lambda>r. sr_used r \<or> sr_size r < obj_size obj) end_region)) (\<lambda>cur.
     if cur = 0 then Inl (Err ENOMEM)
     else rbind (sr_node s cur) (\<lambda>r.
       map_object ob obj prot \<lparr>range_start = sub32 (sr_end r) (obj_size obj), range_size = obj_size obj\<rparr> 0 s)))"

definition vr_node :: "vmspace \<Rightarrow> nat \<Rightarrow> vm_region result" where
  "vr_node s p = (case vr_heap s p of None \<Rightarrow> Inl Undefined | Some r \<Rightarrow> Inr r)"

definition unmap_found :: "nat \<Rightarrow> vmspace \<Rightarrow> vmspace result" where
  "unmap_found cur s =
     (if cur = 0 then Inl (Err ENOENT)
      else rbind (sr_node s cur) (\<lambda>r.
        if sr_vm r = 0 then Inl (Err ENOENT)
        else
          rbind (vr_node s (sr_vm r)) (\<lambda>vr.
          let s1 = s\<lparr>vr_heap := (vr_heap s)(sr_vm r := Some (vr\<lparr>in_space := False\<rparr>))\<rparr> in
          rbind (pd_unmap (m_directory s1) vr null_range) (\<lambda>pd.
          free_region cur (s1\<lparr>m_directory := pd\<rparr>)))))"

definition unmap_region :: "nat \<Rightarrow> vmspace \<Rightarrow> vmspace result" where
  "unmap_region vm s = rbind (sr_find s (\<lambda>r. sr_vm r = vm)) (\<lambda>cur. unmap_found cur s)"

definition unmap_region_at :: "nat \<Rightarrow> vmspace \<Rightarrow> vmspace result" where
  "unmap_region_at address s = rbind (sr_find s (\<lambda>r. sr_start r = address)) (\<lambda>cur. unmap_found cur s)"

definition region_found :: "nat \<Rightarrow> vmspace \<Rightarrow> nat result" where
  "region_found cur s =
     (if cur = 0 then Inl (Err ENOENT)
      else rbind (sr_node s cur) (\<lambda>r. if sr_vm r \<noteq> 0 then Inr (sr_vm r) else Inl (Err ENOENT)))"

definition get_region_at :: "nat \<Rightarrow> vmspace \<Rightarrow> nat result" where
  "get_region_at address s = rbind (sr_find s (\<lambda>r. sr_start r = address)) (\<lambda>cur. region_found cur s)"

definition get_region_containing :: "nat \<Rightarrow> vmspace \<Rightarrow> nat result" where
  "get_region_containing address s = rbind (sr_find s (\<lambda>r. sr_contains r address)) (\<lambda>cur. region_found cur s)"

text \<open>The loops over all used regions; \<open>committed\<close> is \<open>num_committed_pages\<close> of a region's object.\<close>

partial_function (option) sr_iterate :: "(nat \<Rightarrow> space_region option) \<Rightarrow> (nat \<Rightarrow> 'a \<Rightarrow> bool \<times> 'a) \<Rightarrow> nat \<Rightarrow> 'a \<Rightarrow> 'a result option" where
  "sr_iterate h callback p a =
     (if p = 0 then Some (Inr a)
      else case h p of
        None \<Rightarrow> Some (Inl Undefined)
      | Some r \<Rightarrow>
          if sr_used r
          then (case callback (sr_vm r) a of (brk, a') \<Rightarrow> if brk then Some (Inr a') else sr_iterate h callback (sr_next r) a')
          else sr_iterate h callback (sr_next r) a)"

definition iterate_regions :: "(nat \<Rightarrow> 'a \<Rightarrow> bool \<times> 'a) \<Rightarrow> 'a \<Rightarrow> vmspace \<Rightarrow> 'a result" where
  "iterate_regions callback a s = returned (sr_iterate (sr_heap s) callback (m_region_map s) a)"

partial_function (option) sr_total :: "vmspace \<Rightarrow> (nat \<Rightarrow> nat) \<Rightarrow> nat \<Rightarrow> nat \<Rightarrow> nat result option" where
  "sr_total s committed p tot =
     (if p = 0 then Some (Inr tot)
      else case sr_heap s p of
        None \<Rightarrow> Some (Inl Undefined)
      | Some r \<Rightarrow>
          if sr_used r
          then (case vr_heap s (sr_vm r) of
                  None \<Rightarrow> Some (Inl Undefined)
                | Some vr \<Rightarrow> sr_total s committed (sr_next r) (add32 tot (committed (vr_object vr))))
          else sr_total s committed (sr_next r) tot)"

definition calculate_regular_anonymous_total :: "(nat \<Rightarrow> nat) \<Rightarrow> vmspace \<Rightarrow> nat result" where
  "calculate_regular_anonymous_total committed s =
     rbind (returned (sr_total s committed (m_region_map s) 0)) (\<lambda>total_pages. Inr ((total_pages * 4096) mod 4294967296))"

section \<open>Page faults\<close>

text \<open>
  An anonymous object; \<open>alloc\<close> is what \<open>MM.alloc_physical_page()\<close> returns. The contents of the
  frames and their reference counts are left out.
\<close>

definition try_cow_page :: "nat result \<Rightarrow> nat \<Rightarrow> vm_object \<Rightarrow> vm_object result" where
  "try_cow_page alloc page ob =
     rassert (page < length (physical_pages ob))
       (rbind (bitmap_get (cow_pages ob) page) (\<lambda>cow.
        if \<not> cow then Inl (Err EINVAL)
        else rbind (object_physical_page ob page) (\<lambda>old_page.
          rassert (old_page \<noteq> 0)
            (rbind alloc (\<lambda>new_page.
             rbind (bitmap_set (cow_pages ob) page False) (\<lambda>cow'.
             Inr (ob\<lparr>physical_pages := (physical_pages ob)[page := new_page], cow_pages := cow'\<rparr>)))))))"

definition try_fault_in_page :: "nat result \<Rightarrow> nat \<Rightarrow> vm_object \<Rightarrow> (bool \<times> vm_object) result" where
  "try_fault_in_page alloc page ob =
     (if page > length (physical_pages ob) then Inl (Err EINVAL)
      else rbind (object_physical_page ob page) (\<lambda>p.
        if p \<noteq> 0 then Inr (False, ob)
        else rbind alloc (\<lambda>new_page. Inr (True, ob\<lparr>physical_pages := (physical_pages ob)[page := new_page]\<rparr>))))"

datatype fault_type = Fault_Read | Fault_Write | Fault_Execute | Fault_Unknown

text \<open>\<open>objects\<close> is the store of the objects, by address.\<close>

definition fault_in_region :: "nat result \<Rightarrow> nat \<Rightarrow> vm_region \<Rightarrow> (nat \<Rightarrow> vm_object) \<Rightarrow> vmspace \<Rightarrow> ((nat \<Rightarrow> vm_object) \<times> vmspace) result" where
  "fault_in_region alloc error_page vr objects s =
     (let object_page = error_page + object_start vr div 4096;
          ob = objects (vr_object vr) in
      rbind (object_physical_page ob object_page) (\<lambda>present.
      if present \<noteq> 0 then
        rbind (if prot_write (vr_prot vr)
               then rbind (bitmap_get (cow_pages ob) object_page) (\<lambda>cow. if cow then try_cow_page alloc object_page ob else Inr ob)
               else Inr ob) (\<lambda>ob'.
        rbind (pd_map (m_directory s) vr ob' \<lparr>range_start = (object_page * 4096) mod 4294967296, range_size = 4096\<rparr>) (\<lambda>pd.
        Inr (objects(vr_object vr := ob'), s\<lparr>m_directory := pd\<rparr>)))
      else
        rbind (try_fault_in_page alloc object_page ob) (\<lambda>(did_read, ob').
        rbind (object_physical_page ob' object_page) (\<lambda>p.
        rassert (p \<noteq> 0)
          (if did_read
           then rbind (pd_map (m_directory s) vr ob' \<lparr>range_start = error_page * 4096, range_size = 4096\<rparr>) (\<lambda>pd.
                  Inr (objects(vr_object vr := ob'), s\<lparr>m_directory := pd\<rparr>))
           else Inr (objects(vr_object vr := ob'), s))))))"

definition try_pagefault :: "nat result \<Rightarrow> nat \<Rightarrow> fault_type \<Rightarrow> (nat \<Rightarrow> vm_object) \<Rightarrow> vmspace \<Rightarrow> ((nat \<Rightarrow> vm_object) \<times> vmspace) result" where
  "try_pagefault alloc address type objects s =
     rbind (sr_find s (\<lambda>r. sr_contains r address)) (\<lambda>cur.
     if cur = 0 then Inl (Err ENOENT)
     else rbind (sr_node s cur) (\<lambda>c.
       if sr_vm c = 0 then Inl (Err EINVAL)
       else rbind (vr_node s (sr_vm c)) (\<lambda>vr.
         if \<not> range_contains (vr_range vr) address then Inl (Err ENOENT)
         else if (\<not> prot_read (vr_prot vr) \<and> type = Fault_Read) \<or> (\<not> prot_write (vr_prot vr) \<and> type = Fault_Write) \<or>
                 (\<not> prot_execute (vr_prot vr) \<and> type = Fault_Execute)
         then Inl (Err EINVAL)
         else fault_in_region alloc (sub32 address (range_start (vr_range vr)) div 4096) vr objects s)))"

end
