(* ===== verification/VMLayout.thy ===== *)
theory VMLayout
  imports VMSpace
begin

text \<open>
  What the regions of an address space look like: the linked nodes as a list of extents that tile
  the space, and what each operation of \<open>VMSpace.cpp\<close> does to that list.
\<close>

section \<open>Linked regions\<close>

definition nx :: "(nat \<Rightarrow> space_region option) \<Rightarrow> nat \<Rightarrow> nat" where
  "nx h p = (case h p of None \<Rightarrow> 0 | Some r \<Rightarrow> sr_next r)"

definition pv :: "(nat \<Rightarrow> space_region option) \<Rightarrow> nat \<Rightarrow> nat" where
  "pv h p = (case h p of None \<Rightarrow> 0 | Some r \<Rightarrow> sr_prev r)"

definition linked :: "(nat \<Rightarrow> space_region option) \<Rightarrow> nat \<Rightarrow> nat \<Rightarrow> nat list \<Rightarrow> bool" where
  "linked h fresh m ps \<longleftrightarrow> chain 0 (nx h) (pv h) 0 m ps \<and> distinct ps \<and> set ps \<subseteq> dom h \<and>
     dom h \<subseteq> {0<..<fresh} \<and> 0 < fresh"

record extent =
  x_start :: nat
  x_size :: nat
  x_used :: bool
  x_vm :: nat

definition extent_of :: "space_region \<Rightarrow> extent" where
  "extent_of r = \<lparr>x_start = sr_start r, x_size = sr_size r, x_used = sr_used r, x_vm = sr_vm r\<rparr>"

lemma extent_of_sel [simp]:
  "x_start (extent_of r) = sr_start r" "x_size (extent_of r) = sr_size r"
  "x_used (extent_of r) = sr_used r" "x_vm (extent_of r) = sr_vm r"
  by (simp_all add: extent_of_def)

definition extents :: "(nat \<Rightarrow> space_region option) \<Rightarrow> nat list \<Rightarrow> extent list" where
  "extents h ps = map (\<lambda>p. extent_of (the (h p))) ps"

lemma extents_simps [simp]:
  "extents h [] = []" "extents h (p # ps) = extent_of (the (h p)) # extents h ps"
  "extents h (ps @ qs) = extents h ps @ extents h qs" "length (extents h ps) = length ps"
  by (simp_all add: extents_def)

lemma extents_cong: "(\<And>p. p \<in> set ps \<Longrightarrow> extent_of (the (h p)) = extent_of (the (h' p))) \<Longrightarrow> extents h ps = extents h' ps"
  by (simp add: extents_def)

lemma linkedD:
  assumes "linked h f m ps"
  shows "p \<in> set ps \<Longrightarrow> \<exists>r. h p = Some r" "h 0 = None" "h f = None" "f \<notin> set ps" "0 \<notin> set ps" "distinct ps" "p \<in> set ps \<Longrightarrow> p \<noteq> 0"
proof -
  have l: "set ps \<subseteq> dom h" "dom h \<subseteq> {0<..<f}" "distinct ps" using assms by (auto simp: linked_def)
  then have "set ps \<subseteq> {0<..<f}" by blast
  then show "f \<notin> set ps" "0 \<notin> set ps" "p \<in> set ps \<Longrightarrow> p \<noteq> 0" by auto
  show "p \<in> set ps \<Longrightarrow> \<exists>r. h p = Some r" "h 0 = None" "h f = None" "distinct ps" using l by auto
qed

lemma linked_sets: "linked h f m ps \<Longrightarrow> set ps \<subseteq> dom h" "linked h f m ps \<Longrightarrow> dom h \<subseteq> {0<..<f}"
  by (simp_all add: linked_def)

lemma walk_chain:
  "chain 0 (nx h) (pv h) q p ps \<Longrightarrow> set ps \<subseteq> dom h \<Longrightarrow>
   sr_walk h P p = Some (Inr (case dropWhile (\<lambda>p. \<not> P (the (h p))) ps of [] \<Rightarrow> 0 | x # _ \<Rightarrow> x))"
proof (induction ps arbitrary: q p)
  case Nil
  then show ?case by (simp add: sr_walk.simps)
next
  case (Cons x ps)
  then obtain r where r: "h x = Some r" by auto
  have "sr_walk h P (nx h x) = Some (Inr (case dropWhile (\<lambda>p. \<not> P (the (h p))) ps of [] \<Rightarrow> 0 | x # _ \<Rightarrow> x))"
    using Cons.IH [of x "nx h x"] Cons.prems by simp
  then show ?case using Cons.prems r by (simp add: sr_walk.simps nx_def)
qed

text \<open>A search ends at null, or at the first node that satisfies the test.\<close>

lemma sr_find_cases:
  assumes "linked (sr_heap s) (sr_fresh s) (m_region_map s) ps"
  obtains (none) "sr_find s P = Inr 0" "\<forall>p \<in> set ps. \<not> P (the (sr_heap s p))"
  | (some) us p vs where "ps = us @ p # vs" "sr_find s P = Inr p" "P (the (sr_heap s p))" "\<forall>u \<in> set us. \<not> P (the (sr_heap s u))"
proof -
  let ?Q = "\<lambda>p. \<not> P (the (sr_heap s p))"
  have f: "sr_find s P = Inr (case dropWhile ?Q ps of [] \<Rightarrow> 0 | x # _ \<Rightarrow> x)"
    using assms walk_chain [of "sr_heap s" 0 "m_region_map s" ps P] by (simp add: sr_find_def linked_def)
  show thesis
  proof (cases "dropWhile ?Q ps")
    case Nil
    have "sr_find s P = Inr 0" using f unfolding Nil by simp
    then show thesis using none Nil by (simp add: dropWhile_eq_Nil_conv)
  next
    case (Cons p vs)
    have "ps = takeWhile ?Q ps @ p # vs" using takeWhile_dropWhile_id [of ?Q ps] Cons by simp
    moreover have "P (the (sr_heap s p))" using hd_dropWhile [of ?Q ps] Cons by simp
    moreover have "\<forall>u \<in> set (takeWhile ?Q ps). ?Q u" using set_takeWhileD by metis
    ultimately show thesis using f Cons some [of "takeWhile ?Q ps" p vs] by simp
  qed
qed

text \<open>Setting one link of a node that may be null.\<close>

definition set_next :: "nat \<Rightarrow> nat \<Rightarrow> (nat \<Rightarrow> space_region option) \<Rightarrow> nat \<Rightarrow> space_region option" where
  "set_next q n h = (if q = 0 then h else h(q := Some ((the (h q))\<lparr>sr_next := n\<rparr>)))"

definition set_prev :: "nat \<Rightarrow> nat \<Rightarrow> (nat \<Rightarrow> space_region option) \<Rightarrow> nat \<Rightarrow> space_region option" where
  "set_prev q n h = (if q = 0 then h else h(q := Some ((the (h q))\<lparr>sr_prev := n\<rparr>)))"

lemma sr_update_eq: "sr_heap s p = Some r \<Longrightarrow> sr_update p f s = Inr (s\<lparr>sr_heap := (sr_heap s)(p := Some (f r))\<rparr>)"
  by (simp add: sr_update_def sr_node_def)

lemma sr_node_eq: "sr_heap s p = Some r \<Longrightarrow> sr_node s p = Inr r"
  by (simp add: sr_node_def)

lemma update_next_eq:
  "q = 0 \<or> q \<in> dom (sr_heap s) \<Longrightarrow>
   (if q \<noteq> 0 then sr_update q (\<lambda>r. r\<lparr>sr_next := n\<rparr>) s else Inr s) = Inr (s\<lparr>sr_heap := set_next q n (sr_heap s)\<rparr>)"
  by (auto simp: set_next_def sr_update_eq)

lemma update_prev_eq:
  "q = 0 \<or> q \<in> dom (sr_heap s) \<Longrightarrow>
   (if q \<noteq> 0 then sr_update q (\<lambda>r. r\<lparr>sr_prev := n\<rparr>) s else Inr s) = Inr (s\<lparr>sr_heap := set_prev q n (sr_heap s)\<rparr>)"
  by (auto simp: set_prev_def sr_update_eq)

lemma set_link_sel:
  assumes "q = 0 \<or> q \<in> dom h" "h 0 = None"
  shows "nx (set_next q n h) p = (if q \<noteq> 0 \<and> p = q then n else nx h p)" "pv (set_next q n h) p = pv h p"
    "nx (set_prev q n h) p = nx h p" "pv (set_prev q n h) p = (if q \<noteq> 0 \<and> p = q then n else pv h p)"
    "extent_of (the (set_next q n h p)) = extent_of (the (h p))" "extent_of (the (set_prev q n h p)) = extent_of (the (h p))"
    "dom (set_next q n h) = dom h" "dom (set_prev q n h) = dom h"
    "p \<noteq> q \<Longrightarrow> set_next q n h p = h p" "p \<noteq> q \<Longrightarrow> set_prev q n h p = h p"
  using assms by (auto simp: set_next_def set_prev_def nx_def pv_def extent_of_def)

lemma neighbours:
  assumes "linked h f m (us @ p # vs)" "h p = Some c"
  shows "sr_prev c = (if us = [] then 0 else last us)" "sr_next c = (if vs = [] then 0 else hd vs)"
    "sr_prev c = 0 \<or> sr_prev c \<in> set us" "sr_next c = 0 \<or> sr_next c \<in> set vs"
    "sr_prev c \<noteq> p" "sr_next c \<noteq> p" "sr_prev c = 0 \<or> sr_prev c \<in> dom h" "sr_next c = 0 \<or> sr_next c \<in> dom h"
proof -
  have m: "pv h p = (if us = [] then 0 else last us) \<and> nx h p = (if vs = [] then 0 else hd vs) \<and> p \<noteq> 0"
    using chain_middle [of 0 "nx h" "pv h" 0 m us p vs] assms(1) by (simp add: linked_def)
  then show *: "sr_prev c = (if us = [] then 0 else last us)" "sr_next c = (if vs = [] then 0 else hd vs)"
    using assms(2) by (auto simp: nx_def pv_def)
  show 3: "sr_prev c = 0 \<or> sr_prev c \<in> set us" "sr_next c = 0 \<or> sr_next c \<in> set vs" using * by (auto simp: last_in_set)
  show "sr_prev c \<noteq> p" "sr_next c \<noteq> p" using 3 m linkedD(6) [OF assms(1)] by auto
  show "sr_prev c = 0 \<or> sr_prev c \<in> dom h" "sr_next c = 0 \<or> sr_next c \<in> dom h" using 3 assms(1) by (auto simp: linked_def)
qed


text \<open>Insertion in front of a node and behind it, removal, and a change of a node's data.\<close>

lemma linked_insert_before:
  assumes L: "linked h f m (us @ p # vs)" and c: "h p = Some c" and n: "sr_next n = p" "sr_prev n = sr_prev c"
    and c': "sr_prev c' = f" "sr_next c' = sr_next c" and h': "h' = (set_next (sr_prev c) f (h(f := Some n)))(p := Some c')"
  shows "linked h' (f + 1) (if m = p then f else m) (us @ f # p # vs)"
    "extents h' (us @ f # p # vs) = extents h us @ extent_of n # extent_of c' # extents h vs"
proof -
  note D = linkedD [OF L]
  note N = neighbours [OF L c]
  have f: "f \<notin> set us" "f \<notin> set vs" "f \<noteq> p" "f \<noteq> 0" "p \<noteq> 0" using D(4) L D(7) [of p] by (auto simp: linked_def)
  have pf: "sr_prev c \<noteq> f" using N(3) f by auto
  have sl: "sr_prev c = 0 \<or> sr_prev c \<in> dom (h(f := Some n))" "(h(f := Some n)) 0 = None" using N(7) f D(2) by auto
  note S = set_link_sel [OF sl]
  have link: "nx h' x = before_next 0 (nx h) (pv h) p f x" "pv h' x = before_prev (pv h) p f x" if "x \<in> set (us @ f # p # vs)" for x
  proof -
    have "pv h p = sr_prev c" "nx h p = sr_next c" using c by (auto simp: nx_def pv_def)
    moreover have "nx h' x = (if x = p then sr_next c else nx (set_next (sr_prev c) f (h(f := Some n))) x)"
      "pv h' x = (if x = p then f else pv (set_next (sr_prev c) f (h(f := Some n))) x)"
      using c' by (auto simp: h' nx_def pv_def)
    moreover have "nx (h(f := Some n)) x = (if x = f then p else nx h x)" "pv (h(f := Some n)) x = (if x = f then sr_prev c else pv h x)"
      using n by (auto simp: nx_def pv_def)
    ultimately have "nx h' x = (if x = p then nx h p else if pv h p \<noteq> 0 \<and> x = pv h p then f else if x = f then p else nx h x)"
      "pv h' x = (if x = p then f else if x = f then pv h p else pv h x)" "pv h p \<noteq> p" "pv h p \<noteq> f"
      using N(5) pf by (simp_all only: S(1,2) not_False_eq_True)
    then show "nx h' x = before_next 0 (nx h) (pv h) p f x" "pv h' x = before_prev (pv h) p f x"
      using f by (auto simp: before_next_def before_prev_def)
  qed
  have "chain 0 (before_next 0 (nx h) (pv h) p f) (before_prev (pv h) p f) 0 (if m = p then f else m) (us @ f # p # vs)"
    using L f D(5,6) by (intro chain_insert_before) (auto simp: linked_def)
  then have "chain 0 (nx h') (pv h') 0 (if m = p then f else m) (us @ f # p # vs)"
    using link by (subst chain_cong [where nx' = "before_next 0 (nx h) (pv h) p f" and pv' = "before_prev (pv h) p f"]) auto
  moreover have "dom h' = insert f (dom h)"
  proof -
    have "dom h' = insert p (insert f (dom h))" unfolding h' dom_fun_upd S(7) by simp
    then show ?thesis using c by auto
  qed
  moreover have "distinct (us @ f # p # vs)" "set (us @ f # p # vs) \<subseteq> insert f (dom h)" "insert f (dom h) \<subseteq> {0<..<f + 1}"
    using D(6) f linked_sets [OF L] by auto
  ultimately show "linked h' (f + 1) (if m = p then f else m) (us @ f # p # vs)" unfolding linked_def by simp
  have e: "extent_of (the (h' x)) = extent_of (the (h x))" if "x \<noteq> f" "x \<noteq> p" for x using that by (simp add: h' S(5))
  have "extent_of (the (h' f)) = extent_of n" using f by (simp add: h' S(5))
  moreover have "extents h' us = extents h us" "extents h' vs = extents h vs"
    by (rule extents_cong, rule e, use f D(6) in auto)+
  ultimately show "extents h' (us @ f # p # vs) = extents h us @ extent_of n # extent_of c' # extents h vs" by (simp add: h')
qed

lemma linked_insert_after:
  assumes L: "linked h f m (us @ p # vs)" and c: "h p = Some c" and n: "sr_next n = sr_next c" "sr_prev n = p"
    and c': "sr_next c' = f" "sr_prev c' = sr_prev c" and h': "h' = (set_prev (sr_next c) f (h(f := Some n)))(p := Some c')"
  shows "linked h' (f + 1) m (us @ p # f # vs)"
    "extents h' (us @ p # f # vs) = extents h us @ extent_of c' # extent_of n # extents h vs"
proof -
  note D = linkedD [OF L]
  note N = neighbours [OF L c]
  have f: "f \<notin> set us" "f \<notin> set vs" "f \<noteq> p" "f \<noteq> 0" "p \<noteq> 0" using D(4) L D(7) [of p] by (auto simp: linked_def)
  have nf: "sr_next c \<noteq> f" using N(4) f by auto
  have sl: "sr_next c = 0 \<or> sr_next c \<in> dom (h(f := Some n))" "(h(f := Some n)) 0 = None" using N(8) f D(2) by auto
  note S = set_link_sel [OF sl]
  have link: "nx h' x = after_next (nx h) p f x" "pv h' x = after_prev 0 (nx h) (pv h) p f x" if "x \<in> set (us @ p # f # vs)" for x
  proof -
    have "pv h p = sr_prev c" "nx h p = sr_next c" using c by (auto simp: nx_def pv_def)
    moreover have "nx h' x = (if x = p then f else nx (set_prev (sr_next c) f (h(f := Some n))) x)"
      "pv h' x = (if x = p then sr_prev c else pv (set_prev (sr_next c) f (h(f := Some n))) x)"
      using c' by (auto simp: h' nx_def pv_def)
    moreover have "nx (h(f := Some n)) x = (if x = f then sr_next c else nx h x)" "pv (h(f := Some n)) x = (if x = f then p else pv h x)"
      using n by (auto simp: nx_def pv_def)
    ultimately have "nx h' x = (if x = p then f else if x = f then nx h p else nx h x)" "nx h p \<noteq> p" "nx h p \<noteq> f"
      "pv h' x = (if x = p then pv h p else if nx h p \<noteq> 0 \<and> x = nx h p then f else if x = f then p else pv h x)"
      using N(6) nf by (simp_all only: S(3,4) not_False_eq_True)
    then show "nx h' x = after_next (nx h) p f x" "pv h' x = after_prev 0 (nx h) (pv h) p f x"
      using f by (auto simp: after_next_def after_prev_def)
  qed
  have "chain 0 (after_next (nx h) p f) (after_prev 0 (nx h) (pv h) p f) 0 m (us @ p # f # vs)"
    using L f D(5,6) by (intro chain_insert_after) (auto simp: linked_def)
  then have "chain 0 (nx h') (pv h') 0 m (us @ p # f # vs)"
    using link by (subst chain_cong [where nx' = "after_next (nx h) p f" and pv' = "after_prev 0 (nx h) (pv h) p f"]) auto
  moreover have "dom h' = insert f (dom h)"
  proof -
    have "dom h' = insert p (insert f (dom h))" unfolding h' dom_fun_upd S(8) by simp
    then show ?thesis using c by auto
  qed
  moreover have "distinct (us @ p # f # vs)" "set (us @ p # f # vs) \<subseteq> insert f (dom h)" "insert f (dom h) \<subseteq> {0<..<f + 1}"
    using D(6) f linked_sets [OF L] by auto
  ultimately show "linked h' (f + 1) m (us @ p # f # vs)" unfolding linked_def by simp
  have e: "extent_of (the (h' x)) = extent_of (the (h x))" if "x \<noteq> f" "x \<noteq> p" for x using that by (simp add: h' S(6))
  have "extent_of (the (h' f)) = extent_of n" using f by (simp add: h' S(6))
  moreover have "extents h' us = extents h us" "extents h' vs = extents h vs"
    by (rule extents_cong, rule e, use f D(6) in auto)+
  ultimately show "extents h' (us @ p # f # vs) = extents h us @ extent_of c' # extent_of n # extents h vs" by (simp add: h')
qed

lemma linked_data:
  assumes L: "linked h f m (us @ p # vs)" and c: "h p = Some c" "sr_next c' = sr_next c" "sr_prev c' = sr_prev c"
  shows "linked (h(p := Some c')) f m (us @ p # vs)"
    "extents (h(p := Some c')) (us @ p # vs) = extents h us @ extent_of c' # extents h vs"
proof -
  have "nx (h(p := Some c')) = nx h" "pv (h(p := Some c')) = pv h" using c by (auto simp: nx_def pv_def)
  moreover have "dom (h(p := Some c')) = dom h" using c(1) by auto
  ultimately show "linked (h(p := Some c')) f m (us @ p # vs)" using L by (simp add: linked_def)
  have "extents (h(p := Some c')) us = extents h us" "extents (h(p := Some c')) vs = extents h vs"
    using linkedD(6) [OF L] by (auto intro!: extents_cong)
  then show "extents (h(p := Some c')) (us @ p # vs) = extents h us @ extent_of c' # extents h vs" by simp
qed

lemma set_links_commute: "set_next a x (set_prev b y h) = set_prev b y (set_next a x h)"
  by (auto simp: set_next_def set_prev_def fun_eq_iff)

lemma linked_remove:
  assumes L: "linked h f m (us @ q # vs)" and r: "h q = Some r"
    and h': "h' = set_next (sr_prev r) (sr_next r) (set_prev (sr_next r) (sr_prev r) h)"
  shows "linked h' f (if m = q then sr_next r else m) (us @ vs)" "extents h' ps = extents h ps"
proof -
  note D = linkedD [OF L]
  note N = neighbours [OF L r]
  note S1 = set_link_sel [OF N(8) D(2)]
  have sl: "sr_prev r = 0 \<or> sr_prev r \<in> dom (set_prev (sr_next r) (sr_prev r) h)" "set_prev (sr_next r) (sr_prev r) h 0 = None"
    using N(7) D(2) S1(8) by auto
  note S2 = set_link_sel [OF sl]
  have "nx h q = sr_next r" "pv h q = sr_prev r" using r by (auto simp: nx_def pv_def)
  then have link: "nx h' = unlink_next 0 (nx h) (pv h) q" "pv h' = unlink_prev 0 (nx h) (pv h) q"
    by (auto simp: fun_eq_iff h' S1 S2 unlink_next_def unlink_prev_def)
  have "chain 0 (nx h') (pv h') 0 (if m = q then nx h q else m) (us @ vs)"
    unfolding link using L D(5,6) by (intro chain_unlink_from) (auto simp: linked_def)
  moreover have "nx h q = sr_next r" using r by (simp add: nx_def)
  moreover have "dom h' = dom h" by (simp add: h' S1 S2)
  ultimately show "linked h' f (if m = q then sr_next r else m) (us @ vs)" using L by (auto simp: linked_def)
  show "extents h' ps = extents h ps" by (rule extents_cong) (simp add: h' S1 S2)
qed

lemma linked_delete:
  assumes L: "linked h f m ps" and q: "q \<notin> set ps"
  shows "linked (h(q := None)) f m ps" "extents (h(q := None)) ps = extents h ps"
proof -
  have "nx (h(q := None)) x = nx h x" "pv (h(q := None)) x = pv h x" if "x \<in> set ps" for x using q that by (auto simp: nx_def pv_def)
  then have "chain 0 (nx (h(q := None))) (pv (h(q := None))) 0 m ps"
    using L by (subst chain_cong [where nx' = "nx h" and pv' = "pv h"]) (auto simp: linked_def)
  then show "linked (h(q := None)) f m ps" using L q by (auto simp: linked_def)
  show "extents (h(q := None)) ps = extents h ps" using q by (auto intro!: extents_cong)
qed


section \<open>Extents that tile the space\<close>

fun tiles :: "nat \<Rightarrow> extent list \<Rightarrow> nat \<Rightarrow> bool" where
  "tiles a [] e \<longleftrightarrow> a = e"
| "tiles a (x # xs) e \<longleftrightarrow> x_start x = a \<and> tiles (a + x_size x) xs e"

definition used_size :: "extent list \<Rightarrow> nat" where
  "used_size xs = sum_list (map x_size (filter x_used xs))"

definition separated :: "extent list \<Rightarrow> bool" where
  "separated xs \<longleftrightarrow> (\<forall>as x y bs. xs = as @ x # y # bs \<longrightarrow> x_used x \<or> x_used y)"

definition layout :: "nat \<Rightarrow> nat \<Rightarrow> extent list \<Rightarrow> bool" where
  "layout a e xs \<longleftrightarrow> tiles a xs e \<and> separated xs \<and> (\<forall>x \<in> set xs. \<not> x_used x \<longrightarrow> x_vm x = 0)"

lemma tiles_append: "tiles a (xs @ ys) e \<longleftrightarrow> (\<exists>m. tiles a xs m \<and> tiles m ys e)"
  by (induction xs arbitrary: a) auto

lemma tiles_le: "tiles a xs e \<Longrightarrow> a \<le> e"
  by (induction xs arbitrary: a) force+

lemma tiles_in: "tiles a xs e \<Longrightarrow> x \<in> set xs \<Longrightarrow> a \<le> x_start x \<and> x_start x + x_size x \<le> e"
proof (induction xs arbitrary: a)
  case (Cons y xs)
  have t: "x_start y = a" "tiles (a + x_size y) xs e" using Cons.prems(1) by auto
  show ?case
  proof (cases "x = y")
    case True
    then show ?thesis using t tiles_le [OF t(2)] by simp
  next
    case False
    then have "a + x_size y \<le> x_start x \<and> x_start x + x_size x \<le> e" using Cons.IH [OF t(2)] Cons.prems(2) by simp
    then show ?thesis by linarith
  qed
qed simp

lemma used_size_simps [simp]:
  "used_size [] = 0" "used_size (x # xs) = (if x_used x then x_size x else 0) + used_size xs"
  "used_size (xs @ ys) = used_size xs + used_size ys"
  by (simp_all add: used_size_def)

lemma used_size_le: "tiles a xs e \<Longrightarrow> a + used_size xs \<le> e"
proof (induction xs arbitrary: a)
  case (Cons x xs)
  have "a + x_size x + used_size xs \<le> e" by (rule Cons.IH) (use Cons.prems in simp)
  then show ?case by simp
qed simp

text \<open>Extents at different places of the list do not overlap.\<close>

lemma tiles_disjoint:
  assumes "tiles a (as @ x # bs @ y # cs) e"
  shows "x_start x + x_size x \<le> x_start y"
proof -
  obtain m where "x_start x = m" "tiles (m + x_size x) (bs @ y # cs) e" using assms by (auto simp: tiles_append)
  then show ?thesis using tiles_in [of "m + x_size x" "bs @ y # cs" e y] by simp
qed

lemma separated_simps [simp]: "separated []" "separated [x]"
  by (auto simp: separated_def Cons_eq_append_conv)

lemma separated_Cons: "separated (x # y # zs) \<longleftrightarrow> (x_used x \<or> x_used y) \<and> separated (y # zs)"
proof
  assume s: "separated (x # y # zs)"
  have "separated (y # zs)"
    unfolding separated_def
  proof (intro allI impI)
    fix as u v bs
    assume "y # zs = as @ u # v # bs"
    then have "x # y # zs = (x # as) @ u # v # bs" by simp
    then show "x_used u \<or> x_used v" using s unfolding separated_def by blast
  qed
  moreover have "x_used x \<or> x_used y" using s unfolding separated_def by (metis append_Nil)
  ultimately show "(x_used x \<or> x_used y) \<and> separated (y # zs)" by simp
next
  assume s: "(x_used x \<or> x_used y) \<and> separated (y # zs)"
  show "separated (x # y # zs)"
    unfolding separated_def
  proof (intro allI impI)
    fix as u v bs
    assume e: "x # y # zs = as @ u # v # bs"
    show "x_used u \<or> x_used v"
    proof (cases as)
      case Nil
      then show ?thesis using e s by simp
    next
      case (Cons a as')
      then have "y # zs = as' @ u # v # bs" using e by simp
      then show ?thesis using s unfolding separated_def by blast
    qed
  qed
qed

lemma separated_append:
  "separated (xs @ ys) \<longleftrightarrow> separated xs \<and> separated ys \<and> (xs \<noteq> [] \<longrightarrow> ys \<noteq> [] \<longrightarrow> x_used (last xs) \<or> x_used (hd ys))"
proof (induction xs)
  case (Cons x xs)
  show ?case
  proof (cases xs)
    case Nil
    then show ?thesis by (cases ys) (auto simp: separated_Cons)
  next
    case (Cons y zs)
    then show ?thesis using Cons.IH by (auto simp: separated_Cons)
  qed
qed simp

text \<open>
  A free extent \<open>y\<close> is carved into an extent that is used and what is left of \<open>y\<close> on both sides.
  Allocation goes from left to right, release from right to left.
\<close>

definition rest :: "extent list \<Rightarrow> bool" where
  "rest xs \<longleftrightarrow> xs = [] \<or> (\<exists>x. xs = [x] \<and> \<not> x_used x \<and> x_vm x = 0)"

definition carve :: "extent \<Rightarrow> extent list \<Rightarrow> extent \<Rightarrow> extent list \<Rightarrow> bool" where
  "carve y pre t post \<longleftrightarrow> \<not> x_used y \<and> x_vm y = 0 \<and> x_used t \<and> rest pre \<and> rest post \<and>
     tiles (x_start y) (pre @ t # post) (x_start y + x_size y)"

definition used_ends :: "extent list \<Rightarrow> extent list \<Rightarrow> bool" where
  "used_ends as bs \<longleftrightarrow> (as \<noteq> [] \<longrightarrow> x_used (last as)) \<and> (bs \<noteq> [] \<longrightarrow> x_used (hd bs))"

lemma tiles_same_end: "tiles a xs e \<Longrightarrow> tiles a xs e' \<Longrightarrow> e = e'"
  by (induction xs arbitrary: a) auto

lemma tiles_same_start: "tiles a xs e \<Longrightarrow> tiles a' xs e' \<Longrightarrow> xs \<noteq> [] \<Longrightarrow> a = a'"
  by (cases xs) auto

lemma carve_tiles:
  assumes "carve y pre t post"
  shows "tiles a (as @ y # bs) e \<longleftrightarrow> tiles a (as @ pre @ t # post @ bs) e"
proof -
  let ?m = "pre @ t # post"
  have m: "tiles (x_start y) ?m (x_start y + x_size y)" using assms by (simp add: carve_def)
  have "tiles b ?m b' \<longleftrightarrow> b = x_start y \<and> b' = x_start y + x_size y" for b b'
    using m tiles_same_start [OF m, of b b'] tiles_same_end [OF m, of b'] by auto
  then have "tiles b (?m @ bs) e \<longleftrightarrow> b = x_start y \<and> tiles (x_start y + x_size y) bs e" for b
    by (auto simp only: tiles_append [of b ?m bs e])
  then have "tiles b (pre @ t # post @ bs) e \<longleftrightarrow> tiles b (y # bs) e" for b by auto
  then show ?thesis by (simp only: tiles_append [of a as])
qed

lemma rest_separated: "rest xs \<Longrightarrow> separated xs" "rest xs \<Longrightarrow> used_size xs = 0"
  by (auto simp: rest_def)

lemma layout_carve:
  assumes c: "carve y pre t post"
  shows "layout a e (as @ y # bs) \<longleftrightarrow> used_ends as bs \<and> layout a e (as @ pre @ t # post @ bs)"
proof -
  have s: "separated (as @ y # bs) \<longleftrightarrow> separated as \<and> separated bs \<and> used_ends as bs"
    using c by (cases bs) (auto simp: carve_def separated_append separated_Cons used_ends_def)
  have r: "rest pre" "rest post" "x_used t" using c by (auto simp: carve_def)
  have "separated (as @ pre @ t # post @ bs) \<longleftrightarrow> separated as \<and> separated bs" if "used_ends as bs"
    using that r by (cases bs) (auto simp: rest_def separated_append separated_Cons used_ends_def)
  moreover have "(\<forall>x \<in> set (as @ y # bs). \<not> x_used x \<longrightarrow> x_vm x = 0) \<longleftrightarrow> (\<forall>x \<in> set (as @ pre @ t # post @ bs). \<not> x_used x \<longrightarrow> x_vm x = 0)"
    using c by (auto simp: carve_def rest_def)
  ultimately show ?thesis unfolding layout_def s carve_tiles [OF c] by blast
qed

lemma carve_used: "carve y pre t post \<Longrightarrow> used_size (as @ pre @ t # post @ bs) = used_size (as @ y # bs) + x_size t"
  by (auto simp: carve_def rest_def)


section \<open>Allocation\<close>

abbreviation slinked :: "vmspace \<Rightarrow> nat list \<Rightarrow> bool" where
  "slinked s ps \<equiv> linked (sr_heap s) (sr_fresh s) (m_region_map s) ps"

abbreviation sextents :: "vmspace \<Rightarrow> nat list \<Rightarrow> extent list" where
  "sextents s ps \<equiv> extents (sr_heap s) ps"

definition space :: "vmspace \<Rightarrow> nat list \<Rightarrow> bool" where
  "space s ps \<longleftrightarrow> slinked s ps \<and> layout (m_start s) (m_start s + m_size s) (sextents s ps) \<and>
     m_start s + m_size s < 4294967296 \<and> m_used s = used_size (sextents s ps)"

definition same_env :: "vmspace \<Rightarrow> vmspace \<Rightarrow> bool" where
  "same_env s s' \<longleftrightarrow> m_start s' = m_start s \<and> m_size s' = m_size s \<and> vr_heap s' = vr_heap s \<and> vr_fresh s' = vr_fresh s \<and>
     m_directory s' = m_directory s"

text \<open>
  The result of an allocation: region \<open>p\<close> is the extent \<open>t\<close>, carved out of the free extent \<open>y\<close>.
\<close>

definition allocated :: "vmspace \<Rightarrow> nat list \<Rightarrow> vmspace \<Rightarrow> nat \<Rightarrow> extent \<Rightarrow> extent \<Rightarrow> bool" where
  "allocated s ps s' p y t \<longleftrightarrow> (\<exists>as bs us vs pre post. sextents s ps = as @ y # bs \<and> carve y pre t post \<and>
     slinked s' (us @ p # vs) \<and> sextents s' us = as @ pre \<and> extent_of (the (sr_heap s' p)) = t \<and>
     sextents s' vs = post @ bs \<and> same_env s s' \<and> m_used s' = add32 (m_used s) (x_size t))"

lemma allocatedI:
  assumes "sextents s ps = as @ y # bs" "carve y pre t post" "slinked s' (us @ p # vs)" "sextents s' us = as @ pre"
    "extent_of (the (sr_heap s' p)) = t" "sextents s' vs = post @ bs" "same_env s s'" "m_used s' = add32 (m_used s) (x_size t)"
  shows "allocated s ps s' p y t"
  unfolding allocated_def using assms by blast

lemma space_extent:
  assumes "space s (us @ p # vs)" "sr_heap s p = Some c"
  shows "m_start s \<le> sr_start c" "sr_start c + sr_size c \<le> m_start s + m_size s" "sr_start c + sr_size c < 4294967296"
    "sr_end c = sr_start c + sr_size c" "\<not> sr_used c \<Longrightarrow> sr_vm c = 0"
proof -
  have "tiles (m_start s) (sextents s (us @ p # vs)) (m_start s + m_size s)" using assms by (simp add: space_def layout_def)
  then have "m_start s \<le> sr_start c \<and> sr_start c + sr_size c \<le> m_start s + m_size s"
    using tiles_in [of "m_start s" _ _ "extent_of c"] assms(2) by simp
  then show 1: "m_start s \<le> sr_start c" "sr_start c + sr_size c \<le> m_start s + m_size s" by auto
  then show "sr_start c + sr_size c < 4294967296" using assms(1) by (simp add: space_def)
  then show "sr_end c = sr_start c + sr_size c" by (simp add: sr_end_def)
  show "\<not> sr_used c \<Longrightarrow> sr_vm c = 0" using assms by (auto simp: space_def layout_def)
qed

lemma take_whole_ok:
  assumes S: "space s (us @ p # vs)" and c: "sr_heap s p = Some c" "\<not> sr_used c" "sr_size c = n"
  shows "\<exists>s'. take_whole p n s = Inr (p, s') \<and>
    allocated s (us @ p # vs) s' p (extent_of c) \<lparr>x_start = sr_start c, x_size = n, x_used = True, x_vm = 0\<rparr>"
proof -
  let ?t = "\<lparr>x_start = sr_start c, x_size = n, x_used = True, x_vm = 0\<rparr>"
  let ?s = "s\<lparr>sr_heap := (sr_heap s)(p := Some (c\<lparr>sr_used := True\<rparr>)), m_used := add32 (m_used s) n\<rparr>"
  have L: "slinked s (us @ p # vs)" using S by (simp add: space_def)
  note ld = linked_data [OF L c(1), of "c\<lparr>sr_used := True\<rparr>", simplified]
  have vm: "sr_vm c = 0" using space_extent(5) [OF S c(1)] c(2) by simp
  have eq: "take_whole p n s = Inr (p, ?s)" by (simp add: take_whole_def sr_update_eq [OF c(1)])
  have "carve (extent_of c) [] ?t []" using c vm by (simp add: carve_def rest_def)
  moreover have "extent_of (c\<lparr>sr_used := True\<rparr>) = ?t" using c vm by (simp add: extent_of_def)
  moreover have "sextents ?s us = sextents s us" "sextents ?s vs = sextents s vs"
    using linkedD(6) [OF L] by (auto intro!: extents_cong)
  moreover have "slinked ?s (us @ p # vs)" using ld(1) by simp
  ultimately have "allocated s (us @ p # vs) ?s p (extent_of c) ?t"
    unfolding allocated_def using c(1)
    by (intro exI [of _ "sextents s us"] exI [of _ "sextents s vs"] exI [of _ us] exI [of _ vs] exI [of _ "[]"]) (simp add: same_env_def)
  then show ?thesis using eq by blast
qed

lemma used_fits: "space s ps \<Longrightarrow> sextents s ps = as @ y # bs \<Longrightarrow> \<not> x_used y \<Longrightarrow> x_size t \<le> x_size y \<Longrightarrow>
  used_size (sextents s ps) + x_size t < 4294967296"
proof -
  assume S: "space s ps" and y: "sextents s ps = as @ y # bs" "\<not> x_used y" "x_size t \<le> x_size y"
  let ?y = "y\<lparr>x_used := True\<rparr>"
  have "tiles a (as @ ?y # bs) e = tiles a (as @ y # bs) e" for a e by (simp add: tiles_append)
  then have "tiles (m_start s) (as @ ?y # bs) (m_start s + m_size s)" using S y by (simp add: space_def layout_def)
  then show "used_size (sextents s ps) + x_size t < 4294967296" using used_size_le [of "m_start s" "as @ ?y # bs" "m_start s + m_size s"] S y
    by (simp add: space_def)
qed

lemma carve_size: "carve y pre t post \<Longrightarrow> x_size t \<le> x_size y"
  using tiles_in [of "x_start y" "pre @ t # post" "x_start y + x_size y" t] by (auto simp: carve_def)

text \<open>An allocation keeps the layout of the space.\<close>

lemma allocated_space:
  assumes S: "space s ps" and A: "allocated s ps s' p y t"
  obtains as bs us vs pre post where "sextents s ps = as @ y # bs" "carve y pre t post" "space s' (us @ p # vs)"
    "sextents s' us = as @ pre" "extent_of (the (sr_heap s' p)) = t" "sextents s' vs = post @ bs" "same_env s s'"
proof -
  obtain as bs us vs pre post where a: "sextents s ps = as @ y # bs" "carve y pre t post" "slinked s' (us @ p # vs)"
    "sextents s' us = as @ pre" "extent_of (the (sr_heap s' p)) = t" "sextents s' vs = post @ bs" "same_env s s'"
    "m_used s' = add32 (m_used s) (x_size t)"
    using A unfolding allocated_def by blast
  have y: "\<not> x_used y" using a(2) by (simp add: carve_def)
  have xs: "sextents s' (us @ p # vs) = as @ pre @ t # post @ bs" using a by simp
  have "m_used s' = used_size (as @ pre @ t # post @ bs)"
    using used_fits [OF S a(1) y carve_size [OF a(2)]] S carve_used [OF a(2)] a(1,8) by (simp add: space_def)
  moreover have "layout (m_start s) (m_start s + m_size s) (as @ pre @ t # post @ bs)"
    using S a(1) layout_carve [OF a(2)] by (simp add: space_def)
  ultimately have "space s' (us @ p # vs)" using S a(3,7) xs by (simp add: space_def same_env_def)
  then show thesis using that a by blast
qed


lemma link_before_eq:
  "q = 0 \<or> q \<in> dom (sr_heap s) \<Longrightarrow> link_before q cur n s = Inr (s\<lparr>sr_heap := set_next q n (sr_heap s)\<rparr>)"
  unfolding link_before_def by (rule update_next_eq)

text \<open>A new node in front of region \<open>p\<close>: the common part of \<open>alloc_space\<close> and \<open>split_before\<close>.\<close>

lemma insert_node:
  assumes L: "slinked s (us @ p # vs)" and c: "sr_heap s p = Some c"
    and n: "sr_next n = p" "sr_prev n = sr_prev c" and f: "\<And>r. sr_next (f r) = sr_next r \<and> sr_prev (f r) = sr_fresh s"
  shows "rbind (link_before (sr_prev c) p (sr_fresh s) (sr_new n s)) (sr_update p f) =
      Inr (s\<lparr>sr_heap := (set_next (sr_prev c) (sr_fresh s) ((sr_heap s)(sr_fresh s := Some n)))(p := Some (f c)), sr_fresh := sr_fresh s + 1\<rparr>)"
    "linked ((set_next (sr_prev c) (sr_fresh s) ((sr_heap s)(sr_fresh s := Some n)))(p := Some (f c))) (sr_fresh s + 1)
      (if m_region_map s = p then sr_fresh s else m_region_map s) (us @ sr_fresh s # p # vs)"
    "extents ((set_next (sr_prev c) (sr_fresh s) ((sr_heap s)(sr_fresh s := Some n)))(p := Some (f c))) (us @ sr_fresh s # p # vs) =
      sextents s us @ extent_of n # extent_of (f c) # sextents s vs"
proof -
  let ?f = "sr_fresh s"
  note N = neighbours [OF L c]
  have pf: "p \<noteq> ?f" "?f \<noteq> 0" using linkedD(4) [OF L] L by (auto simp: linked_def)
  have q: "sr_prev c = 0 \<or> sr_prev c \<in> dom (sr_heap (sr_new n s))" using N(7) by (auto simp: sr_new_def)
  have "set_next (sr_prev c) ?f ((sr_heap s)(?f := Some n)) p = Some c" using N(5) pf c by (auto simp: set_next_def)
  then show "rbind (link_before (sr_prev c) p ?f (sr_new n s)) (sr_update p f) =
      Inr (s\<lparr>sr_heap := (set_next (sr_prev c) ?f ((sr_heap s)(?f := Some n)))(p := Some (f c)), sr_fresh := ?f + 1\<rparr>)"
    unfolding link_before_eq [OF q] by (simp add: sr_update_def sr_node_def sr_new_def)
  have "sr_prev (f c) = ?f" "sr_next (f c) = sr_next c" using f by auto
  from linked_insert_before [OF L c n this refl]
  show "linked ((set_next (sr_prev c) ?f ((sr_heap s)(?f := Some n)))(p := Some (f c))) (?f + 1)
      (if m_region_map s = p then ?f else m_region_map s) (us @ ?f # p # vs)"
    "extents ((set_next (sr_prev c) ?f ((sr_heap s)(?f := Some n)))(p := Some (f c))) (us @ ?f # p # vs) =
      sextents s us @ extent_of n # extent_of (f c) # sextents s vs" by auto
qed

lemma new_head_sel [simp]:
  "m_region_map (new_head p f s) = (if m_region_map s = p then f else m_region_map s)"
  "sr_heap (new_head p f s) = sr_heap s" "sr_fresh (new_head p f s) = sr_fresh s" "m_used (new_head p f s) = m_used s"
  "m_start (new_head p f s) = m_start s" "m_size (new_head p f s) = m_size s" "vr_heap (new_head p f s) = vr_heap s"
  "vr_fresh (new_head p f s) = vr_fresh s" "m_directory (new_head p f s) = m_directory s"
  by (simp_all add: new_head_def)

lemma split_off_front:
  assumes S: "space s (us @ p # vs)" and c: "sr_heap s p = Some c" "\<not> sr_used c" and n: "n < sr_size c"
    and find: "sr_find s (\<lambda>r. \<not> (sr_used r \<or> sr_size r < n)) = Inr p" and al: "n mod 4096 = 0"
  shows "\<exists>s'. alloc_space n s = Inr (sr_fresh s, s') \<and>
    allocated s (us @ p # vs) s' (sr_fresh s) (extent_of c) \<lparr>x_start = sr_start c, x_size = n, x_used = True, x_vm = 0\<rparr>"
proof -
  let ?f = "sr_fresh s" and ?t = "\<lparr>x_start = sr_start c, x_size = n, x_used = True, x_vm = 0\<rparr>"
  let ?n = "\<lparr>sr_start = sr_start c, sr_size = n, sr_used = True, sr_next = p, sr_prev = sr_prev c, sr_vm = 0\<rparr>"
  let ?u = "\<lambda>r. r\<lparr>sr_start := add32 (sr_start r) n, sr_size := sub32 (sr_size r) n, sr_prev := ?f\<rparr>"
  have L: "slinked s (us @ p # vs)" using S by (simp add: space_def)
  have p0: "p \<noteq> 0" using linkedD(7) [OF L] by simp
  note E = space_extent [OF S c(1)]
  note I = insert_node [OF L c(1), of ?n ?u, simplified]
  let ?h = "(set_next (sr_prev c) ?f ((sr_heap s)(?f := Some ?n)))(p := Some (?u c))"
  let ?s = "new_head p ?f (s\<lparr>sr_heap := ?h, sr_fresh := ?f + 1, m_used := add32 (m_used s) n\<rparr>)"
  have uc: "extent_of (?u c) = \<lparr>x_start = sr_start c + n, x_size = sr_size c - n, x_used = False, x_vm = 0\<rparr>"
    using E(3,5) c(2) n by (simp add: extent_of_def)
  have assoc: "rbind m (\<lambda>a. rbind (g a) k) = rbind (rbind m g) k" for m :: "vmspace result" and g and k :: "vmspace \<Rightarrow> (nat \<times> vmspace) result"
    by (cases m) auto
  have "alloc_space n s = Inr (?f, ?s)"
    unfolding alloc_space_def find using n p0 by (simp add: al sr_node_eq [OF c(1)] Let_def assoc I(1))
  moreover have sl: "slinked ?s (us @ ?f # p # vs)" using I(2) by (simp cong: if_cong split del: if_split)
  have "sextents ?s (us @ ?f # p # vs) = sextents s us @ ?t # extent_of (?u c) # sextents s vs"
    using I(3) by (simp add: extent_of_def)
  then have ex: "sextents ?s us = sextents s us @ []" "extent_of (the (sr_heap ?s ?f)) = ?t"
    "sextents ?s (p # vs) = [extent_of (?u c)] @ sextents s vs"
    by (simp_all add: append_eq_append_conv)
  have ca: "carve (extent_of c) [] ?t [extent_of (?u c)]"
    unfolding uc using c n E(5) by (simp add: carve_def rest_def)
  have "sextents s (us @ p # vs) = sextents s us @ extent_of c # sextents s vs" using c(1) by simp
  then have "allocated s (us @ p # vs) ?s ?f (extent_of c) ?t"
    by (rule allocatedI [OF _ ca sl ex]) (simp_all add: same_env_def)
  ultimately show ?thesis by blast
qed

lemma alloc_space_ok:
  assumes S: "space s ps" and al: "n mod 4096 = 0"
  obtains (nomem) "alloc_space n s = Inl (Err ENOMEM)" "\<forall>x \<in> set (sextents s ps). x_used x \<or> x_size x < n"
  | (ok) p s' y where "alloc_space n s = Inr (p, s')" "allocated s ps s' p y \<lparr>x_start = x_start y, x_size = n, x_used = True, x_vm = 0\<rparr>"
      "\<exists>as bs. sextents s ps = as @ y # bs \<and> (\<forall>x \<in> set as. x_used x \<or> x_size x < n)"
proof -
  let ?P = "\<lambda>r. \<not> (sr_used r \<or> sr_size r < n)"
  have L: "slinked s ps" using S by (simp add: space_def)
  show thesis
  proof (cases rule: sr_find_cases [OF L, of ?P, case_names none some])
    case none
    have "alloc_space n s = Inl (Err ENOMEM)" unfolding alloc_space_def none(1) by (simp add: al)
    then show thesis using nomem none(2) by (auto simp: extents_def)
  next
    case (some us p vs)
    obtain c where c: "sr_heap s p = Some c" using linkedD(1) [OF L] some(1) by auto
    then have P: "\<not> sr_used c" "n \<le> sr_size c" using some(3) by auto
    have ex: "\<exists>as bs. sextents s ps = as @ extent_of c # bs \<and> (\<forall>x \<in> set as. x_used x \<or> x_size x < n)"
      using some(1,4) c by (intro exI [of _ "sextents s us"] exI [of _ "sextents s vs"]) (auto simp: extents_def)
    have S': "space s (us @ p # vs)" using S some(1) by simp
    show thesis
    proof (cases "sr_size c = n")
      case True
      have p0: "p \<noteq> 0" using linkedD(7) [OF L] some(1) by simp
      have eq: "alloc_space n s = take_whole p n s" unfolding alloc_space_def some(2) using True p0 by (simp add: al sr_node_eq [OF c])
      obtain s' where "take_whole p n s = Inr (p, s')"
        "allocated s ps s' p (extent_of c) \<lparr>x_start = sr_start c, x_size = n, x_used = True, x_vm = 0\<rparr>"
        using take_whole_ok [OF S' c P(1) True] some(1) by blast
      then show thesis using ok [of p s' "extent_of c"] eq ex by simp
    next
      case False
      then have "n < sr_size c" using P(2) by simp
      then obtain s' where "alloc_space n s = Inr (sr_fresh s, s')"
        "allocated s ps s' (sr_fresh s) (extent_of c) \<lparr>x_start = sr_start c, x_size = n, x_used = True, x_vm = 0\<rparr>"
        using split_off_front [OF S' c P(1) _ some(2) al] some(1) by blast
      then show thesis using ok [of "sr_fresh s" s' "extent_of c"] ex by simp
    qed
  qed
qed


text \<open>What is left of the region in front of the address and behind the new region.\<close>

definition kept_list :: "vmspace \<Rightarrow> vmspace \<Rightarrow> bool" where
  "kept_list s s' \<longleftrightarrow> same_env s s' \<and> m_used s' = m_used s"

lemma split_before_ok:
  assumes L: "slinked s (us @ p # vs)" and c: "sr_heap s p = Some c" and a: "sr_start c \<le> address" "address < 4294967296"
  shows "\<exists>s1 us1 c1. split_before p address s = Inr s1 \<and> slinked s1 (us1 @ p # vs) \<and> sr_heap s1 p = Some c1 \<and> extent_of c1 = extent_of c \<and>
    sextents s1 us1 = sextents s us @ (if sr_start c < address
      then [\<lparr>x_start = sr_start c, x_size = address - sr_start c, x_used = False, x_vm = 0\<rparr>] else []) \<and>
    sextents s1 vs = sextents s vs \<and> kept_list s s1"
proof (cases "sr_start c < address")
  case True
  let ?f = "sr_fresh s"
  let ?n = "\<lparr>sr_start = sr_start c, sr_size = sub32 address (sr_start c), sr_used = False, sr_next = p, sr_prev = sr_prev c, sr_vm = 0\<rparr>"
  let ?u = "\<lambda>r. r\<lparr>sr_prev := ?f\<rparr> :: space_region"
  let ?h = "(set_next (sr_prev c) ?f ((sr_heap s)(?f := Some ?n)))(p := Some (?u c))"
  let ?s = "new_head p ?f (s\<lparr>sr_heap := ?h, sr_fresh := ?f + 1\<rparr>)"
  note I = insert_node [OF L c(1), of ?n ?u, simplified]
  have assoc: "rbind m (\<lambda>a. rbind (g a) k) = rbind (rbind m g) k" for m :: "vmspace result" and g and k :: "vmspace \<Rightarrow> vmspace result"
    by (cases m) auto
  have "split_before p address s = Inr ?s"
    using True by (simp add: split_before_def sr_node_eq [OF c(1)] Let_def assoc I(1))
  moreover have "slinked ?s ((us @ [?f]) @ p # vs)" using I(2) by (simp cong: if_cong split del: if_split)
  moreover have "extent_of ?n = \<lparr>x_start = sr_start c, x_size = address - sr_start c, x_used = False, x_vm = 0\<rparr>"
    using a by (simp add: extent_of_def)
  moreover have "sextents ?s (us @ ?f # p # vs) = sextents s us @ extent_of ?n # extent_of (?u c) # sextents s vs" using I(3) by simp
  then have "sextents ?s (us @ [?f]) = sextents s us @ [extent_of ?n]" "sextents ?s vs = sextents s vs" by (simp_all add: append_eq_append_conv)
  moreover have "sr_heap ?s p = Some (?u c)" "extent_of (?u c) = extent_of c" by (simp_all add: extent_of_def)
  moreover have "kept_list s ?s" by (simp add: kept_list_def same_env_def)
  ultimately show ?thesis unfolding if_P [OF True] by metis
next
  case False
  then have "split_before p address s = Inr s" by (simp add: split_before_def sr_node_eq [OF c])
  then show ?thesis using L c False by (auto simp: kept_list_def same_env_def)
qed

lemma split_after_ok:
  assumes L: "slinked s (us @ p # vs)" and c: "sr_heap s p = Some c" and e: "sr_start c + sr_size c < 4294967296"
  shows "\<exists>s1 vs1 c1. split_after p after s = Inr s1 \<and> slinked s1 (us @ p # vs1) \<and> sr_heap s1 p = Some c1 \<and> extent_of c1 = extent_of c \<and>
    sextents s1 vs1 = (if after < sr_start c + sr_size c
      then [\<lparr>x_start = after, x_size = sr_start c + sr_size c - after, x_used = False, x_vm = 0\<rparr>] else []) @ sextents s vs \<and>
    sextents s1 us = sextents s us \<and> kept_list s s1"
proof (cases "after < sr_start c + sr_size c")
  case True
  let ?f = "sr_fresh s"
  have en: "sr_end c = sr_start c + sr_size c" using e by (simp add: sr_end_def)
  let ?n = "\<lparr>sr_start = after, sr_size = sub32 (sr_end c) after, sr_used = False, sr_next = sr_next c, sr_prev = p, sr_vm = 0\<rparr>"
  let ?c = "c\<lparr>sr_next := ?f\<rparr>"
  let ?h = "(set_prev (sr_next c) ?f ((sr_heap s)(?f := Some ?n)))(p := Some ?c)"
  let ?s = "s\<lparr>sr_heap := ?h, sr_fresh := ?f + 1\<rparr>"
  note N = neighbours [OF L c]
  note I = linked_insert_after [OF L c, of ?n ?c, OF _ _ _ _ refl, simplified]
  have pf: "p \<noteq> ?f" "?f \<noteq> 0" using linkedD(4) [OF L] L by (auto simp: linked_def)
  have q: "sr_next c = 0 \<or> sr_next c \<in> dom (sr_heap (sr_new ?n s))" using N(8) by (auto simp: sr_new_def)
  have "set_prev (sr_next c) ?f ((sr_heap s)(?f := Some ?n)) p = Some c" using N(6) pf c by (auto simp: set_prev_def)
  then have up: "sr_update p (\<lambda>r. r\<lparr>sr_next := ?f\<rparr>) ((sr_new ?n s)\<lparr>sr_heap := set_prev (sr_next c) ?f (sr_heap (sr_new ?n s))\<rparr>) = Inr ?s"
    by (simp add: sr_update_def sr_node_def sr_new_def)
  have "after < sr_end c" using True en by simp
  then have "split_after p after s = Inr ?s"
    unfolding split_after_def sr_node_eq [OF c] rbind_simps Let_def update_prev_eq [OF q] by (simp add: up)
  moreover have "slinked ?s (us @ p # ?f # vs)" using I(1) by simp
  moreover have "extent_of ?n = \<lparr>x_start = after, x_size = sr_start c + sr_size c - after, x_used = False, x_vm = 0\<rparr>"
    using True e by (simp add: extent_of_def en)
  moreover have "sextents ?s (us @ p # ?f # vs) = sextents s us @ extent_of ?c # extent_of ?n # sextents s vs" using I(2) by simp
  then have "sextents ?s (?f # vs) = [extent_of ?n] @ sextents s vs" "sextents ?s us = sextents s us" by (simp_all add: append_eq_append_conv)
  moreover have "sr_heap ?s p = Some ?c" "extent_of ?c = extent_of c" by (simp_all add: extent_of_def)
  moreover have "kept_list s ?s" by (simp add: kept_list_def same_env_def)
  ultimately show ?thesis unfolding if_P [OF True] by metis
next
  case False
  have "sr_end c = sr_start c + sr_size c" using e by (simp add: sr_end_def)
  then have "split_after p after s = Inr s" using False by (simp add: split_after_def sr_node_eq [OF c])
  then show ?thesis using L c False by (auto simp: kept_list_def same_env_def)
qed


definition covers :: "extent \<Rightarrow> nat \<Rightarrow> bool" where
  "covers x a \<longleftrightarrow> x_start x \<le> a \<and> a < x_start x + x_size x"

lemma tiles_covers_unique:
  assumes "tiles a xs e" "x \<in> set xs" "y \<in> set xs" "covers x addr" "covers y addr"
  shows "x = y"
  using assms
proof (induction xs arbitrary: a)
  case (Cons z xs)
  have t: "x_start z = a" "tiles (a + x_size z) xs e" using Cons.prems(1) by auto
  have later: "\<not> covers z addr" if "w \<in> set xs" "covers w addr" for w
    using tiles_in [OF t(2) that(1)] that(2) t(1) by (auto simp: covers_def)
  show ?case
  proof (cases "x = z \<or> y = z")
    case True
    then show ?thesis using later Cons.prems by auto
  next
    case False
    then show ?thesis using Cons.IH [OF t(2)] Cons.prems by simp
  qed
qed simp

lemma carve_middle:
  assumes S: "space s (us @ p # vs)" and c: "sr_heap s p = Some c" "\<not> sr_used c"
    and a: "sr_start c \<le> address" "address + n \<le> sr_start c + sr_size c"
  shows "\<exists>s'. rbind (split_before p address s) (\<lambda>s1. rbind (split_after p (add32 address n) s1) (\<lambda>s2.
        rbind (sr_update p (\<lambda>r. r\<lparr>sr_start := address, sr_size := n, sr_used := True\<rparr>) s2) (\<lambda>s3.
        Inr (p, s3\<lparr>m_used := add32 (m_used s3) n\<rparr>)))) = Inr (p, s') \<and>
    allocated s (us @ p # vs) s' p (extent_of c) \<lparr>x_start = address, x_size = n, x_used = True, x_vm = 0\<rparr>"
proof -
  let ?t = "\<lparr>x_start = address, x_size = n, x_used = True, x_vm = 0\<rparr>"
  let ?u = "\<lambda>r. r\<lparr>sr_start := address, sr_size := n, sr_used := True\<rparr> :: space_region"
  have L: "slinked s (us @ p # vs)" using S by (simp add: space_def)
  note E = space_extent [OF S c(1)]
  have an: "add32 address n = address + n" "address < 4294967296" using a E(3) by simp_all
  obtain s1 us1 c1 where 1: "split_before p address s = Inr s1" "slinked s1 (us1 @ p # vs)" "sr_heap s1 p = Some c1" "extent_of c1 = extent_of c"
    "sextents s1 us1 = sextents s us @ (if sr_start c < address
      then [\<lparr>x_start = sr_start c, x_size = address - sr_start c, x_used = False, x_vm = 0\<rparr>] else [])"
    "sextents s1 vs = sextents s vs" "kept_list s s1"
    using split_before_ok [OF L c(1) a(1) an(2)] by blast
  have c1: "sr_start c1 = sr_start c" "sr_size c1 = sr_size c" "sr_used c1 = sr_used c" "sr_vm c1 = sr_vm c"
    using 1(4) by (auto simp: extent_of_def)
  then have e1: "sr_start c1 + sr_size c1 < 4294967296" using E(3) by simp
  obtain s2 vs2 c2 where 2: "split_after p (address + n) s1 = Inr s2" "slinked s2 (us1 @ p # vs2)" "sr_heap s2 p = Some c2" "extent_of c2 = extent_of c1"
    "sextents s2 vs2 = (if address + n < sr_start c1 + sr_size c1
      then [\<lparr>x_start = address + n, x_size = sr_start c1 + sr_size c1 - (address + n), x_used = False, x_vm = 0\<rparr>] else []) @ sextents s1 vs"
    "sextents s2 us1 = sextents s1 us1" "kept_list s1 s2"
    using split_after_ok [OF 1(2,3) e1] by blast
  let ?s = "s2\<lparr>sr_heap := (sr_heap s2)(p := Some (?u c2)), m_used := add32 (m_used s2) n\<rparr>"
  let ?pre = "if sr_start c < address then [\<lparr>x_start = sr_start c, x_size = address - sr_start c, x_used = False, x_vm = 0\<rparr>] else []"
  let ?post = "if address + n < sr_start c + sr_size c
      then [\<lparr>x_start = address + n, x_size = sr_start c + sr_size c - (address + n), x_used = False, x_vm = 0\<rparr>] else []"
  note ld = linked_data [OF 2(2,3), of "?u c2", simplified]
  have vm: "sr_vm c2 = 0" using E(5) c(2) 2(4) c1 by (auto simp: extent_of_def)
  have sl: "slinked ?s (us1 @ p # vs2)" using ld(1) by simp
  have d: "distinct (us1 @ p # vs2)" by (rule linkedD(6) [OF 2(2)])
  then have keep: "sextents ?s us1 = sextents s2 us1" "sextents ?s vs2 = sextents s2 vs2" by (auto intro!: extents_cong)
  have ex: "sextents ?s us1 = sextents s us @ ?pre" "extent_of (the (sr_heap ?s p)) = ?t" "sextents ?s vs2 = ?post @ sextents s vs"
    using 1(5,6) 2(5,6) vm c1 unfolding keep by (simp_all add: extent_of_def)
  have ca: "carve (extent_of c) ?pre ?t ?post" using c(2) E(5) a by (auto simp: carve_def rest_def)
  have "sextents s (us @ p # vs) = sextents s us @ extent_of c # sextents s vs" using c(1) by simp
  then have "allocated s (us @ p # vs) ?s p (extent_of c) ?t"
    by (rule allocatedI [OF _ ca sl ex]) (use 1(7) 2(7) in \<open>simp_all add: kept_list_def same_env_def\<close>)
  moreover have "rbind (sr_update p ?u s2) (\<lambda>s3. Inr (p, s3\<lparr>m_used := add32 (m_used s3) n\<rparr>)) = Inr (p, ?s)"
    by (simp add: sr_update_eq [OF 2(3)])
  ultimately show ?thesis using 1(1) 2(1) an(1) by (intro exI [of _ ?s]) simp
qed

lemma alloc_space_at_ok:
  assumes S: "space s ps" and al: "n mod 4096 = 0" "address mod 4096 = 0" and ad: "address < 4294967296" "n < 4294967296"
  obtains (nomem) "alloc_space_at n address s = Inl (Err ENOMEM)"
      "\<forall>x \<in> set (sextents s ps). covers x address \<longrightarrow> x_used x \<or> (x_size x \<noteq> n \<and> x_start x + x_size x < address + n)"
  | (whole) p s' y where "alloc_space_at n address s = Inr (p, s')" "covers y address" "x_size y = n"
      "allocated s ps s' p y \<lparr>x_start = x_start y, x_size = n, x_used = True, x_vm = 0\<rparr>"
  | (part) p s' y where "alloc_space_at n address s = Inr (p, s')" "covers y address" "x_size y \<noteq> n" "address + n \<le> x_start y + x_size y"
      "allocated s ps s' p y \<lparr>x_start = address, x_size = n, x_used = True, x_vm = 0\<rparr>"
proof -
  let ?P = "\<lambda>r. sr_contains r address"
  have L: "slinked s ps" and T: "tiles (m_start s) (sextents s ps) (m_start s + m_size s)" using S by (auto simp: space_def layout_def)
  have cov: "sr_contains c address \<longleftrightarrow> covers (extent_of c) address" if q: "q \<in> set ps" "sr_heap s q = Some c" for q c
  proof -
    obtain us vs where "ps = us @ q # vs" using split_list [OF q(1)] by blast
    then show ?thesis using space_extent(4) [of s us q vs c] S q(2) by (simp add: sr_contains_def covers_def)
  qed
  show thesis
  proof (cases rule: sr_find_cases [OF L, of ?P, case_names none some])
    case none
    have "alloc_space_at n address s = Inl (Err ENOMEM)" unfolding alloc_space_at_def none(1) by (simp add: al)
    moreover have "\<not> covers x address" if "x \<in> set (sextents s ps)" for x
      using that none(2) cov linkedD(1) [OF L] by (fastforce simp: extents_def)
    ultimately show thesis using nomem by blast
  next
    case (some us p vs)
    have pin: "p \<in> set ps" "p \<noteq> 0" using some(1) linkedD(7) [OF L] by auto
    obtain c where c: "sr_heap s p = Some c" using linkedD(1) [OF L pin(1)] by blast
    have S': "space s (us @ p # vs)" using S some(1) by simp
    note E = space_extent [OF S' c]
    have cp: "covers (extent_of c) address" using cov [OF pin(1) c] some(3) c by simp
    then have ca: "sr_start c \<le> address" "address < sr_start c + sr_size c" by (auto simp: covers_def)
    have uniq: "x = extent_of c" if "x \<in> set (sextents s ps)" "covers x address" for x
      using tiles_covers_unique [OF T that(1) _ that(2) cp] pin(1) c by (force simp: extents_def)
    have sub: "sub32 (sr_size c) (sub32 address (sr_start c)) = sr_size c - (address - sr_start c)" using ca E(3) ad by simp
    have unf: "alloc_space_at n address s = (if sr_used c then Inl (Err ENOMEM) else if sr_size c = n then take_whole p n s
        else if n \<le> sr_size c - (address - sr_start c) then
            rbind (split_before p address s) (\<lambda>s1. rbind (split_after p (add32 address n) s1) (\<lambda>s2.
            rbind (sr_update p (\<lambda>r. r\<lparr>sr_start := address, sr_size := n, sr_used := True\<rparr>) s2) (\<lambda>s3.
            Inr (p, s3\<lparr>m_used := add32 (m_used s3) n\<rparr>))))
        else Inl (Err ENOMEM))"
      unfolding alloc_space_at_def some(2) using pin(2) by (simp add: al sr_node_eq [OF c] sub)
    consider "sr_used c \<or> (sr_size c \<noteq> n \<and> \<not> n \<le> sr_size c - (address - sr_start c))" | "\<not> sr_used c" "sr_size c = n"
      | "\<not> sr_used c" "sr_size c \<noteq> n" "n \<le> sr_size c - (address - sr_start c)" by blast
    then show thesis
    proof cases
      case 1
      then have "alloc_space_at n address s = Inl (Err ENOMEM)" unfolding unf by auto
      moreover have "x_used x \<or> (x_size x \<noteq> n \<and> x_start x + x_size x < address + n)" if "x \<in> set (sextents s ps)" "covers x address" for x
        using uniq [OF that] 1 ca by auto
      ultimately show thesis using nomem by blast
    next
      case 2
      then obtain s' where "take_whole p n s = Inr (p, s')"
        "allocated s ps s' p (extent_of c) \<lparr>x_start = sr_start c, x_size = n, x_used = True, x_vm = 0\<rparr>"
        using take_whole_ok [OF S' c 2] some(1) by blast
      then show thesis using whole [of p s' "extent_of c"] cp 2 unf by simp
    next
      case 3
      then have "address + n \<le> sr_start c + sr_size c" using ca by simp
      then obtain s' where "alloc_space_at n address s = Inr (p, s')"
        "allocated s ps s' p (extent_of c) \<lparr>x_start = address, x_size = n, x_used = True, x_vm = 0\<rparr>"
        using carve_middle [OF S' c 3(1) ca(1)] some(1) 3 unf by auto
      then show thesis using part [of p s' "extent_of c"] cp 3 ca by simp
    qed
  qed
qed


section \<open>Release\<close>

lemma merge_prev_none:
  assumes L: "slinked s (us @ p # vs)" and c: "sr_heap s p = Some c" and u: "us = [] \<or> (\<exists>q. sr_heap s (last us) = Some q \<and> sr_used q)"
  shows "merge_prev p s = Inr (0, s)"
proof (cases "us = []")
  case True
  then show ?thesis using neighbours(1) [OF L c] by (simp add: merge_prev_def sr_node_eq [OF c])
next
  case False
  then obtain q where q: "sr_heap s (last us) = Some q" "sr_used q" using u by blast
  have "sr_prev c = last us" using neighbours(1) [OF L c] False by simp
  then show ?thesis using q(2) by (simp add: merge_prev_def sr_node_eq [OF c] sr_node_eq [OF q(1)])
qed

lemma merge_prev_some:
  assumes L: "slinked s ((us @ [q]) @ p # vs)" and c: "sr_heap s p = Some c" and q: "sr_heap s q = Some rq" "\<not> sr_used rq"
    and w: "sr_size rq \<le> sr_start c" "sr_start c < 4294967296" "sr_size c + sr_size rq < 4294967296"
  shows "\<exists>s' c'. merge_prev p s = Inr (q, s') \<and> slinked s' (us @ p # vs) \<and> sr_heap s' p = Some c' \<and>
    extent_of c' = (extent_of c)\<lparr>x_start := sr_start c - sr_size rq, x_size := sr_size c + sr_size rq\<rparr> \<and>
    sextents s' us = sextents s us \<and> sextents s' vs = sextents s vs \<and> kept_list s s'"
proof -
  let ?u = "\<lambda>r. r\<lparr>sr_start := sub32 (sr_start r) (sr_size rq), sr_size := add32 (sr_size r) (sr_size rq)\<rparr> :: space_region"
  have L': "slinked s (us @ q # p # vs)" using L by simp
  note N = neighbours [OF L c]
  note Nq = neighbours [OF L' q(1)]
  have d: "distinct (us @ q # p # vs)" "p \<noteq> 0" "q \<noteq> 0" using linkedD(6,7) [OF L'] by auto
  have prev: "sr_prev c = q" and nxq: "sr_next rq = p" using N(1) Nq(2) by auto
  let ?h1 = "set_prev p (sr_prev rq) (sr_heap s)"
  let ?h2 = "set_next (sr_prev rq) p ?h1"
  let ?c1 = "c\<lparr>sr_prev := sr_prev rq\<rparr>"
  note R = linked_remove [OF L' q(1) refl, unfolded nxq]
  have pq: "sr_prev rq \<noteq> p" using Nq(3) d by auto
  have h2p: "?h2 p = Some ?c1" using pq c d by (simp add: set_next_def set_prev_def)
  have u1: "sr_update p (\<lambda>r. r\<lparr>sr_prev := sr_prev rq\<rparr>) s = Inr (s\<lparr>sr_heap := ?h1\<rparr>)"
    using d c by (simp add: sr_update_eq [OF c] set_prev_def)
  have dq: "sr_prev rq = 0 \<or> sr_prev rq \<in> dom (sr_heap (s\<lparr>sr_heap := ?h1\<rparr>))" using Nq(7) by (auto simp: set_prev_def)
  let ?s2 = "s\<lparr>sr_heap := ?h2\<rparr>"
  let ?s3 = "?s2\<lparr>sr_heap := ?h2(p := Some (?u ?c1))\<rparr>"
  have eq: "merge_prev p s = Inr (q, new_head q p ?s3)"
    unfolding merge_prev_def sr_node_eq [OF c] rbind_simps prev sr_node_eq [OF q(1)]
    using d q(2) u1 update_next_eq [OF dq, of p] sr_update_eq [of ?s2 p ?c1 ?u] h2p by simp
  have L2: "linked ?h2 (sr_fresh s) (if m_region_map s = q then p else m_region_map s) (us @ p # vs)" using R(1) by simp
  note ld = linked_data [OF L2 h2p, of "?u ?c1", simplified]
  have d2: "p \<notin> set us" "p \<notin> set vs" using d by auto
  have "sextents ?s3 us = extents ?h2 us" "sextents ?s3 vs = extents ?h2 vs" using d2 by (auto intro!: extents_cong)
  then have "sextents ?s3 us = sextents s us" "sextents ?s3 vs = sextents s vs" using R(2) by simp_all
  moreover have "slinked (new_head q p ?s3) (us @ p # vs)" using ld(1) by (simp cong: if_cong split del: if_split)
  moreover have "extent_of (?u ?c1) = (extent_of c)\<lparr>x_start := sr_start c - sr_size rq, x_size := sr_size c + sr_size rq\<rparr>"
    using w by (simp add: extent_of_def)
  ultimately show ?thesis using eq by (intro exI [of _ "new_head q p ?s3"] exI [of _ "?u ?c1"]) (simp add: kept_list_def same_env_def)
qed

lemma merge_next_none:
  assumes L: "slinked s (us @ p # vs)" and c: "sr_heap s p = Some c" and u: "vs = [] \<or> (\<exists>q. sr_heap s (hd vs) = Some q \<and> sr_used q)"
  shows "merge_next p s = Inr (0, s)"
proof (cases "vs = []")
  case True
  then show ?thesis using neighbours(2) [OF L c] by (simp add: merge_next_def sr_node_eq [OF c])
next
  case False
  then obtain q where q: "sr_heap s (hd vs) = Some q" "sr_used q" using u by blast
  have "sr_next c = hd vs" using neighbours(2) [OF L c] False by simp
  then show ?thesis using q(2) by (simp add: merge_next_def sr_node_eq [OF c] sr_node_eq [OF q(1)])
qed

lemma merge_next_some:
  assumes L: "slinked s (us @ p # q # vs)" and c: "sr_heap s p = Some c" and q: "sr_heap s q = Some rq" "\<not> sr_used rq"
    and w: "sr_size c + sr_size rq < 4294967296"
  shows "\<exists>s' c'. merge_next p s = Inr (q, s') \<and> slinked s' (us @ p # vs) \<and> sr_heap s' p = Some c' \<and>
    extent_of c' = (extent_of c)\<lparr>x_size := sr_size c + sr_size rq\<rparr> \<and>
    sextents s' us = sextents s us \<and> sextents s' vs = sextents s vs \<and> kept_list s s'"
proof -
  let ?u = "\<lambda>r. r\<lparr>sr_size := add32 (sr_size r) (sr_size rq)\<rparr> :: space_region"
  have L': "slinked s ((us @ [p]) @ q # vs)" using L by simp
  note N = neighbours [OF L c]
  note Nq = neighbours [OF L' q(1)]
  have d: "distinct (us @ p # q # vs)" "p \<noteq> 0" "q \<noteq> 0" using linkedD(6,7) [OF L] by auto
  have nxt: "sr_next c = q" and pvq: "sr_prev rq = p" using N(2) Nq(1) by auto
  let ?h1 = "set_next p (sr_next rq) (sr_heap s)"
  let ?h2 = "set_prev (sr_next rq) p ?h1"
  let ?c1 = "c\<lparr>sr_next := sr_next rq\<rparr>"
  note R = linked_remove [OF L' q(1) refl, unfolded pvq, unfolded set_links_commute]
  have pq: "sr_next rq \<noteq> p" using Nq(4) d by auto
  have h2p: "?h2 p = Some ?c1" using pq c d by (simp add: set_next_def set_prev_def)
  have u1: "sr_update p (\<lambda>r. r\<lparr>sr_next := sr_next rq\<rparr>) s = Inr (s\<lparr>sr_heap := ?h1\<rparr>)"
    using d c by (simp add: sr_update_eq [OF c] set_next_def)
  have dq: "sr_next rq = 0 \<or> sr_next rq \<in> dom (sr_heap (s\<lparr>sr_heap := ?h1\<rparr>))" using Nq(8) by (auto simp: set_next_def)
  let ?s2 = "s\<lparr>sr_heap := ?h2\<rparr>"
  let ?s3 = "?s2\<lparr>sr_heap := ?h2(p := Some (?u ?c1))\<rparr>"
  have eq: "merge_next p s = Inr (q, ?s3)"
    unfolding merge_next_def sr_node_eq [OF c] rbind_simps nxt sr_node_eq [OF q(1)]
    using d q(2) u1 update_prev_eq [OF dq, of p] sr_update_eq [of ?s2 p ?c1 ?u] h2p by simp
  have "m_region_map s \<noteq> q" using L d by (cases us) (auto simp: linked_def)
  then have L2: "linked ?h2 (sr_fresh s) (m_region_map s) (us @ p # vs)" using R(1) by simp
  note ld = linked_data [OF L2 h2p, of "?u ?c1", simplified]
  have d2: "p \<notin> set us" "p \<notin> set vs" using d by auto
  have "sextents ?s3 us = extents ?h2 us" "sextents ?s3 vs = extents ?h2 vs" using d2 by (auto intro!: extents_cong)
  then have "sextents ?s3 us = sextents s us" "sextents ?s3 vs = sextents s vs" using R(2) by simp_all
  moreover have "slinked ?s3 (us @ p # vs)" using ld(1) by simp
  moreover have "extent_of (?u ?c1) = (extent_of c)\<lparr>x_size := sr_size c + sr_size rq\<rparr>"
    using w by (simp add: extent_of_def)
  ultimately show ?thesis using eq by (intro exI [of _ ?s3] exI [of _ "?u ?c1"]) (simp add: kept_list_def same_env_def)
qed


text \<open>
  Each merge, with the case that there is nothing to merge: \<open>x\<close> is the extent of the region before
  and \<open>y\<close> after, and \<open>del\<close> is the node to delete.
\<close>

definition free_end :: "extent list \<Rightarrow> bool" where
  "free_end xs \<longleftrightarrow> xs \<noteq> [] \<and> \<not> x_used (last xs)"

lemma merge_prev_ok:
  assumes L: "slinked s (us @ p # vs)" and c: "sr_heap s p = Some c"
    and T: "tiles a (sextents s us) (sr_start c)" "sr_start c + sr_size c < 4294967296"
    and V: "\<forall>x \<in> set (sextents s us). \<not> x_used x \<longrightarrow> x_vm x = 0"
  shows "\<exists>del s' us' pre c'. merge_prev p s = Inr (del, s') \<and> slinked s' (us' @ p # vs) \<and> del \<notin> set (us' @ p # vs) \<and>
    sextents s us = sextents s' us' @ pre \<and> sextents s' vs = sextents s vs \<and> kept_list s s' \<and> sr_heap s' p = Some c' \<and>
    rest pre \<and> (pre = [] \<longrightarrow> \<not> free_end (sextents s us)) \<and> tiles (sr_start c') pre (sr_start c) \<and> sr_size c' = sr_size c + (sr_start c - sr_start c') \<and>
    sr_start c' \<le> sr_start c \<and> sr_used c' = sr_used c \<and> sr_vm c' = sr_vm c"
proof (cases "free_end (sextents s us)")
  case True
  then obtain us' q where us: "us = us' @ [q]" by (cases us rule: rev_cases) (auto simp: free_end_def)
  obtain rq where rq: "sr_heap s q = Some rq" using linkedD(1) [OF L, of q] us by auto
  have q: "\<not> sr_used rq" "sr_vm rq = 0" using True V us rq by (auto simp: free_end_def)
  have t: "sr_start rq + sr_size rq = sr_start c" using T(1) us rq by (auto simp: tiles_append)
  obtain s' c' where m: "merge_prev p s = Inr (q, s')" "slinked s' (us' @ p # vs)" "sr_heap s' p = Some c'"
    "extent_of c' = (extent_of c)\<lparr>x_start := sr_start c - sr_size rq, x_size := sr_size c + sr_size rq\<rparr>"
    "sextents s' us' = sextents s us'" "sextents s' vs = sextents s vs" "kept_list s s'"
    using merge_prev_some [of s us' q p vs c rq] L us c rq q t T(2) by auto
  have c': "sr_start c' = sr_start rq" "sr_size c' = sr_size c + sr_size rq" "sr_used c' = sr_used c" "sr_vm c' = sr_vm c"
    using m(4) t by (auto simp: extent_of_def)
  have "q \<notin> set (us' @ p # vs)" using linkedD(6) [OF L] us by auto
  moreover have "rest [extent_of rq]" "tiles (sr_start c') [extent_of rq] (sr_start c)" using q t c' by (auto simp: rest_def)
  moreover have "sextents s us = sextents s' us' @ [extent_of rq]" using us rq m(5) by simp
  moreover have "sr_size c' = sr_size c + (sr_start c - sr_start c')" "sr_start c' \<le> sr_start c" using c' t by auto
  ultimately show ?thesis using m(1,2,3,6,7) c'(3,4) by blast
next
  case False
  have "us = [] \<or> (\<exists>q. sr_heap s (last us) = Some q \<and> sr_used q)"
  proof (cases us rule: rev_cases)
    case (snoc us' q)
    then show ?thesis using False linkedD(1) [OF L, of q] by (auto simp: free_end_def)
  qed simp
  from merge_prev_none [OF L c this] have "merge_prev p s = Inr (0, s)" .
  moreover have "0 \<notin> set (us @ p # vs)" by (rule linkedD(5) [OF L])
  ultimately show ?thesis
    using L c False by (intro exI [of _ 0] exI [of _ s] exI [of _ us] exI [of _ "[]"] exI [of _ c]) (simp add: rest_def kept_list_def same_env_def)
qed

definition free_start :: "extent list \<Rightarrow> bool" where
  "free_start xs \<longleftrightarrow> xs \<noteq> [] \<and> \<not> x_used (hd xs)"

lemma merge_next_ok:
  assumes L: "slinked s (us @ p # vs)" and c: "sr_heap s p = Some c"
    and T: "tiles (sr_start c + sr_size c) (sextents s vs) e" "e < 4294967296"
    and V: "\<forall>x \<in> set (sextents s vs). \<not> x_used x \<longrightarrow> x_vm x = 0"
  shows "\<exists>del s' vs' post c'. merge_next p s = Inr (del, s') \<and> slinked s' (us @ p # vs') \<and> del \<notin> set (us @ p # vs') \<and>
    sextents s vs = post @ sextents s' vs' \<and> sextents s' us = sextents s us \<and> set vs' \<subseteq> set vs \<and> kept_list s s' \<and> sr_heap s' p = Some c' \<and>
    rest post \<and> (post = [] \<longrightarrow> \<not> free_start (sextents s vs)) \<and> tiles (sr_start c + sr_size c) post (sr_start c + sr_size c') \<and>
    sr_start c' = sr_start c \<and> sr_used c' = sr_used c \<and> sr_vm c' = sr_vm c"
proof (cases "free_start (sextents s vs)")
  case True
  then obtain q vs' where vs: "vs = q # vs'" by (cases vs) (auto simp: free_start_def)
  obtain rq where rq: "sr_heap s q = Some rq" using linkedD(1) [OF L, of q] vs by auto
  have q: "\<not> sr_used rq" "sr_vm rq = 0" using True V vs rq by (auto simp: free_start_def)
  have t: "sr_start rq = sr_start c + sr_size c" "sr_start c + sr_size c + sr_size rq \<le> e"
    using T(1) vs rq tiles_le by auto
  obtain s' c' where m: "merge_next p s = Inr (q, s')" "slinked s' (us @ p # vs')" "sr_heap s' p = Some c'"
    "extent_of c' = (extent_of c)\<lparr>x_size := sr_size c + sr_size rq\<rparr>"
    "sextents s' us = sextents s us" "sextents s' vs' = sextents s vs'" "kept_list s s'"
    using merge_next_some [of s us p q vs' c rq] L vs c rq q t T(2) by auto
  have c': "sr_start c' = sr_start c" "sr_size c' = sr_size c + sr_size rq" "sr_used c' = sr_used c" "sr_vm c' = sr_vm c"
    using m(4) by (auto simp: extent_of_def)
  have "q \<notin> set (us @ p # vs')" using linkedD(6) [OF L] vs by auto
  moreover have "rest [extent_of rq]" "tiles (sr_start c + sr_size c) [extent_of rq] (sr_start c + sr_size c')" using q t c' by (auto simp: rest_def)
  moreover have "sextents s vs = [extent_of rq] @ sextents s' vs'" "set vs' \<subseteq> set vs" using vs rq m(6) by auto
  ultimately show ?thesis using m(1,2,3,5,7) c'(1,3,4) by blast
next
  case False
  have "vs = [] \<or> (\<exists>q. sr_heap s (hd vs) = Some q \<and> sr_used q)"
  proof (cases vs)
    case (Cons q vs')
    then show ?thesis using False linkedD(1) [OF L, of q] by (auto simp: free_start_def)
  qed simp
  from merge_next_none [OF L c this] have "merge_next p s = Inr (0, s)" .
  moreover have "0 \<notin> set (us @ p # vs)" by (rule linkedD(5) [OF L])
  ultimately show ?thesis
    using L c False by (intro exI [of _ 0] exI [of _ s] exI [of _ vs] exI [of _ "[]"] exI [of _ c]) (simp add: rest_def kept_list_def same_env_def)
qed


lemma delete_ok:
  assumes "slinked s ps" "q \<notin> set ps"
  shows "slinked (sr_delete q s) ps" "sextents (sr_delete q s) ps' = sextents s ps' \<or> q \<in> set ps'" "same_env s (sr_delete q s)"
    "m_used (sr_delete q s) = m_used s" "p \<in> set ps \<Longrightarrow> sr_heap (sr_delete q s) p = sr_heap s p"
  using assms linked_delete [OF assms] by (auto simp: sr_delete_def same_env_def intro!: extents_cong)

text \<open>The result of a release: the region, and what is free on its sides, become one free extent \<open>y\<close>.\<close>

definition released :: "vmspace \<Rightarrow> nat list \<Rightarrow> extent \<Rightarrow> nat list \<Rightarrow> vmspace \<Rightarrow> nat list \<Rightarrow> extent \<Rightarrow> bool" where
  "released s us x vs s' ps' y \<longleftrightarrow> (\<exists>as bs pre post. sextents s us = as @ pre \<and> sextents s vs = post @ bs \<and>
     sextents s' ps' = as @ y # bs \<and> carve y pre (x\<lparr>x_vm := 0\<rparr>) post \<and> used_ends as bs)"

lemma used_ends_merge:
  assumes sep: "separated ((as @ pre) @ x # post @ bs)" and r: "rest pre" "rest post"
    and e: "pre = [] \<longrightarrow> \<not> free_end (as @ pre)" "post = [] \<longrightarrow> \<not> free_start (post @ bs)"
  shows "used_ends as bs"
proof -
  have "x_used (last as)" if "as \<noteq> []"
  proof (cases "pre = []")
    case True
    then show ?thesis using e(1) that by (simp add: free_end_def)
  next
    case False
    then obtain q where "pre = [q]" "\<not> x_used q" using r(1) by (auto simp: rest_def)
    then show ?thesis using sep that separated_append [of as "pre @ x # post @ bs"] by simp
  qed
  moreover have "x_used (hd bs)" if "bs \<noteq> []"
  proof (cases "post = []")
    case True
    then show ?thesis using e(2) that by (simp add: free_start_def)
  next
    case False
    then obtain q where "post = [q]" "\<not> x_used q" using r(2) by (auto simp: rest_def)
    then show ?thesis using sep that separated_append [of "as @ pre @ x # post" bs] by simp
  qed
  ultimately show ?thesis by (simp add: used_ends_def)
qed

lemma free_region_ok:
  assumes S: "space s (us @ p # vs)" and c: "sr_heap s p = Some c" "sr_used c"
  shows "\<exists>s' ps' y. free_region p s = Inr s' \<and> space s' ps' \<and> released s us (extent_of c) vs s' ps' y \<and> same_env s s'"
proof -
  let ?e = "m_start s + m_size s" and ?U = "sextents s us" and ?V = "sextents s vs"
  have L: "slinked s (us @ p # vs)" using S by (simp add: space_def)
  note E = space_extent [OF S c(1)]
  have lay: "layout (m_start s) ?e (?U @ extent_of c # ?V)" and used: "m_used s = used_size (?U @ extent_of c # ?V)" and me: "?e < 4294967296"
    using S c(1) by (simp_all add: space_def)
  have T: "tiles (m_start s) ?U (sr_start c)" "tiles (sr_start c + sr_size c) ?V ?e" and sep: "separated (?U @ extent_of c # ?V)"
    and vm: "\<forall>x \<in> set ?U. \<not> x_used x \<longrightarrow> x_vm x = 0" "\<forall>x \<in> set ?V. \<not> x_used x \<longrightarrow> x_vm x = 0"
    using lay by (auto simp: layout_def tiles_append)
  let ?c1 = "c\<lparr>sr_used := False, sr_vm := 0\<rparr>"
  let ?s1 = "s\<lparr>sr_heap := (sr_heap s)(p := Some ?c1), m_used := sub32 (m_used s) (sr_size c)\<rparr>"
  have d: "p \<notin> set us" "p \<notin> set vs" using linkedD(6) [OF L] by auto
  have L1: "slinked ?s1 (us @ p # vs)" using linked_data(1) [OF L c(1), of ?c1] by simp
  have e1: "sextents ?s1 us = ?U" "sextents ?s1 vs = ?V" using d by (auto intro!: extents_cong)
  have c1: "sr_heap ?s1 p = Some ?c1" by simp
  have T1: "tiles (m_start s) (sextents ?s1 us) (sr_start ?c1)" "sr_start ?c1 + sr_size ?c1 < 4294967296" using T(1) e1 E(3) by simp_all
  have V1: "\<forall>x \<in> set (sextents ?s1 us). \<not> x_used x \<longrightarrow> x_vm x = 0" using vm(1) e1 by simp
  obtain del0 s2 us2 pre c2 where m': "merge_prev p ?s1 = Inr (del0, s2)" "slinked s2 (us2 @ p # vs)" "del0 \<notin> set (us2 @ p # vs)"
    "sextents ?s1 us = sextents s2 us2 @ pre" "sextents s2 vs = sextents ?s1 vs" "kept_list ?s1 s2" "sr_heap s2 p = Some c2"
    "rest pre" "pre = [] \<longrightarrow> \<not> free_end (sextents ?s1 us)" "tiles (sr_start c2) pre (sr_start ?c1)" "sr_size c2 = sr_size ?c1 + (sr_start ?c1 - sr_start c2)"
    "sr_start c2 \<le> sr_start ?c1" "sr_used c2 = sr_used ?c1" "sr_vm c2 = sr_vm ?c1"
    using merge_prev_ok [OF L1 c1 T1 V1] by blast
  note m = m' [unfolded e1, simplified space_region.simps]
  have end2: "sr_start c2 + sr_size c2 = sr_start c + sr_size c" using m(11,12) by simp
  have T2: "tiles (sr_start c2 + sr_size c2) (sextents s2 vs) ?e" "\<forall>x \<in> set (sextents s2 vs). \<not> x_used x \<longrightarrow> x_vm x = 0"
    using T(2) vm(2) m(5) end2 by simp_all
  obtain del1 s3 vs3 post c3 where n': "merge_next p s2 = Inr (del1, s3)" "slinked s3 (us2 @ p # vs3)" "del1 \<notin> set (us2 @ p # vs3)"
    "sextents s2 vs = post @ sextents s3 vs3" "sextents s3 us2 = sextents s2 us2" "set vs3 \<subseteq> set vs" "kept_list s2 s3" "sr_heap s3 p = Some c3"
    "rest post" "post = [] \<longrightarrow> \<not> free_start (sextents s2 vs)" "tiles (sr_start c2 + sr_size c2) post (sr_start c2 + sr_size c3)"
    "sr_start c3 = sr_start c2" "sr_used c3 = sr_used c2" "sr_vm c3 = sr_vm c2"
    using merge_next_ok [OF m(2,7) T2(1) me T2(2)] by blast
  note n = n' [unfolded m(5) end2 m(13,14), simplified]
  let ?s' = "sr_delete del1 (sr_delete del0 s3)" and ?ps = "us2 @ p # vs3" and ?y = "extent_of c3"
  have d0: "del0 \<notin> set ?ps" using m(3) n(6) by auto
  note D0 = delete_ok [OF n(2) d0]
  note D1 = delete_ok [OF D0(1) n'(3)]
  have ex: "sextents ?s' ?ps = sextents s2 us2 @ ?y # sextents s3 vs3"
    using D1(2) [of ?ps] D0(2) [of ?ps] n'(3) d0 n(5,8) by auto
  have ca: "carve ?y pre ((extent_of c)\<lparr>x_vm := 0\<rparr>) post"
    using m(8,10,12) n(9,11,12,13,14) c(2) by (auto simp: carve_def tiles_append intro!: exI [of _ "sr_start c"])
  have ue: "used_ends (sextents s2 us2) (sextents s3 vs3)"
    by (rule used_ends_merge [OF sep [unfolded m(4) n(4)] m(8) n(9)]) (use m(4,9) n(4,10) in simp_all)
  let ?x0 = "(extent_of c)\<lparr>x_vm := 0\<rparr>"
  have "layout (m_start s) ?e (?U @ ?x0 # ?V) = layout (m_start s) ?e (?U @ extent_of c # ?V)"
    using c(2) by (simp add: layout_def tiles_append separated_append) (cases ?V; simp add: separated_Cons)
  then have "layout (m_start s) ?e (sextents s2 us2 @ pre @ ?x0 # post @ sextents s3 vs3)" using lay m(4) n(4) by simp
  then have lay': "layout (m_start s) ?e (sextents ?s' ?ps)" unfolding ex layout_carve [OF ca] using ue by simp
  have "m_used s = used_size (sextents s2 us2 @ ?y # sextents s3 vs3) + sr_size c"
    using used m(4) n(4) c(2) carve_used [OF ca, of "sextents s2 us2" "sextents s3 vs3"] by simp
  moreover have "m_used s < 4294967296" using used_size_le [of "m_start s" "?U @ extent_of c # ?V" ?e] lay used me by (simp add: layout_def)
  ultimately have us': "m_used ?s' = used_size (sextents ?s' ?ps)"
    using D0(4) D1(4) m(6) n(7) unfolding ex by (simp add: kept_list_def)
  have env: "same_env s ?s'" using D0(3) D1(3) m(6) n(7) by (simp add: kept_list_def same_env_def)
  then have "space ?s' ?ps" using D1(1) lay' us' me by (simp add: space_def same_env_def)
  moreover have "free_region p s = Inr ?s'"
    using m(1) n(1) by (simp add: free_region_def sr_node_eq [OF c(1)] sr_update_eq [OF c(1)])
  moreover have "released s us (extent_of c) vs ?s' ?ps ?y" unfolding released_def using m(4) n(4) ex ca ue by blast
  ultimately show ?thesis using env by blast
qed

end
