(* ===== verification/VMMapping.thy ===== *)
theory VMMapping
  imports VMLayout
begin

text \<open>
  Address spaces with their page directory: the invariant that every operation of \<open>VMSpace.cpp\<close>
  keeps, and what mapping, unmapping and a page fault do to the regions and to the translation of
  addresses.
\<close>

section \<open>Free areas\<close>

text \<open>An area is free when it lies in the space and meets no used region.\<close>

definition area_free :: "vmspace \<Rightarrow> extent list \<Rightarrow> nat \<Rightarrow> nat \<Rightarrow> bool" where
  "area_free s xs a n \<longleftrightarrow> m_start s \<le> a \<and> a + n \<le> m_start s + m_size s \<and>
     (\<forall>x \<in> set xs. x_used x \<longrightarrow> x_start x + x_size x \<le> a \<or> a + n \<le> x_start x)"

lemma free_in_extent:
  assumes "tiles a xs e" "separated xs" "0 < n" "a \<le> b" "b + n \<le> e"
    "\<forall>x \<in> set xs. x_used x \<longrightarrow> x_start x + x_size x \<le> b \<or> b + n \<le> x_start x"
  shows "\<exists>y \<in> set xs. \<not> x_used y \<and> x_start y \<le> b \<and> b + n \<le> x_start y + x_size y"
  using assms
proof (induction xs arbitrary: a)
  case (Cons x xs)
  have x: "x_start x = a" "tiles (a + x_size x) xs e" using Cons.prems(1) by auto
  have sep: "separated xs" using Cons.prems(2) by (cases xs) (auto simp: separated_Cons)
  show ?case
  proof (cases "a + x_size x \<le> b")
    case True
    then show ?thesis using Cons.IH [OF x(2) sep Cons.prems(3) True Cons.prems(5)] Cons.prems(6) by auto
  next
    case False
    then have u: "\<not> x_used x" using Cons.prems(3,4,6) x(1) by auto
    have "b + n \<le> a + x_size x"
    proof (cases xs)
      case Nil
      then show ?thesis using x(2) Cons.prems(5) by simp
    next
      case (Cons y ys)
      then have "x_used y" "x_start y = a + x_size x" using Cons.prems(2) u x(2) by (auto simp: separated_Cons)
      then show ?thesis using Cons.prems(6) False Cons by auto
    qed
    then show ?thesis using u x(1) Cons.prems(4) by auto
  qed
qed simp

lemma tiles_apart:
  assumes "tiles a xs e" "x \<in> set xs" "y \<in> set xs" "x \<noteq> y"
  shows "x_start x + x_size x \<le> x_start y \<or> x_start y + x_size y \<le> x_start x"
proof -
  obtain us vs where us: "xs = us @ x # vs" using split_list [OF assms(2)] by blast
  then consider "y \<in> set us" | "y \<in> set vs" using assms(3,4) by auto
  then show ?thesis
  proof cases
    case 1
    then obtain as bs where "us = as @ y # bs" using split_list by fast
    then show ?thesis using tiles_disjoint [of a as y bs x vs e] assms(1) us by simp
  next
    case 2
    then obtain as bs where "vs = as @ y # bs" using split_list by fast
    then show ?thesis using tiles_disjoint [of a us x as y bs e] assms(1) us by simp
  qed
qed

lemma extent_free:
  assumes "tiles (m_start s) xs (m_start s + m_size s)" "y \<in> set xs" "\<not> x_used y" "x_start y \<le> a" "a + n \<le> x_start y + x_size y"
  shows "area_free s xs a n"
proof -
  note y = tiles_in [OF assms(1,2)]
  have "x_start x + x_size x \<le> a \<or> a + n \<le> x_start x" if x: "x \<in> set xs" "x_used x" for x
  proof -
    have "x \<noteq> y" using x(2) assms(3) by auto
    then show ?thesis using tiles_apart [OF assms(1) x(1) assms(2)] assms(4,5) by auto
  qed
  then show ?thesis using y assms(4,5) by (simp add: area_free_def)
qed

section \<open>The invariant of an address space\<close>

definition in_extent :: "vm_region \<Rightarrow> extent \<Rightarrow> bool" where
  "in_extent vr x \<longleftrightarrow> x_start x \<le> range_start (vr_range vr) \<and>
     range_start (vr_range vr) + range_size (vr_range vr) \<le> x_start x + x_size x \<and>
     range_start (vr_range vr) mod 4096 = 0 \<and> range_size (vr_range vr) mod 4096 = 0 \<and> prot_read (vr_prot vr)"

definition page_in :: "vm_region \<Rightarrow> nat \<Rightarrow> bool" where
  "page_in vr w \<longleftrightarrow> region_vpage vr \<le> w \<and> w < region_vpage vr + region_pages vr"

definition page_aligned :: "extent list \<Rightarrow> bool" where
  "page_aligned xs \<longleftrightarrow> (\<forall>x \<in> set xs. x_start x mod 4096 = 0 \<and> x_size x mod 4096 = 0)"

definition in_half :: "vmspace \<Rightarrow> bool" where
  "in_half s \<longleftrightarrow> (case m_type (m_directory s) of USER \<Rightarrow> m_start s + m_size s \<le> HIGHER_HALF | KERNEL \<Rightarrow> HIGHER_HALF \<le> m_start s)"

text \<open>The extents that hold a region.\<close>

definition live :: "extent list \<Rightarrow> extent list" where
  "live xs = filter (\<lambda>x. x_vm x \<noteq> 0) xs"

definition regions_ok :: "vmspace \<Rightarrow> extent list \<Rightarrow> bool" where
  "regions_ok s xs \<longleftrightarrow> (\<forall>x \<in> set xs. \<exists>vr. vr_heap s (x_vm x) = Some vr \<and> in_extent vr x) \<and> distinct (map x_vm xs)"

text \<open>
  Every page of the space that the directory translates belongs to a region, and is writable only
  when the region is.
\<close>

definition backed :: "vmspace \<Rightarrow> extent list \<Rightarrow> bool" where
  "backed s xs \<longleftrightarrow> (\<forall>w f wr. m_start s \<le> 4096 * w \<longrightarrow> 4096 * w < m_start s + m_size s \<longrightarrow> translate (m_directory s) w = Some (f, wr) \<longrightarrow>
     (\<exists>x \<in> set xs. \<exists>vr. vr_heap s (x_vm x) = Some vr \<and> page_in vr w \<and> (wr \<longrightarrow> prot_write (vr_prot vr))))"

definition vm_ok :: "vmspace \<Rightarrow> nat list \<Rightarrow> bool" where
  "vm_ok s ps \<longleftrightarrow> space s ps \<and> page_aligned (sextents s ps) \<and> in_half s \<and> pd_ok (m_directory s) \<and>
     0 < vr_fresh s \<and> dom (vr_heap s) \<subseteq> {0<..<vr_fresh s} \<and>
     regions_ok s (live (sextents s ps)) \<and> backed s (live (sextents s ps))"

lemma live_simps [simp]:
  "live [] = []" "live (x # xs) = (if x_vm x = 0 then live xs else x # live xs)" "live (xs @ ys) = live xs @ live ys"
  "x \<in> set (live xs) \<longleftrightarrow> x \<in> set xs \<and> x_vm x \<noteq> 0"
  by (simp_all add: live_def)

lemma page_aligned_simps [simp]:
  "page_aligned []" "page_aligned (x # xs) \<longleftrightarrow> x_start x mod 4096 = 0 \<and> x_size x mod 4096 = 0 \<and> page_aligned xs"
  "page_aligned (xs @ ys) \<longleftrightarrow> page_aligned xs \<and> page_aligned ys"
  by (auto simp: page_aligned_def)

lemma page_in_iff:
  assumes "range_start (vr_range vr) mod 4096 = 0" "range_size (vr_range vr) mod 4096 = 0"
  shows "page_in vr w \<longleftrightarrow> range_start (vr_range vr) \<le> 4096 * w \<and> 4096 * w < range_start (vr_range vr) + range_size (vr_range vr)"
proof -
  have "range_start (vr_range vr) = 4096 * region_vpage vr" "range_size (vr_range vr) = 4096 * region_pages vr"
    using assms by (auto simp: region_vpage_def region_pages_def)
  then show ?thesis unfolding page_in_def by linarith
qed

lemma page_in_extent: "in_extent vr x \<Longrightarrow> page_in vr w \<Longrightarrow> x_start x \<le> 4096 * w \<and> 4096 * w < x_start x + x_size x"
  using page_in_iff [of vr w] by (auto simp: in_extent_def)

lemma vm_okD:
  assumes "vm_ok s ps"
  shows "space s ps" "slinked s ps" "tiles (m_start s) (sextents s ps) (m_start s + m_size s)" "separated (sextents s ps)"
    "page_aligned (sextents s ps)" "pd_ok (m_directory s)" "in_half s"
    "regions_ok s (live (sextents s ps))" "backed s (live (sextents s ps))" "vr_heap s 0 = None"
  using assms by (auto simp: vm_ok_def space_def layout_def)

lemma regions_okD: "regions_ok s xs \<Longrightarrow> x \<in> set xs \<Longrightarrow> vr_heap s (x_vm x) = Some vr \<Longrightarrow> in_extent vr x"
  by (fastforce simp: regions_ok_def)

lemma backedE:
  assumes "backed s xs" "m_start s \<le> 4096 * w" "4096 * w < m_start s + m_size s" "translate (m_directory s) w = Some (f, wr)"
  obtains x vr where "x \<in> set xs" "vr_heap s (x_vm x) = Some vr" "page_in vr w" "wr \<longrightarrow> prot_write (vr_prot vr)"
  using assms unfolding backed_def by blast

text \<open>An extent without a region has no translated page.\<close>

lemma unbacked:
  assumes ok: "vm_ok s ps" and x: "x \<in> set (sextents s ps)" "x_vm x = 0" and w: "x_start x \<le> 4096 * w" "4096 * w < x_start x + x_size x"
  shows "translate (m_directory s) w = None"
proof (rule ccontr)
  note D = vm_okD [OF ok]
  assume "translate (m_directory s) w \<noteq> None"
  then obtain f wr where t: "translate (m_directory s) w = Some (f, wr)" by auto
  have "m_start s \<le> 4096 * w" "4096 * w < m_start s + m_size s" using tiles_in [OF D(3) x(1)] w by auto
  then obtain z vr where z: "z \<in> set (live (sextents s ps))" "vr_heap s (x_vm z) = Some vr" "page_in vr w"
    using D(9) t unfolding backed_def by blast
  then have "in_extent vr z" using regions_okD [OF D(8)] by simp
  then have "x_start z \<le> 4096 * w" "4096 * w < x_start z + x_size z" using page_in_extent z(3) by auto
  then show False using tiles_covers_unique [OF D(3) x(1), of z "4096 * w"] z(1) x(2) w by (auto simp: covers_def)
qed

section \<open>Allocation and mapping\<close>

lemma same_env_sel:
  assumes "same_env s s'"
  shows "m_start s' = m_start s" "m_size s' = m_size s" "vr_heap s' = vr_heap s" "vr_fresh s' = vr_fresh s" "m_directory s' = m_directory s"
  using assms by (auto simp: same_env_def)

lemma vm_ok_env:
  assumes "vm_ok s ps" "same_env s s'" "space s' ps'" "page_aligned (sextents s' ps')" "live (sextents s' ps') = live (sextents s ps)"
  shows "vm_ok s' ps'"
  using assms(1,3,4) unfolding vm_ok_def in_half_def regions_ok_def backed_def same_env_sel [OF assms(2)] assms(5) by simp

lemma carve_aligned:
  assumes "carve y pre t post" "x_start y mod 4096 = 0" "x_size y mod 4096 = 0" "x_start t mod 4096 = 0" "x_size t mod 4096 = 0"
  shows "page_aligned (pre @ t # post)"
proof -
  have T: "tiles (x_start y) (pre @ t # post) (x_start y + x_size y)" "rest pre" "rest post" using assms(1) by (auto simp: carve_def)
  then obtain m where m: "tiles (x_start y) pre m" "m = x_start t" "tiles (m + x_size t) post (x_start y + x_size y)" by (auto simp: tiles_append)
  have d: "4096 dvd x_start y" "4096 dvd x_size y" "4096 dvd m" "4096 dvd x_size t" using assms m(2) by (auto simp: mod_eq_0_iff_dvd)
  have "page_aligned pre"
  proof (cases "pre = []")
    case False
    then obtain q where q: "pre = [q]" "x_start q = x_start y" "x_start y + x_size q = m" using T(2) m(1) by (auto simp: rest_def)
    then have "4096 dvd x_size q" using d by (metis dvd_add_right_iff)
    then show ?thesis using q assms(2) by (simp add: mod_eq_0_iff_dvd)
  qed simp
  moreover have "page_aligned post"
  proof (cases "post = []")
    case False
    then obtain q where q: "post = [q]" "x_start q = m + x_size t" "m + x_size t + x_size q = x_start y + x_size y" using T(3) m(3) by (auto simp: rest_def)
    then have "4096 dvd x_size q" "4096 dvd x_start q" using d by (metis dvd_add dvd_add_right_iff)+
    then show ?thesis using q by (simp add: mod_eq_0_iff_dvd)
  qed simp
  ultimately show ?thesis using assms(4,5) by simp
qed

text \<open>
  An allocation keeps the invariant; region \<open>p\<close> is an extent without a \<open>VMRegion\<close> in an area that
  was free, and the used extents are the old ones and the new one.
\<close>

lemma alloc_vm_ok:
  assumes ok: "vm_ok s ps" and A: "allocated s ps s' p y t" and t: "x_vm t = 0" "x_start t mod 4096 = 0" "x_size t mod 4096 = 0"
  obtains us c vs where "vm_ok s' (us @ p # vs)" "sr_heap s' p = Some c" "extent_of c = t" "same_env s s'" "x_used t"
    "filter x_used (sextents s ps) = filter x_used (sextents s' us) @ filter x_used (sextents s' vs)"
    "area_free s (sextents s ps) (x_start t) (x_size t)" "live (sextents s' us) @ live (sextents s' vs) = live (sextents s ps)"
proof -
  note D = vm_okD [OF ok]
  obtain as bs us vs pre post where a: "sextents s ps = as @ y # bs" "carve y pre t post" "space s' (us @ p # vs)"
    "sextents s' us = as @ pre" "extent_of (the (sr_heap s' p)) = t" "sextents s' vs = post @ bs" "same_env s s'"
    by (rule allocated_space [OF D(1) A])
  have y: "\<not> x_used y" "x_vm y = 0" "x_used t" "rest pre" "rest post" using a(2) by (auto simp: carve_def)
  have sub: "live pre = []" "live post = []" "filter x_used pre = []" "filter x_used post = []" using y(4,5) by (auto simp: rest_def)
  have L: "slinked s' (us @ p # vs)" using a(3) by (simp add: space_def)
  obtain c where c: "sr_heap s' p = Some c" using linkedD(1) [OF L, of p] by auto
  have ex: "sextents s' (us @ p # vs) = as @ (pre @ t # post) @ bs" using a(4,5,6) by simp
  have al: "page_aligned (pre @ t # post)" using carve_aligned [OF a(2)] t D(5) a(1) by simp
  have "page_aligned (sextents s' (us @ p # vs))" unfolding ex using al D(5) a(1) by simp
  moreover have "live (sextents s' (us @ p # vs)) = live (sextents s ps)" unfolding ex a(1) using sub t(1) y(2) by simp
  ultimately have ok': "vm_ok s' (us @ p # vs)" using vm_ok_env [OF ok a(7,3)] by blast
  have tt: "x_start y \<le> x_start t" "x_start t + x_size t \<le> x_start y + x_size y"
    using tiles_in [of "x_start y" "pre @ t # post" "x_start y + x_size y" t] a(2) by (auto simp: carve_def)
  have "area_free s (sextents s ps) (x_start t) (x_size t)" by (rule extent_free [OF D(3) _ y(1) tt]) (simp add: a(1))
  moreover have "filter x_used (sextents s ps) = filter x_used (sextents s' us) @ filter x_used (sextents s' vs)"
    "live (sextents s' us) @ live (sextents s' vs) = live (sextents s ps)"
    unfolding a(1,4,6) using y(1,2) sub by simp_all
  moreover have "extent_of c = t" using a(5) c by simp
  ultimately show thesis by (intro that [OF ok' c _ a(7) y(3)])
qed

text \<open>The translation after a region is mapped: its pages that have a frame, and no other, change.\<close>

definition maps :: "vmspace \<Rightarrow> vm_region \<Rightarrow> vm_object \<Rightarrow> vmspace \<Rightarrow> bool" where
  "maps s vr obj s' \<longleftrightarrow> (\<forall>w < 1048576. translate (m_directory s') w =
     (if page_in vr w \<and> frame_at vr obj (w - region_vpage vr) \<noteq> 0 then Some (page_mapping vr obj (w - region_vpage vr))
      else translate (m_directory s) w))"

lemma in_extent_region_ok:
  assumes "in_half s" "in_extent vr x" "m_start s \<le> x_start x" "x_start x + x_size x \<le> m_start s + m_size s" "m_start s + m_size s < 4294967296"
  shows "region_ok (m_directory s) vr"
  using assms by (cases "m_type (m_directory s)") (auto simp: in_half_def in_extent_def region_ok_def)

lemma vm_fresh: "vm_ok s ps \<Longrightarrow> vr_fresh s \<notin> x_vm ` set (live (sextents s ps)) \<and> vr_heap s (vr_fresh s) = None \<and> 0 < vr_fresh s"
  by (fastforce simp: vm_ok_def regions_ok_def)

lemma map_region_ok:
  assumes ok: "vm_ok s (us @ p # vs)" and c: "sr_heap s p = Some c" "sr_used c" "sr_vm c = 0"
    and vr: "in_extent vr (extent_of c)" and ob: "\<And>k. k < region_pages vr \<Longrightarrow> object_covers vr obj k"
  shows "\<exists>s'. map_region ob obj vr p s = Inr (vr_fresh s, s') \<and> vm_ok s' (us @ p # vs) \<and>
    sr_heap s' p = Some (c\<lparr>sr_vm := vr_fresh s\<rparr>) \<and> sextents s' us = sextents s us \<and> sextents s' vs = sextents s vs \<and>
    vr_heap s' = (vr_heap s)(vr_fresh s \<mapsto> vr) \<and> m_start s' = m_start s \<and> m_size s' = m_size s \<and> maps s vr obj s'"
proof -
  note D = vm_okD [OF ok]
  let ?vm = "vr_fresh s" and ?c = "c\<lparr>sr_vm := vr_fresh s\<rparr>" and ?x = "(extent_of c)\<lparr>x_vm := vr_fresh s\<rparr>"
  note F = vm_fresh [OF ok] and E = space_extent [OF D(1) c(1)]
  have me: "m_start s + m_size s < 4294967296" using D(1) by (simp add: space_def)
  have r: "region_ok (m_directory s) vr" by (rule in_extent_region_ok [OF D(7) vr]) (use E me in auto)
  obtain pd where pd: "pd_map (m_directory s) vr obj null_range = Inr pd" "pd_ok pd" "m_type pd = m_type (m_directory s)"
    "\<forall>w < 1048576. translate pd w = (if region_vpage vr \<le> w \<and> w < region_vpage vr + region_pages vr \<and> frame_at vr obj (w - region_vpage vr) \<noteq> 0
        then Some (page_mapping vr obj (w - region_vpage vr)) else translate (m_directory s) w)"
    using pd_map_ok [OF D(6) r ob] by blast
  let ?s = "s\<lparr>sr_heap := (sr_heap s)(p \<mapsto> ?c), vr_heap := (vr_heap s)(?vm \<mapsto> vr), vr_fresh := ?vm + 1, m_directory := pd\<rparr>"
  have run: "map_region ob obj vr p s = Inr (?vm, ?s)"
    using pd(1) by (simp add: map_region_def Let_def sr_update_def sr_node_def c(1))
  have tr: "maps s vr obj ?s" using pd(4) by (simp add: maps_def page_in_def)
  note ld = linked_data [OF D(2) c(1), of ?c, simplified]
  have ex: "sextents ?s us = sextents s us" "sextents ?s vs = sextents s vs" using linkedD(6) [OF D(2)] by (auto intro!: extents_cong)
  have old: "sextents s (us @ p # vs) = sextents s us @ extent_of c # sextents s vs" using c(1) by simp
  have new: "sextents ?s (us @ p # vs) = sextents s us @ ?x # sextents s vs" using ex by (simp add: extent_of_def)
  have lv: "live (sextents ?s (us @ p # vs)) = live (sextents s us) @ ?x # live (sextents s vs)" unfolding new using F by simp
  have lo: "live (sextents s (us @ p # vs)) = live (sextents s us) @ live (sextents s vs)" unfolding old using c(3) by simp
  have sp: "space ?s (us @ p # vs)"
    using D(1) ld(1) c(2) unfolding space_def layout_def new old by (auto simp: separated_append separated_Cons tiles_append) (cases "sextents s vs"; auto simp: separated_Cons)+
  have al: "page_aligned (sextents ?s (us @ p # vs))" unfolding new using D(5) unfolding old by simp
  have hv: "vr_heap ?s (x_vm z) = vr_heap s (x_vm z)" if "z \<in> set (live (sextents s (us @ p # vs)))" for z
  proof -
    have "x_vm z \<in> x_vm ` set (live (sextents s (us @ p # vs)))" using that by blast
    then have "x_vm z \<noteq> ?vm" using F by (metis (no_types))
    then show ?thesis by simp
  qed
  have "vr_fresh s \<notin> x_vm ` set (live (sextents s us) @ live (sextents s vs))" using F unfolding lo by simp
  then have rg: "regions_ok ?s (live (sextents ?s (us @ p # vs)))"
    unfolding lv using D(8) vr hv unfolding lo regions_ok_def by (auto simp: in_extent_def)
  have bk: "backed ?s (live (sextents ?s (us @ p # vs)))"
    unfolding backed_def
  proof (intro allI impI)
    fix w f wr
    assume w: "m_start ?s \<le> 4096 * w" "4096 * w < m_start ?s + m_size ?s" "translate (m_directory ?s) w = Some (f, wr)"
    have w': "w < 1048576" using w(2) me by simp
    show "\<exists>x \<in> set (live (sextents ?s (us @ p # vs))). \<exists>v. vr_heap ?s (x_vm x) = Some v \<and> page_in v w \<and> (wr \<longrightarrow> prot_write (vr_prot v))"
    proof (cases "page_in vr w \<and> frame_at vr obj (w - region_vpage vr) \<noteq> 0")
      case True
      then have "wr \<longrightarrow> prot_write (vr_prot vr)" using tr w' w(3) by (auto simp: maps_def page_mapping_def)
      then show ?thesis unfolding lv using True by (intro bexI [of _ ?x]) auto
    next
      case False
      then have "translate (m_directory s) w = Some (f, wr)" using tr w' w(3) unfolding maps_def by (metis (no_types, lifting))
      then obtain z v where z: "z \<in> set (live (sextents s (us @ p # vs)))" "vr_heap s (x_vm z) = Some v" "page_in v w" "wr \<longrightarrow> prot_write (vr_prot v)"
        using backedE [OF D(9) w(1,2) [simplified]] by blast
      then have "z \<in> set (live (sextents ?s (us @ p # vs)))" unfolding lv lo by auto
      then show ?thesis using z hv [OF z(1)] by (intro bexI [of _ z]) auto
    qed
  qed
  have "in_half ?s" using D(7) pd(3) by (simp add: in_half_def split: directory_type.splits)
  moreover have "dom (vr_heap ?s) \<subseteq> {0<..<vr_fresh ?s}" using ok F by (auto simp: vm_ok_def less_Suc_eq)
  ultimately have "vm_ok ?s (us @ p # vs)" using sp al rg bk pd(2) by (simp add: vm_ok_def)
  then show ?thesis using run ex tr by (intro exI [of _ ?s]) simp
qed

text \<open>
  Where a request for \<open>n\<close> bytes goes: without an address to the lowest free area, and otherwise to
  the address, unless the address lies in a free region of just that size, which is taken as it is.
\<close>

definition placed :: "vmspace \<Rightarrow> extent list \<Rightarrow> nat \<Rightarrow> nat \<Rightarrow> nat \<Rightarrow> bool" where
  "placed s xs a n b \<longleftrightarrow>
     (if a = 0 then 0 < n \<longrightarrow> (\<forall>b'. area_free s xs b' n \<longrightarrow> b \<le> b')
      else b = a \<or> (\<exists>y \<in> set xs. \<not> x_used y \<and> covers y a \<and> x_size y = n \<and> b = x_start y))"

definition unplaceable :: "vmspace \<Rightarrow> extent list \<Rightarrow> nat \<Rightarrow> nat \<Rightarrow> bool" where
  "unplaceable s xs a n \<longleftrightarrow> 0 < n \<longrightarrow> (if a = 0 then \<forall>b. \<not> area_free s xs b n else \<not> area_free s xs a n)"

definition alloc_any :: "nat \<Rightarrow> nat \<Rightarrow> vmspace \<Rightarrow> (nat \<times> vmspace) result" where
  "alloc_any n a s = (if a \<noteq> 0 then alloc_space_at n a s else alloc_space n s)"

lemma area_free_extent:
  assumes "vm_ok s ps" "area_free s (sextents s ps) b n" "0 < n"
  obtains y where "y \<in> set (sextents s ps)" "\<not> x_used y" "x_start y \<le> b" "b + n \<le> x_start y + x_size y"
  using free_in_extent [OF vm_okD(3,4) [OF assms(1)] assms(3), of b] assms(2) unfolding area_free_def by blast

lemma first_fit_lowest:
  assumes ok: "vm_ok s ps" and xs: "sextents s ps = as @ y # bs" "\<forall>x \<in> set as. x_used x \<or> x_size x < n"
  shows "placed s (sextents s ps) 0 n (x_start y)"
proof -
  have "x_start y \<le> b" if b: "area_free s (sextents s ps) b n" "0 < n" for b
  proof -
    obtain z where z: "z \<in> set (sextents s ps)" "\<not> x_used z" "x_start z \<le> b" "b + n \<le> x_start z + x_size z"
      by (rule area_free_extent [OF ok b])
    then have "z \<notin> set as" using xs(2) by auto
    then consider "z = y" | cs ds where "bs = cs @ z # ds" using z(1) xs(1) split_list [of z bs] by auto
    then show ?thesis
    proof cases
      case 2
      then show ?thesis using tiles_disjoint [of "m_start s" as y cs z ds "m_start s + m_size s"] vm_okD(3) [OF ok] xs(1) z(3) by simp
    qed (use z(3) in simp)
  qed
  then show ?thesis by (simp add: placed_def)
qed

lemma not_covered_unplaceable:
  assumes ok: "vm_ok s ps" and a: "a \<noteq> 0"
    and c: "\<forall>x \<in> set (sextents s ps). covers x a \<longrightarrow> x_used x \<or> (x_size x \<noteq> n \<and> x_start x + x_size x < a + n)"
  shows "unplaceable s (sextents s ps) a n"
proof -
  have "\<not> area_free s (sextents s ps) a n" if n: "0 < n"
  proof
    assume f: "area_free s (sextents s ps) a n"
    obtain y where "y \<in> set (sextents s ps)" "\<not> x_used y" "x_start y \<le> a" "a + n \<le> x_start y + x_size y"
      by (rule area_free_extent [OF ok f n])
    then show False using c n by (force simp: covers_def)
  qed
  then show ?thesis using a by (simp add: unplaceable_def)
qed

lemma alloc_any_ok:
  assumes ok: "vm_ok s ps" and n: "n mod 4096 = 0" "n < 4294967296" and a: "a mod 4096 = 0" "a < 4294967296"
  obtains (nomem) "alloc_any n a s = Inl (Err ENOMEM)" "unplaceable s (sextents s ps) a n"
  | (done_at) p s' y t where "alloc_any n a s = Inr (p, s')" "allocated s ps s' p y t" "x_vm t = 0" "x_size t = n" "x_start t mod 4096 = 0"
      "placed s (sextents s ps) a n (x_start t)"
proof -
  note D = vm_okD [OF ok]
  have ya: "y \<in> set (sextents s ps) \<and> x_start y mod 4096 = 0 \<and> \<not> x_used y" if "allocated s ps s' p y t" for s' p y t
    using that D(5) by (auto simp: allocated_def page_aligned_def carve_def)
  show thesis
  proof (cases "a = 0")
    case True
    then have eq: "alloc_any n a s = alloc_space n s" by (simp add: alloc_any_def)
    show thesis
    proof (rule alloc_space_ok [OF D(1) n(1)])
      assume "alloc_space n s = Inl (Err ENOMEM)" "\<forall>x \<in> set (sextents s ps). x_used x \<or> x_size x < n"
      moreover have "\<not> area_free s (sextents s ps) b n" if "0 < n" for b
        using calculation(2) area_free_extent [OF ok _ that, of b] by fastforce
      ultimately show thesis using nomem eq True by (simp add: unplaceable_def)
    next
      fix p s' y
      assume A: "alloc_space n s = Inr (p, s')" "allocated s ps s' p y \<lparr>x_start = x_start y, x_size = n, x_used = True, x_vm = 0\<rparr>"
        "\<exists>as bs. sextents s ps = as @ y # bs \<and> (\<forall>x \<in> set as. x_used x \<or> x_size x < n)"
      then have "placed s (sextents s ps) a n (x_start y)" using first_fit_lowest [OF ok] True by blast
      then show thesis using done_at [of p s' y] A(1,2) ya [OF A(2)] eq by simp
    qed
  next
    case False
    then have eq: "alloc_any n a s = alloc_space_at n a s" by (simp add: alloc_any_def)
    show thesis
    proof (rule alloc_space_at_ok [OF D(1) n(1) a(1,2) n(2)])
      assume "alloc_space_at n a s = Inl (Err ENOMEM)"
        "\<forall>x \<in> set (sextents s ps). covers x a \<longrightarrow> x_used x \<or> (x_size x \<noteq> n \<and> x_start x + x_size x < a + n)"
      then show thesis using nomem eq not_covered_unplaceable [OF ok False] by simp
    next
      fix p s' y
      assume A: "alloc_space_at n a s = Inr (p, s')" "covers y a" "x_size y = n"
        "allocated s ps s' p y \<lparr>x_start = x_start y, x_size = n, x_used = True, x_vm = 0\<rparr>"
      then have "placed s (sextents s ps) a n (x_start y)" using ya [OF A(4)] False by (auto simp: placed_def)
      then show thesis using done_at [of p s' y] A(1,4) ya [OF A(4)] eq by simp
    next
      fix p s' y
      assume A: "alloc_space_at n a s = Inr (p, s')" "covers y a" "x_size y \<noteq> n" "a + n \<le> x_start y + x_size y"
        "allocated s ps s' p y \<lparr>x_start = a, x_size = n, x_used = True, x_vm = 0\<rparr>"
      then show thesis using done_at [of p s' y] a(1) eq False by (simp add: placed_def)
    qed
  qed
qed

text \<open>The used areas, and what a mapping adds.\<close>

definition used_areas :: "extent list \<Rightarrow> (nat \<times> nat \<times> nat) list" where
  "used_areas xs = map (\<lambda>x. (x_start x, x_size x, x_vm x)) (filter x_used xs)"

definition area_added :: "extent list \<Rightarrow> nat \<Rightarrow> nat \<Rightarrow> nat \<Rightarrow> extent list \<Rightarrow> bool" where
  "area_added xs a n vm xs' \<longleftrightarrow> (\<exists>ls rs. used_areas xs = ls @ rs \<and> used_areas xs' = ls @ (a, n, vm) # rs)"

definition region_added :: "vmspace \<Rightarrow> nat list \<Rightarrow> nat \<Rightarrow> nat \<Rightarrow> vm_region \<Rightarrow> vm_object \<Rightarrow> vmspace \<Rightarrow> nat list \<Rightarrow> bool" where
  "region_added s ps a n vr obj s' ps' \<longleftrightarrow> area_free s (sextents s ps) a n \<and>
     area_added (sextents s ps) a n (vr_fresh s) (sextents s' ps') \<and> vr_heap s' = (vr_heap s)(vr_fresh s \<mapsto> vr) \<and>
     m_start s' = m_start s \<and> m_size s' = m_size s \<and> maps s vr obj s'"

definition object_ok :: "vm_object \<Rightarrow> bool" where
  "object_ok obj \<longleftrightarrow> obj_size obj = 4096 * length (physical_pages obj) \<and> obj_size obj < 4294967296 \<and>
     length (physical_pages obj) \<le> bitmap_room (cow_pages obj)"

lemma object_covers_ok:
  assumes "object_ok obj" "object_start vr mod 4096 = 0" "object_start vr + range_size (vr_range vr) \<le> obj_size obj" "k < region_pages vr"
  shows "object_covers vr obj k"
proof -
  have "4096 * (object_start vr div 4096) = object_start vr" using assms(2) by auto
  moreover have "Suc k * 4096 \<le> range_size (vr_range vr)"
    using assms(4) by (simp only: region_pages_def Suc_le_eq [symmetric] less_eq_div_iff_mult_less_eq)
  ultimately have "4096 * (object_start vr div 4096 + k) + 4096 \<le> 4096 * length (physical_pages obj)" using assms(1,3) by (simp add: object_ok_def)
  then show ?thesis using assms(1) by (simp add: object_covers_def object_ok_def)
qed

lemma alloc_then_map:
  assumes ok: "vm_ok s ps" and A: "allocated s ps s1 p y t" and t: "x_vm t = 0" "x_start t mod 4096 = 0" "x_size t mod 4096 = 0"
    and vr: "in_extent vr t" and ob: "object_ok obj" "object_start vr mod 4096 = 0" "object_start vr + range_size (vr_range vr) \<le> obj_size obj"
  obtains c s' ps' where "sr_heap s1 p = Some c" "sr_start c = x_start t" "map_region ob obj vr p s1 = Inr (vr_fresh s, s')" "vm_ok s' ps'"
    "region_added s ps (x_start t) (x_size t) vr obj s' ps'"
proof (rule alloc_vm_ok [OF ok A t])
  fix us c vs
  assume a: "vm_ok s1 (us @ p # vs)" "sr_heap s1 p = Some c" "extent_of c = t" "same_env s s1" "x_used t"
    "filter x_used (sextents s ps) = filter x_used (sextents s1 us) @ filter x_used (sextents s1 vs)"
    "area_free s (sextents s ps) (x_start t) (x_size t)" "live (sextents s1 us) @ live (sextents s1 vs) = live (sextents s ps)"
  note E = same_env_sel [OF a(4)]
  have c: "sr_used c" "sr_vm c = 0" "in_extent vr (extent_of c)" "sr_start c = x_start t" "sr_size c = x_size t" using a(3,5) t(1) vr by auto
  obtain s' where s': "map_region ob obj vr p s1 = Inr (vr_fresh s1, s')" "vm_ok s' (us @ p # vs)"
    "sr_heap s' p = Some (c\<lparr>sr_vm := vr_fresh s1\<rparr>)" "sextents s' us = sextents s1 us" "sextents s' vs = sextents s1 vs"
    "vr_heap s' = (vr_heap s1)(vr_fresh s1 \<mapsto> vr)" "m_start s' = m_start s1" "m_size s' = m_size s1" "maps s1 vr obj s'"
    using map_region_ok [OF a(1,2) c(1-3) object_covers_ok [OF ob]] by blast
  have "area_added (sextents s ps) (x_start t) (x_size t) (vr_fresh s) (sextents s' (us @ p # vs))"
    unfolding area_added_def used_areas_def a(6) using s'(3,4,5) E c
    by (intro exI [of _ "used_areas (sextents s1 us)"] exI [of _ "used_areas (sextents s1 vs)"]) (simp add: used_areas_def)
  then have "region_added s ps (x_start t) (x_size t) vr obj s' (us @ p # vs)"
    using a(7) s'(6-9) E by (simp add: region_added_def maps_def)
  then show thesis using that [OF a(2) c(4) _ s'(2)] s'(1) E by simp
qed

definition map_size :: "vm_object \<Rightarrow> virtual_range \<Rightarrow> nat \<Rightarrow> nat" where
  "map_size obj rg start = (if range_size rg = 0 then sub32 (obj_size obj) start else range_size rg)"

definition map_args_ok :: "vm_object \<Rightarrow> virtual_range \<Rightarrow> nat \<Rightarrow> bool" where
  "map_args_ok obj rg start \<longleftrightarrow> range_start rg mod 4096 = 0 \<and> map_size obj rg start mod 4096 = 0 \<and> start mod 4096 = 0 \<and>
     start + map_size obj rg start \<le> obj_size obj"

definition mapped_region :: "nat \<Rightarrow> nat \<Rightarrow> nat \<Rightarrow> nat \<Rightarrow> vm_prot \<Rightarrow> vm_region" where
  "mapped_region ob a n start prot =
     \<lparr>vr_object = ob, in_space = True, vr_range = \<lparr>range_start = a, range_size = n\<rparr>, object_start = start, vr_prot = prot\<rparr>"

lemma map_object_eq:
  assumes "start + map_size obj rg start < 4294967296"
  shows "map_object ob obj prot rg start s =
    (if map_args_ok obj rg start
     then rbind (alloc_any (map_size obj rg start) (range_start rg) s) (\<lambda>(region, s1). rbind (sr_node s1 region) (\<lambda>r.
       map_region ob obj (mapped_region ob (sr_start r) (map_size obj rg start) start prot) region s1))
     else Inl (Err EINVAL))"
  using assms unfolding map_object_def Let_def map_args_ok_def alloc_any_def mapped_region_def map_size_def [symmetric]
  by (auto simp: add32_def)

lemma map_object_ok:
  assumes ok: "vm_ok s ps" and ob: "object_ok obj" and pr: "prot_read prot"
    and w: "range_start rg < 4294967296" "range_size rg < 4294967296" "start + map_size obj rg start < 4294967296"
  obtains (inval) "map_object ob obj prot rg start s = Inl (Err EINVAL)" "\<not> map_args_ok obj rg start"
  | (nomem) "map_object ob obj prot rg start s = Inl (Err ENOMEM)" "map_args_ok obj rg start"
      "unplaceable s (sextents s ps) (range_start rg) (map_size obj rg start)"
  | (mapped) a s' ps' where "map_object ob obj prot rg start s = Inr (vr_fresh s, s')" "map_args_ok obj rg start" "vm_ok s' ps'"
      "placed s (sextents s ps) (range_start rg) (map_size obj rg start) a"
      "region_added s ps a (map_size obj rg start) (mapped_region ob a (map_size obj rg start) start prot) obj s' ps'"
proof (cases "map_args_ok obj rg start")
  case False
  then show thesis using inval map_object_eq [OF w(3)] by simp
next
  case args: True
  let ?n = "map_size obj rg start" and ?a = "range_start rg"
  note eq = map_object_eq [OF w(3), unfolded if_P [OF args]]
  have n: "?n mod 4096 = 0" "?n < 4294967296" "?a mod 4096 = 0" "start mod 4096 = 0" "start + ?n \<le> obj_size obj"
    using args w(3) by (auto simp: map_args_ok_def)
  show thesis
  proof (rule alloc_any_ok [OF ok n(1,2,3) w(1)])
    assume "alloc_any ?n ?a s = Inl (Err ENOMEM)" "unplaceable s (sextents s ps) ?a ?n"
    then show thesis using nomem eq args by simp
  next
    fix p s1 y t
    assume A: "alloc_any ?n ?a s = Inr (p, s1)" "allocated s ps s1 p y t" "x_vm t = 0" "x_size t = ?n" "x_start t mod 4096 = 0"
      "placed s (sextents s ps) ?a ?n (x_start t)"
    let ?vr = "mapped_region ob (x_start t) ?n start prot"
    have vr: "in_extent ?vr t" "object_start ?vr mod 4096 = 0" "object_start ?vr + range_size (vr_range ?vr) \<le> obj_size obj"
      using A n pr by (auto simp: in_extent_def mapped_region_def)
    obtain c s' ps' where m: "sr_heap s1 p = Some c" "sr_start c = x_start t" "map_region ob obj ?vr p s1 = Inr (vr_fresh s, s')" "vm_ok s' ps'"
      "region_added s ps (x_start t) (x_size t) ?vr obj s' ps'"
      by (rule alloc_then_map [OF ok A(2,3,5) _ vr(1) ob vr(2,3)]) (use A(4) n in auto)
    then have "map_object ob obj prot rg start s = Inr (vr_fresh s, s')" using eq A(1) by (simp add: sr_node_eq [OF m(1)])
    then show thesis using mapped [OF _ args m(4) A(6)] m(5) A(4) by simp
  qed
qed

section \<open>Unmapping and reserving\<close>

definition unmaps :: "vmspace \<Rightarrow> vm_region \<Rightarrow> vmspace \<Rightarrow> bool" where
  "unmaps s vr s' \<longleftrightarrow> (\<forall>w < 1048576. translate (m_directory s') w = (if page_in vr w then None else translate (m_directory s) w))"

lemma regions_vm_unique:
  assumes "regions_ok s (as @ x # bs)" "z \<in> set (as @ bs)"
  shows "x_vm z \<noteq> x_vm x"
proof -
  have "x_vm x \<notin> x_vm ` set (as @ bs)" using assms(1) by (auto simp: regions_ok_def)
  moreover have "x_vm z \<in> x_vm ` set (as @ bs)" using assms(2) by (rule imageI)
  ultimately show ?thesis by (metis (no_types))
qed

lemma used_areas_simps [simp]:
  "used_areas [] = []" "used_areas (x # xs) = (if x_used x then (x_start x, x_size x, x_vm x) # used_areas xs else used_areas xs)"
  "used_areas (xs @ ys) = used_areas xs @ used_areas ys"
  by (simp_all add: used_areas_def)

lemma tiles_aligned: "tiles b zs e \<Longrightarrow> 4096 dvd b \<Longrightarrow> page_aligned zs \<Longrightarrow> 4096 dvd e"
proof (induction zs arbitrary: b)
  case (Cons z zs)
  then show ?case using Cons.IH [of "b + x_size z"] by (simp add: mod_eq_0_iff_dvd)
qed simp

lemma released_sub:
  assumes "released s us x vs s' ps' y" "page_aligned (sextents s us)" "page_aligned (sextents s vs)" "x_start x mod 4096 = 0" "x_size x mod 4096 = 0"
  shows "live (sextents s' ps') = live (sextents s us) @ live (sextents s vs)"
    "used_areas (sextents s' ps') = used_areas (sextents s us) @ used_areas (sextents s vs)" "page_aligned (sextents s' ps')"
proof -
  obtain as bs pre post where r: "sextents s us = as @ pre" "sextents s vs = post @ bs" "sextents s' ps' = as @ y # bs"
    "carve y pre (x\<lparr>x_vm := 0\<rparr>) post"
    using assms(1) unfolding released_def by blast
  have y: "\<not> x_used y" "x_vm y = 0" "rest pre" "rest post" and T: "tiles (x_start y) (pre @ x\<lparr>x_vm := 0\<rparr> # post) (x_start y + x_size y)"
    using r(4) by (auto simp: carve_def)
  have e: "live pre = []" "live post = []" "used_areas pre = []" "used_areas post = []" using y(3,4) by (auto simp: rest_def)
  show "live (sextents s' ps') = live (sextents s us) @ live (sextents s vs)"
    "used_areas (sextents s' ps') = used_areas (sextents s us) @ used_areas (sextents s vs)" unfolding r(1-3) using y(1,2) e by simp_all
  have al: "page_aligned (pre @ x\<lparr>x_vm := 0\<rparr> # post)" using assms(2-5) unfolding r(1,2) by simp
  have "x_start y mod 4096 = 0" using T al by (cases pre) auto
  moreover have "4096 dvd x_start y + x_size y" by (rule tiles_aligned [OF T _ al]) (use calculation in \<open>simp add: mod_eq_0_iff_dvd\<close>)
  ultimately show "page_aligned (sextents s' ps')" unfolding r(3) using assms(2,3) unfolding r(1,2) by (auto simp: mod_eq_0_iff_dvd dvd_add_right_iff)
qed

lemma unmap_found_ok:
  assumes ok: "vm_ok s (us @ p # vs)" and c: "sr_heap s p = Some c" "sr_vm c \<noteq> 0" and vr: "vr_heap s (sr_vm c) = Some vr"
  shows "\<exists>s' ps'. unmap_found p s = Inr s' \<and> vm_ok s' ps' \<and>
    used_areas (sextents s' ps') = used_areas (sextents s us) @ used_areas (sextents s vs) \<and>
    vr_heap s' = (vr_heap s)(sr_vm c \<mapsto> vr\<lparr>in_space := False\<rparr>) \<and> m_start s' = m_start s \<and> m_size s' = m_size s \<and> unmaps s vr s'"
proof -
  note D = vm_okD [OF ok] and E = space_extent [OF vm_okD(1) [OF ok] c(1)]
  have me: "m_start s + m_size s < 4294967296" using D(1) by (simp add: space_def)
  have p0: "p \<noteq> 0" using linkedD(7) [OF D(2)] by simp
  have used: "sr_used c" using E(5) c(2) by auto
  have old: "live (sextents s (us @ p # vs)) = live (sextents s us) @ extent_of c # live (sextents s vs)" using c by simp
  have in_c: "in_extent vr (extent_of c)" by (rule regions_okD [OF D(8)]) (use c vr old in auto)
  have r: "region_ok (m_directory s) vr" by (rule in_extent_region_ok [OF D(7) in_c]) (use E me in auto)
  obtain pd where pd: "pd_unmap (m_directory s) vr null_range = Inr pd" "pd_ok pd" "m_type pd = m_type (m_directory s)"
    "\<forall>w < 1048576. translate pd w = (if region_vpage vr \<le> w \<and> w < region_vpage vr + region_pages vr then None else translate (m_directory s) w)"
    using pd_unmap_ok [OF D(6) r] by blast
  let ?s1 = "s\<lparr>vr_heap := (vr_heap s)(sr_vm c \<mapsto> vr\<lparr>in_space := False\<rparr>), m_directory := pd\<rparr>"
  have run: "unmap_found p s = free_region p ?s1"
    using p0 c pd(1) vr by (simp add: unmap_found_def sr_node_def vr_node_def Let_def)
  have s1: "space ?s1 (us @ p # vs)" "sr_heap ?s1 p = Some c" using D(1) c(1) by (simp_all add: space_def)
  obtain s' ps' y where f: "free_region p ?s1 = Inr s'" "space s' ps'" "released ?s1 us (extent_of c) vs s' ps' y" "same_env ?s1 s'"
    using free_region_ok [OF s1 used] by blast
  note F = same_env_sel [OF f(4), simplified]
  note R = released_sub [OF f(3), simplified]
  have al: "page_aligned (sextents s us)" "page_aligned (sextents s vs)" "sr_start c mod 4096 = 0" "sr_size c mod 4096 = 0"
    using D(5) c(1) by simp_all
  note R' = R [OF al]
  have hv: "vr_heap s' (x_vm z) = vr_heap s (x_vm z)" if "z \<in> set (live (sextents s' ps'))" for z
    using regions_vm_unique [of s "live (sextents s us)" "extent_of c" "live (sextents s vs)" z] D(8) that unfolding old R'(1) F(3) by auto
  have tr: "unmaps s vr s'" using pd(4) F(5) by (simp add: unmaps_def page_in_def)
  have "regions_ok s' (live (sextents s' ps'))"
    using D(8) hv unfolding old R'(1) regions_ok_def by auto
  moreover have "backed s' (live (sextents s' ps'))"
    unfolding backed_def
  proof (intro allI impI)
    fix w f wr
    assume w: "m_start s' \<le> 4096 * w" "4096 * w < m_start s' + m_size s'" "translate (m_directory s') w = Some (f, wr)"
    have w': "w < 1048576" using w(2) me F(1,2) by simp
    then have old_w: "\<not> page_in vr w" "translate (m_directory s) w = Some (f, wr)" using tr w(3) by (auto simp: unmaps_def split: if_splits)
    obtain z v where z: "z \<in> set (live (sextents s (us @ p # vs)))" "vr_heap s (x_vm z) = Some v" "page_in v w" "wr \<longrightarrow> prot_write (vr_prot v)"
      by (rule backedE [OF D(9) w(1,2) [unfolded F(1,2)] old_w(2)])
    have "z \<noteq> extent_of c" using old_w(1) z(2,3) vr by auto
    then have "z \<in> set (live (sextents s' ps'))" using z(1) unfolding old R'(1) by auto
    then show "\<exists>x \<in> set (live (sextents s' ps')). \<exists>v. vr_heap s' (x_vm x) = Some v \<and> page_in v w \<and> (wr \<longrightarrow> prot_write (vr_prot v))"
      using z hv by metis
  qed
  moreover have "in_half s'" using D(7) pd(3) F by (simp add: in_half_def split: directory_type.splits)
  moreover have "sr_vm c \<in> dom (vr_heap s)" using vr by auto
  then have "0 < vr_fresh s'" "dom (vr_heap s') \<subseteq> {0<..<vr_fresh s'}" using ok F by (auto simp: vm_ok_def)
  ultimately have "vm_ok s' ps'" using f(2) R'(3) pd(2) F(5) by (simp add: vm_ok_def)
  then show ?thesis using run f(1) R'(2) F tr by (intro exI [of _ s'] exI [of _ ps']) simp
qed

definition region_removed :: "vmspace \<Rightarrow> nat list \<Rightarrow> nat \<Rightarrow> vm_region \<Rightarrow> vmspace \<Rightarrow> nat list \<Rightarrow> bool" where
  "region_removed s ps vm vr s' ps' \<longleftrightarrow>
     (\<exists>a n. area_added (sextents s' ps') a n vm (sextents s ps)) \<and> vr_heap s vm = Some vr \<and>
     vr_heap s' = (vr_heap s)(vm \<mapsto> vr\<lparr>in_space := False\<rparr>) \<and> m_start s' = m_start s \<and> m_size s' = m_size s \<and> unmaps s vr s'"

lemma unmap_at_node:
  assumes ok: "vm_ok s (us @ p # vs)" and c: "sr_heap s p = Some c" "sr_vm c \<noteq> 0"
  shows "\<exists>s' ps' vr. unmap_found p s = Inr s' \<and> vm_ok s' ps' \<and> region_removed s (us @ p # vs) (sr_vm c) vr s' ps'"
proof -
  note D = vm_okD [OF ok] and E = space_extent [OF vm_okD(1) [OF ok] c(1)]
  have "extent_of c \<in> set (live (sextents s (us @ p # vs)))" using c by simp
  then obtain vr where vr: "vr_heap s (sr_vm c) = Some vr" using D(8) unfolding regions_ok_def by fastforce
  obtain s' ps' where s': "unmap_found p s = Inr s'" "vm_ok s' ps'"
    "used_areas (sextents s' ps') = used_areas (sextents s us) @ used_areas (sextents s vs)"
    "vr_heap s' = (vr_heap s)(sr_vm c \<mapsto> vr\<lparr>in_space := False\<rparr>)" "m_start s' = m_start s" "m_size s' = m_size s" "unmaps s vr s'"
    using unmap_found_ok [OF ok c vr] by blast
  have "sr_used c" using E(5) c(2) by auto
  then have "area_added (sextents s' ps') (sr_start c) (sr_size c) (sr_vm c) (sextents s (us @ p # vs))"
    unfolding area_added_def using s'(3) c(1) by (intro exI [of _ "used_areas (sextents s us)"] exI [of _ "used_areas (sextents s vs)"]) simp
  then have "region_removed s (us @ p # vs) (sr_vm c) vr s' ps'" using s' vr by (auto simp: region_removed_def)
  then show ?thesis using s'(1,2) by blast
qed

lemma unmap_region_ok:
  assumes ok: "vm_ok s ps" and vm: "vm \<noteq> 0"
  obtains (none) "unmap_region vm s = Inl (Err ENOENT)" "vm \<notin> x_vm ` set (sextents s ps)"
  | (unmapped) vr s' ps' where "unmap_region vm s = Inr s'" "vm_ok s' ps'" "region_removed s ps vm vr s' ps'"
proof (cases rule: sr_find_cases [OF vm_okD(2) [OF ok], of "\<lambda>r. sr_vm r = vm", case_names absent found])
  case absent
  have "vm \<notin> x_vm ` set (sextents s ps)" using absent(2) by (auto simp: extents_def)
  then show thesis using none absent(1) by (simp add: unmap_region_def unmap_found_def)
next
  case (found us p vs)
  obtain c where c: "sr_heap s p = Some c" using linkedD(1) [OF vm_okD(2) [OF ok], of p] found(1) by auto
  then have cv: "sr_vm c = vm" using found(3) by simp
  obtain s' ps' vr where "unmap_found p s = Inr s'" "vm_ok s' ps'" "region_removed s (us @ p # vs) (sr_vm c) vr s' ps'"
    using unmap_at_node [OF ok [unfolded found(1)] c] cv vm by blast
  then show thesis using unmapped found(1,2) cv by (simp add: unmap_region_def)
qed

lemma unmap_region_at_ok:
  assumes ok: "vm_ok s ps"
  obtains (none) "unmap_region_at a s = Inl (Err ENOENT)" "\<forall>x \<in> set (sextents s ps). x_start x = a \<longrightarrow> x_size x \<noteq> 0 \<longrightarrow> x_vm x = 0 \<or> (\<exists>z \<in> set (sextents s ps). x_start z = a \<and> x_size z = 0)"
  | (unmapped) vm vr s' ps' where "unmap_region_at a s = Inr s'" "vm_ok s' ps'" "region_removed s ps vm vr s' ps'"
      "\<exists>x \<in> set (sextents s ps). x_start x = a \<and> x_vm x = vm"
proof (cases rule: sr_find_cases [OF vm_okD(2) [OF ok], of "\<lambda>r. sr_start r = a", case_names absent found])
  case absent
  have "\<forall>x \<in> set (sextents s ps). x_start x \<noteq> a" using absent(2) by (auto simp: extents_def)
  then show thesis using none absent(1) by (simp add: unmap_region_at_def unmap_found_def)
next
  case (found us p vs)
  note D = vm_okD [OF ok]
  obtain c where c: "sr_heap s p = Some c" using linkedD(1) [OF D(2), of p] found(1) by auto
  then have ca: "sr_start c = a" using found(3) by simp
  have cin: "extent_of c \<in> set (sextents s ps)" using found(1) c by simp
  show thesis
  proof (cases "sr_vm c = 0")
    case True
    have "p \<noteq> 0" using linkedD(7) [OF D(2)] found(1) by simp
    then have "unmap_region_at a s = Inl (Err ENOENT)" using found(2) True c by (simp add: unmap_region_at_def unmap_found_def sr_node_def)
    moreover have "x_vm x = 0 \<or> (\<exists>z \<in> set (sextents s ps). x_start z = a \<and> x_size z = 0)" if x: "x \<in> set (sextents s ps)" "x_start x = a" "x_size x \<noteq> 0" for x
    proof (cases "sr_size c = 0")
      case True
      then show ?thesis using cin ca by (intro disjI2 bexI [of _ "extent_of c"]) auto
    next
      case False
      then have "x = extent_of c" using tiles_covers_unique [OF D(3) x(1) cin, of a] x ca by (simp add: covers_def)
      then show ?thesis using True by simp
    qed
    ultimately show thesis using none by blast
  next
    case False
    obtain s' ps' vr where "unmap_found p s = Inr s'" "vm_ok s' ps'" "region_removed s (us @ p # vs) (sr_vm c) vr s' ps'"
      using unmap_at_node [OF ok [unfolded found(1)] c False] by blast
    moreover have "\<exists>x \<in> set (sextents s ps). x_start x = a \<and> x_vm x = sr_vm c" using ca by (intro bexI [OF _ cin]) simp
    ultimately show thesis using unmapped [of s' ps' "sr_vm c" vr] found(1,2) by (simp add: unmap_region_at_def)
  qed
qed

lemma reserve_region_ok:
  assumes ok: "vm_ok s ps" and n: "n mod 4096 = 0" "n < 4294967296" and a: "a mod 4096 = 0" "a < 4294967296"
  obtains (nomem) "reserve_region a n s = Inl (Err ENOMEM)"
  | (reserved) b s' ps' where "reserve_region a n s = Inr s'" "vm_ok s' ps'" "same_env s s'" "area_free s (sextents s ps) b n"
      "area_added (sextents s ps) b n 0 (sextents s' ps')"
proof -
  note D = vm_okD [OF ok]
  have fin: thesis if A: "alloc_space_at n a s = Inr (p, s')" "allocated s ps s' p y \<lparr>x_start = b, x_size = n, x_used = True, x_vm = 0\<rparr>" "b mod 4096 = 0" for p s' y b
  proof (rule alloc_vm_ok [OF ok A(2)])
    fix us c vs
    let ?t = "\<lparr>x_start = b, x_size = n, x_used = True, x_vm = 0\<rparr>"
    assume c: "vm_ok s' (us @ p # vs)" "sr_heap s' p = Some c" "extent_of c = ?t" "same_env s s'"
      "filter x_used (sextents s ps) = filter x_used (sextents s' us) @ filter x_used (sextents s' vs)" "area_free s (sextents s ps) (x_start ?t) (x_size ?t)"
    have "area_added (sextents s ps) b n 0 (sextents s' (us @ p # vs))"
      unfolding area_added_def used_areas_def c(5) using c(2,3)
      by (intro exI [of _ "used_areas (sextents s' us)"] exI [of _ "used_areas (sextents s' vs)"]) (simp add: used_areas_def)
    moreover have "reserve_region a n s = Inr s'" using A(1) by (simp add: reserve_region_def)
    ultimately show thesis using reserved c(1,4,6) by simp
  qed (use A(3) n in auto)
  have ya: "x_start y mod 4096 = 0" if "allocated s ps s' p y t" for s' p y t
    using that D(5) by (auto simp: allocated_def page_aligned_def)
  show thesis
  proof (rule alloc_space_at_ok [OF D(1) n(1) a n(2)])
    assume "alloc_space_at n a s = Inl (Err ENOMEM)"
    then show thesis using nomem by (simp add: reserve_region_def)
  next
    fix p s' y
    assume A: "alloc_space_at n a s = Inr (p, s')" "allocated s ps s' p y \<lparr>x_start = x_start y, x_size = n, x_used = True, x_vm = 0\<rparr>"
    show thesis by (rule fin [OF A ya [OF A(2)]])
  next
    fix p s' y
    assume A: "alloc_space_at n a s = Inr (p, s')" "allocated s ps s' p y \<lparr>x_start = a, x_size = n, x_used = True, x_vm = 0\<rparr>"
    show thesis by (rule fin [OF A a(1)])
  qed
qed

section \<open>Guard pages and stacks\<close>

lemma map_sentinel_ok:
  assumes ok: "vm_ok s ps" and ob: "object_ok obj" "obj_size obj + 8192 < 4294967296" and pr: "prot_read prot"
  obtains (nomem) "map_object_with_sentinel ob obj prot s = Inl (Err ENOMEM)" "\<forall>b. \<not> area_free s (sextents s ps) b (obj_size obj + 8192)"
  | (mapped) a s' ps' where "map_object_with_sentinel ob obj prot s = Inr (vr_fresh s, s')" "vm_ok s' ps'"
      "region_added s ps a (obj_size obj + 8192) (mapped_region ob (a + 4096) (obj_size obj) 0 prot) obj s' ps'"
proof -
  let ?n = "obj_size obj + 8192"
  have n: "?n mod 4096 = 0" "add32 (obj_size obj) (4096 * 2) = ?n" using ob by (simp_all add: object_ok_def add32_def)
  have eq: "map_object_with_sentinel ob obj prot s = rbind (alloc_any ?n 0 s) (\<lambda>(region, s1). rbind (sr_node s1 region) (\<lambda>r.
      map_region ob obj (mapped_region ob (add32 (sr_start r) 4096) (obj_size obj) 0 prot) region s1))"
    unfolding map_object_with_sentinel_def n(2) by (simp add: mapped_region_def alloc_any_def)
  show thesis
  proof (rule alloc_any_ok [OF ok n(1) ob(2), of 0])
    assume "alloc_any ?n 0 s = Inl (Err ENOMEM)" "unplaceable s (sextents s ps) 0 ?n"
    then show thesis using nomem eq by (simp add: unplaceable_def)
  next
    fix p s1 y t
    assume A: "alloc_any ?n 0 s = Inr (p, s1)" "allocated s ps s1 p y t" "x_vm t = 0" "x_size t = ?n" "x_start t mod 4096 = 0"
    let ?vr = "mapped_region ob (x_start t + 4096) (obj_size obj) 0 prot"
    have vr: "in_extent ?vr t" "object_start ?vr mod 4096 = 0" "object_start ?vr + range_size (vr_range ?vr) \<le> obj_size obj"
      using A pr ob by (simp_all add: in_extent_def mapped_region_def object_ok_def)
    obtain c s' ps' where m: "sr_heap s1 p = Some c" "sr_start c = x_start t" "map_region ob obj ?vr p s1 = Inr (vr_fresh s, s')" "vm_ok s' ps'"
      "region_added s ps (x_start t) (x_size t) ?vr obj s' ps'"
      by (rule alloc_then_map [OF ok A(2,3,5) _ vr(1) ob(1) vr(2,3)]) (use A(4) n in auto)
    have "x_start t + ?n \<le> m_start s + m_size s" using m(5) A(4) by (simp add: region_added_def area_free_def)
    then have "add32 (x_start t) 4096 = x_start t + 4096" using vm_okD(1) [OF ok] by (simp add: space_def add32_def)
    then have "map_object_with_sentinel ob obj prot s = Inr (vr_fresh s, s')" using eq A(1) m(2,3) by (simp add: sr_node_eq [OF m(1)])
    then show thesis using mapped [OF _ m(4)] m(5) A(4) by simp
  qed simp_all
qed

lemma last_chain: "chain 0 (nx h) (pv h) q p ps \<Longrightarrow> set ps \<subseteq> dom h \<Longrightarrow> ps \<noteq> [] \<Longrightarrow> sr_last h p = Some (Inr (last ps))"
proof (induction ps arbitrary: q p)
  case (Cons x ps)
  then obtain r where r: "h x = Some r" by auto
  have nr: "nx h x = sr_next r" using r by (simp add: nx_def)
  have c: "chain 0 (nx h) (pv h) x (nx h x) ps" "p = x" "nx h x = sr_next r" using Cons.prems(1) nr by auto
  have "sr_last h p = (if nx h x \<noteq> 0 then sr_last h (nx h x) else Some (Inr x))" using c(2,3) r by (simp add: sr_last.simps [of h x])
  then show ?case using Cons.IH [OF c(1)] Cons.prems(2) chain_null_iff [OF c(1)] by simp
qed simp

lemma back_chain:
  assumes h0: "h 0 = None"
  shows "chain 0 (nx h) (pv h) 0 m (us @ vs) \<Longrightarrow> set us \<subseteq> dom h \<Longrightarrow>
    sr_back h P (if us = [] then 0 else last us) =
      Some (case dropWhile (\<lambda>p. P (the (h p))) (rev us) of [] \<Rightarrow> Inl Undefined | x # _ \<Rightarrow> Inr x)"
proof (induction us arbitrary: vs rule: rev_induct)
  case Nil
  then show ?case using h0 by (simp add: sr_back.simps)
next
  case (snoc x us)
  obtain r where r: "h x = Some r" using snoc.prems(2) by auto
  have "pv h x = (if us = [] then 0 else last us)" using chain_middle [of 0 "nx h" "pv h" 0 m us x vs] snoc.prems(1) by simp
  then have "sr_prev r = (if us = [] then 0 else last us)" using r by (simp add: pv_def)
  then show ?case using snoc.IH [of "x # vs"] snoc.prems r by (simp add: sr_back.simps [of h P x])
qed

text \<open>
  \<open>map_stack\<close> takes the highest free area that is large enough. When there is none its second loop
  runs off the front of the list and reads through the null pointer.
\<close>

lemma last_fit_highest:
  assumes ok: "vm_ok s ps" and xs: "sextents s ps = as @ y # bs" "\<forall>x \<in> set bs. x_used x \<or> x_size x < n" and b: "area_free s (sextents s ps) b n" "0 < n"
  shows "b + n \<le> x_start y + x_size y"
proof -
  obtain z where z: "z \<in> set (sextents s ps)" "\<not> x_used z" "x_start z \<le> b" "b + n \<le> x_start z + x_size z"
    by (rule area_free_extent [OF ok b])
  then have "z \<notin> set bs" using xs(2) by auto
  then consider "z = y" | cs ds where "as = cs @ z # ds" using z(1) xs(1) split_list [of z as] by auto
  then show ?thesis
  proof cases
    case 2
    then show ?thesis using tiles_disjoint [of "m_start s" cs z ds y bs "m_start s + m_size s"] vm_okD(3) [OF ok] xs(1) z(4) by simp
  qed (use z(4) in simp)
qed

lemma stack_search:
  assumes ok: "vm_ok s ps" and n: "0 < n"
  obtains (none) "rbind (returned (sr_last (sr_heap s) (m_region_map s))) (\<lambda>e. returned (sr_back (sr_heap s) (\<lambda>r. sr_used r \<or> sr_size r < n) e)) = Inl Undefined"
      "\<forall>b. \<not> area_free s (sextents s ps) b n"
  | (found) p c where "rbind (returned (sr_last (sr_heap s) (m_region_map s))) (\<lambda>e. returned (sr_back (sr_heap s) (\<lambda>r. sr_used r \<or> sr_size r < n) e)) = Inr p"
      "p \<noteq> 0" "sr_heap s p = Some c" "extent_of c \<in> set (sextents s ps)" "\<not> sr_used c" "n \<le> sr_size c" "sr_end c = sr_start c + sr_size c"
      "\<forall>b. area_free s (sextents s ps) b n \<longrightarrow> b + n \<le> sr_end c"
proof -
  note D = vm_okD [OF ok]
  let ?P = "\<lambda>r. sr_used r \<or> sr_size r < n" and ?h = "sr_heap s"
  let ?Q = "\<lambda>p. ?P (the (?h p))"
  have L: "chain 0 (nx ?h) (pv ?h) 0 (m_region_map s) ps" "set ps \<subseteq> dom ?h" "?h 0 = None" using D(2) linkedD(2) [OF D(2)] by (auto simp: linked_def)
  let ?r = "case dropWhile ?Q (rev ps) of [] \<Rightarrow> Inl Undefined | x # _ \<Rightarrow> Inr x"
  have run: "rbind (returned (sr_last ?h (m_region_map s))) (\<lambda>e. returned (sr_back ?h ?P e)) = ?r"
  proof (cases "ps = []")
    case True
    then have "m_region_map s = 0" using L(1) by simp
    then show ?thesis using True L(3) by (simp add: sr_last.simps)
  next
    case False
    then show ?thesis using last_chain [OF L(1,2) False] back_chain [of ?h "m_region_map s" ps "[]" ?P] L by simp
  qed
  show thesis
  proof (cases "dropWhile ?Q (rev ps)")
    case Nil
    then have "\<forall>p \<in> set ps. ?Q p" using dropWhile_eq_Nil_conv [of ?Q "rev ps"] by simp
    then have "\<forall>x \<in> set (sextents s ps). x_used x \<or> x_size x < n" by (simp add: extents_def)
    then have "\<not> area_free s (sextents s ps) b n" for b using area_free_extent [OF ok _ n, of b] by fastforce
    then show thesis using none run Nil by simp
  next
    case (Cons p rs)
    have "rev ps = takeWhile ?Q (rev ps) @ p # rs" using takeWhile_dropWhile_id [of ?Q "rev ps"] Cons by simp
    then have ps: "ps = rev rs @ p # rev (takeWhile ?Q (rev ps))" by (metis rev.simps(2) rev_append rev_rev_ident append.assoc append_Cons append_Nil)
    have "\<forall>v \<in> set (takeWhile ?Q (rev ps)). ?Q v" using set_takeWhileD by metis
    then have later: "\<forall>x \<in> set (sextents s (rev (takeWhile ?Q (rev ps)))). x_used x \<or> x_size x < n" by (simp add: extents_def)
    have pin: "p \<in> set ps" by (subst ps) simp
    obtain c where c: "?h p = Some c" using linkedD(1) [OF D(2) pin] by blast
    have nQ: "\<not> sr_used c" "n \<le> sr_size c" using hd_dropWhile [of ?Q "rev ps"] Cons c by auto
    have xs: "sextents s ps = sextents s (rev rs) @ extent_of c # sextents s (rev (takeWhile ?Q (rev ps)))" by (subst ps) (simp add: c)
    have e: "sr_end c = sr_start c + sr_size c" by (rule space_extent(4) [of s "rev rs" p "rev (takeWhile ?Q (rev ps))"]) (use D(1) ps c in auto)
    have "\<forall>b. area_free s (sextents s ps) b n \<longrightarrow> b + n \<le> sr_end c" using last_fit_highest [OF ok xs later _ n] e by simp
    moreover have "extent_of c \<in> set (sextents s ps)" by (subst xs) simp
    ultimately show thesis using found [of p c] run Cons c nQ e linkedD(7) [OF D(2) pin] by simp
  qed
qed

lemma map_stack_ok:
  assumes ok: "vm_ok s ps" and ob: "object_ok obj" "0 < obj_size obj" and pr: "prot_read prot" and m0: "0 < m_start s"
  obtains (none) "map_stack ob obj prot s = Inl Undefined" "\<forall>b. \<not> area_free s (sextents s ps) b (obj_size obj)"
  | (mapped) a s' ps' where "map_stack ob obj prot s = Inr (vr_fresh s, s')" "vm_ok s' ps'"
      "region_added s ps a (obj_size obj) (mapped_region ob a (obj_size obj) 0 prot) obj s' ps'"
      "\<forall>b. area_free s (sextents s ps) b (obj_size obj) \<longrightarrow> b \<le> a"
proof -
  let ?n = "obj_size obj"
  note D = vm_okD [OF ok]
  have unf: "map_stack ob obj prot s =
      rbind (rbind (returned (sr_last (sr_heap s) (m_region_map s))) (\<lambda>e. returned (sr_back (sr_heap s) (\<lambda>r. sr_used r \<or> sr_size r < ?n) e))) (\<lambda>cur.
      if cur = 0 then Inl (Err ENOMEM) else rbind (sr_node s cur) (\<lambda>r. map_object ob obj prot \<lparr>range_start = sub32 (sr_end r) ?n, range_size = ?n\<rparr> 0 s))"
    unfolding map_stack_def by (cases "returned (sr_last (sr_heap s) (m_region_map s))") simp_all
  show thesis
  proof (rule stack_search [OF ok ob(2)])
    fix p c
    assume c: "rbind (returned (sr_last (sr_heap s) (m_region_map s))) (\<lambda>e. returned (sr_back (sr_heap s) (\<lambda>r. sr_used r \<or> sr_size r < ?n) e)) = Inr p"
      "p \<noteq> 0" "sr_heap s p = Some c" "extent_of c \<in> set (sextents s ps)" "\<not> sr_used c" "?n \<le> sr_size c" "sr_end c = sr_start c + sr_size c"
      "\<forall>b. area_free s (sextents s ps) b ?n \<longrightarrow> b + ?n \<le> sr_end c"
    let ?a = "sr_end c - ?n"
    let ?rg = "\<lparr>range_start = ?a, range_size = ?n\<rparr>"
    have b: "m_start s \<le> sr_start c" "sr_end c < 4294967296" using tiles_in [OF D(3) c(4)] D(1) c(7) by (auto simp: space_def)
    have a: "sr_start c \<le> ?a" "?a + ?n = sr_end c" "?a \<noteq> 0" "?a < 4294967296" "sub32 (sr_end c) ?n = ?a"
      using b c(6,7) m0 ob(2) by auto
    have ms: "map_size obj ?rg 0 = ?n" and small: "?n < 4294967296" using ob by (simp_all add: map_size_def object_ok_def)
    have al: "4096 dvd sr_end c" "4096 dvd ?n" using D(5) c(4,7) ob(1) by (auto simp: page_aligned_def mod_eq_0_iff_dvd object_ok_def)
    then have args: "map_args_ok obj ?rg 0" unfolding map_args_ok_def ms using ob(1) by (auto simp: mod_eq_0_iff_dvd object_ok_def dvd_diff_nat)
    have free: "area_free s (sextents s ps) ?a ?n" by (rule extent_free [OF D(3) c(4)]) (use c a in auto)
    have run: "map_stack ob obj prot s = map_object ob obj prot ?rg 0 s" unfolding unf c(1) using c(2) a(5) by (simp add: sr_node_eq [OF c(3)])
    show thesis
    proof (rule map_object_ok [OF ok ob(1) pr, of ?rg 0 ob])
      assume "map_object ob obj prot ?rg 0 s = Inl (Err ENOMEM)" "unplaceable s (sextents s ps) (range_start ?rg) (map_size obj ?rg 0)"
      then show thesis using free a(3) ob(2) unfolding ms by (simp add: unplaceable_def)
    next
      fix b s' ps'
      assume m: "map_object ob obj prot ?rg 0 s = Inr (vr_fresh s, s')" "vm_ok s' ps'" "placed s (sextents s ps) (range_start ?rg) (map_size obj ?rg 0) b"
        "region_added s ps b (map_size obj ?rg 0) (mapped_region ob b (map_size obj ?rg 0) 0 prot) obj s' ps'"
      have "b = ?a"
      proof (rule ccontr)
        assume "b \<noteq> ?a"
        then obtain y where y: "y \<in> set (sextents s ps)" "covers y ?a" "x_size y = ?n" "b = x_start y" using m(3) a(3) unfolding ms placed_def by auto
        have "covers (extent_of c) ?a" using a ob(2) c(7) by (simp add: covers_def)
        then have "y = extent_of c" using tiles_covers_unique [OF D(3) y(1) c(4) y(2)] by simp
        then show False using y \<open>b \<noteq> ?a\<close> c(7) by simp
      qed
      then show thesis using mapped [OF _ m(2)] m(1,4) run c(8) a(2) unfolding ms by force
    qed (use args a small in \<open>simp_all add: ms\<close>)
  qed (use none unf in simp)
qed

section \<open>Page faults\<close>

lemma pd_map_one:
  assumes ok: "pd_ok pd" and r: "region_ok pd r" and k: "k < region_pages r" "object_covers r ob k"
  shows "\<exists>pd'. pd_map pd r ob \<lparr>range_start = k * 4096, range_size = 4096\<rparr> = Inr pd' \<and> pd_ok pd' \<and> m_type pd' = m_type pd \<and>
    (\<forall>w < 1048576. translate pd' w =
       (if w = region_vpage r + k \<and> frame_at r ob k \<noteq> 0 then Some (page_mapping r ob k) else translate pd w))"
proof -
  let ?rg = "\<lparr>range_start = k * 4096, range_size = 4096\<rparr>"
  have rr: "range_start (vr_range r) + range_size (vr_range r) < 4294967296" "range_size (vr_range r) = 4096 * region_pages r" "prot_read (vr_prot r)"
    using r by (auto simp: region_ok_def region_pages_def)
  have "k * 4096 + 4096 \<le> range_size (vr_range r)" using k(1) rr(2) by simp
  then have "range_asserts r (whole_if_null r ?rg)" "range_pages (whole_if_null r ?rg) = [k]"
    using rr(1) by (simp_all add: whole_if_null_def range_asserts_def range_pages_def range_end_def)
  moreover obtain pd' where "pd_map_loop r ob [k] pd = Inr pd'" "pd_ok pd'" "m_type pd' = m_type pd"
    "\<forall>w < 1048576. translate pd' w = (if \<exists>j \<in> set [k]. w = region_vpage r + j \<and> frame_at r ob j \<noteq> 0 then Some (page_mapping r ob (w - region_vpage r)) else translate pd w)"
    using pd_map_loop_ok [OF ok, of "[k]" r ob] region_ok_pages(3) [OF r k(1)] k(2) by auto
  ultimately show ?thesis using rr(3) by (intro exI [of _ pd']) (auto simp: pd_map_def Let_def)
qed

definition cow_ok :: "vm_object \<Rightarrow> bool" where
  "cow_ok ob \<longleftrightarrow> (\<forall>k < length (physical_pages ob). bitmap_bit (cow_pages ob) k \<longrightarrow> physical_pages ob ! k \<noteq> 0)"

definition fault_allowed :: "vm_prot \<Rightarrow> fault_type \<Rightarrow> bool" where
  "fault_allowed prot type \<longleftrightarrow> (case type of Fault_Read \<Rightarrow> prot_read prot | Fault_Write \<Rightarrow> prot_write prot
     | Fault_Execute \<Rightarrow> prot_execute prot | Fault_Unknown \<Rightarrow> True)"

text \<open>The translation after a fault: only the page of the address changes.\<close>

definition fault_mapped :: "vmspace \<Rightarrow> vm_region \<Rightarrow> nat \<Rightarrow> nat \<Rightarrow> vmspace \<Rightarrow> bool" where
  "fault_mapped s vr address frame s' \<longleftrightarrow> (\<forall>w < 1048576. translate (m_directory s') w =
     (if w = address div 4096 then Some (frame mod 1048576, prot_write (vr_prot vr)) else translate (m_directory s) w))"

lemma vm_ok_remap:
  assumes ok: "vm_ok s ps" and pd: "pd_ok pd" "m_type pd = m_type (m_directory s)"
    and x: "x \<in> set (live (sextents s ps))" "vr_heap s (x_vm x) = Some vr"
    and tr: "\<And>w f wr. w < 1048576 \<Longrightarrow> translate pd w = Some (f, wr) \<Longrightarrow> translate (m_directory s) w = Some (f, wr) \<or> page_in vr w \<and> (wr \<longrightarrow> prot_write (vr_prot vr))"
  shows "vm_ok (s\<lparr>m_directory := pd\<rparr>) ps"
proof -
  note D = vm_okD [OF ok]
  have me: "m_start s + m_size s < 4294967296" using D(1) by (simp add: space_def)
  have "\<exists>z \<in> set (live (sextents s ps)). \<exists>v. vr_heap s (x_vm z) = Some v \<and> page_in v w \<and> (wr \<longrightarrow> prot_write (vr_prot v))"
    if w: "m_start s \<le> 4096 * w" "4096 * w < m_start s + m_size s" "translate pd w = Some (f, wr)" for w f wr
  proof -
    have "w < 1048576" using w(2) me by simp
    then consider "translate (m_directory s) w = Some (f, wr)" | "page_in vr w \<and> (wr \<longrightarrow> prot_write (vr_prot vr))" using tr w(3) by blast
    then show ?thesis
    proof cases
      case 1
      then show ?thesis using backedE [OF D(9) w(1,2) 1] by blast
    qed (use x in blast)
  qed
  then have "backed (s\<lparr>m_directory := pd\<rparr>) (live (sextents s ps))" by (simp add: backed_def)
  then show ?thesis using ok pd by (simp add: vm_ok_def space_def in_half_def regions_ok_def split: directory_type.splits)
qed

text \<open>The part that all paths through a fault share: the page of the object is mapped.\<close>

lemma fault_map:
  assumes ok: "vm_ok s ps" and x: "x \<in> set (live (sextents s ps))" "vr_heap s (x_vm x) = Some vr"
    and a: "range_start (vr_range vr) \<le> address" "address < range_start (vr_range vr) + range_size (vr_range vr)"
    and k: "k = (address - range_start (vr_range vr)) div 4096"
    and ob: "object_ok ob" "object_start vr = 0" "range_size (vr_range vr) \<le> obj_size ob" "physical_pages ob ! k \<noteq> 0"
      "bitmap_bit (cow_pages ob) k \<longrightarrow> \<not> prot_write (vr_prot vr)"
  shows "\<exists>pd. pd_map (m_directory s) vr ob \<lparr>range_start = k * 4096, range_size = 4096\<rparr> = Inr pd \<and> vm_ok (s\<lparr>m_directory := pd\<rparr>) ps \<and>
    fault_mapped s vr address (physical_pages ob ! k) (s\<lparr>m_directory := pd\<rparr>)"
proof -
  note D = vm_okD [OF ok]
  have me: "m_start s + m_size s < 4294967296" using D(1) by (simp add: space_def)
  have xin: "x \<in> set (sextents s ps)" using x(1) by simp
  have ie: "in_extent vr x" by (rule regions_okD [OF D(8) x])
  have r: "region_ok (m_directory s) vr" by (rule in_extent_region_ok [OF D(7) ie]) (use tiles_in [OF D(3) xin] me in auto)
  have al: "range_start (vr_range vr) = 4096 * region_vpage vr" "range_size (vr_range vr) = 4096 * region_pages vr"
    using ie by (auto simp: in_extent_def region_vpage_def region_pages_def)
  have kp: "k < region_pages vr" using a al(2) unfolding k by (simp add: div_less_iff_less_mult)
  have ap: "region_vpage vr + k = address div 4096" using a(1) unfolding k al(1) by (metis div_mult_self4 le_add_diff_inverse zero_neq_numeral add.commute)
  have oc: "object_covers vr ob k" by (rule object_covers_ok [OF ob(1) _ _ kp]) (use ob in auto)
  have fr: "frame_at vr ob k = physical_pages ob ! k" using ob(2) by (simp add: frame_at_def)
  obtain pd where pd: "pd_map (m_directory s) vr ob \<lparr>range_start = k * 4096, range_size = 4096\<rparr> = Inr pd" "pd_ok pd" "m_type pd = m_type (m_directory s)"
    "\<forall>w < 1048576. translate pd w = (if w = region_vpage vr + k \<and> frame_at vr ob k \<noteq> 0 then Some (page_mapping vr ob k) else translate (m_directory s) w)"
    using pd_map_one [OF D(6) r kp oc] by blast
  have pm: "page_mapping vr ob k = (physical_pages ob ! k mod 1048576, prot_write (vr_prot vr))" using ob(5) by (auto simp: page_mapping_def fr)
  have fm: "fault_mapped s vr address (physical_pages ob ! k) (s\<lparr>m_directory := pd\<rparr>)"
    using pd(4) fr ob(4) pm ap by (simp add: fault_mapped_def)
  have "page_in vr (address div 4096)" using kp ap by (simp add: page_in_def flip: ap)
  then have "vm_ok (s\<lparr>m_directory := pd\<rparr>) ps"
    by (intro vm_ok_remap [OF ok pd(2,3) x]) (use fm in \<open>auto simp: fault_mapped_def split: if_splits\<close>)
  then show ?thesis using pd(1) fm by blast
qed

text \<open>The object after a fault on page \<open>k\<close>: a page without frame gets one, and so does one that is copied.\<close>

definition needs_frame :: "vm_prot \<Rightarrow> vm_object \<Rightarrow> nat \<Rightarrow> bool" where
  "needs_frame prot ob k \<longleftrightarrow> physical_pages ob ! k = 0 \<or> (prot_write prot \<and> bitmap_bit (cow_pages ob) k)"

definition fault_object :: "vm_prot \<Rightarrow> vm_object \<Rightarrow> nat \<Rightarrow> nat \<Rightarrow> vm_object \<Rightarrow> bool" where
  "fault_object prot ob k f ob' \<longleftrightarrow>
     physical_pages ob' = (if needs_frame prot ob k then (physical_pages ob)[k := f] else physical_pages ob) \<and>
     bitmap_bit (cow_pages ob') = (bitmap_bit (cow_pages ob))(k := bitmap_bit (cow_pages ob) k \<and> \<not> prot_write prot) \<and>
     obj_size ob' = obj_size ob \<and> object_ok ob'"

lemma fault_found:
  assumes ok: "vm_ok s ps" and x: "x \<in> set (live (sextents s ps))" "vr_heap s (x_vm x) = Some vr"
    and a: "range_start (vr_range vr) \<le> address" "address < range_start (vr_range vr) + range_size (vr_range vr)"
  shows "\<exists>p c. sr_find s (\<lambda>r. sr_contains r address) = Inr p \<and> p \<noteq> 0 \<and> sr_heap s p = Some c \<and> sr_vm c = x_vm x \<and>
    range_contains (vr_range vr) address \<and> sub32 address (range_start (vr_range vr)) = address - range_start (vr_range vr)"
proof -
  note D = vm_okD [OF ok]
  have me: "m_start s + m_size s < 4294967296" using D(1) by (simp add: space_def)
  have xin: "x \<in> set (sextents s ps)" using x(1) by simp
  have ie: "in_extent vr x" by (rule regions_okD [OF D(8) x])
  have b: "range_start (vr_range vr) + range_size (vr_range vr) < 4294967296" using ie tiles_in [OF D(3) xin] me by (simp add: in_extent_def)
  have cx: "covers x address" using ie a by (simp add: in_extent_def covers_def)
  have cov: "sr_contains c address \<longleftrightarrow> covers (extent_of c) address" if q: "q \<in> set ps" "sr_heap s q = Some c" for q c
  proof -
    obtain us vs where "ps = us @ q # vs" using split_list [OF q(1)] by blast
    then show ?thesis using space_extent(4) [of s us q vs c] D(1) q(2) by (simp add: sr_contains_def covers_def)
  qed
  show ?thesis
  proof (cases rule: sr_find_cases [OF D(2), of "\<lambda>r. sr_contains r address", case_names none some])
    case none
    obtain q where q: "q \<in> set ps" "x = extent_of (the (sr_heap s q))" using xin by (auto simp: extents_def)
    then show ?thesis using none(2) cov [OF q(1)] linkedD(1) [OF D(2) q(1)] cx by auto
  next
    case (some us p vs)
    have pin: "p \<in> set ps" using some(1) by simp
    obtain c where c: "sr_heap s p = Some c" using linkedD(1) [OF D(2) pin] by blast
    have "extent_of c \<in> set (sextents s ps)" using some(1) c by simp
    then have "x = extent_of c" using tiles_covers_unique [OF D(3) xin _ cx] cov [OF pin c] some(3) c by simp
    then show ?thesis using some(2) c linkedD(7) [OF D(2) pin] a b by (intro exI [of _ p] exI [of _ c]) (auto simp: range_contains_def range_end_def)
  qed
qed

lemma pagefault_ok:
  assumes ok: "vm_ok s ps" and x: "x \<in> set (live (sextents s ps))" "vr_heap s (x_vm x) = Some vr"
    and a: "range_start (vr_range vr) \<le> address" "address < range_start (vr_range vr) + range_size (vr_range vr)"
    and k: "k = (address - range_start (vr_range vr)) div 4096"
    and ob: "object_ok (objects (vr_object vr))" "cow_ok (objects (vr_object vr))" "object_start vr = 0" "range_size (vr_range vr) \<le> obj_size (objects (vr_object vr))"
    and al: "fault_allowed (vr_prot vr) type" "0 < f"
  shows "\<exists>ob' s'. try_pagefault (Inr f) address type objects s = Inr (objects(vr_object vr := ob'), s') \<and>
    fault_object (vr_prot vr) (objects (vr_object vr)) k f ob' \<and> vm_ok s' ps \<and> fault_mapped s vr address (physical_pages ob' ! k) s'"
proof -
  let ?o = "objects (vr_object vr)" and ?rg = "\<lparr>range_start = k * 4096, range_size = 4096\<rparr>"
  obtain p c where c: "sr_find s (\<lambda>r. sr_contains r address) = Inr p" "p \<noteq> 0" "sr_heap s p = Some c" "sr_vm c = x_vm x"
    "range_contains (vr_range vr) address" "sub32 address (range_start (vr_range vr)) = address - range_start (vr_range vr)"
    using fault_found [OF ok x a] by blast
  have xv: "x_vm x \<noteq> 0" using x(1) by simp
  have kl: "k < length (physical_pages ?o)" "k < bitmap_room (cow_pages ?o)" "k * 4096 < 4294967296"
    using a ob(1,4) unfolding k by (auto simp: object_ok_def div_less_iff_less_mult)
  have pp: "object_physical_page ?o k = Inr (physical_pages ?o ! k)" using kl by (simp add: object_physical_page_def)
  have "try_pagefault (Inr f) address type objects s = fault_in_region (Inr f) k vr objects s"
    unfolding try_pagefault_def c(1) using c(2,4,5,6) al(1) x(2) xv k
    by (cases type) (simp_all add: sr_node_eq [OF c(3)] vr_node_def fault_allowed_def)
  note run = this [unfolded fault_in_region_def Let_def ob(3), simplified, unfolded pp, simplified]
  note fm = fault_map [OF ok x a k _ ob(3)]
  show ?thesis
  proof (cases "physical_pages ?o ! k = 0")
    case True
    let ?ob = "?o\<lparr>physical_pages := (physical_pages ?o)[k := f]\<rparr>"
    have cow: "\<not> bitmap_bit (cow_pages ?o) k" using ob(2) kl True by (auto simp: cow_ok_def)
    obtain pd where pd: "pd_map (m_directory s) vr ?ob ?rg = Inr pd" "vm_ok (s\<lparr>m_directory := pd\<rparr>) ps"
      "fault_mapped s vr address (physical_pages ?ob ! k) (s\<lparr>m_directory := pd\<rparr>)"
      using fm [of ?ob] ob(1,4) kl al(2) cow by (auto simp: object_ok_def)
    have "fault_object (vr_prot vr) ?o k f ?ob" using True ob(1) cow by (auto simp: fun_eq_iff fault_object_def needs_frame_def object_ok_def)
    moreover have "try_pagefault (Inr f) address type objects s = Inr (objects(vr_object vr := ?ob), s\<lparr>m_directory := pd\<rparr>)"
      unfolding run using True kl al(2) pd(1) by (simp add: try_fault_in_page_def object_physical_page_def)
    ultimately show ?thesis using pd by blast
  next
    case False
    show ?thesis
    proof (cases "prot_write (vr_prot vr) \<and> bitmap_bit (cow_pages ?o) k")
      case True
      obtain b where b: "bitmap_set (cow_pages ?o) k False = Inr b" "bitmap_bit b = (bitmap_bit (cow_pages ?o))(k := False)" "bitmap_room b = bitmap_room (cow_pages ?o)"
        by (rule bitmap_set_ok [OF kl(2)])
      let ?ob = "?o\<lparr>physical_pages := (physical_pages ?o)[k := f], cow_pages := b\<rparr>"
      obtain pd where pd: "pd_map (m_directory s) vr ?ob ?rg = Inr pd" "vm_ok (s\<lparr>m_directory := pd\<rparr>) ps"
        "fault_mapped s vr address (physical_pages ?ob ! k) (s\<lparr>m_directory := pd\<rparr>)"
        using fm [of ?ob] ob(1,4) kl al(2) b by (auto simp: object_ok_def)
      have "fault_object (vr_prot vr) ?o k f ?ob" using True ob(1) b by (auto simp: fun_eq_iff fault_object_def needs_frame_def object_ok_def)
      moreover have "try_pagefault (Inr f) address type objects s = Inr (objects(vr_object vr := ?ob), s\<lparr>m_directory := pd\<rparr>)"
        unfolding run using True False kl pd(1) b by (simp add: try_cow_page_def bitmap_get_ok pp)
      ultimately show ?thesis using pd by blast
    next
      case w: False
      obtain pd where pd: "pd_map (m_directory s) vr ?o ?rg = Inr pd" "vm_ok (s\<lparr>m_directory := pd\<rparr>) ps"
        "fault_mapped s vr address (physical_pages ?o ! k) (s\<lparr>m_directory := pd\<rparr>)"
        using fm [of ?o] ob(1,4) False w by blast
      have "fault_object (vr_prot vr) ?o k f ?o" using False w ob(1) by (auto simp: fun_eq_iff fault_object_def needs_frame_def)
      moreover have "try_pagefault (Inr f) address type objects s = Inr (objects(vr_object vr := ?o), s\<lparr>m_directory := pd\<rparr>)"
        unfolding run using w False kl pd(1) by (simp add: bitmap_get_ok)
      ultimately show ?thesis using pd by blast
    qed
  qed
qed

text \<open>
  When the page of the object is there already, the page that is mapped is the one with the
  object's index. In a region that starts inside its object this is another page, and the page of
  the fault keeps its translation.
\<close>

lemma err_ignored:
  "(case r of Inl (Err e) \<Rightarrow> Inr a | Inl f \<Rightarrow> Inl f | Inr x \<Rightarrow> Inr x) = (Inr b :: 'a result) \<Longrightarrow> b = a \<or> r = Inr b"
  by (cases r) (auto split: failure.splits)

lemma pd_map_single:
  assumes run: "pd_map pd r ob \<lparr>range_start = m * 4096, range_size = 4096\<rparr> = Inr pd'" and m: "m + 1 < 1048576"
  shows "pd' = pd \<or> (\<exists>page prot. map_page pd (region_vpage r + m) page prot = Inr pd' \<and> (prot_write prot \<longrightarrow> prot_write (vr_prot r)))"
proof -
  let ?rg = "\<lparr>range_start = m * 4096, range_size = 4096\<rparr>" and ?v = "region_vpage r + m"
  let ?prot = "\<lambda>cow. let prot = vr_prot r in \<lparr>prot_read = prot_read prot, prot_write = (if cow then False else prot_write prot), prot_execute = prot_execute prot\<rparr>"
  have "range_pages (whole_if_null r ?rg) = [m]" using m by (simp add: whole_if_null_def range_pages_def)
  then have "pd_map_loop r ob [m] pd = Inr pd'" using run by (simp add: pd_map_def Let_def rassert_def del: pd_map_loop.simps split: if_splits)
  then obtain page where page: "page = 0 \<and> pd' = pd \<or> (\<exists>cow. (case map_page pd ?v page (?prot cow) of
        Inl (Err e) \<Rightarrow> Inr pd | Inl f \<Rightarrow> Inl f | Inr pd' \<Rightarrow> Inr pd') = Inr pd')"
    unfolding pd_map_loop.simps rbind_eq_Inr_iff region_vpage_def by (metis (no_types, lifting) rbind_eq_Inr_iff old.sum.inject(2))
  then have "pd' = pd \<or> (\<exists>cow. map_page pd ?v page (?prot cow) = Inr pd')" by (elim disjE conjE exE) (simp, drule err_ignored, metis)
  moreover have "prot_write (?prot cow) \<longrightarrow> prot_write (vr_prot r)" for cow by (simp add: Let_def)
  ultimately show ?thesis by metis
qed

lemma pd_map_elsewhere:
  assumes ok: "pd_ok pd" and run: "pd_map pd r ob \<lparr>range_start = m * 4096, range_size = 4096\<rparr> = Inr pd'" and m: "m + 1 < 1048576"
    and w: "w < 1048576" "w \<noteq> (region_vpage r + m) mod 1048576"
  shows "translate pd' w = translate pd w"
proof -
  let ?v = "region_vpage r + m"
  consider "pd' = pd" | page prot where "map_page pd ?v page prot = Inr pd'" using pd_map_single [OF run m] by blast
  then show ?thesis
  proof cases
    case (2 page prot)
    then have "map_page pd (?v mod 1048576) page prot = Inr pd'" by (simp add: page_wraps)
    then show ?thesis using map_page_ok [OF ok, of "?v mod 1048576" page prot] w by (cases "own_page pd (?v mod 1048576)") auto
  qed simp
qed

text \<open>A fault whose page to be mapped lies in the region keeps the invariant, whatever the object holds.\<close>

definition maps_inside :: "vm_region \<Rightarrow> vm_object \<Rightarrow> nat \<Rightarrow> bool" where
  "maps_inside vr ob address \<longleftrightarrow> (let object_page = (address - range_start (vr_range vr)) div 4096 + object_start vr div 4096 in
     object_physical_page ob object_page = Inr 0 \<or> object_page < region_pages vr)"

lemma pd_map_inside:
  assumes ok: "vm_ok s ps" and x: "x \<in> set (live (sextents s ps))" "vr_heap s (x_vm x) = Some vr" and m: "m < region_pages vr"
    and run: "pd_map (m_directory s) vr ob \<lparr>range_start = m * 4096, range_size = 4096\<rparr> = Inr pd"
  shows "vm_ok (s\<lparr>m_directory := pd\<rparr>) ps"
proof -
  note D = vm_okD [OF ok]
  let ?v = "region_vpage vr + m"
  have xin: "x \<in> set (sextents s ps)" using x(1) by simp
  have ie: "in_extent vr x" by (rule regions_okD [OF D(8) x])
  have "m_start s + m_size s < 4294967296" using D(1) by (simp add: space_def)
  then have top: "range_start (vr_range vr) + range_size (vr_range vr) < 4294967296" using ie tiles_in [OF D(3) xin] by (simp add: in_extent_def)
  have "range_start (vr_range vr) = 4096 * region_vpage vr" "range_size (vr_range vr) = 4096 * region_pages vr"
    using ie by (auto simp: in_extent_def region_vpage_def region_pages_def)
  then have v: "?v < 1048576" "m + 1 < 1048576" using top m by simp_all
  have inside: "page_in vr ?v" using m by (simp add: page_in_def)
  consider "pd = m_directory s" | page prot where "map_page (m_directory s) ?v page prot = Inr pd" "prot_write prot \<longrightarrow> prot_write (vr_prot vr)"
    using pd_map_single [OF run v(2)] by blast
  then show ?thesis
  proof cases
    case 1
    then show ?thesis using ok by simp
  next
    case (2 page prot)
    then have "own_page (m_directory s) ?v" using map_page_ok(2) [OF D(6) v(1), of page prot] by auto
    then have pd: "pd_ok pd" "m_type pd = m_type (m_directory s)"
      "\<forall>w < 1048576. translate pd w = (if w = ?v then Some (page mod 1048576, prot_write prot) else translate (m_directory s) w)"
      using map_page_ok(1) [OF D(6) v(1), of page prot] 2(1) by auto
    show ?thesis by (rule vm_ok_remap [OF ok pd(1,2) x]) (use pd(3) inside 2(2) in \<open>auto split: if_splits\<close>)
  qed
qed

lemma fault_inside:
  assumes ok: "vm_ok s ps" and x: "x \<in> set (live (sextents s ps))" "vr_heap s (x_vm x) = Some vr"
    and a: "range_start (vr_range vr) \<le> address" "address < range_start (vr_range vr) + range_size (vr_range vr)"
    and inside: "maps_inside vr (objects (vr_object vr)) address" and run: "try_pagefault alloc address type objects s = Inr (objects', s')"
  shows "vm_ok s' ps"
proof -
  let ?o = "objects (vr_object vr)" and ?k = "(address - range_start (vr_range vr)) div 4096"
  let ?m = "?k + object_start vr div 4096"
  note D = vm_okD [OF ok]
  obtain p c where c: "sr_find s (\<lambda>r. sr_contains r address) = Inr p" "p \<noteq> 0" "sr_heap s p = Some c" "sr_vm c = x_vm x"
    "range_contains (vr_range vr) address" "sub32 address (range_start (vr_range vr)) = address - range_start (vr_range vr)"
    using fault_found [OF ok x a] by blast
  have xv: "x_vm x \<noteq> 0" and xin: "x \<in> set (sextents s ps)" using x(1) by simp_all
  have ie: "in_extent vr x" by (rule regions_okD [OF D(8) x])
  have sz: "range_size (vr_range vr) = 4096 * region_pages vr" using ie by (auto simp: in_extent_def region_pages_def)
  then have kp: "?k < region_pages vr" using a by (simp add: div_less_iff_less_mult)
  have "range_size (vr_range vr) < 4294967296" using tiles_in [OF D(3) xin] D(1) ie by (simp add: space_def in_extent_def)
  then have small: "m * 4096 mod 4294967296 = m * 4096" if "m < region_pages vr" for m using that sz by simp
  have step: "fault_in_region alloc ?k vr objects s = Inr (objects', s')"
    using run c(2,4,5,6) x(2) xv unfolding try_pagefault_def c(1) by (simp add: sr_node_eq [OF c(3)] vr_node_def split: if_splits)
  show ?thesis
  proof (cases "object_physical_page ?o ?m = Inr 0")
    case True
    then have "s' = s \<or> (\<exists>ob' pd. pd_map (m_directory s) vr ob' \<lparr>range_start = ?k * 4096, range_size = 4096\<rparr> = Inr pd \<and> s' = s\<lparr>m_directory := pd\<rparr>)"
      using step by (auto simp: fault_in_region_def Let_def rbind_def rassert_def split: sum.splits if_splits) blast
    then show ?thesis using ok pd_map_inside [OF ok x kp] by blast
  next
    case False
    then have m: "?m < region_pages vr" using inside by (simp add: maps_inside_def Let_def)
    then obtain ob' pd where "pd_map (m_directory s) vr ob' \<lparr>range_start = ?m * 4096, range_size = 4096\<rparr> = Inr pd" "s' = s\<lparr>m_directory := pd\<rparr>"
      using step False small [OF m] by (auto simp: fault_in_region_def Let_def rbind_def split: sum.splits if_splits)
    then show ?thesis using pd_map_inside [OF ok x m] by blast
  qed
qed

lemma fault_offset:
  assumes ok: "vm_ok s ps" and x: "x \<in> set (live (sextents s ps))" "vr_heap s (x_vm x) = Some vr"
    and a: "range_start (vr_range vr) \<le> address" "address < range_start (vr_range vr) + range_size (vr_range vr)"
    and ob: "object_ok (objects (vr_object vr))" "object_start vr = 4096 * j" "0 < j" "4096 * j + range_size (vr_range vr) \<le> obj_size (objects (vr_object vr))"
    and pr: "physical_pages (objects (vr_object vr)) ! ((address - range_start (vr_range vr)) div 4096 + j) \<noteq> 0"
    and run: "try_pagefault alloc address type objects s = Inr (objects', s')"
  shows "translate (m_directory s') (address div 4096) = translate (m_directory s) (address div 4096)"
proof -
  let ?o = "objects (vr_object vr)" and ?k = "(address - range_start (vr_range vr)) div 4096"
  note D = vm_okD [OF ok]
  obtain p c where c: "sr_find s (\<lambda>r. sr_contains r address) = Inr p" "p \<noteq> 0" "sr_heap s p = Some c" "sr_vm c = x_vm x"
    "range_contains (vr_range vr) address" "sub32 address (range_start (vr_range vr)) = address - range_start (vr_range vr)"
    using fault_found [OF ok x a] by blast
  have xv: "x_vm x \<noteq> 0" and xin: "x \<in> set (sextents s ps)" using x(1) by simp_all
  have ie: "in_extent vr x" by (rule regions_okD [OF D(8) x])
  have av: "address div 4096 = region_vpage vr + ?k"
  proof -
    have "range_start (vr_range vr) = 4096 * region_vpage vr" using ie by (auto simp: in_extent_def region_vpage_def)
    then show ?thesis using a(1) by (metis div_mult_self4 le_add_diff_inverse zero_neq_numeral add.commute)
  qed
  have "x_start x + x_size x < 4294967296" using tiles_in [OF D(3) xin] D(1) by (simp add: space_def)
  then have al: "address div 4096 < 1048576" using a(2) ie by (simp add: in_extent_def div_less_iff_less_mult)
  have kj: "?k + j < length (physical_pages ?o)" using a ob(1,4) by (simp add: object_ok_def)
  then have m: "?k + j + 1 < 1048576" using ob(1) by (simp add: object_ok_def)
  have "object_physical_page ?o (?k + j) = Inr (physical_pages ?o ! (?k + j))" using kj by (simp add: object_physical_page_def)
  moreover have "fault_in_region alloc ?k vr objects s = Inr (objects', s')"
    using run c(2,4,5,6) x(2) xv unfolding try_pagefault_def c(1) by (simp add: sr_node_eq [OF c(3)] vr_node_def split: if_splits)
  ultimately obtain ob' where "pd_map (m_directory s) vr ob' \<lparr>range_start = (?k + j) * 4096, range_size = 4096\<rparr> = Inr (m_directory s')"
    using pr ob(2) m by (auto simp: fault_in_region_def Let_def rbind_def split: sum.splits if_splits)
  moreover have "address div 4096 \<noteq> (address div 4096 + j) mod 1048576"
    using mod_add_inj [of "address div 4096" 0 1048576 j] al ob(3) m by auto
  then have "address div 4096 \<noteq> (region_vpage vr + (?k + j)) mod 1048576" unfolding av by (simp add: add.assoc)
  ultimately show ?thesis by (rule pd_map_elsewhere [OF D(6) _ m al])
qed

end
