(* ===== verification/AddressSpace.thy ===== *)
theory AddressSpace
  imports VMMapping
begin

text \<open>
  The address spaces that the operations of \<open>VMSpace.cpp\<close> can produce, and what holds in them.
\<close>

section \<open>Reachable address spaces\<close>

text \<open>
  A new space starts over a directory that translates none of its pages. The conditions on the
  steps are what the callers provide: sizes and addresses are 32-bit values, an object has a frame
  number and a flag for each page, and a mapping can be read. The page faults are those that map a
  page of their region: every fault in a region that starts at the beginning of its object, and in a
  region that starts inside its object every fault on a page that has no frame yet, or whose number
  in the object is still a number of a page of the region. In the remaining case \<open>try_pagefault\<close>
  (\<open>VMSpace.cpp\<close>, line 261) passes the page number of the object where one of the region is expected
  and maps a page outside the region; \<open>pagefault_offset_unresolved\<close> and its example below show what
  happens then. The frame that a fault gets and the contents of the object are arbitrary.
\<close>

definition space_args :: "nat \<Rightarrow> nat \<Rightarrow> page_directory \<Rightarrow> bool" where
  "space_args start sz pd \<longleftrightarrow> start mod 4096 = 0 \<and> sz mod 4096 = 0 \<and> start + sz < 4294967296 \<and> pd_ok pd \<and>
     (case m_type pd of USER \<Rightarrow> start + sz \<le> HIGHER_HALF | KERNEL \<Rightarrow> HIGHER_HALF \<le> start) \<and>
     (\<forall>w. start \<le> 4096 * w \<longrightarrow> 4096 * w < start + sz \<longrightarrow> translate pd w = None)"

definition map_request :: "vm_object \<Rightarrow> vm_prot \<Rightarrow> virtual_range \<Rightarrow> nat \<Rightarrow> bool" where
  "map_request obj prot rg start \<longleftrightarrow> object_ok obj \<and> prot_read prot \<and> range_start rg < 4294967296 \<and> range_size rg < 4294967296 \<and>
     start + map_size obj rg start < 4294967296"

definition whole_object :: "vm_region \<Rightarrow> vm_object \<Rightarrow> bool" where
  "whole_object vr ob \<longleftrightarrow> object_start vr = 0 \<and> object_ok ob \<and> cow_ok ob \<and> range_size (vr_range vr) \<le> obj_size ob"

inductive vm_reach :: "vmspace \<Rightarrow> bool" where
  new: "space_args start sz pd \<Longrightarrow> vm_reach (vmspace_new start sz pd)"
| reserve: "vm_reach s \<Longrightarrow> n < 4294967296 \<Longrightarrow> a < 4294967296 \<Longrightarrow> reserve_region a n s = Inr s' \<Longrightarrow> vm_reach s'"
| map: "vm_reach s \<Longrightarrow> map_request obj prot rg start \<Longrightarrow> map_object ob obj prot rg start s = Inr (vm, s') \<Longrightarrow> vm_reach s'"
| sentinel: "vm_reach s \<Longrightarrow> object_ok obj \<Longrightarrow> obj_size obj + 8192 < 4294967296 \<Longrightarrow> prot_read prot \<Longrightarrow>
    map_object_with_sentinel ob obj prot s = Inr (vm, s') \<Longrightarrow> vm_reach s'"
| stack: "vm_reach s \<Longrightarrow> object_ok obj \<Longrightarrow> 0 < obj_size obj \<Longrightarrow> prot_read prot \<Longrightarrow> 0 < m_start s \<Longrightarrow>
    map_stack ob obj prot s = Inr (vm, s') \<Longrightarrow> vm_reach s'"
| unmap: "vm_reach s \<Longrightarrow> vm \<noteq> 0 \<Longrightarrow> unmap_region vm s = Inr s' \<Longrightarrow> vm_reach s'"
| unmap_at: "vm_reach s \<Longrightarrow> unmap_region_at a s = Inr s' \<Longrightarrow> vm_reach s'"
| fault: "vm_reach s \<Longrightarrow> get_region_containing address s = Inr vm \<Longrightarrow> vr_heap s vm = Some vr \<Longrightarrow> maps_inside vr (objects (vr_object vr)) address \<Longrightarrow>
    try_pagefault alloc address type objects s = Inr (objects', s') \<Longrightarrow> vm_reach s'"

lemma vmspace_new_ok:
  assumes "space_args start sz pd"
  shows "vm_ok (vmspace_new start sz pd) [1]"
proof -
  let ?s = "vmspace_new start sz pd"
  have "slinked ?s [1]" by (auto simp: linked_def vmspace_new_def nx_def pv_def)
  moreover have ex: "sextents ?s [1] = [\<lparr>x_start = start, x_size = sz, x_used = False, x_vm = 0\<rparr>]"
    by (simp add: vmspace_new_def extent_of_def)
  ultimately have "space ?s [1]"
    using assms by (simp add: space_def layout_def space_args_def) (simp add: vmspace_new_def used_size_def)
  then show ?thesis using assms unfolding vm_ok_def ex
    by (simp add: space_args_def) (simp add: vmspace_new_def in_half_def regions_ok_def backed_def split: directory_type.splits)
qed

lemma extent_at:
  assumes ok: "vm_ok s ps" and q: "q \<in> set ps" "sr_heap s q = Some c"
  shows "extent_of c \<in> set (sextents s ps)" "sr_contains c address \<longleftrightarrow> covers (extent_of c) address"
proof -
  obtain us vs where "ps = us @ q # vs" using split_list [OF q(1)] by blast
  then show "extent_of c \<in> set (sextents s ps)" "sr_contains c address \<longleftrightarrow> covers (extent_of c) address"
    using space_extent(4) [of s us q vs c] vm_okD(1) [OF ok] q(2) by (simp_all add: sr_contains_def covers_def)
qed

lemma get_region_containing_ok:
  assumes ok: "vm_ok s ps" and g: "get_region_containing address s = Inr vm"
  shows "\<exists>x \<in> set (live (sextents s ps)). x_vm x = vm \<and> covers x address"
proof (cases rule: sr_find_cases [OF vm_okD(2) [OF ok], of "\<lambda>r. sr_contains r address", case_names none some])
  case none
  then show ?thesis using g by (simp add: get_region_containing_def region_found_def)
next
  case (some us p vs)
  have pin: "p \<in> set ps" using some(1) by simp
  obtain c where c: "sr_heap s p = Some c" using linkedD(1) [OF vm_okD(2) [OF ok] pin] by blast
  have "sr_vm c = vm" "vm \<noteq> 0"
    using g some(2) linkedD(7) [OF vm_okD(2) [OF ok] pin] c
    by (auto simp: get_region_containing_def region_found_def sr_node_def split: if_splits)
  then show ?thesis using extent_at [OF ok pin c] some(3) c by (intro bexI [of _ "extent_of c"]) simp_all
qed

lemma fault_returned:
  assumes ok: "vm_ok s ps" and g: "get_region_containing address s = Inr vm" and vr: "vr_heap s vm = Some vr"
    and run: "try_pagefault alloc address type objects s = Inr r"
  shows "range_contains (vr_range vr) address" "fault_allowed (vr_prot vr) type"
proof -
  obtain p where p: "sr_find s (\<lambda>r. sr_contains r address) = Inr p" "p \<noteq> 0"
    using run by (auto simp: try_pagefault_def rbind_eq_Inr_iff split: if_splits)
  then obtain c where c: "sr_heap s p = Some c" "sr_vm c = vm" "vm \<noteq> 0"
    using g by (auto simp: get_region_containing_def region_found_def sr_node_def rbind_eq_Inr_iff split: if_splits option.splits)
  then show "range_contains (vr_range vr) address" "fault_allowed (vr_prot vr) type"
    using run p vr by (cases type; auto simp: try_pagefault_def sr_node_eq vr_node_def fault_allowed_def split: if_splits)+
qed

lemma fault_region:
  assumes ok: "vm_ok s ps" and g: "get_region_containing address s = Inr vm" and vr: "vr_heap s vm = Some vr"
    and c: "range_contains (vr_range vr) address"
  obtains x where "x \<in> set (live (sextents s ps))" "vr_heap s (x_vm x) = Some vr"
    "range_start (vr_range vr) \<le> address" "address < range_start (vr_range vr) + range_size (vr_range vr)"
proof -
  obtain x where x: "x \<in> set (live (sextents s ps))" "x_vm x = vm" using get_region_containing_ok [OF ok g] by blast
  note D = vm_okD [OF ok]
  have v: "vr_heap s (x_vm x) = Some vr" using x(2) vr by simp
  have ie: "in_extent vr x" by (rule regions_okD [OF D(8) x(1) v])
  have "x \<in> set (sextents s ps)" using x(1) by simp
  then have "range_start (vr_range vr) + range_size (vr_range vr) < 4294967296"
    using ie tiles_in [OF D(3)] D(1) by (fastforce simp: in_extent_def space_def)
  then show thesis using that [OF x(1) v] c by (simp add: range_contains_def range_end_def)
qed

lemma reserve_aligned: "reserve_region a n s = Inr s' \<Longrightarrow> n mod 4096 = 0 \<and> a mod 4096 = 0"
  by (auto simp: reserve_region_def alloc_space_at_def rbind_eq_Inr_iff rassert_eq_Inr_iff)

lemma vm_reach_ok: "vm_reach s \<Longrightarrow> \<exists>ps. vm_ok s ps"
proof (induction rule: vm_reach.induct)
  case (new start sz pd)
  then show ?case using vmspace_new_ok by blast
next
  case (reserve s n a s')
  then obtain ps where ok: "vm_ok s ps" by blast
  show ?case by (rule reserve_region_ok [OF ok, of n a]) (use reserve reserve_aligned [OF reserve.hyps(4)] in auto)
next
  case (map s obj prot rg start ob vm s')
  then obtain ps where ok: "vm_ok s ps" by blast
  show ?case by (rule map_object_ok [OF ok, of obj prot rg start ob]) (use map in \<open>auto simp: map_request_def\<close>)
next
  case (sentinel s obj prot ob vm s')
  then obtain ps where ok: "vm_ok s ps" by blast
  show ?case by (rule map_sentinel_ok [OF ok sentinel.hyps(2-4), of ob]) (use sentinel in auto)
next
  case (stack s obj prot ob vm s')
  then obtain ps where ok: "vm_ok s ps" by blast
  show ?case by (rule map_stack_ok [OF ok stack.hyps(2-5), of ob]) (use stack in auto)
next
  case (unmap s vm s')
  then obtain ps where ok: "vm_ok s ps" by blast
  show ?case by (rule unmap_region_ok [OF ok unmap.hyps(2)]) (use unmap in auto)
next
  case (unmap_at s a s')
  then obtain ps where ok: "vm_ok s ps" by blast
  show ?case by (rule unmap_region_at_ok [OF ok, of a]) (use unmap_at in auto)
next
  case (fault s address vm vr objects alloc type objects' s')
  then obtain ps where ok: "vm_ok s ps" by blast
  note R = fault_returned [OF ok fault.hyps(2,3,5)]
  obtain x where x: "x \<in> set (live (sextents s ps))" "vr_heap s (x_vm x) = Some vr"
    "range_start (vr_range vr) \<le> address" "address < range_start (vr_range vr) + range_size (vr_range vr)"
    by (rule fault_region [OF ok fault.hyps(2,3) R(1)])
  show ?case using fault_inside [OF ok x fault.hyps(4,5)] by blast
qed

section \<open>Properties\<close>

lemma tiles_nth: "tiles a xs e \<Longrightarrow> j < length xs \<Longrightarrow> i < j \<Longrightarrow> x_start (xs ! i) + x_size (xs ! i) \<le> x_start (xs ! j)"
proof (induction xs arbitrary: a i j)
  case (Cons x xs)
  obtain j' where j: "j = Suc j'" "j' < length xs" using Cons.prems(2,3) by (cases j) auto
  have t: "tiles (a + x_size x) xs e" "x_start x = a" using Cons.prems(1) by auto
  show ?case
  proof (cases i)
    case 0
    then show ?thesis using tiles_in [OF t(1), of "xs ! j'"] t(2) j by simp
  next
    case (Suc i')
    then show ?thesis using Cons.IH [OF t(1) j(2), of i'] Cons.prems(3) j by simp
  qed
qed simp

lemma tiles_sum: "tiles a xs e \<Longrightarrow> a + sum_list (map x_size xs) = e"
  by (induction xs arbitrary: a) (auto simp flip: add.assoc)

lemma separated_nth: "separated xs \<Longrightarrow> Suc i < length xs \<Longrightarrow> x_used (xs ! i) \<or> x_used (xs ! Suc i)"
proof (induction xs arbitrary: i)
  case (Cons x xs)
  then obtain y ys where xs: "xs = y # ys" by (cases xs) auto
  have "x_used x \<or> x_used y" "separated xs" using Cons.prems(1) xs by (auto simp: separated_Cons)
  then show ?case using Cons.IH Cons.prems(2) xs by (cases i) auto
qed simp

text \<open>
  C1. Whatever is mapped, reserved and unmapped, and whatever faults on anonymous objects are resolved
  that map a page of their own region (\<open>maps_inside\<close>: all faults in a region that starts at the beginning of its object,
  and those in other regions that do not run into the wrong page number at \<open>VMSpace.cpp\<close>, line 261),
  an address space stays intact: its regions follow each other without overlap or gap and fill the space, of two neighbours at least
  one is used, \<open>m_used\<close> is the sum of the used ones, and every page of the space that the page
  directory translates lies in the range of a region that is mapped there, writable only if the
  region is.
\<close>

theorem address_space_intact:
  assumes "vm_reach s"
  shows "\<exists>ps xs. slinked s ps \<and> xs = sextents s ps \<and>
    (\<forall>j < length xs. \<forall>i < j. x_start (xs ! i) + x_size (xs ! i) \<le> x_start (xs ! j)) \<and>
    (\<forall>x \<in> set xs. m_start s \<le> x_start x \<and> x_start x + x_size x \<le> m_start s + m_size s) \<and>
    sum_list (map x_size xs) = m_size s \<and> m_used s = sum_list (map x_size (filter x_used xs)) \<and>
    (\<forall>i. Suc i < length xs \<longrightarrow> x_used (xs ! i) \<or> x_used (xs ! Suc i)) \<and>
    (\<forall>w f wr. m_start s \<le> 4096 * w \<longrightarrow> 4096 * w < m_start s + m_size s \<longrightarrow> translate (m_directory s) w = Some (f, wr) \<longrightarrow>
       (\<exists>x \<in> set xs. \<exists>vr. x_used x \<and> x_vm x \<noteq> 0 \<and> vr_heap s (x_vm x) = Some vr \<and> in_extent vr x \<and> range_start (vr_range vr) \<le> 4096 * w \<and>
          4096 * w < range_start (vr_range vr) + range_size (vr_range vr) \<and> (wr \<longrightarrow> prot_write (vr_prot vr))))"
proof -
  obtain ps where ok: "vm_ok s ps" using vm_reach_ok [OF assms] by blast
  note D = vm_okD [OF ok]
  let ?xs = "sextents s ps"
  have page: "\<exists>x \<in> set ?xs. \<exists>vr. x_used x \<and> x_vm x \<noteq> 0 \<and> vr_heap s (x_vm x) = Some vr \<and> in_extent vr x \<and> range_start (vr_range vr) \<le> 4096 * w \<and>
      4096 * w < range_start (vr_range vr) + range_size (vr_range vr) \<and> (wr \<longrightarrow> prot_write (vr_prot vr))"
    if w: "m_start s \<le> 4096 * w" "4096 * w < m_start s + m_size s" "translate (m_directory s) w = Some (f, wr)" for w f wr
  proof (rule backedE [OF D(9) w])
    fix x vr
    assume x: "x \<in> set (live ?xs)" "vr_heap s (x_vm x) = Some vr" "page_in vr w" "wr \<longrightarrow> prot_write (vr_prot vr)"
    have ie: "in_extent vr x" by (rule regions_okD [OF D(8) x(1,2)])
    have "x_used x" using D(1) x(1) by (auto simp: space_def layout_def)
    then show ?thesis using x ie page_in_iff [of vr w] by (intro bexI [of _ x] exI [of _ vr]) (auto simp: in_extent_def)
  qed
  have "sum_list (map x_size ?xs) = m_size s" "m_used s = sum_list (map x_size (filter x_used ?xs))"
    using tiles_sum [OF D(3)] D(1) by (auto simp: space_def used_size_def)
  then show ?thesis using D(2) tiles_nth [OF D(3)] tiles_in [OF D(3)] separated_nth [OF D(4)] page
    by (intro exI [of _ ps] exI [of _ ?xs]) blast
qed

lemma region_lookup:
  assumes ok: "vm_ok s ps" and x: "(a, n, vm) \<in> set (used_areas (sextents s ps))" "vm \<noteq> 0" and vr: "vr_heap s vm = Some vr"
    and ad: "range_start (vr_range vr) \<le> address" "address < range_start (vr_range vr) + range_size (vr_range vr)"
  shows "get_region_containing address s = Inr vm" "range_contains (vr_range vr) address"
proof -
  obtain x where x': "x \<in> set (live (sextents s ps))" "x_vm x = vm" using x by (auto simp: used_areas_def)
  obtain p c where "sr_find s (\<lambda>r. sr_contains r address) = Inr p" "p \<noteq> 0" "sr_heap s p = Some c" "sr_vm c = x_vm x" "range_contains (vr_range vr) address"
    using fault_found [OF ok x'(1) _ ad] x'(2) vr by blast
  then show "get_region_containing address s = Inr vm" "range_contains (vr_range vr) address"
    using x'(2) x(2) by (auto simp: get_region_containing_def region_found_def sr_node_eq)
qed

text \<open>A small address space and an object of one page, for the examples below.\<close>

definition example_space :: vmspace where
  "example_space = vmspace_new 4096 12288 (pd_new USER (\<lambda>_ _. entry_zero))"

definition example_object :: vm_object where
  "example_object = \<lparr>physical_pages = [7], cow_pages = bitmap_new 1 False, obj_size = 4096\<rparr>"

definition example_prot :: vm_prot where
  "example_prot = \<lparr>prot_read = True, prot_write = True, prot_execute = False\<rparr>"

lemma example_directory:
  "pd_ok (pd_new USER (\<lambda>_ _. entry_zero))" "translate (pd_new USER (\<lambda>_ _. entry_zero)) w = None" "m_type (pd_new t k) = t"
  by (rule pd_new_ok, simp add: ktables_ok_def entry_zero_ok)
    (simp_all add: translate_def entry_of_def pd_new_def Let_def entry_zero_def)

lemma example_reach: "vm_reach example_space"
  unfolding example_space_def by (rule new) (simp add: space_args_def example_directory HIGHER_HALF_def)

lemma example_object_ok: "object_ok example_object" "cow_ok example_object"
  using bitmap_new_ok [where n = 1 and v = False] by (simp_all add: object_ok_def cow_ok_def example_object_def)

lemma example_request: "map_request example_object example_prot null_range 0" "map_size example_object null_range 0 = 4096"
  using example_object_ok by (simp_all add: map_request_def example_prot_def null_range_def map_size_def example_object_def)

lemma linked_unique: "slinked s ps \<Longrightarrow> slinked s qs \<Longrightarrow> ps = qs"
  unfolding linked_def by (elim conjE) (rule chain_unique)

lemma example_free:
  assumes "vm_ok example_space ps"
  shows "area_free example_space (sextents example_space ps) 4096 4096"
proof -
  have "space_args 4096 12288 (pd_new USER (\<lambda>_ _. entry_zero))" by (simp add: space_args_def example_directory HIGHER_HALF_def)
  then have "ps = [1]" using linked_unique [OF vm_okD(2) [OF assms]] vm_okD(2) [OF vmspace_new_ok] unfolding example_space_def by blast
  then show ?thesis by (simp add: area_free_def example_space_def vmspace_new_def)
qed

lemma example_map:
  assumes req: "map_request obj example_prot rg start" and rg: "range_start rg = 0" "map_size obj rg start = 4096" "map_args_ok obj rg start"
  obtains s' where "map_object 9 obj example_prot rg start example_space = Inr (1, s')" "vm_reach s'"
    "vr_heap s' 1 = Some (mapped_region 9 4096 4096 start example_prot)" "maps example_space (mapped_region 9 4096 4096 start example_prot) obj s'"
    "m_start s' = 4096" "m_size s' = 12288" "get_region_containing 4100 s' = Inr 1"
proof -
  obtain ps where ok: "vm_ok example_space ps" using vm_reach_ok [OF example_reach] by blast
  have r: "object_ok obj" "prot_read example_prot" "range_start rg < 4294967296" "range_size rg < 4294967296" "start + map_size obj rg start < 4294967296"
    using req by (simp_all add: map_request_def)
  have e: "vr_fresh example_space = 1" "vr_heap example_space = Map.empty" "m_start example_space = 4096" "m_size example_space = 12288"
    by (simp_all add: example_space_def vmspace_new_def)
  note free = example_free [OF ok]
  show thesis
  proof (rule map_object_ok [OF ok r, of 9])
    assume "unplaceable example_space (sextents example_space ps) (range_start rg) (map_size obj rg start)"
    then show thesis using free unfolding rg by (simp add: unplaceable_def)
  next
    fix a s' ps'
    assume ok': "vm_ok s' ps'" and m: "map_object 9 obj example_prot rg start example_space = Inr (vr_fresh example_space, s')"
      "placed example_space (sextents example_space ps) (range_start rg) (map_size obj rg start) a"
      "region_added example_space ps a (map_size obj rg start) (mapped_region 9 a (map_size obj rg start) start example_prot) obj s' ps'"
    have a: "a = 4096" using m(2,3) free e(3) unfolding rg by (fastforce simp: placed_def region_added_def area_free_def)
    let ?vr = "mapped_region 9 4096 4096 start example_prot"
    have h: "vr_heap s' = [1 \<mapsto> ?vr]" "maps example_space ?vr obj s'" "m_start s' = 4096" "m_size s' = 12288"
      "area_added (sextents example_space ps) 4096 4096 1 (sextents s' ps')"
      using m(3) unfolding rg a region_added_def e by auto
    have "(4096, 4096, 1) \<in> set (used_areas (sextents s' ps'))" using h(5) by (auto simp: area_added_def)
    then have "get_region_containing 4100 s' = Inr 1"
      by (rule region_lookup [OF ok', of _ _ _ ?vr]) (simp_all add: h(1) mapped_region_def)
    then show thesis using that [OF m(1) [unfolded e(1)]] vm_reach.map [OF example_reach req m(1)] h by simp
  qed (use rg(3) in simp)
qed

lemma example_mapped:
  obtains s' where "map_object 9 example_object example_prot null_range 0 example_space = Inr (1, s')" "vm_reach s'"
    "translate (m_directory s') 1 = Some (7, True)" "vr_heap s' 1 = Some (mapped_region 9 4096 4096 0 example_prot)"
    "m_start s' = 4096" "m_size s' = 12288" "get_region_containing 4100 s' = Inr 1"
proof (rule example_map [OF example_request(1) _ example_request(2)])
  fix s'
  let ?vr = "mapped_region 9 4096 4096 0 example_prot"
  assume s': "map_object 9 example_object example_prot null_range 0 example_space = Inr (1, s')" "vm_reach s'" "vr_heap s' 1 = Some ?vr"
    "maps example_space ?vr example_object s'" "m_start s' = 4096" "m_size s' = 12288" "get_region_containing 4100 s' = Inr 1"
  have "page_in ?vr 1" "frame_at ?vr example_object 0 = 7" "region_vpage ?vr = 1"
    by (simp_all add: page_in_def region_vpage_def region_pages_def mapped_region_def frame_at_def example_object_def)
  moreover have "page_mapping ?vr example_object 0 = (7, True)"
    using calculation(2) bitmap_new_ok(2) [where n = 1 and v = False and i = 0] by (simp add: page_mapping_def example_object_def mapped_region_def example_prot_def)
  ultimately have "translate (m_directory s') 1 = Some (7, True)" using s'(4) by (simp add: maps_def)
  then show thesis using that s' by blast
next
  show "map_args_ok example_object null_range 0" unfolding map_args_ok_def example_request(2) by (simp add: null_range_def example_object_def)
qed (simp add: null_range_def)

theorem address_space_intact_witness:
  "\<exists>s (xs :: extent list) x vr. vm_reach s \<and> translate (m_directory s) 1 = Some (7, True) \<and> m_used s = sum_list (map x_size (filter x_used xs)) \<and> x \<in> set xs \<and> x_used x \<and>
     vr_heap s (x_vm x) = Some vr \<and> range_start (vr_range vr) \<le> 4096 \<and> 4096 < range_start (vr_range vr) + range_size (vr_range vr) \<and> prot_write (vr_prot vr)"
proof (rule example_mapped)
  fix s'
  assume s': "vm_reach s'" "translate (m_directory s') 1 = Some (7, True)" "m_start s' = 4096" "m_size s' = 12288"
  have w: "m_start s' \<le> 4096 * 1" "4096 * 1 < m_start s' + m_size s'" using s'(3,4) by simp_all
  obtain xs where xs: "m_used s' = sum_list (map x_size (filter x_used xs))"
    "\<exists>x \<in> set xs. \<exists>vr. x_used x \<and> x_vm x \<noteq> 0 \<and> vr_heap s' (x_vm x) = Some vr \<and> in_extent vr x \<and> range_start (vr_range vr) \<le> 4096 * 1 \<and>
       4096 * 1 < range_start (vr_range vr) + range_size (vr_range vr) \<and> (True \<longrightarrow> prot_write (vr_prot vr))"
    using address_space_intact [OF s'(1)] w s'(2) by blast
  then obtain x vr where "x \<in> set xs" "x_used x" "vr_heap s' (x_vm x) = Some vr" "range_start (vr_range vr) \<le> 4096"
    "4096 < range_start (vr_range vr) + range_size (vr_range vr)" "prot_write (vr_prot vr)" by auto
  then show ?thesis using s'(1,2) xs(1) by blast
qed

text \<open>
  C2. \<open>map_object\<close> in a space with any history: a request that is not aligned or exceeds the object is
  \<open>EINVAL\<close>; otherwise it is \<open>ENOMEM\<close> only if no free area of the size exists, or, for a fixed
  address, if the area is not free there; and otherwise the region lies in an area that was free, at
  the lowest address or at the one asked for (or fills the free region of just that size around it),
  the used areas are the old ones and the new one, its pages translate to the frames of the object,
  without write permission where copy-on-write, and no other page changes its translation.
\<close>

theorem map_object_total:
  assumes "vm_reach s" "map_request obj prot rg start"
  shows "\<exists>ps. vm_ok s ps \<and> (case map_object ob obj prot rg start s of
      Inl e \<Rightarrow> e = Err EINVAL \<and> \<not> map_args_ok obj rg start \<or>
        e = Err ENOMEM \<and> map_args_ok obj rg start \<and> unplaceable s (sextents s ps) (range_start rg) (map_size obj rg start)
    | Inr (vm, s') \<Rightarrow> vm_reach s' \<and> vm = vr_fresh s \<and> map_args_ok obj rg start \<and>
        (\<exists>a ps'. slinked s' ps' \<and> placed s (sextents s ps) (range_start rg) (map_size obj rg start) a \<and>
           region_added s ps a (map_size obj rg start) (mapped_region ob a (map_size obj rg start) start prot) obj s' ps'))"
proof -
  obtain ps where ok: "vm_ok s ps" using vm_reach_ok [OF assms(1)] by blast
  have r: "object_ok obj" "prot_read prot" "range_start rg < 4294967296" "range_size rg < 4294967296" "start + map_size obj rg start < 4294967296"
    using assms(2) by (simp_all add: map_request_def)
  show ?thesis
  proof (rule map_object_ok [OF ok r, of ob])
    fix a s' ps'
    assume m: "map_object ob obj prot rg start s = Inr (vr_fresh s, s')" "map_args_ok obj rg start" "vm_ok s' ps'"
      "placed s (sextents s ps) (range_start rg) (map_size obj rg start) a"
      "region_added s ps a (map_size obj rg start) (mapped_region ob a (map_size obj rg start) start prot) obj s' ps'"
    then show ?thesis using ok vm_reach.map [OF assms m(1)] vm_okD(2) [OF m(3)] by (intro exI [of _ ps]) auto
  qed (use ok in auto)
qed

theorem map_object_total_witness:
  "\<exists>ps s'. map_object 9 example_object example_prot null_range 0 example_space = Inr (vr_fresh example_space, s') \<and>
     (\<exists>a ps'. region_added example_space ps a 4096 (mapped_region 9 a 4096 0 example_prot) example_object s' ps')"
proof (rule example_mapped)
  fix s'
  assume m: "map_object 9 example_object example_prot null_range 0 example_space = Inr (1, s')"
  show ?thesis using map_object_total [OF example_reach example_request(1), of 9] m unfolding example_request(2) by auto
qed

lemma split_unique:
  assumes "\<forall>z \<in> set (ls @ rs). \<not> P z" "P y" "ls @ x # rs = ls' @ y # rs'"
  shows "ls = ls' \<and> rs = rs'"
  using assms
proof (induction ls arbitrary: ls')
  case Nil
  then show ?case by (cases ls') auto
next
  case (Cons l ls)
  then show ?case by (cases ls') auto
qed

lemma used_size_areas: "used_size xs = sum_list (map (\<lambda>(a, n, vm). n) (used_areas xs))"
  by (simp add: used_size_def used_areas_def comp_def)

lemma fresh_unused:
  assumes ok: "vm_ok s ps"
  shows "\<forall>z \<in> set (used_areas (sextents s ps)). \<not> snd (snd z) = vr_fresh s"
proof -
  have "x_vm x \<noteq> vr_fresh s" if "x \<in> set (sextents s ps)" for x
  proof
    assume "x_vm x = vr_fresh s"
    then have "x \<in> set (live (sextents s ps))" using that vm_fresh [OF ok] by simp
    then show False using vm_fresh [OF ok] \<open>x_vm x = vr_fresh s\<close> by (metis (no_types) imageI)
  qed
  then show ?thesis by (auto simp: used_areas_def)
qed

lemma area_untranslated:
  assumes ok: "vm_ok s ps" and a: "area_free s (sextents s ps) a n" "a \<le> 4096 * w" "4096 * w < a + n"
  shows "translate (m_directory s) w = None"
proof -
  have n: "0 < n" using a(2,3) by simp
  obtain y where y: "y \<in> set (sextents s ps)" "\<not> x_used y" "x_start y \<le> a" "a + n \<le> x_start y + x_size y"
    by (rule area_free_extent [OF ok a(1) n])
  then have "x_vm y = 0" using vm_okD(1) [OF ok] by (auto simp: space_def layout_def)
  then show ?thesis using unbacked [OF ok y(1)] y a by simp
qed

text \<open>
  C19. Mapping an object and unmapping the region again restores the space: the same areas are used,
  \<open>m_used\<close> is the same, and every page of the address space has its old translation.
\<close>

theorem map_unmap_restores:
  assumes reach: "vm_reach s" and req: "map_request obj prot rg start" and run: "map_object ob obj prot rg start s = Inr (vm, s1)"
  shows "\<exists>ps ps2 s2. unmap_region vm s1 = Inr s2 \<and> vm_reach s2 \<and> slinked s ps \<and> slinked s2 ps2 \<and>
    used_areas (sextents s2 ps2) = used_areas (sextents s ps) \<and> m_used s2 = m_used s \<and>
    (\<forall>w < 1048576. translate (m_directory s2) w = translate (m_directory s) w)"
proof -
  obtain ps where ok: "vm_ok s ps" using vm_reach_ok [OF reach] by blast
  have r: "object_ok obj" "prot_read prot" "range_start rg < 4294967296" "range_size rg < 4294967296" "start + map_size obj rg start < 4294967296"
    using req by (simp_all add: map_request_def)
  let ?n = "map_size obj rg start"
  obtain a ps1 where m: "vm = vr_fresh s" "vm_ok s1 ps1" "region_added s ps a ?n (mapped_region ob a ?n start prot) obj s1 ps1" "?n mod 4096 = 0"
    by (rule map_object_ok [OF ok r, of ob]) (use run in \<open>auto simp: map_args_ok_def\<close>)
  let ?vr = "mapped_region ob a ?n start prot"
  have vm0: "vm \<noteq> 0" using m(1) vm_fresh [OF ok] by simp
  have free: "area_free s (sextents s ps) a ?n" and added: "area_added (sextents s ps) a ?n vm (sextents s1 ps1)"
    and h: "vr_heap s1 vm = Some ?vr" and tr: "maps s ?vr obj s1" using m(1,3) by (auto simp: region_added_def)
  obtain ls rs where l: "used_areas (sextents s ps) = ls @ rs" "used_areas (sextents s1 ps1) = ls @ (a, ?n, vm) # rs"
    using added by (auto simp: area_added_def)
  show ?thesis
  proof (rule unmap_region_ok [OF m(2) vm0])
    assume "vm \<notin> x_vm ` set (sextents s1 ps1)"
    moreover have "(a, ?n, vm) \<in> set (used_areas (sextents s1 ps1))" using l(2) by simp
    ultimately show ?thesis by (force simp: used_areas_def)
  next
    fix vr' s2 ps2
    assume u: "unmap_region vm s1 = Inr s2" "vm_ok s2 ps2" "region_removed s1 ps1 vm vr' s2 ps2"
    then obtain a' n' ls' rs' where l': "used_areas (sextents s2 ps2) = ls' @ rs'" "used_areas (sextents s1 ps1) = ls' @ (a', n', vm) # rs'"
      by (auto simp: region_removed_def area_added_def)
    have "ls = ls' \<and> rs = rs'"
      by (rule split_unique [where P = "\<lambda>z. snd (snd z) = vm" and x = "(a, ?n, vm)" and y = "(a', n', vm)"])
        (use fresh_unused [OF ok] l l' m(1) in auto)
    then have used: "used_areas (sextents s2 ps2) = used_areas (sextents s ps)" using l l' by simp
    then have "m_used s2 = m_used s" using vm_okD(1) [OF ok] vm_okD(1) [OF u(2)] by (simp add: space_def used_size_areas)
    moreover have "translate (m_directory s2) w = translate (m_directory s) w" if w: "w < 1048576" for w
    proof (cases "page_in ?vr w")
      case True
      have ie: "in_extent vr x \<Longrightarrow> range_start (vr_range vr) mod 4096 = 0" for vr x by (simp add: in_extent_def)
      have "(a, ?n, vm) \<in> set (used_areas (sextents s1 ps1))" using l(2) by simp
      then obtain x where x: "x \<in> set (live (sextents s1 ps1))" "x_vm x = vm" using vm0 by (auto simp: used_areas_def)
      have "in_extent ?vr x" by (rule regions_okD [OF vm_okD(8) [OF m(2)] x(1)]) (use x h in simp)
      then have "a mod 4096 = 0" using ie by (fastforce simp: mapped_region_def)
      then have "a \<le> 4096 * w" "4096 * w < a + ?n" using True page_in_iff [of ?vr w] m(4) by (auto simp: mapped_region_def)
      then have "translate (m_directory s) w = None" by (rule area_untranslated [OF ok free])
      then show ?thesis using True u(3) h w by (simp add: region_removed_def unmaps_def)
    next
      case False
      then show ?thesis using u(3) h w tr by (simp add: region_removed_def unmaps_def maps_def)
    qed
    ultimately show ?thesis
      using u(1) used vm_okD(2) [OF ok] vm_okD(2) [OF u(2)] vm_reach.unmap [OF vm_reach.map [OF reach req run] vm0 u(1)] by blast
  qed
qed

theorem map_unmap_restores_witness:
  "\<exists>vm s1 s2. map_object 9 example_object example_prot null_range 0 example_space = Inr (vm, s1) \<and> translate (m_directory s1) 1 = Some (7, True) \<and>
     unmap_region vm s1 = Inr s2 \<and> translate (m_directory s2) 1 = None"
proof (rule example_mapped)
  fix s1
  assume m: "map_object 9 example_object example_prot null_range 0 example_space = Inr (1, s1)" "translate (m_directory s1) 1 = Some (7, True)"
  obtain s2 where s2: "unmap_region 1 s1 = Inr s2" "\<forall>w < 1048576. translate (m_directory s2) w = translate (m_directory example_space) w"
    using map_unmap_restores [OF example_reach example_request(1) m(1)] by blast
  have "translate (m_directory example_space) 1 = None" by (simp add: example_space_def vmspace_new_def example_directory)
  then have "translate (m_directory s2) 1 = None" using s2(2) by simp
  then show ?thesis using m s2(1) by blast
qed

text \<open>
  C36. \<open>map_stack\<close> in a space with any history puts the object into the highest free area that is large
  enough, and changes nothing else. If there is no such area it reads through a null pointer instead
  of returning \<open>ENOMEM\<close>.
\<close>

theorem map_stack_highest:
  assumes "vm_reach s" "object_ok obj" "0 < obj_size obj" "prot_read prot" "0 < m_start s"
  shows "\<exists>ps. vm_ok s ps \<and>
    (if \<exists>b. area_free s (sextents s ps) b (obj_size obj)
     then \<exists>a s' ps'. map_stack ob obj prot s = Inr (vr_fresh s, s') \<and> vm_reach s' \<and> slinked s' ps' \<and>
       region_added s ps a (obj_size obj) (mapped_region ob a (obj_size obj) 0 prot) obj s' ps' \<and>
       (\<forall>b. area_free s (sextents s ps) b (obj_size obj) \<longrightarrow> b \<le> a)
     else map_stack ob obj prot s = Inl Undefined)"
proof -
  obtain ps where ok: "vm_ok s ps" using vm_reach_ok [OF assms(1)] by blast
  show ?thesis
  proof (rule map_stack_ok [OF ok assms(2-5), of ob])
    fix a s' ps'
    assume m: "map_stack ob obj prot s = Inr (vr_fresh s, s')" "vm_ok s' ps'"
      "region_added s ps a (obj_size obj) (mapped_region ob a (obj_size obj) 0 prot) obj s' ps'"
      "\<forall>b. area_free s (sextents s ps) b (obj_size obj) \<longrightarrow> b \<le> a"
    have "area_free s (sextents s ps) a (obj_size obj)" using m(3) by (simp add: region_added_def)
    moreover have "vm_reach s'" by (rule vm_reach.stack [OF assms m(1)])
    ultimately show ?thesis using ok m vm_okD(2) [OF m(2)] by (intro exI [of _ ps]) auto
  qed (use ok in auto)
qed

theorem map_stack_highest_witness:
  "(\<exists>s'. map_stack 9 example_object example_prot example_space = Inr (vr_fresh example_space, s')) \<and>
   map_stack 9 \<lparr>physical_pages = replicate 4 7, cow_pages = bitmap_new 4 False, obj_size = 16384\<rparr> example_prot example_space = Inl Undefined"
proof -
  let ?big = "\<lparr>physical_pages = replicate 4 7, cow_pages = bitmap_new 4 False, obj_size = 16384\<rparr>"
  have e: "0 < m_start example_space" "prot_read example_prot" "m_size example_space = 12288" "0 < obj_size example_object" "obj_size example_object = 4096"
    by (simp_all add: example_space_def vmspace_new_def example_prot_def example_object_def)
  have big: "object_ok ?big" "0 < obj_size ?big" using bitmap_new_ok(1) [where n = 4 and v = False] by (simp_all add: object_ok_def)
  obtain ps where ps: "vm_ok example_space ps" and run: "if \<exists>b. area_free example_space (sextents example_space ps) b (obj_size example_object)
     then \<exists>a s' ps'. map_stack 9 example_object example_prot example_space = Inr (vr_fresh example_space, s') \<and> vm_reach s' \<and> slinked s' ps' \<and>
       region_added example_space ps a (obj_size example_object) (mapped_region 9 a (obj_size example_object) 0 example_prot) example_object s' ps' \<and>
       (\<forall>b. area_free example_space (sextents example_space ps) b (obj_size example_object) \<longrightarrow> b \<le> a)
     else map_stack 9 example_object example_prot example_space = Inl Undefined"
    using map_stack_highest [OF example_reach example_object_ok(1) e(4,2,1)] by blast
  have "\<exists>b. area_free example_space (sextents example_space ps) b (obj_size example_object)" using example_free [OF ps] e(5) by auto
  then have "\<exists>s'. map_stack 9 example_object example_prot example_space = Inr (vr_fresh example_space, s')" using run by auto
  moreover have "\<not> area_free example_space xs b (obj_size ?big)" for xs b using e(3) by (simp add: area_free_def)
  then have "map_stack 9 ?big example_prot example_space = Inl Undefined" using map_stack_highest [OF example_reach big e(2,1), of 9] by simp
  ultimately show ?thesis by blast
qed

text \<open>
  C20. A page fault inside a region that starts at the beginning of its object, an
  \<open>AnonymousVMObject\<close>, of a kind that the region permits, is resolved if a frame is available: the handler returns, the page of the object has a frame, and the
  directory maps the address to it with the write permission of the region, so that the access
  succeeds when it is repeated. A page without frame and a copy-on-write page of a writable region
  get the new frame, every other page keeps its own. No other page of the address space and no other
  object changes.
\<close>

theorem pagefault_resolved:
  assumes reach: "vm_reach s" and g: "get_region_containing address s = Inr vm" and vr: "vr_heap s vm = Some vr"
    and c: "range_contains (vr_range vr) address" and w: "whole_object vr (objects (vr_object vr))"
    and al: "fault_allowed (vr_prot vr) type" and f: "0 < f" "f < 1048576" and ad: "address < 4294967296"
    and fr: "\<forall>p \<in> set (physical_pages (objects (vr_object vr))). p < 1048576"
  shows "\<exists>k ob' s'. k = (address - range_start (vr_range vr)) div 4096 \<and>
    try_pagefault (Inr f) address type objects s = Inr (objects(vr_object vr := ob'), s') \<and> vm_reach s' \<and>
    fault_object (vr_prot vr) (objects (vr_object vr)) k f ob' \<and> physical_pages ob' ! k \<noteq> 0 \<and>
    is_mapped (m_directory s') address (prot_write (vr_prot vr)) \<and>
    get_physaddr (m_directory s') address = physical_pages ob' ! k * 4096 + address mod 4096 \<and>
    (\<forall>v < 1048576. v \<noteq> address div 4096 \<longrightarrow> translate (m_directory s') v = translate (m_directory s) v)"
proof -
  let ?k = "(address - range_start (vr_range vr)) div 4096" and ?o = "objects (vr_object vr)"
  obtain ps where ok: "vm_ok s ps" using vm_reach_ok [OF reach] by blast
  obtain x where x: "x \<in> set (live (sextents s ps))" "vr_heap s (x_vm x) = Some vr"
    "range_start (vr_range vr) \<le> address" "address < range_start (vr_range vr) + range_size (vr_range vr)"
    by (rule fault_region [OF ok g vr c])
  have wo: "object_ok ?o" "cow_ok ?o" "object_start vr = 0" "range_size (vr_range vr) \<le> obj_size ?o"
    using w by (simp_all add: whole_object_def)
  obtain ob' s' where r: "try_pagefault (Inr f) address type objects s = Inr (objects(vr_object vr := ob'), s')"
    "fault_object (vr_prot vr) ?o ?k f ob'" "vm_ok s' ps" "fault_mapped s vr address (physical_pages ob' ! ?k) s'"
    using pagefault_ok [where objects = objects, OF ok x refl wo al f(1)] by blast
  have kl: "?k < length (physical_pages ?o)" using x wo by (auto simp: object_ok_def div_less_iff_less_mult)
  have fk: "physical_pages ob' ! ?k \<noteq> 0 \<and> physical_pages ob' ! ?k < 1048576"
    using r(2) kl f fr by (auto simp: fault_object_def needs_frame_def)
  have pg: "address div 4096 < 1048576" using ad by (simp add: div_less_iff_less_mult)
  then have t: "translate (m_directory s') (address div 4096) = Some (physical_pages ob' ! ?k, prot_write (vr_prot vr))"
    using r(4) fk by (simp add: fault_mapped_def)
  note pd = vm_okD(6) [OF r(3)]
  have "is_mapped (m_directory s') address (prot_write (vr_prot vr))" using is_mapped_ok [OF pd ad] t by simp
  moreover have "get_physaddr (m_directory s') address = physical_pages ob' ! ?k * 4096 + address mod 4096" using get_physaddr_ok [OF pd ad] t by simp
  moreover have "maps_inside vr ?o address"
    using wo(3) x(3,4) regions_okD [OF vm_okD(8) [OF ok] x(1,2)] by (auto simp: maps_inside_def region_pages_def in_extent_def div_less_iff_less_mult)
  then have "vm_reach s'" by (rule vm_reach.fault [OF reach g vr _ r(1)])
  moreover have "\<forall>v < 1048576. v \<noteq> address div 4096 \<longrightarrow> translate (m_directory s') v = translate (m_directory s) v"
    using r(4) by (simp add: fault_mapped_def)
  ultimately show ?thesis using r(1,2) fk by blast
qed

theorem pagefault_resolved_witness:
  "\<exists>s s' ob'. vm_reach s \<and> try_pagefault (Inr 8) 4100 Fault_Write (\<lambda>_. example_object) s = Inr ((\<lambda>_. example_object)(9 := ob'), s') \<and>
     get_physaddr (m_directory s') 4100 = physical_pages ob' ! 0 * 4096 + 4"
proof (rule example_mapped)
  fix s
  assume s: "vm_reach s" "vr_heap s 1 = Some (mapped_region 9 4096 4096 0 example_prot)" "get_region_containing 4100 s = Inr 1"
  let ?vr = "mapped_region 9 4096 4096 0 example_prot"
  have "range_contains (vr_range ?vr) 4100" by (simp add: range_contains_def range_end_def mapped_region_def)
  moreover have "whole_object ?vr example_object" using example_object_ok by (simp add: whole_object_def mapped_region_def example_object_def)
  moreover have "fault_allowed (vr_prot ?vr) Fault_Write" by (simp add: fault_allowed_def mapped_region_def example_prot_def)
  moreover have "\<forall>p \<in> set (physical_pages example_object). p < 1048576" by (simp add: example_object_def)
  ultimately show ?thesis
    using pagefault_resolved [OF s(1,3,2), of "\<lambda>_. example_object" Fault_Write 8] s(1) by (auto simp: mapped_region_def)
qed

text \<open>
  In a region that starts inside its object a fault on a page that the object holds already is
  not resolved: whenever the handler returns success, the page of the fault has the translation it
  had before, because the page mapped is the one that lies \<open>object_start\<close> further.
\<close>

lemma pagefault_offset_unresolved:
  assumes "vm_reach s" "get_region_containing address s = Inr vm" "vr_heap s vm = Some vr" "range_contains (vr_range vr) address"
    and "object_ok (objects (vr_object vr))" "object_start vr = 4096 * j" "0 < j"
    and "4096 * j + range_size (vr_range vr) \<le> obj_size (objects (vr_object vr))"
    and "physical_pages (objects (vr_object vr)) ! ((address - range_start (vr_range vr)) div 4096 + j) \<noteq> 0"
    and "try_pagefault alloc address type objects s = Inr (objects', s')"
  shows "translate (m_directory s') (address div 4096) = translate (m_directory s) (address div 4096)"
proof -
  obtain ps where ok: "vm_ok s ps" using vm_reach_ok [OF assms(1)] by blast
  obtain x where x: "x \<in> set (live (sextents s ps))" "vr_heap s (x_vm x) = Some vr"
    "range_start (vr_range vr) \<le> address" "address < range_start (vr_range vr) + range_size (vr_range vr)"
    by (rule fault_region [OF ok assms(2-4)])
  show ?thesis by (rule fault_offset [where objects = objects, OF ok x assms(5-10)])
qed

lemma fault_dispatch:
  assumes g: "get_region_containing address s = Inr vm" and vr: "vr_heap s vm = Some vr" "range_contains (vr_range vr) address" "fault_allowed (vr_prot vr) type"
  shows "try_pagefault alloc address type objects s = fault_in_region alloc (sub32 address (range_start (vr_range vr)) div 4096) vr objects s"
proof -
  obtain p c where "sr_find s (\<lambda>r. sr_contains r address) = Inr p" "p \<noteq> 0" "sr_heap s p = Some c" "sr_vm c = vm" "vm \<noteq> 0"
    using g by (auto simp: get_region_containing_def region_found_def sr_node_def rbind_eq_Inr_iff split: if_splits option.splits)
  then show ?thesis using vr by (cases type) (simp_all add: try_pagefault_def sr_node_eq vr_node_def fault_allowed_def)
qed

lemma pagefault_offset_unresolved_witness:
  "\<exists>s s' objects'. vm_reach s \<and>
     try_pagefault (Inr 8) 4100 Fault_Read (\<lambda>_. \<lparr>physical_pages = [5, 6, 7], cow_pages = bitmap_new 3 False, obj_size = 12288\<rparr>) s = Inr (objects', s') \<and>
     translate (m_directory s') 1 = None \<and> translate (m_directory s') 2 = Some (7, True)"
proof -
  let ?cow = "bitmap_new 3 False" and ?rg = "\<lparr>range_start = 0, range_size = 4096\<rparr>"
  let ?old = "\<lparr>physical_pages = [5, 0, 7], cow_pages = ?cow, obj_size = 12288\<rparr>" and ?now = "\<lparr>physical_pages = [5, 6, 7], cow_pages = ?cow, obj_size = 12288\<rparr>"
  let ?vr = "mapped_region 9 4096 4096 4096 example_prot"
  have room: "3 \<le> bitmap_room ?cow" and bits: "i < 3 \<Longrightarrow> \<not> bitmap_bit ?cow i" for i
    using bitmap_new_ok [where n = 3 and v = False] by auto
  have req: "map_request ?old example_prot ?rg 4096" "range_start ?rg = 0" "map_size ?old ?rg 4096 = 4096" "map_args_ok ?old ?rg 4096"
    using room by (simp_all add: map_request_def object_ok_def example_prot_def map_size_def map_args_ok_def)
  obtain s where s: "vm_reach s" "vr_heap s 1 = Some ?vr" "maps example_space ?vr ?old s" "get_region_containing 4100 s = Inr 1" "m_start s = 4096"
    by (rule example_map [OF req])
  have "translate (m_directory s) 1 = translate (m_directory example_space) 1"
    using s(3) by (simp add: maps_def frame_at_def region_vpage_def mapped_region_def)
  then have none: "translate (m_directory s) 1 = None" by (simp add: example_space_def vmspace_new_def example_directory)
  obtain ps where ok: "vm_ok s ps" using vm_reach_ok [OF s(1)] by blast
  have c: "range_contains (vr_range ?vr) 4100" "fault_allowed (vr_prot ?vr) Fault_Read"
    by (simp_all add: range_contains_def range_end_def mapped_region_def fault_allowed_def example_prot_def)
  have user: "own_page (m_directory s) 2"
    using vm_okD(7) [OF ok] s(5) by (cases "m_type (m_directory s)") (auto simp: own_page_def in_half_def HIGHER_HALF_def)
  have fits: "region_fits (m_directory s) ?vr k \<and> object_covers ?vr ?now k" if "k \<in> set [1]" for k
    using that user room by (simp add: region_fits_def object_covers_def mapped_region_def region_vpage_def numeral_2_eq_2)
  have v: "region_vpage ?vr = 1" "frame_at ?vr ?now 1 = 7" by (simp_all add: mapped_region_def region_vpage_def frame_at_def)
  obtain pd where pd: "pd_map_loop ?vr ?now [1] (m_directory s) = Inr pd"
    "\<forall>w < 1048576. translate pd w = (if \<exists>k \<in> set [1]. w = region_vpage ?vr + k \<and> frame_at ?vr ?now k \<noteq> 0
       then Some (page_mapping ?vr ?now (w - region_vpage ?vr)) else translate (m_directory s) w)"
    using pd_map_loop_ok [OF vm_okD(6) [OF ok] distinct_singleton fits] by blast
  have two: "translate pd 2 = Some (page_mapping ?vr ?now 1)" using pd(2) v by simp
  have "pd_map (m_directory s) ?vr ?now \<lparr>range_start = 4096, range_size = 4096\<rparr> = Inr pd"
    using pd(1) by (simp add: pd_map_def Let_def range_pages_def whole_if_null_def range_asserts_def range_end_def mapped_region_def example_prot_def upt_rec del: pd_map_loop.simps)
  then have run: "try_pagefault (Inr 8) 4100 Fault_Read (\<lambda>_. ?now) s = Inr ((\<lambda>_. ?now)(9 := ?now), s\<lparr>m_directory := pd\<rparr>)"
    unfolding fault_dispatch [OF s(4,2) c] using room bits bitmap_get_ok [of 1 ?cow]
    by (simp add: fault_in_region_def mapped_region_def Let_def object_physical_page_def example_prot_def)
  have "translate (m_directory (s\<lparr>m_directory := pd\<rparr>)) (4100 div 4096) = translate (m_directory s) (4100 div 4096)"
    by (rule pagefault_offset_unresolved [OF s(1,4,2) c(1) _ _ _ _ _ run, of 1]) (use room in \<open>simp_all add: object_ok_def mapped_region_def\<close>)
  moreover have "page_mapping ?vr ?now 1 = (7, True)" using bits by (simp add: page_mapping_def frame_at_def mapped_region_def example_prot_def)
  ultimately show ?thesis using s(1) run two none by auto
qed

end
