(* ===== verification/UxnMachine.thy ===== *)
theory UxnMachine
  imports Prelude "HOL-Library.Word"
begin

text \<open>
  The Uxn virtual machine (\<open>src/programs/applications/uxn\<close>): a stack machine with two stacks of 256
  bytes, a memory of 64000 bytes and a console. Stack pointers, values and the program counter are
  kept at their width, so they wrap as in the code; an access outside a stack array or the memory
  and a division by zero are \<^const>\<open>Undefined\<close>. The output for debugging is left out.
\<close>

unbundle bit_operations_syntax

section \<open>State\<close>

record ustack =
  u_ptr :: "8 word"
  u_mem :: "8 word list"

datatype opcode =
    Op_LIT | Op_INC | Op_POP | Op_DUP | Op_NIP | Op_SWP | Op_OVR | Op_ROT | Op_EQU | Op_NEQ | Op_GTH | Op_LTH | Op_JMP | Op_JCN | Op_JSR | Op_STH
  | Op_LDZ | Op_STZ | Op_LDR | Op_STR | Op_LDA | Op_STA | Op_DEI | Op_DEO | Op_ADD | Op_SUB | Op_MUL | Op_DIV | Op_AND | Op_ORA | Op_EOR | Op_SFT

definition opcodes :: "opcode list" where
  "opcodes = [Op_LIT, Op_INC, Op_POP, Op_DUP, Op_NIP, Op_SWP, Op_OVR, Op_ROT, Op_EQU, Op_NEQ, Op_GTH, Op_LTH, Op_JMP, Op_JCN, Op_JSR, Op_STH,
     Op_LDZ, Op_STZ, Op_LDR, Op_STR, Op_LDA, Op_STA, Op_DEI, Op_DEO, Op_ADD, Op_SUB, Op_MUL, Op_DIV, Op_AND, Op_ORA, Op_EOR, Op_SFT]"

record operation =
  o_opcode :: opcode
  o_shrt :: bool
  o_ret :: bool
  o_keep :: bool

definition operation_of :: "8 word \<Rightarrow> operation" where
  "operation_of b = \<lparr>o_opcode = opcodes ! unat (b AND 31), o_shrt = bit b 5, o_ret = bit b 6, o_keep = bit b 7\<rparr>"

text \<open>Of the 16 devices only number 1, the console, is there; its streams are part of the state.\<close>

record uxn =
  u_memory :: "8 word list"
  working_stack :: ustack
  return_stack :: ustack
  u_pc :: "16 word"
  u_stdin :: "8 word list"
  u_stdout :: "8 word list"

text \<open>The constructor; it does not set the stack pointers.\<close>

definition uxn_new :: "8 word \<Rightarrow> 8 word \<Rightarrow> 8 word list \<Rightarrow> uxn" where
  "uxn_new wptr rptr input =
     \<lparr>u_memory = replicate 64000 0, working_stack = \<lparr>u_ptr = wptr, u_mem = replicate 256 0\<rparr>,
      return_stack = \<lparr>u_ptr = rptr, u_mem = replicate 256 0\<rparr>, u_pc = 256, u_stdin = input, u_stdout = []\<rparr>"

section \<open>The helpers of a step\<close>

text \<open>
  An instruction works on the machine and on \<open>tmp_ptr\<close>, which replaces the pointer of the source
  stack for pops in keep mode.
\<close>

record uctx =
  machine :: uxn
  tmp_ptr :: "8 word"

definition src_stack :: "operation \<Rightarrow> uxn \<Rightarrow> ustack" where
  "src_stack op m = (if o_ret op then return_stack m else working_stack m)"

definition dst_stack :: "operation \<Rightarrow> uxn \<Rightarrow> ustack" where
  "dst_stack op m = (if o_ret op then working_stack m else return_stack m)"

definition set_src :: "operation \<Rightarrow> ustack \<Rightarrow> uxn \<Rightarrow> uxn" where
  "set_src op st m = (if o_ret op then m\<lparr>return_stack := st\<rparr> else m\<lparr>working_stack := st\<rparr>)"

definition set_dst :: "operation \<Rightarrow> ustack \<Rightarrow> uxn \<Rightarrow> uxn" where
  "set_dst op st m = (if o_ret op then m\<lparr>working_stack := st\<rparr> else m\<lparr>return_stack := st\<rparr>)"

definition src_ptr :: "operation \<Rightarrow> uctx \<Rightarrow> 8 word" where
  "src_ptr op c = (if o_keep op then tmp_ptr c else u_ptr (src_stack op (machine c)))"

definition set_src_ptr :: "operation \<Rightarrow> 8 word \<Rightarrow> uctx \<Rightarrow> uctx" where
  "set_src_ptr op p c =
     (if o_keep op then c\<lparr>tmp_ptr := p\<rparr> else c\<lparr>machine := set_src op (src_stack op (machine c)\<lparr>u_ptr := p\<rparr>) (machine c)\<rparr>)"

definition byte_at :: "8 word list \<Rightarrow> nat \<Rightarrow> 8 word result" where
  "byte_at xs i = (if i < length xs then Inr (xs ! i) else Inl Undefined)"

definition put_byte :: "nat \<Rightarrow> 8 word \<Rightarrow> 8 word list \<Rightarrow> 8 word list result" where
  "put_byte i v xs = (if i < length xs then Inr (xs[i := v]) else Inl Undefined)"

definition word16 :: "8 word \<Rightarrow> 8 word \<Rightarrow> 16 word" where
  "word16 hi lo = push_bit 8 (ucast hi) + ucast lo"

definition push8 :: "8 word \<Rightarrow> ustack \<Rightarrow> ustack result" where
  "push8 v st = rbind (put_byte (unat (u_ptr st)) v (u_mem st)) (\<lambda>mem. Inr \<lparr>u_ptr = u_ptr st + 1, u_mem = mem\<rparr>)"

definition push16 :: "16 word \<Rightarrow> ustack \<Rightarrow> ustack result" where
  "push16 v st =
     rbind (put_byte (unat (u_ptr st)) (ucast (drop_bit 8 v)) (u_mem st)) (\<lambda>mem.
     rbind (put_byte (unat (u_ptr st) + 1) (ucast v) mem) (\<lambda>mem'. Inr \<lparr>u_ptr = u_ptr st + 2, u_mem = mem'\<rparr>))"

definition push_val :: "operation \<Rightarrow> 16 word \<Rightarrow> ustack \<Rightarrow> ustack result" where
  "push_val op v st = (if o_shrt op then push16 v st else push8 (ucast v) st)"

definition pop8 :: "operation \<Rightarrow> uctx \<Rightarrow> (16 word \<times> uctx) result" where
  "pop8 op c =
     (let p = src_ptr op c - 1 in
      rbind (byte_at (u_mem (src_stack op (machine c))) (unat p)) (\<lambda>v. Inr (ucast v, set_src_ptr op p c)))"

definition pop16 :: "operation \<Rightarrow> uctx \<Rightarrow> (16 word \<times> uctx) result" where
  "pop16 op c =
     (let p = src_ptr op c - 2; mem = u_mem (src_stack op (machine c)) in
      rbind (byte_at mem (unat p)) (\<lambda>hi. rbind (byte_at mem (unat p + 1)) (\<lambda>lo. Inr (word16 hi lo, set_src_ptr op p c))))"

definition pop_val :: "operation \<Rightarrow> uctx \<Rightarrow> (16 word \<times> uctx) result" where
  "pop_val op c = (if o_shrt op then pop16 op c else pop8 op c)"

definition peek :: "operation \<Rightarrow> uctx \<Rightarrow> 16 word \<Rightarrow> 16 word result" where
  "peek op c addr =
     (let mem = u_memory (machine c) in
      if o_shrt op then rbind (byte_at mem (unat addr)) (\<lambda>hi. rbind (byte_at mem (unat addr + 1)) (\<lambda>lo. Inr (word16 hi lo)))
      else rbind (byte_at mem (unat addr)) (\<lambda>v. Inr (ucast v)))"

definition poke :: "operation \<Rightarrow> 16 word \<Rightarrow> 16 word \<Rightarrow> uctx \<Rightarrow> uctx result" where
  "poke op addr val c =
     (let m = machine c in
      rbind (if o_shrt op
             then rbind (put_byte (unat addr) (ucast (drop_bit 8 val)) (u_memory m)) (put_byte (unat addr + 1) (ucast val))
             else put_byte (unat addr) (ucast val) (u_memory m)) (\<lambda>mem.
      Inr (c\<lparr>machine := m\<lparr>u_memory := mem\<rparr>\<rparr>)))"

definition relative :: "16 word \<Rightarrow> 16 word \<Rightarrow> 16 word" where
  "relative pc v = pc + scast (ucast v :: 8 word)"

definition set_pc :: "16 word \<Rightarrow> uctx \<Rightarrow> uctx" where
  "set_pc p c = c\<lparr>machine := machine c\<lparr>u_pc := p\<rparr>\<rparr>"

definition jmp :: "operation \<Rightarrow> 16 word \<Rightarrow> uctx \<Rightarrow> uctx" where
  "jmp op val c = (if o_shrt op then set_pc val c else set_pc (relative (u_pc (machine c)) val) c)"

text \<open>The calls of a push on one of the two stacks.\<close>

definition to_src :: "operation \<Rightarrow> (ustack \<Rightarrow> ustack result) \<Rightarrow> uctx \<Rightarrow> uctx result" where
  "to_src op f c = rbind (f (src_stack op (machine c))) (\<lambda>st. Inr (c\<lparr>machine := set_src op st (machine c)\<rparr>))"

definition to_dst :: "operation \<Rightarrow> (ustack \<Rightarrow> ustack result) \<Rightarrow> uctx \<Rightarrow> uctx result" where
  "to_dst op f c = rbind (f (dst_stack op (machine c))) (\<lambda>st. Inr (c\<lparr>machine := set_dst op st (machine c)\<rparr>))"

section \<open>Devices\<close>

definition console_read :: "16 word \<Rightarrow> uxn \<Rightarrow> 16 word \<times> uxn" where
  "console_read addr m =
     (if addr = 2 then (case u_stdin m of [] \<Rightarrow> (0, m) | x # xs \<Rightarrow> (ucast x, m\<lparr>u_stdin := xs\<rparr>)) else (0, m))"

definition console_write :: "16 word \<Rightarrow> 16 word \<Rightarrow> uxn \<Rightarrow> uxn" where
  "console_write addr val m = (if addr = 8 then m\<lparr>u_stdout := u_stdout m @ [ucast val]\<rparr> else m)"

definition has_device :: "16 word \<Rightarrow> bool" where
  "has_device b \<longleftrightarrow> b = 1"

section \<open>A step\<close>

definition binary :: "operation \<Rightarrow> (16 word \<Rightarrow> 16 word \<Rightarrow> 16 word) \<Rightarrow> uctx \<Rightarrow> uctx result" where
  "binary op f c = rbind (pop_val op c) (\<lambda>(a, c). rbind (pop_val op c) (\<lambda>(b, c). to_src op (push_val op (f b a)) c))"

definition compare :: "operation \<Rightarrow> (16 word \<Rightarrow> 16 word \<Rightarrow> bool) \<Rightarrow> uctx \<Rightarrow> uctx result" where
  "compare op P c = rbind (pop_val op c) (\<lambda>(a, c). rbind (pop_val op c) (\<lambda>(b, c). to_src op (push8 (if P b a then 1 else 0)) c))"

definition uxn_exec :: "operation \<Rightarrow> uctx \<Rightarrow> uctx result" where
  "uxn_exec op c =
     (let push = (\<lambda>v. to_src op (push_val op v)); pop = pop_val op; pc = u_pc (machine c) in
      case o_opcode op of
        Op_LIT \<Rightarrow> rbind (peek op c pc) (\<lambda>v. rbind (push v c) (\<lambda>c. Inr (set_pc (pc + (if o_shrt op then 2 else 1)) c)))
      | Op_INC \<Rightarrow> rbind (pop c) (\<lambda>(a, c). push (a + 1) c)
      | Op_POP \<Rightarrow> rbind (pop c) (\<lambda>(a, c). Inr c)
      | Op_DUP \<Rightarrow> rbind (pop c) (\<lambda>(a, c). rbind (push a c) (push a))
      | Op_NIP \<Rightarrow> rbind (pop c) (\<lambda>(a, c). rbind (pop c) (\<lambda>(b, c). push a c))
      | Op_SWP \<Rightarrow> rbind (pop c) (\<lambda>(a, c). rbind (pop c) (\<lambda>(b, c). rbind (push a c) (push b)))
      | Op_OVR \<Rightarrow> rbind (pop c) (\<lambda>(a, c). rbind (pop c) (\<lambda>(b, c). rbind (push b c) (\<lambda>c. rbind (push a c) (push b))))
      | Op_ROT \<Rightarrow> rbind (pop c) (\<lambda>(a, c). rbind (pop c) (\<lambda>(b, c). rbind (pop c) (\<lambda>(d, c). rbind (push b c) (\<lambda>c. rbind (push a c) (push d)))))
      | Op_EQU \<Rightarrow> compare op (\<lambda>b a. a = b) c
      | Op_NEQ \<Rightarrow> compare op (\<lambda>b a. a \<noteq> b) c
      | Op_GTH \<Rightarrow> compare op (\<lambda>b a. b > a) c
      | Op_LTH \<Rightarrow> compare op (\<lambda>b a. b < a) c
      | Op_JMP \<Rightarrow> rbind (pop c) (\<lambda>(a, c). Inr (jmp op a c))
      | Op_JCN \<Rightarrow> rbind (pop c) (\<lambda>(a, c). rbind (pop8 op c) (\<lambda>(t, c). Inr (if t \<noteq> 0 then jmp op a c else c)))
      | Op_JSR \<Rightarrow> rbind (to_dst op (push16 pc) c) (\<lambda>c. rbind (pop c) (\<lambda>(a, c). Inr (jmp op a c)))
      | Op_STH \<Rightarrow> rbind (pop c) (\<lambda>(a, c). to_dst op (push_val op a) c)
      | Op_LDZ \<Rightarrow> rbind (pop8 op c) (\<lambda>(a, c). rbind (peek op c a) (\<lambda>v. push v c))
      | Op_STZ \<Rightarrow> rbind (pop8 op c) (\<lambda>(a, c). rbind (pop c) (\<lambda>(v, c). poke op a v c))
      | Op_LDR \<Rightarrow> rbind (pop8 op c) (\<lambda>(a, c). rbind (peek op c (relative pc a)) (\<lambda>v. push v c))
      | Op_STR \<Rightarrow> rbind (pop8 op c) (\<lambda>(a, c). rbind (pop c) (\<lambda>(v, c). poke op (relative pc a) v c))
      | Op_LDA \<Rightarrow> rbind (pop16 op c) (\<lambda>(a, c). rbind (peek op c a) (\<lambda>v. push v c))
      | Op_STA \<Rightarrow> rbind (pop16 op c) (\<lambda>(a, c). rbind (pop c) (\<lambda>(v, c). poke op a v c))
      | Op_DEI \<Rightarrow> rbind (pop8 op c) (\<lambda>(a, c).
          if has_device (drop_bit 4 a)
          then (case console_read (a AND 15) (machine c) of (v, m) \<Rightarrow> push v (c\<lparr>machine := m\<rparr>))
          else push 0 c)
      | Op_DEO \<Rightarrow> rbind (pop8 op c) (\<lambda>(a, c).
          rbind (pop c) (\<lambda>(v, c).
          Inr (if has_device (drop_bit 4 a) then c\<lparr>machine := console_write (a AND 15) v (machine c)\<rparr> else c)))
      | Op_ADD \<Rightarrow> binary op (+) c
      | Op_SUB \<Rightarrow> binary op (-) c
      | Op_MUL \<Rightarrow> binary op (*) c
      | Op_DIV \<Rightarrow> rbind (pop c) (\<lambda>(a, c). rbind (pop c) (\<lambda>(b, c). if a = 0 then Inl Undefined else push (b div a) c))
      | Op_AND \<Rightarrow> binary op (AND) c
      | Op_ORA \<Rightarrow> binary op (OR) c
      | Op_EOR \<Rightarrow> binary op (XOR) c
      | Op_SFT \<Rightarrow> rbind (pop8 op c) (\<lambda>(a, c). rbind (pop c) (\<lambda>(b, c).
          push (push_bit (unat (drop_bit 4 (a AND 240))) (drop_bit (unat (a AND 15)) b)) c)))"

definition uxn_step :: "uxn \<Rightarrow> (bool \<times> uxn) result" where
  "uxn_step m =
     rbind (byte_at (u_memory m) (unat (u_pc m))) (\<lambda>b.
     let op = operation_of b; m1 = m\<lparr>u_pc := u_pc m + 1\<rparr> in
     if o_opcode op = Op_LIT \<and> \<not> o_keep op then Inr (False, m1)
     else
       rbind (uxn_exec (if o_opcode op = Op_LIT then op\<lparr>o_keep := False\<rparr> else op) \<lparr>machine = m1, tmp_ptr = u_ptr (src_stack op m1)\<rparr>) (\<lambda>c.
       Inr (True, machine c)))"

text \<open>
  Loading a program: \<open>file\<close> is what opening and reading the file gives. The loop of \<open>main\<close> may not
  end, and it also starts when the program could not be loaded.
\<close>

definition load_rom :: "8 word list result \<Rightarrow> uxn \<Rightarrow> uxn result" where
  "load_rom file m =
     rbind file (\<lambda>rom.
     if length rom > length (u_memory m) then Inl (Err ENOSPC)
     else if 256 + length rom > length (u_memory m) then Inl Undefined
     else Inr (m\<lparr>u_memory := take 256 (u_memory m) @ rom @ drop (256 + length rom) (u_memory m)\<rparr>))"

partial_function (option) uxn_run :: "uxn \<Rightarrow> uxn result option" where
  "uxn_run m =
     (case uxn_step m of
        Inl e \<Rightarrow> Some (Inl e)
      | Inr (go, m') \<Rightarrow> if go then uxn_run m' else Some (Inr m'))"

definition uxn_main :: "8 word \<Rightarrow> 8 word \<Rightarrow> 8 word list \<Rightarrow> 8 word list result \<Rightarrow> uxn result option" where
  "uxn_main wptr rptr input file =
     (let m = uxn_new wptr rptr input in
      case load_rom file m of
        Inr m' \<Rightarrow> uxn_run m'
      | Inl (Err e) \<Rightarrow> uxn_run m
      | Inl f \<Rightarrow> Some (Inl f))"

end
