(* ===== verification/UxnReference.thy ===== *)
theory UxnReference
  imports UxnMachine
begin

text \<open>
  The instruction set of Uxn in the form of its documentation: every instruction takes operands from
  the top of one stack, which stay there in keep mode, and adds its results. Stacks are lists with
  the top first. The interpreter implements this description wherever the description has a result:
  stacks do not underflow or exceed 255 bytes, memory accesses stay below the size of the memory,
  and no division is by zero.
\<close>

section \<open>The instruction set\<close>

record uxn_state =
  a_mem :: "8 word list"
  a_work :: "8 word list"
  a_return :: "8 word list"
  a_pc :: "16 word"
  a_in :: "8 word list"
  a_out :: "8 word list"

text \<open>The operands of an instruction, top first; \<open>True\<close> stands for two bytes.\<close>

fun operand_widths :: "opcode \<Rightarrow> bool \<Rightarrow> bool list" where
  "operand_widths Op_LIT w = []"
| "operand_widths Op_ROT w = [w, w, w]"
| "operand_widths Op_JCN w = [w, False]"
| "operand_widths Op_LDZ w = [False]"
| "operand_widths Op_LDR w = [False]"
| "operand_widths Op_LDA w = [True]"
| "operand_widths Op_DEI w = [False]"
| "operand_widths Op_STZ w = [False, w]"
| "operand_widths Op_STR w = [False, w]"
| "operand_widths Op_STA w = [True, w]"
| "operand_widths Op_DEO w = [False, w]"
| "operand_widths Op_SFT w = [False, w]"
| "operand_widths i w = (if i \<in> {Op_INC, Op_POP, Op_DUP, Op_JMP, Op_JSR, Op_STH} then [w] else [w, w])"

fun operands :: "bool list \<Rightarrow> 8 word list \<Rightarrow> (16 word list \<times> 8 word list) option" where
  "operands [] xs = Some ([], xs)"
| "operands (False # ws) (x # xs) = map_option (\<lambda>(vs, r). (ucast x # vs, r)) (operands ws xs)"
| "operands (True # ws) (lo # hi # xs) = map_option (\<lambda>(vs, r). (word16 hi lo # vs, r)) (operands ws xs)"
| "operands ws xs = None"

fun value_bytes :: "bool \<times> 16 word \<Rightarrow> 8 word list" where
  "value_bytes (w, v) = (if w then [ucast v, ucast (drop_bit 8 v)] else [ucast v])"

definition pushed :: "(bool \<times> 16 word) list \<Rightarrow> 8 word list \<Rightarrow> 8 word list" where
  "pushed vs xs = fold (\<lambda>v xs. value_bytes v @ xs) vs xs"

definition load :: "bool \<Rightarrow> 16 word \<Rightarrow> 8 word list \<Rightarrow> 16 word option" where
  "load w a mem =
     (if w then if unat a + 1 < length mem then Some (word16 (mem ! unat a) (mem ! (unat a + 1))) else None
      else if unat a < length mem then Some (ucast (mem ! unat a)) else None)"

definition store :: "bool \<Rightarrow> 16 word \<Rightarrow> 16 word \<Rightarrow> 8 word list \<Rightarrow> 8 word list option" where
  "store w a v mem =
     (if w then if unat a + 1 < length mem then Some (mem[unat a := ucast (drop_bit 8 v), unat a + 1 := ucast v]) else None
      else if unat a < length mem then Some (mem[unat a := ucast v]) else None)"

text \<open>What an instruction does with its operands: values for the source and the destination stack, and the rest of the state.\<close>

record uxn_effect =
  f_src :: "(bool \<times> 16 word) list"
  f_dst :: "(bool \<times> 16 word) list"
  f_mem :: "8 word list"
  f_pc :: "16 word"
  f_in :: "8 word list"
  f_out :: "8 word list"

definition no_effect :: "uxn_state \<Rightarrow> uxn_effect" where
  "no_effect s = \<lparr>f_src = [], f_dst = [], f_mem = a_mem s, f_pc = a_pc s, f_in = a_in s, f_out = a_out s\<rparr>"

definition jump :: "bool \<Rightarrow> 16 word \<Rightarrow> 16 word \<Rightarrow> 16 word" where
  "jump w pc a = (if w then a else relative pc a)"

definition with0 :: "'r option \<Rightarrow> 'a list \<Rightarrow> 'r option" where
  "with0 r vs = (case vs of [] \<Rightarrow> r | _ \<Rightarrow> None)"

definition with1 :: "('a \<Rightarrow> 'r option) \<Rightarrow> 'a list \<Rightarrow> 'r option" where
  "with1 f vs = (case vs of [a] \<Rightarrow> f a | _ \<Rightarrow> None)"

definition with2 :: "('a \<Rightarrow> 'a \<Rightarrow> 'r option) \<Rightarrow> 'a list \<Rightarrow> 'r option" where
  "with2 f vs = (case vs of [a, b] \<Rightarrow> f a b | _ \<Rightarrow> None)"

definition with3 :: "('a \<Rightarrow> 'a \<Rightarrow> 'a \<Rightarrow> 'r option) \<Rightarrow> 'a list \<Rightarrow> 'r option" where
  "with3 f vs = (case vs of [a, b, c] \<Rightarrow> f a b c | _ \<Rightarrow> None)"

definition instruction :: "opcode \<Rightarrow> bool \<Rightarrow> uxn_state \<Rightarrow> 16 word list \<Rightarrow> uxn_effect option" where
  "instruction i w s =
     (case i of
        Op_LIT \<Rightarrow> with0 (map_option (\<lambda>v. (no_effect s)\<lparr>f_src := [(w, v)], f_pc := a_pc s + (if w then 2 else 1)\<rparr>) (load w (a_pc s) (a_mem s)))
      | Op_INC \<Rightarrow> with1 (\<lambda>a. Some ((no_effect s)\<lparr>f_src := [(w, a + 1)]\<rparr>))
      | Op_POP \<Rightarrow> with1 (\<lambda>a. Some (no_effect s))
      | Op_DUP \<Rightarrow> with1 (\<lambda>a. Some ((no_effect s)\<lparr>f_src := [(w, a), (w, a)]\<rparr>))
      | Op_NIP \<Rightarrow> with2 (\<lambda>a b. Some ((no_effect s)\<lparr>f_src := [(w, a)]\<rparr>))
      | Op_SWP \<Rightarrow> with2 (\<lambda>a b. Some ((no_effect s)\<lparr>f_src := [(w, a), (w, b)]\<rparr>))
      | Op_OVR \<Rightarrow> with2 (\<lambda>a b. Some ((no_effect s)\<lparr>f_src := [(w, b), (w, a), (w, b)]\<rparr>))
      | Op_ROT \<Rightarrow> with3 (\<lambda>a b c. Some ((no_effect s)\<lparr>f_src := [(w, b), (w, a), (w, c)]\<rparr>))
      | Op_EQU \<Rightarrow> with2 (\<lambda>a b. Some ((no_effect s)\<lparr>f_src := [(False, if a = b then 1 else 0)]\<rparr>))
      | Op_NEQ \<Rightarrow> with2 (\<lambda>a b. Some ((no_effect s)\<lparr>f_src := [(False, if a \<noteq> b then 1 else 0)]\<rparr>))
      | Op_GTH \<Rightarrow> with2 (\<lambda>a b. Some ((no_effect s)\<lparr>f_src := [(False, if b > a then 1 else 0)]\<rparr>))
      | Op_LTH \<Rightarrow> with2 (\<lambda>a b. Some ((no_effect s)\<lparr>f_src := [(False, if b < a then 1 else 0)]\<rparr>))
      | Op_JMP \<Rightarrow> with1 (\<lambda>a. Some ((no_effect s)\<lparr>f_pc := jump w (a_pc s) a\<rparr>))
      | Op_JCN \<Rightarrow> with2 (\<lambda>a t. Some ((no_effect s)\<lparr>f_pc := (if t \<noteq> 0 then jump w (a_pc s) a else a_pc s)\<rparr>))
      | Op_JSR \<Rightarrow> with1 (\<lambda>a. Some ((no_effect s)\<lparr>f_dst := [(True, a_pc s)], f_pc := jump w (a_pc s) a\<rparr>))
      | Op_STH \<Rightarrow> with1 (\<lambda>a. Some ((no_effect s)\<lparr>f_dst := [(w, a)]\<rparr>))
      | Op_LDZ \<Rightarrow> with1 (\<lambda>a. map_option (\<lambda>v. (no_effect s)\<lparr>f_src := [(w, v)]\<rparr>) (load w a (a_mem s)))
      | Op_STZ \<Rightarrow> with2 (\<lambda>a v. map_option (\<lambda>mem. (no_effect s)\<lparr>f_mem := mem\<rparr>) (store w a v (a_mem s)))
      | Op_LDR \<Rightarrow> with1 (\<lambda>a. map_option (\<lambda>v. (no_effect s)\<lparr>f_src := [(w, v)]\<rparr>) (load w (relative (a_pc s) a) (a_mem s)))
      | Op_STR \<Rightarrow> with2 (\<lambda>a v. map_option (\<lambda>mem. (no_effect s)\<lparr>f_mem := mem\<rparr>) (store w (relative (a_pc s) a) v (a_mem s)))
      | Op_LDA \<Rightarrow> with1 (\<lambda>a. map_option (\<lambda>v. (no_effect s)\<lparr>f_src := [(w, v)]\<rparr>) (load w a (a_mem s)))
      | Op_STA \<Rightarrow> with2 (\<lambda>a v. map_option (\<lambda>mem. (no_effect s)\<lparr>f_mem := mem\<rparr>) (store w a v (a_mem s)))
      | Op_DEI \<Rightarrow> with1 (\<lambda>a. Some (if a = 18 then (case a_in s of [] \<Rightarrow> (no_effect s)\<lparr>f_src := [(w, 0)]\<rparr> | x # xs \<Rightarrow> (no_effect s)\<lparr>f_src := [(w, ucast x)], f_in := xs\<rparr>)
            else (no_effect s)\<lparr>f_src := [(w, 0)]\<rparr>))
      | Op_DEO \<Rightarrow> with2 (\<lambda>a v. Some (if a = 24 then (no_effect s)\<lparr>f_out := a_out s @ [ucast v]\<rparr> else no_effect s))
      | Op_ADD \<Rightarrow> with2 (\<lambda>a b. Some ((no_effect s)\<lparr>f_src := [(w, b + a)]\<rparr>))
      | Op_SUB \<Rightarrow> with2 (\<lambda>a b. Some ((no_effect s)\<lparr>f_src := [(w, b - a)]\<rparr>))
      | Op_MUL \<Rightarrow> with2 (\<lambda>a b. Some ((no_effect s)\<lparr>f_src := [(w, b * a)]\<rparr>))
      | Op_DIV \<Rightarrow> with2 (\<lambda>a b. (if a = 0 then None else Some ((no_effect s)\<lparr>f_src := [(w, b div a)]\<rparr>)))
      | Op_AND \<Rightarrow> with2 (\<lambda>a b. Some ((no_effect s)\<lparr>f_src := [(w, b AND a)]\<rparr>))
      | Op_ORA \<Rightarrow> with2 (\<lambda>a b. Some ((no_effect s)\<lparr>f_src := [(w, b OR a)]\<rparr>))
      | Op_EOR \<Rightarrow> with2 (\<lambda>a b. Some ((no_effect s)\<lparr>f_src := [(w, b XOR a)]\<rparr>))
      | Op_SFT \<Rightarrow> with2 (\<lambda>a b. Some ((no_effect s)\<lparr>f_src := [(w, push_bit (unat (drop_bit 4 a) mod 16) (drop_bit (unat a mod 16) b))]\<rparr>)))"

definition ref_exec :: "operation \<Rightarrow> uxn_state \<Rightarrow> uxn_state option" where
  "ref_exec op s =
     (let src = (if o_ret op then a_return s else a_work s); dst = (if o_ret op then a_work s else a_return s) in
      case operands (operand_widths (o_opcode op) (o_shrt op)) src of
        None \<Rightarrow> None
      | Some (vs, rest) \<Rightarrow>
          (case instruction (o_opcode op) (o_shrt op) s vs of
             None \<Rightarrow> None
           | Some e \<Rightarrow>
               let src' = pushed (f_src e) (if o_keep op then src else rest); dst' = pushed (f_dst e) dst in
               if length src' < 256 \<and> length dst' < 256
               then Some \<lparr>a_mem = f_mem e, a_work = (if o_ret op then dst' else src'), a_return = (if o_ret op then src' else dst'),
                          a_pc = f_pc e, a_in = f_in e, a_out = f_out e\<rparr>
               else None))"

definition ref_step :: "uxn_state \<Rightarrow> (bool \<times> uxn_state) option" where
  "ref_step s =
     (if unat (a_pc s) < length (a_mem s) then
        let op = operation_of (a_mem s ! unat (a_pc s)); s1 = s\<lparr>a_pc := a_pc s + 1\<rparr> in
        if o_opcode op = Op_LIT \<and> \<not> o_keep op then Some (False, s1)
        else map_option (Pair True) (ref_exec (if o_opcode op = Op_LIT then op\<lparr>o_keep := False\<rparr> else op) s1)
      else None)"

section \<open>The interpreter in normal form\<close>

text \<open>
  Every instruction of the interpreter is: pop the operands, compute, push the results. This holds
  without any condition, because the only failure is \<^const>\<open>Undefined\<close>.
\<close>

fun pops :: "operation \<Rightarrow> bool list \<Rightarrow> uctx \<Rightarrow> (16 word list \<times> uctx) result" where
  "pops op [] c = Inr ([], c)"
| "pops op (w # ws) c = rbind (if w then pop16 op c else pop8 op c) (\<lambda>(v, c). rbind (pops op ws c) (\<lambda>(vs, c). Inr (v # vs, c)))"

definition push_width :: "bool \<times> 16 word \<Rightarrow> ustack \<Rightarrow> ustack result" where
  "push_width wv st = (case wv of (w, v) \<Rightarrow> if w then push16 v st else push8 (ucast v) st)"

definition view :: "uxn \<Rightarrow> uxn_state" where
  "view m = \<lparr>a_mem = u_memory m, a_work = [], a_return = [], a_pc = u_pc m, a_in = u_stdin m, a_out = u_stdout m\<rparr>"

definition apply_effect :: "uxn_effect \<Rightarrow> uctx \<Rightarrow> uctx" where
  "apply_effect e c = c\<lparr>machine := (machine c)\<lparr>u_memory := f_mem e, u_pc := f_pc e, u_stdin := f_in e, u_stdout := f_out e\<rparr>\<rparr>"

definition run_effect :: "operation \<Rightarrow> uctx \<Rightarrow> uxn_effect option \<Rightarrow> uctx result" where
  "run_effect op c r =
     (case r of
        None \<Rightarrow> Inl Undefined
      | Some e \<Rightarrow> rbind (rfold (\<lambda>v. to_src op (push_width v)) (f_src e) (apply_effect e c)) (rfold (\<lambda>v. to_dst op (push_width v)) (f_dst e)))"

definition normal_exec :: "operation \<Rightarrow> uctx \<Rightarrow> uctx result" where
  "normal_exec op c = rbind (pops op (operand_widths (o_opcode op) (o_shrt op)) c) (\<lambda>(vs, c).
     run_effect op c (instruction (o_opcode op) (o_shrt op) (view (machine c)) vs))"

lemma no_effect_sel [simp]:
  "f_src (no_effect s) = []" "f_dst (no_effect s) = []" "f_mem (no_effect s) = a_mem s" "f_pc (no_effect s) = a_pc s"
  "f_in (no_effect s) = a_in s" "f_out (no_effect s) = a_out s"
  by (simp_all add: no_effect_def)

lemma view_sel [simp]: "a_mem (view m) = u_memory m" "a_pc (view m) = u_pc m" "a_in (view m) = u_stdin m" "a_out (view m) = u_stdout m"
  by (simp_all add: view_def)

lemma with_simps [simp]:
  "with0 r [] = r" "with1 f [a] = f a" "with2 g [a, b] = g a b" "with3 h [a, b, d] = h a b d"
  by (simp_all add: with0_def with1_def with2_def with3_def)

lemma pop_val_width: "pop_val op c = (if o_shrt op then pop16 op c else pop8 op c)"
  by (simp add: pop_val_def)

lemma push_val_width: "push_val op v = push_width (o_shrt op, v)" "push8 (if P then 1 else 0) = push_width (False, if P then 1 else 0)"
  "push16 v = push_width (True, v)"
  by (simp_all add: push_val_def push_width_def fun_eq_iff)

lemma peek_load: "peek op c a = (case load (o_shrt op) a (u_memory (machine c)) of None \<Rightarrow> Inl Undefined | Some v \<Rightarrow> Inr v)"
  by (simp add: peek_def load_def byte_at_def Let_def)

lemma poke_store:
  "poke op a v c = (case store (o_shrt op) a v (u_memory (machine c)) of None \<Rightarrow> Inl Undefined | Some mem \<Rightarrow> Inr (c\<lparr>machine := machine c\<lparr>u_memory := mem\<rparr>\<rparr>))"
  by (simp add: poke_def store_def put_byte_def Let_def)

lemma stack_update_commute [simp]:
  "u_memory (set_src op st m) = u_memory m" "u_pc (set_src op st m) = u_pc m" "u_stdin (set_src op st m) = u_stdin m" "u_stdout (set_src op st m) = u_stdout m"
  "u_memory (set_dst op st m) = u_memory m" "u_pc (set_dst op st m) = u_pc m" "u_stdin (set_dst op st m) = u_stdin m" "u_stdout (set_dst op st m) = u_stdout m"
  by (simp_all add: set_src_def set_dst_def)

lemma pop_keeps:
  assumes "(if w then pop16 op c else pop8 op c) = Inr (v, c')"
  shows "u_memory (machine c') = u_memory (machine c) \<and> u_pc (machine c') = u_pc (machine c) \<and> u_stdin (machine c') = u_stdin (machine c) \<and>
    u_stdout (machine c') = u_stdout (machine c)"
  using assms by (auto simp: pop16_def pop8_def Let_def rbind_eq_Inr_iff set_src_ptr_def split: if_splits)

lemma rbind_assoc: "rbind (rbind r f) g = rbind r (\<lambda>x. rbind (f x) g)"
  by (cases r) simp_all

lemma rbind_Inr [simp]: "rbind r Inr = r"
  by (cases r) simp_all

lemma apply_no_effect [simp]:
  "apply_effect (no_effect (view (machine c))) c = c"
  "apply_effect (e\<lparr>f_src := vs\<rparr>) c = apply_effect e c" "apply_effect (e\<lparr>f_dst := vs\<rparr>) c = apply_effect e c"
  "apply_effect ((no_effect (view (machine c)))\<lparr>f_pc := p\<rparr>) c = set_pc p c"
  by (simp_all add: apply_effect_def set_pc_def)

lemma rfold_eta [simp]: "rfold f [] = Inr" "rfold f (x # xs) = (\<lambda>s. rbind (f x s) (rfold f xs))"
  by (simp_all add: fun_eq_iff)

lemma jmp_jump: "jmp op a c = set_pc (jump (o_shrt op) (u_pc (machine c)) a) c"
  by (simp add: jmp_def jump_def)

lemma apply_pc_effect [simp]:
  "apply_effect ((no_effect (view (machine c)))\<lparr>f_src := vs, f_pc := p\<rparr>) c = set_pc p c"
  "apply_effect ((no_effect (view (machine c)))\<lparr>f_dst := vs, f_pc := p\<rparr>) c = set_pc p c"
  by (simp_all add: apply_effect_def set_pc_def)

lemma set_pc_if: "(if t then set_pc p c else c) = set_pc (if t then p else u_pc (machine c)) c"
  by (simp add: set_pc_def)

lemma case_Inr_bind [simp]:
  "rbind (case r of None \<Rightarrow> Inl u | Some v \<Rightarrow> Inr v) g = (case r of None \<Rightarrow> Inl u | Some v \<Rightarrow> g v)"
  by (cases r) simp_all

lemma run_effect_simps [simp]:
  "run_effect op c (Some ((no_effect (view (machine c)))\<lparr>f_src := vs\<rparr>)) = rfold (\<lambda>v. to_src op (push_width v)) vs c"
  "run_effect op c (Some ((no_effect (view (machine c)))\<lparr>f_dst := vs\<rparr>)) = rfold (\<lambda>v. to_dst op (push_width v)) vs c"
  "run_effect op c (Some (no_effect (view (machine c)))) = Inr c"
  "run_effect op c (Some ((no_effect (view (machine c)))\<lparr>f_pc := p\<rparr>)) = Inr (set_pc p c)"
  "run_effect op c (map_option (\<lambda>v. (no_effect (view (machine c)))\<lparr>f_src := [(w, v)]\<rparr>) r) =
     (case r of None \<Rightarrow> Inl Undefined | Some v \<Rightarrow> to_src op (push_width (w, v)) c)"
  "run_effect op c (map_option (\<lambda>mem. (no_effect (view (machine c)))\<lparr>f_mem := mem\<rparr>) q) =
     (case q of None \<Rightarrow> Inl Undefined | Some mem \<Rightarrow> Inr (c\<lparr>machine := machine c\<lparr>u_memory := mem\<rparr>\<rparr>))"
  "run_effect op c (if b then None else e) = (if b then Inl Undefined else run_effect op c e)"
  "run_effect op c None = Inl Undefined"
  by (simp_all add: run_effect_def apply_effect_def set_pc_def split: option.split)

lemma rbind_cong_Inr: "(\<And>x. r = Inr x \<Longrightarrow> f x = g x) \<Longrightarrow> rbind r f = rbind r g"
  by (cases r) simp_all

lemma and_15: "unat ((a :: 16 word) AND 15) = unat a mod 16" "unat (drop_bit 4 (a AND 240)) = unat (drop_bit 4 a) mod 16"
proof -
  have m: "15 = (mask 4 :: 16 word)" "240 = (push_bit 4 (mask 4) :: 16 word)" by (simp_all add: mask_eq_exp_minus_1)
  have "a AND 15 = take_bit 4 a" unfolding m(1) by (simp add: take_bit_eq_mask)
  then show "unat (a AND 15) = unat a mod 16" by (simp only: unsigned_take_bit_eq) (simp add: take_bit_eq_mod)
  have "drop_bit 4 (a AND 240) = take_bit 4 (drop_bit 4 a)" unfolding m(2) by (rule bit_word_eqI) (auto simp: bit_simps)
  then show "unat (drop_bit 4 (a AND 240)) = unat (drop_bit 4 a) mod 16" by (simp only: unsigned_take_bit_eq) (simp add: take_bit_eq_mod)
qed

lemma device_port: "drop_bit 4 a = 1 \<and> a AND 15 = 2 \<longleftrightarrow> a = (18 :: 16 word)" "drop_bit 4 a = 1 \<and> a AND 15 = 8 \<longleftrightarrow> a = (24 :: 16 word)"
proof -
  have d: "unat (drop_bit 4 a) = unat a div 16" by (subst unat_drop_bit_eq) (simp add: drop_bit_eq_div)
  show "drop_bit 4 a = 1 \<and> a AND 15 = 2 \<longleftrightarrow> a = 18" "drop_bit 4 a = 1 \<and> a AND 15 = 8 \<longleftrightarrow> a = 24"
    unfolding word_unat_eq_iff d and_15 by (auto simp: div_nat_eqI) (use div_mult_mod_eq [of "unat a" 16] in simp_all)
qed

lemma update_commute:
  "m\<lparr>u_pc := p, return_stack := st\<rparr> = m\<lparr>return_stack := st, u_pc := p\<rparr>" "m\<lparr>u_pc := p, working_stack := st\<rparr> = m\<lparr>working_stack := st, u_pc := p\<rparr>"
  by simp_all

lemma set_pc_push [simp]:
  "to_src op f (set_pc p c) = rbind (to_src op f c) (\<lambda>c. Inr (set_pc p c))" "to_dst op f (set_pc p c) = rbind (to_dst op f c) (\<lambda>c. Inr (set_pc p c))"
  by (simp_all add: to_src_def to_dst_def set_pc_def src_stack_def dst_stack_def set_src_def set_dst_def rbind_assoc update_commute)

lemmas exec_unfold = uxn_exec_def normal_exec_def pop_val_width push_val_width rbind_assoc split_def instruction_def peek_load poke_store Let_def
  binary_def compare_def jmp_jump set_pc_if

lemma exec_LIT: "o_opcode op = Op_LIT \<Longrightarrow> uxn_exec op c = normal_exec op c"
  by (cases "load (o_shrt op) (u_pc (machine c)) (u_memory (machine c))") (simp_all add: exec_unfold run_effect_def)

lemma exec_JCN: "o_opcode op = Op_JCN \<Longrightarrow> uxn_exec op c = normal_exec op c"
  by (cases "o_shrt op") (simp_all add: exec_unfold cong: if_cong)

lemma exec_DIV: "o_opcode op = Op_DIV \<Longrightarrow> uxn_exec op c = normal_exec op c"
  by (cases "o_shrt op") (simp_all add: exec_unfold cong: if_cong)

lemma exec_SFT: "o_opcode op = Op_SFT \<Longrightarrow> uxn_exec op c = normal_exec op c"
  by (cases "o_shrt op") (simp_all add: exec_unfold and_15)

lemma exec_LDR: "o_opcode op = Op_LDR \<Longrightarrow> uxn_exec op c = normal_exec op c"
  using pop_keeps [of False op c] by (simp add: exec_unfold) (rule rbind_cong_Inr, auto)

abbreviation pop_width :: "bool \<Rightarrow> operation \<Rightarrow> uctx \<Rightarrow> (16 word \<times> uctx) result" where
  "pop_width w op c \<equiv> (if w then pop16 op c else pop8 op c)"

lemma exec_STR:
  assumes "o_opcode op = Op_STR"
  shows "uxn_exec op c = normal_exec op c"
proof -
  have "uxn_exec op c = rbind (pop8 op c) (\<lambda>x. rbind (pop_width (o_shrt op) op (snd x)) (\<lambda>y. poke op (relative (u_pc (machine c)) (fst x)) (fst y) (snd y)))"
    using assms by (simp add: uxn_exec_def Let_def split_def pop_val_width)
  also have "\<dots> = rbind (pop8 op c) (\<lambda>x. rbind (pop_width (o_shrt op) op (snd x)) (\<lambda>y. poke op (relative (u_pc (machine (snd y))) (fst x)) (fst y) (snd y)))"
  proof (intro rbind_cong_Inr)
    fix x y
    assume xy: "pop8 op c = Inr x" "pop_width (o_shrt op) op (snd x) = Inr y"
    have "u_pc (machine (snd x)) = u_pc (machine c)" using pop_keeps [of False op c "fst x" "snd x"] xy(1) by simp
    moreover have "u_pc (machine (snd y)) = u_pc (machine (snd x))" using pop_keeps [of "o_shrt op" op "snd x" "fst y" "snd y"] xy(2) by simp
    ultimately show "poke op (relative (u_pc (machine c)) (fst x)) (fst y) (snd y) = poke op (relative (u_pc (machine (snd y))) (fst x)) (fst y) (snd y)" by simp
  qed
  also have "\<dots> = normal_exec op c" using assms by (simp add: normal_exec_def rbind_assoc split_def instruction_def poke_store)
  finally show ?thesis .
qed

lemma stdin_same: "u_stdin (machine c) = xs \<Longrightarrow> c\<lparr>machine := machine c\<lparr>u_stdin := xs\<rparr>\<rparr> = c"
  by auto

lemma dei_effect:
  "(if has_device (drop_bit 4 a) then (case console_read (a AND 15) (machine c) of (v, m) \<Rightarrow> to_src op (push_width (w, v)) (c\<lparr>machine := m\<rparr>))
    else to_src op (push_width (w, 0)) c) = run_effect op c (instruction Op_DEI w (view (machine c)) [a])"
proof (cases "a = 18")
  case True
  then have "drop_bit 4 a = 1" "a AND 15 = 2" using device_port(1) [of a] by auto
  then show ?thesis unfolding has_device_def instruction_def console_read_def
    by (cases "u_stdin (machine c)") (simp_all add: True run_effect_def apply_effect_def stdin_same)
next
  case False
  then have "\<not> (drop_bit 4 a = 1 \<and> a AND 15 = 2)" using device_port(1) [of a] by blast
  then show ?thesis unfolding has_device_def instruction_def console_read_def by (auto simp: False)
qed

lemma deo_effect:
  "Inr (if has_device (drop_bit 4 a) then c\<lparr>machine := console_write (a AND 15) v (machine c)\<rparr> else c) =
   run_effect op c (instruction Op_DEO w (view (machine c)) [a, v])"
proof (cases "a = 24")
  case True
  then have "drop_bit 4 a = 1" "a AND 15 = 8" using device_port(2) [of a] by auto
  then show ?thesis unfolding has_device_def instruction_def console_write_def by (simp add: True run_effect_def apply_effect_def)
next
  case False
  then have "\<not> (drop_bit 4 a = 1 \<and> a AND 15 = 8)" using device_port(2) [of a] by blast
  then show ?thesis unfolding has_device_def instruction_def console_write_def by (auto simp: False)
qed

lemma exec_DEI: "o_opcode op = Op_DEI \<Longrightarrow> uxn_exec op c = normal_exec op c"
  by (simp add: uxn_exec_def normal_exec_def push_val_width dei_effect rbind_assoc Let_def) (simp add: split_def)

lemma exec_DEO: "o_opcode op = Op_DEO \<Longrightarrow> uxn_exec op c = normal_exec op c"
  by (simp add: uxn_exec_def normal_exec_def pop_val_width deo_effect [where w = "o_shrt op" and op = op] rbind_assoc Let_def) (simp add: split_def rbind_assoc)

lemma dst_commute:
  "m\<lparr>working_stack := st, return_stack := st'\<rparr> = m\<lparr>return_stack := st', working_stack := st\<rparr>"
  "c\<lparr>machine := m, tmp_ptr := t\<rparr> = c\<lparr>tmp_ptr := t, machine := m\<rparr>"
  by simp_all

lemma pop_set_dst:
  "pop_width w op (c\<lparr>machine := set_dst op st (machine c)\<rparr>) =
   rbind (pop_width w op c) (\<lambda>(v, c'). Inr (v, c'\<lparr>machine := set_dst op st (machine c')\<rparr>))"
  by (simp add: pop8_def pop16_def Let_def rbind_assoc src_ptr_def set_src_ptr_def src_stack_def set_dst_def set_src_def dst_commute)

lemma pop_dst: "pop_width w op c = Inr (v, c') \<Longrightarrow> dst_stack op (machine c') = dst_stack op (machine c)"
  by (auto simp: pop8_def pop16_def Let_def rbind_eq_Inr_iff set_src_ptr_def src_stack_def dst_stack_def set_src_def split: if_splits)

lemma pop_fails: "pop_width w op c = Inl e \<Longrightarrow> e = Undefined"
  by (auto simp: pop8_def pop16_def Let_def byte_at_def split: if_splits)

lemma push_fails: "push_width wv st = Inl e \<Longrightarrow> e = Undefined"
  by (auto simp: push_width_def push8_def push16_def put_byte_def split: if_splits prod.splits)

lemma push_dst_commutes:
  "rbind (to_dst op (push_width wv) c) (\<lambda>c. rbind (pop_width w op c) g) =
   rbind (pop_width w op c) (\<lambda>(v, c). rbind (to_dst op (push_width wv) c) (\<lambda>c. g (v, c)))"
proof (cases "push_width wv (dst_stack op (machine c))")
  case (Inl e)
  then have e: "e = Undefined" by (rule push_fails)
  show ?thesis
  proof (cases "pop_width w op c")
    case f: (Inl f)
    then show ?thesis using Inl e pop_fails [OF f] by (simp add: to_dst_def)
  next
    case (Inr x)
    then show ?thesis using Inl e pop_dst [of w op c "fst x" "snd x"] by (simp add: to_dst_def split_def)
  qed
next
  case (Inr st)
  show ?thesis
  proof (cases "pop_width w op c")
    case f: (Inl f)
    then show ?thesis using Inr by (simp add: to_dst_def pop_set_dst)
  next
    case x: (Inr x)
    then show ?thesis using Inr pop_dst [of w op c "fst x" "snd x"] by (simp add: to_dst_def pop_set_dst split_def)
  qed
qed

lemma exec_JSR:
  assumes "o_opcode op = Op_JSR"
  shows "uxn_exec op c = normal_exec op c"
proof -
  let ?pop = "pop_width (o_shrt op) op c"
  have "uxn_exec op c = rbind ?pop (\<lambda>x. rbind (to_dst op (push_width (True, u_pc (machine c))) (snd x)) (\<lambda>c. Inr (jmp op (fst x) c)))"
    using assms push_dst_commutes [of op "(True, u_pc (machine c))" c "o_shrt op" "\<lambda>(a, c). Inr (jmp op a c)"]
    by (simp add: uxn_exec_def Let_def pop_val_width push_val_width) (simp add: split_def)
  also have "\<dots> = rbind ?pop (\<lambda>x. rbind (to_dst op (push_width (True, u_pc (machine (snd x)))) (snd x)) (\<lambda>c'. Inr (set_pc (jump (o_shrt op) (u_pc (machine (snd x))) (fst x)) c')))"
  proof (rule rbind_cong_Inr)
    fix x
    assume x: "?pop = Inr x"
    have "u_pc (machine (snd x)) = u_pc (machine c)" using pop_keeps [of "o_shrt op" op c "fst x" "snd x"] x by simp
    moreover have "u_pc (machine c') = u_pc (machine (snd x))" if "to_dst op (push_width (True, u_pc (machine c))) (snd x) = Inr c'" for c'
      using that by (auto simp: to_dst_def rbind_eq_Inr_iff)
    ultimately show "rbind (to_dst op (push_width (True, u_pc (machine c))) (snd x)) (\<lambda>c. Inr (jmp op (fst x) c)) =
        rbind (to_dst op (push_width (True, u_pc (machine (snd x)))) (snd x)) (\<lambda>c'. Inr (set_pc (jump (o_shrt op) (u_pc (machine (snd x))) (fst x)) c'))"
      by (auto simp: jmp_jump intro: rbind_cong_Inr)
  qed
  also have "\<dots> = normal_exec op c" using assms by (simp add: normal_exec_def rbind_assoc split_def instruction_def run_effect_def)
  finally show ?thesis .
qed

lemma exec_normal: "uxn_exec op c = normal_exec op c"
proof (cases "o_opcode op \<in> {Op_LIT, Op_JCN, Op_DIV, Op_SFT, Op_LDR, Op_STR, Op_DEI, Op_DEO, Op_JSR}")
  case True
  then show ?thesis using exec_LIT exec_JCN exec_DIV exec_SFT exec_LDR exec_STR exec_DEI exec_DEO exec_JSR by auto
next
  case False
  then show ?thesis by (cases "o_opcode op"; cases "o_shrt op") (simp_all add: exec_unfold)
qed

end
