(* ===== verification/UxnProgram.thy ===== *)
theory UxnProgram
  imports UxnReference
begin

text \<open>
  The stacks of the interpreter represent the lists of the description, each step of the interpreter
  is the step of the description, and so a program that ends there ends with the same output here.
\<close>

section \<open>Stacks\<close>

definition stack_rep :: "ustack \<Rightarrow> 8 word list \<Rightarrow> bool" where
  "stack_rep st xs \<longleftrightarrow> length (u_mem st) = 256 \<and> length xs < 256 \<and> u_ptr st = of_nat (length xs) \<and> take (length xs) (u_mem st) = rev xs"

definition uxn_rep :: "uxn \<Rightarrow> uxn_state \<Rightarrow> bool" where
  "uxn_rep m s \<longleftrightarrow> u_memory m = a_mem s \<and> stack_rep (working_stack m) (a_work s) \<and> stack_rep (return_stack m) (a_return s) \<and>
     u_pc m = a_pc s \<and> u_stdin m = a_in s \<and> u_stdout m = a_out s"

text \<open>The source stack below the pointer that pops use.\<close>

definition src_view :: "operation \<Rightarrow> uctx \<Rightarrow> 8 word list \<Rightarrow> bool" where
  "src_view op c xs \<longleftrightarrow> stack_rep \<lparr>u_ptr = src_ptr op c, u_mem = u_mem (src_stack op (machine c))\<rparr> xs"

lemma unat_small [simp]: "n < 256 \<Longrightarrow> unat (of_nat n :: 8 word) = n"
  by (simp add: unat_of_nat)

lemma src_dst_update [simp]:
  "src_stack op (set_src op st m) = st" "dst_stack op (set_dst op st m) = st"
  "src_stack op (set_dst op st m) = src_stack op m" "dst_stack op (set_src op st m) = dst_stack op m"
  "set_src op st (set_src op st' m) = set_src op st m" "set_dst op st (set_dst op st' m) = set_dst op st m"
  "set_src op (src_stack op m) m = m" "set_dst op (dst_stack op m) m = m"
  by (simp_all add: src_stack_def dst_stack_def set_src_def set_dst_def)

lemma src_ptr_update [simp]:
  "src_ptr op (set_src_ptr op p c) = p" "set_src_ptr op p (set_src_ptr op q c) = set_src_ptr op p c" "set_src_ptr op (src_ptr op c) c = c"
  "u_mem (src_stack op (machine (set_src_ptr op p c))) = u_mem (src_stack op (machine c))"
  "dst_stack op (machine (set_src_ptr op p c)) = dst_stack op (machine c)"
  by (simp_all add: src_ptr_def set_src_ptr_def)

lemma view_set_src_ptr [simp]: "view (machine (set_src_ptr op p c)) = view (machine c)"
  by (simp add: view_def set_src_ptr_def)

lemma stack_rep_below:
  assumes "stack_rep st (ys @ xs)"
  shows "stack_rep (st\<lparr>u_ptr := of_nat (length xs)\<rparr>) xs"
proof -
  have "take (length xs) (u_mem st) = take (length xs) (take (length (ys @ xs)) (u_mem st))" by (simp add: min_def)
  also have "\<dots> = rev xs" using assms by (simp add: stack_rep_def)
  finally show ?thesis using assms by (simp add: stack_rep_def)
qed

lemma stack_rep_nth:
  assumes "stack_rep st (ys @ x # xs)"
  shows "u_mem st ! length xs = x" "length xs < length (u_mem st)"
proof -
  have "take (length (ys @ x # xs)) (u_mem st) ! length xs = rev (ys @ x # xs) ! length xs" using assms by (simp only: stack_rep_def)
  then show "u_mem st ! length xs = x" by (simp add: nth_append)
  show "length xs < length (u_mem st)" using assms by (simp add: stack_rep_def)
qed

lemma src_view_below: "src_view op c (ys @ xs) \<Longrightarrow> src_view op (set_src_ptr op (of_nat (length xs)) c) xs"
  using stack_rep_below by (fastforce simp: src_view_def)

lemma pop8_view:
  assumes "src_view op c (x # xs)"
  shows "pop8 op c = Inr (ucast x, set_src_ptr op (of_nat (length xs)) c)"
proof -
  let ?st = "\<lparr>u_ptr = src_ptr op c, u_mem = u_mem (src_stack op (machine c))\<rparr>"
  have rep: "stack_rep ?st (x # xs)" using assms by (simp add: src_view_def)
  have p: "src_ptr op c - 1 = of_nat (length xs)" "length xs < 256" using rep by (auto simp: stack_rep_def)
  show ?thesis using stack_rep_nth [of ?st "[]" x xs] rep p by (simp add: pop8_def Let_def byte_at_def)
qed

lemma pop16_view:
  assumes "src_view op c (lo # hi # xs)"
  shows "pop16 op c = Inr (word16 hi lo, set_src_ptr op (of_nat (length xs)) c)"
proof -
  let ?st = "\<lparr>u_ptr = src_ptr op c, u_mem = u_mem (src_stack op (machine c))\<rparr>"
  have rep: "stack_rep ?st (lo # hi # xs)" using assms by (simp add: src_view_def)
  have p: "src_ptr op c - 2 = of_nat (length xs)" "length xs < 256" using rep by (auto simp: stack_rep_def)
  show ?thesis using stack_rep_nth [of ?st "[]" lo "hi # xs"] stack_rep_nth [of ?st "[lo]" hi xs] rep p
    by (simp add: pop16_def Let_def byte_at_def)
qed

lemma operands_suffix: "operands ws xs = Some (vs, r) \<Longrightarrow> \<exists>ys. xs = ys @ r"
  by (induction ws xs arbitrary: vs rule: operands.induct) force+

lemma pops_view:
  "operands ws xs = Some (vs, r) \<Longrightarrow> src_view op c xs \<Longrightarrow> pops op ws c = Inr (vs, set_src_ptr op (of_nat (length r)) c)"
proof (induction ws xs arbitrary: vs c rule: operands.induct)
  case (1 xs)
  then show ?case by (simp add: src_view_def stack_rep_def) (metis src_ptr_update(3))
next
  case (2 ws x xs)
  then show ?case using src_view_below [of op c "[x]" xs] by (auto simp: pop8_view)
next
  case (3 ws lo hi xs)
  then show ?case using src_view_below [of op c "[lo, hi]" xs] by (auto simp: pop16_view)
qed simp_all

lemma src_after_pops:
  assumes "stack_rep (src_stack op (machine c)) xs" "operands ws xs = Some (vs, r)"
  shows "stack_rep (src_stack op (machine (set_src_ptr op (of_nat (length r)) c))) (if o_keep op then xs else r)"
  using operands_suffix [OF assms(2)] assms(1) stack_rep_below by (auto simp: set_src_ptr_def)

lemma push_rep:
  assumes "stack_rep st xs" "length (value_bytes v @ xs) < 256"
  obtains st' where "push_width v st = Inr st'" "stack_rep st' (value_bytes v @ xs)"
proof -
  obtain w a where v: "v = (w, a)" by (cases v)
  have len: "length (u_mem st) = 256" "u_ptr st = of_nat (length xs)" "take (length xs) (u_mem st) = rev xs" "length xs < 256"
    using assms(1) by (simp_all add: stack_rep_def)
  show ?thesis
  proof (cases w)
    case True
    let ?st = "\<lparr>u_ptr = u_ptr st + 2, u_mem = (u_mem st)[length xs := ucast (drop_bit 8 a), length xs + 1 := ucast a]\<rparr>"
    have "push_width v st = Inr ?st" using True v len assms(2) by (simp add: push_width_def push16_def put_byte_def)
    moreover have "stack_rep ?st (value_bytes v @ xs)"
      using True v len assms(2) by (simp add: stack_rep_def take_Suc_conv_app_nth)
    ultimately show ?thesis by (rule that)
  next
    case False
    let ?st = "\<lparr>u_ptr = u_ptr st + 1, u_mem = (u_mem st)[length xs := ucast a]\<rparr>"
    have "push_width v st = Inr ?st" using False v len by (simp add: push_width_def push8_def put_byte_def)
    moreover have "stack_rep ?st (value_bytes v @ xs)"
      using False v len assms(2) by (simp add: stack_rep_def take_Suc_conv_app_nth)
    ultimately show ?thesis by (rule that)
  qed
qed

lemma length_pushed: "length ys \<le> length (pushed us ys)"
proof (induction us arbitrary: ys)
  case (Cons u us)
  from Cons.IH [of "value_bytes u @ ys"] show ?case by (simp add: pushed_def)
qed (simp add: pushed_def)

lemma push_src_rep:
  assumes "stack_rep (src_stack op (machine c)) xs" "length (pushed vs xs) < 256"
  obtains st where "rfold (\<lambda>v. to_src op (push_width v)) vs c = Inr (c\<lparr>machine := set_src op st (machine c)\<rparr>)" "stack_rep st (pushed vs xs)"
  using assms
proof (induction vs arbitrary: c xs thesis)
  case Nil
  then show ?case using Nil.prems(1) [of "src_stack op (machine c)"] by (simp add: pushed_def)
next
  case (Cons v vs)
  have "length (value_bytes v @ xs) < 256" using length_pushed [of "value_bytes v @ xs" vs] Cons.prems(3) by (simp add: pushed_def)
  with Cons.prems(2) obtain st where st: "push_width v (src_stack op (machine c)) = Inr st" "stack_rep st (value_bytes v @ xs)" by (rule push_rep)
  then have step: "to_src op (push_width v) c = Inr (c\<lparr>machine := set_src op st (machine c)\<rparr>)" by (simp add: to_src_def)
  show ?case
  proof (rule Cons.IH [of "c\<lparr>machine := set_src op st (machine c)\<rparr>" "value_bytes v @ xs"])
    show "stack_rep (src_stack op (machine (c\<lparr>machine := set_src op st (machine c)\<rparr>))) (value_bytes v @ xs)" using st by simp
    show "length (pushed vs (value_bytes v @ xs)) < 256" using Cons.prems(3) by (simp add: pushed_def)
  next
    fix st' assume "rfold (\<lambda>v. to_src op (push_width v)) vs (c\<lparr>machine := set_src op st (machine c)\<rparr>) =
        Inr ((c\<lparr>machine := set_src op st (machine c)\<rparr>)\<lparr>machine := set_src op st' (machine (c\<lparr>machine := set_src op st (machine c)\<rparr>))\<rparr>)"
      "stack_rep st' (pushed vs (value_bytes v @ xs))"
    then show ?thesis using Cons.prems(1) [of st'] step by (simp add: pushed_def)
  qed
qed

text \<open>The destination stack of an operation is the source stack of the operation with the other return mode.\<close>

lemma dst_is_src: "to_dst op = to_src (op\<lparr>o_ret := \<not> o_ret op\<rparr>)" "dst_stack op = src_stack (op\<lparr>o_ret := \<not> o_ret op\<rparr>)"
  "set_dst op = set_src (op\<lparr>o_ret := \<not> o_ret op\<rparr>)"
  by (simp_all add: fun_eq_iff to_dst_def to_src_def dst_stack_def src_stack_def set_dst_def set_src_def)

lemma push_dst_rep:
  assumes "stack_rep (dst_stack op (machine c)) xs" "length (pushed vs xs) < 256"
  obtains st where "rfold (\<lambda>v. to_dst op (push_width v)) vs c = Inr (c\<lparr>machine := set_dst op st (machine c)\<rparr>)" "stack_rep st (pushed vs xs)"
  using assms unfolding dst_is_src by (rule push_src_rep)

section \<open>Steps\<close>

lemma instruction_view: "uxn_rep m s \<Longrightarrow> instruction i w (view m) vs = instruction i w s vs"
proof -
  assume "uxn_rep m s"
  then have eq: "a_mem (view m) = a_mem s" "a_pc (view m) = a_pc s" "a_in (view m) = a_in s" "a_out (view m) = a_out s" by (simp_all add: uxn_rep_def)
  then have eq': "no_effect (view m) = no_effect s" by (simp add: no_effect_def)
  show ?thesis unfolding instruction_def eq eq' ..
qed

lemma apply_effect_stacks [simp]:
  "src_stack op (machine (apply_effect e c)) = src_stack op (machine c)" "dst_stack op (machine (apply_effect e c)) = dst_stack op (machine c)"
  by (simp_all add: apply_effect_def src_stack_def dst_stack_def)

lemma exec_refines:
  assumes rep: "uxn_rep (machine c) s" and ref: "ref_exec op s = Some s'" and tmp: "tmp_ptr c = u_ptr (src_stack op (machine c))"
  obtains c' where "uxn_exec op c = Inr c'" "uxn_rep (machine c') s'"
proof -
  let ?src = "if o_ret op then a_return s else a_work s" and ?dst = "if o_ret op then a_work s else a_return s"
  let ?ws = "operand_widths (o_opcode op) (o_shrt op)"
  obtain vs r e where ops: "operands ?ws ?src = Some (vs, r)" and e: "instruction (o_opcode op) (o_shrt op) s vs = Some e"
    and len: "length (pushed (f_src e) (if o_keep op then ?src else r)) < 256" "length (pushed (f_dst e) ?dst) < 256"
    and s': "s' = \<lparr>a_mem = f_mem e, a_work = (if o_ret op then pushed (f_dst e) ?dst else pushed (f_src e) (if o_keep op then ?src else r)),
      a_return = (if o_ret op then pushed (f_src e) (if o_keep op then ?src else r) else pushed (f_dst e) ?dst), a_pc = f_pc e, a_in = f_in e, a_out = f_out e\<rparr>"
    using ref unfolding ref_exec_def Let_def by (auto split: option.splits if_splits)
  have src: "stack_rep (src_stack op (machine c)) ?src" and dst: "stack_rep (dst_stack op (machine c)) ?dst"
    using rep by (simp_all add: uxn_rep_def src_stack_def dst_stack_def)
  let ?c = "set_src_ptr op (of_nat (length r)) c"
  have "src_view op c ?src" using src tmp by (simp add: src_view_def src_ptr_def stack_rep_def)
  then have "pops op ?ws c = Inr (vs, ?c)" using pops_view [OF ops] by simp
  then have run: "uxn_exec op c = run_effect op ?c (Some e)" using e instruction_view [OF rep] by (simp add: exec_normal normal_exec_def)
  have src': "stack_rep (src_stack op (machine (apply_effect e ?c))) (if o_keep op then ?src else r)"
    using src_after_pops [OF src ops] by (simp only: apply_effect_stacks)
  obtain st where st: "rfold (\<lambda>v. to_src op (push_width v)) (f_src e) (apply_effect e ?c) = Inr ((apply_effect e ?c)\<lparr>machine := set_src op st (machine (apply_effect e ?c))\<rparr>)"
    "stack_rep st (pushed (f_src e) (if o_keep op then ?src else r))" by (rule push_src_rep [OF src' len(1)])
  let ?d = "(apply_effect e ?c)\<lparr>machine := set_src op st (machine (apply_effect e ?c))\<rparr>"
  have dst': "stack_rep (dst_stack op (machine ?d)) ?dst" using dst by simp
  obtain st' where st': "rfold (\<lambda>v. to_dst op (push_width v)) (f_dst e) ?d = Inr (?d\<lparr>machine := set_dst op st' (machine ?d)\<rparr>)"
    "stack_rep st' (pushed (f_dst e) ?dst)" by (rule push_dst_rep [OF dst' len(2)])
  show ?thesis
  proof (rule that)
    show "uxn_exec op c = Inr (?d\<lparr>machine := set_dst op st' (machine ?d)\<rparr>)" using run st(1) st'(1) by (simp add: run_effect_def)
    show "uxn_rep (machine (?d\<lparr>machine := set_dst op st' (machine ?d)\<rparr>)) s'"
      using st(2) st'(2) by (cases "o_ret op"; cases "o_keep op") (simp_all add: s' uxn_rep_def apply_effect_def set_src_def set_dst_def)
  qed
qed

lemma step_refines:
  assumes rep: "uxn_rep m s" and ref: "ref_step s = Some (go, s')"
  obtains m' where "uxn_step m = Inr (go, m')" "uxn_rep m' s'"
proof -
  let ?op = "operation_of (a_mem s ! unat (a_pc s))" and ?s = "s\<lparr>a_pc := a_pc s + 1\<rparr>" and ?m = "m\<lparr>u_pc := u_pc m + 1\<rparr>"
  let ?op' = "if o_opcode ?op = Op_LIT then ?op\<lparr>o_keep := False\<rparr> else ?op"
  have fetch: "byte_at (u_memory m) (unat (u_pc m)) = Inr (a_mem s ! unat (a_pc s))" and rep1: "uxn_rep ?m ?s"
    using rep ref by (auto simp: ref_step_def uxn_rep_def byte_at_def split: if_splits)
  show ?thesis
  proof (cases "o_opcode ?op = Op_LIT \<and> \<not> o_keep ?op")
    case True
    then show ?thesis using fetch rep1 ref that [of ?m] by (auto simp: ref_step_def uxn_step_def Let_def split: if_splits)
  next
    case False
    then have go: "go" and ex: "ref_exec ?op' ?s = Some s'" using ref unfolding ref_step_def Let_def by (auto split: if_splits)
    let ?c = "\<lparr>machine = ?m, tmp_ptr = u_ptr (src_stack ?op ?m)\<rparr>"
    have tmp: "tmp_ptr ?c = u_ptr (src_stack ?op' (machine ?c))" by (simp add: src_stack_def)
    have rep': "uxn_rep (machine ?c) ?s" using rep1 by simp
    obtain c' where c': "uxn_exec ?op' ?c = Inr c'" "uxn_rep (machine c') s'" by (rule exec_refines [OF rep' ex tmp])
    have "uxn_step m = Inr (True, machine c')" using fetch False c'(1) unfolding uxn_step_def Let_def by simp
    with go c'(2) show ?thesis using that [of "machine c'"] by simp
  qed
qed

fun ref_run :: "nat \<Rightarrow> uxn_state \<Rightarrow> uxn_state option" where
  "ref_run 0 s = None"
| "ref_run (Suc n) s = (case ref_step s of None \<Rightarrow> None | Some (go, s') \<Rightarrow> if go then ref_run n s' else Some s')"

lemma ref_run_refines: "ref_run n s = Some s' \<Longrightarrow> uxn_rep m s \<Longrightarrow> \<exists>m'. uxn_run m = Some (Inr m') \<and> uxn_rep m' s'"
proof (induction n arbitrary: s m)
  case (Suc n)
  obtain go t where step: "ref_step s = Some (go, t)" using Suc.prems(1) by (cases "ref_step s") auto
  obtain m1 where m1: "uxn_step m = Inr (go, m1)" "uxn_rep m1 t" by (rule step_refines [OF Suc.prems(2) step])
  show ?case
  proof (cases go)
    case True
    then have "ref_run n t = Some s'" using Suc.prems(1) step by simp
    from Suc.IH [OF this m1(2)] show ?thesis using m1(1) True by (simp add: uxn_run.simps)
  next
    case False
    then show ?thesis using Suc.prems(1) step m1 by (simp add: uxn_run.simps)
  qed
qed simp

text \<open>
  C18. The Uxn interpreter is equivalent to the instruction set's description on every program that
  the description runs to its end: from a machine that represents the description's state, the loop
  of \<open>main\<close> ends too, without leaving the stack arrays or the memory, and the final machine
  represents the description's final state, so the memory, both stacks and the output agree.
\<close>

theorem uxn_run_equivalent:
  assumes "ref_run n s = Some s'" and "uxn_rep m s"
  shows "\<exists>m'. uxn_run m = Some (Inr m') \<and> uxn_rep m' s'"
  by (rule ref_run_refines [OF assms])

text \<open>The program \<open>#02 #03 ADD #18 DEO BRK\<close>, which writes the byte 5 to the console.\<close>

definition example_code :: "8 word list" where
  "example_code = [128, 2, 128, 3, 24, 128, 24, 23, 0]"

definition example_start :: uxn_state where
  "example_start = \<lparr>a_mem = example_code, a_work = [], a_return = [], a_pc = 0, a_in = [], a_out = []\<rparr>"

definition example_uxn :: uxn where
  "example_uxn = \<lparr>u_memory = example_code, working_stack = \<lparr>u_ptr = 0, u_mem = replicate 256 0\<rparr>, return_stack = \<lparr>u_ptr = 0, u_mem = replicate 256 0\<rparr>,
     u_pc = 0, u_stdin = [], u_stdout = []\<rparr>"

lemma example_ref_run: "ref_run 6 example_start = Some (example_start\<lparr>a_pc := 9, a_out := [5]\<rparr>)"
  by code_simp

lemma example_uxn_rep: "uxn_rep example_uxn example_start"
  by (simp add: uxn_rep_def example_uxn_def example_start_def stack_rep_def)

theorem uxn_run_equivalent_witness:
  "ref_run 6 example_start = Some (example_start\<lparr>a_pc := 9, a_out := [5]\<rparr>) \<and> uxn_rep example_uxn example_start \<and>
   (\<exists>m'. uxn_run example_uxn = Some (Inr m') \<and> uxn_rep m' (example_start\<lparr>a_pc := 9, a_out := [5]\<rparr>) \<and> u_stdout m' = [5])"
  using uxn_run_equivalent [OF example_ref_run example_uxn_rep] example_ref_run example_uxn_rep by (auto simp: uxn_rep_def)

section \<open>Whole programs\<close>








end
