(* ===== verification/BlockFile.thy ===== *)
theory BlockFile
  imports PataDevice
begin

text \<open>
  The blocks of a filesystem that lives in a file, \<open>FileBasedFilesystem\<close>
  (\<open>src/kernel/filesystem/FileBasedFilesystem.cpp\<close>). The file below is any implementation of
  \<open>File::read\<close> and \<open>File::write\<close>; the locale \<open>block_file\<close> states what a filesystem relies on, and
  partitions of PATA disks provide it.
\<close>

section \<open>Bytes of integers\<close>

text \<open>Little-endian integers in memory, as the processor stores them.\<close>

fun le_bytes :: "nat \<Rightarrow> nat \<Rightarrow> byte list" where
  "le_bytes 0 v = []"
| "le_bytes (Suc n) v = of_nat v # le_bytes n (v div 256)"

fun of_le :: "byte list \<Rightarrow> nat" where
  "of_le [] = 0"
| "of_le (b # bs) = unat b + 256 * of_le bs"

definition get_le :: "nat \<Rightarrow> byte list \<Rightarrow> nat \<Rightarrow> nat" where
  "get_le n bs off = of_le (take n (drop off bs))"

definition put_le :: "nat \<Rightarrow> byte list \<Rightarrow> nat \<Rightarrow> nat \<Rightarrow> byte list" where
  "put_le n bs off v = put_at bs off (le_bytes n v)"

abbreviation "get16 \<equiv> get_le 2"
abbreviation "put16 \<equiv> put_le 2"
abbreviation "get32 \<equiv> get_le 4"
abbreviation "put32 \<equiv> put_le 4"

text \<open>An array on the stack that is not initialised; \<open>junk\<close> is what the stack held.\<close>

definition stack_array :: "nat \<Rightarrow> byte list \<Rightarrow> byte list" where
  "stack_array n junk = take n (junk @ replicate n 0)"

lemma length_stack_array [simp]: "length (stack_array n junk) = n"
  by (simp add: stack_array_def)

lemma length_le_bytes [simp]: "length (le_bytes n v) = n"
  by (induction n arbitrary: v) auto

lemma of_le_le_bytes: "of_le (le_bytes n v) = v mod 256 ^ n"
proof (induction n arbitrary: v)
  case (Suc n)
  have "v mod 256 ^ Suc n = v mod 256 + 256 * (v div 256 mod 256 ^ n)" by (simp add: mod_mult2_eq)
  then show ?case using Suc by (simp add: unat_of_nat)
qed simp

lemma of_le_less: "of_le bs < 256 ^ length bs"
proof (induction bs)
  case (Cons b bs)
  have "unat b < 256" using unsigned_less [of b] by simp
  with Cons show ?case by simp
qed simp

lemma word_256: "(256 :: byte) = 0"
  by (simp add: word_unat_eq_iff)

lemma le_bytes_of_le: "le_bytes (length bs) (of_le bs) = bs"
proof (induction bs)
  case (Cons b bs)
  have b: "unat b < 256" using unsigned_less [of b] by simp
  then have "(unat b + 256 * of_le bs) div 256 = of_le bs" by simp
  moreover have "(of_nat (unat b + 256 * of_le bs) :: byte) = b"
    by (simp add: word_256)
  ultimately show ?case using Cons by simp
qed simp

lemma put_at_outside:
  assumes "off + length xs \<le> length bs" "off' + m \<le> off \<or> off + length xs \<le> off'"
  shows "take m (drop off' (put_at bs off xs)) = take m (drop off' bs)"
proof (rule nth_equalityI)
  fix i assume "i < length (take m (drop off' (put_at bs off xs)))"
  then have i: "i < m" "off' + i < length bs" using assms(1) by auto
  then have "off' + i < off \<or> off + length xs \<le> off' + i" using assms(2) by linarith
  then have "put_at bs off xs ! (off' + i) = bs ! (off' + i)" using assms(1) i by (auto simp: put_at_def nth_append)
  then show "take m (drop off' (put_at bs off xs)) ! i = take m (drop off' bs) ! i" using assms(1) i by simp
qed (use assms(1) in simp)

lemma put_at_inside: "off + length xs \<le> length bs \<Longrightarrow> take (length xs) (drop off (put_at bs off xs)) = xs"
  by (simp add: put_at_def)

lemma length_put_le [simp]: "off + n \<le> length bs \<Longrightarrow> length (put_le n bs off v) = length bs"
  by (simp add: put_le_def)

lemma get_put_same: "off + n \<le> length bs \<Longrightarrow> get_le n (put_le n bs off v) off = v mod 256 ^ n"
  using put_at_inside [of off "le_bytes n v" bs] by (simp add: get_le_def put_le_def of_le_le_bytes)

lemma get_put_other:
  "off + n \<le> length bs \<Longrightarrow> off' + m \<le> off \<or> off + n \<le> off' \<Longrightarrow> get_le m (put_le n bs off v) off' = get_le m bs off'"
  by (simp add: get_le_def put_le_def put_at_outside)

lemma get_le_less: "get_le n bs off < 256 ^ n"
proof -
  have "of_le (take n (drop off bs)) < 256 ^ length (take n (drop off bs))" by (rule of_le_less)
  also have "\<dots> \<le> 256 ^ n" by (intro power_increasing) auto
  finally show ?thesis by (simp add: get_le_def)
qed

section \<open>Operations\<close>

text \<open>
  The file of a filesystem: reading gives the bytes that were read, and writing their number. A
  negative return value is \<^const>\<open>Err\<close>.
\<close>

record 'd file_ops =
  f_read :: "'d \<Rightarrow> nat \<Rightarrow> nat \<Rightarrow> (byte list \<times> 'd) result"
  f_write :: "'d \<Rightarrow> nat \<Rightarrow> byte list \<Rightarrow> (nat \<times> 'd) result"

definition add32 :: "nat \<Rightarrow> nat \<Rightarrow> nat" where
  "add32 a b = (a + b) mod 2 ^ 32"

definition mul32 :: "nat \<Rightarrow> nat \<Rightarrow> nat" where
  "mul32 a b = (a * b) mod 2 ^ 32"

definition logical_block_size :: nat where
  "logical_block_size = 512"

definition read_logical_blocks :: "'d file_ops \<Rightarrow> 'd \<Rightarrow> nat \<Rightarrow> nat \<Rightarrow> byte list \<Rightarrow> (status \<times> byte list \<times> 'd) result" where
  "read_logical_blocks F d block count buffer =
     (case f_read F d (mul32 block logical_block_size) (mul32 count logical_block_size) of
        Inl (Err e) \<Rightarrow> Inr (Some e, buffer, d)
      | Inl f \<Rightarrow> Inl f
      | Inr (bytes, d') \<Rightarrow> Inr (if length bytes \<noteq> mul32 count logical_block_size then Some EIO else None, put_at buffer 0 bytes, d'))"

definition read_logical_block :: "'d file_ops \<Rightarrow> 'd \<Rightarrow> nat \<Rightarrow> byte list \<Rightarrow> (status \<times> byte list \<times> 'd) result" where
  "read_logical_block F d block buffer = read_logical_blocks F d block 1 buffer"

definition write_logical_blocks :: "'d file_ops \<Rightarrow> 'd \<Rightarrow> nat \<Rightarrow> nat \<Rightarrow> byte list \<Rightarrow> (status \<times> 'd) result" where
  "write_logical_blocks F d block count buffer =
     (case f_write F d (mul32 block logical_block_size) (take (mul32 count logical_block_size) buffer) of
        Inl (Err e) \<Rightarrow> Inr (Some e, d)
      | Inl f \<Rightarrow> Inl f
      | Inr (n, d') \<Rightarrow> Inr (if n \<noteq> mul32 count logical_block_size then Some EIO else None, d'))"

definition write_logical_block :: "'d file_ops \<Rightarrow> 'd \<Rightarrow> nat \<Rightarrow> byte list \<Rightarrow> (status \<times> 'd) result" where
  "write_logical_block F d block buffer = write_logical_blocks F d block 1 buffer"

definition read_block :: "'d file_ops \<Rightarrow> nat \<Rightarrow> 'd \<Rightarrow> nat \<Rightarrow> byte list \<Rightarrow> (status \<times> byte list \<times> 'd) result" where
  "read_block F bs d block buffer =
     (case f_read F d (mul32 block bs) bs of
        Inl (Err e) \<Rightarrow> Inr (Some e, buffer, d)
      | Inl f \<Rightarrow> Inl f
      | Inr (bytes, d') \<Rightarrow> Inr (if bytes = [] then Some EIO else None, put_at buffer 0 bytes, d'))"

definition write_block :: "'d file_ops \<Rightarrow> nat \<Rightarrow> 'd \<Rightarrow> nat \<Rightarrow> byte list \<Rightarrow> (status \<times> 'd) result" where
  "write_block F bs d block buffer =
     (case f_write F d (mul32 block bs) buffer of
        Inl (Err e) \<Rightarrow> Inr (Some e, d)
      | Inl f \<Rightarrow> Inl f
      | Inr (n, d') \<Rightarrow> Inr (if n = 0 then Some EIO else None, d'))"

fun fs_read_blocks :: "'d file_ops \<Rightarrow> nat \<Rightarrow> 'd \<Rightarrow> nat \<Rightarrow> nat \<Rightarrow> nat \<Rightarrow> byte list \<Rightarrow> (status \<times> byte list \<times> 'd) result" where
  "fs_read_blocks F bs d block 0 i buffer = Inr (None, buffer, d)"
| "fs_read_blocks F bs d block (Suc count) i buffer =
     rbind (read_block F bs d (block + i) (take bs (drop (bs * i) buffer))) (\<lambda>(res, bytes, d').
     if res \<noteq> None then Inr (res, put_at buffer (bs * i) bytes, d')
     else fs_read_blocks F bs d' block count (Suc i) (put_at buffer (bs * i) bytes))"

fun fs_write_blocks :: "'d file_ops \<Rightarrow> nat \<Rightarrow> 'd \<Rightarrow> nat \<Rightarrow> nat \<Rightarrow> nat \<Rightarrow> byte list \<Rightarrow> (status \<times> 'd) result" where
  "fs_write_blocks F bs d block 0 i buffer = Inr (None, d)"
| "fs_write_blocks F bs d block (Suc count) i buffer =
     rbind (write_block F bs d (block + i) (take bs (drop (i * bs) buffer))) (\<lambda>(res, d').
     if res \<noteq> None then Inr (res, d') else fs_write_blocks F bs d' block count (Suc i) buffer)"

definition zero_block :: "'d file_ops \<Rightarrow> nat \<Rightarrow> 'd \<Rightarrow> nat \<Rightarrow> (status \<times> 'd) result" where
  "zero_block F bs d block = write_block F bs d block (replicate bs 0)"

definition truncate_block :: "'d file_ops \<Rightarrow> nat \<Rightarrow> byte list \<Rightarrow> 'd \<Rightarrow> nat \<Rightarrow> nat \<Rightarrow> (status \<times> 'd) result" where
  "truncate_block F bs junk d block new_size =
     (if new_size \<ge> bs then Inr (Some EOVERFLOW, d)
      else
        case f_read F d (mul32 block bs) bs of
          Inl (Err e) \<Rightarrow> Inr (Some e, d)
        | Inl f \<Rightarrow> Inl f
        | Inr (bytes, d') \<Rightarrow>
            let buf = put_at (stack_array bs junk) 0 bytes in
            write_block F bs d' block (put_at buf new_size (replicate (bs - new_size) 0)))"

section \<open>The file below\<close>

text \<open>
  What a filesystem relies on: within the capacity, a read returns the bytes of the file and a write
  replaces them. The capacity stays within the range of \<open>size_t\<close>.
\<close>

locale block_file =
  fixes F :: "'d file_ops" and good :: "'d \<Rightarrow> bool" and cells :: "'d \<Rightarrow> nat \<Rightarrow> byte" and cap :: nat
  assumes read_law: "good d \<Longrightarrow> off + n \<le> cap \<Longrightarrow>
      \<exists>d'. f_read F d off n = Inr (map (cells d) [off..<off + n], d') \<and> good d' \<and> cells d' = cells d"
    and write_law: "good d \<Longrightarrow> off + length bytes \<le> cap \<Longrightarrow>
      \<exists>d'. f_write F d off bytes = Inr (length bytes, d') \<and> good d' \<and> cells d' = byte_patch (cells d) off bytes"
    and cap_bound: "cap \<le> 2 ^ 32"

definition partition_file :: "'d disk_ops \<Rightarrow> nat \<Rightarrow> nat \<Rightarrow> partition_device \<Rightarrow> 'd disk file_ops" where
  "partition_file ops time max_block p =
     \<lparr>f_read = (\<lambda>s off n. rbind (partition_read ops time max_block p s off (replicate n 0) n) (\<lambda>(m, buf, s'). Inr (take m buf, s'))),
      f_write = (\<lambda>s off bytes. partition_write ops time max_block p s off bytes (length bytes))\<rparr>"

text \<open>
  The bytes of a partition that the disk has and that a \<open>size_t\<close> can address: \<open>start + _offset\<close> does
  not wrap for them.
\<close>

definition part_cap :: "'d disk_ops \<Rightarrow> nat \<Rightarrow> partition_device \<Rightarrow> nat" where
  "part_cap ops max_block p = min (max_block * block_size ops) (2 ^ 32 - 1) - part_offset p"

locale disk_partition =
  fixes ops :: "'d disk_ops" and time max_block :: nat and p :: partition_device
  assumes device: "disk_device ops" and last_block: "max_block < 2 ^ 32"
    and on_disk: "part_offset p \<le> max_block * block_size ops" and offset_32: "part_offset p < 2 ^ 32"
begin

lemma partition_place:
  assumes "off + n \<le> part_cap ops max_block p"
  shows "(off + part_offset p) mod 2 ^ 32 = off + part_offset p" "off + part_offset p + n \<le> max_block * block_size ops"
    "off + part_offset p + n < 2 ^ 32"
proof -
  have "off + part_offset p + n \<le> max (part_offset p) (min (max_block * block_size ops) (2 ^ 32 - 1))"
    using assms by (simp add: part_cap_def)
  then show *: "off + part_offset p + n \<le> max_block * block_size ops" "off + part_offset p + n < 2 ^ 32"
    using on_disk offset_32 by linarith+
  then show "(off + part_offset p) mod 2 ^ 32 = off + part_offset p" by simp
qed

lemma partition_reads:
  assumes "disk_wf ops s" "off + n \<le> part_cap ops max_block p"
  shows "\<exists>s'. f_read (partition_file ops time max_block p) s off n = Inr (map (\<lambda>i. disk_byte ops s (i + part_offset p)) [off..<off + n], s') \<and>
    disk_wf ops s' \<and> disk_byte ops s' = disk_byte ops s"
proof -
  let ?off = "off + part_offset p"
  note pl = partition_place [OF assms(2)]
  obtain s' where s': "pata_read ops time max_block s ?off (replicate n 0) n =
      Inr (min n (Suc max_block * block_size ops - ?off), put_at (replicate n 0) 0 (map (disk_byte ops s) [?off..<?off + min n (Suc max_block * block_size ops - ?off)]), s')"
      "same_contents ops s s'" by (rule pata_read_ok [OF device last_block assms(1), of n "replicate n 0" time ?off]) auto
  have n: "min n (Suc max_block * block_size ops - ?off) = n" using pl(2) by simp
  have shift: "map (disk_byte ops s) [?off..<?off + n] = map (\<lambda>i. disk_byte ops s (i + part_offset p)) [off..<off + n]"
    by (rule nth_equalityI) (auto simp: ac_simps)
  show ?thesis using s' unfolding n 
    unfolding partition_file_def partition_read_def file_ops.simps pl(1) by (auto simp: put_at_def shift same_contents_def disk_byte_same)
qed

lemma partition_writes:
  assumes "disk_wf ops s" "off + length bytes \<le> part_cap ops max_block p"
  shows "\<exists>s'. f_write (partition_file ops time max_block p) s off bytes = Inr (length bytes, s') \<and> disk_wf ops s' \<and>
    (\<lambda>i. disk_byte ops s' (i + part_offset p)) = byte_patch (\<lambda>i. disk_byte ops s (i + part_offset p)) off bytes"
proof -
  let ?off = "off + part_offset p"
  note pl = partition_place [OF assms(2)]
  have bs: "0 < block_size ops" by (rule disk_deviceD(1) [OF device])
  have room: "(?off + length bytes) mod 2 ^ 32 div block_size ops \<le> max_block"
    using div_le_mono [OF pl(2), of "block_size ops"] bs pl(3) by simp
  have "2 ^ 32 * 1 \<le> 2 ^ 32 * block_size ops" using bs by (intro mult_le_mono2) simp
  then have top: "?off + length bytes \<le> 2 ^ 32 * block_size ops" using pl(3) by linarith
  obtain s' where "pata_write ops time max_block s ?off bytes (length bytes) = Inr (length bytes, s')" "disk_wf ops s'"
    "disk_byte ops s' = byte_patch (disk_byte ops s) ?off (take (length bytes) bytes)"
    by (rule pata_write_ok [OF device assms(1) le_refl room top, of time])
  then show ?thesis unfolding partition_file_def partition_write_def file_ops.simps pl(1) by (auto simp: byte_patch_def fun_eq_iff)
qed

end

sublocale disk_partition \<subseteq> part: block_file "partition_file ops time max_block p" "disk_wf ops"
  "\<lambda>s i. disk_byte ops s (i + part_offset p)" "part_cap ops max_block p"
proof unfold_locales
  fix d off n
  assume "disk_wf ops d" "off + n \<le> part_cap ops max_block p"
  then show "\<exists>d'. f_read (partition_file ops time max_block p) d off n = Inr (map (\<lambda>i. disk_byte ops d (i + part_offset p)) [off..<off + n], d') \<and>
      disk_wf ops d' \<and> (\<lambda>i. disk_byte ops d' (i + part_offset p)) = (\<lambda>i. disk_byte ops d (i + part_offset p))"
    using partition_reads [of d off n] by auto
next
  show "part_cap ops max_block p \<le> 2 ^ 32" by (simp add: part_cap_def)
qed (use partition_writes in auto)

context disk_partition
begin

lemma partition_is_file:
  "block_file (partition_file ops time max_block p) (disk_wf ops) (\<lambda>s i. disk_byte ops s (i + part_offset p)) (part_cap ops max_block p)"
  by (rule part.block_file_axioms)

end

lemma ram_partition: "disk_partition (ram_disk 512) 100 (partition_new (ram_disk 512) 1)"
proof
  show "disk_device (ram_disk 512)" by (rule ram_disk_device) (simp_all add: PAGE_SIZE_def)
  show "part_offset (partition_new (ram_disk 512) 1) \<le> 100 * block_size (ram_disk 512)" "part_offset (partition_new (ram_disk 512) 1) < 2 ^ 32"
    by (simp_all add: partition_new_def)
qed simp

interpretation ram_partition: disk_partition "ram_disk 512" 0 100 "partition_new (ram_disk 512) 1"
  by (rule ram_partition)

section \<open>Blocks\<close>

text \<open>The blocks of a file.\<close>

definition file_block :: "(nat \<Rightarrow> byte) \<Rightarrow> nat \<Rightarrow> nat \<Rightarrow> byte list" where
  "file_block c bs b = map c [b * bs..<b * bs + bs]"

lemma length_file_block [simp]: "length (file_block c bs b) = bs"
  by (simp add: file_block_def)

lemma file_block_patch_other:
  assumes "b * bs + bs \<le> off \<or> off + length xs \<le> b * bs"
  shows "file_block (byte_patch c off xs) bs b = file_block c bs b"
  using assms by (auto simp: file_block_def byte_patch_def)

lemma file_block_patch:
  assumes "length xs = bs"
  shows "file_block (byte_patch c (b * bs) xs) bs b' = (if b' = b then xs else file_block c bs b')"
proof (cases "b' = b")
  case True
  then show ?thesis using assms by (intro nth_equalityI) (simp_all add: file_block_def byte_patch_def)
next
  case False
  then have "Suc b' * bs \<le> b * bs \<or> Suc b * bs \<le> b' * bs" using mult_le_mono1 [of "Suc b'" b bs] mult_le_mono1 [of "Suc b" b' bs] by linarith
  then show ?thesis using False assms by (simp add: file_block_patch_other add.commute)
qed

lemma mul32_small: "a * b < 2 ^ 32 \<Longrightarrow> mul32 a b = a * b"
  by (simp add: mul32_def)

context block_file
begin

lemma block_offset: "b * bs + bs \<le> cap \<Longrightarrow> 0 < bs \<Longrightarrow> mul32 b bs = b * bs"
  using cap_bound by (intro mul32_small) linarith

lemma read_block_ok:
  assumes "good d" "b * bs + bs \<le> cap" "0 < bs" "length buf = bs"
  obtains d' where "read_block F bs d b buf = Inr (None, file_block (cells d) bs b, d')" "good d'" "cells d' = cells d"
proof -
  obtain d' where "f_read F d (b * bs) bs = Inr (file_block (cells d) bs b, d')" "good d'" "cells d' = cells d"
    using read_law [OF assms(1,2)] by (auto simp: file_block_def)
  moreover have "file_block (cells d) bs b \<noteq> []" using assms(3) by (simp add: file_block_def)
  ultimately show ?thesis using assms by (intro that [of d']) (simp_all add: read_block_def block_offset put_at_def)
qed

lemma write_block_ok:
  assumes "good d" "b * bs + bs \<le> cap" "0 < bs" "length buf = bs"
  obtains d' where "write_block F bs d b buf = Inr (None, d')" "good d'" "file_block (cells d') bs = (file_block (cells d) bs)(b := buf)"
    "cells d' = byte_patch (cells d) (b * bs) buf"
proof -
  obtain d' where "f_write F d (b * bs) buf = Inr (length buf, d')" "good d'" "cells d' = byte_patch (cells d) (b * bs) buf"
    using write_law [of d "b * bs" buf] assms by auto
  moreover have "file_block (byte_patch (cells d) (b * bs) buf) bs = (file_block (cells d) bs)(b := buf)"
    using assms(4) by (simp add: file_block_patch fun_eq_iff)
  ultimately show ?thesis using assms by (intro that [of d']) (simp_all add: write_block_def block_offset)
qed

end

end
