(* ===== verification/Ext2Filesystem.thy ===== *)
theory Ext2Filesystem
  imports BlockFile
begin

text \<open>
  The ext2 filesystem (\<open>src/kernel/filesystem/ext2/Ext2Filesystem.cpp\<close>, \<open>Ext2BlockGroup.cpp\<close>): the
  superblock, the descriptors of block groups and the allocation of blocks from their bitmaps. The
  superblock is the packed structure itself, a list of 512 bytes.
\<close>

unbundle bit_operations_syntax

section \<open>State\<close>

record block_group =
  g_num :: nat
  block_bitmap_block :: nat
  inode_bitmap_block :: nat
  inode_table_block :: nat
  g_free_blocks :: nat
  g_free_inodes :: nat
  g_num_directories :: nat

record 'd ext2 =
  e_file :: 'd
  e_bs :: nat
  superblock :: "byte list"
  num_block_groups :: nat
  inodes_per_block :: nat
  block_pointers_per_block :: nat
  block_groups :: "nat \<Rightarrow> block_group option"

definition sb_total_blocks :: "byte list \<Rightarrow> nat" where "sb_total_blocks sb = get32 sb 4"
definition sb_free_blocks :: "byte list \<Rightarrow> nat" where "sb_free_blocks sb = get32 sb 12"
definition sb_free_inodes :: "byte list \<Rightarrow> nat" where "sb_free_inodes sb = get32 sb 16"
definition sb_block_size :: "byte list \<Rightarrow> nat" where "sb_block_size sb = get32 sb 24"
definition sb_blocks_per_group :: "byte list \<Rightarrow> nat" where "sb_blocks_per_group sb = get32 sb 32"
definition sb_inodes_per_group :: "byte list \<Rightarrow> nat" where "sb_inodes_per_group sb = get32 sb 40"
definition sb_version_major :: "byte list \<Rightarrow> nat" where "sb_version_major sb = get32 sb 76"
definition sb_inode_size :: "byte list \<Rightarrow> nat" where "sb_inode_size sb = get16 sb 88"
definition sb_signature :: "byte list \<Rightarrow> nat" where "sb_signature sb = get16 sb 56"

text \<open>Increment and decrement of a counter of 16 or 32 bits.\<close>

definition inc_mod :: "nat \<Rightarrow> nat \<Rightarrow> nat" where "inc_mod w x = (x + 1) mod 2 ^ w"
definition dec_mod :: "nat \<Rightarrow> nat \<Rightarrow> nat" where "dec_mod w x = (x + 2 ^ w - 1) mod 2 ^ w"

section \<open>Superblock\<close>

definition read_superblock :: "'d file_ops \<Rightarrow> 'd \<Rightarrow> byte list \<Rightarrow> (byte list \<times> 'd) result" where
  "read_superblock F d sb =
     rbind (read_logical_block F d 2 sb) (\<lambda>(_, sb1, d').
     Inr (if sb_version_major sb1 < 1 then put16 (put32 sb1 84 11) 88 128 else sb1, d'))"

definition write_superblock :: "'d file_ops \<Rightarrow> 'd ext2 \<Rightarrow> 'd ext2 result" where
  "write_superblock F fs = rbind (write_logical_block F (e_file fs) 2 (superblock fs)) (\<lambda>(_, d). Inr (fs\<lparr>e_file := d\<rparr>))"

definition ext2_init :: "'d file_ops \<Rightarrow> byte list \<Rightarrow> 'd \<Rightarrow> 'd ext2 result" where
  "ext2_init F junk d =
     rbind (read_superblock F d (stack_array 512 junk)) (\<lambda>(sb, d').
     if sb_block_size sb \<ge> 32 \<or> sb_blocks_per_group sb = 0 \<or> sb_inode_size sb = 0 then Inl Undefined
     else
       let bs = mul32 1024 (2 ^ sb_block_size sb) in
       if bs = 0 then Inl Undefined
       else Inr \<lparr>e_file = d', e_bs = bs, superblock = sb,
              num_block_groups = (sb_total_blocks sb + sb_blocks_per_group sb - 1) mod 2 ^ 32 div sb_blocks_per_group sb,
              inodes_per_block = bs div sb_inode_size sb, block_pointers_per_block = bs div 4, block_groups = (\<lambda>_. None)\<rparr>)"

definition ext2_probe :: "'d file_ops \<Rightarrow> byte list \<Rightarrow> 'd \<Rightarrow> (bool \<times> 'd) result" where
  "ext2_probe F junk d =
     (case f_read F d 1024 512 of
        Inl (Err e) \<Rightarrow> Inr (sb_signature (stack_array 512 junk) = 0xEF53, d)
      | Inl f \<Rightarrow> Inl f
      | Inr (bytes, d') \<Rightarrow> Inr (sb_signature (put_at (stack_array 512 junk) 0 bytes) = 0xEF53, d'))"

section \<open>Block groups\<close>

text \<open>The calls of \<open>read_block\<close> and \<open>write_block\<close> on the filesystem's file.\<close>

definition e2_read :: "'d file_ops \<Rightarrow> 'd ext2 \<Rightarrow> nat \<Rightarrow> byte list \<Rightarrow> (status \<times> byte list \<times> 'd ext2) result" where
  "e2_read F fs block buf = rbind (read_block F (e_bs fs) (e_file fs) block buf) (\<lambda>(res, buf', d). Inr (res, buf', fs\<lparr>e_file := d\<rparr>))"

definition e2_write :: "'d file_ops \<Rightarrow> 'd ext2 \<Rightarrow> nat \<Rightarrow> byte list \<Rightarrow> (status \<times> 'd ext2) result" where
  "e2_write F fs block buf = rbind (write_block F (e_bs fs) (e_file fs) block buf) (\<lambda>(res, d). Inr (res, fs\<lparr>e_file := d\<rparr>))"

definition descriptor_block :: "'d ext2 \<Rightarrow> nat \<Rightarrow> nat" where
  "descriptor_block fs num = 2 + (num * 32) div e_bs fs"

definition descriptor_offset :: "'d ext2 \<Rightarrow> nat \<Rightarrow> nat" where
  "descriptor_offset fs num = 32 * (num mod (e_bs fs div 32))"

definition read_block_group_raw :: "'d file_ops \<Rightarrow> byte list \<Rightarrow> 'd ext2 \<Rightarrow> nat \<Rightarrow> (status \<times> byte list \<times> 'd ext2) result" where
  "read_block_group_raw F junk fs num =
     rbind (e2_read F fs (descriptor_block fs num) (stack_array (e_bs fs) junk)) (\<lambda>(ret, block_buf, fs').
     Inr (ret, take 32 (drop (descriptor_offset fs num) block_buf), fs'))"

definition write_block_group_raw :: "'d file_ops \<Rightarrow> byte list \<Rightarrow> 'd ext2 \<Rightarrow> nat \<Rightarrow> byte list \<Rightarrow> (status \<times> 'd ext2) result" where
  "write_block_group_raw F junk fs num buffer =
     rbind (e2_read F fs (descriptor_block fs num) (stack_array (e_bs fs) junk)) (\<lambda>(res, block_buf, fs').
     if res \<noteq> None then Inr (res, fs')
     else e2_write F fs' (descriptor_block fs num) (put_at block_buf (descriptor_offset fs num) buffer))"

definition group_of_descriptor :: "nat \<Rightarrow> byte list \<Rightarrow> block_group" where
  "group_of_descriptor num buf =
     \<lparr>g_num = num, block_bitmap_block = get32 buf 0, inode_bitmap_block = get32 buf 4, inode_table_block = get32 buf 8,
      g_free_blocks = get16 buf 12, g_free_inodes = get16 buf 14, g_num_directories = get16 buf 16\<rparr>"

definition descriptor_of_group :: "byte list \<Rightarrow> block_group \<Rightarrow> byte list" where
  "descriptor_of_group junk g =
     put16 (put16 (put16 (put32 (put32 (put32 (stack_array 32 junk) 0 (block_bitmap_block g)) 4 (inode_bitmap_block g))
       8 (inode_table_block g)) 12 (g_free_blocks g)) 14 (g_free_inodes g)) 16 (g_num_directories g)"

definition group_write :: "'d file_ops \<Rightarrow> byte list \<Rightarrow> block_group \<Rightarrow> 'd ext2 \<Rightarrow> 'd ext2 result" where
  "group_write F junk g fs = rbind (write_block_group_raw F junk fs (g_num g) (descriptor_of_group junk g)) (\<lambda>(_, fs'). Inr fs')"

definition first_block :: "'d ext2 \<Rightarrow> nat \<Rightarrow> nat" where
  "first_block fs num = num * sb_blocks_per_group (superblock fs) + (if e_bs fs = 1024 then 1 else 0)"

text \<open>\<open>get_block_group\<close>, which lets the number of groups through; the constructor reads the descriptor.\<close>

definition get_block_group :: "'d file_ops \<Rightarrow> byte list \<Rightarrow> 'd ext2 \<Rightarrow> nat \<Rightarrow> (block_group option \<times> 'd ext2) result" where
  "get_block_group F junk fs num =
     (if num > num_block_groups fs then Inr (None, fs)
      else if num = num_block_groups fs then Inl Undefined
      else
        case block_groups fs num of
          Some g \<Rightarrow> Inr (Some g, fs)
        | None \<Rightarrow>
            rbind (read_block_group_raw F junk fs num) (\<lambda>(_, buf, fs').
            let g = group_of_descriptor num buf in
            Inr (Some g, fs'\<lparr>block_groups := (block_groups fs')(num \<mapsto> g)\<rparr>)))"

definition set_group :: "block_group \<Rightarrow> 'd ext2 \<Rightarrow> 'd ext2" where
  "set_group g fs = fs\<lparr>block_groups := (block_groups fs)(g_num g \<mapsto> g)\<rparr>"

section \<open>Bitmaps\<close>

definition get_bitmap_bit :: "byte list \<Rightarrow> nat \<Rightarrow> bool" where
  "get_bitmap_bit bitmap index \<longleftrightarrow> bitmap ! (index div 8) AND push_bit (index mod 8) 1 \<noteq> 0"

definition set_bitmap_bit :: "byte list \<Rightarrow> nat \<Rightarrow> bool \<Rightarrow> byte list" where
  "set_bitmap_bit bitmap index state =
     (if state then bitmap[index div 8 := bitmap ! (index div 8) OR push_bit (index mod 8) 1]
      else bitmap[index div 8 := bitmap ! (index div 8) AND NOT (push_bit (index mod 8) 1)])"

section \<open>Allocation of blocks\<close>

text \<open>The loop over the bits of a group's bitmap.\<close>

fun alloc_scan :: "'d file_ops \<Rightarrow> nat \<Rightarrow> bool \<Rightarrow> nat \<Rightarrow> nat list \<Rightarrow> byte list \<Rightarrow> nat list \<Rightarrow> 'd ext2 \<Rightarrow> (byte list \<times> nat list \<times> 'd ext2) result" where
  "alloc_scan F n zero_out num [] buf ret fs = Inr (buf, ret, fs)"
| "alloc_scan F n zero_out num (bi # bis) buf ret fs =
     (if length buf \<le> bi div 8 then Inl Undefined
      else if get_bitmap_bit buf bi then alloc_scan F n zero_out num bis buf ret fs
      else
        let buf' = set_bitmap_bit buf bi True; b = bi + first_block fs num in
        rbind (if zero_out then zero_block F (e_bs fs) (e_file fs) b else Inr (None, e_file fs)) (\<lambda>(_, d).
        case block_groups fs num of
          None \<Rightarrow> Inl Undefined
        | Some g \<Rightarrow>
            let fs' = set_group (g\<lparr>g_free_blocks := dec_mod 16 (g_free_blocks g)\<rparr>) (fs\<lparr>e_file := d,
                        superblock := put32 (superblock fs) 12 (dec_mod 32 (sb_free_blocks (superblock fs)))\<rparr>) in
            if length ret + 1 = n then Inr (buf', ret @ [b], fs')
            else alloc_scan F n zero_out num bis buf' (ret @ [b]) fs'))"

definition allocate_blocks_in_group :: "'d file_ops \<Rightarrow> byte list \<Rightarrow> 'd ext2 \<Rightarrow> nat \<Rightarrow> nat \<Rightarrow> bool \<Rightarrow> ((errno + nat list) \<times> 'd ext2) result" where
  "allocate_blocks_in_group F junk fs num n zero_out =
     (case block_groups fs num of
        None \<Rightarrow> Inl Undefined
      | Some g \<Rightarrow>
          if g_free_blocks g < n then Inr (Inl ENOSPC, fs)
          else if n = 0 then Inr (Inr [], fs)
          else
            rbind (e2_read F fs (block_bitmap_block g) (stack_array (e_bs fs) junk)) (\<lambda>(res, block_buf, fs1).
            case res of
              Some e \<Rightarrow> Inr (Inl e, fs1)
            | None \<Rightarrow>
                rbind (alloc_scan F n zero_out num [0..<sb_blocks_per_group (superblock fs1)] block_buf [] fs1) (\<lambda>(buf, ret, fs2).
                case block_groups fs2 num of
                  None \<Rightarrow> Inl Undefined
                | Some g2 \<Rightarrow>
                    let g3 = (if length ret \<noteq> n then g2\<lparr>g_free_blocks := 0\<rparr> else g2) in
                    rbind (write_superblock F (set_group g3 fs2)) (\<lambda>fs3.
                    rbind (group_write F junk g3 fs3) (\<lambda>fs4.
                    rbind (e2_write F fs4 (block_bitmap_block g3) buf) (\<lambda>(res, fs5).
                    case res of Some e \<Rightarrow> Inr (Inl e, fs5) | None \<Rightarrow> Inr (Inr ret, fs5)))))))"

text \<open>The first group that has room for all blocks.\<close>

fun find_group :: "'d file_ops \<Rightarrow> byte list \<Rightarrow> nat \<Rightarrow> nat list \<Rightarrow> 'd ext2 \<Rightarrow> (nat option \<times> 'd ext2) result" where
  "find_group F junk n [] fs = Inr (None, fs)"
| "find_group F junk n (bgi # bgis) fs =
     rbind (get_block_group F junk fs bgi) (\<lambda>(bg, fs').
     case bg of
       None \<Rightarrow> Inr (None, fs')
     | Some g \<Rightarrow> if g_free_blocks g \<ge> n then Inr (Some bgi, fs') else find_group F junk n bgis fs')"

text \<open>The first group with the most free blocks; \<open>best\<close> is the one found so far.\<close>

fun most_spacious :: "'d file_ops \<Rightarrow> byte list \<Rightarrow> nat list \<Rightarrow> block_group option \<Rightarrow> 'd ext2 \<Rightarrow> (block_group option \<times> 'd ext2) result" where
  "most_spacious F junk [] best fs = Inr (best, fs)"
| "most_spacious F junk (bgi # bgis) best fs =
     rbind (get_block_group F junk fs bgi) (\<lambda>(bg, fs').
     case bg of
       None \<Rightarrow> most_spacious F junk bgis best fs'
     | Some g \<Rightarrow>
         most_spacious F junk bgis
           (case best of None \<Rightarrow> Some g | Some m \<Rightarrow> if g_free_blocks g > g_free_blocks m then Some g else best) fs')"

partial_function (option) alloc_loop ::
  "'d file_ops \<Rightarrow> byte list \<Rightarrow> bool \<Rightarrow> nat \<Rightarrow> nat list \<Rightarrow> 'd ext2 \<Rightarrow> ((errno + nat list) \<times> 'd ext2) result option" where
  "alloc_loop F junk zero_out n ret fs =
     (if n = 0 then Some (Inr (Inr ret, fs))
      else
        case most_spacious F junk [0..<num_block_groups fs] None fs of
          Inl f \<Rightarrow> Some (Inl f)
        | Inr (best, fs1) \<Rightarrow>
            (case best of
               None \<Rightarrow> Some (Inl Undefined)
             | Some m \<Rightarrow>
                 if g_free_blocks m = 0 then Some (Inr (Inl ENOSPC, fs1))
                 else
                   case allocate_blocks_in_group F junk fs1 (g_num m) (min (g_free_blocks m) n) zero_out of
                     Inl f \<Rightarrow> Some (Inl f)
                   | Inr (res, fs2) \<Rightarrow>
                       (case res of
                          Inl e \<Rightarrow> Some (Inr (Inl e, fs2))
                        | Inr bs \<Rightarrow> alloc_loop F junk zero_out (n - length bs) (ret @ bs) fs2)))"

definition allocate_blocks :: "'d file_ops \<Rightarrow> byte list \<Rightarrow> 'd ext2 \<Rightarrow> nat \<Rightarrow> bool \<Rightarrow> ((errno + nat list) \<times> 'd ext2) result" where
  "allocate_blocks F junk fs n zero_out =
     (if n = 0 then Inr (Inl EINVAL, fs)
      else
        rbind (find_group F junk n [0..<num_block_groups fs] fs) (\<lambda>(target, fs').
        case target of
          Some num \<Rightarrow> allocate_blocks_in_group F junk fs' num n zero_out
        | None \<Rightarrow> returned (alloc_loop F junk zero_out n [] fs')))"

definition allocate_block :: "'d file_ops \<Rightarrow> byte list \<Rightarrow> 'd ext2 \<Rightarrow> bool \<Rightarrow> (nat \<times> 'd ext2) result" where
  "allocate_block F junk fs zero_out =
     rbind (allocate_blocks F junk fs 1 zero_out) (\<lambda>(res, fs').
     case res of
       Inl e \<Rightarrow> Inr (0, fs')
     | Inr [] \<Rightarrow> Inr (0, fs')
     | Inr (b # _) \<Rightarrow> Inr (b, fs'))"

text \<open>\<open>free_block\<close> counts the block as free in memory and writes the bitmap alone.\<close>

definition ext2_free_block :: "'d file_ops \<Rightarrow> byte list \<Rightarrow> 'd ext2 \<Rightarrow> nat \<Rightarrow> 'd ext2 result" where
  "ext2_free_block F junk fs block =
     (if block = 0 then Inr fs
      else if sb_blocks_per_group (superblock fs) = 0 then Inl Undefined
      else
        rbind (get_block_group F junk fs ((block - 1) div sb_blocks_per_group (superblock fs))) (\<lambda>(bg, fs1).
        case bg of
          None \<Rightarrow> Inr fs1
        | Some g \<Rightarrow>
            rbind (e2_read F fs1 (block_bitmap_block g) (stack_array (e_bs fs1) junk)) (\<lambda>(_, buf, fs2).
            let index = block - first_block fs2 (g_num g) in
            if block < first_block fs2 (g_num g) \<or> length buf \<le> index div 8 then Inl Undefined
            else
              rbind (e2_write F fs2 (block_bitmap_block g) (set_bitmap_bit buf index False)) (\<lambda>(_, fs3).
              Inr (set_group (g\<lparr>g_free_blocks := inc_mod 16 (g_free_blocks g)\<rparr>)
                (fs3\<lparr>superblock := put32 (superblock fs3) 12 (inc_mod 32 (sb_free_blocks (superblock fs3)))\<rparr>))))))"

definition ext2_free_blocks :: "'d file_ops \<Rightarrow> byte list \<Rightarrow> nat list \<Rightarrow> 'd ext2 \<Rightarrow> 'd ext2 result" where
  "ext2_free_blocks F junk blocks = rfold (\<lambda>b fs. ext2_free_block F junk fs b) blocks"

end
