(* ===== verification/Ext2Alloc.thy ===== *)
theory Ext2Alloc
  imports Ext2Filesystem
begin

text \<open>
  Allocation of blocks in an ext2 filesystem: the set of free blocks as the bitmaps record it, and
  what \<open>allocate_blocks\<close> and \<open>free_block\<close> do to it.
\<close>

unbundle bit_operations_syntax

section \<open>Bits\<close>

lemma bitmap_bit: "get_bitmap_bit bm j \<longleftrightarrow> bit (bm ! (j div 8)) (j mod 8)"
  by (simp add: get_bitmap_bit_def bit_iff_and_push_bit_not_eq_0)

lemma set_bitmap_length [simp]: "length (set_bitmap_bit bm j v) = length bm"
  by (simp add: set_bitmap_bit_def)

lemma get_set_bitmap:
  assumes "j div 8 < length bm"
  shows "get_bitmap_bit (set_bitmap_bit bm j v) k \<longleftrightarrow> (if k = j then v else get_bitmap_bit bm k)"
proof (cases "k div 8 = j div 8")
  case True
  then have "k = j \<longleftrightarrow> k mod 8 = j mod 8" by (metis div_mult_mod_eq)
  moreover have "bit (w :: byte) (k mod 8) \<longleftrightarrow> bit w (k mod 8) \<and> k mod 8 < 8" for w by simp
  ultimately show ?thesis using True assms
    by (auto simp: bitmap_bit set_bitmap_bit_def bit_simps possible_bit_def)
next
  case False
  then show ?thesis by (auto simp: bitmap_bit set_bitmap_bit_def)
qed

definition mark_bits :: "nat list \<Rightarrow> byte list \<Rightarrow> byte list" where
  "mark_bits js bm = fold (\<lambda>j b. set_bitmap_bit b j True) js bm"

lemma length_mark_bits [simp]: "length (mark_bits js bm) = length bm"
  by (induction js arbitrary: bm) (simp_all add: mark_bits_def)

lemma get_mark_bits: "\<forall>j \<in> set js. j div 8 < length bm \<Longrightarrow> get_bitmap_bit (mark_bits js bm) k \<longleftrightarrow> k \<in> set js \<or> get_bitmap_bit bm k"
proof (induction js arbitrary: bm)
  case (Cons j js)
  then show ?case using Cons.IH [of "set_bitmap_bit bm j True"] by (simp add: mark_bits_def get_set_bitmap)
qed (simp add: mark_bits_def)

definition first_free :: "nat \<Rightarrow> byte list \<Rightarrow> nat list \<Rightarrow> nat list" where
  "first_free k buf js = take k (filter (\<lambda>j. \<not> get_bitmap_bit buf j) js)"

lemma first_free_Cons:
  assumes "bi div 8 < length buf" "bi \<notin> set bis"
  shows "first_free (Suc k) buf (bi # bis) = (if get_bitmap_bit buf bi then first_free (Suc k) buf bis else bi # first_free k (set_bitmap_bit buf bi True) bis)"
proof -
  have "filter (\<lambda>j. \<not> get_bitmap_bit (set_bitmap_bit buf bi True) j) bis = filter (\<lambda>j. \<not> get_bitmap_bit buf j) bis"
    using assms by (intro filter_cong) (auto simp: get_set_bitmap)
  then show ?thesis by (simp add: first_free_def)
qed

section \<open>Blocks of the filesystem\<close>

text \<open>Two states of a filesystem with the same geometry; the counters of the superblock may differ.\<close>

definition same_geometry :: "'d ext2 \<Rightarrow> 'd ext2 \<Rightarrow> bool" where
  "same_geometry fs fs' \<longleftrightarrow> e_bs fs' = e_bs fs \<and> num_block_groups fs' = num_block_groups fs \<and> inodes_per_block fs' = inodes_per_block fs \<and>
     block_pointers_per_block fs' = block_pointers_per_block fs \<and> length (superblock fs') = length (superblock fs) \<and>
     (\<forall>n off. 20 \<le> off \<or> off + n \<le> 12 \<longrightarrow> get_le n (superblock fs') off = get_le n (superblock fs) off)"

lemma same_geometry_refl [simp]: "same_geometry fs fs"
  by (simp add: same_geometry_def)

lemma same_geometry_trans: "same_geometry fs fs1 \<Longrightarrow> same_geometry fs1 fs2 \<Longrightarrow> same_geometry fs fs2"
  by (simp add: same_geometry_def)

lemma same_geometryD:
  assumes "same_geometry fs fs'"
  shows "e_bs fs' = e_bs fs" "num_block_groups fs' = num_block_groups fs" "length (superblock fs') = length (superblock fs)"
    "inodes_per_block fs' = inodes_per_block fs" "block_pointers_per_block fs' = block_pointers_per_block fs"
    "sb_blocks_per_group (superblock fs') = sb_blocks_per_group (superblock fs)" "first_block fs' = first_block fs"
    "sb_inodes_per_group (superblock fs') = sb_inodes_per_group (superblock fs)" "sb_inode_size (superblock fs') = sb_inode_size (superblock fs)"
    "descriptor_block fs' = descriptor_block fs" "descriptor_offset fs' = descriptor_offset fs"
  using assms by (auto simp: same_geometry_def sb_blocks_per_group_def first_block_def sb_inodes_per_group_def sb_inode_size_def
      descriptor_block_def descriptor_offset_def)

lemma same_geometry_file [simp]: "same_geometry fs (fs'\<lparr>e_file := d\<rparr>) \<longleftrightarrow> same_geometry fs fs'"
  "same_geometry fs (fs'\<lparr>block_groups := bg\<rparr>) \<longleftrightarrow> same_geometry fs fs'" "same_geometry fs (set_group g fs') \<longleftrightarrow> same_geometry fs fs'"
  by (simp_all add: same_geometry_def set_group_def)

lemma same_geometry_count: "length (superblock fs) = 512 \<Longrightarrow> off = 12 \<or> off = 16 \<Longrightarrow> same_geometry fs (fs\<lparr>superblock := put32 (superblock fs) off v\<rparr>)"
  by (auto simp: same_geometry_def get_put_other)

text \<open>
  A group as the filesystem sees it, in memory or still on the disk; the free blocks by its bitmap;
  and the invariant: descriptors and bitmaps have blocks of their own, the blocks that are free lie
  in the file and hold none of them, and the counters in the descriptors are right.
\<close>

definition grp :: "(nat \<Rightarrow> byte list) \<Rightarrow> 'd ext2 \<Rightarrow> nat \<Rightarrow> block_group" where
  "grp c fs i = (case block_groups fs i of
     Some g \<Rightarrow> g
   | None \<Rightarrow> group_of_descriptor i (take 32 (drop (descriptor_offset fs i) (c (descriptor_block fs i)))))"

definition bitmap_of :: "(nat \<Rightarrow> byte list) \<Rightarrow> 'd ext2 \<Rightarrow> nat \<Rightarrow> nat" where
  "bitmap_of c fs i = block_bitmap_block (grp c fs i)"

definition free_indices :: "(nat \<Rightarrow> byte list) \<Rightarrow> 'd ext2 \<Rightarrow> nat \<Rightarrow> nat set" where
  "free_indices c fs i = {j. j < sb_blocks_per_group (superblock fs) \<and> \<not> get_bitmap_bit (c (bitmap_of c fs i)) j}"

definition free_of_group :: "(nat \<Rightarrow> byte list) \<Rightarrow> 'd ext2 \<Rightarrow> nat \<Rightarrow> nat set" where
  "free_of_group c fs i = (\<lambda>j. j + first_block fs i) ` free_indices c fs i"

definition free_block_set :: "(nat \<Rightarrow> byte list) \<Rightarrow> 'd ext2 \<Rightarrow> nat set" where
  "free_block_set c fs = (\<Union>i < num_block_groups fs. free_of_group c fs i)"

definition reserved_blocks :: "(nat \<Rightarrow> byte list) \<Rightarrow> 'd ext2 \<Rightarrow> nat set" where
  "reserved_blocks c fs = insert (1024 div e_bs fs) (descriptor_block fs ` {..<num_block_groups fs} \<union> bitmap_of c fs ` {..<num_block_groups fs})"

definition group_ok :: "nat \<Rightarrow> (nat \<Rightarrow> byte list) \<Rightarrow> 'd ext2 \<Rightarrow> nat \<Rightarrow> bool" where
  "group_ok cap c fs i \<longleftrightarrow>
     descriptor_block fs i * e_bs fs + e_bs fs \<le> cap \<and> bitmap_of c fs i * e_bs fs + e_bs fs \<le> cap \<and>
     bitmap_of c fs i \<noteq> 1024 div e_bs fs \<and> bitmap_of c fs i \<notin> descriptor_block fs ` {..<num_block_groups fs} \<and>
     g_num (grp c fs i) = i \<and> g_free_blocks (grp c fs i) = card (free_indices c fs i) \<and> card (free_indices c fs i) < 2 ^ 16"

definition geometry_ok :: "nat \<Rightarrow> 'd ext2 \<Rightarrow> bool" where
  "geometry_ok cap fs \<longleftrightarrow> length (superblock fs) = 512 \<and> 0 < num_block_groups fs \<and> 1024 \<le> e_bs fs \<and> 1024 dvd e_bs fs \<and> 1536 \<le> cap \<and>
     0 < sb_blocks_per_group (superblock fs) \<and> sb_blocks_per_group (superblock fs) \<le> 8 * e_bs fs \<and> block_pointers_per_block fs = e_bs fs div 4"

definition fs_ok :: "nat \<Rightarrow> (nat \<Rightarrow> byte list) \<Rightarrow> 'd ext2 \<Rightarrow> bool" where
  "fs_ok cap c fs \<longleftrightarrow> geometry_ok cap fs \<and> (\<forall>i < num_block_groups fs. group_ok cap c fs i) \<and>
     inj_on (bitmap_of c fs) {..<num_block_groups fs} \<and>
     (\<forall>b \<in> free_block_set c fs. 0 < b \<and> b * e_bs fs + e_bs fs \<le> cap \<and> b \<notin> reserved_blocks c fs)"

lemma fs_okD:
  assumes "fs_ok cap c fs"
  shows "geometry_ok cap fs" "i < num_block_groups fs \<Longrightarrow> group_ok cap c fs i" "inj_on (bitmap_of c fs) {..<num_block_groups fs}"
    "b \<in> free_block_set c fs \<Longrightarrow> 0 < b \<and> b * e_bs fs + e_bs fs \<le> cap \<and> b \<notin> reserved_blocks c fs"
  using assms by (auto simp: fs_ok_def)

lemma descriptor_in_block: "1024 dvd e_bs fs \<Longrightarrow> 0 < e_bs fs \<Longrightarrow> descriptor_offset fs i + 32 \<le> e_bs fs"
proof -
  assume "1024 dvd e_bs fs" "0 < e_bs fs"
  then obtain q where q: "e_bs fs = 32 * (32 * q)" "0 < q" by (auto elim: dvdE)
  then have "i mod (32 * q) + 1 \<le> 32 * q" by (simp add: Suc_leI)
  then have "32 * (i mod (32 * q) + 1) \<le> 32 * (32 * q)" by (rule mult_le_mono2)
  then show ?thesis using q by (simp add: descriptor_offset_def)
qed

lemma descriptor_apart:
  assumes "1024 dvd e_bs fs" "0 < e_bs fs" "i \<noteq> k" "descriptor_block fs i = descriptor_block fs k"
  shows "descriptor_offset fs k + 32 \<le> descriptor_offset fs i \<or> descriptor_offset fs i + 32 \<le> descriptor_offset fs k"
proof -
  obtain q where q: "e_bs fs = 32 * q" "0 < q" using assms(1,2) by (auto elim!: dvdE)
  then have "i div q = k div q" using assms(4) by (simp add: descriptor_block_def mult.commute)
  then have "i mod q \<noteq> k mod q" using assms(3) by (metis div_mult_mod_eq)
  then have "i mod q + 1 \<le> k mod q \<or> k mod q + 1 \<le> i mod q" by linarith
  then show ?thesis using q by (auto simp: descriptor_offset_def)
qed

text \<open>Everything above depends on the geometry, the groups as they are seen and the blocks.\<close>

definition same_groups :: "(nat \<Rightarrow> byte list) \<Rightarrow> 'd ext2 \<Rightarrow> (nat \<Rightarrow> byte list) \<Rightarrow> 'd ext2 \<Rightarrow> bool" where
  "same_groups c fs c' fs' \<longleftrightarrow> same_geometry fs fs' \<and> (\<forall>i < num_block_groups fs. grp c' fs' i = grp c fs i)"

lemma same_groups_view:
  assumes "same_groups c fs c' fs'" "i < num_block_groups fs"
  shows "bitmap_of c' fs' i = bitmap_of c fs i" "c' (bitmap_of c fs i) = c (bitmap_of c fs i) \<Longrightarrow> free_indices c' fs' i = free_indices c fs i"
    "c' (bitmap_of c fs i) = c (bitmap_of c fs i) \<Longrightarrow> free_of_group c' fs' i = free_of_group c fs i"
proof -
  have "same_geometry fs fs'" "grp c' fs' i = grp c fs i" using assms by (simp_all add: same_groups_def)
  note g = this(2) same_geometryD [OF this(1)]
  show "bitmap_of c' fs' i = bitmap_of c fs i" "c' (bitmap_of c fs i) = c (bitmap_of c fs i) \<Longrightarrow> free_indices c' fs' i = free_indices c fs i"
    "c' (bitmap_of c fs i) = c (bitmap_of c fs i) \<Longrightarrow> free_of_group c' fs' i = free_of_group c fs i"
    by (simp_all add: bitmap_of_def free_indices_def free_of_group_def g)
qed

lemma same_view:
  assumes "same_groups c fs c' fs'" "\<And>i. i < num_block_groups fs \<Longrightarrow> c' (bitmap_of c fs i) = c (bitmap_of c fs i)"
  shows "free_block_set c' fs' = free_block_set c fs" "fs_ok cap c' fs' = fs_ok cap c fs" "reserved_blocks c' fs' = reserved_blocks c fs"
proof -
  note v = same_groups_view [OF assms(1)]
  have g: "same_geometry fs fs'" using assms(1) by (simp add: same_groups_def)
  note gD = same_geometryD [OF g]
  show f: "free_block_set c' fs' = free_block_set c fs" using v(3) assms(2) by (auto simp: free_block_set_def gD)
  show r: "reserved_blocks c' fs' = reserved_blocks c fs" using v(1) by (auto simp: reserved_blocks_def gD image_iff)
  have "group_ok cap c' fs' i = group_ok cap c fs i" if "i < num_block_groups fs" for i
    using that assms v(1,2) [OF that] by (simp add: group_ok_def gD same_groups_def)
  moreover have "geometry_ok cap fs' = geometry_ok cap fs" by (simp add: geometry_ok_def gD)
  moreover have "inj_on (bitmap_of c' fs') {..<num_block_groups fs} = inj_on (bitmap_of c fs) {..<num_block_groups fs}"
    using v(1) by (intro inj_on_cong) simp
  ultimately show "fs_ok cap c' fs' = fs_ok cap c fs" using f r by (simp add: fs_ok_def gD)
qed

lemma free_indices_finite [simp]: "finite (free_indices c fs i)"
  by (simp add: free_indices_def)

lemma free_blocks_finite [simp]: "finite (free_block_set c fs)"
  by (simp add: free_block_set_def free_of_group_def)

lemma card_free_of_group: "card (free_of_group c fs i) = card (free_indices c fs i)"
  unfolding free_of_group_def by (intro card_image) simp

lemma free_groups_disjoint:
  assumes "i \<noteq> k"
  shows "free_of_group c fs i \<inter> free_of_group c fs k = {}"
proof -
  let ?n = "sb_blocks_per_group (superblock fs)"
  have "j + first_block fs i \<noteq> j' + first_block fs k" if j: "j < ?n" "j' < ?n" for j j'
  proof
    assume "j + first_block fs i = j' + first_block fs k"
    then have e: "j + i * ?n = j' + k * ?n" by (simp add: first_block_def)
    have "i = (j + i * ?n) div ?n" using j(1) by simp
    also have "\<dots> = k" using j(2) unfolding e by simp
    finally show False using assms by simp
  qed
  then show ?thesis by (auto simp: free_of_group_def free_indices_def)
qed

lemma card_free_set: "card (free_block_set c fs) = (\<Sum>i < num_block_groups fs. card (free_indices c fs i))"
  unfolding free_block_set_def
  by (subst card_UN_disjoint) (auto simp: free_groups_disjoint card_free_of_group, simp_all add: free_of_group_def)

text \<open>
  How the view of a filesystem changes when the blocks of \<open>js\<close> are marked in group \<open>i\<close> and its
  descriptor is written back.
\<close>

definition group_updated :: "nat \<Rightarrow> (nat \<Rightarrow> byte list) \<Rightarrow> (nat \<Rightarrow> byte list) \<Rightarrow> 'd ext2 \<Rightarrow> 'd ext2 \<Rightarrow> nat \<Rightarrow> block_group \<Rightarrow> nat \<Rightarrow> byte list \<Rightarrow> nat set \<Rightarrow> bool" where
  "group_updated cap c c' fs fs' i g n bm B \<longleftrightarrow>
     fs_ok cap c fs \<and> i < num_block_groups fs \<and> block_groups fs i = Some g \<and> same_geometry fs fs' \<and>
     block_groups fs' = (block_groups fs)(i \<mapsto> g\<lparr>g_free_blocks := n\<rparr>) \<and> B \<inter> reserved_blocks c fs = {} \<and>
     (\<forall>b. b \<notin> insert (1024 div e_bs fs) (insert (descriptor_block fs i) (insert (bitmap_of c fs i) B)) \<longrightarrow> c' b = c b) \<and>
     c' (bitmap_of c fs i) = bm \<and>
     (\<exists>xs. length xs = 32 \<and> c' (descriptor_block fs i) = put_at (c (descriptor_block fs i)) (descriptor_offset fs i) xs) \<and>
     (\<forall>b. length (c b) = e_bs fs)"

lemma group_updatedD:
  assumes "group_updated cap c c' fs fs' i g n bm B"
  shows "fs_ok cap c fs" "i < num_block_groups fs" "grp c fs i = g" "block_bitmap_block g = bitmap_of c fs i" "same_geometry fs fs'"
    "block_groups fs' = (block_groups fs)(i \<mapsto> g\<lparr>g_free_blocks := n\<rparr>)" "B \<inter> reserved_blocks c fs = {}"
    "b \<notin> insert (1024 div e_bs fs) (insert (descriptor_block fs i) (insert (bitmap_of c fs i) B)) \<Longrightarrow> c' b = c b"
    "c' (bitmap_of c fs i) = bm" "\<exists>xs. length xs = 32 \<and> c' (descriptor_block fs i) = put_at (c (descriptor_block fs i)) (descriptor_offset fs i) xs"
    "length (c b) = e_bs fs"
  using assms by (auto simp: group_updated_def grp_def bitmap_of_def)

lemma length_descriptor [simp]: "length (descriptor_of_group junk g) = 32"
  by (simp add: descriptor_of_group_def)

lemma fs_ok_block_size:
  assumes "fs_ok cap c fs"
  shows "1024 dvd e_bs fs" "0 < e_bs fs" "1024 div e_bs fs < 2" "descriptor_block fs k \<noteq> 1024 div e_bs fs"
proof -
  have "1024 \<le> e_bs fs" "1024 dvd e_bs fs" using fs_okD(1) [OF assms] by (auto simp: geometry_ok_def)
  then show "1024 dvd e_bs fs" "0 < e_bs fs" "1024 div e_bs fs < 2" using div_le_mono2 [of 1024 "e_bs fs" 1024] by simp_all
  then show "descriptor_block fs k \<noteq> 1024 div e_bs fs" by (simp add: descriptor_block_def)
qed

lemma reserved_apart:
  assumes "fs_ok cap c fs" "k < num_block_groups fs" "i < num_block_groups fs"
  shows "descriptor_block fs k \<noteq> bitmap_of c fs i" "bitmap_of c fs i \<noteq> 1024 div e_bs fs" "k \<noteq> i \<Longrightarrow> bitmap_of c fs k \<noteq> bitmap_of c fs i"
    "descriptor_block fs k \<in> reserved_blocks c fs" "bitmap_of c fs k \<in> reserved_blocks c fs"
proof -
  show "descriptor_block fs k \<noteq> bitmap_of c fs i" using fs_okD(2) [OF assms(1,3)] assms(2) unfolding group_ok_def by (metis imageI lessThan_iff)
  show "bitmap_of c fs i \<noteq> 1024 div e_bs fs" using fs_okD(2) [OF assms(1,3)] by (simp add: group_ok_def)
  show "k \<noteq> i \<Longrightarrow> bitmap_of c fs k \<noteq> bitmap_of c fs i" using fs_okD(3) [OF assms(1)] assms(2,3) by (auto dest: inj_onD)
  show "descriptor_block fs k \<in> reserved_blocks c fs" "bitmap_of c fs k \<in> reserved_blocks c fs" using assms(2) by (auto simp: reserved_blocks_def)
qed

lemma group_updated_kept:
  assumes u: "group_updated cap c c' fs fs' i g n bm B" and k: "k < num_block_groups fs"
  shows "grp c' fs' k = (if k = i then g\<lparr>g_free_blocks := n\<rparr> else grp c fs k)" "bitmap_of c' fs' k = bitmap_of c fs k"
    "k \<noteq> i \<Longrightarrow> c' (bitmap_of c fs k) = c (bitmap_of c fs k)"
    "free_indices c' fs' k = (if k = i then {j. j < sb_blocks_per_group (superblock fs) \<and> \<not> get_bitmap_bit bm j} else free_indices c fs k)"
    "k \<noteq> i \<Longrightarrow> free_of_group c' fs' k = free_of_group c fs k"
proof -
  note d = group_updatedD [OF u] and gD = same_geometryD [OF group_updatedD(5) [OF u]]
  note bs = fs_ok_block_size [OF d(1)] and ra = reserved_apart [OF d(1) k d(2)]
  have desc: "take 32 (drop (descriptor_offset fs k) (c' (descriptor_block fs k))) = take 32 (drop (descriptor_offset fs k) (c (descriptor_block fs k)))" if ki: "k \<noteq> i"
  proof (cases "descriptor_block fs k = descriptor_block fs i")
    case True
    obtain xs where "length xs = 32" "c' (descriptor_block fs i) = put_at (c (descriptor_block fs i)) (descriptor_offset fs i) xs" using d(10) by blast
    then show ?thesis using descriptor_apart [OF bs(1,2) ki True] descriptor_in_block [OF bs(1,2), of i] d(11) True
      by (auto simp: put_at_outside)
  next
    case False
    have "descriptor_block fs k \<notin> B" using ra(4) d(7) by blast
    then show ?thesis using d(8) [of "descriptor_block fs k"] False bs(4) ra(1) by simp
  qed
  show grp: "grp c' fs' k = (if k = i then g\<lparr>g_free_blocks := n\<rparr> else grp c fs k)"
    using desc by (auto simp: grp_def d(6) gD split: option.splits)
  then show bm: "bitmap_of c' fs' k = bitmap_of c fs k" using d(3) by (simp add: bitmap_of_def)
  show bk: "c' (bitmap_of c fs k) = c (bitmap_of c fs k)" if "k \<noteq> i"
    using d(8) [of "bitmap_of c fs k"] that ra(3,5) d(7) reserved_apart [OF d(1) d(2) k] by auto
  show fi: "free_indices c' fs' k = (if k = i then {j. j < sb_blocks_per_group (superblock fs) \<and> \<not> get_bitmap_bit bm j} else free_indices c fs k)"
    using bm bk d(9) by (simp add: free_indices_def gD)
  show "free_of_group c' fs' k = free_of_group c fs k" if "k \<noteq> i" using fi that by (simp add: free_of_group_def gD)
qed

lemma group_updated_reserved: "group_updated cap c c' fs fs' i g n bm B \<Longrightarrow> reserved_blocks c' fs' = reserved_blocks c fs"
  using group_updated_kept(2) [of cap c c' fs fs' i g n bm B] same_geometryD [OF group_updatedD(5) [of cap c c' fs fs' i g n bm B]]
  by (auto simp: reserved_blocks_def image_iff)

lemma group_updated_ok:
  assumes u: "group_updated cap c c' fs fs' i g n bm B" and n: "n = card (free_indices c' fs' i)" "n < 2 ^ 16"
    and new: "\<And>b. b \<in> free_of_group c' fs' i \<Longrightarrow> 0 < b \<and> b * e_bs fs + e_bs fs \<le> cap \<and> b \<notin> reserved_blocks c fs"
  shows "fs_ok cap c' fs'"
proof -
  note d = group_updatedD [OF u] and gD = same_geometryD [OF group_updatedD(5) [OF u]] and kept = group_updated_kept [OF u]
  have "group_ok cap c' fs' k" if k: "k < num_block_groups fs" for k
    using fs_okD(2) [OF d(1) k] kept [OF k] n fs_okD(2) [OF d(1,2)] d(3) by (simp add: group_ok_def gD split: if_splits)
  moreover have "inj_on (bitmap_of c' fs') {..<num_block_groups fs}"
    using fs_okD(3) [OF d(1)] kept(2) by (simp add: inj_on_def)
  moreover have "0 < b \<and> b * e_bs fs + e_bs fs \<le> cap \<and> b \<notin> reserved_blocks c fs" if b: "b \<in> free_block_set c' fs'" for b
  proof -
    obtain k where k: "k < num_block_groups fs" "b \<in> free_of_group c' fs' k" using b by (auto simp: free_block_set_def gD)
    show ?thesis
    proof (cases "k = i")
      case False
      then have "b \<in> free_block_set c fs" using k kept(5) [of k] by (auto simp: free_block_set_def)
      then show ?thesis by (rule fs_okD(4) [OF d(1)])
    qed (use k new in simp)
  qed
  moreover have "geometry_ok cap fs'" using fs_okD(1) [OF d(1)] by (simp add: geometry_ok_def gD)
  ultimately show ?thesis by (simp add: fs_ok_def gD group_updated_reserved [OF u])
qed

lemma group_updated_free_set:
  assumes u: "group_updated cap c c' fs fs' i g n bm B" and "free_of_group c' fs' i = free_of_group c fs i - C" "C \<subseteq> free_of_group c fs i"
  shows "free_block_set c' fs' = free_block_set c fs - C"
proof -
  have "free_of_group c' fs' k = free_of_group c fs k - C" if "k < num_block_groups fs" for k
    using group_updated_kept(5) [OF u that] assms(2,3) free_groups_disjoint [of k i c fs] by (cases "k = i") auto
  then show ?thesis by (auto simp: free_block_set_def same_geometryD [OF group_updatedD(5) [OF u]])
qed

context block_file
begin

abbreviation "con fs \<equiv> file_block (cells (e_file fs)) (e_bs fs)"

lemma e2_read_ok:
  assumes "good (e_file fs)" "b * e_bs fs + e_bs fs \<le> cap" "0 < e_bs fs" "length buf = e_bs fs"
  obtains d where "e2_read F fs b buf = Inr (None, con fs b, fs\<lparr>e_file := d\<rparr>)" "good d" "cells d = cells (e_file fs)"
proof (rule read_block_ok [OF assms])
  fix d assume "read_block F (e_bs fs) (e_file fs) b buf = Inr (None, con fs b, d)" "good d" "cells d = cells (e_file fs)"
  then show ?thesis by (intro that [of d]) (simp_all add: e2_read_def)
qed

lemma e2_write_ok:
  assumes "good (e_file fs)" "b * e_bs fs + e_bs fs \<le> cap" "0 < e_bs fs" "length buf = e_bs fs"
  obtains d where "e2_write F fs b buf = Inr (None, fs\<lparr>e_file := d\<rparr>)" "good d" "file_block (cells d) (e_bs fs) = (con fs)(b := buf)"
proof (rule write_block_ok [OF assms])
  fix d assume "write_block F (e_bs fs) (e_file fs) b buf = Inr (None, d)" "good d" "file_block (cells d) (e_bs fs) = (con fs)(b := buf)"
  then show ?thesis by (intro that [of d]) (simp_all add: e2_write_def)
qed

lemma write_superblock_ok:
  assumes "good (e_file fs)" "1536 \<le> cap" "1024 \<le> e_bs fs" "1024 dvd e_bs fs" "length (superblock fs) = 512"
  obtains d where "write_superblock F fs = Inr (fs\<lparr>e_file := d\<rparr>)" "good d" "\<forall>b. b \<noteq> 1024 div e_bs fs \<longrightarrow> file_block (cells d) (e_bs fs) b = con fs b"
proof -
  obtain d where d: "f_write F (e_file fs) 1024 (superblock fs) = Inr (512, d)" "good d" "cells d = byte_patch (cells (e_file fs)) 1024 (superblock fs)"
    using write_law [of "e_file fs" 1024 "superblock fs"] assms by auto
  have "file_block (cells d) (e_bs fs) b = con fs b" if "b \<noteq> 1024 div e_bs fs" for b
  proof (cases "b < 1024 div e_bs fs")
    case True
    then have "Suc b * e_bs fs \<le> 1024" by (metis Suc_leI div_times_less_eq_dividend le_trans mult_le_mono1)
    then show ?thesis using d(3) by (simp add: file_block_patch_other)
  next
    case False
    then have "Suc (1024 div e_bs fs) \<le> b" using that by simp
    then have "Suc (1024 div e_bs fs) * e_bs fs \<le> b * e_bs fs" by (rule mult_le_mono1)
    moreover have "1536 \<le> Suc (1024 div e_bs fs) * e_bs fs"
    proof (cases "e_bs fs = 1024")
      case False
      then have "2048 \<le> e_bs fs" using assms(3,4) by (auto elim!: dvdE)
      then show ?thesis by simp
    qed simp
    ultimately show ?thesis using d(3) assms(5) by (simp add: file_block_patch_other)
  qed
  then show ?thesis using d assms(5)
    by (intro that [of d]) (simp_all add: write_superblock_def write_logical_block_def write_logical_blocks_def mul32_def logical_block_size_def)
qed

text \<open>Reading changes nothing that the filesystem sees.\<close>

definition quiet :: "'d ext2 \<Rightarrow> 'd ext2 \<Rightarrow> bool" where
  "quiet fs fs' \<longleftrightarrow> good (e_file fs') \<and> cells (e_file fs') = cells (e_file fs) \<and> superblock fs' = superblock fs \<and> same_groups (con fs) fs (con fs') fs' \<and>
     (\<forall>i g. block_groups fs i = Some g \<longrightarrow> block_groups fs' i = Some g)"

lemma quietD:
  assumes "quiet fs fs'"
  shows "good (e_file fs')" "same_groups (con fs) fs (con fs') fs'" "con fs' = con fs" "same_geometry fs fs'" "free_block_set (con fs') fs' = free_block_set (con fs) fs"
    "fs_ok cap (con fs') fs' = fs_ok cap (con fs) fs" "i < num_block_groups fs \<Longrightarrow> grp (con fs') fs' i = grp (con fs) fs i"
    "i < num_block_groups fs \<Longrightarrow> free_indices (con fs') fs' i = free_indices (con fs) fs i" "cells (e_file fs') = cells (e_file fs)"
proof -
  show s: "same_groups (con fs) fs (con fs') fs'" and "good (e_file fs')" and e: "cells (e_file fs') = cells (e_file fs)"
    using assms unfolding quiet_def by blast+
  then show g: "same_geometry fs fs'" by (simp add: same_groups_def)
  show c: "con fs' = con fs" using e same_geometryD(1) [OF g] by simp
  show "free_block_set (con fs') fs' = free_block_set (con fs) fs" "fs_ok cap (con fs') fs' = fs_ok cap (con fs) fs"
    using same_view [OF s] c by auto
  show "grp (con fs') fs' i = grp (con fs) fs i" if "i < num_block_groups fs" using s that by (simp add: same_groups_def)
  show "free_indices (con fs') fs' i = free_indices (con fs) fs i" if "i < num_block_groups fs"
    using same_groups_view(2) [OF s that] c by simp
qed

lemma quiet_refl: "good (e_file fs) \<Longrightarrow> quiet fs fs"
  by (simp add: quiet_def same_groups_def)

lemma quiet_trans:
  assumes "quiet fs fs1" "quiet fs1 fs2"
  shows "quiet fs fs2"
proof -
  have "same_geometry fs fs2" using quietD(4) [OF assms(1)] quietD(4) [OF assms(2)] by (rule same_geometry_trans)
  moreover have "num_block_groups fs1 = num_block_groups fs" using same_geometryD(2) quietD(4) [OF assms(1)] by blast
  then have "grp (con fs2) fs2 i = grp (con fs) fs i" if "i < num_block_groups fs" for i
    using quietD(7) [OF assms(1)] quietD(7) [OF assms(2)] that by simp
  ultimately have "same_groups (con fs) fs (con fs2) fs2" unfolding same_groups_def by blast
  moreover have "cells (e_file fs2) = cells (e_file fs)" using quietD(9) [OF assms(1)] quietD(9) [OF assms(2)] by simp
  ultimately show ?thesis using assms unfolding quiet_def by simp
qed

lemma quiet_file: "good d \<Longrightarrow> cells d = cells (e_file fs) \<Longrightarrow> quiet fs (fs\<lparr>e_file := d\<rparr>)"
  by (simp add: quiet_def same_groups_def grp_def descriptor_block_def descriptor_offset_def cong: option.case_cong)

lemma get_block_group_ok:
  assumes "good (e_file fs)" "fs_ok cap (con fs) fs" "i < num_block_groups fs"
  obtains fs' where "get_block_group F junk fs i = Inr (Some (grp (con fs) fs i), fs')" "quiet fs fs'" "block_groups fs' i = Some (grp (con fs) fs i)"
proof (cases "block_groups fs i")
  case (Some g)
  then show ?thesis using assms that [of fs] by (simp add: get_block_group_def grp_def quiet_refl)
next
  case None
  have bs: "0 < e_bs fs" and room: "descriptor_block fs i * e_bs fs + e_bs fs \<le> cap"
    using fs_okD(1,2) [OF assms(2)] assms(3) by (auto simp: geometry_ok_def group_ok_def)
  obtain d where d: "e2_read F fs (descriptor_block fs i) (stack_array (e_bs fs) junk) = Inr (None, con fs (descriptor_block fs i), fs\<lparr>e_file := d\<rparr>)"
    "good d" "cells d = cells (e_file fs)" by (rule e2_read_ok [OF assms(1) room bs length_stack_array])
  let ?g = "grp (con fs) fs i"
  let ?fs = "fs\<lparr>e_file := d, block_groups := (block_groups fs)(i \<mapsto> ?g)\<rparr>"
  have "get_block_group F junk fs i = Inr (Some ?g, ?fs)"
    using assms(3) None d(1) by (simp add: get_block_group_def read_block_group_raw_def grp_def Let_def)
  moreover have "quiet fs ?fs" using d(2,3) None
    by (auto simp: quiet_def same_groups_def grp_def descriptor_block_def descriptor_offset_def cong: option.case_cong)
  ultimately show ?thesis by (rule that) simp
qed

lemma find_group_ok:
  assumes "good (e_file fs)" "fs_ok cap (con fs) fs" "\<forall>i \<in> set is. i < num_block_groups fs"
  obtains fs' r where "find_group F junk n is fs = Inr (r, fs')" "quiet fs fs'"
    "case r of None \<Rightarrow> \<forall>i \<in> set is. card (free_indices (con fs) fs i) < n
     | Some i \<Rightarrow> i \<in> set is \<and> n \<le> card (free_indices (con fs) fs i) \<and> block_groups fs' i = Some (grp (con fs) fs i)"
  using assms
proof (induction "is" arbitrary: fs thesis)
  case Nil
  then show ?case by (auto intro: quiet_refl)
next
  case (Cons i "is")
  have i: "i < num_block_groups fs" using Cons.prems(4) by simp
  then have g: "g_free_blocks (grp (con fs) fs i) = card (free_indices (con fs) fs i)"
    using fs_okD(2) [OF Cons.prems(3)] by (simp add: group_ok_def)
  obtain fs1 where fs1: "get_block_group F junk fs i = Inr (Some (grp (con fs) fs i), fs1)" "quiet fs fs1" "block_groups fs1 i = Some (grp (con fs) fs i)"
    by (rule get_block_group_ok [OF Cons.prems(2,3) i])
  show ?case
  proof (cases "n \<le> card (free_indices (con fs) fs i)")
    case True
    then show ?thesis using Cons.prems(1) [of "Some i" fs1] fs1 g by simp
  next
    case False
    note q = quietD [OF fs1(2)]
    have b: "\<forall>i \<in> set is. i < num_block_groups fs1" using Cons.prems(4) same_geometryD(2) [OF q(4)] by simp
    show ?thesis
    proof (rule Cons.IH [OF _ q(1) q(6) [THEN iffD2, OF Cons.prems(3)] b])
      fix r fs' assume r: "find_group F junk n is fs1 = Inr (r, fs')" "quiet fs1 fs'"
        "case r of None \<Rightarrow> \<forall>i \<in> set is. card (free_indices (con fs1) fs1 i) < n
         | Some i \<Rightarrow> i \<in> set is \<and> n \<le> card (free_indices (con fs1) fs1 i) \<and> block_groups fs' i = Some (grp (con fs1) fs1 i)"
      show ?thesis
      proof (rule Cons.prems(1) [of r fs'])
        show "find_group F junk n (i # is) fs = Inr (r, fs')" using fs1(1) r(1) g False by simp
        show "quiet fs fs'" by (rule quiet_trans [OF fs1(2) r(2)])
      qed (use r(3) q(7,8) Cons.prems(4) False in \<open>auto split: option.splits\<close>)
    qed
  qed
qed

lemma most_spacious_ok:
  assumes "good (e_file fs)" "fs_ok cap (con fs) fs" "\<forall>i \<in> set is. i < num_block_groups fs"
    "k < num_block_groups fs" "block_groups fs k = Some (grp (con fs) fs k)"
  obtains fs' m where "most_spacious F junk is (Some (grp (con fs) fs k)) fs = Inr (Some (grp (con fs) fs m), fs')" "quiet fs fs'"
    "m < num_block_groups fs" "block_groups fs' m = Some (grp (con fs) fs m)" "\<forall>i \<in> insert k (set is). card (free_indices (con fs) fs i) \<le> card (free_indices (con fs) fs m)"
  using assms
proof (induction "is" arbitrary: fs k thesis)
  case Nil
  then show ?case by (auto intro: quiet_refl)
next
  case (Cons i "is")
  have i: "i < num_block_groups fs" using Cons.prems(4) by simp
  have free: "g_free_blocks (grp (con fs) fs j) = card (free_indices (con fs) fs j)" if "j < num_block_groups fs" for j
    using fs_okD(2) [OF Cons.prems(3) that] by (simp add: group_ok_def)
  obtain fs1 where fs1: "get_block_group F junk fs i = Inr (Some (grp (con fs) fs i), fs1)" "quiet fs fs1" "block_groups fs1 i = Some (grp (con fs) fs i)"
    by (rule get_block_group_ok [OF Cons.prems(2,3) i])
  note q = quietD [OF fs1(2)]
  define k' where "k' = (if card (free_indices (con fs) fs i) > card (free_indices (con fs) fs k) then i else k)"
  have k': "k' < num_block_groups fs" "k' < num_block_groups fs1" using Cons.prems(5) i same_geometryD(2) [OF q(4)] by (simp_all add: k'_def)
  have b: "\<forall>i \<in> set is. i < num_block_groups fs1" using Cons.prems(4) same_geometryD(2) [OF q(4)] by simp
  have l: "block_groups fs1 k' = Some (grp (con fs1) fs1 k')"
    using fs1(2,3) Cons.prems(6) q(7) [OF k'(1)] by (simp add: quiet_def k'_def)
  show ?case
  proof (rule Cons.IH [OF _ q(1) q(6) [THEN iffD2, OF Cons.prems(3)] b k'(2) l])
    fix m fs' assume m: "most_spacious F junk is (Some (grp (con fs1) fs1 k')) fs1 = Inr (Some (grp (con fs1) fs1 m), fs')" "quiet fs1 fs'"
      "m < num_block_groups fs1" "block_groups fs' m = Some (grp (con fs1) fs1 m)"
      "\<forall>i \<in> insert k' (set is). card (free_indices (con fs1) fs1 i) \<le> card (free_indices (con fs1) fs1 m)"
    have mn: "m < num_block_groups fs" using m(3) same_geometryD(2) [OF q(4)] by simp
    show ?thesis
    proof (rule Cons.prems(1) [of m fs'])
      show "most_spacious F junk (i # is) (Some (grp (con fs) fs k)) fs = Inr (Some (grp (con fs) fs m), fs')"
        using fs1(1) m(1) free i Cons.prems(5) q(7) [OF k'(1)] q(7) [OF mn] by (simp add: k'_def split: if_splits)
      show "quiet fs fs'" by (rule quiet_trans [OF fs1(2) m(2)])
      show "m < num_block_groups fs" by (rule mn)
      show "block_groups fs' m = Some (grp (con fs) fs m)" using m(4) q(7) [OF mn] by simp
      have "card (free_indices (con fs) fs j) \<le> card (free_indices (con fs) fs m)" if "j \<in> insert k' (set is)" for j
      proof -
        have "j < num_block_groups fs" using that k'(1) Cons.prems(4) by auto
        then show ?thesis using m(5) that q(8) mn by metis
      qed
      then have all: "\<forall>j \<in> insert k' (set is). card (free_indices (con fs) fs j) \<le> card (free_indices (con fs) fs m)" by blast
      have "card (free_indices (con fs) fs i) \<le> card (free_indices (con fs) fs k')" "card (free_indices (con fs) fs k) \<le> card (free_indices (con fs) fs k')"
        by (simp_all add: k'_def)
      with all show "\<forall>j \<in> insert k (set (i # is)). card (free_indices (con fs) fs j) \<le> card (free_indices (con fs) fs m)" by auto
    qed
  qed
qed

text \<open>The scan of a bitmap takes the first free blocks.\<close>

definition scanned :: "bool \<Rightarrow> nat \<Rightarrow> nat list \<Rightarrow> 'd ext2 \<Rightarrow> block_group \<Rightarrow> 'd ext2 \<Rightarrow> bool" where
  "scanned zero num js fs g fs' \<longleftrightarrow> good (e_file fs') \<and> same_geometry fs fs' \<and>
     block_groups fs' = (block_groups fs)(num \<mapsto> g\<lparr>g_free_blocks := g_free_blocks g - length js\<rparr>) \<and>
     con fs' = (\<lambda>b. if zero \<and> b \<in> (\<lambda>j. j + first_block fs num) ` set js then replicate (e_bs fs) 0 else con fs b)"

lemma scanned_Nil: "good (e_file fs) \<Longrightarrow> block_groups fs num = Some g \<Longrightarrow> scanned zero num [] fs g fs"
  by (simp add: scanned_def fun_upd_idem)

lemma scanned_Cons:
  assumes "scanned zero num [j] fs g fs1" "scanned zero num js fs1 (g\<lparr>g_free_blocks := g_free_blocks g - 1\<rparr>) fs2"
  shows "scanned zero num (j # js) fs g fs2"
proof -
  have g: "same_geometry fs fs1" "same_geometry fs1 fs2" using assms by (simp_all add: scanned_def)
  show ?thesis using assms same_geometryD [OF g(1)] same_geometry_trans [OF g] by (auto simp: scanned_def fun_eq_iff)
qed

lemma alloc_one:
  assumes "good (e_file fs)" "0 < e_bs fs" "block_groups fs num = Some g" "g_num g = num" "length (superblock fs) = 512"
    "(j + first_block fs num) * e_bs fs + e_bs fs \<le> cap" "0 < g_free_blocks g" "g_free_blocks g < 2 ^ 16"
  obtains d where "(if zero then zero_block F (e_bs fs) (e_file fs) (j + first_block fs num) else Inr (None, e_file fs)) = Inr (None, d)"
    "scanned zero num [j] fs g (set_group (g\<lparr>g_free_blocks := dec_mod 16 (g_free_blocks g)\<rparr>) (fs\<lparr>e_file := d,
       superblock := put32 (superblock fs) 12 (dec_mod 32 (sb_free_blocks (superblock fs)))\<rparr>))"
proof -
  have dec: "dec_mod 16 (g_free_blocks g) = g_free_blocks g - 1" using assms(7,8) by (cases "g_free_blocks g") (simp_all add: dec_mod_def)
  have geo: "same_geometry fs (fs\<lparr>e_file := d, superblock := put32 (superblock fs) 12 v\<rparr>)" for d v
    using same_geometry_count [OF assms(5), of 12 v] by (simp add: same_geometry_def)
  show ?thesis
  proof (cases zero)
    case True
    obtain d where "write_block F (e_bs fs) (e_file fs) (j + first_block fs num) (replicate (e_bs fs) 0) = Inr (None, d)" "good d"
      "file_block (cells d) (e_bs fs) = (con fs)(j + first_block fs num := replicate (e_bs fs) 0)"
      by (rule write_block_ok [OF assms(1,6,2) length_replicate ])
    then show ?thesis using True geo by (intro that [of d]) (auto simp: zero_block_def scanned_def dec set_group_def assms(4) fun_eq_iff)
  next
    case False
    then show ?thesis using same_geometry_count [OF assms(5)] assms(1) by (intro that [of "e_file fs"]) (auto simp: scanned_def dec set_group_def assms(4) fun_eq_iff)
  qed
qed

lemma alloc_scan_ok:
  assumes "good (e_file fs)" "0 < e_bs fs" "block_groups fs num = Some g" "g_num g = num" "length (superblock fs) = 512"
    "length ret < n" "length buf = e_bs fs" "distinct bis" "\<forall>j \<in> set bis. j div 8 < e_bs fs"
    "\<forall>j \<in> set bis. \<not> get_bitmap_bit buf j \<longrightarrow> (j + first_block fs num) * e_bs fs + e_bs fs \<le> cap" "n - length ret \<le> g_free_blocks g" "g_free_blocks g < 2 ^ 16"
  shows "\<exists>fs'. alloc_scan F n zero num bis buf ret fs = Inr (mark_bits (first_free (n - length ret) buf bis) buf,
      ret @ map (\<lambda>j. j + first_block fs num) (first_free (n - length ret) buf bis), fs') \<and> scanned zero num (first_free (n - length ret) buf bis) fs g fs'"
  using assms(1-)
proof (induction bis arbitrary: buf ret fs g)
  case Nil
  then show ?case by (simp add: mark_bits_def first_free_def scanned_Nil)
next
  case (Cons bi bis)
  obtain k where k: "n - length ret = Suc k" using Cons.prems(6) by (metis Suc_diff_Suc)
  have in_buf: "bi div 8 < length buf" using Cons.prems(7,9) by simp
  have ff: "first_free (n - length ret) buf (bi # bis) = (if get_bitmap_bit buf bi then first_free (Suc k) buf bis else bi # first_free k (set_bitmap_bit buf bi True) bis)"
    unfolding k using Cons.prems(7-9) by (intro first_free_Cons) auto
  show ?case
  proof (cases "get_bitmap_bit buf bi")
    case True
    show ?thesis using Cons.IH [OF Cons.prems(1-7)] Cons.prems(8-12) True ff k in_buf by auto
  next
    case False
    have c: "(bi + first_block fs num) * e_bs fs + e_bs fs \<le> cap" "0 < g_free_blocks g" using Cons.prems(6,10,11) False by auto
    obtain d where d: "(if zero then zero_block F (e_bs fs) (e_file fs) (bi + first_block fs num) else Inr (None, e_file fs)) = Inr (None, d)"
      and sc: "scanned zero num [bi] fs g (set_group (g\<lparr>g_free_blocks := dec_mod 16 (g_free_blocks g)\<rparr>) (fs\<lparr>e_file := d,
        superblock := put32 (superblock fs) 12 (dec_mod 32 (sb_free_blocks (superblock fs)))\<rparr>))" (is "scanned _ _ _ _ _ ?fs")
      by (rule alloc_one [OF  Cons.prems(1-5) c Cons.prems(12)])
    let ?buf = "set_bitmap_bit buf bi True" and ?ret = "ret @ [bi + first_block fs num]" and ?g = "g\<lparr>g_free_blocks := g_free_blocks g - 1\<rparr>"
    have geo: "same_geometry fs ?fs" and bg: "block_groups ?fs num = Some ?g" and gd: "good (e_file ?fs)" using sc by (auto simp: scanned_def)
    note gD = same_geometryD [OF geo]
    have step: "alloc_scan F n zero num (bi # bis) buf ret fs =
        (if length ret + 1 = n then Inr (?buf, ?ret, ?fs) else alloc_scan F n zero num bis ?buf ?ret ?fs)"
      using False in_buf d Cons.prems(3) by (simp add: Let_def)
    show ?thesis
    proof (cases "length ret + 1 = n")
      case True
      then have "k = 0" using k by simp
      then have "first_free (n - length ret) buf (bi # bis) = [bi]" using ff False by (simp add: first_free_def)
      then show ?thesis using step True sc by (simp add: mark_bits_def)
    next
      case F: False
      have nk: "n - Suc (length ret) = k" using k by simp
      have "\<exists>fs'. alloc_scan F n zero num bis ?buf ?ret ?fs = Inr (mark_bits (first_free (n - length ?ret) ?buf bis) ?buf,
          ?ret @ map (\<lambda>j. j + first_block ?fs num) (first_free (n - length ?ret) ?buf bis), fs') \<and> scanned zero num (first_free (n - length ?ret) ?buf bis) ?fs ?g fs'"
        using Cons.prems in_buf F bg gd gD by (intro Cons.IH) (auto simp: get_set_bitmap)
      then obtain fs' where fs': "alloc_scan F n zero num bis ?buf ?ret ?fs = Inr (mark_bits (first_free k ?buf bis) ?buf, ?ret @ map (\<lambda>j. j + first_block fs num) (first_free k ?buf bis), fs')"
          "scanned zero num (first_free k ?buf bis) ?fs ?g fs'" using nk gD(7) by auto
      show ?thesis using step F fs' ff False scanned_Cons [OF sc fs'(2)] by (simp add: mark_bits_def)
    qed
  qed
qed

text \<open>What allocation does: the blocks \<open>A\<close>, which were free, are taken, and no other block of data changes.\<close>

definition allocated :: "bool \<Rightarrow> nat set \<Rightarrow> 'd ext2 \<Rightarrow> 'd ext2 \<Rightarrow> bool" where
  "allocated zero A fs fs' \<longleftrightarrow> good (e_file fs') \<and> fs_ok cap (con fs') fs' \<and> same_geometry fs fs' \<and>
     A \<subseteq> free_block_set (con fs) fs \<and> A \<inter> reserved_blocks (con fs) fs = {} \<and> free_block_set (con fs') fs' = free_block_set (con fs) fs - A \<and> reserved_blocks (con fs') fs' = reserved_blocks (con fs) fs \<and>
     (\<forall>b. b \<notin> reserved_blocks (con fs) fs \<union> A \<longrightarrow> con fs' b = con fs b) \<and> (zero \<longrightarrow> (\<forall>b \<in> A. con fs' b = replicate (e_bs fs) 0)) \<and>
     (\<forall>i < num_block_groups fs. \<exists>n. grp (con fs') fs' i = (grp (con fs) fs i)\<lparr>g_free_blocks := n\<rparr>)"

lemma allocated_grp: "allocated zero A fs fs' \<Longrightarrow> i < num_block_groups fs \<Longrightarrow> \<exists>n. grp (con fs') fs' i = (grp (con fs) fs i)\<lparr>g_free_blocks := n\<rparr>"
  by (simp add: allocated_def)

lemma allocated_quiet: "quiet fs fs' \<Longrightarrow> fs_ok cap (con fs) fs \<Longrightarrow> allocated zero {} fs fs'"
proof -
  assume q: "quiet fs fs'" and ok: "fs_ok cap (con fs) fs"
  have "reserved_blocks (con fs') fs' = reserved_blocks (con fs) fs"
    using same_view(3) [OF quietD(2) [OF q]] quietD(3) [OF q] by simp
  moreover have "\<exists>n. grp (con fs') fs' i = (grp (con fs) fs i)\<lparr>g_free_blocks := n\<rparr>" if "i < num_block_groups fs" for i
    using quietD(7) [OF q that] by (intro exI [of _ "g_free_blocks (grp (con fs) fs i)"]) simp
  ultimately show ?thesis using quietD [OF q] ok by (simp add: allocated_def)
qed

lemma allocated_trans:
  assumes "allocated zero A fs fs1" "allocated zero B fs1 fs2"
  shows "allocated zero (A \<union> B) fs fs2"
proof -
  have g: "same_geometry fs fs1" "same_geometry fs1 fs2" using assms by (simp_all add: allocated_def)
  note gD = same_geometryD [OF g(1)]
  have r: "reserved_blocks (con fs1) fs1 = reserved_blocks (con fs) fs" and fr: "free_block_set (con fs1) fs1 = free_block_set (con fs) fs - A"
    using assms(1) by (simp_all add: allocated_def)
  have "con fs2 b = con fs b" if "b \<notin> reserved_blocks (con fs) fs \<union> (A \<union> B)" for b using that assms r by (auto simp: allocated_def)
  moreover have "con fs2 b = replicate (e_bs fs) 0" if zero "b \<in> A \<union> B" for b
  proof (cases "b \<in> B")
    case True
    then show ?thesis using assms(2) that(1) gD(1) by (simp add: allocated_def)
  next
    case False
    then have "b \<in> A" using that(2) by simp
    then have "b \<notin> reserved_blocks (con fs1) fs1 \<union> B" using False assms(1) r by (auto simp: allocated_def)
    then have "con fs2 b = con fs1 b" using assms(2) by (simp add: allocated_def)
    then show ?thesis using assms(1) that(1) \<open>b \<in> A\<close> by (simp add: allocated_def)
  qed
  moreover have "\<exists>n. grp (con fs2) fs2 i = (grp (con fs) fs i)\<lparr>g_free_blocks := n\<rparr>" if i: "i < num_block_groups fs" for i
  proof -
    obtain x where x: "grp (con fs1) fs1 i = (grp (con fs) fs i)\<lparr>g_free_blocks := x\<rparr>" using allocated_grp [OF assms(1) i] by blast
    obtain y where y: "grp (con fs2) fs2 i = (grp (con fs1) fs1 i)\<lparr>g_free_blocks := y\<rparr>" using allocated_grp [OF assms(2)] i gD(2) by auto
    show ?thesis using x y by (intro exI [of _ y]) simp
  qed
  ultimately show ?thesis using assms r fr same_geometry_trans [OF g] by (auto simp: allocated_def)
qed

lemma set_first_free: "n \<le> card (free_indices c fs i) \<Longrightarrow> c (bitmap_of c fs i) = buf \<Longrightarrow>
  length (first_free n buf [0..<sb_blocks_per_group (superblock fs)]) = n \<and> set (first_free n buf [0..<sb_blocks_per_group (superblock fs)]) \<subseteq> free_indices c fs i \<and>
  distinct (first_free n buf [0..<sb_blocks_per_group (superblock fs)])"
proof -
  assume n: "n \<le> card (free_indices c fs i)" and buf: "c (bitmap_of c fs i) = buf"
  let ?xs = "filter (\<lambda>j. \<not> get_bitmap_bit buf j) [0..<sb_blocks_per_group (superblock fs)]"
  have eq: "set ?xs = free_indices c fs i" using buf by (auto simp: free_indices_def)
  then have "length ?xs = card (free_indices c fs i)" using distinct_card [of ?xs] by simp
  then have "length (take n ?xs) = n" using n by simp
  moreover have "set (take n ?xs) \<subseteq> free_indices c fs i" using set_take_subset [of n ?xs] unfolding eq .
  moreover have "distinct (take n ?xs)" by (intro distinct_take distinct_filter distinct_upt)
  ultimately show ?thesis unfolding first_free_def by blast
qed

text \<open>The three writes at the end touch the superblock, the group's descriptor and its bitmap alone.\<close>

lemma group_written:
  assumes "good (e_file fs)" "geometry_ok cap fs" "block_groups fs i = Some g" "g_num g = i"
    "descriptor_block fs i * e_bs fs + e_bs fs \<le> cap" "block_bitmap_block g * e_bs fs + e_bs fs \<le> cap" "length buf = e_bs fs"
    "block_bitmap_block g \<noteq> descriptor_block fs i" "block_bitmap_block g \<noteq> 1024 div e_bs fs"
  obtains fs3 fs4 d c3 where "write_superblock F fs = Inr fs3" "group_write F junk g fs3 = Inr fs4" "e2_write F fs4 (block_bitmap_block g) buf = Inr (None, fs\<lparr>e_file := d\<rparr>)"
    "good d" "\<forall>b. b \<noteq> 1024 div e_bs fs \<longrightarrow> c3 b = con fs b"
    "file_block (cells d) (e_bs fs) = c3(descriptor_block fs i := put_at (con fs (descriptor_block fs i)) (descriptor_offset fs i) (descriptor_of_group junk g), block_bitmap_block g := buf)"
proof -
  have bs: "1024 \<le> e_bs fs" "1024 dvd e_bs fs" "0 < e_bs fs" "length (superblock fs) = 512" "1536 \<le> cap" using assms(2) by (auto simp: geometry_ok_def)
  have desc: "descriptor_block fs i \<noteq> 1024 div e_bs fs"
  proof -
    have "1024 div e_bs fs \<le> 1" using bs(1) div_le_mono2 [of 1024 "e_bs fs" 1024] by simp
    then show ?thesis by (simp add: descriptor_block_def)
  qed
  obtain d1 where d1: "write_superblock F fs = Inr (fs\<lparr>e_file := d1\<rparr>)" "good d1" "\<forall>b. b \<noteq> 1024 div e_bs fs \<longrightarrow> file_block (cells d1) (e_bs fs) b = con fs b"
    by (rule write_superblock_ok [OF assms(1) bs(5,1,2,4) ])
  let ?fs1 = "fs\<lparr>e_file := d1\<rparr>"
  have db: "descriptor_block ?fs1 = descriptor_block fs" "descriptor_offset ?fs1 = descriptor_offset fs" by (auto simp: descriptor_block_def descriptor_offset_def)
  obtain d2 where d2: "e2_read F ?fs1 (descriptor_block fs i) (stack_array (e_bs ?fs1) junk) = Inr (None, con ?fs1 (descriptor_block fs i), ?fs1\<lparr>e_file := d2\<rparr>)"
    "good d2" "cells d2 = cells (e_file ?fs1)" by (rule e2_read_ok [of ?fs1 "descriptor_block fs i" "stack_array (e_bs ?fs1) junk"]) (use d1 assms(5) bs in auto)
  let ?fs2 = "fs\<lparr>e_file := d2\<rparr>" and ?desc = "put_at (con fs (descriptor_block fs i)) (descriptor_offset fs i) (descriptor_of_group junk g)"
  have off: "descriptor_offset fs i + 32 \<le> e_bs fs" by (rule descriptor_in_block [OF bs(2,3)])
  have p3: "good (e_file ?fs2)" "descriptor_block fs i * e_bs ?fs2 + e_bs ?fs2 \<le> cap" "0 < e_bs ?fs2" "length ?desc = e_bs ?fs2"
    using d2(2) assms(5) bs(3) off by simp_all
  obtain d3 where d3: "e2_write F ?fs2 (descriptor_block fs i) ?desc = Inr (None, ?fs2\<lparr>e_file := d3\<rparr>)" "good d3"
    "file_block (cells d3) (e_bs fs) = (con ?fs2)(descriptor_block fs i := ?desc)"
    by (rule e2_write_ok [OF p3 ]) simp
  let ?fs3 = "fs\<lparr>e_file := d3\<rparr>"
  have p4: "good (e_file ?fs3)" "block_bitmap_block g * e_bs ?fs3 + e_bs ?fs3 \<le> cap" "0 < e_bs ?fs3" "length buf = e_bs ?fs3"
    using d3(2) assms(6,7) bs(3) by simp_all
  obtain d4 where d4: "e2_write F ?fs3 (block_bitmap_block g) buf = Inr (None, ?fs3\<lparr>e_file := d4\<rparr>)" "good d4"
    "file_block (cells d4) (e_bs fs) = (con ?fs3)(block_bitmap_block g := buf)"
    by (rule e2_write_ok [OF p4 ]) simp
  have gw: "group_write F junk g ?fs1 = Inr ?fs3"
    using d2(1) d3(1) d1(3) desc by (simp add: group_write_def write_block_group_raw_def db assms(4))
  show ?thesis
  proof (rule that [OF d1(1) gw])
    show "e2_write F ?fs3 (block_bitmap_block g) buf = Inr (None, fs\<lparr>e_file := d4\<rparr>)" using d4(1) by simp
    show "\<forall>b. b \<noteq> 1024 div e_bs fs \<longrightarrow> con ?fs2 b = con fs b" using d2(3) d1(3) by simp
  qed (use d4 d3(3) in simp_all)
qed

lemma group_marked:
  assumes u: "group_updated cap c c' fs fs' i g n bm B" and js: "set js \<subseteq> free_indices c fs i" "distinct js"
    and bm: "bm = mark_bits js (c (bitmap_of c fs i))" and n: "n = g_free_blocks g - length js" and B: "B = (\<lambda>j. j + first_block fs i) ` set js"
  shows "fs_ok cap c' fs'" "free_block_set c' fs' = free_block_set c fs - B" "B \<subseteq> free_of_group c fs i" "card (free_indices c' fs' i) = card (free_indices c fs i) - length js"
proof -
  note d = group_updatedD [OF u] and gD = same_geometryD [OF group_updatedD(5) [OF u]] and kept = group_updated_kept [OF u]
  have small: "j div 8 < e_bs fs" if "j < sb_blocks_per_group (superblock fs)" for j
    using that fs_okD(1) [OF d(1)] by (auto simp: geometry_ok_def less_mult_imp_div_less mult.commute)
  have fi: "free_indices c' fs' i = free_indices c fs i - set js"
    using kept(4) [OF d(2)] js(1) small d(11) by (auto simp: bm get_mark_bits free_indices_def subset_iff)
  then show crd: "card (free_indices c' fs' i) = card (free_indices c fs i) - length js"
    using js by (simp add: card_Diff_subset distinct_card)
  show Bsub: "B \<subseteq> free_of_group c fs i" using js(1) by (auto simp: B free_of_group_def)
  have fg: "free_of_group c' fs' i = free_of_group c fs i - B" by (auto simp: free_of_group_def fi gD B)
  show "free_block_set c' fs' = free_block_set c fs - B" by (rule group_updated_free_set [OF u fg Bsub])
  have "g_free_blocks g = card (free_indices c fs i)" "card (free_indices c fs i) < 2 ^ 16" using fs_okD(2) [OF d(1,2)] d(3) by (auto simp: group_ok_def)
  moreover have "b \<in> free_block_set c fs" if "b \<in> free_of_group c' fs' i" for b using that d(2) by (auto simp: fg free_block_set_def)
  ultimately show "fs_ok cap c' fs'" using group_updated_ok [OF u] crd fs_okD(4) [OF d(1)] by (simp add: n)
qed

lemma allocate_in_group_ok:
  assumes gd: "good (e_file fs)" and ok: "fs_ok cap (con fs) fs" and i: "i < num_block_groups fs"
    and ld: "block_groups fs i = Some (grp (con fs) fs i)" and n: "0 < n" "n \<le> card (free_indices (con fs) fs i)"
  obtains bs fs' where "allocate_blocks_in_group F junk fs i n zero = Inr (Inr bs, fs')" "allocated zero (set bs) fs fs'" "distinct bs" "length bs = n"
    "card (free_indices (con fs') fs' i) = card (free_indices (con fs) fs i) - n" "\<forall>k < num_block_groups fs. k \<noteq> i \<longrightarrow> free_indices (con fs') fs' k = free_indices (con fs) fs k"
proof -
  let ?c = "con fs" and ?g = "grp (con fs) fs i" and ?bpg = "sb_blocks_per_group (superblock fs)"
  have bsz: "0 < e_bs fs" and geo: "geometry_ok cap fs" using fs_ok_block_size [OF ok] fs_okD(1) [OF ok] by auto
  have gok: "group_ok cap ?c fs i" by (rule fs_okD(2) [OF ok i])
  have cnt: "g_free_blocks ?g = card (free_indices ?c fs i)" "card (free_indices ?c fs i) < 2 ^ 16" "g_num ?g = i" and bmb: "block_bitmap_block ?g = bitmap_of ?c fs i"
    and room: "bitmap_of ?c fs i * e_bs fs + e_bs fs \<le> cap" "descriptor_block fs i * e_bs fs + e_bs fs \<le> cap" using gok by (auto simp: group_ok_def bitmap_of_def)
  obtain d0 where d0: "e2_read F fs (bitmap_of ?c fs i) (stack_array (e_bs fs) junk) = Inr (None, ?c (bitmap_of ?c fs i), fs\<lparr>e_file := d0\<rparr>)" "good d0" "cells d0 = cells (e_file fs)"
    by (rule e2_read_ok [OF gd room(1) bsz length_stack_array])
  let ?fs1 = "fs\<lparr>e_file := d0\<rparr>" and ?buf = "?c (bitmap_of ?c fs i)"
  define js where "js = first_free n ?buf [0..<?bpg]"
  have js: "length js = n" "set js \<subseteq> free_indices ?c fs i" "distinct js" using set_first_free [OF n(2) refl] by (simp_all add: js_def)
  have fb: "first_block ?fs1 = first_block fs" by (simp add: first_block_def fun_eq_iff)
  have small: "\<forall>j \<in> set [0..<?bpg]. j div 8 < e_bs ?fs1" using geo by (auto simp: geometry_ok_def less_mult_imp_div_less mult.commute)
  have inside: "\<forall>j \<in> set [0..<?bpg]. \<not> get_bitmap_bit ?buf j \<longrightarrow> (j + first_block ?fs1 i) * e_bs ?fs1 + e_bs ?fs1 \<le> cap"
  proof (intro ballI impI)
    fix j assume "j \<in> set [0..<?bpg]" "\<not> get_bitmap_bit ?buf j"
    then have "j + first_block fs i \<in> free_block_set ?c fs" using i by (auto simp: free_block_set_def free_of_group_def free_indices_def)
    then show "(j + first_block ?fs1 i) * e_bs ?fs1 + e_bs ?fs1 \<le> cap" using fs_okD(4) [OF ok] fb by simp
  qed
  have "\<exists>fs2. alloc_scan F n zero i [0..<?bpg] ?buf [] ?fs1 = Inr (mark_bits (first_free (n - length ([] :: nat list)) ?buf [0..<?bpg]) ?buf,
      [] @ map (\<lambda>j. j + first_block ?fs1 i) (first_free (n - length ([] :: nat list)) ?buf [0..<?bpg]), fs2) \<and> scanned zero i (first_free (n - length ([] :: nat list)) ?buf [0..<?bpg]) ?fs1 ?g fs2"
    by (rule alloc_scan_ok ) (use d0 bsz ld cnt geo n small inside in \<open>simp_all add: geometry_ok_def\<close>)
  then obtain fs2 where fs2: "alloc_scan F n zero i [0..<?bpg] ?buf [] ?fs1 = Inr (mark_bits js ?buf, map (\<lambda>j. j + first_block fs i) js, fs2)"
    "scanned zero i js ?fs1 ?g fs2" by (auto simp: js_def fb)
  define g3 where "g3 = ?g\<lparr>g_free_blocks := g_free_blocks ?g - n\<rparr>"
  have g2: "same_geometry fs fs2" "block_groups fs2 = (block_groups fs)(i \<mapsto> g3)" "good (e_file fs2)"
    and c2: "file_block (cells (e_file fs2)) (e_bs fs) = (\<lambda>b. if zero \<and> b \<in> (\<lambda>j. j + first_block fs i) ` set js then replicate (e_bs fs) 0 else ?c b)"
    using fs2(2) d0(3) js(1) by (auto simp: scanned_def g3_def fb same_geometry_def)
  note gD = same_geometryD [OF g2(1)]
  have g3: "g_num g3 = i" "block_bitmap_block g3 = bitmap_of ?c fs i" "block_groups fs2 i = Some g3" using cnt(3) bmb by (simp_all add: g3_def g2(2))
  have sg: "set_group g3 fs2 = fs2" using g3(1,3) by (simp add: set_group_def fun_upd_idem)
  let ?B = "(\<lambda>j. j + first_block fs i) ` set js"
  have pre: "geometry_ok cap fs2" "descriptor_block fs2 i * e_bs fs2 + e_bs fs2 \<le> cap" "block_bitmap_block g3 * e_bs fs2 + e_bs fs2 \<le> cap"
    "length (mark_bits js ?buf) = e_bs fs2" "block_bitmap_block g3 \<noteq> descriptor_block fs2 i" "block_bitmap_block g3 \<noteq> 1024 div e_bs fs2"
    using geo room g3 gD reserved_apart [OF ok i i] by (auto simp: geometry_ok_def)
  obtain fs3 fs4 d c3 where w: "write_superblock F fs2 = Inr fs3" "group_write F junk g3 fs3 = Inr fs4" "e2_write F fs4 (block_bitmap_block g3) (mark_bits js ?buf) = Inr (None, fs2\<lparr>e_file := d\<rparr>)"
    "good d" "\<forall>b. b \<noteq> 1024 div e_bs fs2 \<longrightarrow> c3 b = con fs2 b"
    "file_block (cells d) (e_bs fs2) = c3(descriptor_block fs2 i := put_at (con fs2 (descriptor_block fs2 i)) (descriptor_offset fs2 i) (descriptor_of_group junk g3), block_bitmap_block g3 := mark_bits js ?buf)"
    by (rule group_written [OF g2(3) pre(1) g3(3,1) pre(2-6)])
  let ?fs' = "fs2\<lparr>e_file := d\<rparr>"
  have run: "allocate_blocks_in_group F junk fs i n zero = Inr (Inr (map (\<lambda>j. j + first_block fs i) js), ?fs')"
    using ld n cnt(1) d0(1) fs2(1) w(1-3) g3 js(1) bmb sg by (simp add: allocate_blocks_in_group_def)
  have sub: "?B \<subseteq> free_block_set ?c fs" using js(2) i by (auto simp: free_block_set_def free_of_group_def)
  then have apart: "?B \<inter> reserved_blocks ?c fs = {}" using fs_okD(4) [OF ok] by blast
  have cd: "con fs2 (descriptor_block fs i) = ?c (descriptor_block fs i)" using apart reserved_apart(4) [OF ok i i] by (auto simp: c2 gD)
  have c': "file_block (cells d) (e_bs fs) = c3(descriptor_block fs i := put_at (?c (descriptor_block fs i)) (descriptor_offset fs i) (descriptor_of_group junk g3), bitmap_of ?c fs i := mark_bits js ?buf)"
    using w(6) cd by (simp add: gD g3(2))
  have u: "group_updated cap ?c (con ?fs') fs ?fs' i ?g (g_free_blocks ?g - n) (mark_bits js ?buf) ?B"
    unfolding group_updated_def
  proof (intro conjI allI impI)
    show "\<exists>xs. length xs = 32 \<and> con ?fs' (descriptor_block fs i) = put_at (?c (descriptor_block fs i)) (descriptor_offset fs i) xs"
      using reserved_apart(1) [OF ok i i] by (intro exI [of _ "descriptor_of_group junk g3"]) (simp add: c' gD)
    fix b assume "b \<notin> insert (1024 div e_bs fs) (insert (descriptor_block fs i) (insert (bitmap_of ?c fs i) ?B))"
    then show "con ?fs' b = ?c b" using w(5) by (simp add: c' c2 gD)
  qed (use ok i ld g2 apart c' in \<open>simp_all add: g3_def gD\<close>)
  note m = group_marked [OF u js(2,3) refl _ refl, unfolded js(1), OF refl] and kept = group_updated_kept [OF u]
  have "allocated zero ?B fs ?fs'"
    unfolding allocated_def
  proof (intro conjI allI impI ballI)
    show "\<exists>n. grp (con ?fs') ?fs' k = (grp ?c fs k)\<lparr>g_free_blocks := n\<rparr>" if "k < num_block_groups fs" for k
      using kept(1) [OF that] by (cases "k = i") (auto intro: exI [of _ "g_free_blocks (grp ?c fs k)"])
    show "con ?fs' b = replicate (e_bs fs) 0" if zero "b \<in> ?B" for b
    proof -
      have "b \<notin> reserved_blocks ?c fs" using that(2) apart by blast
      then have "b \<noteq> 1024 div e_bs fs" "b \<noteq> descriptor_block fs i" "b \<noteq> bitmap_of ?c fs i" using i by (auto simp: reserved_blocks_def)
      then show ?thesis using that w(5) by (simp add: c' c2 gD)
    qed
    show "con ?fs' b = ?c b" if "b \<notin> reserved_blocks ?c fs \<union> ?B" for b
      using group_updatedD(8) [OF u, of b] that i by (auto simp: reserved_blocks_def)
  qed (use w(4) m(1,2) g2(1) sub apart group_updated_reserved [OF u] in auto)
  then show ?thesis using run js m(4) kept(4) i by (intro that [OF run]) (auto simp: distinct_map)
qed

lemma most_spacious_all:
  assumes "good (e_file fs)" "fs_ok cap (con fs) fs"
  obtains fs' m where "most_spacious F junk [0..<num_block_groups fs] None fs = Inr (Some (grp (con fs) fs m), fs')" "quiet fs fs'"
    "m < num_block_groups fs" "block_groups fs' m = Some (grp (con fs) fs m)" "\<forall>i < num_block_groups fs. card (free_indices (con fs) fs i) \<le> card (free_indices (con fs) fs m)"
proof -
  have n: "0 < num_block_groups fs" using fs_okD(1) [OF assms(2)] by (simp add: geometry_ok_def)
  obtain fs1 where fs1: "get_block_group F junk fs 0 = Inr (Some (grp (con fs) fs 0), fs1)" "quiet fs fs1" "block_groups fs1 0 = Some (grp (con fs) fs 0)"
    by (rule get_block_group_ok [OF assms n])
  note q = quietD [OF fs1(2)]
  have ng: "num_block_groups fs1 = num_block_groups fs" by (rule same_geometryD(2) [OF q(4)])
  have pre: "\<forall>i \<in> set [1..<num_block_groups fs]. i < num_block_groups fs1" "0 < num_block_groups fs1" "block_groups fs1 0 = Some (grp (con fs1) fs1 0)"
    using ng n fs1(3) q(7) [OF n] by auto
  show ?thesis
  proof (rule most_spacious_ok [OF q(1) q(6) [THEN iffD2, OF assms(2)] pre])
    fix m fs' assume m: "most_spacious F junk [1..<num_block_groups fs] (Some (grp (con fs1) fs1 0)) fs1 = Inr (Some (grp (con fs1) fs1 m), fs')" "quiet fs1 fs'"
      "m < num_block_groups fs1" "block_groups fs' m = Some (grp (con fs1) fs1 m)" "\<forall>i \<in> insert 0 (set [1..<num_block_groups fs]). card (free_indices (con fs1) fs1 i) \<le> card (free_indices (con fs1) fs1 m)"
    have mn: "m < num_block_groups fs" using m(3) ng by simp
    have "card (free_indices (con fs) fs i) \<le> card (free_indices (con fs) fs m)" if "i < num_block_groups fs" for i
    proof -
      have "i \<in> insert 0 (set [1..<num_block_groups fs])" using that by auto
      with m(5) have "card (free_indices (con fs1) fs1 i) \<le> card (free_indices (con fs1) fs1 m)" by blast
      then show ?thesis using q(8) [OF that] q(8) [OF mn] by simp
    qed
    then show ?thesis using m(1,4) mn q(7) [OF n] q(7) [OF mn] fs1(1) quiet_trans [OF fs1(2) m(2)] n
      by (intro that [of m fs']) (simp_all add: upt_conv_Cons)
  qed
qed

lemma allocated_card: "allocated zero (set bs) fs fs' \<Longrightarrow> distinct bs \<Longrightarrow> card (free_block_set (con fs') fs') = card (free_block_set (con fs) fs) - length bs"
  by (simp add: allocated_def card_Diff_subset distinct_card)

lemma alloc_loop_ok:
  assumes "good (e_file fs)" "fs_ok cap (con fs) fs"
  shows "\<exists>r fs' bs. alloc_loop F junk zero n ret fs = Some (Inr (r, fs')) \<and> allocated zero (set bs) fs fs' \<and> distinct bs \<and>
    (if n \<le> card (free_block_set (con fs) fs) then r = Inr (ret @ bs) \<and> length bs = n else r = Inl ENOSPC \<and> set bs = free_block_set (con fs) fs)"
  using assms(1,2)
proof (induction n arbitrary: ret fs rule: less_induct)
  case (less n)
  note unf = alloc_loop.simps [of F junk zero n ret fs]
  show ?case
  proof (cases "n = 0")
    case True
    then show ?thesis using allocated_quiet [OF quiet_refl less.prems(2)] less.prems(1) by (intro exI [of _ "Inr ret"] exI [of _ fs] exI [of _ "[]"]) (simp add: alloc_loop.simps)
  next
    case False
    obtain fs1 m where m: "most_spacious F junk [0..<num_block_groups fs] None fs = Inr (Some (grp (con fs) fs m), fs1)" "quiet fs fs1"
      "m < num_block_groups fs" "block_groups fs1 m = Some (grp (con fs) fs m)" "\<forall>i < num_block_groups fs. card (free_indices (con fs) fs i) \<le> card (free_indices (con fs) fs m)"
      by (rule most_spacious_all [OF less.prems])
    note q = quietD [OF m(2)]
    have gm: "g_num (grp (con fs) fs m) = m" "g_free_blocks (grp (con fs) fs m) = card (free_indices (con fs) fs m)"
      using fs_okD(2) [OF less.prems(2) m(3)] by (auto simp: group_ok_def)
    have q1: "allocated zero {} fs fs1" by (rule allocated_quiet [OF m(2) less.prems(2)])
    show ?thesis
    proof (cases "card (free_indices (con fs) fs m) = 0")
      case True
      then have "card (free_block_set (con fs) fs) = 0" using m(5) by (simp add: card_free_set)
      then show ?thesis using False m(1) gm(2) True q1 by (intro exI [of _ "Inl ENOSPC"] exI [of _ fs1] exI [of _ "[]"]) (simp add: unf)
    next
      case F: False
      let ?k = "min (card (free_indices (con fs) fs m)) n"
      have ok1: "fs_ok cap (con fs1) fs1" using q(6) less.prems(2) by blast
      have pre: "m < num_block_groups fs1" "block_groups fs1 m = Some (grp (con fs1) fs1 m)" "0 < ?k" "?k \<le> card (free_indices (con fs1) fs1 m)"
        using m(3,4) q(7) [OF m(3)] q(8) [OF m(3)] same_geometryD(2) [OF q(4)] False F by (simp_all add: card_gt_0_iff)
      obtain bs1 fs2 where b: "allocate_blocks_in_group F junk fs1 m ?k zero = Inr (Inr bs1, fs2)" "allocated zero (set bs1) fs1 fs2" "distinct bs1" "length bs1 = ?k"
        by (rule allocate_in_group_ok [OF q(1) ok1 pre])
      have step: "alloc_loop F junk zero n ret fs = alloc_loop F junk zero (n - ?k) (ret @ bs1) fs2"
        using False F m(1) gm b(1,4) by (simp add: unf)
      have a: "allocated zero (set bs1) fs fs2" using allocated_trans [OF q1 b(2)] by simp
      then have fs2: "good (e_file fs2)" "fs_ok cap (con fs2) fs2" "set bs1 \<subseteq> free_block_set (con fs) fs" and fr: "free_block_set (con fs2) fs2 = free_block_set (con fs) fs - set bs1" by (simp_all add: allocated_def)
      have crd: "card (free_block_set (con fs2) fs2) = card (free_block_set (con fs) fs) - ?k" using allocated_card [OF a b(3)] b(4) by simp
      have "card (set bs1) \<le> card (free_block_set (con fs) fs)" by (rule card_mono [OF free_blocks_finite fs2(3)])
      then have kC: "?k \<le> card (free_block_set (con fs) fs)" using b(3,4) by (simp add: distinct_card)
      have "n - ?k < n" using pre(3) by simp
      from less.IH [OF this fs2(1,2), of "ret @ bs1"] obtain r fs' bs where r: "alloc_loop F junk zero (n - ?k) (ret @ bs1) fs2 = Some (Inr (r, fs'))"
        "allocated zero (set bs) fs2 fs'" "distinct bs"
        "if n - ?k \<le> card (free_block_set (con fs2) fs2) then r = Inr ((ret @ bs1) @ bs) \<and> length bs = n - ?k else r = Inl ENOSPC \<and> set bs = free_block_set (con fs2) fs2"
        by blast
      have "set bs \<subseteq> free_block_set (con fs2) fs2" using r(2) by (simp add: allocated_def)
      then have dis: "distinct (bs1 @ bs)" using b(3) r(3) fr by auto
      have al: "allocated zero (set (bs1 @ bs)) fs fs'" using allocated_trans [OF a r(2)] by simp
      have iff: "n - ?k \<le> card (free_block_set (con fs2) fs2) \<longleftrightarrow> n \<le> card (free_block_set (con fs) fs)" using crd kC by linarith
      show ?thesis using step r(1,4) dis al b(4) fr fs2(3) unfolding iff
        by (intro exI [of _ r] exI [of _ fs'] exI [of _ "bs1 @ bs"]) (auto split: if_splits)
    qed
  qed
qed

lemma allocate_blocks_ok:
  assumes gd: "good (e_file fs)" and ok: "fs_ok cap (con fs) fs" and n: "0 < n"
  shows "\<exists>r fs' bs. allocate_blocks F junk fs n zero = Inr (r, fs') \<and> allocated zero (set bs) fs fs' \<and> distinct bs \<and>
    (if n \<le> card (free_block_set (con fs) fs) then r = Inr bs \<and> length bs = n else r = Inl ENOSPC \<and> set bs = free_block_set (con fs) fs)"
proof -
  have all: "\<forall>i \<in> set [0..<num_block_groups fs]. i < num_block_groups fs" by simp
  obtain fs1 t where t: "find_group F junk n [0..<num_block_groups fs] fs = Inr (t, fs1)" "quiet fs fs1"
    "case t of None \<Rightarrow> \<forall>i \<in> set [0..<num_block_groups fs]. card (free_indices (con fs) fs i) < n
     | Some i \<Rightarrow> i \<in> set [0..<num_block_groups fs] \<and> n \<le> card (free_indices (con fs) fs i) \<and> block_groups fs1 i = Some (grp (con fs) fs i)"
    by (rule find_group_ok [OF gd ok all])
  note q = quietD [OF t(2)]
  have ok1: "fs_ok cap (con fs1) fs1" using q(6) ok by blast
  have q1: "allocated zero {} fs fs1" by (rule allocated_quiet [OF t(2) ok])
  show ?thesis
  proof (cases t)
    case None
    from alloc_loop_ok [OF q(1) ok1, of junk zero n "[]"] obtain r fs' bs where r: "alloc_loop F junk zero n [] fs1 = Some (Inr (r, fs'))" "allocated zero (set bs) fs1 fs'" "distinct bs"
      "if n \<le> card (free_block_set (con fs1) fs1) then r = Inr ([] @ bs) \<and> length bs = n else r = Inl ENOSPC \<and> set bs = free_block_set (con fs1) fs1" by blast
    have "allocated zero (set bs) fs fs'" using allocated_trans [OF q1 r(2)] by simp
    then show ?thesis using r(1,3,4) t(1) None n q(5) by (intro exI [of _ r] exI [of _ fs'] exI [of _ bs]) (simp add: allocate_blocks_def)
  next
    case (Some i)
    have i: "i < num_block_groups fs" "n \<le> card (free_indices (con fs) fs i)" using t(3) Some by auto
    have pre: "i < num_block_groups fs1" "block_groups fs1 i = Some (grp (con fs1) fs1 i)" "n \<le> card (free_indices (con fs1) fs1 i)"
      using t(3) Some i q(7) [OF i(1)] q(8) [OF i(1)] same_geometryD(2) [OF q(4)] by simp_all
    obtain bs fs' where b: "allocate_blocks_in_group F junk fs1 i n zero = Inr (Inr bs, fs')" "allocated zero (set bs) fs1 fs'" "distinct bs" "length bs = n"
      by (rule allocate_in_group_ok [OF q(1) ok1 pre(1,2) n pre(3)])
    have a: "allocated zero (set bs) fs fs'" using allocated_trans [OF q1 b(2)] by simp
    then have "card (set bs) \<le> card (free_block_set (con fs) fs)" by (intro card_mono) (simp_all add: allocated_def)
    then show ?thesis using t(1) Some n b a by (intro exI [of _ "Inr bs"] exI [of _ fs'] exI [of _ bs]) (simp add: allocate_blocks_def distinct_card)
  qed
qed

end

section \<open>Properties\<close>

abbreviation fs_blocks :: "('d \<Rightarrow> nat \<Rightarrow> byte) \<Rightarrow> 'd ext2 \<Rightarrow> nat \<Rightarrow> byte list" where
  "fs_blocks cells fs \<equiv> file_block (cells (e_file fs)) (e_bs fs)"

text \<open>
  C17. \<open>allocate_blocks\<close> on an intact filesystem (\<open>fs_ok\<close>), over any file that reads and writes as
  documented (\<open>block_file\<close>, which a partition of a disk provides as long as the transfers of the disk
  succeed), asked for at least one block: if enough blocks are free it returns as many as asked, all different, all free before and none of
  them free afterwards; they are zeroed on request, and no other block outside the superblock, the
  descriptors and the bitmaps changes. Otherwise it returns ENOSPC, but only after it has marked
  every free block of the filesystem as used. The filesystem stays intact either way.
\<close>

theorem ext2_allocate_blocks:
  assumes "block_file F good cells cap" "good (e_file fs)" "fs_ok cap (fs_blocks cells fs) fs" "0 < n"
  shows "\<exists>r fs'. allocate_blocks F junk fs n zero = Inr (r, fs') \<and> good (e_file fs') \<and> fs_ok cap (fs_blocks cells fs') fs' \<and>
    (if n \<le> card (free_block_set (fs_blocks cells fs) fs)
     then \<exists>bs. r = Inr bs \<and> distinct bs \<and> length bs = n \<and> set bs \<subseteq> free_block_set (fs_blocks cells fs) fs \<and>
       free_block_set (fs_blocks cells fs') fs' = free_block_set (fs_blocks cells fs) fs - set bs \<and>
       (zero \<longrightarrow> (\<forall>b \<in> set bs. fs_blocks cells fs' b = replicate (e_bs fs) 0)) \<and>
       (\<forall>b. b \<notin> reserved_blocks (fs_blocks cells fs) fs \<union> set bs \<longrightarrow> fs_blocks cells fs' b = fs_blocks cells fs b)
     else r = Inl ENOSPC \<and> free_block_set (fs_blocks cells fs') fs' = {})"
proof -
  obtain r fs' bs where r: "allocate_blocks F junk fs n zero = Inr (r, fs')" "block_file.allocated good cells cap zero (set bs) fs fs'" "distinct bs"
    "if n \<le> card (free_block_set (fs_blocks cells fs) fs) then r = Inr bs \<and> length bs = n else r = Inl ENOSPC \<and> set bs = free_block_set (fs_blocks cells fs) fs"
    using block_file.allocate_blocks_ok [OF assms(1-4), of junk zero] by blast
  note a = r(2) [unfolded block_file.allocated_def [OF assms(1)]]
  show ?thesis
  proof (cases "n \<le> card (free_block_set (fs_blocks cells fs) fs)")
    case True
    then have "r = Inr bs" "length bs = n" using r(4) by simp_all
    then show ?thesis using True a r(1,3) by (intro exI [of _ r] exI [of _ fs']) simp
  next
    case False
    then have "r = Inl ENOSPC" "set bs = free_block_set (fs_blocks cells fs) fs" using r(4) by simp_all
    then show ?thesis using False a r(1) by (intro exI [of _ r] exI [of _ fs']) simp
  qed
qed

text \<open>
  A partition of eighteen sectors that starts at the second sector of a disk, and on it a filesystem
  of nine blocks with three free blocks.
\<close>

definition small_partition :: partition_device where
  "small_partition = partition_new (ram_disk 512) 1"

definition small_file :: "(nat \<Rightarrow> byte) disk file_ops" where
  "small_file = partition_file (ram_disk 512) 0 19 small_partition"

definition small_cells :: "(nat \<Rightarrow> byte) disk \<Rightarrow> nat \<Rightarrow> byte" where
  "small_cells s = (\<lambda>i. disk_byte (ram_disk 512) s (i + part_offset small_partition))"

abbreviation small_good :: "(nat \<Rightarrow> byte) disk \<Rightarrow> bool" where
  "small_good \<equiv> disk_wf (ram_disk 512)"

lemma small_partition: "part_offset small_partition = 512"
  by (simp add: small_partition_def partition_new_def)

lemma small_file: "block_file small_file small_good small_cells 9216"
proof -
  have "disk_partition (ram_disk 512) 19 small_partition"
    by unfold_locales (simp_all add: ram_disk_device PAGE_SIZE_def small_partition)
  moreover have "part_cap (ram_disk 512) 19 small_partition = 9216" by (simp add: part_cap_def small_partition)
  ultimately show ?thesis
    using disk_partition.partition_is_file [of "ram_disk 512" 19 small_partition 0] by (simp add: small_file_def small_cells_def [abs_def])
qed

lemma small_cells_new: "small_cells (disk_new d) = (\<lambda>i. d (i + 512))"
proof
  fix i :: nat
  have "(i + 512) div 512 * 512 + (i + 512) mod 512 = i + 512" by (rule div_mult_mod_eq)
  then show "small_cells (disk_new d) i = d (i + 512)"
    by (simp add: small_cells_def small_partition disk_byte_def disk_new_wf)
qed

definition small_group :: block_group where
  "small_group = \<lparr>g_num = 0, block_bitmap_block = 3, inode_bitmap_block = 4, inode_table_block = 5, g_free_blocks = 3, g_free_inodes = 7, g_num_directories = 0\<rparr>"

definition small_super :: "byte list" where
  "small_super = put16 (put32 (put32 (replicate 512 0) 32 8) 40 8) 88 128"

definition small_fs :: "(nat \<Rightarrow> byte) disk ext2" where
  "small_fs = \<lparr>e_file = disk_new (\<lambda>p. if p = 3584 then 31 else 0), e_bs = 1024, superblock = small_super, num_block_groups = 1, inodes_per_block = 8,
     block_pointers_per_block = 256, block_groups = (\<lambda>_. None)(0 \<mapsto> small_group)\<rparr>"

lemma small_super: "length small_super = 512" "sb_blocks_per_group small_super = 8" "sb_inodes_per_group small_super = 8" "sb_inode_size small_super = 128"
  by (simp_all add: small_super_def sb_blocks_per_group_def sb_inodes_per_group_def sb_inode_size_def get_put_same get_put_other)

lemma small_fs_good: "small_good (e_file small_fs)"
  by (simp add: small_fs_def disk_new_wf)

lemma small_fs_cells: "small_cells (e_file small_fs) = (\<lambda>p. if p = 3072 then 31 else 0)"
  by (auto simp: small_fs_def small_cells_new)

lemma small_fs_groups: "grp (fs_blocks small_cells small_fs) small_fs 0 = small_group" "bitmap_of (fs_blocks small_cells small_fs) small_fs 0 = 3"
  by (simp_all add: bitmap_of_def grp_def small_fs_def small_group_def)

lemma small_fs_free: "free_indices (fs_blocks small_cells small_fs) small_fs 0 = {5, 6, 7}"
proof -
  have "free_indices (fs_blocks small_cells small_fs) small_fs 0 = {j. j < 8 \<and> \<not> bit (31 :: byte) j}"
    using small_fs_groups(2) small_super(2)
    unfolding free_indices_def small_fs_cells by (auto simp: small_fs_def bitmap_bit file_block_def)
  also have "\<dots> = {5, 6, 7}" by (auto simp: less_Suc_eq numeral_eq_Suc bit_simps)
  finally show ?thesis .
qed

lemma small_fs_ok: "fs_ok 9216 (fs_blocks small_cells small_fs) small_fs" "card (free_block_set (fs_blocks small_cells small_fs) small_fs) = 3"
proof -
  let ?c = "fs_blocks small_cells small_fs"
  have geo: "e_bs small_fs = 1024" "num_block_groups small_fs = 1" "superblock small_fs = small_super" "block_pointers_per_block small_fs = 256" by (simp_all add: small_fs_def)
  note view = small_fs_groups [unfolded geo] small_fs_free [unfolded geo]
  have one: "{..<1 :: nat} = {0}" "{..<Suc 0} = {0}" by auto
  have fs: "free_block_set ?c small_fs = {6, 7, 8}" by (simp add: free_block_set_def free_of_group_def geo one view first_block_def)
  have res: "reserved_blocks ?c small_fs = {1, 2, 3}" by (auto simp: reserved_blocks_def geo one view descriptor_block_def)
  have "group_ok 9216 ?c small_fs 0" by (simp add: group_ok_def descriptor_block_def geo one view) (simp add: small_group_def)
  then show "fs_ok 9216 ?c small_fs" using fs res by (simp add: fs_ok_def geometry_ok_def geo one small_super)
  show "card (free_block_set ?c small_fs) = 3" by (simp add: fs)
qed

theorem ext2_allocate_blocks_witness:
  "\<exists>r fs'. allocate_blocks small_file [] small_fs 2 True = Inr (r, fs') \<and> (\<exists>bs. r = Inr bs \<and> length bs = 2 \<and> distinct bs \<and>
     (\<forall>b \<in> set bs. fs_blocks small_cells fs' b = replicate 1024 0))"
  using ext2_allocate_blocks [OF small_file small_fs_good small_fs_ok(1), of 2 "[]" True] small_fs_ok(2)
  by (auto simp: small_fs_def)

end
