(* ===== verification/Ext2Inode.thy ===== *)
theory Ext2Inode
  imports Ext2Alloc
begin

text \<open>
  Inodes of ext2 (\<open>src/kernel/filesystem/ext2/Ext2Inode.cpp\<close>): the entry in the inode table, which is
  kept as the packed structure of 128 bytes, the pointers to the blocks of the file with their
  indirect blocks, and reading, writing and truncating the file. A \<open>kstd::vector\<close> is a list here.
  Arithmetic on sizes and offsets wraps at 32 bits where the code lets a caller choose the values.
\<close>

unbundle bit_operations_syntax

section \<open>State\<close>

record e2inode =
  i_id :: nat
  i_raw :: "byte list"
  i_mode :: nat
  i_size :: nat
  i_uid :: nat
  i_gid :: nat
  i_dev :: "nat \<times> nat"
  i_blocks :: "nat list"
  i_ptr_blocks :: "nat list"
  i_dirty :: bool
  i_exists :: bool

definition mode_type :: "nat \<Rightarrow> nat" where "mode_type m = m AND 0xF000"

definition is_directory :: "e2inode \<Rightarrow> bool" where "is_directory ino \<longleftrightarrow> mode_type (i_mode ino) = 0x4000"
definition is_simple_file :: "e2inode \<Rightarrow> bool" where "is_simple_file ino \<longleftrightarrow> mode_type (i_mode ino) = 0x8000"
definition is_block_device :: "e2inode \<Rightarrow> bool" where "is_block_device ino \<longleftrightarrow> mode_type (i_mode ino) = 0x6000"
definition is_character_device :: "e2inode \<Rightarrow> bool" where "is_character_device ino \<longleftrightarrow> mode_type (i_mode ino) = 0x2000"
definition is_device :: "e2inode \<Rightarrow> bool" where "is_device ino \<longleftrightarrow> mode_type (i_mode ino) = 0x2000 \<or> mode_type (i_mode ino) = 0x6000"
definition is_symlink :: "e2inode \<Rightarrow> bool" where "is_symlink ino \<longleftrightarrow> mode_type (i_mode ino) = 0xA000"

text \<open>Fields of \<open>Ext2Inode::Raw\<close>.\<close>

definition raw_pointer :: "byte list \<Rightarrow> nat \<Rightarrow> nat" where "raw_pointer raw i = get32 raw (40 + 4 * i)"
definition set_raw_pointer :: "nat \<Rightarrow> nat \<Rightarrow> byte list \<Rightarrow> byte list" where "set_raw_pointer i b raw = put32 raw (40 + 4 * i) b"
definition s_pointer :: "byte list \<Rightarrow> nat" where "s_pointer raw = get32 raw 88"
definition d_pointer :: "byte list \<Rightarrow> nat" where "d_pointer raw = get32 raw 92"
definition t_pointer :: "byte list \<Rightarrow> nat" where "t_pointer raw = get32 raw 96"
definition hard_links :: "byte list \<Rightarrow> nat" where "hard_links raw = get16 raw 26"

definition upd_raw :: "(byte list \<Rightarrow> byte list) \<Rightarrow> e2inode \<Rightarrow> e2inode" where
  "upd_raw f ino = ino\<lparr>i_raw := f (i_raw ino)\<rparr>"

definition create_metadata :: "e2inode \<Rightarrow> e2inode" where
  "create_metadata ino =
     (let raw = i_raw ino;
          ino1 = ino\<lparr>i_mode := get16 raw 0, i_size := get32 raw 4, i_uid := get16 raw 2, i_gid := get16 raw 24\<rparr> in
      if is_device ino1 then
        let device = (if raw_pointer raw 0 = 0 then raw_pointer raw 1 else raw_pointer raw 0)
        in ino1\<lparr>i_dev := (drop_bit 8 (device AND 0xfff00), (device AND 0xff) OR (drop_bit 12 device AND 0xfff00))\<rparr>
      else ino1)"

section \<open>The inode table\<close>

definition inode_index :: "'d ext2 \<Rightarrow> nat \<Rightarrow> nat" where
  "inode_index fs k = (k + 2 ^ 32 - 1) mod 2 ^ 32 mod sb_inodes_per_group (superblock fs)"

definition inode_group :: "'d ext2 \<Rightarrow> nat \<Rightarrow> nat" where
  "inode_group fs k = (k + 2 ^ 32 - 1) mod 2 ^ 32 div sb_inodes_per_group (superblock fs)"

definition inode_block :: "'d ext2 \<Rightarrow> nat \<Rightarrow> nat" where
  "inode_block fs k = mul32 (inode_index fs k) (sb_inode_size (superblock fs)) div e_bs fs"

text \<open>The block of the table that holds an inode, and the place there: pointer arithmetic on \<open>Raw\<close>.\<close>

definition inode_place :: "'d file_ops \<Rightarrow> byte list \<Rightarrow> 'd ext2 \<Rightarrow> nat \<Rightarrow> (nat \<times> nat \<times> 'd ext2) result" where
  "inode_place F junk fs k =
     (if sb_inodes_per_group (superblock fs) = 0 \<or> inodes_per_block fs = 0 then Inl Undefined
      else
        rbind (get_block_group F junk fs (inode_group fs k)) (\<lambda>(bg, fs').
        case bg of
          None \<Rightarrow> Inl Undefined
        | Some g \<Rightarrow>
            let off = 128 * (inode_index fs k mod inodes_per_block fs) in
            if e_bs fs < off + 128 then Inl Undefined else Inr (inode_table_block g + inode_block fs k, off, fs')))"

definition write_inode_entry :: "'d file_ops \<Rightarrow> byte list \<Rightarrow> 'd ext2 \<times> e2inode \<Rightarrow> ('d ext2 \<times> e2inode) result" where
  "write_inode_entry F junk s =
     (case s of (fs, ino) \<Rightarrow>
        let raw = put16 (put16 (put16 (put32 (i_raw ino) 4 (i_size ino)) 0 (i_mode ino)) 2 (i_uid ino)) 24 (i_gid ino) in
        rbind (inode_place F junk fs (i_id ino)) (\<lambda>(b, off, fs1).
        rbind (e2_read F fs1 b (stack_array (e_bs fs) junk)) (\<lambda>(_, block_buf, fs2).
        rbind (e2_write F fs2 b (put_at block_buf off raw)) (\<lambda>(_, fs3).
        Inr (fs3, ino\<lparr>i_raw := raw, i_dirty := False\<rparr>)))))"

section \<open>Pointers to blocks\<close>

definition inode_num_blocks :: "'d ext2 \<Rightarrow> e2inode \<Rightarrow> nat" where
  "inode_num_blocks fs ino = (if is_symlink ino \<and> i_size ino < 60 then 0 else add32 (i_size ino) (e_bs fs - 1) div e_bs fs)"

definition get_block_pointer :: "e2inode \<Rightarrow> nat \<Rightarrow> nat" where
  "get_block_pointer ino i = (if i \<ge> length (i_blocks ino) then 0 else i_blocks ino ! i)"

definition set_block_pointer :: "nat \<Rightarrow> nat \<Rightarrow> e2inode \<Rightarrow> bool \<times> e2inode" where
  "set_block_pointer i b ino =
     (if i = 0 \<and> i_blocks ino = [] then (True, ino\<lparr>i_blocks := [b], i_dirty := True\<rparr>)
      else if i < length (i_blocks ino) then (True, ino\<lparr>i_blocks := (i_blocks ino)[i := b], i_dirty := True\<rparr>)
      else if i = length (i_blocks ino) then (True, ino\<lparr>i_blocks := i_blocks ino @ [b], i_dirty := True\<rparr>)
      else (False, ino))"

definition calculate_num_ptr_blocks :: "'d ext2 \<Rightarrow> nat \<Rightarrow> nat result" where
  "calculate_num_ptr_blocks fs n =
     (let p = block_pointers_per_block fs in
      if n \<le> 12 then Inr 0
      else if p = 0 then Inl Undefined
      else
        let left = n - 12 - min (n - 12) p in
        if left = 0 then Inr 1
        else
          let dind = min left (p * p) in
          rassert (left - dind = 0) (Inr (2 + (dind + p - 1) div p)))"

text \<open>Reading: the pointers found so far, the pointer blocks, and \<open>block_index\<close>, which counts the former.\<close>

record pointer_state =
  p_index :: nat
  p_blocks :: "nat list"
  p_ptr_blocks :: "nat list"

fun read_entries :: "nat \<Rightarrow> byte list \<Rightarrow> nat list \<Rightarrow> pointer_state \<Rightarrow> pointer_state" where
  "read_entries n buf [] st = st"
| "read_entries n buf (i # is) st =
     (if p_index st < n
      then read_entries n buf is (st\<lparr>p_blocks := p_blocks st @ [get32 buf (4 * i)], p_index := p_index st + 1\<rparr>)
      else st)"

definition read_singly_indirect :: "'d file_ops \<Rightarrow> byte list \<Rightarrow> nat \<Rightarrow> nat \<Rightarrow> pointer_state \<times> 'd ext2 \<Rightarrow> (pointer_state \<times> 'd ext2) result" where
  "read_singly_indirect F junk n b s =
     (case s of (st, fs) \<Rightarrow>
        if p_index st \<ge> n then Inr (st, fs)
        else
          rbind (e2_read F fs b (stack_array (e_bs fs) junk)) (\<lambda>(_, buf, fs').
          Inr (read_entries n buf [0..<block_pointers_per_block fs'] (st\<lparr>p_ptr_blocks := p_ptr_blocks st @ [b]\<rparr>), fs')))"

text \<open>The loops of \<open>read_doubly_indirect\<close> and \<open>read_triply_indirect\<close> over the entries of their block.\<close>

fun read_each :: "(nat \<Rightarrow> pointer_state \<times> 'd ext2 \<Rightarrow> (pointer_state \<times> 'd ext2) result) \<Rightarrow> nat \<Rightarrow> byte list \<Rightarrow> nat list \<Rightarrow> pointer_state \<times> 'd ext2 \<Rightarrow>
    (pointer_state \<times> 'd ext2) result" where
  "read_each f n buf [] s = Inr s"
| "read_each f n buf (i # is) s = (if p_index (fst s) < n then rbind (f (get32 buf (4 * i)) s) (read_each f n buf is) else Inr s)"

definition read_doubly_indirect :: "'d file_ops \<Rightarrow> byte list \<Rightarrow> nat \<Rightarrow> nat \<Rightarrow> pointer_state \<times> 'd ext2 \<Rightarrow> (pointer_state \<times> 'd ext2) result" where
  "read_doubly_indirect F junk n b s =
     (case s of (st, fs) \<Rightarrow>
        if p_index st \<ge> n then Inr (st, fs)
        else
          rbind (e2_read F fs b (stack_array (e_bs fs) junk)) (\<lambda>(_, buf, fs').
          read_each (read_singly_indirect F junk n) n buf [0..<block_pointers_per_block fs'] (st\<lparr>p_ptr_blocks := p_ptr_blocks st @ [b]\<rparr>, fs')))"

definition read_triply_indirect :: "'d file_ops \<Rightarrow> byte list \<Rightarrow> nat \<Rightarrow> nat \<Rightarrow> pointer_state \<times> 'd ext2 \<Rightarrow> (pointer_state \<times> 'd ext2) result" where
  "read_triply_indirect F junk n b s =
     (case s of (st, fs) \<Rightarrow>
        if p_index st \<ge> n then Inr (st, fs)
        else
          rbind (e2_read F fs b (stack_array (e_bs fs) junk)) (\<lambda>(_, buf, fs').
          read_each (read_doubly_indirect F junk n) n buf [0..<block_pointers_per_block fs'] (st\<lparr>p_ptr_blocks := p_ptr_blocks st @ [b]\<rparr>, fs')))"

fun read_direct :: "nat \<Rightarrow> byte list \<Rightarrow> nat list \<Rightarrow> pointer_state \<Rightarrow> pointer_state" where
  "read_direct n raw [] st = st"
| "read_direct n raw (i # is) st =
     (if p_index st < n
      then read_direct n raw is (st\<lparr>p_blocks := p_blocks st @ [raw_pointer raw (p_index st)], p_index := p_index st + 1\<rparr>)
      else st)"

definition read_block_pointers :: "'d file_ops \<Rightarrow> byte list \<Rightarrow> 'd ext2 \<times> e2inode \<Rightarrow> ('d ext2 \<times> e2inode) result" where
  "read_block_pointers F junk s =
     (case s of (fs, ino) \<Rightarrow>
        if is_symlink ino \<and> i_size ino < 60 then Inr (fs, ino\<lparr>i_blocks := [], i_ptr_blocks := []\<rparr>)
        else
          let n = inode_num_blocks fs ino; raw = i_raw ino in
          rbind (read_singly_indirect F junk n (s_pointer raw) (read_direct n raw [0..<12] \<lparr>p_index = 0, p_blocks = [], p_ptr_blocks = []\<rparr>, fs)) (\<lambda>s1.
          rbind (read_doubly_indirect F junk n (d_pointer raw) s1) (\<lambda>s2.
          rbind (read_triply_indirect F junk n (t_pointer raw) s2) (\<lambda>(st, fs').
          Inr (fs', ino\<lparr>i_blocks := p_blocks st, i_ptr_blocks := p_ptr_blocks st\<rparr>)))))"

text \<open>Writing: the pointers of the file from \<open>from\<close> on fill the block in \<open>buf\<close>.\<close>

definition put_pointers :: "e2inode \<Rightarrow> nat \<Rightarrow> nat \<Rightarrow> byte list \<Rightarrow> byte list" where
  "put_pointers ino from n buf = fold (\<lambda>i buf. put32 buf (4 * i) (get_block_pointer ino (from + i))) [0..<n] buf"

definition block_or_new :: "'d file_ops \<Rightarrow> byte list \<Rightarrow> nat \<Rightarrow> 'd ext2 \<Rightarrow> (nat \<times> 'd ext2) result" where
  "block_or_new F junk p fs = (if p = 0 then allocate_block F junk fs True else Inr (p, fs))"

definition push_ptr_block :: "nat \<Rightarrow> e2inode \<Rightarrow> e2inode" where
  "push_ptr_block p ino = ino\<lparr>i_ptr_blocks := i_ptr_blocks ino @ [p]\<rparr>"

definition write_singly :: "'d file_ops \<Rightarrow> byte list \<Rightarrow> byte list \<Rightarrow> 'd ext2 \<times> e2inode \<Rightarrow> (status \<times> byte list \<times> 'd ext2 \<times> e2inode) result" where
  "write_singly F junk block_buf s =
     (case s of (fs, ino) \<Rightarrow>
        if inode_num_blocks fs ino > 12 then
          rbind (block_or_new F junk (s_pointer (i_raw ino)) fs) (\<lambda>(p, fs1).
          let ino1 = upd_raw (\<lambda>raw. put32 raw 88 p) ino in
          if p = 0 then Inr (Some ENOSPC, block_buf, fs1, ino1)
          else
            rbind (e2_read F fs1 p block_buf) (\<lambda>(_, buf, fs2).
            let buf' = put_pointers ino1 12 (block_pointers_per_block fs2) buf in
            rbind (e2_write F fs2 p buf') (\<lambda>(_, fs3).
            Inr (None, buf', fs3, push_ptr_block p ino1))))
        else Inr (None, block_buf, fs, upd_raw (\<lambda>raw. put32 raw 88 0) ino))"

text \<open>The loop over the entries of the doubly indirect block.\<close>

fun write_dblocks :: "'d file_ops \<Rightarrow> byte list \<Rightarrow> nat list \<Rightarrow> nat \<Rightarrow> byte list \<Rightarrow> byte list \<Rightarrow> 'd ext2 \<times> e2inode \<Rightarrow>
    (status \<times> byte list \<times> 'd ext2 \<times> e2inode) result" where
  "write_dblocks F junk [] cur_block block_buf dblock_buf s = Inr (None, block_buf, s)"
| "write_dblocks F junk (dindex # is) cur_block block_buf dblock_buf s =
     (case s of (fs, ino) \<Rightarrow>
        if get_block_pointer ino cur_block = 0 then Inr (None, block_buf, s)
        else
          rbind (block_or_new F junk (get32 block_buf (4 * dindex)) fs) (\<lambda>(dblock, fs1).
          let block_buf' = put32 block_buf (4 * dindex) dblock in
          if dblock = 0 then Inr (Some ENOSPC, block_buf', fs1, ino)
          else
            rbind (e2_read F fs1 dblock dblock_buf) (\<lambda>(_, dbuf, fs2).
            let dbuf' = put_pointers ino cur_block (e_bs fs2 div 4) dbuf in
            rbind (e2_write F fs2 dblock dbuf') (\<lambda>(_, fs3).
            write_dblocks F junk is (cur_block + e_bs fs2 div 4) block_buf' dbuf' (fs3, push_ptr_block dblock ino)))))"

definition write_doubly :: "'d file_ops \<Rightarrow> byte list \<Rightarrow> byte list \<Rightarrow> 'd ext2 \<times> e2inode \<Rightarrow> (status \<times> 'd ext2 \<times> e2inode) result" where
  "write_doubly F junk block_buf s =
     (case s of (fs, ino) \<Rightarrow>
        if inode_num_blocks fs ino > 12 + block_pointers_per_block fs then
          rbind (block_or_new F junk (d_pointer (i_raw ino)) fs) (\<lambda>(p, fs1).
          let ino1 = upd_raw (\<lambda>raw. put32 raw 92 p) ino in
          if p = 0 then Inr (Some ENOSPC, fs1, ino1)
          else
            rbind (e2_read F fs1 p block_buf) (\<lambda>(_, buf, fs2).
            let buf' = (if d_pointer (i_raw ino) = 0 then replicate (e_bs fs2) 0 else buf) in
            rbind (write_dblocks F junk [0..<block_pointers_per_block fs2] (12 + block_pointers_per_block fs2) buf'
                     (stack_array (e_bs fs2) junk) (fs2, push_ptr_block p ino1)) (\<lambda>(res, dbuf, fs3, ino2).
            if res \<noteq> None then Inr (res, fs3, ino2)
            else rbind (e2_write F fs3 p dbuf) (\<lambda>(_, fs4). Inr (None, fs4, ino2)))))
        else Inr (None, fs, upd_raw (\<lambda>raw. put32 raw 92 0) ino))"

definition write_block_pointers :: "'d file_ops \<Rightarrow> byte list \<Rightarrow> 'd ext2 \<times> e2inode \<Rightarrow> (status \<times> 'd ext2 \<times> e2inode) result" where
  "write_block_pointers F junk s =
     (case s of (fs, ino) \<Rightarrow>
        if is_symlink ino \<and> i_size ino < 60 then Inr (None, s)
        else
          rbind (calculate_num_ptr_blocks fs (inode_num_blocks fs ino)) (\<lambda>_.
          let ino0 = ino\<lparr>i_ptr_blocks := []\<rparr>;
              ino1 = (if is_device ino then ino0
                      else upd_raw (fold (\<lambda>i. set_raw_pointer i (get_block_pointer ino i)) [0..<12]) ino0) in
          rbind (write_singly F junk (stack_array (e_bs fs) junk) (fs, ino1)) (\<lambda>(res, block_buf, s1).
          if res \<noteq> None then Inr (res, s1)
          else
            rbind (write_doubly F junk block_buf s1) (\<lambda>(res, fs2, ino2).
            if res \<noteq> None then Inr (res, fs2, ino2)
            else
              let ino3 = (if inode_num_blocks fs2 ino2 > 12 + mul32 (block_pointers_per_block fs2) (block_pointers_per_block fs2)
                          then ino2 else upd_raw (\<lambda>raw. put32 raw 96 0) ino2) in
              Inr (None, fs2, (upd_raw (\<lambda>raw. put32 raw 28
                (mul32 (length (i_blocks ino3) + length (i_ptr_blocks ino3)) (e_bs fs2 div 512))) ino3)\<lparr>i_dirty := True\<rparr>)))))"

definition write_to_disk :: "'d file_ops \<Rightarrow> byte list \<Rightarrow> 'd ext2 \<times> e2inode \<Rightarrow> (status \<times> 'd ext2 \<times> e2inode) result" where
  "write_to_disk F junk s =
     rbind (write_block_pointers F junk s) (\<lambda>(res, s1).
     if res \<noteq> None then Inr (res, s1)
     else rbind (write_inode_entry F junk s1) (\<lambda>s2. Inr (None, s2)))"

text \<open>The constructor that reads an inode from the disk.\<close>

definition inode_load :: "'d file_ops \<Rightarrow> byte list \<Rightarrow> 'd ext2 \<Rightarrow> nat \<Rightarrow> ('d ext2 \<times> e2inode) result" where
  "inode_load F junk fs k =
     rbind (inode_place F junk fs k) (\<lambda>(b, off, fs1).
     rbind (fs_read_blocks F (e_bs fs1) (e_file fs1) b 1 0 (stack_array (e_bs fs1) junk)) (\<lambda>(_, block_buf, d).
     let fs2 = fs1\<lparr>e_file := d\<rparr>;
         ino = create_metadata \<lparr>i_id = k, i_raw = take 128 (drop off block_buf), i_mode = 0, i_size = 0, i_uid = 0, i_gid = 0,
                 i_dev = (0, 0), i_blocks = [], i_ptr_blocks = [], i_dirty = False, i_exists = True\<rparr> in
     if is_device ino then Inr (fs2, ino) else read_block_pointers F junk (fs2, ino)))"

definition free_all_blocks :: "'d file_ops \<Rightarrow> byte list \<Rightarrow> 'd ext2 \<times> e2inode \<Rightarrow> 'd ext2 result" where
  "free_all_blocks F junk s =
     (case s of (fs, ino) \<Rightarrow> rbind (ext2_free_blocks F junk (i_blocks ino) fs) (ext2_free_blocks F junk (i_ptr_blocks ino)))"

section \<open>Truncating\<close>

definition resized :: "nat list \<Rightarrow> nat \<Rightarrow> nat list" where
  "resized xs n = take n xs @ replicate (n - length xs) 0"

definition truncate_grow :: "'d file_ops \<Rightarrow> byte list \<Rightarrow> nat \<Rightarrow> nat \<Rightarrow> 'd ext2 \<times> e2inode \<Rightarrow> (status \<times> 'd ext2 \<times> e2inode) result" where
  "truncate_grow F junk len new_num_blocks s =
     (case s of (fs, ino) \<Rightarrow>
        let wanted = new_num_blocks - inode_num_blocks fs ino in
        rbind (allocate_blocks F junk fs wanted True) (\<lambda>(res, fs1).
        case res of
          Inl e \<Rightarrow> Inr (Some e, fs1, ino)
        | Inr new_blocks \<Rightarrow>
            if length new_blocks \<noteq> wanted then Inr (Some ENOSPC, fs1, ino)
            else
              rbind (write_to_disk F junk (fs1, ino\<lparr>i_blocks := i_blocks ino @ new_blocks, i_size := len\<rparr>)) (\<lambda>(_, s2).
              Inr (None, s2))))"

definition truncate_shrink :: "'d file_ops \<Rightarrow> byte list \<Rightarrow> nat \<Rightarrow> nat \<Rightarrow> 'd ext2 \<times> e2inode \<Rightarrow> (status \<times> 'd ext2 \<times> e2inode) result" where
  "truncate_shrink F junk len new_num_blocks s =
     (case s of (fs, ino) \<Rightarrow>
        rbind (ext2_free_blocks F junk (map (get_block_pointer ino) (rev [new_num_blocks..<inode_num_blocks fs ino])) fs) (\<lambda>fs1.
        let ino1 = ino\<lparr>i_blocks := resized (i_blocks ino) new_num_blocks\<rparr> in
        rbind (calculate_num_ptr_blocks fs1 new_num_blocks) (\<lambda>np.
        rbind (ext2_free_blocks F junk (rev (drop np (i_ptr_blocks ino))) fs1) (\<lambda>fs2.
        let ino2 = ino1\<lparr>i_ptr_blocks := resized (i_ptr_blocks ino) np\<rparr>; rest = len mod e_bs fs2 in
        rbind (if rest \<noteq> 0
               then rbind (truncate_block F (e_bs fs2) junk (e_file fs2) (get_block_pointer ino2 (new_num_blocks - 1)) rest)
                      (\<lambda>(_, d). Inr (fs2\<lparr>e_file := d\<rparr>))
               else Inr fs2) (\<lambda>fs3.
        rbind (write_to_disk F junk (fs3, ino2\<lparr>i_size := len\<rparr>)) (\<lambda>(_, s4).
        Inr (None, s4)))))))"

definition inode_truncate :: "'d file_ops \<Rightarrow> byte list \<Rightarrow> int \<Rightarrow> 'd ext2 \<times> e2inode \<Rightarrow> (status \<times> 'd ext2 \<times> e2inode) result" where
  "inode_truncate F junk off s =
     (case s of (fs, ino) \<Rightarrow>
        let len = nat off in
        if off < 0 then Inr (Some EINVAL, s)
        else if len = i_size ino then Inr (None, s)
        else if e_bs fs = 0 then Inl Undefined
        else
          let new_num_blocks = add32 len (e_bs fs - 1) div e_bs fs in
          if new_num_blocks > inode_num_blocks fs ino then truncate_grow F junk len new_num_blocks s
          else if new_num_blocks < inode_num_blocks fs ino then truncate_shrink F junk len new_num_blocks s
          else rbind (write_inode_entry F junk (fs, ino\<lparr>i_size := len\<rparr>)) (\<lambda>s'. Inr (None, s')))"

definition inode_chmod :: "'d file_ops \<Rightarrow> byte list \<Rightarrow> nat \<Rightarrow> 'd ext2 \<times> e2inode \<Rightarrow> (status \<times> 'd ext2 \<times> e2inode) result" where
  "inode_chmod F junk mode s =
     (case s of (fs, ino) \<Rightarrow> rbind (write_inode_entry F junk (fs, ino\<lparr>i_mode := mode\<rparr>)) (\<lambda>s'. Inr (None, s')))"

definition inode_chown :: "'d file_ops \<Rightarrow> byte list \<Rightarrow> nat \<Rightarrow> nat \<Rightarrow> 'd ext2 \<times> e2inode \<Rightarrow> (status \<times> 'd ext2 \<times> e2inode) result" where
  "inode_chown F junk uid gid s =
     (case s of (fs, ino) \<Rightarrow> rbind (write_inode_entry F junk (fs, ino\<lparr>i_uid := uid, i_gid := gid\<rparr>)) (\<lambda>s'. Inr (None, s')))"

section \<open>Reading and writing\<close>

lemma fewer_left: "0 < n \<Longrightarrow> 0 < (bs :: nat) \<Longrightarrow> n + k mod bs - bs < n"
  using mod_less_divisor [of bs k] by linarith

text \<open>The loop of \<open>read\<close>; \<open>len\<close> is its \<open>length\<close>, \<open>todo\<close> its \<open>bytes_left\<close>.\<close>

function inode_read_loop :: "'d file_ops \<Rightarrow> e2inode \<Rightarrow> nat \<Rightarrow> nat \<Rightarrow> nat \<Rightarrow> nat \<Rightarrow> byte list \<Rightarrow> byte list \<Rightarrow> 'd ext2 \<Rightarrow> (byte list \<times> 'd ext2) result" where
  "inode_read_loop F ino start len todo block_index block_buf buffer fs =
     (if todo = 0 then Inr (buffer, fs)
      else if e_bs fs = 0 then Inl Undefined
      else
        rbind (e2_read F fs (get_block_pointer ino block_index) block_buf) (\<lambda>(_, buf, fs').
        let first_block_start = start mod e_bs fs in
        if block_index = start div e_bs fs then
          if len < e_bs fs - first_block_start then
            inode_read_loop F ino start len 0 (block_index + 1) buf (put_at buffer 0 (take len (drop first_block_start buf))) fs'
          else
            inode_read_loop F ino start len (todo - (e_bs fs - first_block_start)) (block_index + 1) buf
              (put_at buffer 0 (take (e_bs fs - first_block_start) (drop first_block_start buf))) fs'
        else if todo < e_bs fs then
          inode_read_loop F ino start len 0 (block_index + 1) buf (put_at buffer (len - todo) (take todo buf)) fs'
        else
          inode_read_loop F ino start len (todo - e_bs fs) (block_index + 1) buf (put_at buffer (len - todo) (take (e_bs fs) buf)) fs'))"
  by pat_completeness auto
termination
  by (relation "measure (\<lambda>(F, ino, start, len, todo, _). todo)") (auto intro!: diff_less simp: fewer_left)

definition inode_read :: "'d file_ops \<Rightarrow> byte list \<Rightarrow> nat \<Rightarrow> nat \<Rightarrow> byte list \<Rightarrow> 'd ext2 \<times> e2inode \<Rightarrow> ((errno + nat) \<times> byte list \<times> 'd ext2) result" where
  "inode_read F junk start count buffer s =
     (case s of (fs, ino) \<Rightarrow>
        if is_device ino \<or> i_size ino = 0 \<or> start > i_size ino \<or> count = 0 then Inr (Inr 0, buffer, fs)
        else if \<not> i_exists ino then Inr (Inl ENOENT, buffer, fs)
        else if is_symlink ino \<and> i_size ino < 60 then
          let actual = min (i_size ino - start) count
          in Inr (Inr actual, put_at buffer 0 (take actual (drop (40 + start) (i_raw ino))), fs)
        else
          let len = (if add32 start count > i_size ino then i_size ino - start else count) in
          rbind (inode_read_loop F ino start len len (start div e_bs fs) (stack_array (e_bs fs) junk) buffer fs) (\<lambda>(buffer', fs').
          Inr (Inr len, buffer', fs')))"

function inode_write_loop :: "'d file_ops \<Rightarrow> e2inode \<Rightarrow> nat \<Rightarrow> byte list \<Rightarrow> nat \<Rightarrow> nat \<Rightarrow> nat \<Rightarrow> byte list \<Rightarrow> 'd ext2 \<Rightarrow> (status \<times> 'd ext2) result" where
  "inode_write_loop F ino start data len todo block_index block_buf fs =
     (if todo = 0 then Inr (None, fs)
      else if e_bs fs = 0 then Inl Undefined
      else
        let block = get_block_pointer ino block_index in
        if block = 0 then Inr (Some ENOSPC, fs)
        else
          rbind (e2_read F fs block block_buf) (\<lambda>(_, buf, fs1).
          let first_block_start = start mod e_bs fs in
          if block_index = start div e_bs fs then
            if len < e_bs fs - first_block_start then
              let buf' = put_at buf first_block_start (take len data) in
              rbind (e2_write F fs1 block buf') (\<lambda>(_, fs2).
              inode_write_loop F ino start data len 0 (block_index + 1) buf' fs2)
            else
              let buf' = put_at buf first_block_start (take (e_bs fs - first_block_start) data) in
              rbind (e2_write F fs1 block buf') (\<lambda>(_, fs2).
              inode_write_loop F ino start data len (todo - (e_bs fs - first_block_start)) (block_index + 1) buf' fs2)
          else if todo < e_bs fs then
            let buf' = put_at buf 0 (take todo (drop (len - todo) data)) in
            rbind (e2_write F fs1 block buf') (\<lambda>(_, fs2).
            inode_write_loop F ino start data len 0 (block_index + 1) buf' fs2)
          else
            let buf' = put_at buf 0 (take (e_bs fs) (drop (len - todo) data)) in
            rbind (e2_write F fs1 block buf') (\<lambda>(_, fs2).
            inode_write_loop F ino start data len (todo - e_bs fs) (block_index + 1) buf' fs2)))"
  by pat_completeness auto
termination
  by (relation "measure (\<lambda>(F, ino, start, data, len, todo, _). todo)") (auto intro!: diff_less simp: fewer_left)

declare inode_read_loop.simps [simp del] inode_write_loop.simps [simp del]

definition off_of :: "nat \<Rightarrow> int" where
  "off_of n = (if n < 2 ^ 31 then int n else int n - 2 ^ 32)"

definition inode_write :: "'d file_ops \<Rightarrow> byte list \<Rightarrow> nat \<Rightarrow> nat \<Rightarrow> byte list \<Rightarrow> 'd ext2 \<times> e2inode \<Rightarrow> ((errno + nat) \<times> 'd ext2 \<times> e2inode) result" where
  "inode_write F junk start count data s =
     (case s of (fs, ino) \<Rightarrow>
        if is_device ino \<or> count = 0 then Inr (Inr 0, s)
        else if \<not> i_exists ino then Inr (Inl ENOENT, s)
        else if is_symlink ino \<and> max (i_size ino) (add32 start count) < 60 then
          if start + count \<ge> 60 then Inl Undefined
          else
            let ino1 = upd_raw (\<lambda>raw. put_at raw (40 + start) (take count data)) ino;
                ino2 = (if start + count > i_size ino then ino1\<lparr>i_size := start + count\<rparr> else ino1) in
            rbind (write_inode_entry F junk (fs, ino2)) (\<lambda>s'. Inr (Inr count, s'))
        else
          rbind (if add32 start count > i_size ino then
                   let new = off_of start + off_of count in
                   if new < - (2 ^ 31) \<or> new \<ge> 2 ^ 31 then Inl Undefined else inode_truncate F junk new s
                 else Inr (None, s)) (\<lambda>(res, fs1, ino1).
          case res of
            Some e \<Rightarrow> Inr (Inl e, fs1, ino1)
          | None \<Rightarrow>
              rbind (inode_write_loop F ino1 start data count count (start div e_bs fs1) (stack_array (e_bs fs1) junk) fs1) (\<lambda>(res, fs2).
              case res of
                Some e \<Rightarrow> Inr (Inl e, fs2, ino1)
              | None \<Rightarrow> Inr (Inr count, fs2, ino1))))"

end
