(* ===== verification/Ext2File.thy ===== *)
theory Ext2File
  imports Ext2Inode
begin

text \<open>
  The bytes of a file as its block pointers name them, and what \<open>Ext2Inode::read\<close> and
  \<open>Ext2Inode::write\<close> do to them.
\<close>

section \<open>The bytes of a file\<close>

definition inode_byte :: "(nat \<Rightarrow> byte list) \<Rightarrow> nat \<Rightarrow> e2inode \<Rightarrow> nat \<Rightarrow> byte" where
  "inode_byte c bs ino k = c (get_block_pointer ino (k div bs)) ! (k mod bs)"

definition inode_bytes :: "(nat \<Rightarrow> byte list) \<Rightarrow> nat \<Rightarrow> e2inode \<Rightarrow> nat \<Rightarrow> nat \<Rightarrow> byte list" where
  "inode_bytes c bs ino start n = map (inode_byte c bs ino) [start..<start + n]"

lemma length_inode_bytes [simp]: "length (inode_bytes c bs ino x n) = n"
  by (simp add: inode_bytes_def)

lemma inode_bytes_split: "m \<le> n \<Longrightarrow> inode_bytes c bs ino x n = inode_bytes c bs ino x m @ inode_bytes c bs ino (x + m) (n - m)"
  using upt_add_eq_append [of x "x + m" "n - m"] by (simp add: inode_bytes_def flip: map_append)

lemma div_mod_of_parts: "(r :: nat) < b \<Longrightarrow> (r + q * b) div b = q" "r < b \<Longrightarrow> (r + q * b) mod b = r"
  by simp_all

lemma in_block_div_mod:
  fixes x :: nat
  assumes "i < m" "x mod bs + m \<le> bs"
  shows "(x + i) div bs = x div bs" "(x + i) mod bs = x mod bs + i"
proof -
  have s: "x mod bs + i < bs" using assms by simp
  have "x + i = x mod bs + i + x div bs * bs" using div_mult_mod_eq [of x bs] by linarith
  then show "(x + i) div bs = x div bs" "(x + i) mod bs = x mod bs + i" using div_mod_of_parts [OF s, of "x div bs"] by simp_all
qed

lemma inode_bytes_in_block:
  assumes "x mod bs + m \<le> bs" "length (c (get_block_pointer ino (x div bs))) = bs"
  shows "inode_bytes c bs ino x m = take m (drop (x mod bs) (c (get_block_pointer ino (x div bs))))"
  using assms by (intro nth_equalityI) (auto simp: inode_bytes_def inode_byte_def in_block_div_mod)

lemma next_block:
  fixes x :: nat
  assumes "0 < bs"
  shows "(x + (bs - x mod bs)) div bs = Suc (x div bs)" "(x + (bs - x mod bs)) mod bs = 0"
proof -
  have "x mod bs < bs" using assms by simp
  then have e: "x + (bs - x mod bs) = Suc (x div bs) * bs" using div_mult_mod_eq [of x bs] unfolding mult_Suc by linarith
  show "(x + (bs - x mod bs)) div bs = Suc (x div bs)" "(x + (bs - x mod bs)) mod bs = 0" unfolding e using assms by simp_all
qed

text \<open>
  One turn of either loop at position \<open>x\<close> of the file: \<open>m\<close> bytes from \<open>x mod bs\<close> on. The
  positions after the first are at the start of a block.
\<close>

lemma not_first:
  fixes x :: nat
  assumes "x mod bs = 0" "start < x" "0 < bs"
  shows "x div bs \<noteq> start div bs"
proof
  assume "x div bs = start div bs"
  then have "x = start div bs * bs" using assms(1) by (metis div_mult_mod_eq add_0_right)
  then show False using assms(2) div_times_less_eq_dividend [of start bs] by simp
qed

lemma inode_read_step:
  assumes "0 < todo" "todo \<le> len" "0 < e_bs fs" "x = start + (len - todo)" "todo = len \<or> x mod e_bs fs = 0" "m = min todo (e_bs fs - x mod e_bs fs)"
  shows "inode_read_loop F ino start len todo (x div e_bs fs) bb buffer fs =
    rbind (e2_read F fs (get_block_pointer ino (x div e_bs fs)) bb) (\<lambda>(_, buf, fs').
    inode_read_loop F ino start len (todo - m) (Suc (x div e_bs fs)) buf (put_at buffer (len - todo) (take m (drop (x mod e_bs fs) buf))) fs')"
proof (cases "todo = len")
  case True
  then have x: "x = start" "(e_bs fs \<le> start mod e_bs fs) = False" using assms(3,4) by (simp_all add: not_le)
  then show ?thesis using True assms
    by (subst inode_read_loop.simps, cases "len < e_bs fs - start mod e_bs fs"; cases "len = e_bs fs - start mod e_bs fs") (simp_all add: Let_def x)
next
  case False
  then have "x div e_bs fs \<noteq> start div e_bs fs" "x mod e_bs fs = 0" using not_first [of x "e_bs fs" start] assms by auto
  then show ?thesis using assms 
    by (subst inode_read_loop.simps, cases "todo < e_bs fs"; cases "todo = e_bs fs") (simp_all add: Let_def)
qed

lemma inode_write_step:
  assumes "0 < todo" "todo \<le> len" "0 < e_bs fs" "x = start + (len - todo)" "todo = len \<or> x mod e_bs fs = 0" "m = min todo (e_bs fs - x mod e_bs fs)"
    "get_block_pointer ino (x div e_bs fs) \<noteq> 0"
  shows "inode_write_loop F ino start data len todo (x div e_bs fs) bb fs =
    rbind (e2_read F fs (get_block_pointer ino (x div e_bs fs)) bb) (\<lambda>(_, buf, fs1).
    let buf' = put_at buf (x mod e_bs fs) (take m (drop (len - todo) data)) in
    rbind (e2_write F fs1 (get_block_pointer ino (x div e_bs fs)) buf') (\<lambda>(_, fs2).
    inode_write_loop F ino start data len (todo - m) (Suc (x div e_bs fs)) buf' fs2))"
proof (cases "todo = len")
  case True
  then have x: "x = start" "(e_bs fs \<le> start mod e_bs fs) = False" using assms(3,4) by (simp_all add: not_le)
  then show ?thesis using True assms
    by (subst inode_write_loop.simps, cases "len < e_bs fs - start mod e_bs fs"; cases "len = e_bs fs - start mod e_bs fs") (simp_all add: Let_def x)
next
  case False
  then have "x div e_bs fs \<noteq> start div e_bs fs" "x mod e_bs fs = 0" using not_first [of x "e_bs fs" start] assms by auto
  then show ?thesis using assms 
    by (subst inode_write_loop.simps, cases "todo < e_bs fs"; cases "todo = e_bs fs") (simp_all add: Let_def)
qed

text \<open>The bytes \<open>xs\<close> have been written at \<open>x\<close>, and nothing else.\<close>

definition file_written :: "nat \<Rightarrow> e2inode \<Rightarrow> nat \<Rightarrow> byte list \<Rightarrow> (nat \<Rightarrow> byte list) \<Rightarrow> (nat \<Rightarrow> byte list) \<Rightarrow> bool" where
  "file_written bs ino x xs c c' \<longleftrightarrow> (\<forall>i < length xs. inode_byte c' bs ino (x + i) = xs ! i) \<and>
     (\<forall>b j. j < bs \<longrightarrow> (\<forall>i < length xs. \<not> (get_block_pointer ino ((x + i) div bs) = b \<and> (x + i) mod bs = j)) \<longrightarrow> c' b ! j = c b ! j)"

lemma file_written_Nil: "file_written bs ino x [] c c"
  by (simp add: file_written_def)

lemma file_written_block:
  assumes "x mod bs + length xs \<le> bs" "length (c (get_block_pointer ino (x div bs))) = bs"
  shows "file_written bs ino x xs c (c(get_block_pointer ino (x div bs) := put_at (c (get_block_pointer ino (x div bs))) (x mod bs) xs))"
proof -
  note dm = in_block_div_mod [OF _ assms(1)]
  have hit: "x mod bs \<le> j \<and> j < x mod bs + length xs \<longleftrightarrow> (\<exists>i < length xs. x mod bs + i = j)" for j
    by (metis le_add1 le_add_diff_inverse less_diff_conv2 nat_add_left_cancel_less)
  show ?thesis using assms unfolding file_written_def inode_byte_def by (auto simp: dm put_at_nth hit)
qed

lemma file_written_append:
  assumes "file_written bs ino x xs c c1" "file_written bs ino (x + length xs) ys c1 c2" "0 < bs"
    "inj_on (get_block_pointer ino) ((\<lambda>k. k div bs) ` {x..<x + length xs + length ys})"
  shows "file_written bs ino x (xs @ ys) c c2"
proof -
  have apart: "i = j" if "i < length xs + length ys" "j < length xs + length ys"
      "get_block_pointer ino ((x + i) div bs) = get_block_pointer ino ((x + j) div bs)" "(x + i) mod bs = (x + j) mod bs" for i j
  proof -
    have "(x + i) div bs = (x + j) div bs" using that by (intro inj_onD [OF assms(4) that(3)]) auto
    then have "x + i = x + j" using that(4) by (metis div_mult_mod_eq)
    then show ?thesis by simp
  qed
  have "inode_byte c2 bs ino (x + i) = (xs @ ys) ! i" if i: "i < length (xs @ ys)" for i
  proof (cases "i < length xs")
    case True
    have "\<not> (get_block_pointer ino ((x + length xs + j) div bs) = get_block_pointer ino ((x + i) div bs) \<and> (x + length xs + j) mod bs = (x + i) mod bs)"
      if "j < length ys" for j using apart [of "length xs + j" i] that True by (auto simp: add.assoc)
    then have "inode_byte c2 bs ino (x + i) = inode_byte c1 bs ino (x + i)"
      using assms(2,3) by (simp add: file_written_def inode_byte_def)
    then show ?thesis using True assms(1) by (simp add: file_written_def nth_append)
  next
    case False
    then show ?thesis using i assms(2) unfolding file_written_def by (auto simp: nth_append dest: spec [of _ "i - length xs"])
  qed
  moreover have "c2 b ! j = c b ! j" if j: "j < bs" and o: "\<forall>i < length (xs @ ys). \<not> (get_block_pointer ino ((x + i) div bs) = b \<and> (x + i) mod bs = j)" for b j
  proof -
    have "c2 b ! j = c1 b ! j" using assms(2) j o [rule_format, of "length xs + i" for i] by (simp add: file_written_def add.assoc)
    also have "\<dots> = c b ! j" using assms(1) j o by (simp add: file_written_def)
    finally show ?thesis .
  qed
  ultimately show ?thesis by (simp add: file_written_def)
qed

section \<open>The loops\<close>

context block_file
begin

lemma inode_read_loop_ok:
  assumes "0 < e_bs fs" "good (e_file fs)" "length bb = e_bs fs" "len \<le> length buffer" "todo \<le> len" "x = start + (len - todo)" "todo = len \<or> x mod e_bs fs = 0"
    "\<forall>k \<in> {x..<x + todo}. get_block_pointer ino (k div e_bs fs) * e_bs fs + e_bs fs \<le> cap"
  obtains d where "inode_read_loop F ino start len todo (x div e_bs fs) bb buffer fs =
      Inr (put_at buffer (len - todo) (inode_bytes (con fs) (e_bs fs) ino x todo), fs\<lparr>e_file := d\<rparr>)" "good d" "cells d = cells (e_file fs)"
  using assms
proof (induction todo arbitrary: x bb buffer fs thesis rule: less_induct)
  case (less todo)
  show ?case
  proof (cases "todo = 0")
    case True
    then show ?thesis using less.prems by (intro less.prems(1) [of "e_file fs"]) (simp_all add: inode_read_loop.simps [of F ino start len 0] inode_bytes_def)
  next
    case False
    let ?bs = "e_bs fs"
    define m where "m = min todo (?bs - x mod ?bs)"
    have m: "0 < m" "m \<le> todo" "x mod ?bs + m \<le> ?bs" using False mod_less_divisor [OF less.prems(2), of x] unfolding m_def by linarith+
    have b: "get_block_pointer ino (x div ?bs) * ?bs + ?bs \<le> cap" using less.prems(9) False by simp
    obtain d where d: "e2_read F fs (get_block_pointer ino (x div ?bs)) bb = Inr (None, con fs (get_block_pointer ino (x div ?bs)), fs\<lparr>e_file := d\<rparr>)"
        "good d" "cells d = cells (e_file fs)" by (rule e2_read_ok [OF less.prems(3) b less.prems(2,4)])
    let ?buf = "put_at buffer (len - todo) (inode_bytes (con fs) ?bs ino x m)"
    have step: "inode_read_loop F ino start len todo (x div ?bs) bb buffer fs =
        inode_read_loop F ino start len (todo - m) (Suc (x div ?bs)) (con fs (get_block_pointer ino (x div ?bs))) ?buf (fs\<lparr>e_file := d\<rparr>)"
      using inode_read_step [OF _ less.prems(6,2,7,8) m_def] False m(3) by (simp add: d(1) inode_bytes_in_block)
    have all: "put_at ?buf (len - (todo - m)) (inode_bytes (con fs) ?bs ino (x + m) (todo - m)) = put_at buffer (len - todo) (inode_bytes (con fs) ?bs ino x todo)"
      using put_at_put_at [of "len - todo" "inode_bytes (con fs) ?bs ino x m" buffer] inode_bytes_split [OF m(2), of "con fs" ?bs ino x] m(2) less.prems(5,6)
      by simp
    show ?thesis
    proof (cases "m = todo")
      case True
      then show ?thesis using step d by (intro less.prems(1) [of d]) (simp_all add: inode_read_loop.simps [of F ino start len 0])
    next
      case ne: False
      then have "m = ?bs - x mod ?bs" by (auto simp: m_def min_def split: if_splits)
      then have nb: "(x + m) div ?bs = Suc (x div ?bs)" "(x + m) mod ?bs = 0" using next_block [OF less.prems(2), of x] by simp_all
      obtain d' where d': "inode_read_loop F ino start len (todo - m) ((x + m) div e_bs (fs\<lparr>e_file := d\<rparr>)) (con fs (get_block_pointer ino (x div ?bs))) ?buf (fs\<lparr>e_file := d\<rparr>) =
          Inr (put_at ?buf (len - (todo - m)) (inode_bytes (con (fs\<lparr>e_file := d\<rparr>)) (e_bs (fs\<lparr>e_file := d\<rparr>)) ino (x + m) (todo - m)), fs\<lparr>e_file := d, e_file := d'\<rparr>)"
          "good d'" "cells d' = cells (e_file (fs\<lparr>e_file := d\<rparr>))"
        by (rule less.IH [of "todo - m" "x + m" "fs\<lparr>e_file := d\<rparr>" "con fs (get_block_pointer ino (x div ?bs))" ?buf])
          (use less.prems m ne nb d in auto)
      show ?thesis by (rule less.prems(1) [of d']) (use step d'  d(3) nb(1) all in simp_all)
    qed
  qed
qed

lemma inode_write_loop_ok:
  assumes "0 < e_bs fs" "good (e_file fs)" "length bb = e_bs fs" "len \<le> length data" "todo \<le> len" "x = start + (len - todo)"
    "todo = len \<or> x mod e_bs fs = 0"
    "\<forall>k \<in> {x..<x + todo}. get_block_pointer ino (k div e_bs fs) \<noteq> 0 \<and> get_block_pointer ino (k div e_bs fs) * e_bs fs + e_bs fs \<le> cap"
    "inj_on (get_block_pointer ino) ((\<lambda>k. k div e_bs fs) ` {x..<x + todo})"
  obtains d where "inode_write_loop F ino start data len todo (x div e_bs fs) bb fs = Inr (None, fs\<lparr>e_file := d\<rparr>)" "good d"
    "file_written (e_bs fs) ino x (take todo (drop (len - todo) data)) (con fs) (file_block (cells d) (e_bs fs))"
  using assms(1-)
proof (induction todo arbitrary: x bb fs thesis rule: less_induct)
  case (less todo)
  show ?case
  proof (cases "todo = 0")
    case True
    then show ?thesis using less.prems by (intro less.prems(1) [of "e_file fs"]) (simp_all add: inode_write_loop.simps [of F ino start data len 0] file_written_Nil)
  next
    case False
    let ?bs = "e_bs fs" and ?b = "get_block_pointer ino (x div e_bs fs)"
    define m where "m = min todo (?bs - x mod ?bs)"
    have m: "0 < m" "m \<le> todo" "x mod ?bs + m \<le> ?bs" using False mod_less_divisor [OF less.prems(2), of x] unfolding m_def by linarith+
    have b: "?b * ?bs + ?bs \<le> cap" "?b \<noteq> 0" using less.prems(9) False by simp_all
    let ?xs = "take m (drop (len - todo) data)" and ?ys = "take (todo - m) (drop (len - (todo - m)) data)"
    let ?buf = "put_at (con fs ?b) (x mod ?bs) ?xs"
    have len: "length ?xs = m" "length ?ys = todo - m" using less.prems(5,6) m(2) by simp_all
    have blen: "length ?buf = ?bs" using m(3) len(1) by simp
    obtain d where d: "e2_read F fs ?b bb = Inr (None, con fs ?b, fs\<lparr>e_file := d\<rparr>)" "good d" "cells d = cells (e_file fs)"
      by (rule e2_read_ok [OF less.prems(3) b(1) less.prems(2,4)])
    obtain d1 where d1: "e2_write F (fs\<lparr>e_file := d\<rparr>) ?b ?buf = Inr (None, fs\<lparr>e_file := d, e_file := d1\<rparr>)" "good d1"
      "file_block (cells d1) (e_bs (fs\<lparr>e_file := d\<rparr>)) = (con (fs\<lparr>e_file := d\<rparr>))(?b := ?buf)"
      by (rule e2_write_ok [of "fs\<lparr>e_file := d\<rparr>" ?b ?buf]) (use d(2) b(1) less.prems(2) blen in simp_all)
    have step: "inode_write_loop F ino start data len todo (x div ?bs) bb fs =
        inode_write_loop F ino start data len (todo - m) (Suc (x div ?bs)) ?buf (fs\<lparr>e_file := d1\<rparr>)"
      using inode_write_step [OF _ less.prems(6,2,7,8) m_def b(2)] False d1(1) by (simp add: d(1))
    have w: "file_written ?bs ino x ?xs (con fs) (file_block (cells d1) ?bs)"
      using file_written_block [of x ?bs ?xs "con fs" ino] m(3) len d1(3) d(3) by simp
    have xy: "?xs @ ?ys = take todo (drop (len - todo) data)"
      using take_add [of m "todo - m" "drop (len - todo) data"] m(2) less.prems(6) by (simp add: add.commute)
    show ?thesis
    proof (cases "m = todo")
      case True
      then show ?thesis using step d1(2) w by (intro less.prems(1) [of d1]) (simp_all add: inode_write_loop.simps [of F ino start data len 0])
    next
      case ne: False
      then have "m = ?bs - x mod ?bs" by (auto simp: m_def min_def split: if_splits)
      then have nb: "(x + m) div ?bs = Suc (x div ?bs)" "(x + m) mod ?bs = 0" using next_block [OF less.prems(2), of x] by simp_all
      have ball: "\<forall>k \<in> {x + m..<x + m + (todo - m)}. get_block_pointer ino (k div ?bs) \<noteq> 0 \<and> get_block_pointer ino (k div ?bs) * ?bs + ?bs \<le> cap"
        using less.prems(9) m(2) by auto
      have inj: "inj_on (get_block_pointer ino) ((\<lambda>k. k div ?bs) ` {x + m..<x + m + (todo - m)})"
        by (rule inj_on_subset [OF less.prems(10)]) (use m(2) in auto)
      obtain d' where d': "inode_write_loop F ino start data len (todo - m) ((x + m) div e_bs (fs\<lparr>e_file := d1\<rparr>)) ?buf (fs\<lparr>e_file := d1\<rparr>) =
          Inr (None, fs\<lparr>e_file := d1, e_file := d'\<rparr>)" "good d'"
          "file_written (e_bs (fs\<lparr>e_file := d1\<rparr>)) ino (x + m) ?ys (con (fs\<lparr>e_file := d1\<rparr>)) (file_block (cells d') (e_bs (fs\<lparr>e_file := d1\<rparr>)))"
        by (rule less.IH [of "todo - m" "x + m" "fs\<lparr>e_file := d1\<rparr>" ?buf])
          (use less.prems(2,5-7) m(1,2) ne nb(2) d1(2) inj blen ball in simp_all)
      have "file_written ?bs ino x (?xs @ ?ys) (con fs) (file_block (cells d') ?bs)"
        by (rule file_written_append [OF w]) (use d'(3) less.prems(2,10) len m(2) in simp_all)
      then show ?thesis using step d' nb(1) unfolding xy by (intro less.prems(1) [of d']) simp_all
    qed
  qed
qed

end

section \<open>Whole operations\<close>

definition file_block_ok :: "nat \<Rightarrow> nat \<Rightarrow> nat \<Rightarrow> bool" where
  "file_block_ok cap bs b \<longleftrightarrow> b \<noteq> 0 \<and> b * bs + bs \<le> cap"

text \<open>A file with a block of its own for each part of its contents.\<close>

definition file_ok :: "nat \<Rightarrow> 'd ext2 \<Rightarrow> e2inode \<Rightarrow> bool" where
  "file_ok cap fs ino \<longleftrightarrow> 0 < e_bs fs \<and> i_exists ino \<and> \<not> is_device ino \<and> \<not> (is_symlink ino \<and> i_size ino < 60) \<and> i_size ino + e_bs fs \<le> 2 ^ 32 \<and>
     length (i_blocks ino) = inode_num_blocks fs ino \<and> distinct (i_blocks ino) \<and> (\<forall>b \<in> set (i_blocks ino). file_block_ok cap (e_bs fs) b)"

lemma num_blocks_covers:
  assumes "0 < bs" "k < sz" "sz + bs \<le> 2 ^ 32"
  shows "k div bs < add32 sz (bs - 1) div bs"
proof -
  have "add32 sz (bs - 1) = sz + (bs - 1)" using assms by (simp add: add32_def)
  moreover have "k + bs \<le> sz + (bs - 1)" using assms by simp
  then have "Suc (k div bs) \<le> (sz + (bs - 1)) div bs" using div_le_mono [of "k + bs" "sz + (bs - 1)" bs] assms(1) div_add_self2 [of bs k] by simp
  ultimately show ?thesis by simp
qed

lemma file_okD:
  assumes "file_ok cap fs ino"
  shows "0 < e_bs fs" "i_exists ino" "\<not> is_device ino" "\<not> (is_symlink ino \<and> i_size ino < 60)" "i_size ino + e_bs fs \<le> 2 ^ 32"
    "k < i_size ino \<Longrightarrow> k div e_bs fs < length (i_blocks ino)"
    "k < i_size ino \<Longrightarrow> get_block_pointer ino (k div e_bs fs) = i_blocks ino ! (k div e_bs fs)"
    "k < i_size ino \<Longrightarrow> file_block_ok cap (e_bs fs) (get_block_pointer ino (k div e_bs fs))"
    "inj_on (get_block_pointer ino) ((\<lambda>k. k div e_bs fs) ` {k. k < i_size ino})"
proof -
  show b: "0 < e_bs fs" "i_exists ino" "\<not> is_device ino" "\<not> (is_symlink ino \<and> i_size ino < 60)" "i_size ino + e_bs fs \<le> 2 ^ 32"
    using assms by (simp_all add: file_ok_def)
  have n: "length (i_blocks ino) = add32 (i_size ino) (e_bs fs - 1) div e_bs fs" using assms unfolding file_ok_def inode_num_blocks_def by presburger
  show i: "k div e_bs fs < length (i_blocks ino)" if "k < i_size ino" for k using num_blocks_covers [OF b(1) that b(5)] n by simp
  show p: "get_block_pointer ino (k div e_bs fs) = i_blocks ino ! (k div e_bs fs)" if "k < i_size ino" for k using i [OF that] by (simp add: get_block_pointer_def)
  show "file_block_ok cap (e_bs fs) (get_block_pointer ino (k div e_bs fs))" if "k < i_size ino" for k
    using p [OF that] i [OF that] assms by (simp add: file_ok_def)
  show "inj_on (get_block_pointer ino) ((\<lambda>k. k div e_bs fs) ` {k. k < i_size ino})"
    using assms i p by (intro inj_onI) (auto simp: file_ok_def nth_eq_iff_index_eq)
qed

context block_file
begin

lemma inode_read_ok:
  assumes f: "file_ok cap fs ino" and gd: "good (e_file fs)" and x: "start \<le> i_size ino" "start + count < 2 ^ 32" and buf: "count \<le> length buffer"
  obtains d where "inode_read F junk start count buffer (fs, ino) =
      Inr (Inr (min count (i_size ino - start)), put_at buffer 0 (inode_bytes (con fs) (e_bs fs) ino start (min count (i_size ino - start))), fs\<lparr>e_file := d\<rparr>)"
    "good d" "cells d = cells (e_file fs)"
proof (cases "i_size ino = 0 \<or> count = 0")
  case True
  then show ?thesis using gd x by (intro that [of "e_file fs"]) (auto simp: inode_read_def inode_bytes_def)
next
  case False
  let ?n = "min count (i_size ino - start)"
  have n: "(if add32 start count > i_size ino then i_size ino - start else count) = ?n" using x by (auto simp: add32_def)
  have ok: "\<forall>k \<in> {start..<start + ?n}. get_block_pointer ino (k div e_bs fs) * e_bs fs + e_bs fs \<le> cap"
    using file_okD(8) [OF f] x(1) by (auto simp: file_block_ok_def)
  show ?thesis
  proof (rule inode_read_loop_ok [OF file_okD(1) [OF f] gd length_stack_array [of "e_bs fs" junk] _ le_refl, of ?n buffer start start ino])
    fix d assume "inode_read_loop F ino start ?n ?n (start div e_bs fs) (stack_array (e_bs fs) junk) buffer fs =
        Inr (put_at buffer (?n - ?n) (inode_bytes (con fs) (e_bs fs) ino start ?n), fs\<lparr>e_file := d\<rparr>)" "good d" "cells d = cells (e_file fs)"
    then show ?thesis using False file_okD(2-4) [OF f] x(1) n by (intro that [of d]) (auto simp: inode_read_def Let_def)
  qed (use buf ok in auto)
qed

lemma inode_write_loop_file:
  assumes f: "file_ok cap fs ino" and gd: "good (e_file fs)" and x: "start + length data \<le> i_size ino"
  obtains d where "inode_write_loop F ino start data (length data) (length data) (start div e_bs fs) (stack_array (e_bs fs) junk) fs = Inr (None, fs\<lparr>e_file := d\<rparr>)"
    "good d" "file_written (e_bs fs) ino start data (con fs) (file_block (cells d) (e_bs fs))"
proof -
  have ok: "\<forall>k \<in> {start..<start + length data}. get_block_pointer ino (k div e_bs fs) \<noteq> 0 \<and> get_block_pointer ino (k div e_bs fs) * e_bs fs + e_bs fs \<le> cap"
    using file_okD(8) [OF f] x(1) by (auto simp: file_block_ok_def)
  have inj: "inj_on (get_block_pointer ino) ((\<lambda>k. k div e_bs fs) ` {start..<start + length data})"
    by (rule inj_on_subset [OF file_okD(9) [OF f]]) (use x in auto)
  show ?thesis
  proof (rule inode_write_loop_ok [OF file_okD(1) [OF f] gd length_stack_array [of "e_bs fs" junk] le_refl [of "length data"] le_refl, of start start ino])
    fix d assume "inode_write_loop F ino start data (length data) (length data) (start div e_bs fs) (stack_array (e_bs fs) junk) fs = Inr (None, fs\<lparr>e_file := d\<rparr>)"
      "good d" "file_written (e_bs fs) ino start (take (length data) (drop (length data - length data) data)) (con fs) (file_block (cells d) (e_bs fs))"
    then show ?thesis by (intro that [of d]) simp_all
  qed (use ok inj in simp_all)
qed

end

end
