(* ===== verification/Ext2Store.thy ===== *)
theory Ext2Store
  imports Ext2File
begin

text \<open>
  How an inode is kept on the disk: the entry in the inode table, the pointers and the singly
  indirect block. Writing an inode and loading it again gives the same inode, and a write that makes
  a file longer allocates its blocks, stores the inode and writes the bytes.
\<close>

section \<open>What an operation changes\<close>

definition table_block :: "(nat \<Rightarrow> byte list) \<Rightarrow> 'd ext2 \<Rightarrow> nat \<Rightarrow> nat" where
  "table_block c fs k = inode_table_block (grp c fs (inode_group fs k)) + inode_block fs k"

definition inode_slot :: "'d ext2 \<Rightarrow> nat \<Rightarrow> nat" where
  "inode_slot fs k = 128 * (inode_index fs k mod inodes_per_block fs)"

text \<open>The inode has a place in a table that lies in the file and away from the bitmaps.\<close>

definition inode_located :: "nat \<Rightarrow> (nat \<Rightarrow> byte list) \<Rightarrow> 'd ext2 \<Rightarrow> nat \<Rightarrow> bool" where
  "inode_located cap c fs k \<longleftrightarrow> 0 < sb_inodes_per_group (superblock fs) \<and> 0 < inodes_per_block fs \<and> inodes_per_block fs * 128 \<le> e_bs fs \<and>
     inode_group fs k < num_block_groups fs \<and> table_block c fs k * e_bs fs + e_bs fs \<le> cap \<and>
     table_block c fs k \<notin> reserved_blocks c fs \<union> free_block_set c fs"

lemma inode_slot_bound: "0 < inodes_per_block fs \<Longrightarrow> inodes_per_block fs * 128 \<le> e_bs fs \<Longrightarrow> inode_slot fs k + 128 \<le> e_bs fs"
proof -
  assume a: "0 < inodes_per_block fs" "inodes_per_block fs * 128 \<le> e_bs fs"
  have "Suc (inode_index fs k mod inodes_per_block fs) \<le> inodes_per_block fs" using a(1) by (simp add: Suc_leI)
  then have "128 * Suc (inode_index fs k mod inodes_per_block fs) \<le> 128 * inodes_per_block fs" by (rule mult_le_mono2)
  then show ?thesis using a(2) by (simp add: inode_slot_def mult.commute)
qed

lemma inode_geometry:
  assumes "same_geometry fs fs'"
  shows "inode_group fs' = inode_group fs" "inode_slot fs' = inode_slot fs" "inode_block fs' = inode_block fs" "inode_num_blocks fs' = inode_num_blocks fs"
  by (simp_all add: fun_eq_iff inode_group_def inode_slot_def inode_index_def inode_block_def inode_num_blocks_def same_geometryD [OF assms])

context block_file
begin

text \<open>The blocks of \<open>A\<close> have been allocated, and of the others only \<open>U\<close> and the bookkeeping may have changed.\<close>

definition changed :: "nat set \<Rightarrow> nat set \<Rightarrow> 'd ext2 \<Rightarrow> 'd ext2 \<Rightarrow> bool" where
  "changed A U fs fs' \<longleftrightarrow> good (e_file fs') \<and> fs_ok cap (con fs') fs' \<and> same_geometry fs fs' \<and> A \<subseteq> free_block_set (con fs) fs \<and>
     free_block_set (con fs') fs' = free_block_set (con fs) fs - A \<and> reserved_blocks (con fs') fs' = reserved_blocks (con fs) fs \<and>
     (\<forall>b. b \<notin> reserved_blocks (con fs) fs \<union> A \<union> U \<longrightarrow> con fs' b = con fs b) \<and>
     (\<forall>i < num_block_groups fs. inode_table_block (grp (con fs') fs' i) = inode_table_block (grp (con fs) fs i))"

lemma changedD:
  assumes "changed A U fs fs'"
  shows "good (e_file fs')" "fs_ok cap (con fs') fs'" "same_geometry fs fs'" "A \<subseteq> free_block_set (con fs) fs"
    "free_block_set (con fs') fs' = free_block_set (con fs) fs - A" "reserved_blocks (con fs') fs' = reserved_blocks (con fs) fs"
    "b \<notin> reserved_blocks (con fs) fs \<Longrightarrow> b \<notin> A \<Longrightarrow> b \<notin> U \<Longrightarrow> con fs' b = con fs b"
    "i < num_block_groups fs \<Longrightarrow> inode_table_block (grp (con fs') fs' i) = inode_table_block (grp (con fs) fs i)"
  using assms unfolding changed_def by blast+

lemma changed_trans:
  assumes "changed A U fs fs1" "changed B V fs1 fs2"
  shows "changed (A \<union> B) (U \<union> V) fs fs2"
proof -
  note c1 = changedD [OF assms(1)] and c2 = changedD [OF assms(2)]
  have "con fs2 b = con fs b" if "b \<notin> reserved_blocks (con fs) fs" "b \<notin> A" "b \<notin> B" "b \<notin> U" "b \<notin> V" for b
    using c1(7) [of b] c2(7) [of b] c1(6) that by simp
  moreover have "inode_table_block (grp (con fs2) fs2 i) = inode_table_block (grp (con fs) fs i)" if "i < num_block_groups fs" for i
    using c1(8) [OF that] c2(8) [of i] that same_geometryD(2) [OF c1(3)] by simp
  moreover have "same_geometry fs fs2" by (rule same_geometry_trans [OF c1(3) c2(3)])
  ultimately show ?thesis using c1 c2 unfolding changed_def by auto
qed

lemma changed_quiet: "quiet fs fs' \<Longrightarrow> fs_ok cap (con fs) fs \<Longrightarrow> changed {} {} fs fs'"
  using quietD [of fs fs'] same_view(3) [of "con fs" fs "con fs'" fs'] by (simp add: changed_def)

lemma changed_allocated: "allocated zero A fs fs' \<Longrightarrow> changed A {} fs fs'"
proof -
  assume a: "allocated zero A fs fs'"
  have "inode_table_block (grp (con fs') fs' i) = inode_table_block (grp (con fs) fs i)" if "i < num_block_groups fs" for i
    using allocated_grp [OF a that] by auto
  then show ?thesis using a by (simp add: changed_def allocated_def)
qed

lemma changed_write:
  assumes "fs_ok cap (con fs) fs" "good d" "\<And>b. b \<notin> U \<Longrightarrow> file_block (cells d) (e_bs fs) b = con fs b" "U \<inter> reserved_blocks (con fs) fs = {}"
  shows "changed {} U fs (fs\<lparr>e_file := d\<rparr>)"
proof -
  let ?fs = "fs\<lparr>e_file := d\<rparr>"
  have r: "con ?fs b = con fs b" if "b \<in> reserved_blocks (con fs) fs" for b using assms(3) [of b] assms(4) that by auto
  have "grp (con ?fs) ?fs i = grp (con fs) fs i" if "i < num_block_groups fs" for i
    using r [OF reserved_apart(4) [OF assms(1) that that]]
    by (simp add: grp_def descriptor_block_def descriptor_offset_def cong: option.case_cong)
  then have g: "same_groups (con fs) fs (con ?fs) ?fs" by (simp add: same_groups_def)
  note v = same_view [OF g r [OF reserved_apart(5) [OF assms(1)]]]
  show ?thesis using v assms g by (simp add: changed_def same_groups_def)
qed

lemma changed_located:
  assumes "changed A U fs fs'" "inode_located cap (con fs) fs k"
  shows "inode_located cap (con fs') fs' k" "table_block (con fs') fs' k = table_block (con fs) fs k"
proof -
  note c = changedD [OF assms(1)] and gD = same_geometryD [OF changedD(3) [OF assms(1)]] inode_geometry [OF changedD(3) [OF assms(1)]]
  show t: "table_block (con fs') fs' k = table_block (con fs) fs k"
    using c(8) [of "inode_group fs k"] assms(2) by (simp add: table_block_def inode_located_def gD)
  show "inode_located cap (con fs') fs' k" using assms(2) unfolding inode_located_def t c(5,6) by (auto simp: gD)
qed

end

section \<open>The entry in the inode table\<close>

definition entry_of :: "e2inode \<Rightarrow> byte list" where
  "entry_of ino = put16 (put16 (put16 (put32 (i_raw ino) 4 (i_size ino)) 0 (i_mode ino)) 2 (i_uid ino)) 24 (i_gid ino)"

lemma length_entry [simp]: "length (i_raw ino) = 128 \<Longrightarrow> length (entry_of ino) = 128"
  by (simp add: entry_of_def)

lemma entry_fields:
  assumes "length (i_raw ino) = 128"
  shows "get32 (entry_of ino) 4 = i_size ino mod 2 ^ 32" "get16 (entry_of ino) 0 = i_mode ino mod 2 ^ 16" "get16 (entry_of ino) 2 = i_uid ino mod 2 ^ 16"
    "get16 (entry_of ino) 24 = i_gid ino mod 2 ^ 16" "28 \<le> off \<Longrightarrow> get_le n (entry_of ino) off = get_le n (i_raw ino) off"
  using assms by (simp_all add: entry_of_def get_put_same get_put_other)

context block_file
begin

lemma inode_place_ok:
  assumes "good (e_file fs)" "fs_ok cap (con fs) fs" "inode_located cap (con fs) fs k"
  obtains fs' where "inode_place F junk fs k = Inr (table_block (con fs) fs k, inode_slot fs k, fs')" "quiet fs fs'"
proof -
  have l: "0 < sb_inodes_per_group (superblock fs)" "0 < inodes_per_block fs" "inode_group fs k < num_block_groups fs"
    "128 * (inode_index fs k mod inodes_per_block fs) + 128 \<le> e_bs fs"
    using assms(3) inode_slot_bound [of fs k] by (simp_all add: inode_located_def inode_slot_def)
  obtain fs' where "get_block_group F junk fs (inode_group fs k) = Inr (Some (grp (con fs) fs (inode_group fs k)), fs')" "quiet fs fs'"
    by (rule get_block_group_ok [OF assms(1,2) l(3)])
  then show ?thesis using l by (intro that [of fs']) (simp_all add: inode_place_def table_block_def inode_slot_def)
qed

lemma write_inode_entry_ok:
  assumes gd: "good (e_file fs)" and ok: "fs_ok cap (con fs) fs" and loc: "inode_located cap (con fs) fs (i_id ino)"
    and raw: "length (i_raw ino) = 128"
  obtains fs' where "write_inode_entry F junk (fs, ino) = Inr (fs', ino\<lparr>i_raw := entry_of ino, i_dirty := False\<rparr>)"
    "changed {} {table_block (con fs) fs (i_id ino)} fs fs'"
    "con fs' (table_block (con fs) fs (i_id ino)) = put_at (con fs (table_block (con fs) fs (i_id ino))) (inode_slot fs (i_id ino)) (entry_of ino)"
proof -
  let ?b = "table_block (con fs) fs (i_id ino)" and ?o = "inode_slot fs (i_id ino)"
  have slot: "?o + 128 \<le> e_bs fs" using loc inode_slot_bound [of fs "i_id ino"] by (simp add: inode_located_def)
  have b: "?b * e_bs fs + e_bs fs \<le> cap" "?b \<notin> reserved_blocks (con fs) fs" using loc by (simp_all add: inode_located_def)
  obtain fs1 where fs1: "inode_place F junk fs (i_id ino) = Inr (?b, ?o, fs1)" "quiet fs fs1" by (rule inode_place_ok [OF gd ok loc])
  note q = quietD [OF fs1(2)] and gD = same_geometryD [OF quietD(4) [OF fs1(2)]]
  obtain d where d: "e2_read F fs1 ?b (stack_array (e_bs fs) junk) = Inr (None, con fs1 ?b, fs1\<lparr>e_file := d\<rparr>)" "good d" "cells d = cells (e_file fs1)"
    by (rule e2_read_ok [OF q(1), of ?b "stack_array (e_bs fs) junk"]) (use b fs_ok_block_size [OF ok] in \<open>simp_all add: gD\<close>)
  let ?fs2 = "fs1\<lparr>e_file := d\<rparr>" and ?buf = "put_at (con fs ?b) ?o (entry_of ino)"
  have len: "length ?buf = e_bs fs" using slot raw by simp
  obtain d' where d': "e2_write F ?fs2 ?b ?buf = Inr (None, ?fs2\<lparr>e_file := d'\<rparr>)" "good d'" "file_block (cells d') (e_bs ?fs2) = (con ?fs2)(?b := ?buf)"
    by (rule e2_write_ok [of ?fs2 ?b ?buf]) (use b fs_ok_block_size [OF ok] d(2) len in \<open>simp_all add: gD\<close>)
  have c: "con ?fs2 = con fs" using d(3) q(3) by (simp add: gD)
  have q2: "quiet fs ?fs2" by (rule quiet_trans [OF fs1(2) quiet_file [OF d(2,3)]])
  have "changed {} {?b} ?fs2 (?fs2\<lparr>e_file := d'\<rparr>)"
    by (rule changed_write) (use d' quietD(6) [OF q2] ok b(2) same_view(3) [OF quietD(2) [OF q2]] quietD(3) [OF q2] c in auto)
  then have ch: "changed {} {?b} fs (?fs2\<lparr>e_file := d'\<rparr>)" using changed_trans [OF changed_quiet [OF q2 ok]] by fastforce
  have "write_inode_entry F junk (fs, ino) = Inr (?fs2\<lparr>e_file := d'\<rparr>, ino\<lparr>i_raw := entry_of ino, i_dirty := False\<rparr>)"
    using fs1(1) d(1) d'(1) q(3) by (simp add: write_inode_entry_def entry_of_def [symmetric] Let_def)
  then show ?thesis using ch d'(3) by (intro that [of "?fs2\<lparr>e_file := d'\<rparr>"]) simp_all
qed

end

section \<open>The pointers\<close>

lemma put_pointers_Suc: "put_pointers ino from (Suc n) buf = put32 (put_pointers ino from n buf) (4 * n) (get_block_pointer ino (from + n))"
  by (simp add: put_pointers_def)

lemma length_put_pointers [simp]: "4 * n \<le> length buf \<Longrightarrow> length (put_pointers ino from n buf) = length buf"
proof (induction n)
  case (Suc n)
  then show ?case by (simp add: put_pointers_Suc del: length_put_le) (subst length_put_le, simp_all)
qed (simp add: put_pointers_def)

lemma get_put_pointers: "4 * n \<le> length buf \<Longrightarrow> i < n \<Longrightarrow> get32 (put_pointers ino from n buf) (4 * i) = get_block_pointer ino (from + i) mod 2 ^ 32"
proof (induction n)
  case (Suc n)
  then show ?case by (cases "i = n") (simp_all add: put_pointers_Suc get_put_same get_put_other)
qed simp

lemma put_direct:
  assumes "length raw = 128" "n \<le> 12" "r = fold (\<lambda>i. set_raw_pointer i (f i)) [0..<n] raw"
  shows "length r = 128 \<and> (\<forall>i < n. raw_pointer r i = f i mod 2 ^ 32) \<and> (\<forall>m off. off + m \<le> 40 \<or> 88 \<le> off \<longrightarrow> get_le m r off = get_le m raw off)"
  using assms(2,3)
proof (induction n arbitrary: r)
  case (Suc n)
  let ?r = "fold (\<lambda>i. set_raw_pointer i (f i)) [0..<n] raw"
  have r: "r = put32 ?r (40 + 4 * n) (f n)" by (simp add: Suc.prems set_raw_pointer_def [of n "f n"])
  have IH: "length ?r = 128" "\<forall>i < n. raw_pointer ?r i = f i mod 2 ^ 32" "\<forall>m off. off + m \<le> 40 \<or> 88 \<le> off \<longrightarrow> get_le m ?r off = get_le m raw off"
    using Suc by auto
  have "raw_pointer r i = f i mod 2 ^ 32" if "i < Suc n" for i
    using that IH(1,2) Suc.prems(1) unfolding r by (cases "i = n") (auto simp: raw_pointer_def get_put_same get_put_other)
  moreover have "get_le m r off = get_le m raw off" if "off + m \<le> 40 \<or> 88 \<le> off" for m off
    using that IH(1,3) Suc.prems(1) unfolding r by (subst get_put_other) auto
  ultimately show ?case using IH(1) Suc.prems(1) by (simp add: r)
qed (use assms(1) in simp)

text \<open>The pointers of a file of up to \<open>12 + block_pointers_per_block\<close> blocks, as they are stored.\<close>

definition pointers_stored :: "(nat \<Rightarrow> byte list) \<Rightarrow> nat \<Rightarrow> nat \<Rightarrow> e2inode \<Rightarrow> bool" where
  "pointers_stored c n p ino \<longleftrightarrow> length (i_raw ino) = 128 \<and> (\<forall>i < min n 12. raw_pointer (i_raw ino) i = get_block_pointer ino i) \<and>
     (if n > 12 then s_pointer (i_raw ino) \<noteq> 0 \<and> i_ptr_blocks ino = [s_pointer (i_raw ino)] \<and>
        (\<forall>i < p. get32 (c (s_pointer (i_raw ino))) (4 * i) = get_block_pointer ino (12 + i))
      else i_ptr_blocks ino = [] \<and> s_pointer (i_raw ino) = 0)"

lemma get_block_pointer_cong: "i_blocks ino' = i_blocks ino \<Longrightarrow> get_block_pointer ino' = get_block_pointer ino"
  by (simp add: fun_eq_iff get_block_pointer_def)

context block_file
begin

lemma allocate_block_ok:
  assumes "good (e_file fs)" "fs_ok cap (con fs) fs" "free_block_set (con fs) fs \<noteq> {}"
  obtains b fs' where "allocate_block F junk fs True = Inr (b, fs')" "allocated True {b} fs fs'"
proof -
  have one: "1 \<le> card (free_block_set (con fs) fs)" using assms(3) by (simp add: Suc_leI card_gt_0_iff)
  obtain bs fs' where r: "allocate_blocks F junk fs 1 True = Inr (Inr bs, fs')" "allocated True (set bs) fs fs'" "length bs = 1"
    using allocate_blocks_ok [OF assms(1-2) zero_less_one, of junk True] one by auto
  then obtain b where "bs = [b]" by (auto simp: length_Suc_conv)
  then show ?thesis using r by (intro that [of b fs']) (simp_all add: allocate_block_def)
qed

text \<open>A block for pointers: the one the inode has, or a new one.\<close>

lemma block_or_new_ok:
  assumes "good (e_file fs)" "fs_ok cap (con fs) fs"
    "if p = 0 then free_block_set (con fs) fs \<noteq> {} else p * e_bs fs + e_bs fs \<le> cap \<and> p \<notin> reserved_blocks (con fs) fs"
  obtains q A fs' where "block_or_new F junk p fs = Inr (q, fs')" "changed A {} fs fs'" "A = (if p = 0 then {q} else {})" "q \<noteq> 0" "p \<noteq> 0 \<longrightarrow> q = p"
    "q * e_bs fs + e_bs fs \<le> cap" "q \<notin> reserved_blocks (con fs) fs"
proof (cases "p = 0")
  case True
  then have ne: "free_block_set (con fs) fs \<noteq> {}" using assms(3) by simp
  obtain b fs' where b: "allocate_block F junk fs True = Inr (b, fs')" "allocated True {b} fs fs'" by (rule allocate_block_ok [OF assms(1-2) ne])
  have "b \<in> free_block_set (con fs) fs" using b(2) by (simp add: allocated_def)
  note f = fs_okD(4) [OF assms(2) this]
  then show ?thesis using True b(1) changed_allocated [OF b(2)] by (intro that [of b fs' "{b}"]) (auto simp: block_or_new_def)
next
  case False
  have "quiet fs fs" by (simp add: quiet_def same_groups_def assms(1))
  then show ?thesis using False assms changed_quiet by (intro that [of p fs "{}"]) (simp_all add: block_or_new_def)
qed

lemma write_singly_small: "inode_num_blocks fs ino \<le> 12 \<Longrightarrow> write_singly F junk buf (fs, ino) = Inr (None, buf, fs, upd_raw (\<lambda>raw. put32 raw 88 0) ino)"
  by (simp add: write_singly_def)

lemma write_singly_ok:
  assumes gd: "good (e_file fs)" and ok: "fs_ok cap (con fs) fs" and n: "12 < inode_num_blocks fs ino" and bb: "length bb = e_bs fs"
    and p: "if s_pointer (i_raw ino) = 0 then free_block_set (con fs) fs \<noteq> {}
      else s_pointer (i_raw ino) * e_bs fs + e_bs fs \<le> cap \<and> s_pointer (i_raw ino) \<notin> reserved_blocks (con fs) fs"
  obtains q A buf fs' where "write_singly F junk bb (fs, ino) = Inr (None, buf, fs', push_ptr_block q (upd_raw (\<lambda>raw. put32 raw 88 q) ino))"
    "changed A {q} fs fs'" "A = (if s_pointer (i_raw ino) = 0 then {q} else {})" "q \<noteq> 0" "s_pointer (i_raw ino) \<noteq> 0 \<longrightarrow> q = s_pointer (i_raw ino)"
    "q * e_bs fs + e_bs fs \<le> cap" "q \<notin> reserved_blocks (con fs) fs"
    "\<forall>i < block_pointers_per_block fs. get32 (con fs' q) (4 * i) = get_block_pointer ino (12 + i) mod 2 ^ 32"
proof -
  obtain q A fs1 where q: "block_or_new F junk (s_pointer (i_raw ino)) fs = Inr (q, fs1)" "changed A {} fs fs1" "A = (if s_pointer (i_raw ino) = 0 then {q} else {})"
    "q \<noteq> 0" "s_pointer (i_raw ino) \<noteq> 0 \<longrightarrow> q = s_pointer (i_raw ino)" "q * e_bs fs + e_bs fs \<le> cap" "q \<notin> reserved_blocks (con fs) fs"
    by (rule block_or_new_ok [OF gd ok p])
  note c = changedD [OF q(2)] and gD = same_geometryD [OF changedD(3) [OF q(2)]]
  have bs: "0 < e_bs fs" "4 * block_pointers_per_block fs \<le> e_bs fs" using fs_ok_block_size [OF ok] fs_okD(1) [OF ok] by (simp_all add: geometry_ok_def)
  obtain d where d: "e2_read F fs1 q bb = Inr (None, con fs1 q, fs1\<lparr>e_file := d\<rparr>)" "good d" "cells d = cells (e_file fs1)"
    by (rule e2_read_ok [OF c(1), of q bb]) (use q(6) bs bb in \<open>simp_all add: gD\<close>)
  let ?ino = "upd_raw (\<lambda>raw. put32 raw 88 q) ino" and ?fs2 = "fs1\<lparr>e_file := d\<rparr>"
  let ?buf = "put_pointers ?ino 12 (block_pointers_per_block fs) (con fs1 q)"
  have g: "get_block_pointer ?ino = get_block_pointer ino" by (rule get_block_pointer_cong) (simp add: upd_raw_def)
  have len: "length ?buf = e_bs fs" using bs by (simp add: gD)
  obtain d' where d': "e2_write F ?fs2 q ?buf = Inr (None, ?fs2\<lparr>e_file := d'\<rparr>)" "good d'" "file_block (cells d') (e_bs ?fs2) = (con ?fs2)(q := ?buf)"
    by (rule e2_write_ok [of ?fs2 q ?buf]) (use q(6) bs d(2) len in \<open>simp_all add: gD\<close>)
  have ch2: "changed {} {} fs1 ?fs2" by (rule changed_quiet [OF quiet_file [OF d(2,3)] c(2)])
  have "changed {} {q} ?fs2 (?fs2\<lparr>e_file := d'\<rparr>)"
    by (rule changed_write [OF changedD(2) [OF ch2] d'(2)]) (use d'(3) changedD(6) [OF ch2] c(6) q(7) in auto)
  then have ch: "changed A {q} fs (?fs2\<lparr>e_file := d'\<rparr>)" using changed_trans [OF changed_trans [OF q(2) ch2]] by fastforce
  have w: "write_singly F junk bb (fs, ino) = Inr (None, ?buf, ?fs2\<lparr>e_file := d'\<rparr>, push_ptr_block q ?ino)"
    using n q(1,4) d(1) d'(1) by (simp add: write_singly_def Let_def gD)
  have "\<forall>i < block_pointers_per_block fs. get32 (con (?fs2\<lparr>e_file := d'\<rparr>) q) (4 * i) = get_block_pointer ino (12 + i) mod 2 ^ 32"
    using d'(3) bs by (simp add: gD get_put_pointers g)
  from that [OF w ch q(3-7) this] show ?thesis .
qed

end

lemma calculate_num_ptr_blocks_small: "n \<le> 12 + block_pointers_per_block fs \<Longrightarrow> \<exists>m. calculate_num_ptr_blocks fs n = Inr m"
  by (auto simp: calculate_num_ptr_blocks_def Let_def)

text \<open>What is left to do after the singly indirect block keeps the pointers.\<close>

definition pointers_kept :: "byte list \<Rightarrow> byte list \<Rightarrow> bool" where
  "pointers_kept raw raw' \<longleftrightarrow> length raw' = length raw \<and> s_pointer raw' = s_pointer raw \<and> (\<forall>i < 12. raw_pointer raw' i = raw_pointer raw i)"

lemma pointers_kept_put: "length raw = 128 \<Longrightarrow> off = 92 \<or> off = 96 \<or> off = 28 \<Longrightarrow> pointers_kept raw (put32 raw off v)"
  by (auto simp: pointers_kept_def s_pointer_def raw_pointer_def get_put_other)

lemma pointers_kept_trans: "pointers_kept r1 r2 \<Longrightarrow> pointers_kept r2 r3 \<Longrightarrow> pointers_kept r1 r3"
  by (simp add: pointers_kept_def)

definition direct_put :: "e2inode \<Rightarrow> e2inode" where
  "direct_put ino = upd_raw (fold (\<lambda>i. set_raw_pointer i (get_block_pointer ino i)) [0..<12]) (ino\<lparr>i_ptr_blocks := []\<rparr>)"

lemma write_block_pointers_after:
  assumes "\<not> (is_symlink ino \<and> i_size ino < 60)" "\<not> is_device ino" "inode_num_blocks fs ino \<le> 12 + block_pointers_per_block fs"
    and w: "write_singly F junk (stack_array (e_bs fs) junk) (fs, direct_put ino) = Inr (None, buf, fs1, ino1)"
    and g: "same_geometry fs fs1" and i: "inode_num_blocks fs ino1 = inode_num_blocks fs ino" "length (i_raw ino1) = 128"
  obtains raw where "write_block_pointers F junk (fs, ino) = Inr (None, fs1, ino1\<lparr>i_raw := raw, i_dirty := True\<rparr>)" "pointers_kept (i_raw ino1) raw"
proof -
  note gD = same_geometryD [OF g] inode_geometry [OF g]
  let ?ino2 = "upd_raw (\<lambda>raw. put32 raw 92 0) ino1"
  have d: "write_doubly F junk buf (fs1, ino1) = Inr (None, fs1, ?ino2)" using assms(3) i by (simp add: write_doubly_def gD)
  obtain m where m: "calculate_num_ptr_blocks fs (inode_num_blocks fs ino) = Inr m" using calculate_num_ptr_blocks_small [OF assms(3)] by blast
  define ino3 where "ino3 = (if inode_num_blocks fs1 ?ino2 > 12 + mul32 (block_pointers_per_block fs1) (block_pointers_per_block fs1)
    then ?ino2 else upd_raw (\<lambda>raw. put32 raw 96 0) ?ino2)"
  define raw where "raw = put32 (i_raw ino3) 28 (mul32 (length (i_blocks ino3) + length (i_ptr_blocks ino3)) (e_bs fs1 div 512))"
  have e: "write_block_pointers F junk (fs, ino) = Inr (None, fs1, (upd_raw (\<lambda>raw. put32 raw 28
      (mul32 (length (i_blocks ino3) + length (i_ptr_blocks ino3)) (e_bs fs1 div 512))) ino3)\<lparr>i_dirty := True\<rparr>)"
    using assms(1,2) m w d by (auto simp: write_block_pointers_def direct_put_def [symmetric] ino3_def Let_def)
  have k: "pointers_kept (i_raw ino1) (i_raw ?ino2)" "pointers_kept (i_raw ?ino2) (i_raw ino3)"
    using i(2) pointers_kept_put [of "i_raw ino1"] pointers_kept_put [of "i_raw ?ino2"]
    by (simp_all add: ino3_def upd_raw_def pointers_kept_def)
  have "length (i_raw ino3) = 128" using k i(2) by (simp add: pointers_kept_def)
  then have "pointers_kept (i_raw ino3) raw" by (simp add: raw_def pointers_kept_put)
  then have "pointers_kept (i_raw ino1) raw" using k by (blast intro: pointers_kept_trans)
  moreover have "(upd_raw (\<lambda>raw. put32 raw 28 (mul32 (length (i_blocks ino3) + length (i_ptr_blocks ino3)) (e_bs fs1 div 512))) ino3)\<lparr>i_dirty := True\<rparr> =
      ino1\<lparr>i_raw := raw, i_dirty := True\<rparr>"
    by (simp add: raw_def ino3_def upd_raw_def)
  ultimately show ?thesis using e by (intro that [of raw]) simp_all
qed

lemma direct_put_fields:
  assumes "length (i_raw ino) = 128"
  shows "length (i_raw (direct_put ino)) = 128" "i < 12 \<Longrightarrow> raw_pointer (i_raw (direct_put ino)) i = get_block_pointer ino i mod 2 ^ 32"
    "s_pointer (i_raw (direct_put ino)) = s_pointer (i_raw ino)" "inode_num_blocks fs (direct_put ino) = inode_num_blocks fs ino"
    "get_block_pointer (direct_put ino) = get_block_pointer ino"
proof -
  have r: "i_raw (direct_put ino) = fold (\<lambda>i. set_raw_pointer i (get_block_pointer ino i)) [0..<12] (i_raw ino)" by (simp add: direct_put_def upd_raw_def)
  note p = put_direct [OF assms le_refl r]
  show "length (i_raw (direct_put ino)) = 128" "i < 12 \<Longrightarrow> raw_pointer (i_raw (direct_put ino)) i = get_block_pointer ino i mod 2 ^ 32"
    "s_pointer (i_raw (direct_put ino)) = s_pointer (i_raw ino)" using p by (simp_all add: s_pointer_def)
  show "inode_num_blocks fs (direct_put ino) = inode_num_blocks fs ino" by (simp add: inode_num_blocks_def direct_put_def upd_raw_def is_symlink_def)
  show "get_block_pointer (direct_put ino) = get_block_pointer ino" by (rule get_block_pointer_cong) (simp add: direct_put_def upd_raw_def)
qed

lemma pointers_stored_kept:
  assumes "pointers_kept (i_raw ino) raw" "pointers_stored c n p ino"
  shows "pointers_stored c n p (ino\<lparr>i_raw := raw, i_dirty := v\<rparr>)"
proof -
  have "get_block_pointer (ino\<lparr>i_raw := raw, i_dirty := v\<rparr>) = get_block_pointer ino" by (rule get_block_pointer_cong) simp
  then show ?thesis using assms by (simp add: pointers_stored_def pointers_kept_def)
qed

text \<open>The inode may have a singly indirect block, or there is a free block for one.\<close>

definition indirect_ok :: "nat \<Rightarrow> (nat \<Rightarrow> byte list) \<Rightarrow> 'd ext2 \<Rightarrow> e2inode \<Rightarrow> bool" where
  "indirect_ok cap c fs ino \<longleftrightarrow> inode_num_blocks fs ino \<le> 12 + block_pointers_per_block fs \<and> length (i_raw ino) = 128 \<and> (\<forall>i. get_block_pointer ino i < 2 ^ 32) \<and>
     (12 < inode_num_blocks fs ino \<longrightarrow>
       (if s_pointer (i_raw ino) = 0 then free_block_set c fs \<noteq> {}
        else s_pointer (i_raw ino) * e_bs fs + e_bs fs \<le> cap \<and> s_pointer (i_raw ino) \<notin> reserved_blocks c fs \<union> free_block_set c fs))"

definition plain_file :: "e2inode \<Rightarrow> bool" where
  "plain_file ino \<longleftrightarrow> \<not> is_device ino \<and> \<not> (is_symlink ino \<and> i_size ino < 60)"

context block_file
begin

text \<open>\<open>A\<close> is the new pointer block, if there is one, and \<open>P\<close> the pointer blocks of the inode.\<close>

lemma write_block_pointers_ok:
  assumes gd: "good (e_file fs)" and ok: "fs_ok cap (con fs) fs" and ino: "plain_file ino" "indirect_ok cap (con fs) fs ino"
  obtains A P ino' fs' where "write_block_pointers F junk (fs, ino) = Inr (None, fs', ino')"
    "ino' = ino\<lparr>i_raw := i_raw ino', i_ptr_blocks := P, i_dirty := True\<rparr>" "changed A (set P) fs fs'" "pointers_stored (con fs') (inode_num_blocks fs ino) (block_pointers_per_block fs) ino'"
    "A \<subseteq> set P" "set P \<subseteq> A \<union> {s_pointer (i_raw ino)}" "\<forall>b \<in> set P. file_block_ok cap (e_bs fs) b \<and> b \<notin> reserved_blocks (con fs) fs \<and> b \<notin> free_block_set (con fs') fs'"
proof -
  let ?n = "inode_num_blocks fs ino" and ?ino0 = "direct_put ino" and ?bb = "stack_array (e_bs fs) junk"
  have raw: "length (i_raw ino) = 128" and n: "?n \<le> 12 + block_pointers_per_block fs" and small: "get_block_pointer ino i < 2 ^ 32" for i
    using ino(2) by (auto simp: indirect_ok_def)
  have kind: "\<not> is_device ino" "\<not> (is_symlink ino \<and> i_size ino < 60)" using ino(1) by (simp_all add: plain_file_def)
  note dp = direct_put_fields [OF raw] and result = that
  have nb: "inode_num_blocks fs ?ino0 = ?n" by (rule direct_put_fields(4) [OF raw])
  have fin: "thesis" if w: "write_singly F junk ?bb (fs, ?ino0) = Inr (None, buf, fs1, ino1)" and ch: "changed A (set P) fs fs1" and ino1: "ino1 = ?ino0\<lparr>i_raw := r, i_ptr_blocks := P\<rparr>"
      and st1: "pointers_stored (con fs1) ?n (block_pointers_per_block fs) ino1" and PA: "A \<subseteq> set P" "set P \<subseteq> A \<union> {s_pointer (i_raw ino)}"
        "\<forall>b \<in> set P. file_block_ok cap (e_bs fs) b \<and> b \<notin> reserved_blocks (con fs) fs \<and> b \<notin> free_block_set (con fs1) fs1" for buf fs1 ino1 A P r
  proof (rule write_block_pointers_after [OF kind(2,1) n w changedD(3) [OF ch]])
    show "inode_num_blocks fs ino1 = ?n" by (simp add: ino1 direct_put_def upd_raw_def inode_num_blocks_def is_symlink_def)
    show "length (i_raw ino1) = 128" using st1 by (simp add: pointers_stored_def)
    fix raw' assume wp: "write_block_pointers F junk (fs, ino) = Inr (None, fs1, ino1\<lparr>i_raw := raw', i_dirty := True\<rparr>)" "pointers_kept (i_raw ino1) raw'"
    show ?thesis by (rule result [OF wp(1) _ ch pointers_stored_kept [OF wp(2) st1] PA]) (simp add: ino1 direct_put_def upd_raw_def)
  qed
  show ?thesis
  proof (cases "?n \<le> 12")
    case True
    have w: "write_singly F junk ?bb (fs, ?ino0) = Inr (None, ?bb, fs, upd_raw (\<lambda>raw. put32 raw 88 0) ?ino0)"
      by (rule write_singly_small) (simp add: nb True)
    have q: "changed {} (set []) fs fs" by (simp add: changed_quiet ok quiet_def same_groups_def gd)
    let ?ino1 = "upd_raw (\<lambda>raw. put32 raw 88 0) ?ino0"
    have "get_block_pointer ?ino1 = get_block_pointer ino" by (rule get_block_pointer_cong) (simp add: direct_put_def upd_raw_def)
    then have s: "pointers_stored (con fs) ?n (block_pointers_per_block fs) ?ino1"
      using True dp(1,2) small by (auto simp: pointers_stored_def upd_raw_def raw_pointer_def s_pointer_def get_put_other get_put_same direct_put_def)
    show ?thesis by (rule fin [OF w q _ s, of "i_raw ?ino1"]) (simp_all add: upd_raw_def direct_put_def)
  next
    case False
    have p: "if s_pointer (i_raw ?ino0) = 0 then free_block_set (con fs) fs \<noteq> {}
      else s_pointer (i_raw ?ino0) * e_bs fs + e_bs fs \<le> cap \<and> s_pointer (i_raw ?ino0) \<notin> reserved_blocks (con fs) fs"
      using False ino(2) dp(3) by (auto simp: indirect_ok_def split: if_splits)
    obtain q A buf fs1 where q: "write_singly F junk ?bb (fs, ?ino0) = Inr (None, buf, fs1, push_ptr_block q (upd_raw (\<lambda>raw. put32 raw 88 q) ?ino0))"
      "changed A {q} fs fs1" "A = (if s_pointer (i_raw ?ino0) = 0 then {q} else {})" "q \<noteq> 0" "s_pointer (i_raw ?ino0) \<noteq> 0 \<longrightarrow> q = s_pointer (i_raw ?ino0)"
      "q * e_bs fs + e_bs fs \<le> cap" "q \<notin> reserved_blocks (con fs) fs" "\<forall>i < block_pointers_per_block fs. get32 (con fs1 q) (4 * i) = get_block_pointer ?ino0 (12 + i) mod 2 ^ 32"
      by (rule write_singly_ok [OF gd ok _ length_stack_array p]) (use False nb in simp)
    let ?ino1 = "push_ptr_block q (upd_raw (\<lambda>raw. put32 raw 88 q) ?ino0)"
    have q32: "q < 2 ^ 32"
    proof -
      have "q * 1 \<le> q * e_bs fs" using fs_ok_block_size(2) [OF ok] by (intro mult_le_mono2) simp
      then show ?thesis using q(6) cap_bound fs_ok_block_size(2) [OF ok] by linarith
    qed
    have "get_block_pointer ?ino1 = get_block_pointer ino" by (rule get_block_pointer_cong) (simp add: direct_put_def upd_raw_def push_ptr_block_def)
    then have s: "pointers_stored (con fs1) ?n (block_pointers_per_block fs) ?ino1"
      using False dp(1,2,5) small q(4,8) q32
      by (auto simp: pointers_stored_def push_ptr_block_def upd_raw_def raw_pointer_def s_pointer_def get_put_other get_put_same direct_put_def)
    have ch: "changed A (set [q]) fs fs1" using q(2) by simp
    have free: "q \<notin> free_block_set (con fs1) fs1" using changedD(5) [OF q(2)] q(3,5) ino(2) False dp(3) by (auto simp: indirect_ok_def split: if_splits)
    show ?thesis by (rule fin [OF q(1) ch _ s, of "i_raw ?ino1"])
      (use q(3-7) free dp(3) in \<open>auto simp: push_ptr_block_def upd_raw_def direct_put_def file_block_ok_def split: if_splits\<close>)
  qed
qed

end

section \<open>The inode on the disk\<close>

definition inode_stored :: "(nat \<Rightarrow> byte list) \<Rightarrow> 'd ext2 \<Rightarrow> e2inode \<Rightarrow> bool" where
  "inode_stored c fs ino \<longleftrightarrow> take 128 (drop (inode_slot fs (i_id ino)) (c (table_block c fs (i_id ino)))) = i_raw ino \<and>
     get16 (i_raw ino) 0 = i_mode ino \<and> get32 (i_raw ino) 4 = i_size ino \<and> get16 (i_raw ino) 2 = i_uid ino \<and> get16 (i_raw ino) 24 = i_gid ino \<and>
     pointers_stored c (inode_num_blocks fs ino) (block_pointers_per_block fs) ino"

definition metadata_ok :: "e2inode \<Rightarrow> bool" where
  "metadata_ok ino \<longleftrightarrow> i_mode ino < 2 ^ 16 \<and> i_size ino < 2 ^ 32 \<and> i_uid ino < 2 ^ 16 \<and> i_gid ino < 2 ^ 16"

lemma entry_pointers:
  assumes "pointers_stored c n p ino" "s_pointer (i_raw ino) \<noteq> 0 \<Longrightarrow> c' (s_pointer (i_raw ino)) = c (s_pointer (i_raw ino))"
  shows "pointers_stored c' n p (ino\<lparr>i_raw := entry_of ino, i_dirty := v\<rparr>)"
proof -
  have raw: "length (i_raw ino) = 128" using assms(1) by (simp add: pointers_stored_def)
  have "get_block_pointer (ino\<lparr>i_raw := entry_of ino, i_dirty := v\<rparr>) = get_block_pointer ino" by (rule get_block_pointer_cong) simp
  moreover have "s_pointer (entry_of ino) = s_pointer (i_raw ino)" "raw_pointer (entry_of ino) i = raw_pointer (i_raw ino) i" for i
    using entry_fields(5) [OF raw] by (simp_all add: s_pointer_def raw_pointer_def)
  ultimately show ?thesis using assms raw by (auto simp: pointers_stored_def)
qed

context block_file
begin

text \<open>Once the pointers are stored, writing the entry stores the inode.\<close>

lemma write_inode_entry_stored:
  assumes gd: "good (e_file fs)" and ok: "fs_ok cap (con fs) fs" and loc: "inode_located cap (con fs) fs (i_id ino)" and meta: "metadata_ok ino"
    and ps: "pointers_stored (con fs) (inode_num_blocks fs ino) (block_pointers_per_block fs) ino"
    and sp: "s_pointer (i_raw ino) \<noteq> 0 \<Longrightarrow> s_pointer (i_raw ino) \<notin> reserved_blocks (con fs) fs \<and> s_pointer (i_raw ino) \<noteq> table_block (con fs) fs (i_id ino)"
  obtains fs' where "write_inode_entry F junk (fs, ino) = Inr (fs', ino\<lparr>i_raw := entry_of ino, i_dirty := False\<rparr>)"
    "changed {} {table_block (con fs) fs (i_id ino)} fs fs'" "inode_stored (con fs') fs' (ino\<lparr>i_raw := entry_of ino, i_dirty := False\<rparr>)"
proof -
  let ?t = "table_block (con fs) fs (i_id ino)" and ?ino = "ino\<lparr>i_raw := entry_of ino, i_dirty := False\<rparr>"
  have raw: "length (i_raw ino) = 128" using ps by (simp add: pointers_stored_def)
  obtain fs' where e: "write_inode_entry F junk (fs, ino) = Inr (fs', ?ino)" "changed {} {?t} fs fs'"
    "con fs' ?t = put_at (con fs ?t) (inode_slot fs (i_id ino)) (entry_of ino)"
    by (rule write_inode_entry_ok [OF gd ok loc raw])
  note gD = same_geometryD [OF changedD(3) [OF e(2)]] inode_geometry [OF changedD(3) [OF e(2)]]
  have n: "inode_num_blocks fs ?ino = inode_num_blocks fs ino" by (simp add: inode_num_blocks_def is_symlink_def)
  have "con fs' (s_pointer (i_raw ino)) = con fs (s_pointer (i_raw ino))" if "s_pointer (i_raw ino) \<noteq> 0" using changedD(7) [OF e(2)] sp [OF that] by blast
  then have p: "pointers_stored (con fs') (inode_num_blocks fs ino) (block_pointers_per_block fs) ?ino" by (rule entry_pointers [OF ps])
  have t: "table_block (con fs') fs' (i_id ?ino) = ?t" using changed_located(2) [OF e(2) loc] by simp
  have slot: "inode_slot fs (i_id ino) + 128 \<le> e_bs fs" using loc inode_slot_bound [of fs "i_id ino"] by (simp add: inode_located_def)
  have "take 128 (drop (inode_slot fs (i_id ino)) (con fs' ?t)) = entry_of ino"
    using put_at_inside [of "inode_slot fs (i_id ino)" "entry_of ino" "con fs ?t"] e(3) slot raw by simp
  then have "inode_stored (con fs') fs' ?ino"
    using p meta entry_fields [OF raw] t unfolding inode_stored_def gD n metadata_ok_def by simp
  with e(1,2) show ?thesis by (rule that)
qed

lemma write_to_disk_ok:
  assumes gd: "good (e_file fs)" and ok: "fs_ok cap (con fs) fs" and ino: "plain_file ino" "indirect_ok cap (con fs) fs ino" "metadata_ok ino"
    and loc: "inode_located cap (con fs) fs (i_id ino)" "s_pointer (i_raw ino) = 0 \<or> s_pointer (i_raw ino) \<noteq> table_block (con fs) fs (i_id ino)"
  obtains A P ino' fs' where "write_to_disk F junk (fs, ino) = Inr (None, fs', ino')"
    "ino' = ino\<lparr>i_raw := i_raw ino', i_ptr_blocks := P, i_dirty := False\<rparr>" "changed A (insert (table_block (con fs) fs (i_id ino)) (set P)) fs fs'" "inode_stored (con fs') fs' ino'"
    "A \<subseteq> set P" "set P \<subseteq> A \<union> {s_pointer (i_raw ino)}"
    "\<forall>b \<in> set P. file_block_ok cap (e_bs fs) b \<and> b \<notin> reserved_blocks (con fs) fs \<and> b \<notin> free_block_set (con fs') fs' \<and> b \<noteq> table_block (con fs) fs (i_id ino)"
proof -
  let ?t = "table_block (con fs) fs (i_id ino)" and ?n = "inode_num_blocks fs ino"
  obtain A P ino1 fs1 where w: "write_block_pointers F junk (fs, ino) = Inr (None, fs1, ino1)" "ino1 = ino\<lparr>i_raw := i_raw ino1, i_ptr_blocks := P, i_dirty := True\<rparr>"
    "changed A (set P) fs fs1" "pointers_stored (con fs1) ?n (block_pointers_per_block fs) ino1"
    "A \<subseteq> set P" "set P \<subseteq> A \<union> {s_pointer (i_raw ino)}" "\<forall>b \<in> set P. file_block_ok cap (e_bs fs) b \<and> b \<notin> reserved_blocks (con fs) fs \<and> b \<notin> free_block_set (con fs1) fs1"
    by (rule write_block_pointers_ok [OF gd ok ino(1,2)])
  note c = changedD [OF w(3)] and gD = same_geometryD [OF changedD(3) [OF w(3)]] inode_geometry [OF changedD(3) [OF w(3)]]
  have i1: "i_id ino1 = i_id ino" "i_size ino1 = i_size ino" "i_mode ino1 = i_mode ino" "i_uid ino1 = i_uid ino" "i_gid ino1 = i_gid ino" "i_ptr_blocks ino1 = P"
    by (subst w(2), simp)+
  have n1: "inode_num_blocks fs1 ino1 = ?n" by (simp add: inode_num_blocks_def is_symlink_def i1 gD)
  have loc1: "inode_located cap (con fs1) fs1 (i_id ino1)" "table_block (con fs1) fs1 (i_id ino1) = ?t" using changed_located [OF w(3) loc(1)] by (simp_all add: i1)
  have tP: "?t \<notin> set P"
  proof
    assume t: "?t \<in> set P"
    then have "?t \<noteq> 0" using w(7) by (simp add: file_block_ok_def)
    moreover have "?t \<notin> A" using loc(1) c(4) by (auto simp: inode_located_def)
    ultimately show False using w(6) loc(2) t by auto
  qed
  have sP: "s_pointer (i_raw ino1) \<in> set P" if "s_pointer (i_raw ino1) \<noteq> 0" using w(4) that i1(6) by (auto simp: pointers_stored_def split: if_splits)
  obtain fs2 where e: "write_inode_entry F junk (fs1, ino1) = Inr (fs2, ino1\<lparr>i_raw := entry_of ino1, i_dirty := False\<rparr>)" "changed {} {?t} fs1 fs2"
    "inode_stored (con fs2) fs2 (ino1\<lparr>i_raw := entry_of ino1, i_dirty := False\<rparr>)"
  proof (rule write_inode_entry_stored [OF c(1,2) loc1(1)])
    show "metadata_ok ino1" using ino(3) by (simp add: metadata_ok_def i1)
    show "pointers_stored (con fs1) (inode_num_blocks fs1 ino1) (block_pointers_per_block fs1) ino1" unfolding n1 gD(5) by (rule w(4))
    assume "s_pointer (i_raw ino1) \<noteq> 0"
    from sP [OF this] show "s_pointer (i_raw ino1) \<notin> reserved_blocks (con fs1) fs1 \<and> s_pointer (i_raw ino1) \<noteq> table_block (con fs1) fs1 (i_id ino1)"
      using w(7) c(6) tP loc1(2) by metis
  qed (simp add: loc1(2))
  let ?ino2 = "ino1\<lparr>i_raw := entry_of ino1, i_dirty := False\<rparr>"
  have ch: "changed A (insert ?t (set P)) fs fs2" using changed_trans [OF w(3) e(2)] by simp
  have "?ino2 = ino\<lparr>i_raw := i_raw ?ino2, i_ptr_blocks := P, i_dirty := False\<rparr>" by (subst (1) w(2)) simp
  moreover have "\<forall>b \<in> set P. file_block_ok cap (e_bs fs) b \<and> b \<notin> reserved_blocks (con fs) fs \<and> b \<notin> free_block_set (con fs2) fs2 \<and> b \<noteq> ?t"
    using w(7) tP changedD(5) [OF e(2)] by auto
  ultimately show ?thesis using w(1,5,6) e(1,3) ch by (intro that [of fs2 ?ino2 P A]) (simp_all add: write_to_disk_def)
qed

end

lemma read_direct_eq:
  "p_index st = length (p_blocks st) \<Longrightarrow> read_direct n raw is st =
     st\<lparr>p_index := p_index st + min (length is) (n - p_index st), p_blocks := p_blocks st @ map (raw_pointer raw) [p_index st..<p_index st + min (length is) (n - p_index st)]\<rparr>"
proof (induction "is" arbitrary: st)
  case (Cons i "is")
  show ?case
  proof (cases "p_index st < n")
    case True
    then have m: "min (length (i # is)) (n - p_index st) = Suc (min (length is) (n - Suc (p_index st)))" by simp
    show ?thesis unfolding m using True Cons.IH [of "st\<lparr>p_blocks := p_blocks st @ [raw_pointer raw (p_index st)], p_index := p_index st + 1\<rparr>"] Cons.prems
      by (simp add: upt_conv_Cons del: upt_Suc)
  qed simp
qed simp

lemma read_entries_eq:
  "read_entries n buf is st = st\<lparr>p_index := p_index st + min (length is) (n - p_index st), p_blocks := p_blocks st @ map (\<lambda>i. get32 buf (4 * i)) (take (n - p_index st) is)\<rparr>"
proof (induction "is" arbitrary: st)
  case (Cons i "is")
  show ?case
  proof (cases "p_index st < n")
    case True
    then obtain m where "n - p_index st = Suc m" "n - Suc (p_index st) = m" by (metis Suc_diff_Suc)
    then show ?thesis using True Cons.IH [of "st\<lparr>p_blocks := p_blocks st @ [get32 buf (4 * i)], p_index := p_index st + 1\<rparr>"] by simp
  qed simp
qed simp

lemma read_indirect_done: "n \<le> p_index st \<Longrightarrow> read_singly_indirect F junk n b (st, fs) = Inr (st, fs)"
  "n \<le> p_index st \<Longrightarrow> read_doubly_indirect F junk n b (st, fs) = Inr (st, fs)"
  "n \<le> p_index st \<Longrightarrow> read_triply_indirect F junk n b (st, fs) = Inr (st, fs)"
  by (simp_all add: read_singly_indirect_def read_doubly_indirect_def read_triply_indirect_def)

context block_file
begin

lemma read_block_pointers_ok:
  assumes gd: "good (e_file fs)" and ok: "fs_ok cap (con fs) fs" and n: "length (i_blocks ino) = inode_num_blocks fs ino" "inode_num_blocks fs ino \<le> 12 + block_pointers_per_block fs"
    and st: "pointers_stored (con fs) (inode_num_blocks fs ino) (block_pointers_per_block fs) ino" and p: "plain_file ino"
    and s: "12 < inode_num_blocks fs ino \<longrightarrow> s_pointer (i_raw ino) * e_bs fs + e_bs fs \<le> cap"
    and ino0: "i_raw ino0 = i_raw ino" "i_mode ino0 = i_mode ino" "i_size ino0 = i_size ino"
  obtains fs' where "read_block_pointers F junk (fs, ino0) = Inr (fs', ino0\<lparr>i_blocks := i_blocks ino, i_ptr_blocks := i_ptr_blocks ino\<rparr>)" "quiet fs fs'"
proof -
  let ?n = "inode_num_blocks fs ino" and ?raw = "i_raw ino" and ?s = "s_pointer (i_raw ino)"
  have n0: "inode_num_blocks fs ino0 = ?n" "\<not> (is_symlink ino0 \<and> i_size ino0 < 60)" using p by (auto simp: inode_num_blocks_def is_symlink_def ino0 plain_file_def)
  let ?st = "\<lparr>p_index = min 12 ?n, p_blocks = map (raw_pointer ?raw) [0..<min 12 ?n], p_ptr_blocks = []\<rparr>"
  have dir: "read_direct ?n ?raw [0..<12] \<lparr>p_index = 0, p_blocks = [], p_ptr_blocks = []\<rparr> = ?st" by (subst read_direct_eq) simp_all
  have bl: "map (raw_pointer ?raw) [0..<min 12 ?n] = take 12 (i_blocks ino)"
    using st n(1) by (intro nth_equalityI) (auto simp: pointers_stored_def get_block_pointer_def)
  show ?thesis
  proof (cases "?n \<le> 12")
    case True
    then have "read_block_pointers F junk (fs, ino0) = Inr (fs, ino0\<lparr>i_blocks := i_blocks ino, i_ptr_blocks := i_ptr_blocks ino\<rparr>)"
      using st n(1) bl by (simp add: read_block_pointers_def n0 ino0(1) dir read_indirect_done pointers_stored_def Let_def)
    then show ?thesis using gd by (intro that [of fs]) (simp_all add: quiet_def same_groups_def)
  next
    case False
    obtain d where d: "e2_read F fs ?s (stack_array (e_bs fs) junk) = Inr (None, con fs ?s, fs\<lparr>e_file := d\<rparr>)" "good d" "cells d = cells (e_file fs)"
      by (rule e2_read_ok [OF gd, of ?s "stack_array (e_bs fs) junk"]) (use s False fs_ok_block_size [OF ok] in simp_all)
    have "map (\<lambda>i. get32 (con fs ?s) (4 * i)) (take (?n - 12) [0..<block_pointers_per_block fs]) = drop 12 (i_blocks ino)"
      using st n False by (intro nth_equalityI) (auto simp: pointers_stored_def get_block_pointer_def)
    then have "read_singly_indirect F junk ?n ?s (?st, fs) = Inr (\<lparr>p_index = ?n, p_blocks = i_blocks ino, p_ptr_blocks = [?s]\<rparr>, fs\<lparr>e_file := d\<rparr>)"
      using False d(1) n(2) bl append_take_drop_id [of 12 "i_blocks ino"] by (simp add: read_singly_indirect_def read_entries_eq)
    then have "read_block_pointers F junk (fs, ino0) = Inr (fs\<lparr>e_file := d\<rparr>, ino0\<lparr>i_blocks := i_blocks ino, i_ptr_blocks := i_ptr_blocks ino\<rparr>)"
      using st False by (simp add: read_block_pointers_def n0 ino0(1) dir read_indirect_done pointers_stored_def Let_def)
    then show ?thesis using quiet_file [OF d(2,3)] by (rule that)
  qed
qed

lemma inode_load_ok:
  assumes gd: "good (e_file fs)" and ok: "fs_ok cap (con fs) fs" and loc: "inode_located cap (con fs) fs (i_id ino)" and st: "inode_stored (con fs) fs ino"
    and n: "length (i_blocks ino) = inode_num_blocks fs ino" "inode_num_blocks fs ino \<le> 12 + block_pointers_per_block fs" and p: "plain_file ino"
    and s: "12 < inode_num_blocks fs ino \<longrightarrow> s_pointer (i_raw ino) * e_bs fs + e_bs fs \<le> cap"
  obtains fs' where "inode_load F junk fs (i_id ino) = Inr (fs', ino\<lparr>i_dev := (0, 0), i_dirty := False, i_exists := True\<rparr>)" "quiet fs fs'"
proof -
  let ?b = "table_block (con fs) fs (i_id ino)" and ?o = "inode_slot fs (i_id ino)"
  obtain fs1 where fs1: "inode_place F junk fs (i_id ino) = Inr (?b, ?o, fs1)" "quiet fs fs1" by (rule inode_place_ok [OF gd ok loc])
  note q = quietD [OF fs1(2)] and gD = same_geometryD [OF quietD(4) [OF fs1(2)]] inode_geometry [OF quietD(4) [OF fs1(2)]]
  have b: "?b * e_bs fs1 + e_bs fs1 \<le> cap" "0 < e_bs fs1" using loc fs_ok_block_size [OF ok] by (simp_all add: inode_located_def gD)
  obtain d where d: "read_block F (e_bs fs1) (e_file fs1) ?b (stack_array (e_bs fs1) junk) = Inr (None, con fs1 ?b, d)" "good d" "cells d = cells (e_file fs1)"
    by (rule read_block_ok [OF q(1) b length_stack_array])
  let ?fs2 = "fs1\<lparr>e_file := d\<rparr>"
  have q2: "quiet fs ?fs2" by (rule quiet_trans [OF fs1(2) quiet_file [OF d(2,3)]])
  note c2 = quietD(3) [OF q2] and gD2 = same_geometryD [OF quietD(4) [OF q2]] inode_geometry [OF quietD(4) [OF q2]]
  have rd: "fs_read_blocks F (e_bs fs1) (e_file fs1) ?b 1 0 (stack_array (e_bs fs1) junk) = Inr (None, con fs1 ?b, d)"
    using d(1) by (simp add: put_at_def)
  have raw: "take 128 (drop ?o (con fs1 ?b)) = i_raw ino" using st q(3) by (simp add: inode_stored_def)
  let ?ino0 = "\<lparr>i_id = i_id ino, i_raw = i_raw ino, i_mode = i_mode ino, i_size = i_size ino, i_uid = i_uid ino, i_gid = i_gid ino, i_dev = (0, 0),
    i_blocks = [], i_ptr_blocks = [], i_dirty = False, i_exists = True\<rparr>"
  have nd: "\<not> is_device ?ino0" using p by (simp add: plain_file_def is_device_def)
  have meta: "create_metadata \<lparr>i_id = i_id ino, i_raw = i_raw ino, i_mode = 0, i_size = 0, i_uid = 0, i_gid = 0, i_dev = (0, 0),
      i_blocks = [], i_ptr_blocks = [], i_dirty = False, i_exists = True\<rparr> = ?ino0"
    using st nd by (simp add: create_metadata_def inode_stored_def Let_def)
  obtain fs3 where fs3: "read_block_pointers F junk (?fs2, ?ino0) = Inr (fs3, ?ino0\<lparr>i_blocks := i_blocks ino, i_ptr_blocks := i_ptr_blocks ino\<rparr>)" "quiet ?fs2 fs3"
  proof (rule read_block_pointers_ok [of ?fs2 ino ?ino0 junk])
    show "fs_ok cap (con ?fs2) ?fs2" using quietD(6) [OF q2] ok by blast
    show "pointers_stored (con ?fs2) (inode_num_blocks ?fs2 ino) (block_pointers_per_block ?fs2) ino" using st unfolding c2 unfolding gD2 by (simp only: inode_stored_def)
    show "length (i_blocks ino) = inode_num_blocks ?fs2 ino" "inode_num_blocks ?fs2 ino \<le> 12 + block_pointers_per_block ?fs2"
      "12 < inode_num_blocks ?fs2 ino \<longrightarrow> s_pointer (i_raw ino) * e_bs ?fs2 + e_bs ?fs2 \<le> cap" using n s unfolding gD2 by simp_all
  qed (use d(2) p in simp_all)
  have "inode_load F junk fs (i_id ino) = Inr (fs3, ino\<lparr>i_dev := (0, 0), i_dirty := False, i_exists := True\<rparr>)"
    using fs1(1) rd fs3(1) nd by (simp add: inode_load_def raw meta Let_def del: fs_read_blocks.simps)
  then show ?thesis using quiet_trans [OF q2 fs3(2)] by (rule that)
qed

end

end
