(* ===== verification/Ext2Write.thy ===== *)
theory Ext2Write
  imports Ext2Store
begin

text \<open>
  Writing to a file of up to \<open>12 + block_pointers_per_block\<close> blocks, also past its end: the invariant of
  an inode and its blocks, what \<open>truncate\<close> does when it makes a file longer, and the properties of
  \<open>Ext2Inode::read\<close> and \<open>Ext2Inode::write\<close>.
\<close>

section \<open>The invariant of an inode\<close>

definition inode_ok :: "nat \<Rightarrow> (nat \<Rightarrow> byte list) \<Rightarrow> 'd ext2 \<Rightarrow> e2inode \<Rightarrow> bool" where
  "inode_ok cap c fs ino \<longleftrightarrow> file_ok cap fs ino \<and> inode_located cap c fs (i_id ino) \<and> inode_stored c fs ino \<and>
     inode_num_blocks fs ino \<le> 12 + block_pointers_per_block fs \<and> set (i_blocks ino) \<inter> set (i_ptr_blocks ino) = {} \<and>
     (\<forall>b \<in> set (i_blocks ino) \<union> set (i_ptr_blocks ino). file_block_ok cap (e_bs fs) b \<and>
        b \<notin> reserved_blocks c fs \<and> b \<notin> free_block_set c fs \<and> b \<noteq> table_block c fs (i_id ino))"

lemma inode_okD:
  assumes "inode_ok cap c fs ino"
  shows "file_ok cap fs ino" "inode_located cap c fs (i_id ino)" "inode_stored c fs ino" "inode_num_blocks fs ino \<le> 12 + block_pointers_per_block fs"
    "set (i_blocks ino) \<inter> set (i_ptr_blocks ino) = {}"
    "b \<in> set (i_blocks ino) \<union> set (i_ptr_blocks ino) \<Longrightarrow> file_block_ok cap (e_bs fs) b \<and>
        b \<notin> reserved_blocks c fs \<and> b \<notin> free_block_set c fs \<and> b \<noteq> table_block c fs (i_id ino)"
    "plain_file ino" "length (i_blocks ino) = inode_num_blocks fs ino" "length (i_raw ino) = 128" "metadata_ok ino"
    "s_pointer (i_raw ino) \<noteq> 0 \<Longrightarrow> s_pointer (i_raw ino) \<in> set (i_ptr_blocks ino)" "s_pointer (i_raw ino) \<noteq> 0 \<longleftrightarrow> 12 < inode_num_blocks fs ino"
proof -
  show "file_ok cap fs ino" "inode_located cap c fs (i_id ino)" "inode_stored c fs ino" "inode_num_blocks fs ino \<le> 12 + block_pointers_per_block fs"
    "set (i_blocks ino) \<inter> set (i_ptr_blocks ino) = {}"
    "b \<in> set (i_blocks ino) \<union> set (i_ptr_blocks ino) \<Longrightarrow> file_block_ok cap (e_bs fs) b \<and>
        b \<notin> reserved_blocks c fs \<and> b \<notin> free_block_set c fs \<and> b \<noteq> table_block c fs (i_id ino)"
    using assms unfolding inode_ok_def by blast+
  then show "plain_file ino" "length (i_blocks ino) = inode_num_blocks fs ino" "length (i_raw ino) = 128"
    "s_pointer (i_raw ino) \<noteq> 0 \<Longrightarrow> s_pointer (i_raw ino) \<in> set (i_ptr_blocks ino)" "s_pointer (i_raw ino) \<noteq> 0 \<longleftrightarrow> 12 < inode_num_blocks fs ino"
    by (auto simp: file_ok_def plain_file_def inode_stored_def pointers_stored_def split: if_splits)
  show "metadata_ok ino" using \<open>inode_stored c fs ino\<close> get_le_less [of 2 "i_raw ino"] get_le_less [of 4 "i_raw ino"]
    by (auto simp: inode_stored_def metadata_ok_def) (metis, metis, metis, metis)
qed

lemma file_block_ok_less: "file_block_ok cap bs b \<Longrightarrow> cap \<le> 2 ^ 32 \<Longrightarrow> 0 < bs \<Longrightarrow> b < 2 ^ 32"
proof -
  assume a: "file_block_ok cap bs b" "cap \<le> 2 ^ 32" "0 < bs"
  have "b * 1 \<le> b * bs" using a(3) by (intro mult_le_mono2) simp
  then show ?thesis using a unfolding file_block_ok_def by linarith
qed

context block_file
begin

lemma changed_mono: "changed A U fs fs' \<Longrightarrow> U \<subseteq> V \<union> A \<Longrightarrow> changed A V fs fs'"
  unfolding changed_def by blast

lemma inode_ok_changed:
  assumes ch: "changed A U fs fs'" and ok: "inode_ok cap (con fs) fs ino" and U: "U \<inter> insert (table_block (con fs) fs (i_id ino)) (set (i_ptr_blocks ino)) = {}"
  shows "inode_ok cap (con fs') fs' ino"
proof -
  note c = changedD [OF ch] and gD = same_geometryD [OF changedD(3) [OF ch]] inode_geometry [OF changedD(3) [OF ch]] and i = inode_okD [OF ok]
  have loc: "inode_located cap (con fs') fs' (i_id ino)" "table_block (con fs') fs' (i_id ino) = table_block (con fs) fs (i_id ino)"
    using changed_located [OF ch i(2)] by simp_all
  have t: "con fs' (table_block (con fs) fs (i_id ino)) = con fs (table_block (con fs) fs (i_id ino))"
    using c(7) [of "table_block (con fs) fs (i_id ino)"] c(4) U i(2) by (auto simp: inode_located_def)
  have p: "con fs' (s_pointer (i_raw ino)) = con fs (s_pointer (i_raw ino))" if "s_pointer (i_raw ino) \<noteq> 0"
    using c(7) [of "s_pointer (i_raw ino)"] c(4) U i(6) [of "s_pointer (i_raw ino)"] i(11) [OF that] by auto
  have "inode_stored (con fs') fs' ino" using i(3) t p i(12) unfolding inode_stored_def pointers_stored_def loc(2) unfolding gD by auto
  moreover have "file_ok cap fs' ino" using i(1) by (simp add: file_ok_def gD)
  moreover have "b \<notin> free_block_set (con fs') fs'" if "b \<in> set (i_blocks ino) \<union> set (i_ptr_blocks ino)" for b using i(6) [OF that] c(5) by auto
  ultimately show ?thesis using i(4-6) loc c(6) unfolding inode_ok_def gD by blast
qed

end

section \<open>Making a file longer\<close>

definition blocks_for :: "'d ext2 \<Rightarrow> nat \<Rightarrow> nat" where
  "blocks_for fs len = (len + (e_bs fs - 1)) div e_bs fs"

lemma num_blocks_eq:
  "plain_file ino \<Longrightarrow> i_size ino + e_bs fs \<le> 2 ^ 32 \<Longrightarrow> 0 < e_bs fs \<Longrightarrow> inode_num_blocks fs ino = blocks_for fs (i_size ino)"
  by (auto simp: blocks_for_def inode_num_blocks_def add32_def plain_file_def)

lemma num_blocks_cong: "i_mode ino' = i_mode ino \<Longrightarrow> i_size ino' = i_size ino \<Longrightarrow> inode_num_blocks fs ino' = inode_num_blocks fs ino"
  by (simp add: inode_num_blocks_def is_symlink_def)

lemma plain_file_longer: "plain_file ino \<Longrightarrow> i_size ino \<le> len \<Longrightarrow> plain_file (ino\<lparr>i_blocks := bs, i_size := len\<rparr>)"
  by (auto simp: plain_file_def is_device_def is_symlink_def)

text \<open>The blocks a longer file needs, with the one for its pointers.\<close>

definition blocks_needed :: "'d ext2 \<Rightarrow> e2inode \<Rightarrow> nat \<Rightarrow> nat" where
  "blocks_needed fs ino len = blocks_for fs len - inode_num_blocks fs ino + (if inode_num_blocks fs ino \<le> 12 \<and> 12 < blocks_for fs len then 1 else 0)"

text \<open>The inode after it has been made longer by the blocks \<open>nb\<close>.\<close>

context block_file
begin

definition grown :: "nat \<Rightarrow> 'd ext2 \<Rightarrow> e2inode \<Rightarrow> 'd ext2 \<Rightarrow> e2inode \<Rightarrow> nat list \<Rightarrow> nat set \<Rightarrow> bool" where
  "grown len fs ino fs' ino' nb A \<longleftrightarrow> inode_ok cap (con fs') fs' ino' \<and> changed A (insert (table_block (con fs) fs (i_id ino)) (set (i_ptr_blocks ino))) fs fs' \<and>
     i_blocks ino' = i_blocks ino @ nb \<and> i_size ino' = len \<and> i_id ino' = i_id ino \<and> set nb \<subseteq> A \<and> (\<forall>b \<in> set nb. con fs' b = replicate (e_bs fs) 0)"

lemma longer_same_blocks:
  assumes gd: "good (e_file fs)" and ok: "fs_ok cap (con fs) fs" and i: "inode_ok cap (con fs) fs ino"
    and len: "i_size ino < len" "len + e_bs fs \<le> 2 ^ 32" "blocks_for fs len = inode_num_blocks fs ino"
  obtains fs' ino' where "write_inode_entry F junk (fs, ino\<lparr>i_size := len\<rparr>) = Inr (fs', ino')" "grown len fs ino fs' ino' [] {}"
proof -
  note d = inode_okD [OF i]
  let ?ino = "ino\<lparr>i_size := len\<rparr>"
  have bs: "0 < e_bs fs" using fs_ok_block_size [OF ok] by simp
  have pl: "plain_file ?ino" using plain_file_longer [OF d(7), of len "i_blocks ino"] len(1) by simp
  have n: "inode_num_blocks fs ?ino = inode_num_blocks fs ino" using num_blocks_eq [OF pl, of fs] bs len by simp
  have g: "get_block_pointer ?ino = get_block_pointer ino" by (rule get_block_pointer_cong) simp
  obtain fs' where w: "write_inode_entry F junk (fs, ?ino) = Inr (fs', ?ino\<lparr>i_raw := entry_of ?ino, i_dirty := False\<rparr>)"
    "changed {} {table_block (con fs) fs (i_id ?ino)} fs fs'" "inode_stored (con fs') fs' (?ino\<lparr>i_raw := entry_of ?ino, i_dirty := False\<rparr>)"
  proof (rule write_inode_entry_stored [OF gd ok, of ?ino junk])
    show "pointers_stored (con fs) (inode_num_blocks fs ?ino) (block_pointers_per_block fs) ?ino"
      using d(3) unfolding n by (simp add: inode_stored_def pointers_stored_def g)
    show "metadata_ok ?ino" using d(10) len bs by (simp add: metadata_ok_def)
  qed (use d(2,6,11) in auto)
  let ?ino' = "?ino\<lparr>i_raw := entry_of ?ino, i_dirty := False\<rparr>" and ?t = "table_block (con fs) fs (i_id ino)"
  have ch: "changed {} {?t} fs fs'" using w(2) by simp
  note c = changedD [OF ch] and gD = same_geometryD [OF changedD(3) [OF ch]] inode_geometry [OF changedD(3) [OF ch]]
  have "inode_num_blocks fs ?ino' = inode_num_blocks fs ?ino" by (rule num_blocks_cong) simp_all
  then have "inode_num_blocks fs ?ino' = inode_num_blocks fs ino" using n by simp
  then have "inode_ok cap (con fs') fs' ?ino'"
    using w(3) changed_located [OF ch d(2)] d(1,4-6) pl len(2) c(5,6) unfolding inode_ok_def gD
    by (simp add: file_ok_def gD plain_file_def is_device_def is_symlink_def)
  then have "grown len fs ino fs' ?ino' [] {}" using changed_mono [OF ch] by (simp add: grown_def)
  with w(1) show ?thesis by (rule that)
qed

lemma longer_file_ok:
  assumes f: "file_ok cap fs ino" and nb: "distinct nb" "\<forall>b \<in> set nb. file_block_ok cap (e_bs fs) b" "set nb \<inter> set (i_blocks ino) = {}"
    and ino': "i_blocks ino' = i_blocks ino @ nb" "i_size ino' = len" "i_mode ino' = i_mode ino" "i_exists ino' = i_exists ino"
    and len: "i_size ino \<le> len" "len + e_bs fs \<le> 2 ^ 32" "blocks_for fs len = length (i_blocks ino) + length nb"
  shows "file_ok cap fs ino'"
proof -
  have p: "plain_file ino'" using f len(1) ino' by (auto simp: file_ok_def plain_file_def is_device_def is_symlink_def)
  then have "inode_num_blocks fs ino' = blocks_for fs len" using num_blocks_eq [OF p, of fs] file_okD(1) [OF f] ino' len by simp
  then show ?thesis using f p nb ino' len by (auto simp: file_ok_def plain_file_def)
qed

text \<open>The new blocks \<open>nb\<close> are none of the old ones.\<close>

lemma new_blocks:
  assumes ok: "fs_ok cap (con fs) fs" and i: "inode_ok cap (con fs) fs ino" and ch: "changed (set nb) {} fs fs1"
  shows "\<forall>b \<in> set nb. file_block_ok cap (e_bs fs) b \<and> b \<notin> reserved_blocks (con fs) fs" "set nb \<inter> (set (i_blocks ino) \<union> set (i_ptr_blocks ino)) = {}"
    "table_block (con fs) fs (i_id ino) \<notin> set nb"
  using fs_okD(4) [OF ok] inode_okD(2,6) [OF i] changedD(4) [OF ch] by (auto simp: file_block_ok_def inode_located_def)

lemma grow_writable:
  assumes ok: "fs_ok cap (con fs) fs" and i: "inode_ok cap (con fs) fs ino" and ch: "changed (set nb) {} fs fs1"
    and nb: "distinct nb" "length nb = blocks_for fs len - inode_num_blocks fs ino"
    and len: "i_size ino < len" "len + e_bs fs \<le> 2 ^ 32" "blocks_for fs len \<le> 12 + block_pointers_per_block fs"
    and room: "blocks_needed fs ino len \<le> card (free_block_set (con fs) fs)"
  defines "ino1 \<equiv> ino\<lparr>i_blocks := i_blocks ino @ nb, i_size := len\<rparr>"
  shows "plain_file ino1" "inode_num_blocks fs ino1 = blocks_for fs len" "indirect_ok cap (con fs1) fs1 ino1" "metadata_ok ino1"
proof -
  note d = inode_okD [OF i] and c1 = changedD [OF ch] and gD = same_geometryD [OF changedD(3) [OF ch]] inode_geometry [OF changedD(3) [OF ch]]
  have i1: "inode_ok cap (con fs1) fs1 ino" by (rule inode_ok_changed [OF ch i]) simp
  have bs: "0 < e_bs fs" using fs_ok_block_size [OF ok] by simp
  show pl: "plain_file ino1" unfolding ino1_def using plain_file_longer [OF d(7)] len(1) by simp
  show n1: "inode_num_blocks fs ino1 = blocks_for fs len" using num_blocks_eq [OF pl, of fs] bs len by (simp add: ino1_def)
  have "card (free_block_set (con fs1) fs1) = card (free_block_set (con fs) fs) - (blocks_for fs len - inode_num_blocks fs ino)"
    using c1(4,5) nb by (simp add: card_Diff_subset distinct_card)
  then have more: "free_block_set (con fs1) fs1 \<noteq> {}" if "inode_num_blocks fs ino \<le> 12" "12 < blocks_for fs len"
    using room that by (auto simp: blocks_needed_def)
  have gbp: "get_block_pointer ino1 k < 2 ^ 32" for k
    using file_block_ok_less [OF _ cap_bound bs] new_blocks(1) [OF ok i ch] d(6) by (auto simp: get_block_pointer_def nth_append ino1_def)
  have raw: "i_raw ino1 = i_raw ino" by (simp add: ino1_def)
  show "indirect_ok cap (con fs1) fs1 ino1"
    using gbp len(3) d(9) more d(12) inode_okD(6) [OF i1, of "s_pointer (i_raw ino)"] d(11) unfolding indirect_ok_def gD n1 raw
    by (auto simp: file_block_ok_def gD)
  show "metadata_ok ino1" using d(10) len bs by (simp add: metadata_ok_def ino1_def)
qed

lemma grow_stored:
  assumes ok: "fs_ok cap (con fs) fs" and i: "inode_ok cap (con fs) fs ino" and a: "allocated True (set nb) fs fs1" "distinct nb" "length nb = blocks_for fs len - inode_num_blocks fs ino"
    and len: "i_size ino < len" "len + e_bs fs \<le> 2 ^ 32" "inode_num_blocks fs ino < blocks_for fs len" "blocks_for fs len \<le> 12 + block_pointers_per_block fs"
    and ino2: "ino2 = ino\<lparr>i_blocks := i_blocks ino @ nb, i_size := len, i_raw := i_raw ino2, i_ptr_blocks := P, i_dirty := False\<rparr>"
    and ch2: "changed A (insert (table_block (con fs) fs (i_id ino)) (set P)) fs1 fs2" and stored: "inode_stored (con fs2) fs2 ino2"
    and Ps: "set P \<subseteq> A \<union> set (i_ptr_blocks ino)"
    and P: "\<forall>b \<in> set P. file_block_ok cap (e_bs fs) b \<and> b \<notin> reserved_blocks (con fs) fs \<and> b \<notin> free_block_set (con fs2) fs2 \<and> b \<noteq> table_block (con fs) fs (i_id ino)"
  shows "grown len fs ino fs2 ino2 nb (set nb \<union> A)"
proof -
  let ?t = "table_block (con fs) fs (i_id ino)"
  have ch1: "changed (set nb) {} fs fs1" by (rule changed_allocated [OF a(1)])
  note d = inode_okD [OF i] and c1 = changedD [OF ch1] and nbok = new_blocks [OF ok i ch1]
  have A: "A \<subseteq> free_block_set (con fs) fs - set nb" using changedD(4) [OF ch2] unfolding c1(5) .
  have ch: "changed (set nb \<union> A) (insert ?t (set (i_ptr_blocks ino))) fs fs2" by (rule changed_mono [OF changed_trans [OF ch1 ch2]]) (use Ps in auto)
  note c = changedD [OF ch] and gD2 = same_geometryD [OF changedD(3) [OF ch]] inode_geometry [OF changedD(3) [OF ch]]
  have zero: "con fs2 b = replicate (e_bs fs) 0" if "b \<in> set nb" for b
  proof -
    have "b \<notin> A" "b \<notin> set P" "b \<noteq> ?t" using that A Ps nbok(2,3) by blast+
    moreover have "b \<notin> reserved_blocks (con fs1) fs1" using that nbok(1) unfolding c1(6) by blast
    ultimately have "con fs2 b = con fs1 b" using changedD(7) [OF ch2] by blast
    then show ?thesis using a(1) that by (simp add: allocated_def)
  qed
  have i2: "i_blocks ino2 = i_blocks ino @ nb" "i_size ino2 = len" "i_mode ino2 = i_mode ino" "i_exists ino2 = i_exists ino" "i_id ino2 = i_id ino" "i_ptr_blocks ino2 = P"
    by (subst ino2, simp)+
  have "file_ok cap fs ino2" by (rule longer_file_ok [OF d(1) a(2) _ _ i2(1-4)]) (use nbok len a(3) d(8) in auto)
  then have f: "file_ok cap fs2 ino2" by (simp add: file_ok_def gD2)
  then have "inode_num_blocks fs2 ino2 = blocks_for fs len" using len(3) a(3) d(8) by (simp add: file_ok_def i2)
  then have n2: "inode_num_blocks fs2 ino2 \<le> 12 + block_pointers_per_block fs2" using len(4) by (simp add: gD2)
  have dis: "set (i_blocks ino2) \<inter> set (i_ptr_blocks ino2) = {}" unfolding i2 using Ps A d(5,6) nbok(2) by auto
  have bl: "file_block_ok cap (e_bs fs) b \<and> b \<notin> reserved_blocks (con fs) fs \<and> b \<notin> free_block_set (con fs2) fs2 \<and> b \<noteq> ?t"
    if "b \<in> set (i_blocks ino2) \<union> set (i_ptr_blocks ino2)" for b using that P d(6) [of b] nbok c(5) by (auto simp: i2)
  have loc2: "inode_located cap (con fs2) fs2 (i_id ino2)" "table_block (con fs2) fs2 (i_id ino2) = ?t" unfolding i2(5) by (rule changed_located [OF ch d(2)])+
  have bl2: "\<forall>b \<in> set (i_blocks ino2) \<union> set (i_ptr_blocks ino2). file_block_ok cap (e_bs fs2) b \<and>
        b \<notin> reserved_blocks (con fs2) fs2 \<and> b \<notin> free_block_set (con fs2) fs2 \<and> b \<noteq> table_block (con fs2) fs2 (i_id ino2)"
    using bl unfolding c(6) loc2(2) unfolding gD2(1) by blast
  have "inode_ok cap (con fs2) fs2 ino2" unfolding inode_ok_def by (intro conjI f loc2(1) stored n2 dis bl2)
  then show ?thesis using ch zero i2 by (simp add: grown_def)
qed

lemma truncate_grow_ok:
  assumes gd: "good (e_file fs)" and ok: "fs_ok cap (con fs) fs" and i: "inode_ok cap (con fs) fs ino"
    and len: "i_size ino < len" "len + e_bs fs \<le> 2 ^ 32" "inode_num_blocks fs ino < blocks_for fs len" "blocks_for fs len \<le> 12 + block_pointers_per_block fs"
    and room: "blocks_needed fs ino len \<le> card (free_block_set (con fs) fs)"
  obtains fs' ino' nb A where "truncate_grow F junk len (blocks_for fs len) (fs, ino) = Inr (None, fs', ino')" "grown len fs ino fs' ino' nb A"
proof -
  note d = inode_okD [OF i]
  let ?w = "blocks_for fs len - inode_num_blocks fs ino" and ?t = "table_block (con fs) fs (i_id ino)"
  have w: "0 < ?w" "?w \<le> card (free_block_set (con fs) fs)" using len(3) room by (auto simp: blocks_needed_def)
  obtain nb fs1 where a: "allocate_blocks F junk fs ?w True = Inr (Inr nb, fs1)" "allocated True (set nb) fs fs1" "distinct nb" "length nb = ?w"
    using allocate_blocks_ok [OF gd ok w(1), of junk True] w(2) by auto
  have ch1: "changed (set nb) {} fs fs1" by (rule changed_allocated [OF a(2)])
  note c1 = changedD [OF ch1] and gD = same_geometryD [OF changedD(3) [OF ch1]]
  let ?ino1 = "ino\<lparr>i_blocks := i_blocks ino @ nb, i_size := len\<rparr>"
  note gw = grow_writable [OF ok i ch1 a(3,4) len(1,2,4) room]
  have loc1: "inode_located cap (con fs1) fs1 (i_id ?ino1)" "table_block (con fs1) fs1 (i_id ?ino1) = ?t" using changed_located [OF ch1 d(2)] by simp_all
  have sp: "s_pointer (i_raw ?ino1) = 0 \<or> s_pointer (i_raw ?ino1) \<noteq> table_block (con fs1) fs1 (i_id ?ino1)" unfolding loc1(2) using d(6,11) by auto
  obtain A P ino2 fs2 where wd: "write_to_disk F junk (fs1, ?ino1) = Inr (None, fs2, ino2)"
    "ino2 = ?ino1\<lparr>i_raw := i_raw ino2, i_ptr_blocks := P, i_dirty := False\<rparr>" "changed A (insert (table_block (con fs1) fs1 (i_id ?ino1)) (set P)) fs1 fs2"
    "inode_stored (con fs2) fs2 ino2" "A \<subseteq> set P" "set P \<subseteq> A \<union> {s_pointer (i_raw ?ino1)}"
    "\<forall>b \<in> set P. file_block_ok cap (e_bs fs1) b \<and> b \<notin> reserved_blocks (con fs1) fs1 \<and> b \<notin> free_block_set (con fs2) fs2 \<and> b \<noteq> table_block (con fs1) fs1 (i_id ?ino1)"
    by (rule write_to_disk_ok [OF c1(1,2) gw(1,3,4) loc1(1) sp, of junk])
  have P: "\<forall>b \<in> set P. file_block_ok cap (e_bs fs) b \<and> b \<notin> reserved_blocks (con fs) fs \<and> b \<notin> free_block_set (con fs2) fs2 \<and> b \<noteq> ?t"
    using wd(7) unfolding loc1(2) c1(6) unfolding gD(1) .
  have Ps: "set P \<subseteq> A \<union> set (i_ptr_blocks ino)" using wd(6) P d(11) by (auto simp: file_block_ok_def)
  have g: "grown len fs ino fs2 ino2 nb (set nb \<union> A)"
    by (rule grow_stored [OF ok i a(2-4) len wd(2) wd(3) [unfolded loc1(2)] wd(4) Ps P])
  show ?thesis using wd(1) a(1,4) by (intro that [OF _ g]) (simp add: truncate_grow_def Let_def)
qed

lemma truncate_longer_ok:
  assumes gd: "good (e_file fs)" and ok: "fs_ok cap (con fs) fs" and i: "inode_ok cap (con fs) fs ino"
    and len: "i_size ino < len" "len + e_bs fs \<le> 2 ^ 32" "blocks_for fs len \<le> 12 + block_pointers_per_block fs"
    and room: "blocks_needed fs ino len \<le> card (free_block_set (con fs) fs)"
  obtains fs' ino' nb A where "inode_truncate F junk (int len) (fs, ino) = Inr (None, fs', ino')" "grown len fs ino fs' ino' nb A"
proof -
  have bs: "0 < e_bs fs" using fs_ok_block_size [OF ok] by simp
  have n: "inode_num_blocks fs ino \<le> blocks_for fs len"
    using num_blocks_eq [OF inode_okD(7) [OF i], of fs] len bs unfolding blocks_for_def by (auto intro: div_le_mono)
  have new: "add32 len (e_bs fs - 1) div e_bs fs = blocks_for fs len" using len bs by (simp add: add32_def blocks_for_def)
  show ?thesis
  proof (cases "inode_num_blocks fs ino = blocks_for fs len")
    case True
    obtain fs' ino' where "write_inode_entry F junk (fs, ino\<lparr>i_size := len\<rparr>) = Inr (fs', ino')" "grown len fs ino fs' ino' [] {}"
      by (rule longer_same_blocks [OF gd ok i len(1,2) True [symmetric]])
    then show ?thesis using True len(1) bs by (intro that [of fs' ino' "[]" "{}"]) (simp_all add: inode_truncate_def new [unfolded One_nat_def] Let_def)
  next
    case False
    then have lt: "inode_num_blocks fs ino < blocks_for fs len" using n by simp
    obtain fs' ino' nb A where "truncate_grow F junk len (blocks_for fs len) (fs, ino) = Inr (None, fs', ino')" "grown len fs ino fs' ino' nb A"
      by (rule truncate_grow_ok [OF gd ok i len(1,2) lt len(3) room])
    then show ?thesis using lt len(1) bs by (intro that [of fs' ino' nb A]) (simp_all add: inode_truncate_def new [unfolded One_nat_def] Let_def)
  qed
qed

section \<open>Writing\<close>

text \<open>The write itself, once the file is long enough.\<close>

lemma write_keeps_inode:
  assumes ok: "fs_ok cap (con fs) fs" and i: "inode_ok cap (con fs) fs ino" and d: "good d"
    "file_written (e_bs fs) ino start data (con fs) (file_block (cells d) (e_bs fs))" and x: "start + length data \<le> i_size ino"
  shows "changed {} (set (i_blocks ino)) fs (fs\<lparr>e_file := d\<rparr>)" "inode_ok cap (con (fs\<lparr>e_file := d\<rparr>)) (fs\<lparr>e_file := d\<rparr>) ino"
proof -
  note i' = inode_okD [OF i] and f = file_okD [OF inode_okD(1) [OF i]]
  have same: "file_block (cells d) (e_bs fs) b = con fs b" if b: "b \<notin> set (i_blocks ino)" for b
  proof (rule nth_equalityI)
    fix j assume "j < length (file_block (cells d) (e_bs fs) b)"
    moreover have "get_block_pointer ino ((start + k) div e_bs fs) \<noteq> b" if "k < length data" for k
      using f(6,7) [of "start + k"] that x b by auto
    ultimately show "file_block (cells d) (e_bs fs) b ! j = con fs b ! j" using d(2) by (simp add: file_written_def)
  qed simp
  show ch: "changed {} (set (i_blocks ino)) fs (fs\<lparr>e_file := d\<rparr>)" by (rule changed_write [OF ok d(1) same]) (use i'(6) in auto)
  show "inode_ok cap (con (fs\<lparr>e_file := d\<rparr>)) (fs\<lparr>e_file := d\<rparr>) ino" by (rule inode_ok_changed [OF ch i]) (use i'(5,6) in auto)
qed

lemma written_bytes:
  assumes f: "file_ok cap fs ino" and w: "file_written (e_bs fs) ino start data c c'" and k: "k < i_size ino" "start + length data \<le> i_size ino"
  shows "inode_byte c' (e_bs fs) ino k = (if start \<le> k \<and> k < start + length data then data ! (k - start) else inode_byte c (e_bs fs) ino k)"
proof (cases "start \<le> k \<and> k < start + length data")
  case True
  then show ?thesis using w unfolding file_written_def by (auto dest: spec [of _ "k - start"])
next
  case False
  have "k = start + j" if "j < length data" "get_block_pointer ino ((start + j) div e_bs fs) = get_block_pointer ino (k div e_bs fs)" "(start + j) mod e_bs fs = k mod e_bs fs" for j
  proof -
    have "(start + j) div e_bs fs = k div e_bs fs" by (rule inj_onD [OF file_okD(9) [OF f] that(2)]) (use that k in auto)
    then show ?thesis using that(3) by (metis div_mult_mod_eq)
  qed
  then have "\<not> (get_block_pointer ino ((start + j) div e_bs fs) = get_block_pointer ino (k div e_bs fs) \<and> (start + j) mod e_bs fs = k mod e_bs fs)" if "j < length data" for j
    using False that by fastforce
  then show ?thesis using False w file_okD(1) [OF f] by (auto simp: file_written_def inode_byte_def)
qed

lemma grown_bytes:
  assumes i: "inode_ok cap (con fs) fs ino" and g: "grown len fs ino fs' ino' nb A" and k: "k < len"
  shows "inode_byte (con fs') (e_bs fs) ino' k = (if k div e_bs fs < length (i_blocks ino) then inode_byte (con fs) (e_bs fs) ino k else 0)"
proof -
  have ch: "changed A (insert (table_block (con fs) fs (i_id ino)) (set (i_ptr_blocks ino))) fs fs'" and ok': "inode_ok cap (con fs') fs' ino'"
    and i': "i_blocks ino' = i_blocks ino @ nb" "i_size ino' = len" and zero: "\<forall>b \<in> set nb. con fs' b = replicate (e_bs fs) 0"
    using g by (simp_all add: grown_def)
  note gD = same_geometryD [OF changedD(3) [OF ch]]
  have bs: "0 < e_bs fs" using inode_okD(1) [OF i] by (simp add: file_ok_def)
  show ?thesis
  proof (cases "k div e_bs fs < length (i_blocks ino)")
    case True
    let ?b = "i_blocks ino ! (k div e_bs fs)"
    have b: "?b \<in> set (i_blocks ino)" using True by simp
    have "con fs' ?b = con fs ?b" by (rule changedD(7) [OF ch]) (use inode_okD(5) [OF i] inode_okD(6) [OF i, of ?b] b changedD(4) [OF ch] in auto)
    then show ?thesis using True by (simp add: inode_byte_def get_block_pointer_def i' nth_append)
  next
    case False
    have "k div e_bs fs < length (i_blocks ino')" using file_okD(6) [OF inode_okD(1) [OF ok'], of k] k by (simp add: i' gD)
    then show ?thesis using False zero bs by (simp add: inode_byte_def get_block_pointer_def i' nth_append)
  qed
qed

definition write_fits :: "'d ext2 \<Rightarrow> e2inode \<Rightarrow> nat \<Rightarrow> bool" where
  "write_fits fs ino len \<longleftrightarrow> i_size ino < len \<longrightarrow> len < 2 ^ 31 \<and> len + e_bs fs \<le> 2 ^ 32 \<and> blocks_for fs len \<le> 12 + block_pointers_per_block fs \<and>
     blocks_needed fs ino len \<le> card (free_block_set (con fs) fs)"

definition write_done :: "'d ext2 \<Rightarrow> e2inode \<Rightarrow> nat \<Rightarrow> byte list \<Rightarrow> 'd ext2 \<Rightarrow> e2inode \<Rightarrow> bool" where
  "write_done fs ino start data fs' ino' \<longleftrightarrow> good (e_file fs') \<and> fs_ok cap (con fs') fs' \<and> inode_ok cap (con fs') fs' ino' \<and> e_bs fs' = e_bs fs \<and>
     i_id ino' = i_id ino \<and> i_size ino' = max (i_size ino) (start + length data) \<and>
     (\<forall>k < i_size ino'. inode_byte (con fs') (e_bs fs) ino' k =
        (if start \<le> k \<and> k < start + length data then data ! (k - start)
         else if k div e_bs fs < length (i_blocks ino) then inode_byte (con fs) (e_bs fs) ino k else 0)) \<and>
     (\<forall>b. b \<notin> reserved_blocks (con fs) fs \<union> free_block_set (con fs) fs \<union> set (i_blocks ino) \<union> set (i_ptr_blocks ino) \<union> {table_block (con fs) fs (i_id ino)} \<longrightarrow>
        con fs' b = con fs b)"

lemma write_done_grown:
  assumes i: "inode_ok cap (con fs) fs ino" and g: "grown (max (i_size ino) (start + length data)) fs ino fs1 ino1 nb A"
    and w: "good d" "file_written (e_bs fs1) ino1 start data (con fs1) (file_block (cells d) (e_bs fs1))"
  shows "write_done fs ino start data (fs1\<lparr>e_file := d\<rparr>) ino1"
proof -
  let ?fs2 = "fs1\<lparr>e_file := d\<rparr>"
  have ch: "changed A (insert (table_block (con fs) fs (i_id ino)) (set (i_ptr_blocks ino))) fs fs1" and ok1: "inode_ok cap (con fs1) fs1 ino1"
    and i1: "i_blocks ino1 = i_blocks ino @ nb" "i_size ino1 = max (i_size ino) (start + length data)" "i_id ino1 = i_id ino"
    using g by (simp_all add: grown_def)
  have gD: "e_bs fs1 = e_bs fs" by (rule same_geometryD(1) [OF changedD(3) [OF ch]])
  have x: "start + length data \<le> i_size ino1" by (simp add: i1)
  note kept = write_keeps_inode [OF changedD(2) [OF ch] ok1 w x]
  note c2 = changedD [OF changed_trans [OF ch kept(1)]]
  have "inode_byte (con ?fs2) (e_bs fs) ino1 k = (if start \<le> k \<and> k < start + length data then data ! (k - start)
      else if k div e_bs fs < length (i_blocks ino) then inode_byte (con fs) (e_bs fs) ino k else 0)" if "k < i_size ino1" for k
    using written_bytes [OF inode_okD(1) [OF ok1] w(2) that x] grown_bytes [OF i g, of k] that by (simp add: gD i1)
  moreover have "con ?fs2 b = con fs b" if "b \<notin> reserved_blocks (con fs) fs \<union> free_block_set (con fs) fs \<union> set (i_blocks ino) \<union> set (i_ptr_blocks ino) \<union> {table_block (con fs) fs (i_id ino)}" for b
    by (rule c2(7)) (use that i1(1) changedD(4) [OF ch] g in \<open>auto simp: grown_def\<close>)
  ultimately show ?thesis using c2(1,2) kept(2) i1 unfolding write_done_def by (simp add: gD)
qed

lemma inode_write_ok:
  assumes gd: "good (e_file fs)" and ok: "fs_ok cap (con fs) fs" and i: "inode_ok cap (con fs) fs ino"
    and data: "data \<noteq> []" and fits: "write_fits fs ino (start + length data)"
  obtains fs' ino' where "inode_write F junk start (length data) data (fs, ino) = Inr (Inr (length data), fs', ino')" "write_done fs ino start data fs' ino'"
proof -
  let ?len = "start + length data"
  note f = file_okD [OF inode_okD(1) [OF i]] and result = that
  have less: "max (i_size ino) ?len < 2 ^ 32" using f(1,5) fits by (auto simp: write_fits_def)
  then have e: "add32 start (length data) = ?len" by (simp add: add32_def)
  have kind: "\<not> is_device ino" "i_exists ino" "length data \<noteq> 0" "\<not> (is_symlink ino \<and> max (i_size ino) ?len < 60)" using f(2-4) data by auto
  have loop: thesis if t: "(if i_size ino < ?len then inode_truncate F junk (int ?len) (fs, ino) else Inr (None, fs, ino)) = Inr (None, fs1, ino1)"
      and g: "grown (max (i_size ino) ?len) fs ino fs1 ino1 nb A" for fs1 ino1 nb A
  proof -
    have ok1: "inode_ok cap (con fs1) fs1 ino1" "good (e_file fs1)" "?len \<le> i_size ino1" using g changedD(1) by (auto simp: grown_def)
    obtain d where d: "inode_write_loop F ino1 start data (length data) (length data) (start div e_bs fs1) (stack_array (e_bs fs1) junk) fs1 = Inr (None, fs1\<lparr>e_file := d\<rparr>)"
      "good d" "file_written (e_bs fs1) ino1 start data (con fs1) (file_block (cells d) (e_bs fs1))"
      by (rule inode_write_loop_file [OF inode_okD(1) [OF ok1(1)] ok1(2,3)])
    have o: "off_of start + off_of (length data) = int ?len" if "i_size ino < ?len" using fits that by (simp add: write_fits_def off_of_def)
    have "inode_write F junk start (length data) data (fs, ino) = Inr (Inr (length data), fs1\<lparr>e_file := d\<rparr>, ino1)"
      using kind t o d(1) fits by (cases "i_size ino < ?len") (auto simp: inode_write_def e Let_def write_fits_def)
    then show thesis using write_done_grown [OF i g d(2,3)] by (rule result)
  qed
  show ?thesis
  proof (cases "i_size ino < ?len")
    case True
    then have len: "?len + e_bs fs \<le> 2 ^ 32" "blocks_for fs ?len \<le> 12 + block_pointers_per_block fs" "blocks_needed fs ino ?len \<le> card (free_block_set (con fs) fs)"
      using fits by (simp_all add: write_fits_def)
    obtain fs1 ino1 nb A where "inode_truncate F junk (int ?len) (fs, ino) = Inr (None, fs1, ino1)" "grown ?len fs ino fs1 ino1 nb A"
      by (rule truncate_longer_ok [OF gd ok i True len])
    then show ?thesis using True by (intro loop [of fs1 ino1 nb A]) (simp_all add: max_def)
  next
    case False
    have "grown (max (i_size ino) ?len) fs ino fs ino [] {}"
      using False i changed_mono [OF changed_quiet [OF _ ok, of fs]] gd by (simp add: grown_def quiet_def same_groups_def max_def)
    then show ?thesis using False by (intro loop [of fs ino "[]" "{}"]) simp_all
  qed
qed

lemma write_load_read_ok:
  assumes gd: "good (e_file fs)" and ok: "fs_ok cap (con fs) fs" and i: "inode_ok cap (con fs) fs ino"
    and data: "data \<noteq> []" and fits: "write_fits fs ino (start + length data)" and buf: "length data \<le> length buffer"
  obtains fs1 ino1 fs2 ino2 fs3 where "inode_write F junk start (length data) data (fs, ino) = Inr (Inr (length data), fs1, ino1)"
    "inode_load F junk fs1 (i_id ino) = Inr (fs2, ino2)" "i_size ino2 = max (i_size ino) (start + length data)"
    "inode_read F junk start (length data) buffer (fs2, ino2) = Inr (Inr (length data), put_at buffer 0 data, fs3)"
proof -
  obtain fs1 ino1 where w: "inode_write F junk start (length data) data (fs, ino) = Inr (Inr (length data), fs1, ino1)" "write_done fs ino start data fs1 ino1"
    by (rule inode_write_ok [OF gd ok i data fits])
  have o: "good (e_file fs1)" "fs_ok cap (con fs1) fs1" "inode_ok cap (con fs1) fs1 ino1" "i_id ino1 = i_id ino" "i_size ino1 = max (i_size ino) (start + length data)"
    and bytes: "\<And>k. k < length data \<Longrightarrow> inode_byte (con fs1) (e_bs fs1) ino1 (start + k) = data ! k" using w(2) by (auto simp: write_done_def)
  note d = inode_okD [OF o(3)]
  let ?ino2 = "ino1\<lparr>i_dev := (0, 0), i_dirty := False, i_exists := True\<rparr>"
  obtain fs2 where l: "inode_load F junk fs1 (i_id ino1) = Inr (fs2, ?ino2)" "quiet fs1 fs2"
    by (rule inode_load_ok [OF o(1,2) d(2,3,8,4,7)]) (use d(6,11,12) in \<open>auto simp: file_block_ok_def\<close>)
  note q = quietD [OF l(2)] and gD = same_geometryD [OF quietD(4) [OF l(2)]] inode_geometry [OF quietD(4) [OF l(2)]]
  have n2: "inode_num_blocks fs1 ?ino2 = inode_num_blocks fs1 ino1" by (rule num_blocks_cong) simp_all
  have f2: "file_ok cap fs2 ?ino2" using d(1) unfolding file_ok_def gD n2 by (simp add: is_device_def is_symlink_def)
  have x: "start \<le> i_size ?ino2" "start + length data < 2 ^ 32" "min (length data) (i_size ?ino2 - start) = length data"
    using file_okD(1,5) [OF d(1)] by (simp_all add: o(5))
  obtain d3 where r: "inode_read F junk start (length data) buffer (fs2, ?ino2) =
      Inr (Inr (min (length data) (i_size ?ino2 - start)), put_at buffer 0 (inode_bytes (con fs2) (e_bs fs2) ?ino2 start (min (length data) (i_size ?ino2 - start))), fs2\<lparr>e_file := d3\<rparr>)"
    by (rule inode_read_ok [OF f2 q(1) x(1,2) buf])
  have "get_block_pointer ?ino2 = get_block_pointer ino1" by (rule get_block_pointer_cong) simp
  then have "inode_bytes (con fs2) (e_bs fs2) ?ino2 start (length data) = data"
    using bytes unfolding q(3) unfolding gD by (intro nth_equalityI) (simp_all add: inode_bytes_def inode_byte_def)
  then have "inode_read F junk start (length data) buffer (fs2, ?ino2) = Inr (Inr (length data), put_at buffer 0 data, fs2\<lparr>e_file := d3\<rparr>)"
    using r unfolding x(3) by simp
  from that [OF w(1) l(1) [unfolded o(4)] _ this] show ?thesis by (simp add: o(5))
qed

end

section \<open>Properties\<close>

text \<open>
  C38. \<open>Ext2Inode::read\<close> on a file with its blocks in place, for a range that starts in the file and
  does not wrap around: it returns the number of bytes asked for, or up to the end of the file, puts
  exactly those bytes of the file into the buffer, and leaves the disk as it is.
\<close>

theorem ext2_inode_read:
  assumes "block_file F good cells cap" "good (e_file fs)" "file_ok cap fs ino" "start \<le> i_size ino" "start + count < 2 ^ 32" "count \<le> length buffer"
    "n = min count (i_size ino - start)"
  shows "\<exists>fs'. inode_read F junk start count buffer (fs, ino) = Inr (Inr n, put_at buffer 0 (inode_bytes (fs_blocks cells fs) (e_bs fs) ino start n), fs') \<and>
    good (e_file fs') \<and> fs_blocks cells fs' = fs_blocks cells fs"
proof -
  obtain d where "inode_read F junk start count buffer (fs, ino) =
      Inr (Inr n, put_at buffer 0 (inode_bytes (fs_blocks cells fs) (e_bs fs) ino start n), fs\<lparr>e_file := d\<rparr>)" "good d" "cells d = cells (e_file fs)"
    unfolding assms(7) by (rule block_file.inode_read_ok [OF assms(1,3,2,4-6)])
  then show ?thesis by (intro exI [of _ "fs\<lparr>e_file := d\<rparr>"]) simp
qed


text \<open>
  C15. What has been written is on the disk: after a write of at least one byte under the conditions of
  the property above (an intact file over a file below that reads and writes as documented; if the
  file grows, a length below \<open>2 ^ 31\<close>, at most \<open>12 + block_pointers_per_block\<close> blocks, and enough
  free blocks), the constructor of \<open>Ext2Inode\<close> that
  loads the inode from the inode table gives a file of the same size, and reading the range from it
  gives the bytes that were written.
\<close>

theorem ext2_write_load_read:
  assumes "block_file F good cells cap" "good (e_file fs)" "fs_ok cap (fs_blocks cells fs) fs" "inode_ok cap (fs_blocks cells fs) fs ino"
    "data \<noteq> []" "len = start + length data" "length data \<le> length buffer"
    "i_size ino < len \<Longrightarrow> len < 2 ^ 31 \<and> len + e_bs fs \<le> 2 ^ 32 \<and> blocks_for fs len \<le> 12 + block_pointers_per_block fs \<and>
       blocks_needed fs ino len \<le> card (free_block_set (fs_blocks cells fs) fs)"
  shows "\<exists>fs1 ino1 fs2 ino2 fs3. inode_write F junk start (length data) data (fs, ino) = Inr (Inr (length data), fs1, ino1) \<and>
    inode_load F junk fs1 (i_id ino) = Inr (fs2, ino2) \<and> i_size ino2 = max (i_size ino) len \<and>
    inode_read F junk start (length data) buffer (fs2, ino2) = Inr (Inr (length data), put_at buffer 0 data, fs3)"
proof -
  have fits: "block_file.write_fits cells fs ino (start + length data)" using assms(6,8) by (simp add: block_file.write_fits_def [OF assms(1)])
  obtain fs1 ino1 fs2 ino2 fs3 where "inode_write F junk start (length data) data (fs, ino) = Inr (Inr (length data), fs1, ino1)"
    "inode_load F junk fs1 (i_id ino) = Inr (fs2, ino2)" "i_size ino2 = max (i_size ino) (start + length data)"
    "inode_read F junk start (length data) buffer (fs2, ino2) = Inr (Inr (length data), put_at buffer 0 data, fs3)"
    by (rule block_file.write_load_read_ok [OF assms(1-5) fits assms(7)])
  then show ?thesis unfolding assms(6) by blast
qed

text \<open>An empty file in the filesystem of nine blocks.\<close>

definition small_inode :: e2inode where
  "small_inode = \<lparr>i_id = 1, i_raw = replicate 128 0, i_mode = 0, i_size = 0, i_uid = 0, i_gid = 0, i_dev = (0, 0), i_blocks = [], i_ptr_blocks = [], i_dirty = False, i_exists = True\<rparr>"

lemma small_geometry: "e_bs small_fs = 1024" "num_block_groups small_fs = 1" "superblock small_fs = small_super" "block_pointers_per_block small_fs = 256" "inodes_per_block small_fs = 8"
  by (simp_all add: small_fs_def)

lemma small_blocks: "free_block_set (fs_blocks small_cells small_fs) small_fs = {6, 7, 8}" "reserved_blocks (fs_blocks small_cells small_fs) small_fs = {1, 2, 3}"
proof -
  note view = small_fs_groups [unfolded small_geometry] small_fs_free [unfolded small_geometry]
  have one: "{..<1 :: nat} = {0}" "{..<Suc 0} = {0}" by auto
  show "free_block_set (fs_blocks small_cells small_fs) small_fs = {6, 7, 8}" by (simp add: free_block_set_def free_of_group_def small_geometry one view first_block_def)
  show "reserved_blocks (fs_blocks small_cells small_fs) small_fs = {1, 2, 3}" by (auto simp: reserved_blocks_def small_geometry one view descriptor_block_def)
qed

lemma small_place: "inode_group small_fs 1 = 0" "inode_slot small_fs 1 = 0" "table_block (fs_blocks small_cells small_fs) small_fs 1 = 5"
proof -
  show g: "inode_group small_fs 1 = 0" by (simp add: inode_group_def small_geometry small_super)
  show "inode_slot small_fs 1 = 0" by (simp add: inode_slot_def inode_index_def small_geometry small_super)
  have "inode_block small_fs 1 = 0" by (simp add: inode_block_def inode_index_def small_geometry small_super mul32_def)
  then show "table_block (fs_blocks small_cells small_fs) small_fs 1 = 5" using g small_fs_groups(1) by (simp add: table_block_def) (simp add: small_group_def)
qed

lemma file_block_zero: "(\<And>p. b * bs \<le> p \<Longrightarrow> p < b * bs + bs \<Longrightarrow> c p = 0) \<Longrightarrow> file_block c bs b = replicate bs 0"
  by (intro nth_equalityI) (simp_all add: file_block_def)

lemma get_le_zero: "get_le n (replicate m 0) off = 0"
proof -
  have "of_le (replicate k 0) = 0" for k by (induction k) simp_all
  then show ?thesis by (simp add: get_le_def)
qed

lemma small_inode_ok: "inode_ok 9216 (fs_blocks small_cells small_fs) small_fs small_inode"
proof -
  let ?c = "fs_blocks small_cells small_fs"
  have i: "i_id small_inode = 1" "i_blocks small_inode = []" "i_ptr_blocks small_inode = []" "i_raw small_inode = replicate 128 0" "i_size small_inode = 0"
    "i_mode small_inode = 0" "i_uid small_inode = 0" "i_gid small_inode = 0" "i_exists small_inode" by (simp_all add: small_inode_def)
  have k: "\<not> is_device small_inode" "\<not> is_symlink small_inode" by (simp_all add: is_device_def is_symlink_def mode_type_def i)
  then have n: "inode_num_blocks small_fs small_inode = 0" by (simp add: inode_num_blocks_def small_geometry i add32_def)
  have loc: "inode_located 9216 ?c small_fs 1" unfolding inode_located_def small_place small_blocks by (simp add: small_geometry small_super)
  have "?c 5 = replicate (e_bs small_fs) 0" unfolding small_fs_cells by (rule file_block_zero) (simp_all add: small_geometry)
  then have "take 128 (drop 0 (?c 5)) = replicate 128 0" by (simp add: small_geometry take_replicate)
  then have st: "inode_stored ?c small_fs small_inode"
    unfolding inode_stored_def i small_place pointers_stored_def n by (simp add: get_le_zero s_pointer_def)
  have f: "file_ok 9216 small_fs small_inode" using k n by (simp add: file_ok_def small_geometry i)
  show ?thesis using f loc st n by (simp add: inode_ok_def i)
qed

text \<open>A file of three bytes in the seventh block of the partition.\<close>

definition text_fs :: "(nat \<Rightarrow> byte) disk ext2" where
  "text_fs = small_fs\<lparr>e_file := disk_new (\<lambda>p. if p = 6656 then 97 else if p = 6657 then 98 else if p = 6658 then 99 else 0)\<rparr>"

definition text_inode :: e2inode where
  "text_inode = small_inode\<lparr>i_size := 3, i_blocks := [6]\<rparr>"

lemma text_file_ok: "file_ok 9216 text_fs text_inode"
proof -
  have "\<not> is_device text_inode" "\<not> is_symlink text_inode"
    by (simp_all add: is_device_def is_symlink_def mode_type_def text_inode_def small_inode_def)
  then show ?thesis
    by (simp add: file_ok_def inode_num_blocks_def add32_def text_fs_def small_geometry) (simp add: text_inode_def small_inode_def file_block_ok_def text_fs_def small_geometry)
qed

theorem ext2_inode_read_witness:
  "\<exists>fs'. inode_read small_file [] 1 5 [7, 7, 7, 7, 7] (text_fs, text_inode) = Inr (Inr 2, [98, 99, 7, 7, 7], fs')"
proof -
  have good: "small_good (e_file text_fs)" by (simp add: text_fs_def disk_new_wf)
  have "\<exists>fs'. inode_read small_file [] 1 5 [7, 7, 7, 7, 7] (text_fs, text_inode) =
      Inr (Inr 2, put_at [7, 7, 7, 7, 7] 0 (inode_bytes (fs_blocks small_cells text_fs) (e_bs text_fs) text_inode 1 2), fs') \<and>
      small_good (e_file fs') \<and> fs_blocks small_cells fs' = fs_blocks small_cells text_fs"
    by (rule ext2_inode_read [OF small_file good text_file_ok]) (simp_all add: text_inode_def)
  moreover have "inode_bytes (fs_blocks small_cells text_fs) (e_bs text_fs) text_inode 1 2 = [98, 99]"
    by (simp add: inode_bytes_def inode_byte_def get_block_pointer_def text_inode_def text_fs_def small_geometry small_cells_new file_block_def numeral_2_eq_2 upt_rec)
  ultimately show ?thesis by (auto simp: put_at_def)
qed

lemma small_fits: "blocks_for small_fs 3 = 1" "blocks_needed small_fs small_inode 3 = 1"
  using inode_okD(8) [OF small_inode_ok] by (simp_all add: blocks_needed_def blocks_for_def small_geometry) (simp add: small_inode_def)


theorem ext2_write_load_read_witness:
  "\<exists>fs1 ino1 fs2 ino2 fs3. inode_write small_file [] 0 3 [1, 2, 3] (small_fs, small_inode) = Inr (Inr 3, fs1, ino1) \<and>
     inode_load small_file [] fs1 1 = Inr (fs2, ino2) \<and> inode_read small_file [] 0 3 [0, 0, 0] (fs2, ino2) = Inr (Inr 3, [1, 2, 3], fs3)"
  using ext2_write_load_read [OF small_file small_fs_good small_fs_ok(1) small_inode_ok, of "[1, 2, 3]" 3 0 "[0, 0, 0]" "[]"] small_fits small_fs_ok(2)
  by (auto simp: small_geometry small_inode_def put_at_def numeral_3_eq_3)

end
