(* ===== verification/Ext2Directory.thy ===== *)
theory Ext2Directory
  imports Ext2Write
begin

text \<open>
  Directories of ext2 (\<open>Ext2Inode::iterate_entries\<close>, \<open>find_id\<close>, \<open>write_directory_entries\<close> and
  \<open>add_entry\<close> of \<open>src/kernel/filesystem/ext2/Ext2Inode.cpp\<close>): the entries in the blocks of a directory,
  reading them, searching them and writing them back. A \<open>kstd::string\<close> is the list of its bytes.
\<close>

section \<open>Entries\<close>

record dirent =
  de_id :: nat
  de_type :: nat
  de_name_length :: nat
  de_name :: "byte list"

definition NAME_MAXLEN :: nat where "NAME_MAXLEN = 256"

text \<open>A name as the comparison with a C string sees it.\<close>

definition cstr :: "byte list \<Rightarrow> byte list" where "cstr xs = takeWhile (\<lambda>b. b \<noteq> 0) xs"

text \<open>The constructor writes the terminating zero behind an array that is full.\<close>

definition dirent_new :: "nat \<Rightarrow> nat \<Rightarrow> byte list \<Rightarrow> dirent result" where
  "dirent_new k type ent_name =
     (if length ent_name \<ge> NAME_MAXLEN then Inl Undefined
      else Inr \<lparr>de_id = k, de_type = type, de_name_length = length ent_name, de_name = ent_name\<rparr>)"

text \<open>The entry at \<open>i\<close> in a block, with its \<open>size\<close>.\<close>

definition parse_dirent :: "byte list \<Rightarrow> nat \<Rightarrow> (dirent \<times> nat) result" where
  "parse_dirent buf i =
     (let name_length = min (get_le 1 buf (i + 6)) (NAME_MAXLEN - 1) in
      if length buf < i + 8 + name_length then Inl Undefined
      else Inr (\<lparr>de_id = get32 buf i, de_type = get_le 1 buf (i + 7), de_name_length = name_length, de_name = take name_length (drop (i + 8) buf)\<rparr>,
                get16 buf (i + 4)))"

section \<open>Reading\<close>

text \<open>
  The inner loop of \<open>iterate_entries\<close>; \<open>stop\<close> tells when the callback breaks off, and \<open>acc\<close> are the
  entries it has seen. An entry of size 0 is visited for ever.
\<close>

function iterate_block :: "(dirent \<Rightarrow> bool) \<Rightarrow> nat \<Rightarrow> nat \<Rightarrow> nat \<Rightarrow> byte list \<Rightarrow> nat \<Rightarrow> dirent list \<Rightarrow> (bool \<times> dirent list) result" where
  "iterate_block stop bs start sz buf i acc =
     (if i < bs \<and> start + i < sz then
        rbind (parse_dirent buf i) (\<lambda>(e, n).
        if stop e then Inr (True, acc @ [e])
        else if n = 0 then Inl Diverges
        else iterate_block stop bs start sz buf (i + n) (acc @ [e]))
      else Inr (False, acc))"
  by pat_completeness auto
termination
  by (relation "measure (\<lambda>(stop, bs, start, sz, buf, i, acc). bs - i)") auto

declare iterate_block.simps [simp del]

partial_function (option) iterate_loop :: "'d file_ops \<Rightarrow> byte list \<Rightarrow> (dirent \<Rightarrow> bool) \<Rightarrow> e2inode \<Rightarrow> nat \<Rightarrow> byte list \<Rightarrow> dirent list \<Rightarrow> 'd ext2 \<Rightarrow>
    (dirent list \<times> 'd ext2) result option" where
  "iterate_loop F junk stop ino block buf acc fs =
     (case inode_read F junk (mul32 block (e_bs fs)) (e_bs fs) buf (fs, ino) of
        Inl f \<Rightarrow> Some (Inl f)
      | Inr (n, buf', fs') \<Rightarrow>
          if n = Inr 0 then Some (Inr (acc, fs'))
          else
            case iterate_block stop (e_bs fs') (mul32 block (e_bs fs')) (i_size ino) buf' 0 acc of
              Inl f \<Rightarrow> Some (Inl f)
            | Inr (stopped, acc') \<Rightarrow>
                if stopped then Some (Inr (acc', fs')) else iterate_loop F junk stop ino (block + 1) buf' acc' fs')"

definition iterate_entries :: "'d file_ops \<Rightarrow> byte list \<Rightarrow> (dirent \<Rightarrow> bool) \<Rightarrow> 'd ext2 \<times> e2inode \<Rightarrow> (dirent list \<times> 'd ext2) result" where
  "iterate_entries F junk stop s = (case s of (fs, ino) \<Rightarrow> returned (iterate_loop F junk stop ino 0 (stack_array (e_bs fs) junk) [] fs))"

text \<open>
  The search in a block. When \<open>add\<close> has reached the end of the block, \<open>dir->inode\<close> is read behind the
  buffer, but the loop ends whatever it is.
\<close>

function find_in_block :: "nat \<Rightarrow> byte list \<Rightarrow> byte list \<Rightarrow> nat \<Rightarrow> nat option result" where
  "find_in_block bs find_name buf add =
     (if add \<ge> bs then Inr None
      else if length buf < add + 4 then Inl Undefined
      else if get32 buf add = 0 then Inr None
      else if length buf < add + 8 + get_le 1 buf (add + 6) then Inl Undefined
      else if cstr find_name = cstr (take (get_le 1 buf (add + 6)) (drop (add + 8) buf)) then Inr (Some (get32 buf add))
      else if get16 buf (add + 4) = 0 then Inl Diverges
      else find_in_block bs find_name buf (add + get16 buf (add + 4)))"
  by pat_completeness auto
termination
  by (relation "measure (\<lambda>(bs, find_name, buf, add). bs - add)") auto

declare find_in_block.simps [simp del]

definition find_id :: "'d file_ops \<Rightarrow> byte list \<Rightarrow> byte list \<Rightarrow> 'd ext2 \<times> e2inode \<Rightarrow> (nat \<times> 'd ext2) result" where
  "find_id F junk find_name s =
     (case s of (fs, ino) \<Rightarrow>
        if \<not> is_directory ino then Inr (0, fs)
        else
          rbind (rfold (\<lambda>i (ret, buf, fs).
              rbind (e2_read F fs (get_block_pointer ino i) buf) (\<lambda>(_, buf', fs').
              rbind (find_in_block (e_bs fs') find_name buf' 0) (\<lambda>found.
              Inr (case found of None \<Rightarrow> ret | Some k \<Rightarrow> k, buf', fs'))))
            [0..<inode_num_blocks fs ino] (0, stack_array (e_bs fs) junk, fs)) (\<lambda>(ret, _, fs').
          Inr (ret, fs')))"

section \<open>Writing\<close>

definition dirent_size :: "nat \<Rightarrow> nat" where
  "dirent_size name_length = (let n = 8 + name_length in n + (if n mod 4 = 0 then 0 else 4 - n mod 4))"

definition raw_dirent :: "nat \<Rightarrow> nat \<Rightarrow> nat \<Rightarrow> nat \<Rightarrow> byte list" where
  "raw_dirent ino sz name_length type = le_bytes 4 ino @ le_bytes 2 sz @ le_bytes 1 name_length @ le_bytes 1 type"

definition directory_size :: "nat \<Rightarrow> dirent list \<Rightarrow> nat" where
  "directory_size bs ents =
     (let n = sum_list (map (\<lambda>e. dirent_size (de_name_length e)) ents);
          n' = (if n mod bs = 0 then n + 1 else n)
      in (n' + bs - 1) div bs * bs)"

text \<open>Where the writer is: \<open>cur_block\<close>, \<open>cur_byte_in_block\<close>, \<open>block_buf\<close> and the filesystem.\<close>

type_synonym 'd dir_writer = "nat \<times> nat \<times> byte list \<times> 'd ext2"

definition next_dir_block :: "'d file_ops \<Rightarrow> e2inode \<Rightarrow> 'd dir_writer \<Rightarrow> 'd dir_writer result" where
  "next_dir_block F ino w =
     (case w of (cur_block, cur, buf, fs) \<Rightarrow>
        rbind (e2_write F fs (get_block_pointer ino cur_block) buf) (\<lambda>(_, fs').
        Inr (cur_block + 1, 0, replicate (e_bs fs') 0, fs')))"

definition write_dirent :: "'d file_ops \<Rightarrow> e2inode \<Rightarrow> dirent \<Rightarrow> 'd dir_writer \<Rightarrow> 'd dir_writer result" where
  "write_dirent F ino ent w =
     (case w of (_, cur, _, fs) \<Rightarrow>
        let nl = de_name_length ent mod 2 ^ 8; sz = dirent_size nl in
        rbind (if sz + cur \<ge> e_bs fs then next_dir_block F ino w else Inr w) (\<lambda>(cur_block, cur, buf, fs).
        if length buf < cur + 8 + de_name_length ent + 1 then Inl Undefined
        else Inr (cur_block, cur + sz,
               put_at (put_at buf cur (raw_dirent (de_id ent) sz nl (de_type ent))) (cur + 8) (de_name ent @ [0]), fs)))"

definition write_directory_entries :: "'d file_ops \<Rightarrow> byte list \<Rightarrow> dirent list \<Rightarrow> 'd ext2 \<times> e2inode \<Rightarrow> (status \<times> 'd ext2 \<times> e2inode) result" where
  "write_directory_entries F junk ents s =
     (case s of (fs, _) \<Rightarrow>
        rbind (inode_truncate F junk (off_of (directory_size (e_bs fs) ents)) s) (\<lambda>(res, fs1, ino).
        if res \<noteq> None then Inr (res, fs1, ino)
        else
          rbind (rfold (write_dirent F ino) ents (0, 0, stack_array (e_bs fs1) junk, fs1)) (\<lambda>w.
          rbind (case w of (_, cur, _, fs2) \<Rightarrow> if cur \<ge> e_bs fs2 then next_dir_block F ino w else Inr w) (\<lambda>(cur_block, cur, buf, fs2).
          if length buf < cur + 8 then Inl Undefined
          else
            rbind (e2_write F fs2 (get_block_pointer ino cur_block) (put_at buf cur (raw_dirent 0 (e_bs fs2 - cur) 0 0))) (\<lambda>(_, fs3).
            Inr (None, fs3, ino))))))"

definition dirent_type :: "e2inode \<Rightarrow> nat" where
  "dirent_type ino =
     (if is_simple_file ino then 1 else if is_directory ino then 2 else if is_symlink ino then 7
      else if is_block_device ino then 4 else if is_character_device ino then 3 else 0)"

definition increase_hardlink_count :: "'d file_ops \<Rightarrow> byte list \<Rightarrow> 'd ext2 \<times> e2inode \<Rightarrow> ('d ext2 \<times> e2inode) result" where
  "increase_hardlink_count F junk s =
     (case s of (fs, ino) \<Rightarrow> write_inode_entry F junk (fs, upd_raw (\<lambda>raw. put16 raw 26 (inc_mod 16 (hard_links raw))) ino))"

text \<open>\<open>add_entry\<close> on a directory, for an inode that is another object.\<close>

definition add_entry :: "'d file_ops \<Rightarrow> byte list \<Rightarrow> byte list \<Rightarrow> 'd ext2 \<times> e2inode \<times> e2inode \<Rightarrow> (status \<times> 'd ext2 \<times> e2inode \<times> e2inode) result" where
  "add_entry F junk name s =
     (case s of (fs, dir, inode) \<Rightarrow>
        if \<not> is_directory dir then Inr (Some ENOTDIR, s)
        else if length name = 0 \<or> length name > NAME_MAXLEN then Inr (Some ENAMETOOLONG, s)
        else
          rbind (iterate_entries F junk (\<lambda>e. cstr name = cstr (de_name e)) (fs, dir)) (\<lambda>(ents, fs1).
          if list_ex (\<lambda>e. cstr name = cstr (de_name e)) ents then Inr (Some EEXIST, fs1, dir, inode)
          else
            rbind (increase_hardlink_count F junk (fs1, inode)) (\<lambda>(fs2, inode2).
            rbind (dirent_new (i_id inode2) (dirent_type inode2) name) (\<lambda>ent.
            rbind (write_directory_entries F junk (ents @ [ent]) (fs2, dir)) (\<lambda>(res, fs3, dir3).
            if res \<noteq> None then Inr (res, fs3, dir3, inode2)
            else if i_dirty dir3 then
              rbind (write_to_disk F junk (fs3, dir3)) (\<lambda>(res, fs4, dir4). Inr (res, fs4, dir4, inode2))
            else Inr (None, fs3, dir3, inode2))))))"

end
