(* ===== verification/Ext2Lookup.thy ===== *)
theory Ext2Lookup
  imports Ext2Directory
begin

text \<open>
  A directory of one block: what \<open>write_directory_entries\<close> writes, \<open>iterate_entries\<close> reads and \<open>find_id\<close>
  finds, and what that means for \<open>add_entry\<close>.
\<close>

section \<open>Entries in a block\<close>

definition dirent_ok :: "dirent \<Rightarrow> bool" where
  "dirent_ok e \<longleftrightarrow> de_id e < 2 ^ 32 \<and> de_type e < 2 ^ 8 \<and> de_name_length e < 2 ^ 8 \<and> length (de_name e) = de_name_length e"

definition dirent_at :: "byte list \<Rightarrow> nat \<Rightarrow> nat \<Rightarrow> dirent \<Rightarrow> bool" where
  "dirent_at buf pos n e \<longleftrightarrow> pos + 8 + de_name_length e \<le> length buf \<and> get32 buf pos = de_id e \<and> get16 buf (pos + 4) = n \<and>
     get_le 1 buf (pos + 6) = de_name_length e \<and> get_le 1 buf (pos + 7) = de_type e \<and> take (de_name_length e) (drop (pos + 8) buf) = de_name e"

abbreviation ent_size :: "dirent \<Rightarrow> nat" where "ent_size e \<equiv> dirent_size (de_name_length e)"

definition ents_size :: "dirent list \<Rightarrow> nat" where "ents_size es = sum_list (map ent_size es)"

fun dirents_at :: "byte list \<Rightarrow> nat \<Rightarrow> dirent list \<Rightarrow> bool" where
  "dirents_at buf pos [] = True"
| "dirents_at buf pos (e # es) = (dirent_at buf pos (ent_size e) e \<and> dirents_at buf (pos + ent_size e) es)"

lemma ents_size_simps [simp]: "ents_size [] = 0" "ents_size (e # es) = ent_size e + ents_size es" "ents_size (es @ es') = ents_size es + ents_size es'"
  by (simp_all add: ents_size_def)

lemma dirent_size_bounds: "8 + n \<le> dirent_size n" "dirent_size n \<le> 11 + n" "0 < dirent_size n" "dirent_size n mod 4 = 0"
proof -
  show "8 + n \<le> dirent_size n" "0 < dirent_size n" by (simp_all add: dirent_size_def Let_def)
  show "dirent_size n \<le> 11 + n" by (auto simp: dirent_size_def Let_def)
  have "(8 + n + (4 - (8 + n) mod 4)) mod 4 = 0" by presburger
  then show "dirent_size n mod 4 = 0" by (simp add: dirent_size_def Let_def)
qed

lemma take_drop_prefix: "take n buf' = take n buf \<Longrightarrow> off + k \<le> n \<Longrightarrow> take k (drop off buf') = take k (drop off buf)"
proof -
  assume a: "take n buf' = take n buf" "off + k \<le> n"
  have "take k (drop off b) = take k (drop off (take n b))" for b :: "'a list" using a(2) by (simp add: drop_take min_def)
  then show ?thesis using a(1) by metis
qed

lemma dirent_at_prefix:
  assumes "take n buf' = take n buf" "length buf' = length buf" "pos + 8 + de_name_length e \<le> n"
  shows "dirent_at buf' pos m e = dirent_at buf pos m e"
proof -
  have "get_le k buf' off = get_le k buf off" if "off + k \<le> n" for k off using take_drop_prefix [OF assms(1) that] by (simp add: get_le_def)
  then show ?thesis using assms take_drop_prefix [OF assms(1), of "pos + 8" "de_name_length e"] by (simp add: dirent_at_def)
qed

lemma dirents_at_prefix:
  "take n buf' = take n buf \<Longrightarrow> length buf' = length buf \<Longrightarrow> pos + ents_size es \<le> n \<Longrightarrow> dirents_at buf' pos es = dirents_at buf pos es"
proof (induction es arbitrary: pos)
  case (Cons e es)
  have "pos + 8 + de_name_length e \<le> n" using Cons.prems(3) dirent_size_bounds(1) [of "de_name_length e"] by simp
  then show ?case using Cons dirent_at_prefix [OF Cons.prems(1,2)] by simp
qed simp

lemma dirents_at_append: "dirents_at buf pos (es @ es') \<longleftrightarrow> dirents_at buf pos es \<and> dirents_at buf (pos + ents_size es) es'"
  by (induction es arbitrary: pos) (simp_all add: add.assoc)

text \<open>Writing an entry.\<close>

lemma raw_dirent_fields:
  assumes "pos + 8 \<le> length buf" "take 8 (drop pos buf) = raw_dirent k n nl t"
  shows "get32 buf pos = k mod 2 ^ 32" "get16 buf (pos + 4) = n mod 2 ^ 16" "get_le 1 buf (pos + 6) = nl mod 2 ^ 8" "get_le 1 buf (pos + 7) = t mod 2 ^ 8"
proof -
  have e: "get_le m buf (pos + q) = of_le (take m (drop q (raw_dirent k n nl t)))" if "q + m \<le> 8" for m q
    using that by (simp add: get_le_def assms(2) [symmetric] drop_take min_def add.commute)
  show "get32 buf pos = k mod 2 ^ 32" "get16 buf (pos + 4) = n mod 2 ^ 16" "get_le 1 buf (pos + 6) = nl mod 2 ^ 8" "get_le 1 buf (pos + 7) = t mod 2 ^ 8"
    using e [of 0 4] e [of 4 2] e [of 6 1] e [of 7 1] by (simp_all add: raw_dirent_def of_le_le_bytes unat_of_nat)
qed

lemma length_raw_dirent [simp]: "length (raw_dirent k n nl t) = 8"
  by (simp add: raw_dirent_def)

lemma put_dirent:
  assumes "cur + 8 + length name \<le> length buf" "k < 2 ^ 32" "n < 2 ^ 16" "length name < 2 ^ 8" "t < 2 ^ 8"
    and buf': "length buf' = length buf" "take (8 + length name) (drop cur buf') = raw_dirent k n (length name) t @ name"
  shows "dirent_at buf' cur n \<lparr>de_id = k, de_type = t, de_name_length = length name, de_name = name\<rparr>"
proof -
  have "take 8 (drop cur buf') = take 8 (take (8 + length name) (drop cur buf'))" by simp
  then have h: "take 8 (drop cur buf') = raw_dirent k n (length name) t" by (simp add: buf'(2))
  have "take (length name) (drop (cur + 8) buf') = drop 8 (take (8 + length name) (drop cur buf'))" by (simp add: drop_take add.commute)
  then have "take (length name) (drop (cur + 8) buf') = name" by (simp add: buf'(2))
  then show ?thesis using raw_dirent_fields [OF _ h] assms by (simp add: dirent_at_def)
qed

lemma write_dirent_here:
  assumes e: "dirent_ok e" and cur: "cur + ent_size e < e_bs fs" and buf: "length buf = e_bs fs"
  obtains buf' where "write_dirent F ino e (blk, cur, buf, fs) = Inr (blk, cur + ent_size e, buf', fs)" "length buf' = e_bs fs" "take cur buf' = take cur buf"
    "dirent_at buf' cur (ent_size e) e"
proof -
  let ?nl = "de_name_length e"
  let ?b1 = "put_at buf cur (raw_dirent (de_id e) (ent_size e) ?nl (de_type e))"
  let ?b2 = "put_at ?b1 (cur + 8) (de_name e @ [0])"
  have nl: "?nl < 2 ^ 8" "length (de_name e) = ?nl" "?nl mod 2 ^ 8 = ?nl" using e by (simp_all add: dirent_ok_def)
  have room: "cur + 8 + ?nl + 1 \<le> e_bs fs" using cur dirent_size_bounds(1) [of ?nl] by linarith
  have w: "write_dirent F ino e (blk, cur, buf, fs) = Inr (blk, cur + ent_size e, ?b2, fs)"
    using cur room buf nl by (simp add: write_dirent_def Let_def)
  have l1: "length ?b1 = e_bs fs" using room buf by simp
  then have l2: "length ?b2 = e_bs fs" using room nl(2) by simp
  have "?b2 = take cur buf @ raw_dirent (de_id e) (ent_size e) ?nl (de_type e) @ de_name e @ [0] @ drop (cur + 8 + ?nl + 1) ?b1"
    using room buf nl(2) by (simp add: put_at_def add.commute)
  then have t: "take cur ?b2 = take cur buf" "take (8 + ?nl) (drop cur ?b2) = raw_dirent (de_id e) (ent_size e) ?nl (de_type e) @ de_name e"
    using room buf nl(2) by simp_all
  have "ent_size e < 2 ^ 16" using dirent_size_bounds(2) [of ?nl] nl(1) by simp
  then have "dirent_at ?b2 cur (ent_size e) \<lparr>de_id = de_id e, de_type = de_type e, de_name_length = length (de_name e), de_name = de_name e\<rparr>"
    by (intro put_dirent [of cur _ buf]) (use e room buf l2 t(2) nl in \<open>simp_all add: dirent_ok_def\<close>)
  then have "dirent_at ?b2 cur (ent_size e) e" by (simp add: nl(2) dirent_at_def)
  from that [OF w l2 t(1) this] show ?thesis .
qed

lemma write_dirents_here:
  assumes "\<forall>e \<in> set es. dirent_ok e" "cur + ents_size es < e_bs fs" "length buf = e_bs fs"
  obtains buf' where "rfold (write_dirent F ino) es (blk, cur, buf, fs) = Inr (blk, cur + ents_size es, buf', fs)" "length buf' = e_bs fs" "take cur buf' = take cur buf"
    "dirents_at buf' cur es"
  using assms
proof (induction es arbitrary: cur buf thesis)
  case (Cons e es)
  obtain b1 where b1: "write_dirent F ino e (blk, cur, buf, fs) = Inr (blk, cur + ent_size e, b1, fs)" "length b1 = e_bs fs" "take cur b1 = take cur buf"
    "dirent_at b1 cur (ent_size e) e" by (rule write_dirent_here [of e cur fs buf F ino blk]) (use Cons.prems in auto)
  obtain b2 where b2: "rfold (write_dirent F ino) es (blk, cur + ent_size e, b1, fs) = Inr (blk, cur + ent_size e + ents_size es, b2, fs)" "length b2 = e_bs fs"
    "take (cur + ent_size e) b2 = take (cur + ent_size e) b1" "dirents_at b2 (cur + ent_size e) es"
    by (rule Cons.IH [of "cur + ent_size e" b1]) (use Cons.prems b1(2) in auto)
  have "dirent_at b2 cur (ent_size e) e"
    using b1(2,4) b2(2) dirent_at_prefix [OF b2(3), of cur e] dirent_size_bounds(1) [of "de_name_length e"] by simp
  moreover have "take cur b2 = take cur b1" using b2(3) by (metis le_add1 min.absorb1 take_take)
  ultimately show ?case using b1 b2 by (intro Cons.prems(1) [of b2]) (simp_all add: add.assoc)
qed simp

definition null_dirent :: dirent where
  "null_dirent = \<lparr>de_id = 0, de_type = 0, de_name_length = 0, de_name = []\<rparr>"

text \<open>A directory block: entries, and a null entry that fills the rest.\<close>

definition dir_block :: "nat \<Rightarrow> byte list \<Rightarrow> dirent list \<Rightarrow> bool" where
  "dir_block bs buf es \<longleftrightarrow> length buf = bs \<and> ents_size es + 8 \<le> bs \<and> bs < 2 ^ 16 \<and> dirents_at buf 0 es \<and> dirent_at buf (ents_size es) (bs - ents_size es) null_dirent"

lemma dir_block_null:
  assumes "length buf = bs" "ents_size es + 8 \<le> bs" "bs < 2 ^ 16" "dirents_at buf 0 es"
  shows "dir_block bs (put_at buf (ents_size es) (raw_dirent 0 (bs - ents_size es) 0 0)) es"
proof -
  let ?b = "put_at buf (ents_size es) (raw_dirent 0 (bs - ents_size es) 0 0)"
  have l: "length ?b = length buf" using assms by simp
  have "take (ents_size es) ?b = take (ents_size es) buf" using assms by (simp add: put_at_def)
  then have "dirents_at ?b 0 es" using dirents_at_prefix [OF _ l, of "ents_size es" 0 es] assms(4) by simp
  moreover have "dirent_at ?b (ents_size es) (bs - ents_size es) null_dirent"
    using put_dirent [of "ents_size es" "[]" buf 0 "bs - ents_size es" 0 ?b] put_at_inside [of "ents_size es" "raw_dirent 0 (bs - ents_size es) 0 0" buf] assms l
    by (simp add: null_dirent_def)
  ultimately show ?thesis using assms l by (simp add: dir_block_def)
qed

section \<open>Reading a block\<close>

lemma parse_dirent_at: "dirent_at buf pos n e \<Longrightarrow> de_name_length e < 2 ^ 8 \<Longrightarrow> parse_dirent buf pos = Inr (e, n)"
  by (auto simp: dirent_at_def parse_dirent_def NAME_MAXLEN_def Let_def min_def)

lemma iterate_dirents:
  assumes "dirents_at buf pos es" "\<forall>e \<in> set es. dirent_ok e \<and> \<not> stop e" "pos + ents_size es \<le> bs" "start + bs \<le> sz"
  shows "iterate_block stop bs start sz buf pos acc = iterate_block stop bs start sz buf (pos + ents_size es) (acc @ es)"
  using assms
proof (induction es arbitrary: pos acc)
  case (Cons e es)
  have e: "dirent_at buf pos (ent_size e) e" "de_name_length e < 2 ^ 8" "\<not> stop e" using Cons.prems by (simp_all add: dirent_ok_def)
  have s: "0 < ent_size e" by (rule dirent_size_bounds)
  have "iterate_block stop bs start sz buf pos acc = iterate_block stop bs start sz buf (pos + ent_size e) (acc @ [e])"
    using Cons.prems(3,4) s e(3) by (subst iterate_block.simps) (simp add: parse_dirent_at [OF e(1,2)])
  also have "\<dots> = iterate_block stop bs start sz buf (pos + ent_size e + ents_size es) ((acc @ [e]) @ es)"
    by (rule Cons.IH) (use Cons.prems in auto)
  finally show ?case by (simp add: add.assoc)
qed simp

lemma iterate_dir_block:
  assumes d: "dir_block bs buf es" and e: "\<forall>e \<in> set (es @ [null_dirent]). dirent_ok e \<and> \<not> stop e" and sz: "start + bs \<le> sz"
  shows "iterate_block stop bs start sz buf 0 acc = Inr (False, acc @ es @ [null_dirent])"
proof -
  have n: "dirent_at buf (ents_size es) (bs - ents_size es) null_dirent" "ents_size es + 8 \<le> bs" "dirents_at buf 0 es" using d by (simp_all add: dir_block_def)
  have nl: "de_name_length null_dirent < 2 ^ 8" by (simp add: null_dirent_def)
  have "iterate_block stop bs start sz buf 0 acc = iterate_block stop bs start sz buf (ents_size es) (acc @ es)"
    using iterate_dirents [OF n(3), of stop bs start sz acc] e n(2) sz by simp
  also have "\<dots> = iterate_block stop bs start sz buf bs (acc @ es @ [null_dirent])"
    using n(2) sz e by (subst iterate_block.simps) (simp add: parse_dirent_at [OF n(1) nl])
  also have "\<dots> = Inr (False, acc @ es @ [null_dirent])" by (subst iterate_block.simps) simp
  finally show ?thesis .
qed

fun find_dirent :: "byte list \<Rightarrow> dirent list \<Rightarrow> nat option" where
  "find_dirent name [] = None"
| "find_dirent name (e # es) = (if de_id e = 0 then None else if cstr name = cstr (de_name e) then Some (de_id e) else find_dirent name es)"

lemma find_dirents:
  assumes "dirents_at buf pos es" "length buf = bs" "pos + ents_size es + 8 \<le> bs" "dirent_at buf (pos + ents_size es) n null_dirent"
  shows "find_in_block bs name buf pos = Inr (find_dirent name es)"
  using assms
proof (induction es arbitrary: pos)
  case Nil
  then show ?case by (subst find_in_block.simps) (simp add: dirent_at_def null_dirent_def)
next
  case (Cons e es)
  have e: "dirent_at buf pos (ent_size e) e" using Cons.prems by simp
  have s: "0 < ent_size e" "8 + de_name_length e \<le> ent_size e" by (rule dirent_size_bounds)+
  have "find_in_block bs name buf (pos + ent_size e) = Inr (find_dirent name es)" by (rule Cons.IH) (use Cons.prems in \<open>simp_all add: add.assoc\<close>)
  then show ?case using Cons.prems(2,3) s e by (subst find_in_block.simps) (simp add: dirent_at_def)
qed

section \<open>Directories of one block\<close>

definition dir_ok :: "nat \<Rightarrow> 'd ext2 \<Rightarrow> e2inode \<Rightarrow> bool" where
  "dir_ok cap fs dir \<longleftrightarrow> file_ok cap fs dir \<and> is_directory dir \<and> i_size dir = e_bs fs \<and> e_bs fs < 2 ^ 16"

abbreviation dir_place :: "e2inode \<Rightarrow> nat" where "dir_place dir \<equiv> get_block_pointer dir 0"

lemma dir_okD:
  assumes "dir_ok cap fs dir"
  shows "file_ok cap fs dir" "is_directory dir" "i_size dir = e_bs fs" "e_bs fs < 2 ^ 16" "0 < e_bs fs" "inode_num_blocks fs dir = 1"
    "dir_place dir * e_bs fs + e_bs fs \<le> cap" "dir_place dir \<noteq> 0"
proof -
  show f: "file_ok cap fs dir" and "is_directory dir" and s: "i_size dir = e_bs fs" and bs: "e_bs fs < 2 ^ 16" using assms by (simp_all add: dir_ok_def)
  show b0: "0 < e_bs fs" using file_okD(1) [OF f] .
  have "plain_file dir" using file_okD(3,4) [OF f] by (simp add: plain_file_def)
  then have "inode_num_blocks fs dir = blocks_for fs (e_bs fs)" using num_blocks_eq [of dir fs] s file_okD(5) [OF f] b0 by simp
  then show "inode_num_blocks fs dir = 1" using b0 div_add_self1 [of "e_bs fs" "e_bs fs - 1"] by (simp add: blocks_for_def)
  show "dir_place dir * e_bs fs + e_bs fs \<le> cap" "dir_place dir \<noteq> 0" using file_okD(8) [OF f, of 0] s b0 by (simp_all add: file_block_ok_def)
qed

lemma dir_ok_geometry:
  assumes "same_geometry fs fs'" "dir_ok cap fs dir"
  shows "dir_ok cap fs' dir"
  using assms(2) unfolding dir_ok_def file_ok_def same_geometryD(1) [OF assms(1)] inode_geometry(4) [OF assms(1)] .

lemma directory_size_one: "ents_size es < bs \<Longrightarrow> directory_size bs es = bs"
proof -
  assume "ents_size es < bs"
  then have "0 < (if ents_size es mod bs = 0 then ents_size es + 1 else ents_size es)" "(if ents_size es mod bs = 0 then ents_size es + 1 else ents_size es) \<le> bs"
    by auto
  then have "((if ents_size es mod bs = 0 then ents_size es + 1 else ents_size es) + bs - 1) div bs = 1"
    by (intro div_nat_eqI) auto
  then show ?thesis unfolding directory_size_def Let_def ents_size_def [symmetric] by simp
qed

context block_file
begin

lemma write_directory_entries_ok:
  assumes gd: "good (e_file fs)" and d: "dir_ok cap fs dir" and es: "\<forall>e \<in> set es. dirent_ok e" "ents_size es + 8 \<le> e_bs fs"
  obtains blk d' where "write_directory_entries F junk es (fs, dir) = Inr (None, fs\<lparr>e_file := d'\<rparr>, dir)" "good d'"
    "file_block (cells d') (e_bs fs) = (con fs)(dir_place dir := blk)" "dir_block (e_bs fs) blk es"
proof -
  note D = dir_okD [OF d]
  obtain buf where buf: "rfold (write_dirent F dir) es (0, 0, stack_array (e_bs fs) junk, fs) = Inr (0, 0 + ents_size es, buf, fs)" "length buf = e_bs fs" "dirents_at buf 0 es"
    by (rule write_dirents_here [OF es(1), of 0 fs "stack_array (e_bs fs) junk" F dir 0]) (use es(2) in simp_all)
  let ?blk = "put_at buf (ents_size es) (raw_dirent 0 (e_bs fs - ents_size es) 0 0)"
  have blk: "dir_block (e_bs fs) ?blk es" by (rule dir_block_null [OF buf(2) es(2) D(4) buf(3)])
  then have len: "length ?blk = e_bs fs" by (simp add: dir_block_def)
  obtain d' where w: "e2_write F fs (dir_place dir) ?blk = Inr (None, fs\<lparr>e_file := d'\<rparr>)" "good d'" "file_block (cells d') (e_bs fs) = (con fs)(dir_place dir := ?blk)"
    by (rule e2_write_ok [OF gd D(7,5) len])
  have "inode_truncate F junk (off_of (directory_size (e_bs fs) es)) (fs, dir) = Inr (None, fs, dir)"
    using es(2) D(3,4) by (simp add: directory_size_one off_of_def inode_truncate_def)
  then have "write_directory_entries F junk es (fs, dir) = Inr (None, fs\<lparr>e_file := d'\<rparr>, dir)"
    using buf(1,2) w(1) es(2) by (simp add: write_directory_entries_def)
  with w(2,3) blk show ?thesis using that by blast
qed

lemma read_dir_block:
  assumes gd: "good (e_file fs)" and d: "dir_ok cap fs dir" and buf: "length buf = e_bs fs"
  obtains d' where "inode_read F junk 0 (e_bs fs) buf (fs, dir) = Inr (Inr (e_bs fs), con fs (dir_place dir), fs\<lparr>e_file := d'\<rparr>)" "good d'" "cells d' = cells (e_file fs)"
proof -
  note D = dir_okD [OF d]
  have b: "inode_bytes (con fs) (e_bs fs) dir 0 (e_bs fs) = con fs (dir_place dir)" by (subst inode_bytes_in_block) simp_all
  show ?thesis
    by (rule inode_read_ok [OF D(1) gd, of 0 "e_bs fs" buf junk]) (use D(3,4) buf b in \<open>simp_all add: that put_at_def\<close>)
qed

lemma iterate_entries_ok:
  assumes gd: "good (e_file fs)" and d: "dir_ok cap fs dir" and blk: "dir_block (e_bs fs) (con fs (dir_place dir)) es"
    and es: "\<forall>e \<in> set (es @ [null_dirent]). dirent_ok e \<and> \<not> stop e"
  obtains d' where "iterate_entries F junk stop (fs, dir) = Inr (es @ [null_dirent], fs\<lparr>e_file := d'\<rparr>)" "good d'" "cells d' = cells (e_file fs)"
proof -
  note D = dir_okD [OF d]
  obtain d1 where r: "inode_read F junk 0 (e_bs fs) (stack_array (e_bs fs) junk) (fs, dir) = Inr (Inr (e_bs fs), con fs (dir_place dir), fs\<lparr>e_file := d1\<rparr>)"
    "good d1" "cells d1 = cells (e_file fs)" by (rule read_dir_block [OF gd d length_stack_array])
  have it: "iterate_block stop (e_bs fs) 0 (i_size dir) (con fs (dir_place dir)) 0 [] = Inr (False, es @ [null_dirent])"
    using iterate_dir_block [OF blk es, of 0 "i_size dir" "[]"] D(3) by simp
  have m: "mul32 0 (e_bs fs) = 0" "mul32 1 (e_bs fs) = e_bs fs" using D(4) by (simp_all add: mul32_def)
  have "inode_read F junk (e_bs fs) (e_bs fs) (con fs (dir_place dir)) (fs\<lparr>e_file := d1\<rparr>, dir) = Inr (Inr 0, con fs (dir_place dir), fs\<lparr>e_file := d1\<rparr>)"
    using D(3,4,5) file_okD(2-4) [OF D(1)] by (auto simp: inode_read_def add32_def inode_read_loop.simps [of F dir _ 0 0])
  then have "iterate_loop F junk stop dir 1 (con fs (dir_place dir)) (es @ [null_dirent]) (fs\<lparr>e_file := d1\<rparr>) = Some (Inr (es @ [null_dirent], fs\<lparr>e_file := d1\<rparr>))"
    using m(2) by (subst iterate_loop.simps) simp
  then have "iterate_loop F junk stop dir 0 (stack_array (e_bs fs) junk) [] fs = Some (Inr (es @ [null_dirent], fs\<lparr>e_file := d1\<rparr>))"
    using r(1) it m(1) D(5) by (subst iterate_loop.simps) simp
  then show ?thesis using r(2,3) by (intro that [of d1]) (simp_all add: iterate_entries_def returned_def)
qed

lemma find_id_ok:
  assumes gd: "good (e_file fs)" and d: "dir_ok cap fs dir" and blk: "dir_block (e_bs fs) (con fs (dir_place dir)) es"
  obtains d' where "find_id F junk name (fs, dir) = Inr (case find_dirent name es of None \<Rightarrow> 0 | Some k \<Rightarrow> k, fs\<lparr>e_file := d'\<rparr>)" "good d'" "cells d' = cells (e_file fs)"
proof -
  note D = dir_okD [OF d]
  obtain d1 where r: "e2_read F fs (dir_place dir) (stack_array (e_bs fs) junk) = Inr (None, con fs (dir_place dir), fs\<lparr>e_file := d1\<rparr>)" "good d1" "cells d1 = cells (e_file fs)"
    by (rule e2_read_ok [OF gd D(7,5) length_stack_array])
  have "find_in_block (e_bs fs) name (con fs (dir_place dir)) 0 = Inr (find_dirent name es)"
    using blk by (intro find_dirents) (auto simp: dir_block_def)
  then show ?thesis using r D(2,6) by (intro that [of d1]) (simp_all add: find_id_def)
qed

lemma add_entry_ok:
  assumes gd: "good (e_file fs)" and ok: "fs_ok cap (con fs) fs" and d: "dir_ok cap fs dir" "\<not> i_dirty dir"
    and blk: "dir_block (e_bs fs) (con fs (dir_place dir)) es" "\<forall>e \<in> set es. dirent_ok e" and new: "\<forall>e \<in> set (es @ [null_dirent]). cstr name \<noteq> cstr (de_name e)"
    and name: "name \<noteq> []" "length name < 2 ^ 8" "ents_size es + 8 + dirent_size (length name) + 8 \<le> e_bs fs"
    and ino: "inode_located cap (con fs) fs (i_id inode)" "length (i_raw inode) = 128" "i_id inode < 2 ^ 32" "table_block (con fs) fs (i_id inode) \<noteq> dir_place dir"
  obtains fs' inode' e where "add_entry F junk name (fs, dir, inode) = Inr (None, fs', dir, inode')" "good (e_file fs')" "dir_ok cap fs' dir"
    "dir_block (e_bs fs') (con fs' (dir_place dir)) (es @ [null_dirent, e])" "de_id e = i_id inode" "de_name e = name"
proof -
  let ?stop = "\<lambda>e. cstr name = cstr (de_name e)" and ?raw = "\<lambda>raw. put16 raw 26 (inc_mod 16 (hard_links raw))"
  have nd: "dirent_ok null_dirent" by (simp add: dirent_ok_def null_dirent_def)
  obtain d1 where it: "iterate_entries F junk ?stop (fs, dir) = Inr (es @ [null_dirent], fs\<lparr>e_file := d1\<rparr>)" "good d1" "cells d1 = cells (e_file fs)"
    by (rule iterate_entries_ok [OF gd d(1) blk(1), of ?stop junk]) (use blk(2) new nd in auto)
  let ?fs1 = "fs\<lparr>e_file := d1\<rparr>" and ?ino1 = "upd_raw ?raw inode"
  have q: "quiet fs ?fs1" by (rule quiet_file [OF it(2,3)])
  have ch1: "changed {} {} fs ?fs1" by (rule changed_quiet [OF q ok])
  have loc1: "inode_located cap (con ?fs1) ?fs1 (i_id ?ino1)" "table_block (con ?fs1) ?fs1 (i_id ?ino1) = table_block (con fs) fs (i_id inode)"
    using changed_located [OF ch1 ino(1)] by (simp_all add: upd_raw_def)
  obtain fs2 where w: "write_inode_entry F junk (?fs1, ?ino1) = Inr (fs2, ?ino1\<lparr>i_raw := entry_of ?ino1, i_dirty := False\<rparr>)"
    "changed {} {table_block (con ?fs1) ?fs1 (i_id ?ino1)} ?fs1 fs2"
    by (rule write_inode_entry_ok [OF changedD(1,2) [OF ch1] loc1(1)]) (use ino(2) in \<open>simp_all add: upd_raw_def\<close>)
  let ?ino2 = "?ino1\<lparr>i_raw := entry_of ?ino1, i_dirty := False\<rparr>"
  let ?e = "\<lparr>de_id = i_id inode, de_type = dirent_type ?ino2, de_name_length = length name, de_name = name\<rparr>"
  note gD = same_geometryD [OF changedD(3) [OF w(2)]] inode_geometry [OF changedD(3) [OF w(2)]]
  have d2: "dir_ok cap fs2 dir" by (rule dir_ok_geometry [OF _ d(1)]) (use changedD(3) [OF changed_trans [OF ch1 w(2)]] in simp)
  have e: "dirent_ok ?e" using ino(3) name(2) by (simp add: dirent_ok_def dirent_type_def)
  have es2: "\<forall>e \<in> set ((es @ [null_dirent]) @ [?e]). dirent_ok e" "ents_size ((es @ [null_dirent]) @ [?e]) + 8 \<le> e_bs fs2"
    using blk(2) nd e name(3) by (auto simp: gD null_dirent_def dirent_size_def)
  obtain b d3 where wd: "write_directory_entries F junk ((es @ [null_dirent]) @ [?e]) (fs2, dir) = Inr (None, fs2\<lparr>e_file := d3\<rparr>, dir)" "good d3"
    "file_block (cells d3) (e_bs fs2) = (con fs2)(dir_place dir := b)" "dir_block (e_bs fs2) b ((es @ [null_dirent]) @ [?e])"
    by (rule write_directory_entries_ok [OF changedD(1) [OF w(2)] d2 es2])
  have hc: "increase_hardlink_count F junk (?fs1, inode) = Inr (fs2, ?ino2)" using w(1) by (simp add: increase_hardlink_count_def)
  have dn: "dirent_new (i_id ?ino2) (dirent_type ?ino2) name = Inr ?e" using name(2) by (simp add: dirent_new_def NAME_MAXLEN_def upd_raw_def)
  have "add_entry F junk name (fs, dir, inode) = Inr (None, fs2\<lparr>e_file := d3\<rparr>, dir, ?ino2)"
    using dir_okD(2) [OF d(1)] name(1,2) it(1) new hc dn wd(1) d(2) by (auto simp: add_entry_def NAME_MAXLEN_def list_ex_iff)
  moreover have "dir_ok cap (fs2\<lparr>e_file := d3\<rparr>) dir" by (rule dir_ok_geometry [OF _ d2]) simp
  ultimately show ?thesis using wd(2-4) by (intro that [of "fs2\<lparr>e_file := d3\<rparr>" ?ino2 ?e]) simp_all
qed

end

lemma find_dirent_stops: "\<forall>e \<in> set es. cstr name \<noteq> cstr (de_name e) \<Longrightarrow> de_id e0 = 0 \<Longrightarrow> find_dirent name (es @ e0 # es') = None"
  by (induction es) auto

section \<open>Properties\<close>

text \<open>
  C39. A directory of one block (\<open>dir_ok\<close>) over a file below that reads and writes as documented
  (\<open>block_file\<close>), and well-formed entries that fit into that block with a null entry behind them: after
  \<open>write_directory_entries\<close>, which changes no other block, \<open>iterate_entries\<close> gives them back,
  followed by the null entry, and \<open>find_id\<close> gives the number of the first entry with the name asked
  for, among those before the first unused one, or 0.
\<close>

theorem ext2_directory_roundtrip:
  assumes "block_file F good cells cap" "good (e_file fs)" "dir_ok cap fs dir" "\<forall>e \<in> set es. dirent_ok e" "ents_size es + 8 \<le> e_bs fs"
  shows "\<exists>fs1. write_directory_entries F junk es (fs, dir) = Inr (None, fs1, dir) \<and>
    (\<forall>b. b \<noteq> dir_place dir \<longrightarrow> fs_blocks cells fs1 b = fs_blocks cells fs b) \<and>
    (\<exists>fs2. iterate_entries F junk (\<lambda>_. False) (fs1, dir) = Inr (es @ [null_dirent], fs2)) \<and>
    (\<forall>name. \<exists>fs2. find_id F junk name (fs1, dir) = Inr (case find_dirent name es of None \<Rightarrow> 0 | Some k \<Rightarrow> k, fs2))"
proof -
  obtain blk d where w: "write_directory_entries F junk es (fs, dir) = Inr (None, fs\<lparr>e_file := d\<rparr>, dir)" "good d"
    "file_block (cells d) (e_bs fs) = (fs_blocks cells fs)(dir_place dir := blk)" "dir_block (e_bs fs) blk es"
    by (rule block_file.write_directory_entries_ok [OF assms])
  let ?fs1 = "fs\<lparr>e_file := d\<rparr>"
  have gd: "good (e_file ?fs1)" using w(2) by simp
  have d: "dir_ok cap ?fs1 dir" by (rule dir_ok_geometry [OF _ assms(3)]) simp
  have blk: "dir_block (e_bs ?fs1) (fs_blocks cells ?fs1 (dir_place dir)) es" using w(3,4) by simp
  have ok: "\<forall>e \<in> set (es @ [null_dirent]). dirent_ok e \<and> \<not> (\<lambda>_. False) e" using assms(4) by (simp add: dirent_ok_def null_dirent_def)
  obtain d2 where "iterate_entries F junk (\<lambda>_. False) (?fs1, dir) = Inr (es @ [null_dirent], ?fs1\<lparr>e_file := d2\<rparr>)"
    by (rule block_file.iterate_entries_ok [OF assms(1) gd d blk ok])
  moreover have "\<exists>fs2. find_id F junk name (?fs1, dir) = Inr (case find_dirent name es of None \<Rightarrow> 0 | Some k \<Rightarrow> k, fs2)" for name
    by (rule block_file.find_id_ok [OF assms(1) gd d blk, of junk name]) blast
  ultimately show ?thesis using w(1,3) by (intro exI [of _ ?fs1]) auto
qed

text \<open>
  C40. A name of 1 to 255 bytes that is not in use is added to a directory of one block of an intact
  filesystem, over a file below that reads and writes as documented (\<open>block_file\<close>). The block was
  written by \<open>write_directory_entries\<close>, so that it ends in a null entry, and has room for the null
  entry, the new one and another null entry; the inode that gets the name has its own entry in
  another block. Then \<open>add_entry\<close> reports success, but it keeps the null entry as an entry of its own
  in front of the new one, and \<open>find_id\<close>, which stops there, does not find the name.
\<close>

theorem ext2_added_name_not_found:
  assumes "block_file F good cells cap" "good (e_file fs)" "fs_ok cap (fs_blocks cells fs) fs" "dir_ok cap fs dir" "\<not> i_dirty dir"
    "dir_block (e_bs fs) (fs_blocks cells fs (dir_place dir)) es" "\<forall>e \<in> set es. dirent_ok e" "\<forall>e \<in> set (es @ [null_dirent]). cstr name \<noteq> cstr (de_name e)"
    "name \<noteq> []" "length name < 2 ^ 8" "ents_size es + 8 + dirent_size (length name) + 8 \<le> e_bs fs"
    "inode_located cap (fs_blocks cells fs) fs (i_id inode)" "length (i_raw inode) = 128" "i_id inode < 2 ^ 32"
    "table_block (fs_blocks cells fs) fs (i_id inode) \<noteq> dir_place dir"
  shows "\<exists>fs1 inode1 fs2. add_entry F junk name (fs, dir, inode) = Inr (None, fs1, dir, inode1) \<and> find_id F junk name (fs1, dir) = Inr (0, fs2)"
proof -
  obtain fs1 inode1 e where a: "add_entry F junk name (fs, dir, inode) = Inr (None, fs1, dir, inode1)" "good (e_file fs1)" "dir_ok cap fs1 dir"
    "dir_block (e_bs fs1) (fs_blocks cells fs1 (dir_place dir)) (es @ [null_dirent, e])"
    by (rule block_file.add_entry_ok [OF assms])
  have f: "find_dirent name (es @ [null_dirent, e]) = None"
    using find_dirent_stops [of es name null_dirent "[e]"] assms(8) by (simp add: null_dirent_def)
  obtain d where "find_id F junk name (fs1, dir) = Inr (case find_dirent name (es @ [null_dirent, e]) of None \<Rightarrow> 0 | Some k \<Rightarrow> k, fs1\<lparr>e_file := d\<rparr>)"
    by (rule block_file.find_id_ok [OF assms(1) a(2-4)])
  then show ?thesis using a(1) by (auto simp: f)
qed

text \<open>A directory without entries in the seventh block of the small filesystem.\<close>

definition small_dir_fs :: "(nat \<Rightarrow> byte) disk ext2" where
  "small_dir_fs = small_fs\<lparr>e_file := disk_new (\<lambda>p. if p = 3584 then 31 else if p = 6661 then 4 else 0)\<rparr>"

definition small_dir :: e2inode where
  "small_dir = small_inode\<lparr>i_id := 2, i_mode := 0x4000, i_size := 1024, i_blocks := [6]\<rparr>"

lemma small_dir_good: "small_good (e_file small_dir_fs)"
  by (simp add: small_dir_fs_def disk_new_wf)

lemma small_dir_cells: "small_cells (e_file small_dir_fs) = (\<lambda>p. if p = 3072 then 31 else if p = 6149 then 4 else 0)"
  by (auto simp: small_dir_fs_def small_cells_new)

lemma small_dir_changed: "block_file.changed small_good small_cells 9216 {} {6} small_fs small_dir_fs"
proof -
  have same: "file_block (small_cells (e_file small_dir_fs)) (e_bs small_fs) b = fs_blocks small_cells small_fs b" if "b \<notin> {6}" for b
  proof -
    have "p \<noteq> 6149" if "b * 1024 \<le> p" "p < b * 1024 + 1024" for p using that \<open>b \<notin> {6}\<close> by (cases "b < 6") auto
    then show ?thesis unfolding file_block_def small_geometry small_dir_cells small_fs_cells by (intro map_cong) auto
  qed
  have "{6} \<inter> reserved_blocks (fs_blocks small_cells small_fs) small_fs = {}" unfolding small_blocks by simp
  from block_file.changed_write [OF small_file small_fs_ok(1) small_dir_good same this] show ?thesis by (simp add: small_dir_fs_def)
qed

lemma small_dir_ok: "dir_ok 9216 small_dir_fs small_dir" "dir_place small_dir = 6"
proof -
  have "\<not> is_device small_dir" "\<not> is_symlink small_dir" "is_directory small_dir"
    by (simp_all add: is_device_def is_symlink_def is_directory_def small_dir_def mode_type_def small_inode_def)
  moreover have "e_bs small_dir_fs = 1024" by (simp add: small_dir_fs_def small_geometry)
  ultimately show "dir_ok 9216 small_dir_fs small_dir"
    by (simp add: dir_ok_def file_ok_def inode_num_blocks_def add32_def) (simp add: small_dir_def small_inode_def file_block_ok_def)
  show "dir_place small_dir = 6" by (simp add: small_dir_def get_block_pointer_def)
qed

lemma take_file_block: "n \<le> bs \<Longrightarrow> take n (file_block c bs b) = map c [b * bs..<b * bs + n]"
  by (simp add: file_block_def take_map)

lemma small_dir_block: "dir_block (e_bs small_dir_fs) (fs_blocks small_cells small_dir_fs (dir_place small_dir)) []"
proof -
  let ?b = "file_block (\<lambda>p. if p = 3072 then 31 else if p = 6149 then 4 else 0) 1024 6"
  have "take 8 ?b = [0, 0, 0, 0, 0, 4, 0, 0 :: byte]" by (subst take_file_block) simp_all
  also have "\<dots> = raw_dirent 0 1024 0 0" by code_simp
  finally have h: "take 8 ?b = raw_dirent 0 1024 0 0" .
  have "dirent_at ?b 0 1024 null_dirent"
    using put_dirent [of 0 "[]" ?b 0 1024 0 ?b] h by (simp add: null_dirent_def)
  moreover have "e_bs small_dir_fs = 1024" by (simp add: small_dir_fs_def small_geometry)
  ultimately show ?thesis unfolding small_dir_ok(2) small_dir_cells by (simp add: dir_block_def)
qed

theorem ext2_directory_roundtrip_witness:
  "\<exists>fs1. write_directory_entries small_file [] [\<lparr>de_id = 5, de_type = 1, de_name_length = 1, de_name = [97]\<rparr>] (small_dir_fs, small_dir) = Inr (None, fs1, small_dir) \<and>
     (\<exists>fs2. find_id small_file [] [97] (fs1, small_dir) = Inr (5, fs2)) \<and> (\<exists>fs2. find_id small_file [] [98] (fs1, small_dir) = Inr (0, fs2))"
proof -
  let ?e = "\<lparr>de_id = 5, de_type = 1, de_name_length = 1, de_name = [97 :: byte]\<rparr>"
  have e: "\<forall>e \<in> set [?e]. dirent_ok e" "ents_size [?e] + 8 \<le> e_bs small_dir_fs"
    by (simp_all add: dirent_ok_def dirent_size_def small_dir_fs_def small_geometry)
  obtain fs1 where fs1: "write_directory_entries small_file [] [?e] (small_dir_fs, small_dir) = Inr (None, fs1, small_dir)"
    "\<forall>name. \<exists>fs2. find_id small_file [] name (fs1, small_dir) = Inr (case find_dirent name [?e] of None \<Rightarrow> 0 | Some k \<Rightarrow> k, fs2)"
    using ext2_directory_roundtrip [OF small_file small_dir_good small_dir_ok(1) e, of "[]"] by auto
  show ?thesis using fs1(1) fs1(2) [rule_format, of "[97]"] fs1(2) [rule_format, of "[98]"] by (auto simp: cstr_def)
qed

theorem ext2_added_name_not_found_witness:
  "\<exists>fs1 inode1 fs2. add_entry small_file [] [97] (small_dir_fs, small_dir, small_inode) = Inr (None, fs1, small_dir, inode1) \<and>
     find_id small_file [] [97] (fs1, small_dir) = Inr (0, fs2)"
proof (rule ext2_added_name_not_found [OF small_file small_dir_good _ small_dir_ok(1) _ small_dir_block])
  note loc = block_file.changed_located [OF small_file small_dir_changed inode_okD(2) [OF small_inode_ok]]
  show "fs_ok 9216 (fs_blocks small_cells small_dir_fs) small_dir_fs" by (rule block_file.changedD(2) [OF small_file small_dir_changed])
  show "inode_located 9216 (fs_blocks small_cells small_dir_fs) small_dir_fs (i_id small_inode)" using loc(1) by simp
  have "table_block (fs_blocks small_cells small_dir_fs) small_dir_fs (i_id small_inode) = 5" using loc(2) small_place(3) by (simp add: small_inode_def)
  then show "table_block (fs_blocks small_cells small_dir_fs) small_dir_fs (i_id small_inode) \<noteq> dir_place small_dir" by (simp add: small_dir_ok(2))
qed (simp_all add: small_dir_def small_inode_def small_dir_fs_def small_geometry dirent_size_def cstr_def null_dirent_def)

end
