(* ===== verification/Ext2Create.thy ===== *)
theory Ext2Create
  imports Ext2Lookup LruCache
begin

text \<open>
  Creating and removing inodes and names (\<open>Ext2Filesystem::allocate_inode\<close>, \<open>free_inode\<close> and
  \<open>Ext2Inode::create_entry\<close>, \<open>remove_entry\<close>), with the cache of inodes of
  \<open>src/kernel/filesystem/FileBasedFilesystem.cpp\<close> on the model of \<open>kstd::LRUCache\<close>. An
  \<open>Arc<Inode>\<close> is the address of an inode object, so that a directory can be its own entry.
\<close>

section \<open>Objects and the cache\<close>

record 'd mount =
  m_fs :: "'d ext2"
  m_inodes :: "nat \<Rightarrow> e2inode"
  m_next :: nat
  m_cache :: "(nat, nat) lru_cache"

text \<open>An operation of the inode at an address, and a new object.\<close>

definition at_inode :: "('d ext2 \<times> e2inode \<Rightarrow> ('r \<times> 'd ext2 \<times> e2inode) result) \<Rightarrow> nat \<Rightarrow> 'd mount \<Rightarrow> ('r \<times> 'd mount) result" where
  "at_inode f a m = rbind (f (m_fs m, m_inodes m a)) (\<lambda>(r, fs, ino). Inr (r, m\<lparr>m_fs := fs, m_inodes := (m_inodes m)(a := ino)\<rparr>))"

definition new_object :: "'d ext2 \<times> e2inode \<Rightarrow> 'd mount \<Rightarrow> nat \<times> 'd mount" where
  "new_object s m = (m_next m, m\<lparr>m_fs := fst s, m_inodes := (m_inodes m)(m_next m := snd s), m_next := m_next m + 1\<rparr>)"

definition get_cached_inode :: "nat \<Rightarrow> 'd mount \<Rightarrow> ((errno + nat) \<times> 'd mount) result" where
  "get_cached_inode k m =
     rbind (lru_get (m_cache m) k) (\<lambda>(a, c).
     Inr (case a of Some a \<Rightarrow> Inr a | None \<Rightarrow> Inl ENOENT, m\<lparr>m_cache := c\<rparr>))"

definition add_cached_inode :: "nat \<Rightarrow> 'd mount \<Rightarrow> 'd mount result" where
  "add_cached_inode a m = rbind (lru_insert (m_cache m) (i_id (m_inodes m a)) a) (\<lambda>c. Inr (m\<lparr>m_cache := c\<rparr>))"

definition remove_cached_inode :: "nat \<Rightarrow> 'd mount \<Rightarrow> 'd mount result" where
  "remove_cached_inode k m = rbind (lru_erase (m_cache m) k) (\<lambda>c. Inr (m\<lparr>m_cache := c\<rparr>))"

definition get_inode :: "'d file_ops \<Rightarrow> byte list \<Rightarrow> nat \<Rightarrow> 'd mount \<Rightarrow> ((errno + nat) \<times> 'd mount) result" where
  "get_inode F junk k m =
     rbind (get_cached_inode k m) (\<lambda>(r, m1).
     case r of
       Inr a \<Rightarrow> Inr (Inr a, m1)
     | Inl _ \<Rightarrow>
         rbind (inode_load F junk (m_fs m1) k) (\<lambda>s.
         let (a, m2) = new_object s m1 in
         rbind (add_cached_inode a m2) (\<lambda>m3. Inr (Inr a, m3))))"

section \<open>Allocating an inode\<close>

fun free_inode_group :: "'d file_ops \<Rightarrow> byte list \<Rightarrow> nat list \<Rightarrow> 'd ext2 \<Rightarrow> (nat option \<times> 'd ext2) result" where
  "free_inode_group F junk [] fs = Inr (None, fs)"
| "free_inode_group F junk (i # is) fs =
     rbind (get_block_group F junk fs i) (\<lambda>(bg, fs').
     case bg of
       None \<Rightarrow> Inl Undefined
     | Some g \<Rightarrow> if g_free_inodes g > 0 then Inr (Some i, fs') else free_inode_group F junk is fs')"

fun clear_bit :: "byte list \<Rightarrow> nat list \<Rightarrow> nat option result" where
  "clear_bit buf [] = Inr None"
| "clear_bit buf (i # is) =
     (if length buf \<le> i div 8 then Inl Undefined
      else if get_bitmap_bit buf i then clear_bit buf is else Inr (Some i))"

definition raw_new :: "nat \<Rightarrow> nat \<Rightarrow> nat \<Rightarrow> nat \<Rightarrow> byte list" where
  "raw_new mode uid gid sz =
     put16 (put16 (put16 (put16 (put32 (replicate 128 0) 4 sz) 0 mode) 26 (if mode_type mode = 0x4000 then 1 else 0)) 2 uid) 24 gid"

text \<open>The constructor for a new inode; errors are logged at most.\<close>

definition inode_new :: "'d file_ops \<Rightarrow> byte list \<Rightarrow> 'd ext2 \<Rightarrow> nat \<Rightarrow> byte list \<Rightarrow> nat list \<Rightarrow> nat \<Rightarrow> ('d ext2 \<times> e2inode) result" where
  "inode_new F junk fs k raw blocks parent =
     (let ino = create_metadata \<lparr>i_id = k, i_raw = raw, i_mode = 0, i_size = 0, i_uid = 0, i_gid = 0, i_dev = (0, 0),
                  i_blocks = blocks, i_ptr_blocks = [], i_dirty = False, i_exists = True\<rparr> in
      rbind (if mode_type (get16 raw 0) = 0x4000 then
               rbind (dirent_new k 2 [46]) (\<lambda>self.
               rbind (dirent_new parent 2 [46, 46]) (\<lambda>up.
               rbind (write_directory_entries F junk [self, up] (fs, ino)) (\<lambda>(_, s).
               Inr s)))
             else Inr (fs, ino)) (\<lambda>s.
      rbind (write_to_disk F junk s) (\<lambda>(_, s'). Inr s')))"

text \<open>\<open>allocate_inode\<close>, from the group that has been found on.\<close>

definition allocate_inode_in :: "'d file_ops \<Rightarrow> byte list \<Rightarrow> nat \<Rightarrow> nat \<Rightarrow> nat \<Rightarrow> nat \<Rightarrow> nat \<Rightarrow> nat \<Rightarrow> 'd ext2 \<Rightarrow> ((errno + e2inode) \<times> 'd ext2) result" where
  "allocate_inode_in F junk bg mode uid gid sz parent fs =
     (case block_groups fs bg of
        None \<Rightarrow> Inl Undefined
      | Some g \<Rightarrow>
          rbind (e2_read F fs (inode_bitmap_block g) (stack_array (e_bs fs) junk)) (\<lambda>(res, buf, fs1).
          case res of
            Some e \<Rightarrow> Inr (Inl e, fs1)
          | None \<Rightarrow>
              rbind (clear_bit buf [0..<sb_inodes_per_group (superblock fs1)]) (\<lambda>found.
              rbind (e2_write F fs1 (inode_bitmap_block g) (case found of None \<Rightarrow> buf | Some i \<Rightarrow> set_bitmap_bit buf i True)) (\<lambda>(_, fs2).
              case found of
                None \<Rightarrow>
                  let g' = g\<lparr>g_free_inodes := 0\<rparr> in
                  rbind (group_write F junk g' (set_group g' fs2)) (\<lambda>fs3. Inr (Inl ENOSPC, fs3))
              | Some i \<Rightarrow>
                  let g' = g\<lparr>g_free_inodes := dec_mod 16 (g_free_inodes g),
                             g_num_directories := (if mode_type mode = 0x4000 then inc_mod 16 (g_num_directories g) else g_num_directories g)\<rparr> in
                  rbind (group_write F junk g' (set_group g' fs2)) (\<lambda>fs3.
                  let num_blocks = add32 sz (e_bs fs3 - 1) div e_bs fs3 in
                  rbind (if num_blocks = 0 then Inr (Inr [], fs3) else allocate_blocks F junk fs3 num_blocks True) (\<lambda>(res, fs4).
                  case res of
                    Inl e \<Rightarrow> Inr (Inl e, fs4)
                  | Inr blocks \<Rightarrow>
                      rbind (inode_new F junk fs4 (add32 (mul32 bg (sb_inodes_per_group (superblock fs4))) (i + 1)) (raw_new mode uid gid sz) blocks parent) (\<lambda>(fs5, ino).
                      rbind (write_superblock F (fs5\<lparr>superblock := put32 (superblock fs5) 16 (dec_mod 32 (sb_free_inodes (superblock fs5)))\<rparr>)) (\<lambda>fs6.
                      Inr (Inr ino, fs6)))))))))"

definition allocate_inode :: "'d file_ops \<Rightarrow> byte list \<Rightarrow> nat \<Rightarrow> nat \<Rightarrow> nat \<Rightarrow> nat \<Rightarrow> nat \<Rightarrow> 'd mount \<Rightarrow> ((errno + nat) \<times> 'd mount) result" where
  "allocate_inode F junk mode uid gid sz parent m =
     rbind (free_inode_group F junk [0..<num_block_groups (m_fs m)] (m_fs m)) (\<lambda>(bg, fs1).
     case bg of
       None \<Rightarrow> Inr (Inl ENOSPC, m\<lparr>m_fs := fs1\<rparr>)
     | Some bg \<Rightarrow>
         rbind (allocate_inode_in F junk bg mode uid gid sz parent fs1) (\<lambda>(res, fs2).
         case res of
           Inl e \<Rightarrow> Inr (Inl e, m\<lparr>m_fs := fs2\<rparr>)
         | Inr ino \<Rightarrow>
             let (a, m2) = new_object (fs2, ino) m in
             rbind (add_cached_inode a m2) (\<lambda>m3. Inr (Inr a, m3))))"

section \<open>Freeing an inode\<close>

definition free_inode :: "'d file_ops \<Rightarrow> byte list \<Rightarrow> 'd ext2 \<times> e2inode \<Rightarrow> (status \<times> 'd ext2 \<times> e2inode) result" where
  "free_inode F junk s =
     (case s of (fs, ino) \<Rightarrow>
        if sb_inodes_per_group (superblock fs) = 0 \<or> inodes_per_block fs = 0 then Inl Undefined
        else
          rbind (get_block_group F junk fs (inode_group fs (i_id ino))) (\<lambda>(bg, fs1).
          case bg of
            None \<Rightarrow> Inl Undefined
          | Some g \<Rightarrow>
              rbind (e2_read F fs1 (inode_bitmap_block g) (stack_array (e_bs fs1) junk)) (\<lambda>(res, buf, fs2).
              if res \<noteq> None then Inr (res, fs2, ino)
              else if length buf \<le> inode_index fs2 (i_id ino) div 8 then Inl Undefined
              else
                rbind (e2_write F fs2 (inode_bitmap_block g) (set_bitmap_bit buf (inode_index fs2 (i_id ino)) False)) (\<lambda>(res, fs3).
                if res \<noteq> None then Inr (res, fs3, ino)
                else
                  rbind (free_all_blocks F junk (fs3, ino)) (\<lambda>fs4.
                  case block_groups fs4 (g_num g) of
                    None \<Rightarrow> Inl Undefined
                  | Some g1 \<Rightarrow>
                      let g2 = g1\<lparr>g_free_inodes := inc_mod 16 (g_free_inodes g1),
                                  g_num_directories := (if is_directory ino then dec_mod 16 (g_num_directories g1) else g_num_directories g1)\<rparr> in
                      rbind (group_write F junk g2 (set_group g2 fs4)) (\<lambda>fs5.
                      let b = inode_table_block g2 + inode_block fs5 (i_id ino);
                          off = 128 * (inode_index fs5 (i_id ino) mod inodes_per_block fs5) in
                      rbind (e2_read F fs5 b (set_bitmap_bit buf (inode_index fs2 (i_id ino)) False)) (\<lambda>(_, table, fs6).
                      if length table < off + 128 then Inl Undefined
                      else
                        rbind (e2_write F fs6 b (put32 table (off + 20) 0x42069)) (\<lambda>(_, fs7).
                        rbind (write_superblock F (fs7\<lparr>superblock := put32 (superblock fs7) 16 (inc_mod 32 (sb_free_inodes (superblock fs7)))\<rparr>)) (\<lambda>fs8.
                        Inr (None, fs8, ino\<lparr>i_exists := False\<rparr>))))))))))"

definition write_entry_at :: "'d file_ops \<Rightarrow> byte list \<Rightarrow> (byte list \<Rightarrow> byte list) \<Rightarrow> nat \<Rightarrow> 'd mount \<Rightarrow> (unit \<times> 'd mount) result" where
  "write_entry_at F junk f = at_inode (\<lambda>(fs, ino). rbind (write_inode_entry F junk (fs, upd_raw f ino)) (\<lambda>s. Inr ((), s)))"

definition reduce_hardlink_count :: "'d file_ops \<Rightarrow> byte list \<Rightarrow> nat \<Rightarrow> 'd mount \<Rightarrow> 'd mount result" where
  "reduce_hardlink_count F junk a m =
     rbind (write_entry_at F junk (\<lambda>raw. put16 raw 26 (dec_mod 16 (hard_links raw))) a m) (\<lambda>(_, m1).
     if hard_links (i_raw (m_inodes m1 a)) = 0 then
       rbind (remove_cached_inode (i_id (m_inodes m1 a)) m1) (\<lambda>m2.
       rbind (at_inode (free_inode F junk) a m2) (\<lambda>(_, m3). Inr m3))
     else Inr m1)"

section \<open>Names\<close>

definition entries_of :: "'d file_ops \<Rightarrow> byte list \<Rightarrow> nat \<Rightarrow> 'd mount \<Rightarrow> (dirent list \<times> 'd mount) result" where
  "entries_of F junk a m =
     rbind (iterate_entries F junk (\<lambda>_. False) (m_fs m, m_inodes m a)) (\<lambda>(es, fs). Inr (es, m\<lparr>m_fs := fs\<rparr>))"

text \<open>The loop of \<open>try_remove_dir\<close> over the first two entries.\<close>

fun unlink_parents :: "'d file_ops \<Rightarrow> byte list \<Rightarrow> nat \<Rightarrow> dirent list \<Rightarrow> nat list \<Rightarrow> 'd mount \<Rightarrow> (status \<times> 'd mount) result" where
  "unlink_parents F junk a es [] m = Inr (None, m)"
| "unlink_parents F junk a es (i # is) m =
     rassert (i < length es)
      (if de_id (es ! i) \<noteq> i_id (m_inodes m a) then
         rbind (get_inode F junk (de_id (es ! i)) m) (\<lambda>(r, m1).
         case r of
           Inl e \<Rightarrow> Inr (Some e, m1)
         | Inr p \<Rightarrow> rbind (reduce_hardlink_count F junk p m1) (unlink_parents F junk a es is))
       else unlink_parents F junk a es is m)"

definition try_remove_dir :: "'d file_ops \<Rightarrow> byte list \<Rightarrow> nat \<Rightarrow> 'd mount \<Rightarrow> (status \<times> 'd mount) result" where
  "try_remove_dir F junk a m =
     (if \<not> is_directory (m_inodes m a) then Inr (Some ENOTDIR, m)
      else
        rbind (entries_of F junk a m) (\<lambda>(es, m1).
        rbind (unlink_parents F junk a es [0, 1] m1) (\<lambda>(res, m2).
        if res \<noteq> None then Inr (res, m2)
        else
          rbind (write_entry_at F junk (\<lambda>raw. put16 raw 26 0) a m2) (\<lambda>(_, m3).
          rbind (remove_cached_inode (i_id (m_inodes m3 a)) m3) (\<lambda>m4.
          rbind (at_inode (free_inode F junk) a m4) (\<lambda>(_, m5).
          Inr (None, m5)))))))"

definition add_entry_at :: "'d file_ops \<Rightarrow> byte list \<Rightarrow> byte list \<Rightarrow> nat \<Rightarrow> nat \<Rightarrow> 'd mount \<Rightarrow> (status \<times> 'd mount) result" where
  "add_entry_at F junk name a b m =
     rbind (add_entry F junk name (m_fs m, m_inodes m a, m_inodes m b)) (\<lambda>(res, fs, dir, inode).
     Inr (res, m\<lparr>m_fs := fs, m_inodes := (m_inodes m)(a := dir, b := inode)\<rparr>))"

definition create_entry :: "'d file_ops \<Rightarrow> byte list \<Rightarrow> byte list \<Rightarrow> nat \<Rightarrow> nat \<Rightarrow> nat \<Rightarrow> nat \<Rightarrow> 'd mount \<Rightarrow> ((errno + nat) \<times> 'd mount) result" where
  "create_entry F junk name mode uid gid a m =
     (if length name = 0 \<or> length name > NAME_MAXLEN then Inr (Inl ENAMETOOLONG, m)
      else
        rbind (allocate_inode F junk mode uid gid 0 (i_id (m_inodes m a)) m) (\<lambda>(res, m1).
        case res of
          Inl e \<Rightarrow> Inr (Inl e, m1)
        | Inr b \<Rightarrow>
            rbind (if mode_type mode = 0x4000 then write_entry_at F junk (\<lambda>raw. put16 raw 26 (inc_mod 16 (hard_links raw))) a m1 else Inr ((), m1)) (\<lambda>(_, m2).
            rbind (add_entry_at F junk name a b m2) (\<lambda>(res, m3).
            case res of
              Some e \<Rightarrow> rbind (at_inode (free_inode F junk) b m3) (\<lambda>(_, m4). Inr (Inl e, m4))
            | None \<Rightarrow> Inr (Inr b, m3)))))"

text \<open>The last of the entries with a name, as the callback of \<open>remove_entry\<close> finds it.\<close>

definition last_named :: "byte list \<Rightarrow> dirent list \<Rightarrow> nat option" where
  "last_named name es = (case rev (filter (\<lambda>i. cstr name = cstr (de_name (es ! i))) [0..<length es]) of [] \<Rightarrow> None | i # _ \<Rightarrow> Some i)"

definition remove_entry :: "'d file_ops \<Rightarrow> byte list \<Rightarrow> byte list \<Rightarrow> nat \<Rightarrow> 'd mount \<Rightarrow> (status \<times> 'd mount) result" where
  "remove_entry F junk name a m =
     (if \<not> is_directory (m_inodes m a) then Inr (Some ENOTDIR, m)
      else if length name = 0 \<or> length name > NAME_MAXLEN then Inr (Some ENAMETOOLONG, m)
      else
        rbind (entries_of F junk a m) (\<lambda>(es, m1).
        case last_named name es of
          None \<Rightarrow> Inr (Some ENOENT, m1)
        | Some i \<Rightarrow>
            rbind (get_inode F junk (de_id (es ! i)) m1) (\<lambda>(r, m2).
            case r of
              Inl e \<Rightarrow> Inr (Some e, m2)
            | Inr b \<Rightarrow>
                rbind (if is_directory (m_inodes m2 b) then try_remove_dir F junk b m2
                       else rbind (reduce_hardlink_count F junk b m2) (\<lambda>m3. Inr (None, m3))) (\<lambda>(res, m3).
                if res \<noteq> None then Inr (res, m3)
                else
                  rbind (at_inode (write_directory_entries F junk (take i es @ drop (Suc i) es)) a m3) (\<lambda>(res, m4).
                  if res \<noteq> None \<or> \<not> i_dirty (m_inodes m4 a) then Inr (res, m4)
                  else at_inode (write_to_disk F junk) a m4)))))"

end
