(* ===== verification/Spec2Isabelle.thy ===== *)
theory Spec2Isabelle
  imports CircularQueue KQueue AvlMap KVector LruCache DiskCache PataDevice PhysicalRegion Terminal TTYDevice Framebuffer AddressSpace UxnProgram Ext2Create
begin

text \<open>
  Verification of duckOS, a small operating system: a kernel (\<open>src/kernel\<close>), the libraries of its
  user space (\<open>src/libraries\<close>), services (\<open>src/services\<close>) and programs (\<open>src/programs\<close>).

  \<^bold>\<open>The program.\<close> The kernel brings its own containers (\<open>kstd\<close>). On them it builds the cache of disk
  blocks, through which PATA disks and their partitions are read and written, the ext2 filesystem on
  such a partition, and the management of memory: a buddy allocator hands out physical pages, page
  directories translate pages to frames, and an address space keeps the list of its regions, maps objects into them and resolves page
  faults. Terminals take typed characters through a line discipline and show output with an
  emulator that the kernel and the terminal application share. The graphics library draws into
  arrays of pixels. Among the applications there is an interpreter of the Uxn machine.

  \<^bold>\<open>Conventions.\<close> The definitions follow the C++ code function by function. \<^const>\<open>rbind\<close> is its
  sequence of statements: a failure is an error code that the code returns, a failed \<open>ASSERT\<close> or
  \<open>PANIC\<close>, behaviour that C++ leaves undefined (an access outside an array, a null pointer, a cell
  without an object), or a loop that does not end. Pointers are addresses in an explicit store
  where nodes are shared or relinked. Values that C++ reads from memory before it is written are
  arguments. Integers have their width where the code can come to its limits (\<open>8 word\<close> to
  \<open>32 word\<close>, or \<open>sub32\<close> and the like), and are natural numbers or integers otherwise.

  \<^bold>\<open>Theories, in the order of their dependence.\<close>

  \<^item> \<open>Prelude\<close>: failures, the sequencing of fallible steps, loops, and the locale \<open>data_refinement\<close>,
    which lifts the simulation of one operation to every sequence of operations; all refinements of
    containers are interpretations of it. \<open>WordBits\<close>: bits of words. \<open>LinkedList\<close>: doubly linked
    lists in a store, for the free lists of the allocator and the regions of an address space.
  \<^item> \<open>Ring\<close>, \<open>CircularQueue\<close>, \<open>KQueue\<close>: \<open>kstd/circular_queue.hpp\<close> and \<open>kstd/queue.hpp\<close>, with the ring
    layout that both share. They refine a bounded and an unbounded double-ended queue; the scan of
    \<open>contains\<close> is characterised, with its wrong end. \<open>SizeQueue\<close>: the queue at the element type \<open>size_t\<close>,
    where that scan reads zeros and old numbers; it always finds what is in the queue.
  \<^item> \<open>AvlMap\<close>: \<open>kstd/map.hpp\<close>. A node's parent pointers are the path of a zipper. Under all operations
    the map refines a finite function and stays an AVL tree; iteration visits the keys in order.
  \<^item> \<open>KVector\<close>, \<open>LruCache\<close>: \<open>kstd/vector.hpp\<close> refines lists, and \<open>kstd/LRUCache.h\<close>, on the models of map
    and vector, a list of entries in the order of their last use.
  \<^item> \<open>DiskCache\<close>: \<open>device/DiskDevice.cpp\<close>. The device below the cache is a record of operations that may
    fail; the class ignores their results. The properties assume the documented behaviour of a device
    whose transfers succeed (\<open>disk_device\<close>), which an array of bytes satisfies: reads and writes
    through the cache are reads and writes of the disk, eviction and writeback lose nothing.
  \<^item> \<open>PataDevice\<close>: the byte access of \<open>arch/i386/device/PATADevice.cpp\<close> and \<open>device/PartitionDevice.cpp\<close>,
    with the sums of offsets at 32 bits.
  \<^item> \<open>BlockFile\<close>: the blocks of \<open>filesystem/FileBasedFilesystem.cpp\<close>. The locale \<open>block_file\<close> is what a
    filesystem relies on in the file below it: within a capacity, reads and writes succeed. The
    partitions of every such disk are shown to provide it, up to the 4 GiB that the code can address;
    the examples of the ext2 theories run on a partition.
  \<^item> \<open>Ext2Filesystem\<close> (the code of \<open>ext2/Ext2Filesystem.cpp\<close> and \<open>Ext2BlockGroup.cpp\<close>) and \<open>Ext2Alloc\<close>: the
    free blocks as the bitmaps record them, the invariant of the filesystem, and allocation, which
    takes free blocks only, disturbs nothing else, and fills the filesystem before it gives up.
  \<^item> \<open>Ext2Inode\<close> (inodes, block pointers, \<open>read\<close>, \<open>write\<close> and \<open>truncate\<close> of \<open>ext2/Ext2Inode.cpp\<close>), \<open>Ext2File\<close>
    (the bytes of a file and the loops over its blocks), \<open>Ext2Store\<close> (the inode on the disk) and
    \<open>Ext2Write\<close> (the invariant of an inode): reading gives the bytes of the file, writing changes the
    range asked for, also past the end, and what was written is read back from the inode on disk.
    The lemmas about pointers cover files of up to twelve blocks and one indirect block; doubly and
    triply indirect blocks are modelled but not covered.
  \<^item> \<open>Ext2Directory\<close> (entries and their reading, searching and writing), \<open>Ext2Lookup\<close> (directories of one
    block: what is written is read back, but a name added later is not found) and \<open>Ext2Create\<close> (the
    code that allocates and frees inodes, the inode cache, and creating and removing names).
  \<^item> \<open>Bitmap\<close>, \<open>BuddyZone\<close>, \<open>PhysicalRegion\<close>: \<open>kstd/Bitmap.h\<close>, \<open>memory/PhysicalPage.h\<close>, \<open>BuddyZone.cpp\<close>
    and \<open>PhysicalRegion.cpp\<close>. Over all histories of a zone, allocation returns aligned unused pages,
    releasing returns, and an unused zone serves every request; the regions' zones tile them.
  \<^item> \<open>PageDirectory\<close>: \<open>arch/i386/PageDirectory.cpp\<close> and \<open>memory/PageDirectory.cpp\<close>; a directory refines a
    partial function from pages to frames.
  \<^item> \<open>VMSpace\<close> (the code of \<open>memory/VMSpace.cpp\<close> and the objects it maps), \<open>VMLayout\<close> (the list of regions
    as extents that tile the space, and each operation on it), \<open>VMMapping\<close> (the invariant that joins
    regions and page directory), \<open>AddressSpace\<close> (reachable spaces by rule induction, and the
    properties): spaces stay intact, mapping succeeds when it can and has exactly the effect asked
    for, unmapping undoes it, and page faults are resolved. The page faults of a history are those
    that map a page of their region; the others, which \<open>VMSpace.cpp\<close> sends to a wrong page in regions
    that start inside their object, are the subject of \<open>pagefault_offset_unresolved\<close>.
  \<^item> \<open>Terminal\<close>: \<open>libterm/Terminal.cpp\<close> and \<open>Line.cpp\<close>, with escape sequences and UTF-8. Under all public
    operations, as long as the few arguments that the code does not check are sensible, a listener
    can mirror the screen from the calls that it gets. \<open>TTYDevice\<close>: the line discipline of
    \<open>terminal/TTYDevice.cpp\<close> on the model of \<open>circular_queue\<close>.
  \<^item> \<open>Geometry\<close>, \<open>Framebuffer\<close>: \<open>libgraphics/Geometry.h\<close>, \<open>Color.h\<close>, \<open>Framebuffer.cpp\<close> and the lookup of
    glyphs. Rectangles are a lattice of pixel areas, over unbounded integers; each drawing operation,
    outlines and text included, touches the pixels of its area alone and gives them the specified
    value.
  \<^item> \<open>UxnMachine\<close>, \<open>UxnReference\<close>, \<open>UxnProgram\<close>: \<open>applications/uxn\<close>. The interpreter at the width of its
    registers, the instruction set as a list machine, and their equivalence on programs that end, also
    for \<open>main\<close> with the ROM that it loads.

  \<^bold>\<open>Loops and fuel.\<close> A loop over an index or a list is a structural recursion. Loops that may not end
  are partial functions with \<open>None\<close> for that case, and the properties show that they return:
  the walk over linked regions, the rebalancing of a tree, the loops of \<open>PATADevice\<close>, the search for
  free blocks and the iteration over a directory. The loops over the bytes of a file end because
  each turn takes some. \<open>free_pages\<close>
  has as fuel the number of pages asked for, of which each turn frees at least one; the writeback
  has the length of the queue, which each turn shortens; the scan of \<open>queue::contains\<close> has the
  capacity, after which it would have come back to its start.

  \<^bold>\<open>Not modelled.\<close> Drivers, interrupts and ports (\<open>src/kernel/arch\<close>, \<open>device\<close>, \<open>pci\<close>, \<open>interrupt\<close>, \<open>time\<close>)
  are effects on hardware that the sources do not describe, and the aarch64 port repeats the
  structure of the i386 one. Locks and the interleaving of threads are left out: each operation
  runs under its component's mutex. Of the filesystems only ext2 is modelled, without the destructor of
  an inode; path resolution, file descriptors, the filesystems in memory, sockets, processes and the
  system calls on top of them (\<open>src/kernel/filesystem\<close>, \<open>net\<close>,
  \<open>tasking\<close>, \<open>syscall\<close>) are not modelled, nor is \<open>VMSpace::fork\<close>,
  whose effect lies in the contents of pages. The C library mostly forwards to system calls. The widget
  library, the window server and the applications (\<open>src/libraries/libui\<close>,
  \<open>libpond\<close>, \<open>libapp\<close>, \<open>lib3d\<close>, \<open>src/services\<close>,
  \<open>src/programs\<close>) consist of event handlers over state that is spread over other processes.
  Floating-point drawing has no counterpart in the integers.
\<close>

section \<open>A file on a disk\<close>

text \<open>
  C16. Reading a file of an ext2 filesystem on a partition, down through \<open>Ext2Inode\<close>,
  \<open>FileBasedFilesystem\<close>, \<open>PartitionDevice\<close>, \<open>PATADevice\<close> and the cache of \<open>DiskDevice\<close>, on a disk whose
  transfers succeed, with every block of the file on the disk and below the 4 GiB that a \<open>size_t\<close> can
  address: the bytes that arrive are those the disk, with what the cache has not written back yet,
  holds in the blocks of the file, shifted by the \<open>_offset\<close> of the partition. No byte from that offset
  on changes.
\<close>

theorem disk_file_read:
  fixes start count n :: nat and buf :: "byte list"
  assumes "disk_device ops" "max_block < 2 ^ 32" "part_offset p \<le> max_block * block_size ops" "part_offset p < 2 ^ 32" "disk_wf ops (e_file fs)"
    "file_ok (part_cap ops max_block p) fs ino"
    "start \<le> i_size ino" "start + count < 2 ^ 32" "count \<le> length buf" "n = min count (i_size ino - start)"
  shows "\<exists>fs'. inode_read (partition_file ops time max_block p) junk start count buf (fs, ino) =
      Inr (Inr n, put_at buf 0 (map (\<lambda>k. disk_byte ops (e_file fs)
        (part_offset p + get_block_pointer ino (k div e_bs fs) * e_bs fs + k mod e_bs fs)) [start..<start + n]), fs') \<and>
    disk_wf ops (e_file fs') \<and> (\<forall>i. disk_byte ops (e_file fs') (part_offset p + i) = disk_byte ops (e_file fs) (part_offset p + i))"
proof -
  let ?F = "partition_file ops time max_block p" and ?cells = "\<lambda>s i. disk_byte ops s (i + part_offset p)"
  have part: "disk_partition ops max_block p" by unfold_locales (rule assms(1-4))+
  obtain d where d: "inode_read ?F junk start count buf (fs, ino) = Inr (Inr n, put_at buf 0 (inode_bytes (fs_blocks ?cells fs) (e_bs fs) ino start n), fs\<lparr>e_file := d\<rparr>)"
    "disk_wf ops d" "?cells d = ?cells (e_file fs)"
    unfolding assms(10) by (rule block_file.inode_read_ok [OF disk_partition.partition_is_file [OF part] assms(6,5,7-9)])
  have b: "inode_byte (fs_blocks ?cells fs) (e_bs fs) ino = (\<lambda>k. disk_byte ops (e_file fs) (part_offset p + get_block_pointer ino (k div e_bs fs) * e_bs fs + k mod e_bs fs))"
    using file_okD(1) [OF assms(6)] by (simp add: fun_eq_iff inode_byte_def file_block_def ac_simps)
  have "disk_byte ops d (part_offset p + i) = disk_byte ops (e_file fs) (part_offset p + i)" for i using fun_cong [OF d(3), of i] by (simp add: add.commute)
  then show ?thesis using d(1,2) unfolding inode_bytes_def b by (intro exI [of _ "fs\<lparr>e_file := d\<rparr>"]) simp
qed

lemma text_disk: "disk_byte (ram_disk 512) (e_file text_fs) (512 + i) = (if i = 6144 then 97 else if i = 6145 then 98 else if i = 6146 then 99 else 0)"
  using fun_cong [OF small_cells_new, of _ i] by (simp add: text_fs_def small_cells_def small_partition add.commute)

theorem disk_file_read_witness:
  "\<exists>fs'. inode_read (partition_file (ram_disk 512) 0 19 small_partition) [] 0 5 [7, 7, 7, 7, 7] (text_fs, text_inode) = Inr (Inr 3, [97, 98, 99, 7, 7], fs')"
proof -
  have i: "get_block_pointer text_inode 0 = 6" "i_size text_inode = 3" "e_bs text_fs = 1024"
    by (simp_all add: get_block_pointer_def text_inode_def text_fs_def small_geometry)
  have f: "file_ok (part_cap (ram_disk 512) 19 small_partition) text_fs text_inode"
    using text_file_ok by (simp add: part_cap_def small_partition)
  have wf: "disk_wf (ram_disk 512) (e_file text_fs)" by (simp add: text_fs_def disk_new_wf)
  have "\<exists>fs'. inode_read (partition_file (ram_disk 512) 0 19 small_partition) [] 0 5 [7, 7, 7, 7, 7] (text_fs, text_inode) =
      Inr (Inr 3, put_at [7, 7, 7, 7, 7] 0 (map (\<lambda>k. disk_byte (ram_disk 512) (e_file text_fs)
        (part_offset small_partition + get_block_pointer text_inode (k div e_bs text_fs) * e_bs text_fs + k mod e_bs text_fs)) [0..<0 + 3]), fs') \<and>
    disk_wf (ram_disk 512) (e_file fs') \<and>
    (\<forall>i. disk_byte (ram_disk 512) (e_file fs') (part_offset small_partition + i) = disk_byte (ram_disk 512) (e_file text_fs) (part_offset small_partition + i))"
    by (rule disk_file_read [OF _ _ _ _ wf f]) (simp_all add: ram_disk_device PAGE_SIZE_def i small_partition)
  moreover have "map (\<lambda>k. disk_byte (ram_disk 512) (e_file text_fs)
        (part_offset small_partition + get_block_pointer text_inode (k div e_bs text_fs) * e_bs text_fs + k mod e_bs text_fs)) [0..<0 + 3] = [97, 98, 99]"
    by (simp add: upt_rec i small_partition text_disk add.assoc del: add_2_eq_Suc')
  ultimately show ?thesis by (auto simp: put_at_def)
qed

end
